(* ===== verification/Prelude.thy ===== *)
theory Prelude
  imports "HOL-Library.Word" "HOL-Library.Signed_Division"
begin

unbundle bit_operations_syntax

text \<open>
  Shared ground of the development: the machine integers of the Rust code, the shapes its
  loops take, and the lemmas on lists and words every component uses.

  \<^item> \<open>u64\<close> is \<open>64 word\<close>, so \<open>wrapping_add\<close>, \<open>wrapping_mul\<close> and
    the shifts are the word operations.
  \<^item> \<open>i32\<close> is \<open>int\<close>; \<open>wrap32\<close> is the two's complement reduction a release
    build performs, written out where the code computes array indices.
  \<^item> \<open>usize\<close> is \<open>nat\<close>; \<open>usize_of\<close> is the \<open>as usize\<close> cast, which
    sends a negative value far above every array length.
  \<^item> a \<open>for\<close> loop that updates an array is a \<open>fold\<close> over the list of its indices.
\<close>

section \<open>Machine integers\<close>

type_synonym u64 = "64 word"
type_synonym i32 = int

definition wrap32 :: "int \<Rightarrow> i32" where
  "wrap32 k = signed_take_bit 31 k"

definition usize_of :: "i32 \<Rightarrow> nat" where
  "usize_of k = nat (take_bit 64 k)"

text \<open>Rust's \<open>wrapping_shl\<close>/\<open>wrapping_shr\<close> reduce the shift amount modulo 64.\<close>

definition wrapping_shl :: "u64 \<Rightarrow> nat \<Rightarrow> u64" where
  "wrapping_shl w s = push_bit (s mod 64) w"

definition wrapping_shr :: "u64 \<Rightarrow> nat \<Rightarrow> u64" where
  "wrapping_shr w s = drop_bit (s mod 64) w"

definition count_ones :: "u64 \<Rightarrow> nat" where
  "count_ones w = length (filter (bit w) [0..<64])"

definition trailing_zeros :: "u64 \<Rightarrow> nat" where
  "trailing_zeros w = (case filter (bit w) [0..<64] of [] \<Rightarrow> 64 | b # _ \<Rightarrow> b)"

text \<open>\<open>a.div_ceil(b)\<close> on unsigned integers.\<close>

definition div_ceil :: "nat \<Rightarrow> nat \<Rightarrow> nat" where
  "div_ceil a b = (a + b - 1) div b"

section \<open>Collections of facts\<close>

named_theorems idx_simps "index arithmetic of the flat arrays"
named_theorems inv_intros "operations keep the invariants of their component"

section \<open>Casts\<close>

lemma wrap32_id [idx_simps]: "0 \<le> k \<Longrightarrow> k < 2 ^ 31 \<Longrightarrow> wrap32 k = k"
  by (simp add: wrap32_def signed_take_bit_int_eq_self)

lemma usize_of_nonneg [idx_simps]: "0 \<le> k \<Longrightarrow> k < 2 ^ 31 \<Longrightarrow> usize_of k = nat k"
  by (simp add: usize_of_def take_bit_int_eq_self)

lemma usize_of_int [idx_simps]: "n < 2 ^ 31 \<Longrightarrow> usize_of (int n) = n"
  by (simp add: usize_of_nonneg)

lemma usize_of_neg: "- (2 ^ 31) \<le> k \<Longrightarrow> k < 0 \<Longrightarrow> 2 ^ 63 \<le> usize_of k"
proof -
  assume k: "- (2 ^ 31) \<le> k" "k < 0"
  have "take_bit 64 k = (k + 2 ^ 64) mod 2 ^ 64"
    unfolding take_bit_eq_mod by (rule mod_add_self2 [symmetric])
  also have "\<dots> = k + 2 ^ 64"
    by (rule mod_pos_pos_trivial) (use k in simp_all)
  finally have e: "take_bit 64 k = k + 2 ^ 64" .
  show ?thesis
    unfolding usize_of_def e using k by simp
qed

section \<open>Loops that accumulate into an array of words\<close>

text \<open>
  Every pass of the dilation is a loop whose body ORs words into an array. If one iteration
  adds the bits \<open>C x\<close>, the loop adds the bits of all its iterations, in any order.
\<close>

lemma fold_or_collect:
  assumes len: "\<And>x d. x \<in> set xs \<Longrightarrow> length d = n \<Longrightarrow> length (f x d) = n"
    and step: "\<And>x d j b. x \<in> set xs \<Longrightarrow> length d = n \<Longrightarrow> j < n \<Longrightarrow>
      bit (f x d ! j) b \<longleftrightarrow> bit (d ! j) b \<or> C x j b"
    and d: "length (d :: 'a::len word list) = n"
  shows "length (fold f xs d) = n \<and>
    (\<forall>j<n. \<forall>b. bit (fold f xs d ! j) b \<longleftrightarrow> bit (d ! j) b \<or> (\<exists>x\<in>set xs. C x j b))"
  using len step d
proof (induction xs arbitrary: d)
  case (Cons x xs)
  have "length (f x d) = n" using Cons.prems(1,3) by simp
  then have "length (fold f xs (f x d)) = n \<and> (\<forall>j<n. \<forall>b. bit (fold f xs (f x d) ! j) b
      \<longleftrightarrow> bit (f x d ! j) b \<or> (\<exists>x\<in>set xs. C x j b))"
    using Cons.IH [of "f x d"] Cons.prems(1,2) by simp
  then show ?case using Cons.prems(2,3) by auto
qed simp

lemma fold_and_collect:
  assumes len: "\<And>x d. x \<in> set xs \<Longrightarrow> length d = n \<Longrightarrow> length (f x d) = n"
    and step: "\<And>x d j b. x \<in> set xs \<Longrightarrow> length d = n \<Longrightarrow> j < n \<Longrightarrow>
      bit (f x d ! j) b \<longleftrightarrow> bit (d ! j) b \<and> C x j b"
    and d: "length (d :: 'a::len word list) = n"
  shows "length (fold f xs d) = n \<and>
    (\<forall>j<n. \<forall>b. bit (fold f xs d ! j) b \<longleftrightarrow> bit (d ! j) b \<and> (\<forall>x\<in>set xs. C x j b))"
  using len step d
proof (induction xs arbitrary: d)
  case (Cons x xs)
  have "length (f x d) = n" using Cons.prems(1,3) by simp
  then have "length (fold f xs (f x d)) = n \<and> (\<forall>j<n. \<forall>b. bit (fold f xs (f x d) ! j) b
      \<longleftrightarrow> bit (f x d ! j) b \<and> (\<forall>x\<in>set xs. C x j b))"
    using Cons.IH [of "f x d"] Cons.prems(1,2) by simp
  then show ?case using Cons.prems(2,3) by auto
qed simp

lemma nth_update_at: "j < length d \<Longrightarrow> d[i := v] ! j = (if i = j then v else d ! j)"
  by (cases "i = j") simp_all

section \<open>Row-major indices\<close>

lemma row_major_div: "(i::nat) < w \<Longrightarrow> (y * w + i) div w = y"
  by (cases "w = 0") auto

lemma row_major_mod: "(i::nat) < w \<Longrightarrow> (y * w + i) mod w = i"
  by simp

lemma row_major_less [idx_simps]:
  assumes "(y::nat) < h" and "i < w"
  shows "y * w + i < h * w"
proof -
  have "y * w + i < Suc y * w" using assms(2) by simp
  also have "\<dots> \<le> h * w" using assms(1) by (intro mult_le_mono1) simp
  finally show ?thesis .
qed

lemma row_major_eq [idx_simps]:
  assumes "(i::nat) < w" and "i' < w"
  shows "y * w + i = y' * w + i' \<longleftrightarrow> y = y' \<and> i = i'"
  using row_major_div [OF assms(1), of y] row_major_div [OF assms(2), of y']
    row_major_mod [OF assms(1), of y] row_major_mod [OF assms(2), of y'] by metis

lemma row_major_range [idx_simps]:
  assumes "(i::nat) < w"
  shows "(y' * w \<le> y * w + i \<and> y * w + i < y' * w + w) \<longleftrightarrow> y = y'"
proof
  assume h: "y' * w \<le> y * w + i \<and> y * w + i < y' * w + w"
  then have "y * w + i = y' * w + (y * w + i - y' * w)" "y * w + i - y' * w < w" by auto
  with assms show "y = y'" by (metis row_major_eq)
qed (use assms in auto)

lemma div_ceil_eq:
  assumes "0 < b"
  shows "div_ceil a b = a div b + (if a mod b = 0 then 0 else 1)"
proof (cases "a mod b = 0")
  case True
  then have "a + b - 1 = a div b * b + (b - 1)" using assms by (auto simp: algebra_simps)
  moreover have "(a div b * b + (b - 1)) div b = a div b"
    using assms by (intro row_major_div) simp
  ultimately show ?thesis using True by (simp add: div_ceil_def)
next
  case False
  then obtain k where k: "a mod b = Suc k" by (metis not0_implies_Suc)
  have "a + b - 1 = (a div b * b + Suc k) + b - 1" using k by (metis div_mult_mod_eq)
  also have "\<dots> = (a div b + 1) * b + (a mod b - 1)" using k by simp
  finally have "a + b - 1 = (a div b + 1) * b + (a mod b - 1)" .
  moreover have "((a div b + 1) * b + (a mod b - 1)) div b = a div b + 1"
    using assms by (intro row_major_div) (simp add: less_imp_diff_less)
  ultimately show ?thesis using False by (simp add: div_ceil_def)
qed

lemma less_iff_mod_less: "x div b = y div b \<Longrightarrow> x < y \<longleftrightarrow> x mod b < y mod (b::nat)"
  by (metis div_mult_mod_eq nat_add_left_cancel_less)

lemma row_major_cases:
  assumes "j < h * (w::nat)"
  obtains y i where "y < h" "i < w" "j = y * w + i"
proof
  have "w > 0" using assms by (cases w) auto
  then show "j div w < h" "j mod w < w" "j = j div w * w + j mod w"
    using assms by (simp_all add: less_mult_imp_div_less)
qed

section \<open>Loops over lists\<close>

lemma those_Some: "those xs = Some ys \<longleftrightarrow> xs = map Some ys"
proof (induction xs arbitrary: ys)
  case (Cons x xs)
  then show ?case by (cases x; cases ys) auto
qed auto

lemma fold_concat_map: "fold f (concat (map g ts)) s = fold (\<lambda>t. fold f (g t)) ts s"
  by (induction ts arbitrary: s) simp_all

end
