(* ===== verification/F64.thy ===== *)
theory F64
  imports Prelude "HOL-Library.Log_Nat"
begin

text \<open>
  Rust's \<open>f64\<close>: IEEE 754 binary64 with round-to-nearest, ties to even, as an executable
  model. A number is its sign and its exact magnitude, so both zeros exist; every arithmetic
  operation computes the exact rational result and rounds it. \<open>cos\<close> and \<open>sin\<close>,
  whose precision Rust leaves unspecified, are parameters of the definitions that use them.

  The lemmas at the end bound the rounding error and show which operations are exact.
\<close>

section \<open>Numbers and rounding\<close>

datatype f64 = NaN | Inf bool | Fin bool rat

text \<open>\<open>exponent q\<close> is the floor of the binary logarithm of a positive rational.\<close>

definition exponent :: "rat \<Rightarrow> int" where
  "exponent q = (case quotient_of q of (n, d) \<Rightarrow>
     let e = bitlen n - bitlen d in if 2 powi e \<le> q then e else e - 1)"

definition round_even :: "rat \<Rightarrow> int" where
  "round_even m =
     (let f = \<lfloor>m\<rfloor>; r = m - of_int f in
      if r < 1 / 2 then f else if 1 / 2 < r then f + 1 else if even f then f else f + 1)"

text \<open>The unit in the last place: 53 significant bits, or the fixed unit of the subnormals.\<close>

definition ulp :: "rat \<Rightarrow> rat" where
  "ulp q = 2 powi (max (exponent q - 52) (-1074))"

definition round_mag :: "rat \<Rightarrow> rat" where
  "round_mag q = (if q = 0 then 0 else of_int (round_even (q / ulp q)) * ulp q)"

definition mk_f64 :: "bool \<Rightarrow> rat \<Rightarrow> f64" where
  "mk_f64 s q = (let m = round_mag q in if 2 ^ 1024 \<le> m then Inf s else Fin s m)"

text \<open>The value of a finite number.\<close>

definition sval :: "bool \<Rightarrow> rat \<Rightarrow> rat" where
  "sval s q = (if s then - q else q)"

section \<open>Arithmetic\<close>

fun f_neg :: "f64 \<Rightarrow> f64" where
  "f_neg NaN = NaN"
| "f_neg (Inf s) = Inf (\<not> s)"
| "f_neg (Fin s q) = Fin (\<not> s) q"

fun f_abs :: "f64 \<Rightarrow> f64" where
  "f_abs NaN = NaN"
| "f_abs (Inf s) = Inf False"
| "f_abs (Fin s q) = Fin False q"

fun f_add :: "f64 \<Rightarrow> f64 \<Rightarrow> f64" where
  "f_add (Fin s p) (Fin t q) =
     (let v = sval s p + sval t q in
      if v = 0 then Fin (s \<and> t) 0 else mk_f64 (v < 0) \<bar>v\<bar>)"
| "f_add (Inf s) (Inf t) = (if s = t then Inf s else NaN)"
| "f_add (Inf s) (Fin t q) = Inf s"
| "f_add (Fin s p) (Inf t) = Inf t"
| "f_add NaN y = NaN"
| "f_add x NaN = NaN"

definition f_sub :: "f64 \<Rightarrow> f64 \<Rightarrow> f64" where
  "f_sub x y = f_add x (f_neg y)"

fun f_mul :: "f64 \<Rightarrow> f64 \<Rightarrow> f64" where
  "f_mul (Fin s p) (Fin t q) = mk_f64 (s \<noteq> t) (p * q)"
| "f_mul (Inf s) (Inf t) = Inf (s \<noteq> t)"
| "f_mul (Inf s) (Fin t q) = (if q = 0 then NaN else Inf (s \<noteq> t))"
| "f_mul (Fin s p) (Inf t) = (if p = 0 then NaN else Inf (s \<noteq> t))"
| "f_mul NaN y = NaN"
| "f_mul x NaN = NaN"

fun f_div :: "f64 \<Rightarrow> f64 \<Rightarrow> f64" where
  "f_div (Fin s p) (Fin t q) =
     (if q = 0 then (if p = 0 then NaN else Inf (s \<noteq> t)) else mk_f64 (s \<noteq> t) (p / q))"
| "f_div (Inf s) (Inf t) = NaN"
| "f_div (Inf s) (Fin t q) = Inf (s \<noteq> t)"
| "f_div (Fin s p) (Inf t) = Fin (s \<noteq> t) 0"
| "f_div NaN y = NaN"
| "f_div x NaN = NaN"

section \<open>Comparison\<close>

fun f_lt :: "f64 \<Rightarrow> f64 \<Rightarrow> bool" where
  "f_lt (Fin s p) (Fin t q) = (sval s p < sval t q)"
| "f_lt (Inf s) (Inf t) = (s \<and> \<not> t)"
| "f_lt (Inf s) (Fin t q) = s"
| "f_lt (Fin s p) (Inf t) = (\<not> t)"
| "f_lt NaN y = False"
| "f_lt x NaN = False"

fun f_le :: "f64 \<Rightarrow> f64 \<Rightarrow> bool" where
  "f_le (Fin s p) (Fin t q) = (sval s p \<le> sval t q)"
| "f_le (Inf s) (Inf t) = (s \<or> \<not> t)"
| "f_le (Inf s) (Fin t q) = s"
| "f_le (Fin s p) (Inf t) = (\<not> t)"
| "f_le NaN y = False"
| "f_le x NaN = False"

section \<open>Conversions\<close>

fun f_floor :: "f64 \<Rightarrow> f64" where
  "f_floor (Fin s q) = Fin s \<bar>of_int \<lfloor>sval s q\<rfloor>\<bar>"
| "f_floor x = x"

fun f_ceil :: "f64 \<Rightarrow> f64" where
  "f_ceil (Fin s q) = Fin s \<bar>of_int \<lceil>sval s q\<rceil>\<bar>"
| "f_ceil x = x"

text \<open>\<open>as f64\<close> of an integer.\<close>

definition f_of_int :: "int \<Rightarrow> f64" where
  "f_of_int k = mk_f64 (k < 0) (of_int \<bar>k\<bar>)"

text \<open>\<open>as i32\<close> and \<open>as u64\<close>: truncation toward zero, saturating, with \<open>NaN\<close> to 0.\<close>

definition trunc0 :: "bool \<Rightarrow> rat \<Rightarrow> int" where
  "trunc0 s q = (if s then - \<lfloor>q\<rfloor> else \<lfloor>q\<rfloor>)"

definition clamp :: "int \<Rightarrow> int \<Rightarrow> int \<Rightarrow> int" where
  "clamp lo hi k = max lo (min hi k)"

fun f_as_i32 :: "f64 \<Rightarrow> i32" where
  "f_as_i32 NaN = 0"
| "f_as_i32 (Inf s) = (if s then - (2 ^ 31) else 2 ^ 31 - 1)"
| "f_as_i32 (Fin s q) = clamp (- (2 ^ 31)) (2 ^ 31 - 1) (trunc0 s q)"

fun f_as_u64 :: "f64 \<Rightarrow> u64" where
  "f_as_u64 NaN = 0"
| "f_as_u64 (Inf s) = (if s then 0 else - 1)"
| "f_as_u64 (Fin s q) = word_of_int (clamp 0 (2 ^ 64 - 1) (trunc0 s q))"

text \<open>Decimal literals of the source.\<close>

definition f_lit :: "rat \<Rightarrow> f64" where
  "f_lit q = mk_f64 (q < 0) \<bar>q\<bar>"

section \<open>Rounding\<close>

lemma bitlen_sandwich:
  assumes "0 < n"
  shows "(2::rat) powi (bitlen n - 1) \<le> of_int n" "of_int n < (2::rat) powi (bitlen n)"
proof -
  have b: "2 ^ nat (bitlen n - 1) \<le> n" "n < 2 ^ nat (bitlen n)" using bitlen_bounds [OF assms] by auto
  have pos: "1 \<le> bitlen n" using assms by (simp add: bitlen_ge_iff_power)
  have "(2::rat) powi (bitlen n - 1) = of_int (2 ^ nat (bitlen n - 1))" "(2::rat) powi (bitlen n) = of_int (2 ^ nat (bitlen n))"
    using pos by (simp_all add: power_int_def)
  then show "(2::rat) powi (bitlen n - 1) \<le> of_int n" "of_int n < (2::rat) powi (bitlen n)"
    using b by (simp_all only: of_int_le_iff of_int_less_iff)
qed

text \<open>The exponent is the position of the leading bit.\<close>

lemma exponent_bounds:
  assumes "0 < q"
  shows "2 powi (exponent q) \<le> q" "q < 2 powi (exponent q + 1)"
proof -
  obtain n d where nd: "quotient_of q = (n, d)" by (cases "quotient_of q")
  have d: "0 < d" using nd by (rule quotient_of_denom_pos)
  have q: "q = of_int n / of_int d" by (rule quotient_of_div [OF nd])
  have n: "0 < n" using assms d by (simp add: q zero_less_divide_iff)
  note bn = bitlen_sandwich [OF n] and bd = bitlen_sandwich [OF d]
  let ?e = "bitlen n - bitlen d"
  have up: "q < 2 powi (?e + 1)"
  proof -
    have "of_int n < (2::rat) powi (bitlen n)" by (rule bn)
    also have "\<dots> = 2 powi (?e + 1) * 2 powi (bitlen d - 1)" by (simp add: power_int_add [symmetric])
    also have "\<dots> \<le> 2 powi (?e + 1) * of_int d" using bd(1) by (intro mult_left_mono) simp_all
    finally show ?thesis using d by (simp add: q divide_less_eq)
  qed
  have lo: "2 powi (?e - 1) \<le> q"
  proof -
    have "2 powi (?e - 1) * of_int d \<le> 2 powi (?e - 1) * (2::rat) powi (bitlen d)" using bd(2) by (intro mult_left_mono) simp_all
    also have "\<dots> = 2 powi (bitlen n - 1)" by (simp add: power_int_add [symmetric])
    also have "\<dots> \<le> of_int n" by (rule bn)
    finally show ?thesis using d by (simp add: q le_divide_eq)
  qed
  have "exponent q = (if 2 powi ?e \<le> q then ?e else ?e - 1)" by (simp add: exponent_def nd Let_def)
  then show "2 powi (exponent q) \<le> q" "q < 2 powi (exponent q + 1)" using up lo by (simp_all split: if_splits)
qed

lemma powi_mono: "i \<le> j \<Longrightarrow> (2::rat) powi i \<le> 2 powi j"
  by (intro power_int_increasing) simp_all

lemma powi_less_exp: "(2::rat) powi i < 2 powi j \<Longrightarrow> i < j"
  using powi_mono [of j i] by (meson leD le_less_linear)

lemma exponent_le:
  assumes "0 < q" "q < 2 powi k"
  shows "exponent q < k"
proof -
  have "(2::rat) powi (exponent q) < 2 powi k" using exponent_bounds(1) [OF assms(1)] assms(2) by (rule le_less_trans)
  then show ?thesis by (rule powi_less_exp)
qed

lemma exponent_ge:
  assumes "0 < q" "2 powi k \<le> q"
  shows "k \<le> exponent q"
proof -
  have "(2::rat) powi k < 2 powi (exponent q + 1)" using assms(2) exponent_bounds(2) [OF assms(1)] by (rule le_less_trans)
  then show ?thesis using powi_less_exp by fastforce
qed

lemma ulp_pos [simp]: "0 < ulp q" "0 \<le> ulp q" "ulp q \<noteq> 0"
  by (simp_all add: ulp_def)

lemma round_even_le: "m \<le> of_int k \<Longrightarrow> round_even m \<le> k"
proof -
  assume m: "m \<le> of_int k"
  then have f: "\<lfloor>m\<rfloor> \<le> k" by (simp add: floor_le_iff)
  show ?thesis
  proof (cases "\<lfloor>m\<rfloor> = k")
    case True
    then have "m - of_int \<lfloor>m\<rfloor> \<le> 0" using m by simp
    then show ?thesis using True by (simp add: round_even_def Let_def)
  next
    case False
    then have "\<lfloor>m\<rfloor> + 1 \<le> k" using f by simp
    then show ?thesis using f by (simp add: round_even_def Let_def)
  qed
qed

lemma round_even_ge: "of_int k \<le> m \<Longrightarrow> k \<le> round_even m"
proof -
  assume "of_int k \<le> m"
  then have "k \<le> \<lfloor>m\<rfloor>" by (simp add: le_floor_iff)
  then show ?thesis by (simp add: round_even_def Let_def)
qed

lemma round_even_int [simp]: "round_even (of_int k) = k"
  by (simp add: round_even_def)

lemma round_even_error: "\<bar>of_int (round_even m) - m\<bar> \<le> 1 / 2"
proof -
  have "of_int \<lfloor>m\<rfloor> \<le> m" "m < of_int \<lfloor>m\<rfloor> + 1" by linarith+
  then show ?thesis by (simp add: round_even_def Let_def abs_le_iff)
qed

text \<open>Rounding moves a number by at most half a unit in the last place.\<close>

lemma round_mag_error: "0 < q \<Longrightarrow> \<bar>round_mag q - q\<bar> \<le> ulp q / 2"
proof -
  assume q: "0 < q"
  let ?u = "ulp q"
  have u: "0 < ?u" by simp
  have "round_mag q - q = (of_int (round_even (q / ?u)) - q / ?u) * ?u" using q u by (simp add: round_mag_def algebra_simps)
  then have "\<bar>round_mag q - q\<bar> = \<bar>of_int (round_even (q / ?u)) - q / ?u\<bar> * ?u" using u by (simp add: abs_mult)
  also have "\<dots> \<le> 1 / 2 * ?u" using round_even_error u by (intro mult_right_mono) simp_all
  finally show ?thesis by simp
qed

lemma ulp_int_multiple:
  assumes "0 < q" "q \<le> of_int n" "n < 2 ^ 52"
  obtains k where "(of_int n :: rat) = of_int k * ulp q"
proof -
  have "q < 2 powi 52"
  proof -
    have "(of_int n :: rat) < of_int (2 ^ 52)" using assms(3) by (simp only: of_int_less_iff)
    then show ?thesis using assms(2) by (simp add: power_int_def)
  qed
  then have "exponent q < 52" by (rule exponent_le [OF assms(1)])
  then have e: "max (exponent q - 52) (-1074) \<le> 0" by simp
  define j where "j = nat (- max (exponent q - 52) (-1074))"
  have "ulp q = inverse (2 ^ j)"
  proof -
    have "max (exponent q - 52) (-1074) = - int j" using e by (simp add: j_def)
    then show ?thesis by (simp add: ulp_def power_int_minus)
  qed
  then have "(of_int n :: rat) = of_int (n * 2 ^ j) * ulp q" by simp
  then show thesis by (rule that)
qed

text \<open>Rounding does not cross an integer below \<open>2^52\<close>.\<close>

lemma round_mag_le_int:
  assumes "0 \<le> q" "q \<le> of_int n" "n < 2 ^ 52"
  shows "round_mag q \<le> of_int n"
proof (cases "q = 0")
  case True
  then show ?thesis using assms(2) by (simp add: round_mag_def)
next
  case False
  then have q: "0 < q" using assms(1) by simp
  obtain k where k: "(of_int n :: rat) = of_int k * ulp q" by (rule ulp_int_multiple [OF q assms(2,3)])
  have "q / ulp q \<le> of_int k" using assms(2) k by (simp add: divide_le_eq)
  then have "round_even (q / ulp q) \<le> k" by (rule round_even_le)
  then have "of_int (round_even (q / ulp q)) * ulp q \<le> of_int k * ulp q" by (intro mult_right_mono) simp_all
  then show ?thesis using False k by (simp add: round_mag_def)
qed

lemma round_mag_nonneg: "0 \<le> q \<Longrightarrow> 0 \<le> round_mag q"
proof -
  assume "0 \<le> q"
  then have "of_int 0 \<le> q / ulp q" by (simp add: divide_nonneg_pos)
  then have "0 \<le> round_even (q / ulp q)" by (rule round_even_ge)
  then show ?thesis by (simp add: round_mag_def)
qed

lemma round_mag_int:
  assumes "0 \<le> n" "n < 2 ^ 52"
  shows "round_mag (of_int n) = of_int n"
proof (cases "n = 0")
  case False
  then have n: "0 < (of_int n :: rat)" using assms(1) by simp
  obtain k where k: "(of_int n :: rat) = of_int k * ulp (of_int n)" by (rule ulp_int_multiple [OF n order_refl assms(2)])
  have "(of_int n :: rat) / ulp (of_int n) = of_int k"
    by (subst (1) k) simp
  then show ?thesis using k n by (simp add: round_mag_def)
qed (simp add: round_mag_def)

text \<open>Integers below \<open>2^52\<close> are represented exactly.\<close>

lemma f_of_int_exact: "\<bar>k\<bar> < 2 ^ 52 \<Longrightarrow> f_of_int k = Fin (k < 0) (of_int \<bar>k\<bar>)"
proof -
  assume k: "\<bar>k\<bar> < 2 ^ 52"
  have "(of_int \<bar>k\<bar> :: rat) < of_int (2 ^ 52)" using k by (simp only: of_int_less_iff)
  also have "\<dots> < 2 ^ 1024" by simp
  finally have "\<not> (2 ^ 1024 \<le> (of_int \<bar>k\<bar> :: rat))" by simp
  then show ?thesis using round_mag_int [of "\<bar>k\<bar>"] k by (simp add: f_of_int_def mk_f64_def Let_def del: of_int_abs)
qed

end
