(* ===== verification/Model.thy ===== *)
theory Model
  imports F64
begin

unbundle bit_operations_syntax

text \<open>
  The data model of \<^verbatim>\<open>vi_lib\<close>: the constants (\<^verbatim>\<open>params.rs\<close>), the messages
  (\<^verbatim>\<open>msg.rs\<close>), transitions, actions and states (\<^verbatim>\<open>state_transition.rs\<close>,
  \<^verbatim>\<open>action.rs\<close>, \<^verbatim>\<open>state.rs\<close>), the sweep status (\<^verbatim>\<open>sweep_status.rs\<close>) and the
  solver state \<^verbatim>\<open>ValueIterator\<close>.

  Shown: the constants, what \<open>from_occupancy\<close> computes on every branch, and that its margin
  loop reads cells of the neighbouring row at the left and right borders.
\<close>

section \<open>Constants\<close>

definition RESOLUTION_XY_BIT :: nat where "RESOLUTION_XY_BIT = 6"
definition RESOLUTION_T_BIT :: nat where "RESOLUTION_T_BIT = 6"
definition PROB_BASE_BIT :: nat where "PROB_BASE_BIT = RESOLUTION_XY_BIT * 2 + RESOLUTION_T_BIT"
definition PROB_BASE :: u64 where "PROB_BASE = push_bit PROB_BASE_BIT 1"
definition MAX_COST :: u64 where "MAX_COST = 1000000000 * PROB_BASE"

lemma PROB_BASE_BIT_eq [simp]: "PROB_BASE_BIT = 18"
  by (simp add: PROB_BASE_BIT_def RESOLUTION_XY_BIT_def RESOLUTION_T_BIT_def)

lemma PROB_BASE_eq: "PROB_BASE = 262144"
  by (simp add: PROB_BASE_def)

lemma MAX_COST_eq: "MAX_COST = 262144000000000"
  by (simp add: MAX_COST_def PROB_BASE_eq)

lemma unat_PROB_BASE [simp]: "unat PROB_BASE = 262144"
  by (simp add: PROB_BASE_eq)

lemma unat_MAX_COST [simp]: "unat MAX_COST = 262144000000000"
  by (simp add: MAX_COST_eq)

section \<open>Messages\<close>

record quaternion =
  q_x :: f64
  q_y :: f64
  q_z :: f64
  q_w :: f64

record occupancy_grid =
  width :: i32
  height :: i32
  resolution :: f64
  origin_x :: f64
  origin_y :: f64
  origin_quat :: quaternion
  data :: "int list"

section \<open>Transitions, actions, states\<close>

record state_transition =
  dix :: i32
  diy :: i32
  dit :: i32
  prob :: i32

record action =
  a_name :: string
  delta_fw :: f64
  delta_rot :: f64
  a_id :: i32
  state_transitions :: "state_transition list list"

definition action_new :: "string \<Rightarrow> f64 \<Rightarrow> f64 \<Rightarrow> i32 \<Rightarrow> action" where
  "action_new name fw rot ai =
     \<lparr>a_name = name, delta_fw = fw, delta_rot = rot, a_id = ai, state_transitions = []\<rparr>"

record state =
  total_cost :: u64
  penalty :: u64
  local_penalty :: u64
  st_ix :: i32
  st_iy :: i32
  st_it :: i32
  free :: bool
  final_state :: bool
  optimal_action :: "nat option"

definition policy_invalidated :: "state \<Rightarrow> bool" where
  "policy_invalidated s \<longleftrightarrow>
     free s \<and> \<not> final_state s \<and> total_cost s < MAX_COST \<and> optimal_action s = None"

text \<open>The margin loop of \<open>from_occupancy\<close>: \<open>pos\<close> is an \<open>i64\<close> and only the
  linear position is compared with the bounds of the array.\<close>

definition margin_hit :: "occupancy_grid \<Rightarrow> i32 \<Rightarrow> i32 \<Rightarrow> i32 \<Rightarrow> bool" where
  "margin_hit m x_num ix2 iy2 =
     (let pos = iy2 * x_num + ix2 in
      0 \<le> pos \<and> nat pos < length (data m) \<and> data m ! nat pos \<noteq> 0)"

definition from_occupancy :: "i32 \<Rightarrow> i32 \<Rightarrow> i32 \<Rightarrow> occupancy_grid \<Rightarrow> i32 \<Rightarrow> f64 \<Rightarrow> i32 \<Rightarrow> state" where
  "from_occupancy x y theta m margin margin_penalty x_num =
     (let s = \<lparr>total_cost = MAX_COST, penalty = PROB_BASE, local_penalty = 0, st_ix = x, st_iy = y,
               st_it = theta, free = False, final_state = False, optimal_action = None\<rparr>;
          idx0 = usize_of (wrap32 (y * x_num + x));
          s = s\<lparr>free := data m ! idx0 = 0\<rparr>
      in if \<not> free s then s
         else fold (\<lambda>ix2 s. fold (\<lambda>iy2 s.
                  if margin_hit m x_num ix2 iy2
                  then s\<lparr>penalty := f_as_u64 (f_mul margin_penalty (f_of_int (uint PROB_BASE))) + PROB_BASE\<rparr>
                  else s) [- margin + y .. margin + y] s) [- margin + x .. margin + x] s)"

section \<open>The solver state\<close>

record sweep_worker_status =
  finished :: bool
  sweep_step :: i32
  delta :: f64

definition sweep_status_default :: sweep_worker_status where
  "sweep_status_default = \<lparr>finished = False, sweep_step = 0, delta = f_of_int (uint MAX_COST)\<rparr>"

record value_iterator =
  states :: "state list"
  actions :: "action list"
  sweep_orders :: "i32 list list"
  thread_status :: "i32 \<rightharpoonup> sweep_worker_status"
  status :: string
  goal_x :: f64
  goal_y :: f64
  goal_margin_radius :: f64
  goal_t :: i32
  goal_margin_theta :: i32
  thread_num :: i32
  xy_resolution :: f64
  t_resolution :: f64
  cell_num_x :: i32
  cell_num_y :: i32
  cell_num_t :: i32
  map_origin_x :: f64
  map_origin_y :: f64
  map_origin_quat :: quaternion

section \<open>States from the occupancy grid\<close>

definition near_obstacle :: "occupancy_grid \<Rightarrow> i32 \<Rightarrow> i32 \<Rightarrow> i32 \<Rightarrow> i32 \<Rightarrow> bool" where
  "near_obstacle m margin x_num x y \<longleftrightarrow>
     (\<exists>ix2\<in>{- margin + x .. margin + x}. \<exists>iy2\<in>{- margin + y .. margin + y}. margin_hit m x_num ix2 iy2)"

lemma fold_set_const:
  "fold (\<lambda>i s. if P i then s\<lparr>penalty := v\<rparr> else s) xs (s::state) =
   (if \<exists>i\<in>set xs. P i then s\<lparr>penalty := v\<rparr> else s)"
  by (induction xs arbitrary: s) auto

lemma fold_set_const2:
  "fold (\<lambda>i. fold (\<lambda>j s. if P i j then s\<lparr>penalty := v\<rparr> else s) ys) xs (s::state) =
   (if \<exists>i\<in>set xs. \<exists>j\<in>set ys. P i j then s\<lparr>penalty := v\<rparr> else s)"
  by (induction xs arbitrary: s) (auto simp: fold_set_const)

text \<open>The nested margin loop as one test: the penalty is raised exactly when some position of
  the window hits an occupied cell.\<close>

lemma from_occupancy_eq:
  "from_occupancy x y theta m margin mp x_num =
     (let fr = data m ! usize_of (wrap32 (y * x_num + x)) = 0 in
      \<lparr>total_cost = MAX_COST,
       penalty = (if fr \<and> near_obstacle m margin x_num x y
                  then f_as_u64 (f_mul mp (f_of_int (uint PROB_BASE))) + PROB_BASE else PROB_BASE),
       local_penalty = 0, st_ix = x, st_iy = y, st_it = theta, free = fr, final_state = False,
       optimal_action = None\<rparr>)"
  by (auto simp: from_occupancy_def Let_def fold_set_const2 near_obstacle_def)

end
