(* ===== verification/ValueIterator.thy ===== *)
theory ValueIterator
  imports Model "HOL-Library.Monad_Syntax"
begin

unbundle bit_operations_syntax

text \<open>
  The solver state and its operations (\<^verbatim>\<open>vi_lib/src/value_iterator.rs\<close>): map set-up, transition
  tables by sub-cell sampling, sweep orders, goal marking, the per-cell Bellman update on wrapping
  \<open>u64\<close> costs, and the writers that export value and policy.

  A loop over floating-point samples that may not end is \<open>partial_function (option)\<close>; array
  accesses are the list operations, and the lemmas of the theories above this one show that under
  the well-formedness invariant every index they use is in range.
\<close>

section \<open>Indices\<close>

definition to_index_raw :: "i32 \<Rightarrow> i32 \<Rightarrow> i32 \<Rightarrow> i32 \<Rightarrow> i32 \<Rightarrow> i32" where
  "to_index_raw ix iy it nx nt = wrap32 (it + ix * nt + iy * (nt * nx))"

definition to_index :: "value_iterator \<Rightarrow> i32 \<Rightarrow> i32 \<Rightarrow> i32 \<Rightarrow> i32" where
  "to_index vi ix iy it = to_index_raw ix iy it (cell_num_x vi) (cell_num_t vi)"

definition in_map_area :: "value_iterator \<Rightarrow> i32 \<Rightarrow> i32 \<Rightarrow> bool" where
  "in_map_area vi ix iy \<longleftrightarrow> 0 \<le> ix \<and> ix < cell_num_x vi \<and> 0 \<le> iy \<and> iy < cell_num_y vi"

section \<open>The Bellman update\<close>

fun action_cost_loop ::
  "state list \<Rightarrow> state \<Rightarrow> i32 \<Rightarrow> i32 \<Rightarrow> i32 \<Rightarrow> state_transition list \<Rightarrow> u64 \<Rightarrow> u64" where
  "action_cost_loop sts s nx ny nt [] cost = drop_bit PROB_BASE_BIT cost"
| "action_cost_loop sts s nx ny nt (tran # trs) cost =
     (let ix = wrap32 (st_ix s + dix tran) in
      if ix < 0 \<or> nx \<le> ix then MAX_COST
      else let iy = wrap32 (st_iy s + diy tran) in
      if iy < 0 \<or> ny \<le> iy then MAX_COST
      else let it = wrap32 (dit tran + nt) smod nt;
               after = sts ! usize_of (to_index_raw ix iy it nx nt) in
      if \<not> free after then MAX_COST
      else action_cost_loop sts s nx ny nt trs
             (cost + (total_cost after + penalty after + local_penalty after) * word_of_int (prob tran)))"

definition action_cost_raw :: "state list \<Rightarrow> action \<Rightarrow> state \<Rightarrow> i32 \<Rightarrow> i32 \<Rightarrow> i32 \<Rightarrow> u64" where
  "action_cost_raw sts a s nx ny nt =
     action_cost_loop sts s nx ny nt (state_transitions a ! usize_of (st_it s)) 0"

definition min_action_cost ::
  "state list \<Rightarrow> action list \<Rightarrow> nat \<Rightarrow> i32 \<Rightarrow> i32 \<Rightarrow> i32 \<Rightarrow> (u64 \<times> nat option) option" where
  "min_action_cost sts acts idx nx ny nt =
     (if \<not> free (sts ! idx) \<or> final_state (sts ! idx) then None
      else Some (fold (\<lambda>(ai, a) (min_cost, min_action).
              let c = action_cost_raw sts a (sts ! idx) nx ny nt in
              if c < min_cost then (c, Some ai) else (min_cost, min_action))
            (List.enumerate 0 acts) (MAX_COST, None)))"

text \<open>\<open>unsigned_abs\<close> of the \<open>i64\<close> difference.\<close>

definition unsigned_abs :: "u64 \<Rightarrow> u64" where
  "unsigned_abs d = (if sint d < 0 then - d else d)"

definition value_iteration_raw ::
  "state list \<Rightarrow> action list \<Rightarrow> nat \<Rightarrow> i32 \<Rightarrow> i32 \<Rightarrow> i32 \<Rightarrow> state list \<times> u64" where
  "value_iteration_raw sts acts idx nx ny nt =
     (case min_action_cost sts acts idx nx ny nt of
        None \<Rightarrow> (sts, 0)
      | Some (min_cost, min_action) \<Rightarrow>
          let old = total_cost (sts ! idx);
              delta = min_cost - old
          in (sts[idx := (sts ! idx)\<lparr>total_cost := min_cost, optimal_action := min_action\<rparr>],
              unsigned_abs delta))"

definition action_cost :: "value_iterator \<Rightarrow> state \<Rightarrow> action \<Rightarrow> u64" where
  "action_cost vi s a = action_cost_raw (states vi) a s (cell_num_x vi) (cell_num_y vi) (cell_num_t vi)"

definition bellman_update :: "value_iterator \<Rightarrow> nat \<Rightarrow> (u64 \<times> nat option) option" where
  "bellman_update vi idx =
     min_action_cost (states vi) (actions vi) idx (cell_num_x vi) (cell_num_y vi) (cell_num_t vi)"

definition value_iteration_at :: "value_iterator \<Rightarrow> nat \<Rightarrow> value_iterator \<times> u64" where
  "value_iteration_at vi idx =
     (case value_iteration_raw (states vi) (actions vi) idx (cell_num_x vi) (cell_num_y vi) (cell_num_t vi) of
        (sts, d) \<Rightarrow> (vi\<lparr>states := sts\<rparr>, d))"

section \<open>Transition tables\<close>

definition f_pi :: f64 where
  "f_pi = Fin False (884279719003555 / 281474976710656)"

text \<open>\<open>while to_t < 0.0 { to_t += 360.0 }\<close>\<close>

partial_function (option) wrap_degrees :: "f64 \<Rightarrow> f64 option" where
  "wrap_degrees to_t =
     (if f_lt to_t (f_of_int 0) then wrap_degrees (f_add to_t (f_of_int 360)) else Some to_t)"

definition no_noise_state_transition ::
  "(f64 \<Rightarrow> f64) \<Rightarrow> (f64 \<Rightarrow> f64) \<Rightarrow> f64 \<Rightarrow> f64 \<Rightarrow> f64 \<Rightarrow> f64 \<Rightarrow> f64 \<Rightarrow> (f64 \<times> f64 \<times> f64) option" where
  "no_noise_state_transition cosf sinf fw rot from_x from_y from_t =
     (let ang = f_mul (f_div from_t (f_of_int 180)) f_pi;
          to_x = f_add from_x (f_mul fw (cosf ang));
          to_y = f_add from_y (f_mul fw (sinf ang))
      in map_option (\<lambda>to_t. (to_x, to_y, to_t)) (wrap_degrees (f_add from_t rot)))"

definition cell_delta :: "f64 \<Rightarrow> f64 \<Rightarrow> f64 \<Rightarrow> f64 \<Rightarrow> f64 \<Rightarrow> i32 \<times> i32 \<times> i32" where
  "cell_delta x y t xy_res t_res =
     (let ix = f_as_i32 (f_floor (f_div (f_abs x) xy_res));
          ix = (if f_lt x (f_of_int 0) then wrap32 (- ix - 1) else ix);
          iy = f_as_i32 (f_floor (f_div (f_abs y) xy_res));
          iy = (if f_lt y (f_of_int 0) then wrap32 (- iy - 1) else iy);
          it = f_as_i32 (f_floor (f_div t t_res))
      in (ix, iy, it))"

text \<open>The bucket update of the innermost loop: the first entry with the same displacement is
  counted up, otherwise a new one is appended.\<close>

fun count_transition :: "i32 \<times> i32 \<times> i32 \<Rightarrow> state_transition list \<Rightarrow> state_transition list" where
  "count_transition (x, y, t) [] = [\<lparr>dix = x, diy = y, dit = t, prob = 1\<rparr>]"
| "count_transition (x, y, t) (s # out) =
     (if dix s = x \<and> diy s = y \<and> dit s = t then s\<lparr>prob := wrap32 (prob s + 1)\<rparr> # out
      else s # count_transition (x, y, t) out)"

text \<open>\<open>let mut o = start; while o < limit { body; o += step }\<close>\<close>

partial_function (option) sample_loop ::
  "f64 \<Rightarrow> f64 \<Rightarrow> (f64 \<Rightarrow> 'a \<Rightarrow> 'a option) \<Rightarrow> f64 \<Rightarrow> 'a \<Rightarrow> 'a option" where
  "sample_loop step limit body o' acc =
     (if f_lt o' limit
      then Option.bind (body o' acc) (\<lambda>acc'. sample_loop step limit body (f_add o' step) acc')
      else Some acc)"

definition compute_theta_transitions ::
  "(f64 \<Rightarrow> f64) \<Rightarrow> (f64 \<Rightarrow> f64) \<Rightarrow> f64 \<Rightarrow> f64 \<Rightarrow> i32 \<Rightarrow> f64 \<Rightarrow> f64 \<Rightarrow> state_transition list option" where
  "compute_theta_transitions cosf sinf fw rot it xy_res t_res =
     (let theta_origin = f_mul (f_of_int it) t_res;
          xy_step = f_div xy_res (f_of_int (2 ^ RESOLUTION_XY_BIT));
          t_step = f_div t_res (f_of_int (2 ^ RESOLUTION_T_BIT));
          half = f_lit (1 / 2)
      in sample_loop xy_step xy_res (\<lambda>oy.
           sample_loop xy_step xy_res (\<lambda>ox.
             sample_loop t_step t_res (\<lambda>ot out.
               map_option (\<lambda>(dx, dy, dt). count_transition (cell_delta dx dy dt xy_res t_res) out)
                 (no_noise_state_transition cosf sinf fw rot ox oy (f_add ot theta_origin)))
               (f_mul half t_step))
             (f_mul half xy_step))
           (f_mul half xy_step) [])"

definition set_state_transition ::
  "(f64 \<Rightarrow> f64) \<Rightarrow> (f64 \<Rightarrow> f64) \<Rightarrow> value_iterator \<Rightarrow> value_iterator option" where
  "set_state_transition cosf sinf vi =
     map_option (\<lambda>acts. vi\<lparr>actions := acts\<rparr>)
       (those (map (\<lambda>a. map_option (\<lambda>per_theta. a\<lparr>state_transitions := per_theta\<rparr>)
          (those (map (\<lambda>it. compute_theta_transitions cosf sinf (delta_fw a) (delta_rot a) it
                        (xy_resolution vi) (t_resolution vi)) [0..cell_num_t vi - 1]))) (actions vi)))"

section \<open>Map set-up\<close>

definition value_iterator_new :: "action list \<Rightarrow> i32 \<Rightarrow> value_iterator" where
  "value_iterator_new acts nthr =
     (let z = f_of_int 0 in
      \<lparr>states = [], actions = acts, sweep_orders = [], thread_status = Map.empty, status = ''init'',
       goal_x = z, goal_y = z, goal_margin_radius = z, goal_t = 0, goal_margin_theta = 0,
       thread_num = nthr, xy_resolution = z, t_resolution = z, cell_num_x = 0, cell_num_y = 0,
       cell_num_t = 0, map_origin_x = z, map_origin_y = z,
       map_origin_quat = \<lparr>q_x = z, q_y = z, q_z = z, q_w = z\<rparr>\<rparr>)"

text \<open>One band of \<open>set_state\<close>: \<open>rows\<close> rows from \<open>y0\<close>, in the order the thread writes them.\<close>

definition state_rows :: "occupancy_grid \<Rightarrow> i32 \<Rightarrow> f64 \<Rightarrow> i32 \<Rightarrow> i32 \<Rightarrow> i32 \<Rightarrow> i32 \<Rightarrow> state list" where
  "state_rows m margin pen nx nt y0 rows =
     concat (map (\<lambda>r. concat (map (\<lambda>x. map (\<lambda>t.
       from_occupancy x (y0 + r) t m margin pen nx) [0..nt - 1]) [0..nx - 1])) [0..rows - 1])"

text \<open>\<open>par\<close> is what \<open>available_parallelism\<close> reports. Band \<open>b\<close> is chunk \<open>b\<close> of the spare
  capacity, cut every \<open>rows_per * per_row\<close> entries.\<close>

definition set_state :: "nat \<Rightarrow> occupancy_grid \<Rightarrow> f64 \<Rightarrow> f64 \<Rightarrow> value_iterator \<Rightarrow> value_iterator" where
  "set_state par m safety_radius safety_radius_penalty vi =
     (let margin = f_as_i32 (f_ceil (f_div safety_radius (xy_resolution vi)));
          nx = cell_num_x vi; ny = cell_num_y vi; nt = cell_num_t vi;
          n = usize_of nx * usize_of ny * usize_of nt
      in if n = 0 then vi\<lparr>states := []\<rparr>
         else let per_row = usize_of nx * usize_of nt;
                  nthr = max 1 (min (usize_of ny) par);
                  rows_per = max 1 (div_ceil (usize_of ny) nthr);
                  chunk = rows_per * per_row;
                  bands = div_ceil n chunk
              in vi\<lparr>states := concat (map (\<lambda>band.
                   let len = min chunk (n - band * chunk)
                   in state_rows m margin safety_radius_penalty nx nt (int (band * rows_per)) (int (len div per_row)))
                   [0..<bands])\<rparr>)"

definition set_sweep_orders :: "value_iterator \<Rightarrow> value_iterator" where
  "set_sweep_orders vi =
     (if sweep_orders vi \<noteq> [] then vi
      else let nx = cell_num_x vi; ny = cell_num_y vi; nt = cell_num_t vi;
               o0 = concat (map (\<lambda>y. concat (map (\<lambda>x. map (\<lambda>t. to_index vi x y t) [0..nt - 1]) [0..nx - 1])) [0..ny - 1]);
               o1 = concat (map (\<lambda>x. concat (map (\<lambda>y. map (\<lambda>t. to_index vi x y t) [0..nt - 1]) [0..ny - 1])) [0..nx - 1]);
               o2 = rev o0;
               o3 = rev o1;
               half = length o0 div 2;
               o4 = take half o0;
               o4 = o4 @ drop half o0;
               o5 = take half o1;
               o4 = o4 @ drop half o1
           in vi\<lparr>sweep_orders := [o0, o1, o2, o3, o4, o5]\<rparr>)"

definition set_geometry :: "occupancy_grid \<Rightarrow> i32 \<Rightarrow> f64 \<Rightarrow> i32 \<Rightarrow> value_iterator \<Rightarrow> value_iterator" where
  "set_geometry m theta_cell_num gm_radius gm_theta vi =
     vi\<lparr>cell_num_t := theta_cell_num, goal_margin_radius := gm_radius, goal_margin_theta := gm_theta,
        cell_num_x := width m, cell_num_y := height m, xy_resolution := resolution m,
        t_resolution := f_of_int (360 sdiv theta_cell_num),
        map_origin_x := origin_x m, map_origin_y := origin_y m, map_origin_quat := origin_quat m\<rparr>"

text \<open>\<open>None\<close>: the division \<open>360 / cell_num_t\<close> panics, or a sampling loop does not end.\<close>

definition set_map_with_occupancy_grid ::
  "(f64 \<Rightarrow> f64) \<Rightarrow> (f64 \<Rightarrow> f64) \<Rightarrow> nat \<Rightarrow> occupancy_grid \<Rightarrow> i32 \<Rightarrow> f64 \<Rightarrow> f64 \<Rightarrow> f64 \<Rightarrow> i32
     \<Rightarrow> value_iterator \<Rightarrow> value_iterator option" where
  "set_map_with_occupancy_grid cosf sinf par m theta_cell_num safety_radius safety_radius_penalty
     gm_radius gm_theta vi =
     (if theta_cell_num = 0 then None
      else map_option set_sweep_orders
        (set_state_transition cosf sinf
          (set_state par m safety_radius safety_radius_penalty
            (set_geometry m theta_cell_num gm_radius gm_theta vi))))"

definition set_map_geometry_no_states ::
  "(f64 \<Rightarrow> f64) \<Rightarrow> (f64 \<Rightarrow> f64) \<Rightarrow> occupancy_grid \<Rightarrow> i32 \<Rightarrow> f64 \<Rightarrow> i32 \<Rightarrow> value_iterator \<Rightarrow> value_iterator option" where
  "set_map_geometry_no_states cosf sinf m theta_cell_num gm_radius gm_theta vi =
     (if theta_cell_num = 0 then None
      else set_state_transition cosf sinf (set_geometry m theta_cell_num gm_radius gm_theta vi))"

section \<open>Goals\<close>

definition mark_final :: "value_iterator \<Rightarrow> state \<Rightarrow> state" where
  "mark_final vi s =
     (let xy_res = xy_resolution vi; gx = goal_x vi; gy = goal_y vi;
          gt = goal_t vi; gm = goal_margin_theta vi; t_res = t_resolution vi;
          r2 = f_mul (goal_margin_radius vi) (goal_margin_radius vi);
          x0 = f_add (f_mul (f_of_int (st_ix s)) xy_res) (map_origin_x vi);
          y0 = f_add (f_mul (f_of_int (st_iy s)) xy_res) (map_origin_y vi);
          r0 = f_add (f_mul (f_sub x0 gx) (f_sub x0 gx)) (f_mul (f_sub y0 gy) (f_sub y0 gy));
          x1 = f_add x0 xy_res;
          y1 = f_add y0 xy_res;
          r1 = f_add (f_mul (f_sub x1 gx) (f_sub x1 gx)) (f_mul (f_sub y1 gy) (f_sub y1 gy));
          t0 = f_as_i32 (f_mul (f_of_int (st_it s)) t_res);
          t1 = f_as_i32 (f_mul (f_of_int (wrap32 (st_it s + 1))) t_res);
          goal_t_2 = (if 180 < gt then gt - 360 else gt + 360);
          ok = wrap32 (gt - gm) \<le> t0 \<and> t1 \<le> wrap32 (gt + gm)
             \<or> wrap32 (goal_t_2 - gm) \<le> t0 \<and> t1 \<le> wrap32 (goal_t_2 + gm)
      in s\<lparr>final_state := (f_lt r0 r2 \<and> f_lt r1 r2 \<and> free s) \<and> ok\<rparr>)"

definition init_value :: "state \<Rightarrow> state" where
  "init_value s = s\<lparr>total_cost := (if final_state s then 0 else MAX_COST), local_penalty := 0,
     optimal_action := None\<rparr>"

definition set_state_values :: "value_iterator \<Rightarrow> value_iterator" where
  "set_state_values vi = vi\<lparr>states := map init_value (map (mark_final vi) (states vi))\<rparr>"

definition set_goal :: "f64 \<Rightarrow> f64 \<Rightarrow> i32 \<Rightarrow> value_iterator \<Rightarrow> value_iterator" where
  "set_goal gx gy gt vi =
     (set_state_values (vi\<lparr>goal_x := gx, goal_y := gy, goal_t := gt mod 360, thread_status := Map.empty\<rparr>))
       \<lparr>status := ''calculating''\<rparr>"

definition set_goal_region :: "(f64 \<times> f64) list \<Rightarrow> f64 \<Rightarrow> value_iterator \<Rightarrow> value_iterator" where
  "set_goal_region points radius vi =
     (let first = (case points of [] \<Rightarrow> (f_of_int 0, f_of_int 0) | p # _ \<Rightarrow> p);
          vi = vi\<lparr>goal_x := fst first, goal_y := snd first, goal_t := 0, thread_status := Map.empty\<rparr>;
          xy_res = xy_resolution vi; nx = cell_num_x vi; nt = cell_num_t vi;
          half = f_lit (1 / 2);
          r2 = f_mul radius radius;
          sts = fold (\<lambda>iy. let cy = f_add (f_mul (f_add (f_of_int iy) half) xy_res) (map_origin_y vi) in
                  fold (\<lambda>ix. let cx = f_add (f_mul (f_add (f_of_int ix) half) xy_res) (map_origin_x vi);
                        near = list_ex (\<lambda>(px, py). let dx = f_sub cx px; dy = f_sub cy py in
                                  f_le (f_add (f_mul dx dx) (f_mul dy dy)) r2) points in
                    fold (\<lambda>it sts. let i = usize_of (to_index_raw ix iy it nx nt); s = sts ! i in
                        sts[i := init_value (s\<lparr>final_state := near \<and> free s\<rparr>)])
                      [0..nt - 1]) [0..nx - 1]) [0..cell_num_y vi - 1] (states vi)
      in vi\<lparr>states := sts, status := ''calculating''\<rparr>)"

section \<open>Status\<close>

definition set_cancel :: "value_iterator \<Rightarrow> value_iterator" where
  "set_cancel vi = vi\<lparr>status := ''canceled''\<rparr>"

definition end_of_trial :: "value_iterator \<Rightarrow> bool" where
  "end_of_trial vi \<longleftrightarrow> status vi = ''canceled'' \<or> status vi = ''goal''"

definition set_calculated :: "value_iterator \<Rightarrow> value_iterator" where
  "set_calculated vi = (if status vi \<noteq> ''canceled'' then vi\<lparr>status := ''calculated''\<rparr> else vi)"

definition is_calculated :: "value_iterator \<Rightarrow> bool" where
  "is_calculated vi \<longleftrightarrow> status vi = ''calculated''"

section \<open>Writers\<close>

record grid_layers =
  gl_x :: i32
  gl_y :: i32
  gl_t :: i32
  layers :: "f64 list list"

text \<open>The indices \<open>t, t + nt, t + 2 nt, \<dots>\<close> below \<open>n\<close> that the \<open>while\<close> loop of a writer visits.\<close>

function strided :: "nat \<Rightarrow> nat \<Rightarrow> nat \<Rightarrow> nat list" where
  "strided nt n i = (if i < n \<and> 0 < nt then i # strided nt n (i + nt) else [])"
  by pat_completeness auto
termination by (relation "measure (\<lambda>(nt, n, i). n - i)") auto

declare strided.simps [simp del]

definition write_layers :: "value_iterator \<Rightarrow> (state \<Rightarrow> f64) \<Rightarrow> grid_layers" where
  "write_layers vi v =
     (let nx = cell_num_x vi; ny = cell_num_y vi; nt = cell_num_t vi;
          init = replicate (usize_of nt) (replicate (usize_of (wrap32 (nx * ny))) (f_of_int 0))
      in \<lparr>gl_x = nx, gl_y = ny, gl_t = nt,
          layers = fold (\<lambda>t. fold (\<lambda>i ls. let s = states vi ! i in
              ls[usize_of t := (ls ! usize_of t)[usize_of (wrap32 (st_iy s * nx + st_ix s)) := v s]])
              (strided (usize_of nt) (length (states vi)) (usize_of t))) [0..nt - 1] init\<rparr>)"

definition value_function_writer :: "value_iterator \<Rightarrow> grid_layers" where
  "value_function_writer vi = write_layers vi (\<lambda>s. f_of_int (uint (total_cost s div PROB_BASE)))"

definition policy_writer :: "value_iterator \<Rightarrow> grid_layers" where
  "policy_writer vi = write_layers vi (\<lambda>s.
     case optimal_action s of None \<Rightarrow> f_of_int (- 1) | Some ai \<Rightarrow> f_of_int (a_id (actions vi ! ai)))"

definition cost_pixel :: "state \<Rightarrow> i32 \<Rightarrow> i32" where
  "cost_pixel s threshold =
     (let cost = f_div (f_of_int (uint (total_cost s))) (f_of_int (uint PROB_BASE));
          val = (if f_lt cost (f_of_int threshold)
                 then f_as_i32 (f_mul (f_div cost (f_of_int threshold)) (f_of_int 250))
                 else if free s then 250 else 255)
      in signed_take_bit 7 (take_bit 8 val))"

definition make_value_function_map :: "i32 \<Rightarrow> f64 \<Rightarrow> value_iterator \<Rightarrow> occupancy_grid" where
  "make_value_function_map threshold yaw_rad vi =
     (let deg = f_as_i32 (f_mul (f_div yaw_rad f_pi) (f_of_int 180));
          it = f_as_i32 (f_floor (f_div (f_of_int (wrap32 (deg + 360 * 100) smod 360)) (t_resolution vi)))
      in \<lparr>width = cell_num_x vi, height = cell_num_y vi, resolution = xy_resolution vi,
          origin_x = map_origin_x vi, origin_y = map_origin_y vi, origin_quat = map_origin_quat vi,
          data = concat (map (\<lambda>y. map (\<lambda>x. cost_pixel (states vi ! usize_of (to_index vi x y it)) threshold)
                   [0..cell_num_x vi - 1]) [0..cell_num_y vi - 1])\<rparr>)"

end
