(* ===== verification/Bellman.thy ===== *)
theory Bellman
  imports ValueIterator
begin

text \<open>
  The theory of the per-cell update: the well-formedness invariant of a solver state, the
  successor relation its transition tables induce, what one call of
  \<^verbatim>\<open>value_iteration_raw\<close> changes, and the effect of a sequence of such calls on the set of cells
  at which the Bellman equation holds.
\<close>

section \<open>Cells and well-formedness\<close>

type_synonym cell = "nat \<times> nat \<times> nat"

definition dim_x :: "value_iterator \<Rightarrow> nat" where "dim_x vi = nat (cell_num_x vi)"
definition dim_y :: "value_iterator \<Rightarrow> nat" where "dim_y vi = nat (cell_num_y vi)"
definition dim_t :: "value_iterator \<Rightarrow> nat" where "dim_t vi = nat (cell_num_t vi)"

fun in_map :: "value_iterator \<Rightarrow> cell \<Rightarrow> bool" where
  "in_map vi (x, y, t) \<longleftrightarrow> x < dim_x vi \<and> y < dim_y vi \<and> t < dim_t vi"

fun cidx :: "value_iterator \<Rightarrow> cell \<Rightarrow> nat" where
  "cidx vi (x, y, t) = (y * dim_x vi + x) * dim_t vi + t"

definition state_at :: "value_iterator \<Rightarrow> cell \<Rightarrow> state" where
  "state_at vi c = states vi ! cidx vi c"

definition wf_transition :: "value_iterator \<Rightarrow> state_transition \<Rightarrow> bool" where
  "wf_transition vi tr \<longleftrightarrow>
     \<bar>dix tr\<bar> + cell_num_x vi < 2 ^ 31 \<and> \<bar>diy tr\<bar> + cell_num_y vi < 2 ^ 31 \<and>
     0 \<le> dit tr \<and> dit tr + cell_num_t vi < 2 ^ 31"

definition wf_action :: "value_iterator \<Rightarrow> action \<Rightarrow> bool" where
  "wf_action vi a \<longleftrightarrow> length (state_transitions a) = dim_t vi \<and>
     list_all (list_all (wf_transition vi)) (state_transitions a)"

definition wf_state :: "value_iterator \<Rightarrow> cell \<Rightarrow> bool" where
  "wf_state vi = (\<lambda>(x, y, t). let s = state_at vi (x, y, t) in
     st_ix s = int x \<and> st_iy s = int y \<and> st_it s = int t)"

definition wf_vi :: "value_iterator \<Rightarrow> bool" where
  "wf_vi vi \<longleftrightarrow>
     0 < cell_num_x vi \<and> 0 < cell_num_y vi \<and> 0 < cell_num_t vi \<and>
     cell_num_x vi * cell_num_y vi * cell_num_t vi < 2 ^ 31 \<and>
     length (states vi) = dim_x vi * dim_y vi * dim_t vi \<and>
     list_all (wf_action vi) (actions vi) \<and>
     list_all (\<lambda>y. list_all (\<lambda>x. list_all (\<lambda>t. wf_state vi (x, y, t))
       [0..<dim_t vi]) [0..<dim_x vi]) [0..<dim_y vi]"

lemma int_dims [simp]:
  assumes "wf_vi vi"
  shows "int (dim_x vi) = cell_num_x vi" "int (dim_y vi) = cell_num_y vi" "int (dim_t vi) = cell_num_t vi"
  using assms by (simp_all add: wf_vi_def dim_x_def dim_y_def dim_t_def)

lemma wf_dims_pos:
  assumes "wf_vi vi"
  shows "0 < dim_x vi" "0 < dim_y vi" "0 < dim_t vi" "dim_x vi * dim_y vi * dim_t vi < 2 ^ 31"
proof -
  have "int (dim_x vi * dim_y vi * dim_t vi) < int (2 ^ 31)"
    using assms int_dims [OF assms] by (simp add: wf_vi_def)
  then show "dim_x vi * dim_y vi * dim_t vi < 2 ^ 31" by (simp only: of_nat_less_iff)
qed (use assms in \<open>simp_all add: wf_vi_def dim_x_def dim_y_def dim_t_def\<close>)

lemma wf_vi_state_at:
  assumes "wf_vi vi" "in_map vi (x, y, t)"
  shows "st_ix (state_at vi (x, y, t)) = int x" "st_iy (state_at vi (x, y, t)) = int y"
    "st_it (state_at vi (x, y, t)) = int t"
proof -
  have "wf_state vi (x, y, t)" using assms by (simp add: wf_vi_def list_all_iff)
  then show "st_ix (state_at vi (x, y, t)) = int x" "st_iy (state_at vi (x, y, t)) = int y"
    "st_it (state_at vi (x, y, t)) = int t"
    by (simp_all add: wf_state_def Let_def)
qed

lemma wf_vi_transition:
  assumes "wf_vi vi" "a \<in> set (actions vi)" "t < dim_t vi" "tr \<in> set (state_transitions a ! t)"
  shows "wf_transition vi tr"
proof -
  have a: "wf_action vi a" using assms(1,2) by (simp add: wf_vi_def list_all_iff)
  then have "state_transitions a ! t \<in> set (state_transitions a)" using assms(3) by (simp add: wf_action_def)
  with a assms(4) show ?thesis by (auto simp: wf_action_def list_all_iff)
qed

text \<open>The flat index of a cell is in range, injective, and what the code computes.\<close>

lemma cidx_less:
  assumes "in_map vi c"
  shows "cidx vi c < dim_x vi * dim_y vi * dim_t vi"
proof (cases c)
  case (fields x y t)
  have "y * dim_x vi + x < dim_y vi * dim_x vi" using assms fields by (simp add: row_major_less)
  then have "(y * dim_x vi + x) * dim_t vi + t < (dim_y vi * dim_x vi) * dim_t vi"
    using assms fields by (intro row_major_less) simp_all
  then show ?thesis by (simp add: fields mult.commute)
qed

lemma cidx_inj: "in_map vi c \<Longrightarrow> in_map vi c' \<Longrightarrow> cidx vi c = cidx vi c' \<longleftrightarrow> c = c'"
  by (cases c; cases c') (auto simp: row_major_eq)

lemma cidx_surj:
  assumes "i < dim_x vi * dim_y vi * dim_t vi"
  obtains c where "in_map vi c" "cidx vi c = i"
proof -
  from assms have "i < (dim_y vi * dim_x vi) * dim_t vi" by (simp add: mult.commute)
  then obtain r t where r: "r < dim_y vi * dim_x vi" "t < dim_t vi" "i = r * dim_t vi + t" by (rule row_major_cases)
  from r(1) obtain y x where "y < dim_y vi" "x < dim_x vi" "r = y * dim_x vi + x" by (rule row_major_cases)
  with r that [of "(x, y, t)"] show thesis by simp
qed

lemma to_index_cell:
  assumes "wf_vi vi" "in_map vi (x, y, t)"
  shows "usize_of (to_index_raw (int x) (int y) (int t) (cell_num_x vi) (cell_num_t vi)) = cidx vi (x, y, t)"
proof -
  have "cidx vi (x, y, t) < 2 ^ 31" using cidx_less [OF assms(2)] wf_dims_pos(4) [OF assms(1)] by linarith
  moreover have "int t + int x * cell_num_t vi + int y * (cell_num_t vi * cell_num_x vi) = int (cidx vi (x, y, t))"
    using int_dims [OF assms(1), symmetric] by (simp add: algebra_simps)
  moreover have "int (cidx vi (x, y, t)) < 2 ^ 31" using calculation(1) by (metis of_nat_less_iff of_nat_numeral of_nat_power)
  ultimately show ?thesis
    by (simp add: to_index_raw_def wrap32_id usize_of_int del: cidx.simps of_nat_add of_nat_mult)
qed

section \<open>Successors\<close>

definition succ_cell :: "value_iterator \<Rightarrow> state_transition \<Rightarrow> cell \<Rightarrow> cell option" where
  "succ_cell vi tr = (\<lambda>(x, y, t).
     let x' = int x + dix tr; y' = int y + diy tr in
     if 0 \<le> x' \<and> x' < cell_num_x vi \<and> 0 \<le> y' \<and> y' < cell_num_y vi
     then Some (nat x', nat y', nat (dit tr mod cell_num_t vi)) else None)"

definition action_succs :: "value_iterator \<Rightarrow> action \<Rightarrow> cell \<Rightarrow> cell set" where
  "action_succs vi a c = {c'. \<exists>tr\<in>set (state_transitions a ! snd (snd c)). succ_cell vi tr c = Some c'}"

definition succs :: "value_iterator \<Rightarrow> cell \<Rightarrow> cell set" where
  "succs vi c = (\<Union>a\<in>set (actions vi). action_succs vi a c)"

lemma succ_cell_in_map:
  assumes "wf_vi vi" "succ_cell vi tr c = Some c'"
  shows "in_map vi c'"
  using assms wf_dims_pos [OF assms(1)]
  by (cases c) (auto simp: succ_cell_def Let_def dim_x_def dim_y_def dim_t_def nat_less_iff split: if_splits)

lemma succs_in_map: "wf_vi vi \<Longrightarrow> c' \<in> succs vi c \<Longrightarrow> in_map vi c'"
  by (auto simp: succs_def action_succs_def intro: succ_cell_in_map)

text \<open>The cost loop over cells instead of machine indices.\<close>

fun cost_loop :: "value_iterator \<Rightarrow> cell \<Rightarrow> state_transition list \<Rightarrow> u64 \<Rightarrow> u64" where
  "cost_loop vi c [] cost = drop_bit PROB_BASE_BIT cost"
| "cost_loop vi c (tr # trs) cost =
     (case succ_cell vi tr c of
        None \<Rightarrow> MAX_COST
      | Some c' \<Rightarrow> let s = state_at vi c' in
          if free s then cost_loop vi c trs (cost + (total_cost s + penalty s + local_penalty s) * word_of_int (prob tr))
          else MAX_COST)"

lemma wrap32_small: "- (2 ^ 31) \<le> k \<Longrightarrow> k < 2 ^ 31 \<Longrightarrow> wrap32 k = k"
  by (simp add: wrap32_def signed_take_bit_int_eq_self)

lemma theta_index:
  assumes "wf_vi vi" "wf_transition vi tr"
  shows "wrap32 (dit tr + cell_num_t vi) smod cell_num_t vi = dit tr mod cell_num_t vi"
proof -
  have nt: "0 < cell_num_t vi" using assms(1) by (simp add: wf_vi_def)
  have k: "0 \<le> dit tr + cell_num_t vi" "dit tr + cell_num_t vi < 2 ^ 31"
    using assms(2) nt by (simp_all add: wf_transition_def)
  then have "wrap32 (dit tr + cell_num_t vi) = dit tr + cell_num_t vi" by (rule wrap32_id)
  moreover have "(dit tr + cell_num_t vi) smod cell_num_t vi = (dit tr + cell_num_t vi) mod cell_num_t vi"
    using k(1) nt by (cases "dit tr + cell_num_t vi = 0") (simp_all add: signed_modulo_int_def)
  ultimately show ?thesis by simp
qed

lemma action_cost_loop_cells:
  assumes wf: "wf_vi vi" and c: "in_map vi c" and trs: "\<forall>tr\<in>set trs. wf_transition vi tr"
  shows "action_cost_loop (states vi) (state_at vi c) (cell_num_x vi) (cell_num_y vi) (cell_num_t vi) trs cost
     = cost_loop vi c trs cost"
  using trs
proof (induction trs arbitrary: cost)
  case (Cons tr trs)
  obtain x y t where xyt: "c = (x, y, t)" by (cases c)
  have tr: "wf_transition vi tr" using Cons.prems by simp
  have "int x < cell_num_x vi" "int y < cell_num_y vi"
    using c xyt int_dims [OF wf, symmetric] by simp_all
  then have w: "wrap32 (st_ix (state_at vi c) + dix tr) = int x + dix tr"
    "wrap32 (st_iy (state_at vi c) + diy tr) = int y + diy tr"
    using tr wf_vi_state_at [OF wf] c xyt by (auto simp: wf_transition_def intro!: wrap32_small)
  let ?x = "int x + dix tr" and ?y = "int y + diy tr" and ?t = "dit tr mod cell_num_t vi"
  show ?case
  proof (cases "0 \<le> ?x \<and> ?x < cell_num_x vi \<and> 0 \<le> ?y \<and> ?y < cell_num_y vi")
    case True
    have t: "0 \<le> ?t" using wf by (simp add: wf_vi_def)
    have s: "succ_cell vi tr c = Some (nat ?x, nat ?y, nat ?t)" using True by (simp add: succ_cell_def xyt)
    from to_index_cell [OF wf succ_cell_in_map [OF wf s]] True t
    have "states vi ! usize_of (to_index_raw ?x ?y ?t (cell_num_x vi) (cell_num_t vi)) = state_at vi (nat ?x, nat ?y, nat ?t)"
      by (simp add: state_at_def)
    then show ?thesis using True s w theta_index [OF wf tr] Cons by (simp add: Let_def)
  next
    case False
    then show ?thesis using w by (auto simp: succ_cell_def xyt Let_def)
  qed
qed simp

lemma action_cost_cells:
  assumes "wf_vi vi" "in_map vi c" "a \<in> set (actions vi)"
  shows "action_cost vi (state_at vi c) a = cost_loop vi c (state_transitions a ! snd (snd c)) 0"
proof (cases c)
  case (fields x y t)
  then have t: "t < dim_t vi" using assms(2) by simp
  have "dim_t vi \<le> dim_x vi * dim_y vi * dim_t vi" using wf_dims_pos [OF assms(1)] by simp
  then have "t < 2 ^ 31" using t wf_dims_pos(4) [OF assms(1)] by linarith
  then have "usize_of (st_it (state_at vi c)) = t"
    using wf_vi_state_at [OF assms(1)] assms(2) fields by (simp add: usize_of_int)
  then show ?thesis
    using action_cost_loop_cells [OF assms(1,2)] wf_vi_transition [OF assms(1,3) t] fields
    by (simp add: action_cost_def action_cost_raw_def)
qed

section \<open>The update of one cell\<close>

definition settled :: "value_iterator \<Rightarrow> cell \<Rightarrow> bool" where
  "settled vi c \<longleftrightarrow> (case bellman_update vi (cidx vi c) of
     None \<Rightarrow> True
   | Some (v, a) \<Rightarrow> total_cost (state_at vi c) = v \<and> optimal_action (state_at vi c) = a)"

definition argmin_loop :: "('a \<Rightarrow> u64) \<Rightarrow> 'a list \<Rightarrow> u64 \<times> nat option" where
  "argmin_loop cost acts = fold (\<lambda>(ai, a) (m, b). let c = cost a in if c < m then (c, Some ai) else (m, b))
     (List.enumerate 0 acts) (MAX_COST, None)"

lemma fold_argmin_cong:
  "(\<And>a. a \<in> set acts \<Longrightarrow> f a = g a) \<Longrightarrow>
   fold (\<lambda>(ai, a) (m, b). let c = f a in if c < m then (c, Some ai) else (m, b)) (List.enumerate k acts) p =
   fold (\<lambda>(ai, a) (m, b). let c = g a in if c < m then (c, Some ai) else (m, b)) (List.enumerate k acts) p"
  by (induction acts arbitrary: k p) simp_all

lemma bellman_update_cells:
  assumes "wf_vi vi" "in_map vi c"
  shows "bellman_update vi (cidx vi c) =
    (if free (state_at vi c) \<and> \<not> final_state (state_at vi c)
     then Some (argmin_loop (\<lambda>a. cost_loop vi c (state_transitions a ! snd (snd c)) 0) (actions vi)) else None)"
proof -
  have "fold (\<lambda>(ai, a) (m, b). let c = action_cost vi (state_at vi c) a in if c < m then (c, Some ai) else (m, b))
      (List.enumerate 0 (actions vi)) (MAX_COST, None) =
    argmin_loop (\<lambda>a. cost_loop vi c (state_transitions a ! snd (snd c)) 0) (actions vi)"
    unfolding argmin_loop_def by (rule fold_argmin_cong) (rule action_cost_cells [OF assms])
  then show ?thesis
    by (simp add: bellman_update_def min_action_cost_def state_at_def action_cost_def)
qed

text \<open>Two solver states over the same map and the same actions.\<close>

definition same_frame :: "value_iterator \<Rightarrow> value_iterator \<Rightarrow> bool" where
  "same_frame vi vi' \<longleftrightarrow> (\<exists>sts. vi' = vi\<lparr>states := sts\<rparr> \<and> length sts = length (states vi) \<and>
     (\<forall>i<length sts. \<exists>v a. sts ! i = (states vi ! i)\<lparr>total_cost := v, optimal_action := a\<rparr>))"

lemma same_frame_refl [simp]: "same_frame vi vi"
proof -
  have "\<exists>v a. s = s\<lparr>total_cost := v, optimal_action := a\<rparr>" for s :: state
    by (intro exI [of _ "total_cost s"] exI [of _ "optimal_action s"]) simp
  then show ?thesis unfolding same_frame_def by (intro exI [of _ "states vi"]) simp
qed

lemma same_frame_trans [trans]:
  assumes "same_frame vi vi'" "same_frame vi' vi''"
  shows "same_frame vi vi''"
proof -
  from assms(1) obtain sts where v: "vi' = vi\<lparr>states := sts\<rparr>" "length sts = length (states vi)"
    and s: "\<forall>i<length sts. \<exists>v a. sts ! i = (states vi ! i)\<lparr>total_cost := v, optimal_action := a\<rparr>"
    by (auto simp: same_frame_def)
  from assms(2) obtain sts' where v': "vi'' = vi'\<lparr>states := sts'\<rparr>" "length sts' = length (states vi')"
    and s': "\<forall>i<length sts'. \<exists>v a. sts' ! i = (states vi' ! i)\<lparr>total_cost := v, optimal_action := a\<rparr>"
    by (auto simp: same_frame_def)
  have "\<exists>v a. sts' ! i = (states vi ! i)\<lparr>total_cost := v, optimal_action := a\<rparr>" if "i < length sts'" for i
  proof -
    from s' that obtain w b where w: "sts' ! i = (sts ! i)\<lparr>total_cost := w, optimal_action := b\<rparr>"
      using v by auto
    have "i < length sts" using that v v' by simp
    then obtain w' b' where "sts ! i = (states vi ! i)\<lparr>total_cost := w', optimal_action := b'\<rparr>"
      using s by blast
    with w have "sts' ! i = (states vi ! i)\<lparr>total_cost := w, optimal_action := b\<rparr>" by simp
    then show ?thesis by blast
  qed
  then show ?thesis unfolding same_frame_def using v v' by (intro exI [of _ sts']) simp
qed

lemma same_frame_sel:
  assumes "same_frame vi vi'"
  shows "dim_x vi' = dim_x vi" "dim_y vi' = dim_y vi" "dim_t vi' = dim_t vi" "actions vi' = actions vi"
    "cell_num_x vi' = cell_num_x vi" "cell_num_y vi' = cell_num_y vi" "cell_num_t vi' = cell_num_t vi"
    "in_map vi' = in_map vi" "cidx vi' = cidx vi" "succ_cell vi' = succ_cell vi" "succs vi' = succs vi"
    "length (states vi') = length (states vi)"
proof -
  from assms obtain sts where v: "vi' = vi\<lparr>states := sts\<rparr>" "length sts = length (states vi)"
    by (auto simp: same_frame_def)
  show d: "dim_x vi' = dim_x vi" "dim_y vi' = dim_y vi" "dim_t vi' = dim_t vi" "actions vi' = actions vi"
    "cell_num_x vi' = cell_num_x vi" "cell_num_y vi' = cell_num_y vi" "cell_num_t vi' = cell_num_t vi"
    "length (states vi') = length (states vi)"
    using v by (simp_all add: dim_x_def dim_y_def dim_t_def)
  show "in_map vi' = in_map vi" "cidx vi' = cidx vi" by (auto simp: fun_eq_iff d)
  show s: "succ_cell vi' = succ_cell vi" unfolding succ_cell_def d ..
  show "succs vi' = succs vi" by (auto simp: fun_eq_iff succs_def action_succs_def s d)
qed

lemma same_frame_state:
  assumes "same_frame vi vi'" "wf_vi vi" "in_map vi c"
  obtains v a where "state_at vi' c = (state_at vi c)\<lparr>total_cost := v, optimal_action := a\<rparr>"
proof -
  have "cidx vi c < length (states vi)" using cidx_less [OF assms(3)] assms(2) by (simp add: wf_vi_def)
  with assms(1) same_frame_sel(9) [OF assms(1)] that show thesis
    by (auto simp: same_frame_def state_at_def)
qed

lemma same_frame_wf [inv_intros]:
  assumes "same_frame vi vi'" "wf_vi vi"
  shows "wf_vi vi'"
proof -
  have "wf_state vi' c" if c: "in_map vi c" for c
  proof -
    obtain v a where "state_at vi' c = (state_at vi c)\<lparr>total_cost := v, optimal_action := a\<rparr>"
      by (rule same_frame_state [OF assms c])
    then show ?thesis using wf_vi_state_at [OF assms(2)] c by (cases c) (simp add: wf_state_def)
  qed
  moreover have "wf_action vi' = wf_action vi"
    by (simp add: fun_eq_iff wf_action_def wf_transition_def [abs_def] same_frame_sel [OF assms(1)])
  ultimately show ?thesis using assms(2)
    by (simp add: wf_vi_def same_frame_sel [OF assms(1)] list_all_iff)
qed

definition relax :: "value_iterator \<Rightarrow> cell \<Rightarrow> value_iterator \<times> u64" where
  "relax vi c = value_iteration_at vi (cidx vi c)"

lemma unsigned_abs_0 [simp]: "unsigned_abs d = 0 \<longleftrightarrow> d = 0"
  by (simp add: unsigned_abs_def)

lemma relax_eq:
  "relax vi c = (case bellman_update vi (cidx vi c) of
      None \<Rightarrow> (vi, 0)
    | Some (v, a) \<Rightarrow> (vi\<lparr>states := (states vi)[cidx vi c := (state_at vi c)\<lparr>total_cost := v, optimal_action := a\<rparr>]\<rparr>,
                     unsigned_abs (v - total_cost (state_at vi c))))"
  by (simp add: relax_def value_iteration_at_def value_iteration_raw_def bellman_update_def state_at_def Let_def
      split: option.splits prod.splits)

lemma relax_same_frame [inv_intros]:
  assumes "wf_vi vi" "in_map vi c"
  shows "same_frame vi (fst (relax vi c))"
proof (cases "bellman_update vi (cidx vi c)")
  case None
  then show ?thesis by (simp add: relax_eq)
next
  case (Some va)
  obtain v a where va: "va = (v, a)" by (cases va)
  let ?s = "(states vi)[cidx vi c := (state_at vi c)\<lparr>total_cost := v, optimal_action := a\<rparr>]"
  have "\<exists>w b. ?s ! i = (states vi ! i)\<lparr>total_cost := w, optimal_action := b\<rparr>" if "i < length ?s" for i
  proof (cases "i = cidx vi c")
    case True
    then show ?thesis using that by (auto simp: state_at_def)
  next
    case False
    then have "?s ! i = (states vi ! i)\<lparr>total_cost := total_cost (states vi ! i), optimal_action := optimal_action (states vi ! i)\<rparr>"
      using that by (simp add: nth_update_at)
    then show ?thesis by blast
  qed
  then show ?thesis using Some va unfolding same_frame_def by (intro exI [of _ ?s]) (simp add: relax_eq)
qed

lemma relax_other:
  assumes "wf_vi vi" "in_map vi c" "in_map vi c'" "c' \<noteq> c"
  shows "state_at (fst (relax vi c)) c' = state_at vi c'"
proof -
  have "cidx vi c' < length (states vi)" using cidx_less [OF assms(3)] assms(1) by (simp add: wf_vi_def)
  moreover have "cidx vi c \<noteq> cidx vi c'" using cidx_inj [OF assms(2,3)] assms(4) by simp
  ultimately show ?thesis
    using same_frame_sel(9) [OF relax_same_frame [OF assms(1,2)]]
    by (auto simp: relax_eq state_at_def nth_update_at split: option.splits prod.splits)
qed

lemma relax_self:
  assumes "wf_vi vi" "in_map vi c"
  shows "state_at (fst (relax vi c)) c = (case bellman_update vi (cidx vi c) of
     None \<Rightarrow> state_at vi c | Some (v, a) \<Rightarrow> (state_at vi c)\<lparr>total_cost := v, optimal_action := a\<rparr>)"
proof -
  have "cidx vi c < length (states vi)" using cidx_less [OF assms(2)] assms(1) by (simp add: wf_vi_def)
  then show ?thesis
    using same_frame_sel(9) [OF relax_same_frame [OF assms]]
    by (auto simp: relax_eq state_at_def nth_update_at split: option.splits prod.splits)
qed

text \<open>The reported difference is zero exactly when the value of the cell did not move.\<close>

lemma relax_delta:
  assumes "wf_vi vi" "in_map vi c"
  shows "snd (relax vi c) = 0 \<longleftrightarrow> total_cost (state_at (fst (relax vi c)) c) = total_cost (state_at vi c)"
  unfolding relax_self [OF assms] by (auto simp: relax_eq split: option.splits prod.splits)

text \<open>The right-hand side of the Bellman equation at a cell depends on its successors only.\<close>

lemma cost_loop_cong:
  assumes "same_frame vi vi'"
    and "\<And>tr c'. tr \<in> set trs \<Longrightarrow> succ_cell vi tr c = Some c' \<Longrightarrow>
      total_cost (state_at vi' c') = total_cost (state_at vi c') \<and> penalty (state_at vi' c') = penalty (state_at vi c')
      \<and> local_penalty (state_at vi' c') = local_penalty (state_at vi c') \<and> free (state_at vi' c') = free (state_at vi c')"
  shows "cost_loop vi' c trs cost = cost_loop vi c trs cost"
  using assms(2)
proof (induction trs arbitrary: cost)
  case (Cons tr trs)
  have "succ_cell vi' tr c = succ_cell vi tr c" by (simp add: same_frame_sel [OF assms(1)])
  moreover have "cost_loop vi' c trs k = cost_loop vi c trs k" for k by (rule Cons.IH) (rule Cons.prems, simp_all)
  ultimately show ?case using Cons.prems [of tr] by (cases "succ_cell vi tr c") (simp_all add: Let_def)
qed simp

lemma bellman_cong:
  assumes wf: "wf_vi vi" "in_map vi c" and fr: "same_frame vi vi'"
    and same: "\<And>c'. c' \<in> succs vi c \<Longrightarrow> total_cost (state_at vi' c') = total_cost (state_at vi c')"
  shows "bellman_update vi' (cidx vi c) = bellman_update vi (cidx vi c)"
proof -
  have wf': "wf_vi vi'" by (rule same_frame_wf [OF fr wf(1)])
  have "cost_loop vi' c (state_transitions a ! snd (snd c)) 0 = cost_loop vi c (state_transitions a ! snd (snd c)) 0"
    if a: "a \<in> set (actions vi)" for a
  proof (rule cost_loop_cong [OF fr])
    fix tr c' assume tr: "tr \<in> set (state_transitions a ! snd (snd c))" "succ_cell vi tr c = Some c'"
    then have c': "c' \<in> succs vi c" using a by (auto simp: succs_def action_succs_def)
    obtain v b where "state_at vi' c' = (state_at vi c')\<lparr>total_cost := v, optimal_action := b\<rparr>"
      by (rule same_frame_state [OF fr wf(1) succs_in_map [OF wf(1) c']])
    with same [OF c'] show "total_cost (state_at vi' c') = total_cost (state_at vi c') \<and> penalty (state_at vi' c') = penalty (state_at vi c')
      \<and> local_penalty (state_at vi' c') = local_penalty (state_at vi c') \<and> free (state_at vi' c') = free (state_at vi c')" by simp
  qed
  then have m: "argmin_loop (\<lambda>a. cost_loop vi' c (state_transitions a ! snd (snd c)) 0) (actions vi) =
    argmin_loop (\<lambda>a. cost_loop vi c (state_transitions a ! snd (snd c)) 0) (actions vi)"
    unfolding argmin_loop_def by (rule fold_argmin_cong)
  obtain v b where "state_at vi' c = (state_at vi c)\<lparr>total_cost := v, optimal_action := b\<rparr>"
    by (rule same_frame_state [OF fr wf])
  then show ?thesis
    using bellman_update_cells [OF wf] bellman_update_cells [OF wf', of c] wf(2) m
    by (simp add: same_frame_sel [OF fr])
qed

text \<open>If the value of a cell does not move, the Bellman equation holds there afterwards.\<close>

lemma relax_settles:
  assumes "wf_vi vi" "in_map vi c" "snd (relax vi c) = 0"
  shows "settled (fst (relax vi c)) c"
proof -
  let ?vi = "fst (relax vi c)"
  have fr: "same_frame vi ?vi" by (rule relax_same_frame [OF assms(1,2)])
  have same: "total_cost (state_at ?vi c') = total_cost (state_at vi c')" if "c' \<in> succs vi c" for c'
    using relax_other [OF assms(1,2) succs_in_map [OF assms(1) that]] relax_delta [OF assms(1,2)] assms(3)
    by (cases "c' = c") simp_all
  have "bellman_update ?vi (cidx vi c) = bellman_update vi (cidx vi c)"
    by (rule bellman_cong [OF assms(1,2) fr same])
  then show ?thesis
    using relax_self [OF assms(1,2)]
    by (simp add: settled_def same_frame_sel [OF fr] split: option.splits prod.splits)
qed

section \<open>Sequences of updates\<close>

fun relax_list :: "value_iterator \<Rightarrow> cell list \<Rightarrow> value_iterator \<times> cell list" where
  "relax_list vi [] = (vi, [])"
| "relax_list vi (c # cs) =
     (let (vi', d) = relax vi c; (vi'', ch) = relax_list vi' cs in (vi'', if d = 0 then ch else c # ch))"

text \<open>A cell none of whose successors carries a value yet.\<close>

definition unreached :: "value_iterator \<Rightarrow> cell \<Rightarrow> bool" where
  "unreached vi c \<longleftrightarrow> (\<forall>c'\<in>succs vi c. MAX_COST \<le> total_cost (state_at vi c'))"

text \<open>The cells whose Bellman equation mentions a cell of \<open>S\<close>, and \<open>S\<close> itself.\<close>

definition affected :: "value_iterator \<Rightarrow> cell set \<Rightarrow> cell set" where
  "affected vi S = {c. in_map vi c \<and> (c \<in> S \<or> succs vi c \<inter> S \<noteq> {})}"

definition consistent_but :: "value_iterator \<Rightarrow> cell set \<Rightarrow> bool" where
  "consistent_but vi R \<longleftrightarrow> (\<forall>c. in_map vi c \<longrightarrow> settled vi c \<or> unreached vi c \<or> c \<in> R)"

lemma affected_mono: "S \<subseteq> T \<Longrightarrow> affected vi S \<subseteq> affected vi T"
  by (auto simp: affected_def)

lemma affected_Un: "affected vi (S \<union> T) = affected vi S \<union> affected vi T"
  by (auto simp: affected_def)

lemma affected_frame: "same_frame vi vi' \<Longrightarrow> affected vi' = affected vi"
  by (simp add: fun_eq_iff affected_def same_frame_sel)

lemma relax_consistent:
  assumes wf: "wf_vi vi" "in_map vi c" and cons: "consistent_but vi (insert c R)"
  shows "consistent_but (fst (relax vi c)) (R \<union> (if snd (relax vi c) = 0 then {} else affected vi {c}))"
  unfolding consistent_but_def
proof (intro allI impI)
  let ?vi = "fst (relax vi c)" and ?A = "if snd (relax vi c) = 0 then {} else affected vi {c}"
  have fr: "same_frame vi ?vi" by (rule relax_same_frame [OF wf])
  fix c' assume "in_map ?vi c'"
  then have c': "in_map vi c'" by (simp add: same_frame_sel [OF fr])
  show "settled ?vi c' \<or> unreached ?vi c' \<or> c' \<in> R \<union> ?A"
  proof (cases "c' \<in> ?A \<or> c' = c \<and> snd (relax vi c) = 0")
    case True
    then show ?thesis using relax_settles [OF wf] by auto
  next
    case False
    have same: "total_cost (state_at ?vi d) = total_cost (state_at vi d)" if "d \<in> succs vi c'" for d
      using False that relax_other [OF wf succs_in_map [OF wf(1) that]] relax_delta [OF wf] c'
      by (cases "d = c") (auto simp: affected_def split: if_splits)
    have ne: "c' \<noteq> c" using False c' by (auto simp: affected_def split: if_splits)
    have "bellman_update ?vi (cidx vi c') = bellman_update vi (cidx vi c')"
      by (rule bellman_cong [OF wf(1) c' fr same])
    then have "settled ?vi c' \<longleftrightarrow> settled vi c'"
      unfolding settled_def same_frame_sel(9) [OF fr] relax_other [OF wf c' ne] by simp
    moreover have "unreached ?vi c' \<longleftrightarrow> unreached vi c'"
      using same by (simp add: unreached_def same_frame_sel [OF fr])
    moreover have "settled vi c' \<or> unreached vi c' \<or> c' \<in> R"
      using cons c' ne unfolding consistent_but_def by blast
    ultimately show ?thesis by blast
  qed
qed

lemma relax_list_frame [inv_intros]:
  assumes "wf_vi vi" "\<forall>c\<in>set cs. in_map vi c"
  shows "same_frame vi (fst (relax_list vi cs))"
  using assms
proof (induction cs arbitrary: vi)
  case (Cons c cs)
  have fr: "same_frame vi (fst (relax vi c))" using Cons.prems by (intro relax_same_frame) simp_all
  have "same_frame (fst (relax vi c)) (fst (relax_list (fst (relax vi c)) cs))"
    using Cons.prems by (intro Cons.IH same_frame_wf [OF fr]) (simp_all add: same_frame_sel [OF fr])
  with fr show ?case by (simp add: Let_def case_prod_beta) (rule same_frame_trans)
qed simp

text \<open>The heart of every active-set solver: after updating the cells of a list that contains
  every cell not known to be consistent, only cells affected by a change can be inconsistent.\<close>

lemma relax_list_Cons:
  "fst (relax_list vi (c # cs)) = fst (relax_list (fst (relax vi c)) cs)"
  "set (snd (relax_list vi (c # cs))) =
     (if snd (relax vi c) = 0 then {} else {c}) \<union> set (snd (relax_list (fst (relax vi c)) cs))"
  by (simp_all add: Let_def case_prod_beta)

lemma relax_list_consistent:
  assumes "wf_vi vi" "\<forall>c\<in>set cs. in_map vi c" "consistent_but vi (set cs \<union> R)"
  shows "consistent_but (fst (relax_list vi cs)) (R \<union> affected vi (set (snd (relax_list vi cs))))"
  using assms
proof (induction cs arbitrary: vi R)
  case Nil
  then show ?case by (auto simp: consistent_but_def)
next
  case (Cons c cs)
  define vi' where "vi' = fst (relax vi c)"
  define D where "D = (if snd (relax vi c) = 0 then {} else {c})"
  have c: "in_map vi c" "\<forall>c\<in>set cs. in_map vi c" using Cons.prems by simp_all
  have fr: "same_frame vi vi'" unfolding vi'_def by (rule relax_same_frame [OF Cons.prems(1) c(1)])
  have "consistent_but vi' ((set cs \<union> R) \<union> affected vi D)"
    using relax_consistent [OF Cons.prems(1) c(1), of "set cs \<union> R"] Cons.prems(3)
    unfolding vi'_def D_def by (simp add: affected_def split: if_splits)
  then have "consistent_but vi' (set cs \<union> (R \<union> affected vi D))" by (simp only: Un_assoc)
  then have "consistent_but (fst (relax_list vi' cs)) ((R \<union> affected vi D) \<union> affected vi' (set (snd (relax_list vi' cs))))"
    using c(2) by (intro Cons.IH same_frame_wf [OF fr Cons.prems(1)]) (simp_all only: same_frame_sel [OF fr])
  then show ?case
    unfolding relax_list_Cons vi'_def [symmetric] D_def [symmetric] affected_Un affected_frame [OF fr] Un_assoc .
qed

lemma relax_list_append:
  "relax_list vi (cs @ ds) =
    (let (vi', ch) = relax_list vi cs; (vi'', ch') = relax_list vi' ds in (vi'', ch @ ch'))"
  by (induction cs arbitrary: vi) (auto simp: Let_def case_prod_beta)

lemma relax_list_changed: "set (snd (relax_list vi cs)) \<subseteq> set cs"
  by (induction cs arbitrary: vi) (auto simp: Let_def case_prod_beta)

end
