(* ===== verification/Bitboard.thy ===== *)
theory Bitboard
  imports Prelude
begin

unbundle bit_operations_syntax

text \<open>
  The packed bitboards of \<^verbatim>\<open>vi_lib/src/bitboard\<close>: 64 cells per word, one row of the map after the
  other (\<open>Bitboard2D\<close>), one theta layer after the other (\<open>Bitboard3D\<close>), and the
  word-parallel operations on them (\<^verbatim>\<open>bitboard/ops.rs\<close>).

  The abstraction of a board is the set of its cells (\<open>cells2\<close>, \<open>cells3\<close>). The lemmas
  show that \<open>set\<close> adds one cell, \<open>popcount\<close> counts the cells, \<open>dilate\<close> is the
  L-infinity box dilation clipped to the map (periodic in theta), and that all of them keep the
  invariant (\<open>wf2\<close>, \<open>wf3\<close>): the array has the size of the map and no bit beyond the
  last column is set. \<open>dilate\<close> is \<open>None\<close> where the code's \<^verbatim>\<open>assert!(dx < 64)\<close> panics.
\<close>

section \<open>The code\<close>

definition words_per_row :: "nat \<Rightarrow> nat" where
  "words_per_row mx = div_ceil mx 64"

definition row_mask :: "nat \<Rightarrow> u64 list" where
  "row_mask mx =
     (let nw = words_per_row mx; mask = replicate nw (- 1); rem = mx mod 64
      in if rem \<noteq> 0 then mask[nw - 1 := push_bit rem 1 - 1] else mask)"

record bitboard2d =
  data2 :: "u64 list"
  map_x2 :: nat
  map_y2 :: nat
  wpr2 :: nat

record bitboard3d =
  data3 :: "u64 list"
  map_x3 :: nat
  map_y3 :: nat
  n_theta3 :: nat
  wpr3 :: nat

definition new2 :: "nat \<Rightarrow> nat \<Rightarrow> bitboard2d" where
  "new2 mx my = (let w = words_per_row mx in
     \<lparr>data2 = replicate (my * w) 0, map_x2 = mx, map_y2 = my, wpr2 = w\<rparr>)"

definition set2 :: "bitboard2d \<Rightarrow> nat \<Rightarrow> nat \<Rightarrow> bitboard2d" where
  "set2 bb x y =
     (let wi = x div 64; bi = x mod 64; idx = y * wpr2 bb + wi
      in bb\<lparr>data2 := (data2 bb)[idx := data2 bb ! idx OR push_bit bi 1]\<rparr>)"

definition test2 :: "bitboard2d \<Rightarrow> nat \<Rightarrow> nat \<Rightarrow> bool" where
  "test2 bb x y =
     (let wi = x div 64; bi = x mod 64; idx = y * wpr2 bb + wi
      in data2 bb ! idx AND push_bit bi 1 \<noteq> 0)"

definition new3 :: "nat \<Rightarrow> nat \<Rightarrow> nat \<Rightarrow> bitboard3d" where
  "new3 mx my nt = (let w = words_per_row mx in
     \<lparr>data3 = replicate (nt * my * w) 0, map_x3 = mx, map_y3 = my, n_theta3 = nt, wpr3 = w\<rparr>)"

definition set3 :: "bitboard3d \<Rightarrow> nat \<Rightarrow> nat \<Rightarrow> nat \<Rightarrow> bitboard3d" where
  "set3 bb x y t =
     (let wi = x div 64; bi = x mod 64; idx = t * map_y3 bb * wpr3 bb + y * wpr3 bb + wi
      in bb\<lparr>data3 := (data3 bb)[idx := data3 bb ! idx OR push_bit bi 1]\<rparr>)"

definition test3 :: "bitboard3d \<Rightarrow> nat \<Rightarrow> nat \<Rightarrow> nat \<Rightarrow> bool" where
  "test3 bb x y t =
     (let wi = x div 64; bi = x mod 64; idx = t * map_y3 bb * wpr3 bb + y * wpr3 bb + wi
      in data3 bb ! idx AND push_bit bi 1 \<noteq> 0)"

definition popcount_slice :: "u64 list \<Rightarrow> nat" where
  "popcount_slice ws = sum_list (map count_ones ws)"

definition popcount2 :: "bitboard2d \<Rightarrow> nat" where
  "popcount2 bb = popcount_slice (data2 bb)"

definition popcount3 :: "bitboard3d \<Rightarrow> nat" where
  "popcount3 bb = popcount_slice (data3 bb)"

text \<open>The \<open>zip\<close> of the code stops at the shorter slice; the rest of \<open>a\<close> is kept.\<close>

definition and_slice :: "u64 list \<Rightarrow> u64 list \<Rightarrow> u64 list" where
  "and_slice a b = map2 (AND) a b @ drop (length b) a"

definition or_slice :: "u64 list \<Rightarrow> u64 list \<Rightarrow> u64 list" where
  "or_slice a b = map2 (OR) a b @ drop (length b) a"

definition and_inplace2 :: "bitboard2d \<Rightarrow> bitboard2d \<Rightarrow> bitboard2d" where
  "and_inplace2 a b = a\<lparr>data2 := and_slice (data2 a) (data2 b)\<rparr>"

definition or_inplace2 :: "bitboard2d \<Rightarrow> bitboard2d \<Rightarrow> bitboard2d" where
  "or_inplace2 a b = a\<lparr>data2 := or_slice (data2 a) (data2 b)\<rparr>"

text \<open>One row shifted by \<open>sx\<close> cells, with the carry between words, masked to the map.\<close>

definition shift_row :: "u64 list \<Rightarrow> int \<Rightarrow> u64 list \<Rightarrow> u64 list" where
  "shift_row row sx rmask =
     (let nw = length row in
      if sx = 0 then map (\<lambda>i. row ! i AND rmask ! i) [0..<nw]
      else let out =
        (if sx > 0 then
           (let s = nat sx in
            map (\<lambda>i. wrapping_shl (row ! i) s
                     OR (if i > 0 then wrapping_shr (row ! (i - 1)) (64 - s) else 0)) [0..<nw])
         else
           (let n = nat (- sx) in
            map (\<lambda>i. wrapping_shr (row ! i) n
                     OR (if i + 1 < nw then wrapping_shl (row ! (i + 1)) (64 - n) else 0)) [0..<nw]))
      in map (\<lambda>i. out ! i AND rmask ! i) [0..<nw])"

text \<open>The inner \<open>for w in 0..wpr\<close> loops of the dilation.\<close>

definition or_row :: "nat \<Rightarrow> nat \<Rightarrow> u64 list \<Rightarrow> nat \<Rightarrow> u64 list \<Rightarrow> u64 list" where
  "or_row w dst_start src src_start dst =
     fold (\<lambda>i d. d[dst_start + i := d ! (dst_start + i) OR src ! (src_start + i)]) [0..<w] dst"

definition mask_row :: "nat \<Rightarrow> nat \<Rightarrow> u64 list \<Rightarrow> u64 list \<Rightarrow> u64 list" where
  "mask_row w start rmask dst =
     fold (\<lambda>i d. d[start + i := d ! (start + i) AND rmask ! i]) [0..<w] dst"

definition dilate_y :: "u64 list \<Rightarrow> nat \<Rightarrow> nat \<Rightarrow> nat \<Rightarrow> u64 list" where
  "dilate_y src my w dy =
     fold (\<lambda>sy. fold (\<lambda>r d.
         let d1 = (if r + sy < my then or_row w ((r + sy) * w) src (r * w) d else d)
         in if sy \<le> r then or_row w ((r - sy) * w) src (r * w) d1 else d1) [0..<my])
       [1..<dy + 1] src"

definition dilate_x_row :: "u64 list \<Rightarrow> nat \<Rightarrow> nat \<Rightarrow> nat \<Rightarrow> u64 list \<Rightarrow> u64 list" where
  "dilate_x_row rmask w dx y dst =
     (let row_start = y * w;
          pos = take w (drop row_start dst);
          d1 = fold (\<lambda>sx d.
                 or_row w row_start (shift_row pos (- int sx) rmask) 0
                   (or_row w row_start (shift_row pos (int sx) rmask) 0 d)) [1..<dx + 1] dst
      in mask_row w row_start rmask d1)"

definition dilate2d_into :: "u64 list \<Rightarrow> nat \<Rightarrow> nat \<Rightarrow> u64 list \<Rightarrow> nat \<Rightarrow> nat \<Rightarrow> u64 list option" where
  "dilate2d_into src my w rmask dx dy =
     (if \<not> dx < 64 then None
      else let dst = dilate_y src my w dy in
        if dx = 0 then Some (fold (\<lambda>y. mask_row w (y * w) rmask) [0..<my] dst)
        else Some (fold (dilate_x_row rmask w dx) [0..<my] dst))"

definition dilate2d :: "bitboard2d \<Rightarrow> nat \<Rightarrow> nat \<Rightarrow> bitboard2d option" where
  "dilate2d bb dx dy =
     map_option (\<lambda>out. bb\<lparr>data2 := out\<rparr>)
       (dilate2d_into (data2 bb) (map_y2 bb) (wpr2 bb) (row_mask (map_x2 bb)) dx dy)"

text \<open>
  The layers are dilated one after the other into \<open>temp\<close>, then the theta pass reads \<open>temp\<close>
  and writes \<open>out\<close>.
\<close>

definition dilate3d_theta :: "u64 list \<Rightarrow> nat \<Rightarrow> nat \<Rightarrow> nat \<Rightarrow> u64 list" where
  "dilate3d_theta temp nt stride dt =
     fold (\<lambda>st. fold (\<lambda>t out.
         let tp = (t + st) mod nt; tm = (t + nt - st) mod nt
         in fold (\<lambda>w o'. o'[t * stride + w := o' ! (t * stride + w)
               OR (temp ! (tp * stride + w) OR temp ! (tm * stride + w))]) [0..<stride] out) [0..<nt])
       [1..<dt + 1] temp"

fun dilate3d_layers :: "u64 list \<Rightarrow> nat \<Rightarrow> nat \<Rightarrow> u64 list \<Rightarrow> nat \<Rightarrow> nat \<Rightarrow> nat list \<Rightarrow> u64 list option" where
  "dilate3d_layers src my w rmask dx dy [] = Some []"
| "dilate3d_layers src my w rmask dx dy (t # ts) =
     (case dilate2d_into (take (my * w) (drop (t * (my * w)) src)) my w rmask dx dy of
        None \<Rightarrow> None
      | Some l \<Rightarrow> map_option (\<lambda>r. l @ r) (dilate3d_layers src my w rmask dx dy ts))"

definition dilate3d :: "bitboard3d \<Rightarrow> nat \<Rightarrow> nat \<Rightarrow> nat \<Rightarrow> bitboard3d option" where
  "dilate3d bb dx dy dt =
     (case dilate3d_layers (data3 bb) (map_y3 bb) (wpr3 bb) (row_mask (map_x3 bb)) dx dy
             [0..<n_theta3 bb] of
        None \<Rightarrow> None
      | Some temp \<Rightarrow>
          if dt = 0 then Some (bb\<lparr>data3 := temp\<rparr>)
          else Some (bb\<lparr>data3 := dilate3d_theta temp (n_theta3 bb) (map_y3 bb * wpr3 bb) dt\<rparr>))"

section \<open>One row\<close>

text \<open>Cell \<open>x\<close> of a row of words.\<close>

definition rbit :: "u64 list \<Rightarrow> nat \<Rightarrow> bool" where
  "rbit row x \<longleftrightarrow> bit (row ! (x div 64)) (x mod 64)"

lemma words_per_row_iff: "x div 64 < words_per_row mx \<longleftrightarrow> x < mx \<or> x div 64 = mx div 64 \<and> mx mod 64 \<noteq> 0"
proof -
  have *: "words_per_row mx = mx div 64 + (if mx mod 64 = 0 then 0 else 1)"
    by (simp add: words_per_row_def div_ceil_eq)
  have "x < mx \<Longrightarrow> x div 64 \<le> mx div 64" by (simp add: div_le_mono)
  moreover have "mx mod 64 = 0 \<Longrightarrow> x < mx \<Longrightarrow> x div 64 < mx div 64"
    using less_mult_imp_div_less [of x "mx div 64" 64] by (simp add: mod_eq_0_iff_dvd)
  moreover have "x div 64 < mx div 64 \<Longrightarrow> x < mx" by (meson div_le_mono not_le)
  ultimately show ?thesis by (auto simp: *)
qed

lemma words_per_row_least: "x < mx \<Longrightarrow> x div 64 < words_per_row mx"
  by (simp add: words_per_row_iff)

lemma length_row_mask [simp]: "length (row_mask mx) = words_per_row mx"
  by (simp add: row_mask_def Let_def)

lemma bit_low_mask: "r < 64 \<Longrightarrow> bit (push_bit r 1 - 1 :: u64) b \<longleftrightarrow> b < r"
proof -
  assume r: "r < 64"
  have "push_bit r 1 - 1 = (mask r :: u64)"
    by (simp add: mask_eq_exp_minus_1 push_bit_eq_mult)
  with r show ?thesis by (auto simp: bit_mask_iff)
qed

lemma words_per_row_last:
  assumes "mx mod 64 \<noteq> 0"
  shows "words_per_row mx = mx div 64 + 1"
  using assms by (simp add: words_per_row_def div_ceil_eq)

lemma rbit_row_mask:
  assumes "x div 64 < words_per_row mx"
  shows "rbit (row_mask mx) x \<longleftrightarrow> x < mx"
proof (cases "mx mod 64 = 0")
  case True
  with assms show ?thesis
    by (auto simp: rbit_def row_mask_def Let_def words_per_row_iff)
next
  case False
  show ?thesis
  proof (cases "x div 64 = mx div 64")
    case True
    then have "x < mx \<longleftrightarrow> x mod 64 < mx mod 64" by (rule less_iff_mod_less)
    with False True show ?thesis
      by (simp add: rbit_def row_mask_def Let_def bit_low_mask words_per_row_last
          del: replicate.simps push_bit_of_1)
  next
    case ne: False
    with assms have "x < mx" by (simp add: words_per_row_iff)
    with ne False assms show ?thesis
      by (simp add: rbit_def row_mask_def Let_def words_per_row_last del: replicate.simps)
  qed
qed

lemma length_shift_row [simp]: "length (shift_row row sx rmask) = length row"
  by (simp add: shift_row_def Let_def)

lemma rbit_shift_pos:
  assumes s: "0 < s" "s < 64" and x: "x div 64 < length row"
  shows "rbit (shift_row row (int s) rmask) x \<longleftrightarrow> rbit rmask x \<and> s \<le> x \<and> rbit row (x - s)"
proof -
  obtain q r where qr: "x = q * 64 + r" "r < 64"
    by (metis div_mod_decomp mod_less_divisor zero_less_numeral)
  then have x': "x div 64 = q" "x mod 64 = r" "q < length row" using x by simp_all
  show ?thesis
  proof (cases "s \<le> r")
    case True
    then have "x - s = q * 64 + (r - s)" "r - s < 64" "s \<le> x" using qr by simp_all
    then have "(x - s) div 64 = q" "(x - s) mod 64 = r - s"
      by (simp_all only: row_major_div row_major_mod)
    with True s x' qr \<open>s \<le> x\<close> show ?thesis
      by (auto simp: rbit_def shift_row_def Let_def wrapping_shl_def wrapping_shr_def bit_simps
          dest: bit_imp_le_length)
  next
    case lt: False
    show ?thesis
    proof (cases q)
      case 0
      with lt s x' qr show ?thesis
        by (auto simp: rbit_def shift_row_def Let_def wrapping_shl_def bit_simps)
    next
      case (Suc q')
      then have "x - s = q' * 64 + (64 - s + r)" "64 - s + r < 64" "s \<le> x" using qr lt s by simp_all
      then have "(x - s) div 64 = q'" "(x - s) mod 64 = 64 - s + r"
        by (simp_all only: row_major_div row_major_mod)
      with lt Suc s x' qr \<open>s \<le> x\<close> show ?thesis
        by (auto simp: rbit_def shift_row_def Let_def wrapping_shl_def wrapping_shr_def bit_simps)
    qed
  qed
qed

lemma rbit_shift_neg:
  assumes s: "0 < s" "s < 64" and x: "x div 64 < length row"
  shows "rbit (shift_row row (- int s) rmask) x \<longleftrightarrow>
    rbit rmask x \<and> (x + s) div 64 < length row \<and> rbit row (x + s)"
proof -
  obtain q r where qr: "x = q * 64 + r" "r < 64"
    by (metis div_mod_decomp mod_less_divisor zero_less_numeral)
  then have x': "x div 64 = q" "x mod 64 = r" "q < length row" using x by simp_all
  show ?thesis
  proof (cases "r + s < 64")
    case True
    have "x + s = q * 64 + (r + s)" using qr by simp
    with True have "(x + s) div 64 = q" "(x + s) mod 64 = r + s"
      by (simp_all only: row_major_div row_major_mod)
    with True s x' show ?thesis
      by (auto simp: rbit_def shift_row_def Let_def wrapping_shl_def wrapping_shr_def bit_simps ac_simps)
  next
    case False
    then have "x + s = (q + 1) * 64 + (r - (64 - s))" "r - (64 - s) < 64" using qr s by simp_all
    then have "(x + s) div 64 = q + 1" "(x + s) mod 64 = r - (64 - s)"
      by (simp_all only: row_major_div row_major_mod)
    with False s x' qr show ?thesis
      by (auto simp: rbit_def shift_row_def Let_def wrapping_shl_def wrapping_shr_def bit_simps
          dest: bit_imp_le_length)
  qed
qed

section \<open>The inner loops\<close>

lemma or_row_bits:
  assumes "length d = n"
  shows "length (or_row w ds src ss d) = n"
    and "j < n \<Longrightarrow> bit (or_row w ds src ss d ! j) b \<longleftrightarrow>
      bit (d ! j) b \<or> (ds \<le> j \<and> j < ds + w \<and> bit (src ! (ss + (j - ds))) b)"
proof -
  let ?f = "\<lambda>i d. d[ds + i := d ! (ds + i) OR src ! (ss + i)]"
  have c: "length (fold ?f [0..<w] d) = n \<and> (\<forall>j<n. \<forall>b. bit (fold ?f [0..<w] d ! j) b \<longleftrightarrow>
      bit (d ! j) b \<or> (\<exists>i\<in>set [0..<w]. j = ds + i \<and> bit (src ! (ss + i)) b))"
    using assms by (intro fold_or_collect) (auto simp: nth_update_at bit_simps)
  from c show "length (or_row w ds src ss d) = n" by (simp add: or_row_def)
  assume "j < n"
  moreover have "(\<exists>i\<in>set [0..<w]. j = ds + i \<and> bit (src ! (ss + i)) b) \<longleftrightarrow>
      ds \<le> j \<and> j < ds + w \<and> bit (src ! (ss + (j - ds))) b"
    by (auto intro!: bexI [of _ "j - ds"])
  ultimately show "bit (or_row w ds src ss d ! j) b \<longleftrightarrow>
      bit (d ! j) b \<or> (ds \<le> j \<and> j < ds + w \<and> bit (src ! (ss + (j - ds))) b)"
    using c by (simp add: or_row_def)
qed

lemma mask_row_bits:
  assumes "length d = n"
  shows "length (mask_row w st rmask d) = n"
    and "j < n \<Longrightarrow> bit (mask_row w st rmask d ! j) b \<longleftrightarrow>
      bit (d ! j) b \<and> (st \<le> j \<and> j < st + w \<longrightarrow> bit (rmask ! (j - st)) b)"
proof -
  let ?f = "\<lambda>i d. d[st + i := d ! (st + i) AND rmask ! i]"
  have c: "length (fold ?f [0..<w] d) = n \<and> (\<forall>j<n. \<forall>b. bit (fold ?f [0..<w] d ! j) b \<longleftrightarrow>
      bit (d ! j) b \<and> (\<forall>i\<in>set [0..<w]. j = st + i \<longrightarrow> bit (rmask ! i) b))"
    using assms by (intro fold_and_collect) (auto simp: nth_update_at bit_simps)
  from c show "length (mask_row w st rmask d) = n" by (simp add: mask_row_def)
  assume "j < n"
  moreover have "(\<forall>i\<in>set [0..<w]. j = st + i \<longrightarrow> bit (rmask ! i) b) \<longleftrightarrow>
      (st \<le> j \<and> j < st + w \<longrightarrow> bit (rmask ! (j - st)) b)" by auto
  ultimately show "bit (mask_row w st rmask d ! j) b \<longleftrightarrow>
      bit (d ! j) b \<and> (st \<le> j \<and> j < st + w \<longrightarrow> bit (rmask ! (j - st)) b)"
    using c by (simp add: mask_row_def)
qed

section \<open>The dilation passes\<close>

lemma dilate_y_bits:
  assumes len: "length src = my * w"
  shows "length (dilate_y src my w dy) = my * w"
    and "y < my \<Longrightarrow> i < w \<Longrightarrow> bit (dilate_y src my w dy ! (y * w + i)) b \<longleftrightarrow>
      (\<exists>y'<my. y' \<le> y + dy \<and> y \<le> y' + dy \<and> bit (src ! (y' * w + i)) b)"
proof -
  let ?C = "\<lambda>sy r j b. (r + sy < my \<and> (r + sy) * w \<le> j \<and> j < (r + sy) * w + w
        \<and> bit (src ! (r * w + (j - (r + sy) * w))) b)
      \<or> (sy \<le> r \<and> (r - sy) * w \<le> j \<and> j < (r - sy) * w + w
        \<and> bit (src ! (r * w + (j - (r - sy) * w))) b)"
  let ?row = "\<lambda>sy r d. let d1 = (if r + sy < my then or_row w ((r + sy) * w) src (r * w) d else d)
         in if sy \<le> r then or_row w ((r - sy) * w) src (r * w) d1 else d1"
  let ?D = "\<lambda>sy j b. \<exists>r\<in>set [0..<my]. ?C sy r j b"
  have rowlen: "length (?row sy r d) = my * w" if "length d = my * w" for sy r d
    using that by (simp add: Let_def or_row_bits(1))
  have rowbit: "bit (?row sy r d ! j) b \<longleftrightarrow> bit (d ! j) b \<or> ?C sy r j b"
    if "length d = my * w" "j < my * w" for sy r d j b
    using that by (auto simp: Let_def or_row_bits)
  have inner: "length (fold (?row sy) [0..<my] d) = my * w \<and> (\<forall>j<my * w. \<forall>b.
      bit (fold (?row sy) [0..<my] d ! j) b \<longleftrightarrow> bit (d ! j) b \<or> ?D sy j b)"
    if "length d = my * w" for sy d
    using rowlen rowbit that by (intro fold_or_collect) auto
  have outer: "length (fold (\<lambda>sy. fold (?row sy) [0..<my]) [1..<dy + 1] src) = my * w \<and>
      (\<forall>j<my * w. \<forall>b. bit (fold (\<lambda>sy. fold (?row sy) [0..<my]) [1..<dy + 1] src ! j) b \<longleftrightarrow>
        bit (src ! j) b \<or> (\<exists>sy\<in>set [1..<dy + 1]. ?D sy j b))"
    using inner len by (intro fold_or_collect) blast+
  then show "length (dilate_y src my w dy) = my * w"
    by (simp add: dilate_y_def)
  assume y: "y < my" and i: "i < w"
  have C: "?C sy r (y * w + i) b \<longleftrightarrow> (y = r + sy \<or> r = y + sy) \<and> bit (src ! (r * w + i)) b"
    if "r < my" for sy r
    using row_major_range [OF i, of "r + sy" y] row_major_range [OF i, of "r - sy" y] that y
    by auto
  have "bit (dilate_y src my w dy ! (y * w + i)) b \<longleftrightarrow>
      bit (src ! (y * w + i)) b \<or> (\<exists>sy\<in>{1..dy}. \<exists>r<my. ?C sy r (y * w + i) b)"
    using outer row_major_less [OF y i] by (auto simp: dilate_y_def Bex_def)
  also have "\<dots> \<longleftrightarrow> bit (src ! (y * w + i)) b \<or>
      (\<exists>sy\<in>{1..dy}. \<exists>r<my. (y = r + sy \<or> r = y + sy) \<and> bit (src ! (r * w + i)) b)"
    by (intro arg_cong2 [where f = "(\<or>)"] refl bex_cong ex_cong1 conj_cong C)
  also have "\<dots> \<longleftrightarrow> (\<exists>y'<my. y' \<le> y + dy \<and> y \<le> y' + dy \<and> bit (src ! (y' * w + i)) b)"
    (is "?L \<longleftrightarrow> ?R")
  proof
    assume ?L then show ?R using y by (auto intro: exI [of _ y])
  next
    assume ?R
    then obtain y' where y': "y' < my" "y' \<le> y + dy" "y \<le> y' + dy" "bit (src ! (y' * w + i)) b"
      by blast
    show ?L
    proof (cases "y = y'")
      case False
      then have "(if y < y' then y' - y else y - y') \<in> {1..dy}" using y' by auto
      with y' False show ?L
        by (intro disjI2 bexI [of _ "if y < y' then y' - y else y - y'"] exI [of _ y']) auto
    qed (use y' in simp)
  qed
  finally show "bit (dilate_y src my w dy ! (y * w + i)) b \<longleftrightarrow>
      (\<exists>y'<my. y' \<le> y + dy \<and> y \<le> y' + dy \<and> bit (src ! (y' * w + i)) b)" .
qed


lemma dilate_x_row_bits:
  assumes len: "length d = my * w" and y: "y < my" and rm: "length rmask = w" and dx: "dx < 64"
  shows "length (dilate_x_row rmask w dx y d) = my * w"
    and "y' < my \<Longrightarrow> i < w \<Longrightarrow> y' \<noteq> y \<Longrightarrow>
      dilate_x_row rmask w dx y d ! (y' * w + i) = d ! (y' * w + i)"
    and "x < 64 * w \<Longrightarrow> bit (dilate_x_row rmask w dx y d ! (y * w + x div 64)) (x mod 64) \<longleftrightarrow>
      rbit rmask x \<and> (\<exists>x'<64 * w. x' \<le> x + dx \<and> x \<le> x' + dx \<and> bit (d ! (y * w + x' div 64)) (x' mod 64))"
proof -
  define pos where "pos = take w (drop (y * w) d)"
  have fit: "y * w + w \<le> my * w"
    using y by (metis Suc_leI add.commute mult_Suc mult_le_mono1)
  have lpos: "length pos = w" using len fit by (simp add: pos_def)
  let ?f = "\<lambda>sx d. or_row w (y * w) (shift_row pos (- int sx) rmask) 0
       (or_row w (y * w) (shift_row pos (int sx) rmask) 0 d)"
  let ?C = "\<lambda>sx j b. y * w \<le> j \<and> j < y * w + w \<and>
       (bit (shift_row pos (int sx) rmask ! (j - y * w)) b \<or> bit (shift_row pos (- int sx) rmask ! (j - y * w)) b)"
  have loop: "length (fold ?f [1..<dx + 1] d) = my * w \<and> (\<forall>j<my * w. \<forall>b.
      bit (fold ?f [1..<dx + 1] d ! j) b \<longleftrightarrow> bit (d ! j) b \<or> (\<exists>sx\<in>set [1..<dx + 1]. ?C sx j b))"
    using len by (intro fold_or_collect) (auto simp: or_row_bits)
  have res: "dilate_x_row rmask w dx y d = mask_row w (y * w) rmask (fold ?f [1..<dx + 1] d)"
    by (simp add: dilate_x_row_def pos_def Let_def)
  show "length (dilate_x_row rmask w dx y d) = my * w"
    using loop by (simp add: res mask_row_bits)
  have bits: "bit (dilate_x_row rmask w dx y d ! j) b \<longleftrightarrow>
      (bit (d ! j) b \<or> (\<exists>sx\<in>{1..dx}. ?C sx j b)) \<and> (y * w \<le> j \<and> j < y * w + w \<longrightarrow> bit (rmask ! (j - y * w)) b)"
    if "j < my * w" for j b
    using that loop by (auto simp: res mask_row_bits Bex_def)
  show "dilate_x_row rmask w dx y d ! (y' * w + i) = d ! (y' * w + i)"
    if "y' < my" "i < w" "y' \<noteq> y"
    using bits [OF row_major_less [OF that(1,2)]] row_major_range [OF that(2), of y y'] that(3)
    by (intro bit_word_eqI) auto
  assume x: "x < 64 * w"
  then have xw: "x div 64 < w" by (simp add: less_mult_imp_div_less mult.commute)
  have rb: "rbit pos k \<longleftrightarrow> bit (d ! (y * w + k div 64)) (k mod 64)" if "k div 64 < w" for k
    using that fit len y by (simp add: rbit_def pos_def)
  have sh: "rbit (shift_row pos (int sx) rmask) x \<or> rbit (shift_row pos (- int sx) rmask) x \<longleftrightarrow>
      rbit rmask x \<and> (\<exists>x'<64 * w. (x = x' + sx \<or> x' = x + sx) \<and> rbit pos x')" if "sx \<in> {1..dx}" for sx
    using that dx xw x lpos
    by (auto simp: rbit_shift_pos rbit_shift_neg less_mult_imp_div_less mult.commute
        intro: exI [of _ "x - sx"] exI [of _ "x + sx"] dest: div_less_iff_less_mult [THEN iffD1, rotated])
  have "bit (dilate_x_row rmask w dx y d ! (y * w + x div 64)) (x mod 64) \<longleftrightarrow>
      rbit rmask x \<and> (rbit pos x \<or> (\<exists>sx\<in>{1..dx}. \<exists>x'<64 * w. (x = x' + sx \<or> x' = x + sx) \<and> rbit pos x'))"
    using bits [OF row_major_less [OF y xw], of "x mod 64"] xw sh rb [OF xw]
    by (auto simp: rbit_def)
  also have "\<dots> \<longleftrightarrow> rbit rmask x \<and> (\<exists>x'<64 * w. x' \<le> x + dx \<and> x \<le> x' + dx \<and> rbit pos x')"
  proof -
    have "rbit pos x' \<Longrightarrow> x' \<le> x + dx \<Longrightarrow> x \<le> x' + dx \<Longrightarrow> x' < 64 * w \<Longrightarrow> x \<noteq> x' \<Longrightarrow>
        \<exists>sx\<in>{1..dx}. \<exists>x'<64 * w. (x = x' + sx \<or> x' = x + sx) \<and> rbit pos x'" for x'
      by (intro bexI [of _ "if x < x' then x' - x else x - x'"] exI [of _ x']) auto
    then show ?thesis using x by fastforce
  qed
  finally show "bit (dilate_x_row rmask w dx y d ! (y * w + x div 64)) (x mod 64) \<longleftrightarrow>
      rbit rmask x \<and> (\<exists>x'<64 * w. x' \<le> x + dx \<and> x \<le> x' + dx \<and> bit (d ! (y * w + x' div 64)) (x' mod 64))"
    using rb by (auto simp: less_mult_imp_div_less mult.commute)
qed


text \<open>The X pass over all rows: each row is rewritten from its own Y-dilated contents.\<close>

lemma dilate_x_fold:
  assumes len: "length d = my * w" and rm: "length rmask = w" and dx: "dx < 64" and n: "n \<le> my"
  shows "length (fold (dilate_x_row rmask w dx) [0..<n] d) = my * w \<and> (\<forall>y<my. \<forall>x<64 * w.
      bit (fold (dilate_x_row rmask w dx) [0..<n] d ! (y * w + x div 64)) (x mod 64) \<longleftrightarrow>
      (if y < n then rbit rmask x \<and> (\<exists>x'<64 * w. x' \<le> x + dx \<and> x \<le> x' + dx
            \<and> bit (d ! (y * w + x' div 64)) (x' mod 64))
       else bit (d ! (y * w + x div 64)) (x mod 64)))"
  using n
proof (induction n)
  case (Suc n)
  let ?d = "fold (dilate_x_row rmask w dx) [0..<n] d"
  have n: "n < my" using Suc.prems by simp
  have ld: "length ?d = my * w" using Suc.IH n by simp
  have old: "bit (?d ! (y * w + x div 64)) (x mod 64) = bit (d ! (y * w + x div 64)) (x mod 64)"
    if "n \<le> y" "y < my" "x < 64 * w" for y x using Suc.IH that n by simp
  have "bit (fold (dilate_x_row rmask w dx) [0..<Suc n] d ! (y * w + x div 64)) (x mod 64) \<longleftrightarrow>
      (if y < Suc n then rbit rmask x \<and> (\<exists>x'<64 * w. x' \<le> x + dx \<and> x \<le> x' + dx
            \<and> bit (d ! (y * w + x' div 64)) (x' mod 64))
       else bit (d ! (y * w + x div 64)) (x mod 64))" if y: "y < my" and x: "x < 64 * w" for y x
  proof (cases "y = n")
    case True
    with dilate_x_row_bits(3) [OF ld n rm dx x] old n show ?thesis by auto
  next
    case False
    have xw: "x div 64 < w" using x by (simp add: less_mult_imp_div_less mult.commute)
    have "dilate_x_row rmask w dx n ?d ! (y * w + x div 64) = ?d ! (y * w + x div 64)"
      by (rule dilate_x_row_bits(2) [OF ld n rm dx y xw False])
    with False Suc.IH n y x show ?thesis by auto
  qed
  with dilate_x_row_bits(1) [OF ld n rm dx] show ?case by simp
qed (use len in auto)

lemma mask_fold:
  assumes len: "length d = my * w"
  shows "length (fold (\<lambda>y. mask_row w (y * w) rmask) [0..<my] d) = my * w"
    and "y < my \<Longrightarrow> i < w \<Longrightarrow> bit (fold (\<lambda>y. mask_row w (y * w) rmask) [0..<my] d ! (y * w + i)) b
      \<longleftrightarrow> bit (d ! (y * w + i)) b \<and> bit (rmask ! i) b"
proof -
  have c: "length (fold (\<lambda>y. mask_row w (y * w) rmask) [0..<my] d) = my * w \<and> (\<forall>j<my * w. \<forall>b.
      bit (fold (\<lambda>y. mask_row w (y * w) rmask) [0..<my] d ! j) b \<longleftrightarrow> bit (d ! j) b \<and>
      (\<forall>y\<in>set [0..<my]. y * w \<le> j \<and> j < y * w + w \<longrightarrow> bit (rmask ! (j - y * w)) b))"
    using len by (intro fold_and_collect) (auto simp: mask_row_bits)
  then show "length (fold (\<lambda>y. mask_row w (y * w) rmask) [0..<my] d) = my * w" by simp
  assume y: "y < my" and i: "i < w"
  have "(\<forall>y'\<in>set [0..<my]. y' * w \<le> y * w + i \<and> y * w + i < y' * w + w \<longrightarrow>
      bit (rmask ! (y * w + i - y' * w)) b) \<longleftrightarrow> bit (rmask ! i) b"
    using y i row_major_range [OF i, of _ y] by auto
  with c row_major_less [OF y i] show "bit (fold (\<lambda>y. mask_row w (y * w) rmask) [0..<my] d ! (y * w + i)) b
      \<longleftrightarrow> bit (d ! (y * w + i)) b \<and> bit (rmask ! i) b" by simp
qed

lemma dilate2d_into_bits:
  assumes len: "length src = my * w" and rm: "length rmask = w" and dx: "dx < 64"
  obtains out where "dilate2d_into src my w rmask dx dy = Some out" and "length out = my * w"
    and "\<And>y x. y < my \<Longrightarrow> x < 64 * w \<Longrightarrow> bit (out ! (y * w + x div 64)) (x mod 64) \<longleftrightarrow>
      rbit rmask x \<and> (\<exists>y'<my. \<exists>x'<64 * w. x' \<le> x + dx \<and> x \<le> x' + dx \<and> y' \<le> y + dy \<and> y \<le> y' + dy
        \<and> bit (src ! (y' * w + x' div 64)) (x' mod 64))"
proof -
  let ?d = "dilate_y src my w dy"
  let ?out = "if dx = 0 then fold (\<lambda>y. mask_row w (y * w) rmask) [0..<my] ?d
       else fold (dilate_x_row rmask w dx) [0..<my] ?d"
  have ld: "length ?d = my * w" by (rule dilate_y_bits(1) [OF len])
  have dy: "bit (?d ! (y * w + x div 64)) (x mod 64) \<longleftrightarrow> (\<exists>y'<my. y' \<le> y + dy \<and> y \<le> y' + dy
      \<and> bit (src ! (y' * w + x div 64)) (x mod 64))" if "y < my" "x < 64 * w" for y x
    using that dilate_y_bits(2) [OF len that(1), of "x div 64"] by (simp add: less_mult_imp_div_less mult.commute)
  show thesis
  proof (rule that [of ?out])
    show "dilate2d_into src my w rmask dx dy = Some ?out"
      using dx by (simp add: dilate2d_into_def Let_def)
    show "length ?out = my * w"
      using mask_fold(1) [OF ld] dilate_x_fold [OF ld rm dx le_refl] by auto
    fix y x assume y: "y < my" and x: "x < 64 * w"
    then have xw: "x div 64 < w" by (simp add: less_mult_imp_div_less mult.commute)
    show "bit (?out ! (y * w + x div 64)) (x mod 64) \<longleftrightarrow> rbit rmask x \<and>
      (\<exists>y'<my. \<exists>x'<64 * w. x' \<le> x + dx \<and> x \<le> x' + dx \<and> y' \<le> y + dy \<and> y \<le> y' + dy
        \<and> bit (src ! (y' * w + x' div 64)) (x' mod 64))"
    proof (cases "dx = 0")
      case True
      then show ?thesis
        using mask_fold(2) [OF ld y xw, of rmask "x mod 64"] dy [OF y x] x by (auto simp: rbit_def)
    next
      case False
      then have "bit (?out ! (y * w + x div 64)) (x mod 64) \<longleftrightarrow> rbit rmask x \<and> (\<exists>x'<64 * w. x' \<le> x + dx
          \<and> x \<le> x' + dx \<and> (\<exists>y'<my. y' \<le> y + dy \<and> y \<le> y' + dy \<and> bit (src ! (y' * w + x' div 64)) (x' mod 64)))"
        using dilate_x_fold [OF ld rm dx le_refl] y x by (simp add: dy [OF y] cong: conj_cong)
      then show ?thesis by blast
    qed
  qed
qed


section \<open>The set of cells of a board\<close>

definition cells2 :: "bitboard2d \<Rightarrow> (nat \<times> nat) set" where
  "cells2 bb = {(x, y). x < map_x2 bb \<and> y < map_y2 bb \<and> test2 bb x y}"

definition cells3 :: "bitboard3d \<Rightarrow> (nat \<times> nat \<times> nat) set" where
  "cells3 bb = {(x, y, t). x < map_x3 bb \<and> y < map_y3 bb \<and> t < n_theta3 bb \<and> test3 bb x y t}"

definition wf2 :: "bitboard2d \<Rightarrow> bool" where
  "wf2 bb \<longleftrightarrow> wpr2 bb = words_per_row (map_x2 bb) \<and> length (data2 bb) = map_y2 bb * wpr2 bb \<and>
     (\<forall>y<map_y2 bb. \<forall>x<64 * wpr2 bb. test2 bb x y \<longrightarrow> x < map_x2 bb)"

definition wf3 :: "bitboard3d \<Rightarrow> bool" where
  "wf3 bb \<longleftrightarrow> wpr3 bb = words_per_row (map_x3 bb) \<and>
     length (data3 bb) = n_theta3 bb * (map_y3 bb * wpr3 bb) \<and>
     (\<forall>t<n_theta3 bb. \<forall>y<map_y3 bb. \<forall>x<64 * wpr3 bb. test3 bb x y t \<longrightarrow> x < map_x3 bb)"

lemma and_bit_nonzero: "b < 64 \<Longrightarrow> (w :: u64) AND push_bit b 1 \<noteq> 0 \<longleftrightarrow> bit w b"
  by (simp add: and_exp_eq_0_iff_not_bit push_bit_of_1)

lemma test2_bit: "test2 bb x y \<longleftrightarrow> bit (data2 bb ! (y * wpr2 bb + x div 64)) (x mod 64)"
  by (simp add: test2_def Let_def and_bit_nonzero del: push_bit_of_1)

lemma test3_bit:
  "test3 bb x y t \<longleftrightarrow> bit (data3 bb ! (t * (map_y3 bb * wpr3 bb) + (y * wpr3 bb + x div 64))) (x mod 64)"
  by (simp add: test3_def Let_def and_bit_nonzero algebra_simps del: push_bit_of_1)

lemma wf2_column: "wf2 bb \<Longrightarrow> x < map_x2 bb \<Longrightarrow> x < 64 * wpr2 bb"
  unfolding wf2_def by (metis words_per_row_least div_less_iff_less_mult mult.commute zero_less_numeral)

lemma cells2_new [simp]: "cells2 (new2 mx my) = {}"
proof -
  have "\<not> test2 (new2 mx my) x y" if "x < mx" "y < my" for x y
    using row_major_less [OF that(2) words_per_row_least [OF that(1)]]
    by (simp add: test2_bit new2_def Let_def)
  then show ?thesis by (auto simp: cells2_def new2_def Let_def)
qed

lemma wf2_new [inv_intros]: "wf2 (new2 mx my)"
proof -
  have "\<not> test2 (new2 mx my) x y" if "x < 64 * words_per_row mx" "y < my" for x y
    using row_major_less [OF that(2), of "x div 64" "words_per_row mx"] that(1)
    by (simp add: test2_bit new2_def Let_def less_mult_imp_div_less mult.commute)
  then show ?thesis by (simp add: wf2_def) (simp add: new2_def Let_def)
qed

lemma test2_set2:
  assumes "wf2 bb" "x < map_x2 bb" "y < map_y2 bb" "x' < 64 * wpr2 bb" "y' < map_y2 bb"
  shows "test2 (set2 bb x y) x' y' \<longleftrightarrow> test2 bb x' y' \<or> (x' = x \<and> y' = y)"
proof -
  have x: "x div 64 < wpr2 bb" using assms(1,2) by (simp add: wf2_def words_per_row_least)
  have x': "x' div 64 < wpr2 bb" using assms(4) by (simp add: less_mult_imp_div_less mult.commute)
  have j: "y' * wpr2 bb + x' div 64 < length (data2 bb)"
    using row_major_less [OF assms(5) x'] assms(1) by (simp add: wf2_def)
  have "x' = x \<longleftrightarrow> x' div 64 = x div 64 \<and> x' mod 64 = x mod 64"
    by (metis div_mult_mod_eq)
  then show ?thesis
    using j x x' by (auto simp: test2_bit set2_def Let_def nth_update_at row_major_eq bit_simps bit_exp_iff)
qed

lemma set2_dims [simp]:
  "map_x2 (set2 bb x y) = map_x2 bb" "map_y2 (set2 bb x y) = map_y2 bb" "wpr2 (set2 bb x y) = wpr2 bb"
  "length (data2 (set2 bb x y)) = length (data2 bb)"
  by (simp_all add: set2_def Let_def)

lemma wf2_set [inv_intros]: "wf2 bb \<Longrightarrow> x < map_x2 bb \<Longrightarrow> y < map_y2 bb \<Longrightarrow> wf2 (set2 bb x y)"
  using test2_set2 [of bb x y] by (auto simp: wf2_def)

lemma cells2_set:
  assumes "wf2 bb" "x < map_x2 bb" "y < map_y2 bb"
  shows "cells2 (set2 bb x y) = insert (x, y) (cells2 bb)"
  using assms test2_set2 [OF assms] wf2_column [OF assms(1)] by (auto simp: cells2_def)

section \<open>Dilation and population count of 2D boards\<close>

lemma dilate2d_panics: "64 \<le> dx \<Longrightarrow> dilate2d bb dx dy = None"
  by (simp add: dilate2d_def dilate2d_into_def)

lemma dilate2d_Some:
  assumes wf: "wf2 bb" and dx: "dx < 64"
  obtains bb' where "dilate2d bb dx dy = Some bb'" and "wf2 bb'"
    and "map_x2 bb' = map_x2 bb" and "map_y2 bb' = map_y2 bb"
    and "cells2 bb' = {(x, y). x < map_x2 bb \<and> y < map_y2 bb \<and>
      (\<exists>(x', y')\<in>cells2 bb. x' \<le> x + dx \<and> x \<le> x' + dx \<and> y' \<le> y + dy \<and> y \<le> y' + dy)}"
proof -
  from wf have w: "wpr2 bb = words_per_row (map_x2 bb)" and len: "length (data2 bb) = map_y2 bb * wpr2 bb"
    by (simp_all add: wf2_def)
  from w have rm: "length (row_mask (map_x2 bb)) = wpr2 bb" by simp
  obtain out where out: "dilate2d_into (data2 bb) (map_y2 bb) (wpr2 bb) (row_mask (map_x2 bb)) dx dy = Some out"
    and lout: "length out = map_y2 bb * wpr2 bb"
    and bits: "\<And>y x. y < map_y2 bb \<Longrightarrow> x < 64 * wpr2 bb \<Longrightarrow>
      bit (out ! (y * wpr2 bb + x div 64)) (x mod 64) \<longleftrightarrow> rbit (row_mask (map_x2 bb)) x \<and>
      (\<exists>y'<map_y2 bb. \<exists>x'<64 * wpr2 bb. x' \<le> x + dx \<and> x \<le> x' + dx \<and> y' \<le> y + dy \<and> y \<le> y' + dy
        \<and> bit (data2 bb ! (y' * wpr2 bb + x' div 64)) (x' mod 64))"
    using dilate2d_into_bits [OF len rm dx, of dy] by blast
  let ?bb = "bb\<lparr>data2 := out\<rparr>"
  have mask: "rbit (row_mask (map_x2 bb)) x \<longleftrightarrow> x < map_x2 bb" if "x < 64 * wpr2 bb" for x
    using that w by (intro rbit_row_mask) (simp add: less_mult_imp_div_less mult.commute)
  have test: "test2 ?bb x y \<longleftrightarrow> x < map_x2 bb \<and> (\<exists>(x', y')\<in>cells2 bb. x' \<le> x + dx \<and> x \<le> x' + dx
      \<and> y' \<le> y + dy \<and> y \<le> y' + dy)" if "y < map_y2 bb" "x < 64 * wpr2 bb" for x y
  proof -
    have "(\<exists>y'<map_y2 bb. \<exists>x'<64 * wpr2 bb. x' \<le> x + dx \<and> x \<le> x' + dx \<and> y' \<le> y + dy \<and> y \<le> y' + dy
        \<and> test2 bb x' y') \<longleftrightarrow> (\<exists>(x', y')\<in>cells2 bb. x' \<le> x + dx \<and> x \<le> x' + dx \<and> y' \<le> y + dy \<and> y \<le> y' + dy)"
      using wf wf2_column [OF wf] by (auto simp: cells2_def wf2_def) blast+
    with bits [OF that] mask [OF that(2)] show ?thesis by (simp add: test2_bit)
  qed
  show thesis
  proof
    show "dilate2d bb dx dy = Some ?bb" using out by (simp add: dilate2d_def)
    show "wf2 ?bb" using w lout test by (simp add: wf2_def)
    show "cells2 ?bb = {(x, y). x < map_x2 bb \<and> y < map_y2 bb \<and>
      (\<exists>(x', y')\<in>cells2 bb. x' \<le> x + dx \<and> x \<le> x' + dx \<and> y' \<le> y + dy \<and> y \<le> y' + dy)}"
      using test wf2_column [OF wf] by (auto simp: cells2_def [of ?bb])
  qed simp_all
qed

lemma count_ones_card: "count_ones w = card {b. b < 64 \<and> bit w b}"
proof -
  have "{b. b < 64 \<and> bit w b} = set (filter (bit w) [0..<64])" by auto
  then show ?thesis by (simp only: count_ones_def distinct_card distinct_filter distinct_upt)
qed

lemma popcount_slice_card: "popcount_slice ws = card {(j, b). j < length ws \<and> b < 64 \<and> bit (ws ! j) b}"
proof -
  have "{(j, b). j < length ws \<and> b < 64 \<and> bit (ws ! j) b} = (SIGMA j:{..<length ws}. {b. b < 64 \<and> bit (ws ! j) b})"
    by auto
  then show ?thesis
    by (simp add: popcount_slice_def sum_list_sum_nth count_ones_card atLeast0LessThan)
qed

lemma popcount2_card:
  assumes wf: "wf2 bb"
  shows "popcount2 bb = card (cells2 bb)"
proof -
  let ?w = "wpr2 bb"
  let ?S = "{(j, b). j < length (data2 bb) \<and> b < 64 \<and> bit (data2 bb ! j) b}"
  let ?f = "\<lambda>(x, y). (y * ?w + x div 64, x mod 64)"
  have "bij_betw ?f (cells2 bb) ?S"
  proof (rule bij_betwI')
    fix a b assume "a \<in> cells2 bb" "b \<in> cells2 bb"
    then obtain x y x' y' where ab: "a = (x, y)" "b = (x', y')"
      and "x div 64 < ?w" "x' div 64 < ?w"
      using wf by (auto simp: cells2_def wf2_def words_per_row_least)
    then show "?f a = ?f b \<longleftrightarrow> a = b"
      by (auto simp: row_major_eq) (metis div_mult_mod_eq)
  next
    fix a assume "a \<in> cells2 bb"
    then show "?f a \<in> ?S"
      using wf by (auto simp: cells2_def wf2_def words_per_row_least test2_bit intro!: row_major_less)
  next
    fix p assume p: "p \<in> ?S"
    then obtain j b where jb: "p = (j, b)" "j < map_y2 bb * ?w" "b < 64" "bit (data2 bb ! j) b"
      using wf by (auto simp: wf2_def)
    obtain y i where yi: "y < map_y2 bb" "i < ?w" "j = y * ?w + i"
      using row_major_cases [OF jb(2)] by blast
    have x: "i * 64 + b < 64 * ?w" using row_major_less [OF yi(2) jb(3)] by (simp add: mult.commute)
    have "test2 bb (i * 64 + b) y" using jb yi by (simp add: test2_bit)
    with wf x yi have "(i * 64 + b, y) \<in> cells2 bb" by (auto simp: cells2_def wf2_def)
    moreover have "p = ?f (i * 64 + b, y)" using jb yi by simp
    ultimately show "\<exists>a\<in>cells2 bb. p = ?f a" by blast
  qed
  from bij_betw_same_card [OF this] show ?thesis
    by (simp add: popcount2_def popcount_slice_card)
qed

lemma finite_cells2 [simp]: "finite (cells2 bb)"
  by (rule finite_subset [of _ "{..<map_x2 bb} \<times> {..<map_y2 bb}"]) (auto simp: cells2_def)

lemma popcount2_pos: "wf2 bb \<Longrightarrow> 0 < popcount2 bb \<longleftrightarrow> cells2 bb \<noteq> {}"
  by (simp add: popcount2_card card_gt_0_iff)

lemma or_inplace2_spec:
  assumes "wf2 a" "wf2 b" "map_x2 a = map_x2 b" "map_y2 a = map_y2 b"
  shows "wf2 (or_inplace2 a b)" and "cells2 (or_inplace2 a b) = cells2 a \<union> cells2 b"
    and "map_x2 (or_inplace2 a b) = map_x2 a" and "map_y2 (or_inplace2 a b) = map_y2 a"
proof -
  have w: "wpr2 a = wpr2 b" and l: "length (data2 a) = length (data2 b)"
    "length (data2 a) = map_y2 a * wpr2 a" using assms by (simp_all add: wf2_def)
  have t: "test2 (or_inplace2 a b) x y \<longleftrightarrow> test2 a x y \<or> test2 b x y"
    if "x < 64 * wpr2 a" "y < map_y2 a" for x y
    using row_major_less [OF that(2), of "x div 64" "wpr2 a"] that(1) w l
    by (simp add: test2_bit or_inplace2_def or_slice_def nth_append bit_simps less_mult_imp_div_less mult.commute)
  show "wf2 (or_inplace2 a b)"
    using assms t w by (auto simp: wf2_def) (auto simp: or_inplace2_def or_slice_def l)
  show "cells2 (or_inplace2 a b) = cells2 a \<union> cells2 b"
    using t wf2_column [OF assms(1)] assms(3,4) by (auto simp: cells2_def or_inplace2_def)
qed (simp_all add: or_inplace2_def)

lemma and_inplace2_spec:
  assumes "wf2 a" "wf2 b" "map_x2 a = map_x2 b" "map_y2 a = map_y2 b"
  shows "wf2 (and_inplace2 a b)" and "cells2 (and_inplace2 a b) = cells2 a \<inter> cells2 b"
    and "map_x2 (and_inplace2 a b) = map_x2 a" and "map_y2 (and_inplace2 a b) = map_y2 a"
proof -
  have w: "wpr2 a = wpr2 b" and l: "length (data2 a) = length (data2 b)"
    "length (data2 a) = map_y2 a * wpr2 a" using assms by (simp_all add: wf2_def)
  have t: "test2 (and_inplace2 a b) x y \<longleftrightarrow> test2 a x y \<and> test2 b x y"
    if "x < 64 * wpr2 a" "y < map_y2 a" for x y
    using row_major_less [OF that(2), of "x div 64" "wpr2 a"] that(1) w l
    by (simp add: test2_bit and_inplace2_def and_slice_def nth_append bit_simps less_mult_imp_div_less mult.commute)
  show "wf2 (and_inplace2 a b)"
    using assms t w by (auto simp: wf2_def) (auto simp: and_inplace2_def and_slice_def l)
  show "cells2 (and_inplace2 a b) = cells2 a \<inter> cells2 b"
    using t wf2_column [OF assms(1)] assms(3,4) by (auto simp: cells2_def and_inplace2_def)
qed (simp_all add: and_inplace2_def)


section \<open>3D boards\<close>

text \<open>
  A 3D board is a 2D board whose rows are the rows of all theta layers, one layer after the
  other: row \<open>y\<close> of layer \<open>t\<close> is row \<open>t * map_y + y\<close>.
\<close>

definition flat3 :: "bitboard3d \<Rightarrow> bitboard2d" where
  "flat3 bb = \<lparr>data2 = data3 bb, map_x2 = map_x3 bb, map_y2 = n_theta3 bb * map_y3 bb, wpr2 = wpr3 bb\<rparr>"

lemma flat3_sel [simp]:
  "data2 (flat3 bb) = data3 bb" "map_x2 (flat3 bb) = map_x3 bb"
  "map_y2 (flat3 bb) = n_theta3 bb * map_y3 bb" "wpr2 (flat3 bb) = wpr3 bb"
  by (simp_all add: flat3_def)

lemma test3_flat: "test3 bb x y t = test2 (flat3 bb) x (t * map_y3 bb + y)"
  by (simp add: test3_def test2_def Let_def algebra_simps)

lemma flat3_set: "flat3 (set3 bb x y t) = set2 (flat3 bb) x (t * map_y3 bb + y)"
  by (simp add: flat3_def set3_def set2_def Let_def algebra_simps)

lemma wf3_flat: "wf3 bb \<longleftrightarrow> wf2 (flat3 bb)"
proof -
  have "(\<forall>r<n_theta3 bb * map_y3 bb. P r) \<longleftrightarrow> (\<forall>t<n_theta3 bb. \<forall>y<map_y3 bb. P (t * map_y3 bb + y))" for P
    by (metis row_major_cases row_major_less)
  then show ?thesis by (simp add: wf3_def wf2_def test3_flat mult.assoc)
qed

lemma cells3_flat: "(x, y, t) \<in> cells3 bb \<longleftrightarrow>
    y < map_y3 bb \<and> t < n_theta3 bb \<and> (x, t * map_y3 bb + y) \<in> cells2 (flat3 bb)"
  by (auto simp: cells3_def cells2_def test3_flat intro: row_major_less)

lemma set3_dims [simp]:
  "map_x3 (set3 bb x y t) = map_x3 bb" "map_y3 (set3 bb x y t) = map_y3 bb"
  "n_theta3 (set3 bb x y t) = n_theta3 bb" "wpr3 (set3 bb x y t) = wpr3 bb"
  by (simp_all add: set3_def Let_def)

lemma wf3_new [inv_intros]: "wf3 (new3 mx my nt)"
  using wf2_new [of mx "nt * my"] by (simp add: wf3_flat flat3_def new2_def new3_def Let_def mult.assoc)

lemma cells3_new [simp]: "cells3 (new3 mx my nt) = {}"
proof -
  have "flat3 (new3 mx my nt) = new2 mx (nt * my)"
    by (simp add: flat3_def new2_def new3_def Let_def)
  then show ?thesis by (auto simp: cells3_flat)
qed

lemma wf3_set [inv_intros]:
  "wf3 bb \<Longrightarrow> x < map_x3 bb \<Longrightarrow> y < map_y3 bb \<Longrightarrow> t < n_theta3 bb \<Longrightarrow> wf3 (set3 bb x y t)"
  by (simp add: wf3_flat flat3_set wf2_set row_major_less)

lemma cells3_set:
  assumes "wf3 bb" "x < map_x3 bb" "y < map_y3 bb" "t < n_theta3 bb"
  shows "cells3 (set3 bb x y t) = insert (x, y, t) (cells3 bb)"
  using assms
  by (auto simp: cells3_flat flat3_set cells2_set wf3_flat row_major_less row_major_eq)

lemma popcount3_card:
  assumes wf: "wf3 bb"
  shows "popcount3 bb = card (cells3 bb)"
proof -
  have "bij_betw (\<lambda>(x, y, t). (x, t * map_y3 bb + y)) (cells3 bb) (cells2 (flat3 bb))"
  proof (rule bij_betwI')
    fix a b assume "a \<in> cells3 bb" "b \<in> cells3 bb"
    then show "((case a of (x, y, t) \<Rightarrow> (x, t * map_y3 bb + y)) = (case b of (x, y, t) \<Rightarrow> (x, t * map_y3 bb + y))) \<longleftrightarrow> a = b"
      by (auto simp: cells3_def row_major_eq)
  next
    fix p assume "p \<in> cells2 (flat3 bb)"
    then obtain x r where p: "p = (x, r)" "r < n_theta3 bb * map_y3 bb" "(x, r) \<in> cells2 (flat3 bb)"
      by (auto simp: cells2_def)
    then obtain t y where "t < n_theta3 bb" "y < map_y3 bb" "r = t * map_y3 bb + y"
      using row_major_cases by blast
    with p show "\<exists>a\<in>cells3 bb. p = (case a of (x, y, t) \<Rightarrow> (x, t * map_y3 bb + y))"
      by (intro bexI [of _ "(x, y, t)"]) (auto simp: cells3_flat)
  qed (auto simp: cells3_flat)
  from bij_betw_same_card [OF this] popcount2_card [of "flat3 bb"] wf show ?thesis
    by (simp add: popcount2_def popcount3_def wf3_flat)
qed

lemma finite_cells3 [simp]: "finite (cells3 bb)"
  by (rule finite_subset [of _ "{..<map_x3 bb} \<times> {..<map_y3 bb} \<times> {..<n_theta3 bb}"]) (auto simp: cells3_def)

lemma popcount3_pos: "wf3 bb \<Longrightarrow> 0 < popcount3 bb \<longleftrightarrow> cells3 bb \<noteq> {}"
  by (simp add: popcount3_card card_gt_0_iff)

section \<open>Dilation of 3D boards\<close>

definition circ_dist :: "nat \<Rightarrow> nat \<Rightarrow> nat \<Rightarrow> nat" where
  "circ_dist nt t t' = (let raw = (t + nt - t') mod nt in min raw (nt - raw))"

lemma mod_wrap: "(a::nat) < 2 * n \<Longrightarrow> a mod n = (if a < n then a else a - n)"
  by (simp add: le_mod_geq)

lemma theta_near_iff:
  assumes "t < nt" "t' < nt" "dt \<le> nt"
  shows "(\<exists>st\<le>dt. t' = (t + st) mod nt \<or> t' = (t + nt - st) mod nt) \<longleftrightarrow> circ_dist nt t t' \<le> dt"
proof -
  have fwd: "(t + st) mod nt = (if t + st < nt then t + st else t + st - nt)" if "st \<le> nt" for st
    using that assms by (intro mod_wrap) linarith
  have bwd: "(t + nt - st) mod nt = (if t < st then t + nt - st else t - st)" if "st \<le> nt" for st
    using that assms mod_wrap [of "t + nt - st" nt] by (auto split: if_splits)
  have circ: "circ_dist nt t t' = (if t < t' then min (t + nt - t') (t' - t) else min (t - t') (nt - (t - t')))"
    using bwd [of t'] assms by (simp add: circ_dist_def Let_def)
  show ?thesis
  proof
    assume "\<exists>st\<le>dt. t' = (t + st) mod nt \<or> t' = (t + nt - st) mod nt"
    then obtain st where "st \<le> dt" and "t' = (t + st) mod nt \<or> t' = (t + nt - st) mod nt" by blast
    with fwd [of st] bwd [of st] assms show "circ_dist nt t t' \<le> dt"
      unfolding circ by (auto split: if_splits)
  next
    assume c: "circ_dist nt t t' \<le> dt"
    define st where "st = circ_dist nt t t'"
    then have "st \<le> nt" using c assms(3) by simp
    have "st = (if t < t' then min (t + nt - t') (t' - t) else min (t - t') (nt - (t - t')))"
      using circ st_def by simp
    then have "t' = (t + st) mod nt \<or> t' = (t + nt - st) mod nt"
      unfolding fwd [OF \<open>st \<le> nt\<close>] bwd [OF \<open>st \<le> nt\<close>] using assms(1,2)
      by (cases "t < t'") (simp_all add: min_def split: if_splits, linarith+)
    with c have "st \<le> dt \<and> (t' = (t + st) mod nt \<or> t' = (t + nt - st) mod nt)" by (simp add: st_def)
    then show "\<exists>st\<le>dt. t' = (t + st) mod nt \<or> t' = (t + nt - st) mod nt" by blast
  qed
qed

lemma dilate3d_layers_bits:
  assumes len: "length src = nt * (my * w)" and rm: "length rmask = w" and dx: "dx < 64"
    and ts: "set ts \<subseteq> {..<nt}"
  shows "\<exists>temp. dilate3d_layers src my w rmask dx dy ts = Some temp \<and> length temp = length ts * (my * w) \<and>
    (\<forall>k<length ts. \<forall>y<my. \<forall>x<64 * w.
      bit (temp ! (k * (my * w) + (y * w + x div 64))) (x mod 64) \<longleftrightarrow> rbit rmask x \<and>
      (\<exists>y'<my. \<exists>x'<64 * w. x' \<le> x + dx \<and> x \<le> x' + dx \<and> y' \<le> y + dy \<and> y \<le> y' + dy
        \<and> bit (src ! (ts ! k * (my * w) + (y' * w + x' div 64))) (x' mod 64)))"
  using ts
proof (induction ts)
  case (Cons t ts)
  let ?l = "take (my * w) (drop (t * (my * w)) src)"
  have t: "t < nt" using Cons.prems by simp
  have fit: "t * (my * w) + my * w \<le> nt * (my * w)"
    using t by (metis Suc_leI add.commute mult_Suc mult_le_mono1)
  have ll: "length ?l = my * w" using fit len by simp
  have lnth: "?l ! j = src ! (t * (my * w) + j)" if "j < my * w" for j
    using that fit len t by (simp add: less_imp_le)
  obtain out where out: "dilate2d_into ?l my w rmask dx dy = Some out" "length out = my * w"
    and bits: "\<And>y x. y < my \<Longrightarrow> x < 64 * w \<Longrightarrow> bit (out ! (y * w + x div 64)) (x mod 64) \<longleftrightarrow>
      rbit rmask x \<and> (\<exists>y'<my. \<exists>x'<64 * w. x' \<le> x + dx \<and> x \<le> x' + dx \<and> y' \<le> y + dy \<and> y \<le> y' + dy
        \<and> bit (?l ! (y' * w + x' div 64)) (x' mod 64))"
    using dilate2d_into_bits [OF ll rm dx, of dy] by blast
  obtain temp where temp: "dilate3d_layers src my w rmask dx dy ts = Some temp"
    "length temp = length ts * (my * w)"
    and IH: "\<forall>k<length ts. \<forall>y<my. \<forall>x<64 * w.
      bit (temp ! (k * (my * w) + (y * w + x div 64))) (x mod 64) \<longleftrightarrow> rbit rmask x \<and>
      (\<exists>y'<my. \<exists>x'<64 * w. x' \<le> x + dx \<and> x \<le> x' + dx \<and> y' \<le> y + dy \<and> y \<le> y' + dy
        \<and> bit (src ! (ts ! k * (my * w) + (y' * w + x' div 64))) (x' mod 64))"
    using Cons.IH Cons.prems by auto
  have col: "y * w + x div 64 < my * w" if "y < my" "x < 64 * w" for x y
    using that by (intro row_major_less) (simp_all add: less_mult_imp_div_less mult.commute)
  have "bit ((out @ temp) ! (k * (my * w) + (y * w + x div 64))) (x mod 64) \<longleftrightarrow> rbit rmask x \<and>
      (\<exists>y'<my. \<exists>x'<64 * w. x' \<le> x + dx \<and> x \<le> x' + dx \<and> y' \<le> y + dy \<and> y \<le> y' + dy
        \<and> bit (src ! ((t # ts) ! k * (my * w) + (y' * w + x' div 64))) (x' mod 64))"
    if "k < length (t # ts)" "y < my" "x < 64 * w" for k y x
  proof (cases k)
    case 0
    then show ?thesis
      using bits [OF that(2,3)] col [OF that(2,3)] out(2) lnth [OF col]
      by (simp add: nth_append cong: conj_cong)
  next
    case (Suc k')
    then show ?thesis
      using IH that out(2) by (simp add: nth_append add.assoc)
  qed
  then show ?case using out temp by simp
qed simp

lemma ex_le_split: "(\<exists>k\<le>n. P k) \<longleftrightarrow> P 0 \<or> (\<exists>k\<in>set [1..<n + 1]. P k)" for n :: nat
proof -
  have "{..n} = insert 0 (set [1..<n + 1])" by auto
  then show ?thesis by (metis atMost_iff insert_iff)
qed

lemma dilate3d_theta_bits:
  assumes len: "length temp = nt * stride"
  shows "length (dilate3d_theta temp nt stride dt) = nt * stride"
    and "t < nt \<Longrightarrow> i < stride \<Longrightarrow> bit (dilate3d_theta temp nt stride dt ! (t * stride + i)) b \<longleftrightarrow>
      (\<exists>st\<le>dt. bit (temp ! ((t + st) mod nt * stride + i)) b \<or> bit (temp ! ((t + nt - st) mod nt * stride + i)) b)"
proof -
  define src where "src st t w = temp ! ((t + st) mod nt * stride + w) OR temp ! ((t + nt - st) mod nt * stride + w)" for st t w
  define F where "F st t = fold (\<lambda>w o'. o'[t * stride + w := o' ! (t * stride + w) OR src st t w]) [0..<stride]" for st t
  define C where "C st t j b \<longleftrightarrow> (\<exists>w\<in>set [0..<stride]. j = t * stride + w \<and> bit (src st t w) b)" for st t j b
  have inner: "length (F st t d) = nt * stride \<and> (\<forall>j<nt * stride. \<forall>b. bit (F st t d ! j) b \<longleftrightarrow> bit (d ! j) b \<or> C st t j b)"
    if "length d = nt * stride" for st t d
    unfolding F_def C_def using that by (intro fold_or_collect) (auto simp: nth_update_at bit_simps)
  define G where "G st = fold (F st) [0..<nt]" for st
  define D where "D st j b \<longleftrightarrow> (\<exists>t\<in>set [0..<nt]. C st t j b)" for st j b
  have mid: "length (G st d) = nt * stride \<and> (\<forall>j<nt * stride. \<forall>b. bit (G st d ! j) b \<longleftrightarrow> bit (d ! j) b \<or> D st j b)"
    if "length d = nt * stride" for st d
    unfolding G_def D_def using that inner by (intro fold_or_collect) simp_all
  have res: "dilate3d_theta temp nt stride dt = fold G [1..<dt + 1] temp"
    unfolding dilate3d_theta_def Let_def G_def [abs_def] F_def [abs_def] src_def by (rule refl)
  have outer: "length (fold G [1..<dt + 1] temp) = nt * stride \<and> (\<forall>j<nt * stride. \<forall>b.
      bit (fold G [1..<dt + 1] temp ! j) b \<longleftrightarrow> bit (temp ! j) b \<or> (\<exists>st\<in>set [1..<dt + 1]. D st j b))"
    using len mid by (intro fold_or_collect) simp_all
  then show "length (dilate3d_theta temp nt stride dt) = nt * stride" by (simp add: res)
  assume t: "t < nt" and i: "i < stride"
  have D: "D st (t * stride + i) b \<longleftrightarrow> bit (src st t i) b" for st
    using t i by (auto simp: D_def C_def row_major_eq)
  have "bit (dilate3d_theta temp nt stride dt ! (t * stride + i)) b \<longleftrightarrow> bit (temp ! (t * stride + i)) b \<or>
      (\<exists>st\<in>set [1..<dt + 1]. bit (src st t i) b)"
    using outer row_major_less [OF t i] unfolding res by (simp only: D)
  also have "\<dots> \<longleftrightarrow> (\<exists>st\<le>dt. bit (src st t i) b)"
  proof -
    have "src 0 t i = temp ! (t * stride + i)" using t by (simp add: src_def)
    then show ?thesis using ex_le_split [of dt "\<lambda>st. bit (src st t i) b"] by simp
  qed
  finally show "bit (dilate3d_theta temp nt stride dt ! (t * stride + i)) b \<longleftrightarrow>
      (\<exists>st\<le>dt. bit (temp ! ((t + st) mod nt * stride + i)) b \<or> bit (temp ! ((t + nt - st) mod nt * stride + i)) b)"
    by (simp add: src_def bit_simps)
qed

lemma dilate3d_Some:
  assumes wf: "wf3 bb" and dx: "dx < 64" and dt: "dt \<le> n_theta3 bb"
  obtains bb' where "dilate3d bb dx dy dt = Some bb'" and "wf3 bb'"
    and "map_x3 bb' = map_x3 bb" and "map_y3 bb' = map_y3 bb" and "n_theta3 bb' = n_theta3 bb"
    and "cells3 bb' = {(x, y, t). x < map_x3 bb \<and> y < map_y3 bb \<and> t < n_theta3 bb \<and>
      (\<exists>(x', y', t')\<in>cells3 bb. x' \<le> x + dx \<and> x \<le> x' + dx \<and> y' \<le> y + dy \<and> y \<le> y' + dy
        \<and> circ_dist (n_theta3 bb) t t' \<le> dt)}"
proof -
  let ?nt = "n_theta3 bb" and ?my = "map_y3 bb" and ?w = "wpr3 bb" and ?rm = "row_mask (map_x3 bb)"
  let ?S = "map_y3 bb * wpr3 bb"
  let ?idx = "\<lambda>x y. y * ?w + x div 64"
  from wf have w: "?w = words_per_row (map_x3 bb)" and len: "length (data3 bb) = ?nt * ?S"
    by (simp_all add: wf3_def)
  from w have rm: "length ?rm = ?w" by simp
  obtain temp where temp: "dilate3d_layers (data3 bb) ?my ?w ?rm dx dy [0..<?nt] = Some temp"
    and ltemp: "length temp = ?nt * ?S"
    and tbits: "\<forall>t<?nt. \<forall>y<?my. \<forall>x<64 * ?w. bit (temp ! (t * ?S + ?idx x y)) (x mod 64) \<longleftrightarrow> rbit ?rm x \<and>
      (\<exists>y'<?my. \<exists>x'<64 * ?w. x' \<le> x + dx \<and> x \<le> x' + dx \<and> y' \<le> y + dy \<and> y \<le> y' + dy
        \<and> bit (data3 bb ! (t * ?S + ?idx x' y')) (x' mod 64))"
    using dilate3d_layers_bits [OF len rm dx, of "[0..<?nt]" dy]
    by (auto simp: lessThan_atLeast0)
  define out where "out = (if dt = 0 then temp else dilate3d_theta temp ?nt ?S dt)"
  have lout: "length out = ?nt * ?S" using ltemp by (simp add: out_def dilate3d_theta_bits(1))
  have obits: "bit (out ! (t * ?S + i)) b \<longleftrightarrow>
      (\<exists>st\<le>dt. bit (temp ! ((t + st) mod ?nt * ?S + i)) b \<or> bit (temp ! ((t + ?nt - st) mod ?nt * ?S + i)) b)"
    if "t < ?nt" "i < ?S" for t i b
    using dilate3d_theta_bits(2) [OF ltemp that] that by (simp add: out_def)
  have near: "bit (out ! (t * ?S + i)) b \<longleftrightarrow> (\<exists>t'<?nt. circ_dist ?nt t t' \<le> dt \<and> bit (temp ! (t' * ?S + i)) b)"
    if "t < ?nt" "i < ?S" for t i b
  proof -
    have "bit (out ! (t * ?S + i)) b \<longleftrightarrow> (\<exists>t'<?nt. (\<exists>st\<le>dt. t' = (t + st) mod ?nt \<or> t' = (t + ?nt - st) mod ?nt)
        \<and> bit (temp ! (t' * ?S + i)) b)"
      unfolding obits [OF that] using that(1) by (metis mod_less_divisor less_nat_zero_code neq0_conv)
    also have "\<dots> \<longleftrightarrow> (\<exists>t'<?nt. circ_dist ?nt t t' \<le> dt \<and> bit (temp ! (t' * ?S + i)) b)"
      using theta_near_iff [OF that(1) _ dt] by blast
    finally show ?thesis .
  qed
  have mask: "rbit ?rm x \<longleftrightarrow> x < map_x3 bb" if "x < 64 * ?w" for x
    using that w by (intro rbit_row_mask) (simp add: less_mult_imp_div_less mult.commute)
  let ?bb = "bb\<lparr>data3 := out\<rparr>"
  have col: "?idx x y < ?S" if "y < ?my" "x < 64 * ?w" for x y
    using that by (intro row_major_less) (simp_all add: less_mult_imp_div_less mult.commute)
  have inmap: "x < 64 * ?w" if "x < map_x3 bb" for x
    using words_per_row_least [OF that] w by (simp add: div_less_iff_less_mult mult.commute)
  have src: "(\<exists>y'<?my. \<exists>x'<64 * ?w. P x' y' \<and> bit (data3 bb ! (t' * ?S + ?idx x' y')) (x' mod 64)) \<longleftrightarrow>
      (\<exists>x' y'. (x', y', t') \<in> cells3 bb \<and> P x' y')" if "t' < ?nt" for t' P
    using wf that inmap by (auto simp: cells3_def wf3_def test3_bit) blast+
  have test: "test3 ?bb x y t \<longleftrightarrow> x < map_x3 bb \<and> (\<exists>(x', y', t')\<in>cells3 bb. x' \<le> x + dx \<and> x \<le> x' + dx
      \<and> y' \<le> y + dy \<and> y \<le> y' + dy \<and> circ_dist ?nt t t' \<le> dt)"
    if y: "y < ?my" and x: "x < 64 * ?w" and t: "t < ?nt" for x y t
  proof -
    have "test3 ?bb x y t \<longleftrightarrow> (\<exists>t'<?nt. circ_dist ?nt t t' \<le> dt \<and> bit (temp ! (t' * ?S + ?idx x y)) (x mod 64))"
      using near [OF t col [OF y x]] by (simp add: test3_bit)
    also have "\<dots> \<longleftrightarrow> (\<exists>t'<?nt. circ_dist ?nt t t' \<le> dt \<and> x < map_x3 bb \<and>
        (\<exists>x' y'. (x', y', t') \<in> cells3 bb \<and> x' \<le> x + dx \<and> x \<le> x' + dx \<and> y' \<le> y + dy \<and> y \<le> y' + dy))"
      using tbits y x mask [OF x] src [of _ "\<lambda>x' y'. x' \<le> x + dx \<and> x \<le> x' + dx \<and> y' \<le> y + dy \<and> y \<le> y' + dy"]
      by (simp cong: conj_cong)
    also have "\<dots> \<longleftrightarrow> x < map_x3 bb \<and> (\<exists>(x', y', t')\<in>cells3 bb. x' \<le> x + dx \<and> x \<le> x' + dx
        \<and> y' \<le> y + dy \<and> y \<le> y' + dy \<and> circ_dist ?nt t t' \<le> dt)"
      by (fastforce simp: cells3_def)
    finally show ?thesis .
  qed
  show thesis
  proof
    show "dilate3d bb dx dy dt = Some ?bb" using temp by (simp add: dilate3d_def out_def)
    show "wf3 ?bb" using w lout test by (simp add: wf3_def)
    show "cells3 ?bb = {(x, y, t). x < map_x3 bb \<and> y < map_y3 bb \<and> t < n_theta3 bb \<and>
      (\<exists>(x', y', t')\<in>cells3 bb. x' \<le> x + dx \<and> x \<le> x' + dx \<and> y' \<le> y + dy \<and> y \<le> y' + dy
        \<and> circ_dist (n_theta3 bb) t t' \<le> dt)}"
      by (simp add: cells3_def [of ?bb] test inmap cong: conj_cong)
  qed simp_all
qed

section \<open>Boards as sets of cells\<close>

lemma new2_dims [simp]: "map_x2 (new2 mx my) = mx" "map_y2 (new2 mx my) = my"
  by (simp_all add: new2_def Let_def)

lemma new3_dims [simp]: "map_x3 (new3 mx my nt) = mx" "map_y3 (new3 mx my nt) = my" "n_theta3 (new3 mx my nt) = nt"
  by (simp_all add: new3_def Let_def)

text \<open>C16: \<open>Bitboard2D::dilate\<close> panics exactly when \<open>dx\<close> reaches the word size; otherwise the word-parallel
  shifts with carries compute the box dilation: a cell of the map is set iff some set cell lies within
  \<open>dx\<close> columns and \<open>dy\<close> rows, and no bit beyond the map width is set.\<close>

theorem dilate2d_box:
  assumes "wf2 bb"
  shows "case dilate2d bb dx dy of
     None \<Rightarrow> 64 \<le> dx
   | Some bb' \<Rightarrow> dx < 64 \<and> wf2 bb' \<and> map_x2 bb' = map_x2 bb \<and> map_y2 bb' = map_y2 bb \<and>
       cells2 bb' = {(x, y). x < map_x2 bb \<and> y < map_y2 bb \<and>
         (\<exists>(x', y')\<in>cells2 bb. x' \<le> x + dx \<and> x \<le> x' + dx \<and> y' \<le> y + dy \<and> y \<le> y' + dy)}"
proof (cases "dx < 64")
  case True
  show ?thesis by (rule dilate2d_Some [OF assms True, of dy]) (simp add: True)
next
  case False
  then show ?thesis by (simp add: dilate2d_panics)
qed

theorem dilate2d_box_witness:
  "case dilate2d (set2 (new2 70 2) 63 0) 1 1 of
     None \<Rightarrow> False
   | Some bb' \<Rightarrow> (64, 1) \<in> cells2 bb' \<and> (65, 1) \<notin> cells2 bb'"
proof -
  have "wf2 (set2 (new2 70 2) 63 0)" by (rule wf2_set [OF wf2_new]) simp_all
  moreover have "cells2 (set2 (new2 70 2) 63 0) = {(63, 0)}"
    by (subst cells2_set [OF wf2_new]) (simp_all)
  ultimately show ?thesis using dilate2d_box [of "set2 (new2 70 2) 63 0" 1 1]
    by (auto split: option.splits)
qed

text \<open>C17: \<open>Bitboard3D::dilate\<close> is the box dilation whose theta axis is periodic: a cell is set iff some set
  cell lies within \<open>dx\<close> columns, \<open>dy\<close> rows and circular theta distance \<open>dt\<close>.\<close>

theorem dilate3d_box:
  assumes "wf3 bb" and "dx < 64" and "dt \<le> n_theta3 bb"
  shows "\<exists>bb'. dilate3d bb dx dy dt = Some bb' \<and> wf3 bb' \<and>
    cells3 bb' = {(x, y, t). x < map_x3 bb \<and> y < map_y3 bb \<and> t < n_theta3 bb \<and>
      (\<exists>(x', y', t')\<in>cells3 bb. x' \<le> x + dx \<and> x \<le> x' + dx \<and> y' \<le> y + dy \<and> y \<le> y' + dy
        \<and> circ_dist (n_theta3 bb) t t' \<le> dt)}"
  by (rule dilate3d_Some [OF assms, of dy]) blast

theorem dilate3d_box_witness:
  "\<exists>bb'. dilate3d (set3 (new3 3 1 4) 1 0 0) 1 1 1 = Some bb' \<and> (0, 0, 3) \<in> cells3 bb' \<and> (0, 0, 2) \<notin> cells3 bb'"
proof -
  have "wf3 (set3 (new3 3 1 4) 1 0 0)" by (rule wf3_set [OF wf3_new]) simp_all
  moreover have "cells3 (set3 (new3 3 1 4) 1 0 0) = {(1, 0, 0)}"
    by (subst cells3_set [OF wf3_new]) (simp_all)
  ultimately show ?thesis using dilate3d_box [of "set3 (new3 3 1 4) 1 0 0" 1 1 1]
    by (auto simp: circ_dist_def)
qed

text \<open>C19: \<open>set\<close> adds exactly one cell and keeps the representation invariant; \<open>test\<close> reads it back; \<open>popcount\<close>
  is the number of set cells.\<close>

theorem set_test_popcount:
  assumes "wf2 bb" and "x < map_x2 bb" and "y < map_y2 bb"
  shows "wf2 (set2 bb x y) \<and> cells2 (set2 bb x y) = insert (x, y) (cells2 bb) \<and> test2 (set2 bb x y) x y
    \<and> popcount2 (set2 bb x y) = card (insert (x, y) (cells2 bb))"
proof -
  have wf: "wf2 (set2 bb x y)" by (rule wf2_set [OF assms])
  have c: "cells2 (set2 bb x y) = insert (x, y) (cells2 bb)" by (rule cells2_set [OF assms])
  then have "(x, y) \<in> cells2 (set2 bb x y)" by simp
  then have "test2 (set2 bb x y) x y" by (simp add: cells2_def)
  with wf c popcount2_card [OF wf] show ?thesis by simp
qed

theorem set_test_popcount_witness:
  "test2 (set2 (new2 70 2) 69 1) 69 1 \<and> popcount2 (set2 (new2 70 2) 69 1) = 1"
  using set_test_popcount [of "new2 70 2" 69 1] wf2_new [of 70 2] cells2_new [of 70 2]
  by simp

end
