(* ===== verification/BitIter.thy ===== *)
theory BitIter
  imports Bitboard
begin

unbundle bit_operations_syntax

text \<open>
  The iterators over the set bits of a board (\<^verbatim>\<open>bitboard/enumerate.rs\<close>). An iterator is its
  cursor (row, word of the row, remaining bits of that word); \<open>next\<close> extracts the lowest
  remaining bit, \<open>advance\<close> moves to the next non-zero word.

  Shown: both loops terminate, and draining the iterator yields exactly the cells of the board,
  each once, in row-major order.
\<close>

section \<open>The code\<close>

record iter2 =
  it_iy :: nat
  it_wi :: nat
  it_word :: u64

definition iter2_new :: "bitboard2d \<Rightarrow> iter2" where
  "iter2_new bb =
     \<lparr>it_iy = 0, it_wi = 0, it_word = (if 0 < map_y2 bb \<and> 0 < wpr2 bb then data2 bb ! 0 else 0)\<rparr>"

text \<open>The clear-lowest-bit step of the code, \<^verbatim>\<open>w &= w - 1\<close>.\<close>

definition clear_low :: "u64 \<Rightarrow> u64" where
  "clear_low w = w AND (w - 1)"

function iter2_advance :: "bitboard2d \<Rightarrow> iter2 \<Rightarrow> iter2" where
  "iter2_advance bb s =
     (let wi = it_wi s + 1 in
      if wpr2 bb \<le> wi then
        (let iy = it_iy s + 1 in
         if map_y2 bb \<le> iy then \<lparr>it_iy = iy, it_wi = 0, it_word = 0\<rparr>
         else let word = data2 bb ! (iy * wpr2 bb + 0);
                  s' = \<lparr>it_iy = iy, it_wi = 0, it_word = word\<rparr>
              in if word \<noteq> 0 then s' else iter2_advance bb s')
      else let word = data2 bb ! (it_iy s * wpr2 bb + wi);
               s' = \<lparr>it_iy = it_iy s, it_wi = wi, it_word = word\<rparr>
           in if word \<noteq> 0 then s' else iter2_advance bb s')"
  by pat_completeness auto
termination
  by (relation "measures [\<lambda>(bb, s). map_y2 bb - it_iy s, \<lambda>(bb, s). wpr2 bb - it_wi s]") auto

declare iter2_advance.simps [simp del]

section \<open>The lowest set bit\<close>

text \<open>The set bits of a word, lowest first.\<close>

definition word_bits :: "u64 \<Rightarrow> nat list" where
  "word_bits w = filter (bit w) [0..<64]"

lemma word_bits_0 [simp]: "word_bits 0 = []"
  by (simp add: word_bits_def)

lemma word_bits_Nil: "word_bits w = [] \<longleftrightarrow> w = 0"
proof
  assume "word_bits w = []"
  then have "\<not> bit w b" for b
    by (cases "b < 64") (auto simp: word_bits_def filter_empty_conv dest: bit_imp_le_length)
  then show "w = 0" by (intro bit_word_eqI) simp
qed simp

lemma word_bits_Cons:
  assumes "w \<noteq> 0"
  obtains bs where "word_bits w = trailing_zeros w # bs" and "\<forall>b\<in>set bs. trailing_zeros w < b"
proof -
  obtain b bs where f: "word_bits w = b # bs"
    using assms word_bits_Nil [of w] by (cases "word_bits w") auto
  moreover have "sorted_wrt (<) (word_bits w)" by (simp add: word_bits_def sorted_wrt_filter)
  moreover have "trailing_zeros w = b" using f by (simp add: trailing_zeros_def word_bits_def)
  ultimately show thesis using that by simp
qed

lemma bit_clear_low:
  assumes "w \<noteq> 0"
  shows "bit (clear_low w) n \<longleftrightarrow> bit w n \<and> n \<noteq> trailing_zeros w"
proof -
  let ?k = "trailing_zeros w"
  define v where "v = unset_bit ?k w"
  obtain bs where bs: "word_bits w = ?k # bs" "\<forall>b\<in>set bs. ?k < b" using word_bits_Cons [OF assms] .
  have "?k \<in> set (word_bits w)" by (simp add: bs)
  then have k: "?k < 64" "bit w ?k" by (auto simp: word_bits_def)
  have low: "\<not> bit w m" if "m < ?k" for m
  proof
    assume "bit w m"
    then have "m \<in> set (word_bits w)" using that k by (simp add: word_bits_def)
    then show False using bs that by auto
  qed
  have "v AND 2 ^ ?k = 0" by (rule bit_word_eqI) (auto simp: v_def bit_simps)
  then have "v + 2 ^ ?k = v OR 2 ^ ?k" by (rule disjunctive_add_eq_or)
  also have "\<dots> = w" using k by (intro bit_word_eqI) (auto simp: v_def bit_simps)
  finally have "w - 1 = v + mask ?k" by (simp add: mask_eq_exp_minus_1 algebra_simps)
  also have "\<dots> = v OR mask ?k"
    by (rule disjunctive_add_eq_or, rule bit_word_eqI) (use low in \<open>auto simp: v_def bit_simps\<close>)
  finally show ?thesis
    using low by (cases "n < 64") (auto simp: clear_low_def v_def bit_simps dest: bit_imp_le_length)
qed

lemma word_bits_clear_low:
  assumes "w \<noteq> 0"
  shows "word_bits w = trailing_zeros w # word_bits (clear_low w)"
proof -
  obtain bs where bs: "word_bits w = trailing_zeros w # bs" "\<forall>b\<in>set bs. trailing_zeros w < b"
    using word_bits_Cons [OF assms] .
  have "bit (clear_low w) = (\<lambda>n. bit w n \<and> n \<noteq> trailing_zeros w)"
    using bit_clear_low [OF assms] by (intro ext)
  then have "word_bits (clear_low w) = filter (\<lambda>n. n \<noteq> trailing_zeros w) (word_bits w)"
    by (simp add: word_bits_def)
  also have "\<dots> = bs" using bs by (auto simp: filter_id_conv)
  finally show ?thesis using bs by simp
qed

section \<open>The iterator\<close>

lemma iter2_advance_progress:
  "it_iy s < it_iy (iter2_advance bb s) \<or>
   it_iy s = it_iy (iter2_advance bb s) \<and> it_wi s < it_wi (iter2_advance bb s) \<and> it_wi (iter2_advance bb s) < wpr2 bb"
proof (induction bb s rule: iter2_advance.induct)
  case (1 bb s)
  show ?case
    using 1 by (simp add: iter2_advance.simps [of bb s] Let_def not_le) force
qed

function iter2_next :: "bitboard2d \<Rightarrow> iter2 \<Rightarrow> (nat \<times> nat) option \<times> iter2" where
  "iter2_next bb s =
     (if it_word s = 0 then
        (if map_y2 bb \<le> it_iy s then (None, s)
         else let s' = iter2_advance bb s in
           if map_y2 bb \<le> it_iy s' then (None, s') else iter2_next bb s')
      else
        let b = trailing_zeros (it_word s);
            ix = it_wi s * 64 + b;
            s' = s\<lparr>it_word := clear_low (it_word s)\<rparr>
        in if ix < map_x2 bb then (Some (ix, it_iy s), s') else iter2_next bb s')"
  by pat_completeness auto
termination
proof (relation "measures [\<lambda>(bb, s). map_y2 bb - it_iy s, \<lambda>(bb, s). wpr2 bb - it_wi s,
    \<lambda>(bb, s). length (word_bits (it_word s))]", goal_cases)
  case (2 bb s s')
  then show ?case using iter2_advance_progress [of s bb] by auto
next
  case (3 bb s b ix s')
  then show ?case using word_bits_clear_low [of "it_word s"] by simp
qed simp

declare iter2_next.simps [simp del]

text \<open>\<open>enumerate().collect()\<close>: the iterator is drained until it returns \<open>None\<close>.\<close>

lemma iter2_next_progress:
  assumes "iter2_next bb s = (Some p, s')"
  shows "it_iy s < it_iy s' \<and> it_iy s' < map_y2 bb \<or> it_iy s = it_iy s' \<and>
     (it_wi s < it_wi s' \<and> it_wi s' < wpr2 bb \<or>
      it_wi s = it_wi s' \<and> length (word_bits (it_word s')) < length (word_bits (it_word s)))"
  using assms
proof (induction bb s rule: iter2_next.induct)
  case (1 bb s)
  show ?case
  proof (cases "it_word s = 0")
    case True
    let ?t = "iter2_advance bb s"
    from True 1(3) have "\<not> map_y2 bb \<le> it_iy s" "\<not> map_y2 bb \<le> it_iy ?t" "iter2_next bb ?t = (Some p, s')"
      by (auto simp: iter2_next.simps [of bb s] Let_def split: if_splits)
    with 1(1) [OF True] iter2_advance_progress [of s bb] show ?thesis by fastforce
  next
    case False
    let ?t = "s\<lparr>it_word := clear_low (it_word s)\<rparr>"
    have "length (word_bits (it_word ?t)) < length (word_bits (it_word s))"
      using word_bits_clear_low [OF False] by simp
    then have dec: "length (word_bits (it_word ?t)) < length (word_bits (it_word s))" .
    show ?thesis
    proof (cases "it_wi s * 64 + trailing_zeros (it_word s) < map_x2 bb")
      case True
      then have "s' = ?t" using False 1(3) by (simp add: iter2_next.simps [of bb s] Let_def)
      with dec show ?thesis by simp
    next
      case skip: False
      then have "iter2_next bb ?t = (Some p, s')"
        using False 1(3) by (simp add: iter2_next.simps [of bb s] Let_def)
      from 1(2) [OF False refl refl refl skip this] dec show ?thesis by auto
    qed
  qed
qed

function iter2_collect :: "bitboard2d \<Rightarrow> iter2 \<Rightarrow> (nat \<times> nat) list" where
  "iter2_collect bb s =
     (case iter2_next bb s of
        (None, s') \<Rightarrow> []
      | (Some p, s') \<Rightarrow> p # iter2_collect bb s')"
  by pat_completeness auto
termination
  by (relation "measures [\<lambda>(bb, s). map_y2 bb - it_iy s, \<lambda>(bb, s). wpr2 bb - it_wi s,
    \<lambda>(bb, s). length (word_bits (it_word s))]") (auto dest!: sym [THEN iter2_next_progress])

declare iter2_collect.simps [simp del]

definition enumerate2 :: "bitboard2d \<Rightarrow> (nat \<times> nat) list" where
  "enumerate2 bb = iter2_collect bb (iter2_new bb)"

section \<open>Draining the iterator\<close>

text \<open>The cells of word \<open>j\<close> of the board whose remaining bits are \<open>w\<close>.\<close>

definition word_cells :: "bitboard2d \<Rightarrow> nat \<Rightarrow> u64 \<Rightarrow> (nat \<times> nat) list" where
  "word_cells bb j w = map (\<lambda>b. (j mod wpr2 bb * 64 + b, j div wpr2 bb))
     (filter (\<lambda>b. j mod wpr2 bb * 64 + b < map_x2 bb) (word_bits w))"

definition later_cells :: "bitboard2d \<Rightarrow> nat \<Rightarrow> (nat \<times> nat) list" where
  "later_cells bb j = concat (map (\<lambda>k. word_cells bb k (data2 bb ! k)) [j..<map_y2 bb * wpr2 bb])"

definition cursor :: "bitboard2d \<Rightarrow> iter2 \<Rightarrow> nat" where
  "cursor bb s = it_iy s * wpr2 bb + it_wi s"

definition in_board :: "bitboard2d \<Rightarrow> iter2 \<Rightarrow> bool" where
  "in_board bb s \<longleftrightarrow> it_iy s < map_y2 bb \<and> it_wi s < wpr2 bb"

lemma cursor_props:
  assumes "in_board bb s"
  shows "cursor bb s mod wpr2 bb = it_wi s" "cursor bb s div wpr2 bb = it_iy s"
    "cursor bb s < map_y2 bb * wpr2 bb"
  using assms by (simp_all add: cursor_def in_board_def row_major_div row_major_less)

lemma later_cells_step: "j < map_y2 bb * wpr2 bb \<Longrightarrow>
    later_cells bb j = word_cells bb j (data2 bb ! j) @ later_cells bb (Suc j)"
  by (simp add: later_cells_def upt_conv_Cons)

lemma later_cells_end: "map_y2 bb * wpr2 bb \<le> j \<Longrightarrow> later_cells bb j = []"
  by (simp add: later_cells_def)

lemma word_cells_0 [simp]: "word_cells bb j 0 = []"
  by (simp add: word_cells_def)

text \<open>\<open>advance\<close> skips zero words only: it stops at the next word with a set bit, or past the end.\<close>

lemma iter2_advance_spec:
  assumes "in_board bb s"
  shows "let t = iter2_advance bb s in
     if map_y2 bb \<le> it_iy t then later_cells bb (Suc (cursor bb s)) = []
     else in_board bb t \<and> it_word t = data2 bb ! cursor bb t \<and>
       later_cells bb (Suc (cursor bb s)) = later_cells bb (cursor bb t)"
  using assms
proof (induction bb s rule: iter2_advance.induct)
  case (1 bb s)
  let ?w = "wpr2 bb" and ?y = "it_iy s" and ?i = "it_wi s"
  have w: "0 < ?w" "?i < ?w" "?y < map_y2 bb" using 1(3) by (auto simp: in_board_def)
  show ?case
  proof (cases "?w \<le> Suc ?i")
    case True
    then have next_row: "Suc (cursor bb s) = Suc ?y * ?w" using w by (simp add: cursor_def)
    show ?thesis
    proof (cases "map_y2 bb \<le> Suc ?y")
      case past: True
      then have "later_cells bb (Suc (cursor bb s)) = []"
        unfolding next_row by (intro later_cells_end mult_le_mono1)
      with past True w show ?thesis by (simp add: iter2_advance.simps [of bb s])
    next
      case row: False
      let ?t = "\<lparr>it_iy = ?y + 1, it_wi = 0, it_word = data2 bb ! ((?y + 1) * ?w + 0)\<rparr>"
      have t: "in_board bb ?t" "cursor bb ?t = Suc (cursor bb s)"
        using row w next_row by (simp_all add: in_board_def cursor_def)
      show ?thesis
      proof (cases "it_word ?t = 0")
        case False
        with True row t w next_row show ?thesis
          by (simp add: iter2_advance.simps [of bb s] Let_def in_board_def)
      next
        case zero: True
        have adv: "iter2_advance bb s = iter2_advance bb ?t"
          using True row zero by (simp add: iter2_advance.simps [of bb s] Let_def)
        have skip: "later_cells bb (Suc (cursor bb s)) = later_cells bb (Suc (cursor bb ?t))"
          using later_cells_step [of "cursor bb ?t" bb] cursor_props(3) [OF t(1)] t(2) zero next_row by simp
        show ?thesis unfolding adv skip
          by (rule 1(1) [OF refl _ refl _ refl refl]) (use True row zero t in simp_all)
      qed
    qed
  next
    case False
    let ?t = "\<lparr>it_iy = ?y, it_wi = ?i + 1, it_word = data2 bb ! (?y * ?w + (?i + 1))\<rparr>"
    have t: "in_board bb ?t" "cursor bb ?t = Suc (cursor bb s)"
      using False w by (simp_all add: in_board_def cursor_def)
    show ?thesis
    proof (cases "it_word ?t = 0")
      case nz: False
      with False t w show ?thesis
        by (simp add: iter2_advance.simps [of bb s] Let_def in_board_def cursor_def)
    next
      case zero: True
      have adv: "iter2_advance bb s = iter2_advance bb ?t"
        using False zero by (simp add: iter2_advance.simps [of bb s] Let_def)
      have skip: "later_cells bb (Suc (cursor bb s)) = later_cells bb (Suc (cursor bb ?t))"
        using later_cells_step [of "cursor bb ?t" bb] cursor_props(3) [OF t(1)] t(2) zero
        by (simp add: cursor_def)
      show ?thesis unfolding adv skip
        by (rule 1(2) [OF refl _ refl refl]) (use False zero t in simp_all)
    qed
  qed
qed

lemma iter2_next_spec:
  assumes "in_board bb s"
  shows "case iter2_next bb s of
     (None, s') \<Rightarrow> word_cells bb (cursor bb s) (it_word s) @ later_cells bb (Suc (cursor bb s)) = []
   | (Some p, s') \<Rightarrow> in_board bb s' \<and>
       word_cells bb (cursor bb s) (it_word s) @ later_cells bb (Suc (cursor bb s)) =
       p # word_cells bb (cursor bb s') (it_word s') @ later_cells bb (Suc (cursor bb s'))"
  using assms
proof (induction bb s rule: iter2_next.induct)
  case (1 bb s)
  show ?case
  proof (cases "it_word s = 0")
    case True
    let ?t = "iter2_advance bb s"
    have y: "\<not> map_y2 bb \<le> it_iy s" using 1(3) by (simp add: in_board_def)
    show ?thesis
    proof (cases "map_y2 bb \<le> it_iy ?t")
      case past: True
      with True y iter2_advance_spec [OF 1(3)] show ?thesis
        by (simp add: iter2_next.simps [of bb s] Let_def)
    next
      case False
      with iter2_advance_spec [OF 1(3)] have t: "in_board bb ?t" "it_word ?t = data2 bb ! cursor bb ?t"
        "later_cells bb (Suc (cursor bb s)) = later_cells bb (cursor bb ?t)" by (simp_all add: Let_def)
      have "iter2_next bb s = iter2_next bb ?t"
        using True False y by (simp add: iter2_next.simps [of bb s] Let_def)
      with 1(1) [OF True y refl False t(1)] t later_cells_step [OF cursor_props(3) [OF t(1)]] True
      show ?thesis by (simp split: prod.splits option.splits)
    qed
  next
    case False
    let ?t = "s\<lparr>it_word := clear_low (it_word s)\<rparr>"
    let ?x = "it_wi s * 64 + trailing_zeros (it_word s)"
    have t: "in_board bb ?t" "cursor bb ?t = cursor bb s" using 1(3) by (simp_all add: in_board_def cursor_def)
    have cells: "word_cells bb (cursor bb s) (it_word s) =
        (if ?x < map_x2 bb then [(?x, it_iy s)] else []) @ word_cells bb (cursor bb s) (it_word ?t)"
      using word_bits_clear_low [OF False] cursor_props [OF 1(3)] by (simp add: word_cells_def)
    show ?thesis
    proof (cases "?x < map_x2 bb")
      case True
      then show ?thesis using False t cells by (simp add: iter2_next.simps [of bb s] Let_def)
    next
      case skip: False
      then have "iter2_next bb s = iter2_next bb ?t"
        using False by (simp add: iter2_next.simps [of bb s] Let_def)
      with 1(2) [OF False refl refl refl skip t(1)] cells skip t show ?thesis
        by (simp split: prod.splits option.splits)
    qed
  qed
qed

lemma iter2_collect_spec:
  assumes "in_board bb s"
  shows "iter2_collect bb s = word_cells bb (cursor bb s) (it_word s) @ later_cells bb (Suc (cursor bb s))"
  using assms
proof (induction bb s rule: iter2_collect.induct)
  case (1 bb s)
  obtain r s' where n: "iter2_next bb s = (r, s')" by fastforce
  with iter2_next_spec [OF 1(2)] 1(1) [OF n [symmetric]] show ?case
    by (cases r) (auto simp: iter2_collect.simps [of bb s])
qed

lemma enumerate2_words:
  assumes "0 < wpr2 bb"
  shows "enumerate2 bb = later_cells bb 0"
proof (cases "map_y2 bb = 0")
  case True
  then show ?thesis
    by (simp add: enumerate2_def iter2_new_def iter2_collect.simps iter2_next.simps later_cells_def)
next
  case False
  let ?s = "iter2_new bb"
  have s: "in_board bb ?s" "cursor bb ?s = 0" "it_word ?s = data2 bb ! 0"
    using assms False by (simp_all add: in_board_def cursor_def iter2_new_def)
  then show ?thesis
    using iter2_collect_spec [OF s(1)] later_cells_step [OF cursor_props(3) [OF s(1)]]
    by (simp add: enumerate2_def)
qed

lemma set_enumerate2:
  assumes wf: "wf2 bb" and w: "0 < wpr2 bb"
  shows "set (enumerate2 bb) = cells2 bb"
proof (intro set_eqI iffI)
  fix p assume "p \<in> set (enumerate2 bb)"
  then obtain j b where j: "j < map_y2 bb * wpr2 bb" and b: "bit (data2 bb ! j) b" "b < 64"
    and x: "j mod wpr2 bb * 64 + b < map_x2 bb" and p: "p = (j mod wpr2 bb * 64 + b, j div wpr2 bb)"
    by (auto simp: enumerate2_words [OF w] later_cells_def word_cells_def word_bits_def)
  have "j div wpr2 bb < map_y2 bb" using j by (simp add: less_mult_imp_div_less)
  moreover have "test2 bb (j mod wpr2 bb * 64 + b) (j div wpr2 bb)"
    using b by (simp add: test2_bit)
  ultimately show "p \<in> cells2 bb" using x p by (simp add: cells2_def)
next
  fix p assume "p \<in> cells2 bb"
  then obtain x y where p: "p = (x, y)" "x < map_x2 bb" "y < map_y2 bb" "test2 bb x y"
    by (auto simp: cells2_def)
  have i: "x div 64 < wpr2 bb" using wf p(2) by (simp add: wf2_def words_per_row_least)
  let ?j = "y * wpr2 bb + x div 64"
  have "x mod 64 \<in> set (word_bits (data2 bb ! ?j))" using p(4) by (simp add: word_bits_def test2_bit)
  then have "(x, y) \<in> set (word_cells bb ?j (data2 bb ! ?j))"
    using p(2) i by (force simp: word_cells_def row_major_div image_iff intro!: bexI [of _ "x mod 64"])
  then show "p \<in> set (enumerate2 bb)"
    using row_major_less [OF p(3) i] p(1) by (auto simp: enumerate2_words [OF w] later_cells_def)
qed

text \<open>Cells come out row by row and, within a row, by increasing column.\<close>

definition row_major_lt :: "nat \<times> nat \<Rightarrow> nat \<times> nat \<Rightarrow> bool" where
  "row_major_lt p q \<longleftrightarrow> snd p < snd q \<or> snd p = snd q \<and> fst p < fst q"

lemma word_cells_sorted: "sorted_wrt row_major_lt (word_cells bb j w)"
proof -
  have "sorted_wrt (<) (filter (\<lambda>b. j mod wpr2 bb * 64 + b < map_x2 bb) (word_bits w))"
    by (simp add: word_bits_def sorted_wrt_filter)
  then show ?thesis by (simp add: word_cells_def sorted_wrt_map row_major_lt_def)
qed

lemma word_cells_order:
  assumes "p \<in> set (word_cells bb j w)" "q \<in> set (word_cells bb k v)" "j < k"
  shows "row_major_lt p q"
proof -
  have "j div wpr2 bb \<le> k div wpr2 bb" using assms(3) by (simp add: div_le_mono)
  moreover have "j mod wpr2 bb < k mod wpr2 bb" if "j div wpr2 bb = k div wpr2 bb"
    using less_iff_mod_less [OF that] assms(3) by simp
  ultimately show ?thesis
    using assms(1,2) by (fastforce simp: word_cells_def word_bits_def row_major_lt_def)
qed

lemma later_cells_sorted: "sorted_wrt row_major_lt (later_cells bb j)"
proof -
  have "sorted_wrt row_major_lt (concat (map (\<lambda>k. word_cells bb k (data2 bb ! k)) ks))"
    if "sorted_wrt (<) ks" for ks
    using that
  proof (induction ks)
    case (Cons k ks)
    then show ?case
      by (auto simp: sorted_wrt_append word_cells_sorted intro: word_cells_order)
  qed simp
  then show ?thesis by (simp add: later_cells_def)
qed

lemma enumerate2_sorted:
  assumes "0 < wpr2 bb"
  shows "sorted_wrt row_major_lt (enumerate2 bb)"
  by (simp add: enumerate2_words [OF assms] later_cells_sorted)

lemma enumerate2_distinct:
  assumes "0 < wpr2 bb"
  shows "distinct (enumerate2 bb)"
proof -
  have "sorted_wrt row_major_lt ps \<Longrightarrow> distinct ps" for ps
    by (induction ps) (auto simp: row_major_lt_def)
  then show ?thesis using enumerate2_sorted [OF assms] by blast
qed

lemma wpr2_pos: "wf2 bb \<Longrightarrow> 0 < map_x2 bb \<Longrightarrow> 0 < wpr2 bb"
  using words_per_row_least [of 0 "map_x2 bb"] by (simp add: wf2_def)

section \<open>The three-dimensional iterator\<close>

record iter3 =
  it3_it :: nat
  it3_iy :: nat
  it3_wi :: nat
  it3_word :: u64

definition iter3_new :: "bitboard3d \<Rightarrow> iter3" where
  "iter3_new bb = \<lparr>it3_it = 0, it3_iy = 0, it3_wi = 0,
     it3_word = (if 0 < n_theta3 bb \<and> 0 < map_y3 bb \<and> 0 < wpr3 bb then data3 bb ! 0 else 0)\<rparr>"

text \<open>The carry of the three counters: \<open>wi\<close> into \<open>iy\<close> into \<open>it\<close>.\<close>

definition iter3_carry :: "bitboard3d \<Rightarrow> iter3 \<Rightarrow> nat \<times> nat \<times> nat" where
  "iter3_carry bb s =
     (let wi = it3_wi s + 1 in
      if wpr3 bb \<le> wi then
        let iy = it3_iy s + 1 in
        if map_y3 bb \<le> iy then (it3_it s + 1, 0, 0) else (it3_it s, iy, 0)
      else (it3_it s, it3_iy s, wi))"

function iter3_advance :: "bitboard3d \<Rightarrow> iter3 \<Rightarrow> iter3" where
  "iter3_advance bb s =
     (case iter3_carry bb s of (it, iy, wi) \<Rightarrow>
        if n_theta3 bb \<le> it then \<lparr>it3_it = it, it3_iy = iy, it3_wi = wi, it3_word = 0\<rparr>
        else let word = data3 bb ! (it * map_y3 bb * wpr3 bb + iy * wpr3 bb + wi);
                 s' = \<lparr>it3_it = it, it3_iy = iy, it3_wi = wi, it3_word = word\<rparr>
             in if word \<noteq> 0 then s' else iter3_advance bb s')"
  by pat_completeness auto
termination
  by (relation "measures [\<lambda>(bb, s). n_theta3 bb - it3_it s, \<lambda>(bb, s). map_y3 bb - it3_iy s,
      \<lambda>(bb, s). wpr3 bb - it3_wi s]") (auto simp: iter3_carry_def Let_def split: if_splits)

declare iter3_advance.simps [simp del]

text \<open>The row of the flattened board at which a three-dimensional cursor stands.\<close>

definition flat_iter :: "bitboard3d \<Rightarrow> iter3 \<Rightarrow> iter2" where
  "flat_iter bb s = \<lparr>it_iy = it3_it s * map_y3 bb + it3_iy s, it_wi = it3_wi s, it_word = it3_word s\<rparr>"

lemma iter3_advance_progress:
  "it3_it s < it3_it (iter3_advance bb s) \<or> it3_it s = it3_it (iter3_advance bb s) \<and>
     (it3_iy s < it3_iy (iter3_advance bb s) \<and> it3_iy (iter3_advance bb s) < map_y3 bb \<or>
      it3_iy s = it3_iy (iter3_advance bb s) \<and> it3_wi s < it3_wi (iter3_advance bb s)
        \<and> it3_wi (iter3_advance bb s) < wpr3 bb \<or> n_theta3 bb \<le> it3_it (iter3_advance bb s))"
proof (induction bb s rule: iter3_advance.induct)
  case (1 bb s)
  obtain it iy wi where c: "iter3_carry bb s = (it, iy, wi)" by (cases "iter3_carry bb s") auto
  then have "it3_it s < it \<or> it3_it s = it \<and> (it3_iy s < iy \<and> iy < map_y3 bb \<or> it3_iy s = iy \<and> it3_wi s < wi \<and> wi < wpr3 bb)"
    by (auto simp: iter3_carry_def Let_def split: if_splits)
  with 1 [OF c [symmetric] refl] c show ?case
    by (simp add: iter3_advance.simps [of bb s] Let_def) force
qed

function iter3_next :: "bitboard3d \<Rightarrow> iter3 \<Rightarrow> (nat \<times> nat \<times> nat) option \<times> iter3" where
  "iter3_next bb s =
     (if it3_word s = 0 then
        (if n_theta3 bb \<le> it3_it s then (None, s)
         else let s' = iter3_advance bb s in
           if n_theta3 bb \<le> it3_it s' then (None, s') else iter3_next bb s')
      else
        let b = trailing_zeros (it3_word s);
            ix = it3_wi s * 64 + b;
            s' = s\<lparr>it3_word := clear_low (it3_word s)\<rparr>
        in if ix < map_x3 bb then (Some (ix, it3_iy s, it3_it s), s') else iter3_next bb s')"
  by pat_completeness auto
termination
proof (relation "measures [\<lambda>(bb, s). n_theta3 bb - it3_it s, \<lambda>(bb, s). map_y3 bb - it3_iy s,
    \<lambda>(bb, s). wpr3 bb - it3_wi s, \<lambda>(bb, s). length (word_bits (it3_word s))]", goal_cases)
  case (2 bb s s')
  then show ?case using iter3_advance_progress [of s bb] by auto
next
  case (3 bb s b ix s')
  then show ?case using word_bits_clear_low [of "it3_word s"] by simp
qed simp

declare iter3_next.simps [simp del]

lemma iter3_next_progress:
  assumes "iter3_next bb s = (Some p, s')"
  shows "it3_it s < it3_it s' \<and> it3_it s' < n_theta3 bb \<or> it3_it s = it3_it s' \<and>
     (it3_iy s < it3_iy s' \<and> it3_iy s' < map_y3 bb \<or> it3_iy s = it3_iy s' \<and>
     (it3_wi s < it3_wi s' \<and> it3_wi s' < wpr3 bb \<or>
      it3_wi s = it3_wi s' \<and> length (word_bits (it3_word s')) < length (word_bits (it3_word s))))"
  using assms
proof (induction bb s rule: iter3_next.induct)
  case (1 bb s)
  show ?case
  proof (cases "it3_word s = 0")
    case True
    let ?t = "iter3_advance bb s"
    from True 1(3) have "\<not> n_theta3 bb \<le> it3_it s" "\<not> n_theta3 bb \<le> it3_it ?t" "iter3_next bb ?t = (Some p, s')"
      by (auto simp: iter3_next.simps [of bb s] Let_def split: if_splits)
    with 1(1) [OF True] iter3_advance_progress [of s bb] show ?thesis by fastforce
  next
    case False
    let ?t = "s\<lparr>it3_word := clear_low (it3_word s)\<rparr>"
    have dec: "length (word_bits (it3_word ?t)) < length (word_bits (it3_word s))"
      using word_bits_clear_low [OF False] by simp
    show ?thesis
    proof (cases "it3_wi s * 64 + trailing_zeros (it3_word s) < map_x3 bb")
      case True
      then have "s' = ?t" using False 1(3) by (simp add: iter3_next.simps [of bb s] Let_def)
      with dec show ?thesis by simp
    next
      case skip: False
      then have "iter3_next bb ?t = (Some p, s')"
        using False 1(3) by (simp add: iter3_next.simps [of bb s] Let_def)
      from 1(2) [OF False refl refl refl skip this] dec show ?thesis by auto
    qed
  qed
qed

function iter3_collect :: "bitboard3d \<Rightarrow> iter3 \<Rightarrow> (nat \<times> nat \<times> nat) list" where
  "iter3_collect bb s =
     (case iter3_next bb s of
        (None, s') \<Rightarrow> []
      | (Some p, s') \<Rightarrow> p # iter3_collect bb s')"
  by pat_completeness auto
termination
  by (relation "measures [\<lambda>(bb, s). n_theta3 bb - it3_it s, \<lambda>(bb, s). map_y3 bb - it3_iy s,
    \<lambda>(bb, s). wpr3 bb - it3_wi s, \<lambda>(bb, s). length (word_bits (it3_word s))]")
    (auto dest!: sym [THEN iter3_next_progress])

declare iter3_collect.simps [simp del]

definition enumerate3 :: "bitboard3d \<Rightarrow> (nat \<times> nat \<times> nat) list" where
  "enumerate3 bb = iter3_collect bb (iter3_new bb)"

text \<open>The three-dimensional iterator is the two-dimensional one on the flattened board.\<close>

lemma flat_iter_end:
  "it3_iy s < map_y3 bb \<Longrightarrow> n_theta3 bb * map_y3 bb \<le> it_iy (flat_iter bb s) \<longleftrightarrow> n_theta3 bb \<le> it3_it s"
  unfolding flat_iter_def by simp
    (metis add.commute le_add1 linorder_not_less mult_le_mono1 order.trans row_major_less)

lemma iter3_advance_flat:
  assumes "it3_iy s < map_y3 bb" "it3_it s < n_theta3 bb"
  shows "flat_iter bb (iter3_advance bb s) = iter2_advance (flat3 bb) (flat_iter bb s)
    \<and> it3_iy (iter3_advance bb s) < map_y3 bb"
  using assms
proof (induction bb s rule: iter3_advance.induct)
  case (1 bb s)
  obtain it iy wi where c: "iter3_carry bb s = (it, iy, wi)" by (cases "iter3_carry bb s") auto
  let ?w = "if n_theta3 bb \<le> it then 0 else data3 bb ! (it * map_y3 bb * wpr3 bb + iy * wpr3 bb + wi)"
  let ?s = "\<lparr>it3_it = it, it3_iy = iy, it3_wi = wi, it3_word = ?w\<rparr>"
  have iy: "iy < map_y3 bb" using c 1(2) by (auto simp: iter3_carry_def Let_def split: if_splits)
  have past: "n_theta3 bb * map_y3 bb \<le> it * map_y3 bb + iy \<longleftrightarrow> n_theta3 bb \<le> it"
    using flat_iter_end [of ?s bb] iy by (simp add: flat_iter_def)
  have row: "wpr3 bb \<le> it3_wi s + 1 \<Longrightarrow> it3_it s * map_y3 bb + it3_iy s + 1 = it * map_y3 bb + iy \<and> wi = 0"
    "\<not> wpr3 bb \<le> it3_wi s + 1 \<Longrightarrow> it = it3_it s \<and> iy = it3_iy s \<and> wi = it3_wi s + 1"
    using c 1(2) by (auto simp: iter3_carry_def Let_def split: if_splits)
  have step: "iter2_advance (flat3 bb) (flat_iter bb s) =
     (if n_theta3 bb \<le> it \<or> ?w \<noteq> 0 then flat_iter bb ?s else iter2_advance (flat3 bb) (flat_iter bb ?s))"
  proof (cases "wpr3 bb \<le> it3_wi s + 1")
    case True
    have r: "Suc (it3_it s * map_y3 bb + it3_iy s) = it * map_y3 bb + iy" "wi = 0" using row(1) [OF True] by auto
    show ?thesis using True
      by (subst iter2_advance.simps)
         (simp add: flat_iter_def Let_def r past, simp add: algebra_simps)
  next
    case False
    have r: "it = it3_it s" "iy = it3_iy s" "wi = Suc (it3_wi s)" using row(2) [OF False] by auto
    show ?thesis using False 1(3)
      by (subst iter2_advance.simps)
         (simp add: flat_iter_def Let_def r, simp add: algebra_simps)
  qed
  show ?case
  proof (cases "n_theta3 bb \<le> it \<or> ?w \<noteq> 0")
    case True
    then have "iter3_advance bb s = ?s" using c by (auto simp: iter3_advance.simps [of bb s] Let_def)
    with step True iy show ?thesis by simp
  next
    case False
    then have w0: "data3 bb ! (it * map_y3 bb * wpr3 bb + iy * wpr3 bb + wi) = 0" "\<not> n_theta3 bb \<le> it" by auto
    then have a: "iter3_advance bb s = iter3_advance bb ?s" using c by (simp add: iter3_advance.simps [of bb s] Let_def)
    have "flat_iter bb (iter3_advance bb ?s) = iter2_advance (flat3 bb) (flat_iter bb ?s)
       \<and> it3_iy (iter3_advance bb ?s) < map_y3 bb"
      using 1(1) [OF c [symmetric] refl _ refl refl] w0 iy by simp
    with step a False show ?thesis by simp
  qed
qed

text \<open>The cell of the flattened board at which a three-dimensional cell stands.\<close>

definition flat_cell :: "bitboard3d \<Rightarrow> nat \<times> nat \<times> nat \<Rightarrow> nat \<times> nat" where
  "flat_cell bb = (\<lambda>(x, y, t). (x, t * map_y3 bb + y))"

lemma iter3_next_flat:
  assumes "it3_iy s < map_y3 bb"
  shows "iter2_next (flat3 bb) (flat_iter bb s) =
      (case iter3_next bb s of (r, s') \<Rightarrow> (map_option (flat_cell bb) r, flat_iter bb s'))
    \<and> it3_iy (snd (iter3_next bb s)) < map_y3 bb
    \<and> (\<forall>p s'. iter3_next bb s = (Some p, s') \<longrightarrow> fst (snd p) < map_y3 bb)"
  using assms
proof (induction bb s rule: iter3_next.induct)
  case (1 bb s)
  have sel: "it_word (flat_iter bb s) = it3_word s" "it_wi (flat_iter bb s) = it3_wi s"
    "it_iy (flat_iter bb s) = it3_it s * map_y3 bb + it3_iy s" for s by (simp_all add: flat_iter_def)
  show ?case
  proof (cases "it3_word s = 0")
    case True
    show ?thesis
    proof (cases "n_theta3 bb \<le> it3_it s")
      case past: True
      with True flat_iter_end [OF 1(3)] 1(3) show ?thesis
        by (simp add: iter3_next.simps [of bb s] iter2_next.simps [of _ "flat_iter bb s"] sel(1))
    next
      case False
      let ?t = "iter3_advance bb s"
      have t: "flat_iter bb ?t = iter2_advance (flat3 bb) (flat_iter bb s)" "it3_iy ?t < map_y3 bb"
        using iter3_advance_flat [OF 1(3)] False by simp_all
      show ?thesis
      proof (cases "n_theta3 bb \<le> it3_it ?t")
        case True
        with \<open>it3_word s = 0\<close> False flat_iter_end [OF 1(3)] flat_iter_end [OF t(2)] t show ?thesis
          by (simp add: iter3_next.simps [of bb s] iter2_next.simps [of _ "flat_iter bb s"] sel(1) Let_def)
      next
        case go: False
        with \<open>it3_word s = 0\<close> False flat_iter_end [OF 1(3)] flat_iter_end [OF t(2)] t
          1(1) [OF True False refl go t(2)] show ?thesis
          by (simp add: iter3_next.simps [of bb s] iter2_next.simps [of _ "flat_iter bb s"] sel(1) Let_def)
      qed
    qed
  next
    case False
    let ?t = "s\<lparr>it3_word := clear_low (it3_word s)\<rparr>"
    have t: "flat_iter bb s\<lparr>it_word := clear_low (it3_word s)\<rparr> = flat_iter bb ?t" by (simp add: flat_iter_def)
    show ?thesis
    proof (cases "it3_wi s * 64 + trailing_zeros (it3_word s) < map_x3 bb")
      case True
      with False 1(3) t show ?thesis
        by (simp add: iter3_next.simps [of bb s] iter2_next.simps [of _ "flat_iter bb s"] sel Let_def flat_cell_def)
    next
      case skip: False
      with False t 1(2) [OF False refl refl refl skip] 1(3) show ?thesis
        by (simp add: iter3_next.simps [of bb s] iter2_next.simps [of _ "flat_iter bb s"] sel(1,2) Let_def)
    qed
  qed
qed

lemma iter3_collect_flat:
  assumes "it3_iy s < map_y3 bb"
  shows "map (flat_cell bb) (iter3_collect bb s) = iter2_collect (flat3 bb) (flat_iter bb s)
    \<and> (\<forall>p\<in>set (iter3_collect bb s). fst (snd p) < map_y3 bb)"
  using assms
proof (induction bb s rule: iter3_collect.induct)
  case (1 bb s)
  obtain r s' where n: "iter3_next bb s = (r, s')" by fastforce
  with iter3_next_flat [OF 1(2)] 1(1) [OF n [symmetric]] show ?case
    by (cases r) (auto simp: iter3_collect.simps [of bb s] iter2_collect.simps [of _ "flat_iter bb s"])
qed

lemma enumerate3_flat:
  assumes "0 < map_y3 bb"
  shows "map (flat_cell bb) (enumerate3 bb) = enumerate2 (flat3 bb)"
    and "p \<in> set (enumerate3 bb) \<Longrightarrow> fst (snd p) < map_y3 bb"
proof -
  have s: "it3_iy (iter3_new bb) < map_y3 bb" "flat_iter bb (iter3_new bb) = iter2_new (flat3 bb)"
    using assms by (simp_all add: iter3_new_def iter2_new_def flat_iter_def)
  from iter3_collect_flat [OF s(1)] s(2)
  show "map (flat_cell bb) (enumerate3 bb) = enumerate2 (flat3 bb)"
    "p \<in> set (enumerate3 bb) \<Longrightarrow> fst (snd p) < map_y3 bb"
    by (auto simp: enumerate3_def enumerate2_def)
qed

lemma set_enumerate3:
  assumes wf: "wf3 bb" and pos: "0 < wpr3 bb" "0 < map_y3 bb"
  shows "set (enumerate3 bb) = cells3 bb"
proof -
  have flat: "flat_cell bb ` set (enumerate3 bb) = cells2 (flat3 bb)"
    using set_enumerate2 [of "flat3 bb"] wf pos enumerate3_flat(1) [OF pos(2)]
    by (metis flat3_sel(4) set_map wf3_flat)
  have inj: "flat_cell bb p = flat_cell bb q \<Longrightarrow> fst (snd p) < map_y3 bb \<Longrightarrow> fst (snd q) < map_y3 bb \<Longrightarrow> p = q" for p q
    by (auto simp: flat_cell_def row_major_eq split: prod.splits)
  show ?thesis
  proof (intro set_eqI iffI)
    fix p assume p: "p \<in> set (enumerate3 bb)"
    obtain x y t where xyt: "p = (x, y, t)" by (cases p)
    with enumerate3_flat(2) [OF pos(2) p] have y: "y < map_y3 bb" by simp
    have c: "(x, t * map_y3 bb + y) \<in> cells2 (flat3 bb)" using imageI [OF p, of "flat_cell bb"] flat xyt by (simp add: flat_cell_def)
    then have "t * map_y3 bb + y < n_theta3 bb * map_y3 bb" by (simp add: cells2_def)
    then have "t < n_theta3 bb" by (metis add_lessD1 mult_less_cancel2)
    with c y xyt show "p \<in> cells3 bb" by (simp add: cells3_flat)
  next
    fix p assume p: "p \<in> cells3 bb"
    then have y: "fst (snd p) < map_y3 bb" and "flat_cell bb p \<in> cells2 (flat3 bb)"
      by (auto simp: cells3_flat flat_cell_def cells3_def test3_flat cells2_def row_major_less)
    then obtain q where q: "q \<in> set (enumerate3 bb)" "flat_cell bb p = flat_cell bb q"
      unfolding flat [symmetric] by blast
    with inj [OF q(2) y enumerate3_flat(2) [OF pos(2) q(1)]] show "p \<in> set (enumerate3 bb)" by simp
  qed
qed

lemma enumerate3_distinct:
  assumes "0 < wpr3 bb" "0 < map_y3 bb"
  shows "distinct (enumerate3 bb)"
  using enumerate2_distinct [of "flat3 bb"] enumerate3_flat(1) [OF assms(2)] assms
  by (metis distinct_map flat3_sel(4))

lemma enumerate3_sorted:
  assumes "0 < wpr3 bb" "0 < map_y3 bb"
  shows "sorted_wrt (\<lambda>p q. row_major_lt (flat_cell bb p) (flat_cell bb q)) (enumerate3 bb)"
  using enumerate2_sorted [of "flat3 bb"] enumerate3_flat(1) [OF assms(2)] assms
  by (metis flat3_sel(4) sorted_wrt_map)

lemma wpr3_pos: "wf3 bb \<Longrightarrow> 0 < map_x3 bb \<Longrightarrow> 0 < wpr3 bb"
  using wpr2_pos [of "flat3 bb"] by (simp add: wf3_flat)

section \<open>Enumeration\<close>

text \<open>C18: draining \<open>Bitboard2D::enumerate\<close> terminates and yields exactly the set cells, each once, row by
  row and by increasing column within a row.\<close>

theorem enumerate2_exact:
  assumes "wf2 bb" and "0 < map_x2 bb"
  shows "set (enumerate2 bb) = cells2 bb \<and> distinct (enumerate2 bb) \<and> sorted_wrt row_major_lt (enumerate2 bb)"
  using wpr2_pos [OF assms] assms(1) by (simp add: set_enumerate2 enumerate2_distinct enumerate2_sorted)

theorem enumerate2_exact_witness:
  "set (enumerate2 (set2 (set2 (new2 70 2) 65 1) 3 0)) = {(3, 0), (65, 1)}"
proof -
  have wf: "wf2 (set2 (new2 70 2) 65 1)" by (rule wf2_set [OF wf2_new]) simp_all
  have "cells2 (set2 (new2 70 2) 65 1) = {(65, 1)}"
    by (subst cells2_set [OF wf2_new]) (simp_all)
  then have "cells2 (set2 (set2 (new2 70 2) 65 1) 3 0) = {(3, 0), (65, 1)}"
    by (subst cells2_set [OF wf]) simp_all
  moreover have "wf2 (set2 (set2 (new2 70 2) 65 1) 3 0)" by (rule wf2_set [OF wf]) simp_all
  ultimately show ?thesis using enumerate2_exact [of "set2 (set2 (new2 70 2) 65 1) 3 0"] by simp
qed

text \<open>The three-dimensional iterator yields exactly the set cells, each once, layer by layer.\<close>

theorem enumerate3_exact:
  assumes "wf3 bb" and "0 < map_x3 bb" and "0 < map_y3 bb"
  shows "set (enumerate3 bb) = cells3 bb \<and> distinct (enumerate3 bb) \<and>
    sorted_wrt (\<lambda>p q. row_major_lt (flat_cell bb p) (flat_cell bb q)) (enumerate3 bb)"
  using wpr3_pos [OF assms(1,2)] assms by (simp add: set_enumerate3 enumerate3_distinct enumerate3_sorted)

theorem enumerate3_exact_witness:
  "set (enumerate3 (set3 (new3 3 2 4) 1 1 3)) = {(1, 1, 3)}"
proof -
  have "wf3 (set3 (new3 3 2 4) 1 1 3)" by (rule wf3_set [OF wf3_new]) simp_all
  moreover have "cells3 (set3 (new3 3 2 4) 1 1 3) = {(1, 1, 3)}"
    by (subst cells3_set [OF wf3_new]) (simp_all)
  ultimately show ?thesis using enumerate3_exact [of "set3 (new3 3 2 4) 1 1 3"] by simp
qed

end
