(* ===== verification/ActiveSet.thy ===== *)
theory ActiveSet
  imports Bellman BitIter
begin

text \<open>
  What the active-set solvers share (\<^verbatim>\<open>solvers/mod.rs\<close>, \<^verbatim>\<open>solvers/observe.rs\<close>): the dilation
  displacement, the seed frontiers, the boundary observer with its pacer, and the round loop of the
  in-place frontier solvers. The locale \<open>frontier_solver\<close> states what a round has to do for
  the loop to be right, and proves the loop's theorems once; the solver theories interpret it on
  their own rounds.
\<close>

section \<open>Observing a solve\<close>

datatype solve_flow = Continue | Stop | Cancel

record solve_outcome =
  o_iters :: nat
  o_updates :: u64
  o_converged :: bool
  o_stopped :: bool
  o_cancelled :: bool

definition outcome_running :: "nat \<Rightarrow> u64 \<Rightarrow> bool \<Rightarrow> solve_outcome" where
  "outcome_running i u c = \<lparr>o_iters = i, o_updates = u, o_converged = c, o_stopped = False, o_cancelled = False\<rparr>"

definition outcome_stopped :: "nat \<Rightarrow> u64 \<Rightarrow> solve_outcome" where
  "outcome_stopped i u = \<lparr>o_iters = i, o_updates = u, o_converged = False, o_stopped = True, o_cancelled = False\<rparr>"

definition outcome_cancelled :: "nat \<Rightarrow> u64 \<Rightarrow> solve_outcome" where
  "outcome_cancelled i u = \<lparr>o_iters = i, o_updates = u, o_converged = False, o_stopped = False, o_cancelled = True\<rparr>"

text \<open>A probe shows the observer the field and the progress counters. The observer's own state has
  type \<open>'o\<close>; \<open>interval\<close> is a \<open>u32\<close>.\<close>

record solve_probe =
  pr_vi :: value_iterator
  pr_iters :: nat
  pr_updates :: u64

record 'o solve_observer =
  interval :: nat
  boundary :: "'o \<Rightarrow> solve_probe \<Rightarrow> solve_flow \<times> 'o"

definition null_observer :: "unit solve_observer" where
  "null_observer = \<lparr>interval = 2 ^ 32 - 1, boundary = (\<lambda>o' p. (Continue, o'))\<rparr>"

record boundary_pacer =
  bp_next :: nat
  bp_interval :: nat

definition pacer_new :: "'o solve_observer \<Rightarrow> boundary_pacer" where
  "pacer_new obs = (let i = max (interval obs) 1 in \<lparr>bp_next = i, bp_interval = i\<rparr>)"

text \<open>\<open>saturating_add\<close> on \<open>u64\<close>.\<close>

definition pacer_due :: "nat \<Rightarrow> boundary_pacer \<Rightarrow> bool \<times> boundary_pacer" where
  "pacer_due iters p =
     (if bp_next p \<le> iters then (True, p\<lparr>bp_next := min (2 ^ 64 - 1) (iters + bp_interval p)\<rparr>) else (False, p))"

text \<open>The wrapper a multi-phase solver passes to its later phases.\<close>

definition offset_observer :: "nat \<Rightarrow> u64 \<Rightarrow> 'o solve_observer \<Rightarrow> 'o solve_observer" where
  "offset_observer i u obs = obs\<lparr>boundary := (\<lambda>o' p. boundary obs o' (p\<lparr>
      pr_iters := min (2 ^ 32 - 1) (pr_iters p + i),
      pr_updates := of_nat (min (2 ^ 64 - 1) (unat (pr_updates p) + unat u))\<rparr>))\<rparr>"

text \<open>The end of a round: if the pacer is due, the observer decides.\<close>

definition at_boundary ::
  "'o solve_observer \<Rightarrow> bool \<Rightarrow> value_iterator \<Rightarrow> nat \<Rightarrow> u64 \<Rightarrow> boundary_pacer \<times> 'o \<Rightarrow> solve_flow \<times> boundary_pacer \<times> 'o" where
  "at_boundary obs active vi iters updates = (\<lambda>(pacer, o').
     if active then
       (case pacer_due iters pacer of
          (True, pacer') \<Rightarrow> (case boundary obs o' \<lparr>pr_vi = vi, pr_iters = iters, pr_updates = updates\<rparr> of
             (flow, o'') \<Rightarrow> (flow, pacer', o''))
        | (False, pacer') \<Rightarrow> (Continue, pacer', o'))
     else (Continue, pacer, o'))"

section \<open>Displacement and seeds\<close>

definition disp_step :: "i32 \<Rightarrow> nat \<Rightarrow> state_transition \<Rightarrow> i32 \<times> i32 \<times> i32 \<Rightarrow> i32 \<times> i32 \<times> i32" where
  "disp_step nt t st = (\<lambda>(mx, my, mt).
     let mx = max mx \<bar>dix st\<bar>;
         my = max my \<bar>diy st\<bar>;
         raw = wrap32 (dit st - int t) mod nt;
         circ = min raw (nt - raw)
     in (mx, my, max mt circ))"

definition displacement :: "value_iterator \<Rightarrow> i32 \<times> i32 \<times> i32" where
  "displacement vi =
     (case fold (\<lambda>a. fold (\<lambda>(t, trans). fold (disp_step (cell_num_t vi) t) trans)
          (List.enumerate 0 (state_transitions a))) (actions vi) (0, 0, 0) of
        (mx, my, mt) \<Rightarrow> (max mx 1, max my 1, mt))"

definition seed_frontier :: "value_iterator \<Rightarrow> bitboard3d" where
  "seed_frontier vi =
     fold (\<lambda>s bb. if total_cost s < MAX_COST then set3 bb (nat (st_ix s)) (nat (st_iy s)) (nat (st_it s)) else bb)
       (states vi) (new3 (nat (cell_num_x vi)) (nat (cell_num_y vi)) (nat (cell_num_t vi)))"

definition seed_frontier_2d :: "value_iterator \<Rightarrow> bitboard2d" where
  "seed_frontier_2d vi =
     fold (\<lambda>s bb. if total_cost s < MAX_COST then set2 bb (nat (st_ix s)) (nat (st_iy s)) else bb)
       (states vi) (new2 (nat (cell_num_x vi)) (nat (cell_num_y vi)))"

section \<open>The round loop\<close>

text \<open>The loop that \<^verbatim>\<open>frontier2d.rs\<close>, \<^verbatim>\<open>frontier3d.rs\<close> and \<^verbatim>\<open>stack.rs\<close> share: while the frontier is
  not empty and the budget lasts, one round, then the boundary. A round that panics is \<open>None\<close>.\<close>

function frontier_loop ::
  "(value_iterator \<Rightarrow> 'f \<Rightarrow> (value_iterator \<times> 'f \<times> u64) option) \<Rightarrow> ('f \<Rightarrow> nat) \<Rightarrow> nat \<Rightarrow> 'o solve_observer
     \<Rightarrow> value_iterator \<Rightarrow> 'f \<Rightarrow> nat \<Rightarrow> u64 \<Rightarrow> boundary_pacer \<times> 'o \<Rightarrow> (value_iterator \<times> solve_outcome \<times> 'o) option" where
  "frontier_loop rnd pop max_iter obs vi frontier iters updates po =
     (if 0 < pop frontier \<and> iters < max_iter then
        (case rnd vi frontier of
           None \<Rightarrow> None
         | Some (vi', frontier', u) \<Rightarrow>
             let iters' = iters + 1; updates' = updates + u in
             (case at_boundary obs (0 < pop frontier') vi' iters' updates' po of
                (Continue, po') \<Rightarrow> frontier_loop rnd pop max_iter obs vi' frontier' iters' updates' po'
              | (Stop, _, o') \<Rightarrow> Some (vi', outcome_stopped iters' updates', o')
              | (Cancel, _, o') \<Rightarrow> Some (vi', outcome_cancelled iters' updates', o')))
      else Some (vi, outcome_running iters updates (pop frontier = 0), snd po))"
  by pat_completeness auto
termination
  by (relation "measure (\<lambda>(rnd, pop, m, obs, vi, f, i, u, po). m - i)") auto

declare frontier_loop.simps [simp del]

lemma frontier_loop_done:
  "\<not> (0 < pop f \<and> i < m) \<Longrightarrow>
   frontier_loop rnd pop m obs vi f i u po = Some (vi, outcome_running i u (pop f = 0), snd po)"
  by (subst frontier_loop.simps) (simp only: if_False)

lemma frontier_loop_panic:
  "0 < pop f \<and> i < m \<Longrightarrow> rnd vi f = None \<Longrightarrow> frontier_loop rnd pop m obs vi f i u po = None"
  by (subst frontier_loop.simps) simp

lemma frontier_loop_step:
  assumes "0 < pop f \<and> i < m" "rnd vi f = Some (vi1, f1, u1)"
    and "at_boundary obs (0 < pop f1) vi1 (i + 1) (u + u1) po = (fl, po1)"
  shows "frontier_loop rnd pop m obs vi f i u po =
    (case fl of Continue \<Rightarrow> frontier_loop rnd pop m obs vi1 f1 (i + 1) (u + u1) po1
     | Stop \<Rightarrow> Some (vi1, outcome_stopped (i + 1) (u + u1), snd po1)
     | Cancel \<Rightarrow> Some (vi1, outcome_cancelled (i + 1) (u + u1), snd po1))"
  using assms by (subst frontier_loop.simps) (cases fl; cases po1; simp)

lemma frontier_loop_cases:
  obtains (finish) "\<not> (0 < pop f \<and> i < m)"
  | (panic) "0 < pop f \<and> i < m" "rnd vi f = None"
  | (step) vi1 f1 u1 fl po1 where "0 < pop f \<and> i < m" "rnd vi f = Some (vi1, f1, u1)"
      "at_boundary obs (0 < pop f1) vi1 (i + 1) (u + u1) po = (fl, po1)"
proof (cases "0 < pop f \<and> i < m")
  case True
  show thesis
  proof (cases "rnd vi f")
    case (Some r)
    obtain vi1 f1 u1 where r: "r = (vi1, f1, u1)" by (rule prod_cases3)
    obtain fl po1 where "at_boundary obs (0 < pop f1) vi1 (i + 1) (u + u1) po = (fl, po1)" by (rule prod.exhaust)
    with True Some r show thesis by (intro step) simp_all
  qed (use True panic in blast)
qed (rule finish)

section \<open>The displacement covers every predecessor\<close>

definition le3 :: "i32 \<times> i32 \<times> i32 \<Rightarrow> i32 \<times> i32 \<times> i32 \<Rightarrow> bool" where
  "le3 = (\<lambda>(a, b, c) (a', b', c'). a \<le> a' \<and> b \<le> b' \<and> c \<le> c')"

definition tr_disp :: "i32 \<Rightarrow> nat \<Rightarrow> state_transition \<Rightarrow> i32 \<times> i32 \<times> i32" where
  "tr_disp nt t st = (let raw = wrap32 (dit st - int t) mod nt in (\<bar>dix st\<bar>, \<bar>diy st\<bar>, min raw (nt - raw)))"

lemma le3_refl [simp]: "le3 p p"
  by (simp add: le3_def split: prod.splits)

lemma le3_trans: "le3 p q \<Longrightarrow> le3 q r \<Longrightarrow> le3 p r"
  by (force simp: le3_def split: prod.splits)

text \<open>A fold whose body only grows the accumulator bounds every element it has seen.\<close>

lemma fold_grows:
  assumes "\<And>x p. x \<in> set xs \<Longrightarrow> le3 p (f x p)"
  shows "le3 p (fold f xs p)"
  using assms
proof (induction xs arbitrary: p)
  case (Cons x xs)
  have "le3 p (f x p)" by (rule Cons.prems) simp
  moreover have "le3 (f x p) (fold f xs (f x p))" by (rule Cons.IH) (rule Cons.prems, simp)
  ultimately show ?case by (simp add: le3_trans)
qed simp

lemma fold_bounds:
  assumes "\<And>x p. x \<in> set xs \<Longrightarrow> le3 p (f x p)" and "\<And>p. le3 q (f x p)" and "x \<in> set xs"
  shows "le3 q (fold f xs p)"
  using assms
proof (induction xs arbitrary: p)
  case (Cons y ys)
  show ?case
  proof (cases "x = y")
    case True
    have "le3 (f y p) (fold f ys (f y p))" using Cons.prems(1) by (intro fold_grows) simp
    then show ?thesis using True Cons.prems(2) [of p] le3_trans by simp
  next
    case False
    then show ?thesis using Cons by simp
  qed
qed simp

lemma displacement_bounds:
  assumes "a \<in> set (actions vi)" "t < length (state_transitions a)" "st \<in> set (state_transitions a ! t)"
    and "displacement vi = (mx, my, mt)"
  shows "le3 (tr_disp (cell_num_t vi) t st) (mx, my, mt)" "1 \<le> mx" "1 \<le> my"
proof -
  let ?nt = "cell_num_t vi"
  let ?inner = "\<lambda>t trans. fold (disp_step ?nt t) trans"
  let ?mid = "\<lambda>a. fold (\<lambda>(t, trans). ?inner t trans) (List.enumerate 0 (state_transitions a))"
  have step: "le3 p (disp_step ?nt t st p)" "le3 (tr_disp ?nt t st) (disp_step ?nt t st p)" for t st p
    by (simp_all add: le3_def disp_step_def tr_disp_def Let_def split: prod.splits)
  have inner: "le3 p (?inner t trans p)" for t trans p by (rule fold_grows) (rule step)
  have mid: "le3 p (?mid a p)" for a p
    by (rule fold_grows) (auto split: prod.splits intro: inner)
  have "le3 (tr_disp ?nt t st) (?inner t (state_transitions a ! t) p)" for p
    using assms(3) by (intro fold_bounds [where x = st]) (simp_all add: step)
  moreover have "(t, state_transitions a ! t) \<in> set (List.enumerate 0 (state_transitions a))"
    using assms(2) by (auto simp: in_set_enumerate_eq)
  ultimately have "le3 (tr_disp ?nt t st) (?mid a p)" for p
    by (intro fold_bounds [where x = "(t, state_transitions a ! t)"]) (auto split: prod.splits intro: inner)
  then have "le3 (tr_disp ?nt t st) (fold ?mid (actions vi) (0, 0, 0))"
    using assms(1) mid by (intro fold_bounds [where x = a]) simp_all
  moreover have "displacement vi = (case fold ?mid (actions vi) (0, 0, 0) of (mx, my, mt) \<Rightarrow> (max mx 1, max my 1, mt))"
    by (simp add: displacement_def)
  ultimately show "le3 (tr_disp ?nt t st) (mx, my, mt)" "1 \<le> mx" "1 \<le> my"
    using assms(4) by (auto simp: le3_def split: prod.splits)
qed

lemma circ_dist_raw:
  assumes "0 < nt" "t < nt"
  shows "int (circ_dist nt t (nat (d mod int nt))) = min ((d - int t) mod int nt) (int nt - (d - int t) mod int nt)"
proof -
  define t' where "t' = nat (d mod int nt)"
  define r where "r = (if t \<le> t' then t' - t else t' + nt - t)"
  have pos: "0 \<le> d mod int nt" "d mod int nt < int nt" using assms(1) by (simp_all only: pos_mod_sign pos_mod_bound of_nat_0_less_iff)
  have e: "int t' = d mod int nt" unfolding t'_def by (rule nat_0_le) (rule pos)
  have t': "t' < nt" using pos(2) e by linarith
  have r: "r < nt" "r = 0 \<longleftrightarrow> t = t'" using assms t' by (auto simp: r_def)
  have "int r = int t' - int t \<or> int r = int t' - int t + int nt" using assms(2) by (auto simp: r_def)
  then have "int r mod int nt = (int t' - int t) mod int nt" by (metis mod_add_self2)
  also have "\<dots> = (d - int t) mod int nt" by (simp only: e mod_diff_left_eq)
  finally have raw: "(d - int t) mod int nt = int r" using r(1) by (metis mod_less zmod_int)
  have "(t + nt - t') mod nt = (if r = 0 then 0 else nt - r)"
  proof (cases "t' \<le> t")
    case True
    then have "t + nt - t' = (t - t') + nt" by simp
    then have "(t + nt - t') mod nt = (t - t') mod nt" by (metis mod_add_self2)
    also have "\<dots> = t - t'" using assms by (intro mod_less) simp
    finally show ?thesis using True assms r(2) by (auto simp: r_def)
  next
    case False
    then have "(t + nt - t') mod nt = t + nt - t'" using t' by (intro mod_less) linarith
    then show ?thesis using False r(2) by (auto simp: r_def)
  qed
  then have "circ_dist nt t t' = min r (nt - r)" using r(1) by (auto simp: circ_dist_def Let_def)
  then show ?thesis using r(1) unfolding raw t'_def [symmetric] by (simp add: min_def of_nat_diff) linarith
qed

text \<open>\<open>displacement\<close> bounds how far a cell lies from each of its successors.\<close>

lemma displacement_covers:
  assumes wf: "wf_vi vi" and c: "in_map vi (x, y, t)" and s: "(x', y', t') \<in> succs vi (x, y, t)"
    and d: "displacement vi = (mx, my, mt)"
  shows "x' \<le> x + nat mx" "x \<le> x' + nat mx" "y' \<le> y + nat my" "y \<le> y' + nat my"
    "circ_dist (dim_t vi) t t' \<le> nat mt"
proof -
  from s obtain a tr where a: "a \<in> set (actions vi)" and tr: "tr \<in> set (state_transitions a ! t)"
    and sc: "succ_cell vi tr (x, y, t) = Some (x', y', t')" by (auto simp: succs_def action_succs_def)
  have t: "t < dim_t vi" using c by simp
  then have len: "t < length (state_transitions a)" using wf a by (simp add: wf_vi_def list_all_iff wf_action_def)
  note b = displacement_bounds [OF a len tr d]
  have x: "int x' = int x + dix tr" "int y' = int y + diy tr" "t' = nat (dit tr mod cell_num_t vi)"
    using sc by (auto simp: succ_cell_def Let_def split: if_splits)
  have "\<bar>dix tr\<bar> \<le> mx" "\<bar>diy tr\<bar> \<le> my" using b(1) by (simp_all add: le3_def tr_disp_def Let_def)
  with x show "x' \<le> x + nat mx" "x \<le> x' + nat mx" "y' \<le> y + nat my" "y \<le> y' + nat my" by linarith+
  have tr': "wf_transition vi tr" by (rule wf_vi_transition [OF wf a t tr])
  have nt: "int (dim_t vi) = cell_num_t vi" by (rule int_dims [OF wf])
  have "wrap32 (dit tr - int t) = dit tr - int t"
    using tr' t nt wf by (intro wrap32_small) (auto simp: wf_transition_def wf_vi_def)
  then have "int (circ_dist (dim_t vi) t t') \<le> mt"
    using circ_dist_raw [OF wf_dims_pos(3) [OF wf] t, of "dit tr"] b(1) x(3) nt
    by (simp add: le3_def tr_disp_def Let_def)
  then show "circ_dist (dim_t vi) t t' \<le> nat mt" by linarith
qed

lemma displacement_frame: "same_frame vi vi' \<Longrightarrow> displacement vi' = displacement vi"
  by (simp add: displacement_def same_frame_sel)

section \<open>Seeds\<close>

lemma state_list_cells:
  assumes "wf_vi vi"
  shows "s \<in> set (states vi) \<longleftrightarrow> (\<exists>c. in_map vi c \<and> s = state_at vi c)"
proof
  assume "s \<in> set (states vi)"
  then obtain i where i: "i < length (states vi)" "s = states vi ! i" by (auto simp: in_set_conv_nth)
  then have "i < dim_x vi * dim_y vi * dim_t vi" using assms by (simp add: wf_vi_def)
  then obtain c where "in_map vi c" "cidx vi c = i" by (rule cidx_surj)
  with i show "\<exists>c. in_map vi c \<and> s = state_at vi c" by (intro exI [of _ c]) (simp add: state_at_def)
next
  assume "\<exists>c. in_map vi c \<and> s = state_at vi c"
  then obtain c where c: "in_map vi c" "s = state_at vi c" by blast
  have "cidx vi c < length (states vi)" using cidx_less [OF c(1)] assms by (simp add: wf_vi_def)
  then show "s \<in> set (states vi)" using c(2) by (simp add: state_at_def)
qed

definition coords :: "state \<Rightarrow> cell" where
  "coords s = (nat (st_ix s), nat (st_iy s), nat (st_it s))"

lemma coords_state_at: "wf_vi vi \<Longrightarrow> in_map vi c \<Longrightarrow> coords (state_at vi c) = c"
  by (cases c) (simp add: coords_def wf_vi_state_at)

lemma seed3_fold:
  assumes "wf3 bb" "map_x3 bb = nx" "map_y3 bb = ny" "n_theta3 bb = nt"
    and "\<forall>s\<in>set ss. coords s \<in> {(x, y, t). x < nx \<and> y < ny \<and> t < nt}"
  shows "let bb' = fold (\<lambda>s bb. if P s then set3 bb (nat (st_ix s)) (nat (st_iy s)) (nat (st_it s)) else bb) ss bb
    in wf3 bb' \<and> map_x3 bb' = nx \<and> map_y3 bb' = ny \<and> n_theta3 bb' = nt \<and> cells3 bb' = cells3 bb \<union> coords ` {s\<in>set ss. P s}"
  using assms
proof (induction ss arbitrary: bb)
  case (Cons s ss)
  let ?bb = "if P s then set3 bb (nat (st_ix s)) (nat (st_iy s)) (nat (st_it s)) else bb"
  have r: "nat (st_ix s) < nx" "nat (st_iy s) < ny" "nat (st_it s) < nt"
    using Cons.prems(5) by (simp_all add: coords_def)
  have "wf3 ?bb" "map_x3 ?bb = nx" "map_y3 ?bb = ny" "n_theta3 ?bb = nt"
    using Cons.prems r by (simp_all add: wf3_set)
  moreover have "cells3 ?bb = cells3 bb \<union> coords ` {s'\<in>{s}. P s'}"
    using Cons.prems r by (auto simp: cells3_set coords_def)
  ultimately show ?case using Cons.IH [of ?bb] Cons.prems(5) by (auto simp: Let_def)
qed simp

lemma seed2_fold:
  assumes "wf2 bb" "map_x2 bb = nx" "map_y2 bb = ny"
    and "\<forall>s\<in>set ss. nat (st_ix s) < nx \<and> nat (st_iy s) < ny"
  shows "let bb' = fold (\<lambda>s bb. if P s then set2 bb (nat (st_ix s)) (nat (st_iy s)) else bb) ss bb
    in wf2 bb' \<and> map_x2 bb' = nx \<and> map_y2 bb' = ny \<and>
       cells2 bb' = cells2 bb \<union> (\<lambda>s. (nat (st_ix s), nat (st_iy s))) ` {s\<in>set ss. P s}"
  using assms
proof (induction ss arbitrary: bb)
  case (Cons s ss)
  let ?bb = "if P s then set2 bb (nat (st_ix s)) (nat (st_iy s)) else bb"
  have r: "nat (st_ix s) < nx" "nat (st_iy s) < ny" using Cons.prems(4) by simp_all
  have "wf2 ?bb" "map_x2 ?bb = nx" "map_y2 ?bb = ny" using Cons.prems r by (simp_all add: wf2_set)
  moreover have "cells2 ?bb = cells2 bb \<union> (\<lambda>s. (nat (st_ix s), nat (st_iy s))) ` {s'\<in>{s}. P s'}"
    using Cons.prems r by (auto simp: cells2_set)
  ultimately show ?case using Cons.IH [of ?bb] Cons.prems(4) by (auto simp: Let_def)
qed simp

definition seeds :: "value_iterator \<Rightarrow> cell set" where
  "seeds vi = {c. in_map vi c \<and> total_cost (state_at vi c) < MAX_COST}"

lemma coords_in_map:
  assumes "wf_vi vi" "s \<in> set (states vi)"
  shows "in_map vi (coords s)"
  using assms coords_state_at [OF assms(1)] by (auto simp: state_list_cells [OF assms(1)])

lemma seeds_coords: "wf_vi vi \<Longrightarrow> seeds vi = coords ` {s\<in>set (states vi). total_cost s < MAX_COST}"
  by (auto simp: seeds_def state_list_cells coords_state_at image_iff simp del: in_map.simps)
     (metis coords_state_at)

lemma seed_frontier_spec:
  assumes "wf_vi vi"
  shows "wf3 (seed_frontier vi)" "map_x3 (seed_frontier vi) = dim_x vi" "map_y3 (seed_frontier vi) = dim_y vi"
    "n_theta3 (seed_frontier vi) = dim_t vi" "cells3 (seed_frontier vi) = seeds vi"
proof -
  have d: "map_x3 (new3 (dim_x vi) (dim_y vi) (dim_t vi)) = dim_x vi"
    "map_y3 (new3 (dim_x vi) (dim_y vi) (dim_t vi)) = dim_y vi"
    "n_theta3 (new3 (dim_x vi) (dim_y vi) (dim_t vi)) = dim_t vi"
    by (simp_all add: new3_def Let_def)
  have "\<forall>s\<in>set (states vi). coords s \<in> {(x, y, t). x < dim_x vi \<and> y < dim_y vi \<and> t < dim_t vi}"
    using coords_in_map [OF assms] by fastforce
  from seed3_fold [OF wf3_new d this, of "\<lambda>s. total_cost s < MAX_COST"]
  show "wf3 (seed_frontier vi)" "map_x3 (seed_frontier vi) = dim_x vi" "map_y3 (seed_frontier vi) = dim_y vi"
    "n_theta3 (seed_frontier vi) = dim_t vi" "cells3 (seed_frontier vi) = seeds vi"
    using seeds_coords [OF assms] by (simp_all add: seed_frontier_def dim_x_def dim_y_def dim_t_def Let_def)
qed

lemma seed_frontier_2d_spec:
  assumes "wf_vi vi"
  shows "wf2 (seed_frontier_2d vi)" "map_x2 (seed_frontier_2d vi) = dim_x vi" "map_y2 (seed_frontier_2d vi) = dim_y vi"
    "cells2 (seed_frontier_2d vi) = (\<lambda>(x, y, t). (x, y)) ` seeds vi"
proof -
  have d: "map_x2 (new2 (dim_x vi) (dim_y vi)) = dim_x vi" "map_y2 (new2 (dim_x vi) (dim_y vi)) = dim_y vi"
    by (simp_all add: new2_def Let_def)
  have "\<forall>s\<in>set (states vi). nat (st_ix s) < dim_x vi \<and> nat (st_iy s) < dim_y vi"
    using coords_in_map [OF assms] by (fastforce simp: coords_def)
  from seed2_fold [OF wf2_new d this, of "\<lambda>s. total_cost s < MAX_COST"]
  show "wf2 (seed_frontier_2d vi)" "map_x2 (seed_frontier_2d vi) = dim_x vi" "map_y2 (seed_frontier_2d vi) = dim_y vi"
    "cells2 (seed_frontier_2d vi) = (\<lambda>(x, y, t). (x, y)) ` seeds vi"
    unfolding seeds_coords [OF assms] by (simp_all add: seed_frontier_2d_def dim_x_def dim_y_def Let_def image_image coords_def)
qed

text \<open>Before the first round only cells next to a seed can be inconsistent: every other cell has
  no successor with a value.\<close>

lemma seeds_consistent:
  assumes "wf_vi vi" "seeds vi \<subseteq> M"
  shows "consistent_but vi (affected vi M)"
  unfolding consistent_but_def
proof (intro allI impI)
  fix c assume c: "in_map vi c"
  show "settled vi c \<or> unreached vi c \<or> c \<in> affected vi M"
  proof (cases "succs vi c \<inter> M = {}")
    case True
    then have "MAX_COST \<le> total_cost (state_at vi c')" if "c' \<in> succs vi c" for c'
      using that assms succs_in_map [OF assms(1) that] by (force simp: seeds_def not_less simp del: in_map.simps)
    then show ?thesis by (simp add: unreached_def)
  next
    case False
    then show ?thesis using c by (auto simp: affected_def)
  qed
qed

lemma occupied_settled: "\<not> free (state_at vi c) \<Longrightarrow> settled vi c"
  by (simp add: settled_def bellman_update_def min_action_cost_def state_at_def)

section \<open>The interface of a round\<close>

text \<open>\<open>marks\<close> is the set of cells a frontier stands for, \<open>ok\<close> that its boards fit the map and
  \<open>fits\<close> that the displacement is small enough for the word-parallel dilation. A round updates
  some list of cells that contains every free cell affected by the frontier, and its new frontier
  marks every cell that changed.\<close>

locale frontier_solver =
  fixes rnd :: "value_iterator \<Rightarrow> 'f \<Rightarrow> (value_iterator \<times> 'f \<times> u64) option"
    and pop :: "'f \<Rightarrow> nat"
    and marks :: "'f \<Rightarrow> cell set"
    and ok :: "value_iterator \<Rightarrow> 'f \<Rightarrow> bool"
    and fits :: "value_iterator \<Rightarrow> bool"
  assumes ok_frame: "same_frame vi vi' \<Longrightarrow> ok vi f \<Longrightarrow> ok vi' f"
    and fits_frame: "same_frame vi vi' \<Longrightarrow> fits vi \<Longrightarrow> fits vi'"
    and pop_zero: "ok vi f \<Longrightarrow> pop f = 0 \<longleftrightarrow> marks f = {}"
    and rnd_total: "wf_vi vi \<Longrightarrow> ok vi f \<Longrightarrow> fits vi \<Longrightarrow> \<exists>r. rnd vi f = Some r"
    and rnd_spec: "wf_vi vi \<Longrightarrow> ok vi f \<Longrightarrow> rnd vi f = Some (vi', f', u) \<Longrightarrow>
      \<exists>cs. (\<forall>c\<in>set cs. in_map vi c) \<and> affected vi (marks f) \<subseteq> set cs \<union> {c. \<not> free (state_at vi c)}
        \<and> vi' = fst (relax_list vi cs) \<and> set (snd (relax_list vi cs)) \<subseteq> marks f' \<and> ok vi f' \<and> u = of_nat (length (snd (relax_list vi cs)))"
begin

lemma round_frame: "wf_vi vi \<Longrightarrow> ok vi f \<Longrightarrow> rnd vi f = Some (vi', f', u) \<Longrightarrow> same_frame vi vi' \<and> ok vi' f'"
  using rnd_spec [of vi f vi' f' u] relax_list_frame ok_frame by blast

lemma round_consistent:
  assumes "wf_vi vi" "ok vi f" "rnd vi f = Some (vi', f', u)" "consistent_but vi (affected vi (marks f))"
  shows "consistent_but vi' (affected vi' (marks f'))"
proof -
  from rnd_spec [OF assms(1-3)] obtain cs where cs: "\<forall>c\<in>set cs. in_map vi c"
    "affected vi (marks f) \<subseteq> set cs \<union> {c. \<not> free (state_at vi c)}"
    and vi': "vi' = fst (relax_list vi cs)" and ch: "set (snd (relax_list vi cs)) \<subseteq> marks f'" by blast
  have "consistent_but vi (set cs \<union> {})" using assms(4) cs(2) occupied_settled unfolding consistent_but_def by blast
  from relax_list_consistent [OF assms(1) cs(1) this] affected_mono [OF ch, of vi]
  have "consistent_but vi' (affected vi (marks f'))" unfolding vi' consistent_but_def by blast
  then show ?thesis using affected_frame [OF relax_list_frame [OF assms(1) cs(1)]] by (simp add: vi')
qed

lemma loop_sound:
  assumes "wf_vi vi" "ok vi f" "consistent_but vi (affected vi (marks f))"
    and "frontier_loop rnd pop m obs vi f i u po = Some (vi', out, o')"
  shows "same_frame vi vi' \<and> (o_converged out \<longrightarrow> consistent_but vi' {})"
  using assms
proof (induction rnd\<equiv>rnd pop\<equiv>pop m obs vi f i u po rule: frontier_loop.induct)
  case (1 m obs vi f i u po)
  show ?case
  proof (cases rule: frontier_loop_cases [where pop = pop and f = f and i = i and m = m and rnd = rnd and vi = vi and obs = obs and u = u and po = po])
    case finish
    then have "vi' = vi" "o_converged out \<Longrightarrow> pop f = 0"
      using 1(5) by (auto simp: frontier_loop_done outcome_running_def)
    then show ?thesis using 1(4) pop_zero [OF 1(3)] by (auto simp: affected_def)
  next
    case panic
    then show ?thesis using 1(5) by (simp add: frontier_loop_panic)
  next
    case (step vi1 f1 u1 fl po1)
    note fr = round_frame [OF 1(2,3) step(2)] and eq = frontier_loop_step [where pop = pop and rnd = rnd, OF step]
    show ?thesis
    proof (cases fl)
      case Continue
      with 1(5) eq have "frontier_loop rnd pop m obs vi1 f1 (i + 1) (u + u1) po1 = Some (vi', out, o')" by simp
      with 1(1) [OF step(1,2) refl refl refl refl step(3) [symmetric] Continue] fr 1(2-4)
        round_consistent [OF 1(2,3) step(2)] same_frame_wf
      show ?thesis by (blast intro: same_frame_trans)
    qed (use 1(5) eq fr in \<open>auto simp: outcome_stopped_def outcome_cancelled_def\<close>)
  qed
qed

lemma loop_total:
  assumes "wf_vi vi" "ok vi f" "fits vi"
  shows "\<exists>r. frontier_loop rnd pop m obs vi f i u po = Some r"
  using assms
proof (induction rnd\<equiv>rnd pop\<equiv>pop m obs vi f i u po rule: frontier_loop.induct)
  case (1 m obs vi f i u po)
  show ?case
  proof (cases rule: frontier_loop_cases [where pop = pop and f = f and i = i and m = m and rnd = rnd and vi = vi and obs = obs and u = u and po = po])
    case finish
    then show ?thesis by (simp add: frontier_loop_done)
  next
    case panic
    then show ?thesis using rnd_total [OF 1(2-4)] by simp
  next
    case (step vi1 f1 u1 fl po1)
    note fr = round_frame [OF 1(2,3) step(2)]
    have "\<exists>r. frontier_loop rnd pop m obs vi1 f1 (i + 1) (u + u1) po1 = Some r" if "fl = Continue"
      using 1(1) [OF step(1,2) refl refl refl refl step(3) [symmetric] that] fr same_frame_wf fits_frame 1(2,4) by blast
    then show ?thesis unfolding frontier_loop_step [where pop = pop and rnd = rnd, OF step] by (cases fl) simp_all
  qed
qed

end

section \<open>Observers\<close>

text \<open>The budget bounds the rounds, and at most one of the three ends is reported.\<close>

lemma frontier_loop_outcome:
  assumes "frontier_loop rnd pop m obs vi f i u po = Some (vi', out, o')" "i \<le> m"
  shows "o_iters out \<le> m \<and> \<not> (o_stopped out \<and> o_cancelled out) \<and> (o_stopped out \<or> o_cancelled out \<longrightarrow> \<not> o_converged out)"
  using assms
proof (induction rnd pop m obs vi f i u po rule: frontier_loop.induct)
  case (1 rnd pop m obs vi f i u po)
  show ?case
  proof (cases rule: frontier_loop_cases [where pop = pop and f = f and i = i and m = m and rnd = rnd and vi = vi and obs = obs and u = u and po = po])
    case finish
    then show ?thesis using 1(2,3) by (auto simp: frontier_loop_done outcome_running_def)
  next
    case panic
    then show ?thesis using 1(2) by (simp add: frontier_loop_panic)
  next
    case (step vi1 f1 u1 fl po1)
    note eq = frontier_loop_step [where pop = pop and rnd = rnd, OF step]
    show ?thesis
    proof (cases fl)
      case Continue
      with 1(2) eq have "frontier_loop rnd pop m obs vi1 f1 (i + 1) (u + u1) po1 = Some (vi', out, o')" by simp
      then show ?thesis using 1(1) [OF step(1,2) refl refl refl refl step(3) [symmetric] Continue] step(1) by simp
    qed (use 1(2) eq step(1) in \<open>auto simp: outcome_stopped_def outcome_cancelled_def\<close>)
  qed
qed

end
