(* ===== verification/Corridor.thy ===== *)
theory Corridor
  imports ActiveSet
begin

text \<open>
  A concrete solver state for the witnesses: a corridor of three free cells with one heading, the
  goal at its right end, and two actions that step right and left with certainty.
\<close>

definition corridor_state :: "u64 \<Rightarrow> i32 \<Rightarrow> bool \<Rightarrow> nat option \<Rightarrow> state" where
  "corridor_state v x fin act =
     \<lparr>total_cost = v, penalty = PROB_BASE, local_penalty = 0, st_ix = x, st_iy = 0, st_it = 0,
      free = True, final_state = fin, optimal_action = act\<rparr>"

definition corridor_action :: "i32 \<Rightarrow> action" where
  "corridor_action d =
     \<lparr>a_name = [], delta_fw = NaN, delta_rot = NaN, a_id = d,
      state_transitions = [[\<lparr>dix = d, diy = 0, dit = 0, prob = 262144\<rparr>]]\<rparr>"

definition corridor_of :: "state list \<Rightarrow> value_iterator" where
  "corridor_of sts =
     \<lparr>states = sts, actions = [corridor_action 1, corridor_action (- 1)], sweep_orders = [[0, 1, 2]],
      thread_status = Map.empty, status = [], goal_x = NaN, goal_y = NaN, goal_margin_radius = NaN,
      goal_t = 0, goal_margin_theta = 0, thread_num = 1, xy_resolution = NaN, t_resolution = NaN,
      cell_num_x = 3, cell_num_y = 1, cell_num_t = 1, map_origin_x = NaN, map_origin_y = NaN,
      map_origin_quat = \<lparr>q_x = NaN, q_y = NaN, q_z = NaN, q_w = NaN\<rparr>\<rparr>"

text \<open>The corridor before a solve and its fixed point.\<close>

definition corridor :: value_iterator where
  "corridor = corridor_of [corridor_state MAX_COST 0 False None, corridor_state MAX_COST 1 False None,
     corridor_state 0 2 True None]"

definition corridor_solved :: value_iterator where
  "corridor_solved = corridor_of [corridor_state 524288 0 False (Some 0), corridor_state 262144 1 False (Some 0),
     corridor_state 0 2 True None]"

definition quiet_observer :: "unit solve_observer" where
  "quiet_observer = \<lparr>interval = 10, boundary = (\<lambda>o' p. (Continue, o'))\<rparr>"

lemma corridor_wf: "wf_vi corridor"
  by code_simp

lemma corridor_solved_wf: "wf_vi corridor_solved"
  by code_simp

lemma corridor_displacement: "displacement corridor = (1, 1, 0)"
  by code_simp

text \<open>A run that is known to converge.\<close>

lemma converged_run:
  assumes "map_option (\<lambda>(_, out, _). o_converged out) r = Some True"
  obtains vi' out o' where "r = Some (vi', out, o')" "o_converged out"
  using assms by (cases r) auto

end
