(* ===== verification/Frontier.thy ===== *)
theory Frontier
  imports Corridor
begin

text \<open>
  The in-place frontier solvers (\<^verbatim>\<open>solvers/frontier2d.rs\<close>, \<^verbatim>\<open>solvers/frontier3d.rs\<close>,
  \<^verbatim>\<open>solvers/stack.rs\<close>). Each is the round loop of \<open>ActiveSet\<close> over its own frontier: one planar
  board, one board with a theta axis, or one planar board per theta layer. The interpretations of
  \<open>frontier_solver\<close> discharge the round's laws for the three rounds.
\<close>

section \<open>The code\<close>

subsection \<open>frontier2d\<close>

text \<open>All theta layers of one candidate column; the second component counts the values that moved.\<close>

definition f2_column :: "nat \<Rightarrow> nat \<Rightarrow> value_iterator \<Rightarrow> value_iterator \<times> u64" where
  "f2_column ix iy vi =
     fold (\<lambda>it (vi, u).
         let idx = usize_of (to_index vi (int ix) (int iy) it);
             (vi', d) = value_iteration_at vi idx
         in (vi', if 0 < d then u + 1 else u)) [0..cell_num_t vi - 1] (vi, 0)"

text \<open>One candidate: a column in which a value moved is marked in the next frontier.\<close>

definition frontier2d_visit ::
  "nat \<times> nat \<Rightarrow> value_iterator \<times> bitboard2d \<times> u64 \<Rightarrow> value_iterator \<times> bitboard2d \<times> u64" where
  "frontier2d_visit = (\<lambda>(ix, iy) (vi, nf, updates).
     case f2_column ix iy vi of (vi', u) \<Rightarrow>
       if 0 < u then (vi', set2 nf ix iy, updates + u) else (vi', nf, updates))"

definition frontier2d_round ::
  "nat \<Rightarrow> nat \<Rightarrow> value_iterator \<Rightarrow> bitboard2d \<Rightarrow> (value_iterator \<times> bitboard2d \<times> u64) option" where
  "frontier2d_round dx dy vi frontier =
     (case dilate2d frontier dx dy of
        None \<Rightarrow> None
      | Some candidates \<Rightarrow> Some
          (fold frontier2d_visit (enumerate2 candidates)
             (vi, new2 (nat (cell_num_x vi)) (nat (cell_num_y vi)), 0)))"

definition frontier2d_solve_observed ::
  "value_iterator \<Rightarrow> nat \<Rightarrow> 'o solve_observer \<Rightarrow> 'o \<Rightarrow> (value_iterator \<times> solve_outcome \<times> 'o) option" where
  "frontier2d_solve_observed vi max_iter obs o' =
     (case displacement vi of (mx, my, _) \<Rightarrow>
        frontier_loop (frontier2d_round (nat mx) (nat my)) popcount2 max_iter obs
          vi (seed_frontier_2d vi) 0 0 (pacer_new obs, o'))"

subsection \<open>frontier3d\<close>

definition frontier3d_visit ::
  "cell \<Rightarrow> value_iterator \<times> bitboard3d \<times> u64 \<Rightarrow> value_iterator \<times> bitboard3d \<times> u64" where
  "frontier3d_visit = (\<lambda>(ix, iy, it) (vi, nf, updates).
     let idx = usize_of (to_index vi (int ix) (int iy) (int it));
         (vi', d) = value_iteration_at vi idx
     in if 0 < d then (vi', set3 nf ix iy it, updates + 1) else (vi', nf, updates))"

definition frontier3d_round ::
  "nat \<Rightarrow> nat \<Rightarrow> nat \<Rightarrow> value_iterator \<Rightarrow> bitboard3d \<Rightarrow> (value_iterator \<times> bitboard3d \<times> u64) option" where
  "frontier3d_round dx dy dt vi frontier =
     (case dilate3d frontier dx dy dt of
        None \<Rightarrow> None
      | Some candidates \<Rightarrow> Some
          (fold frontier3d_visit (enumerate3 candidates)
             (vi, new3 (nat (cell_num_x vi)) (nat (cell_num_y vi)) (nat (cell_num_t vi)), 0)))"

definition frontier3d_solve_observed ::
  "value_iterator \<Rightarrow> nat \<Rightarrow> 'o solve_observer \<Rightarrow> 'o \<Rightarrow> (value_iterator \<times> solve_outcome \<times> 'o) option" where
  "frontier3d_solve_observed vi max_iter obs o' =
     (case displacement vi of (mx, my, mt) \<Rightarrow>
        frontier_loop (frontier3d_round (nat mx) (nat my) (nat mt)) popcount3 max_iter obs
          vi (seed_frontier vi) 0 0 (pacer_new obs, o'))"

subsection \<open>frontier_stack\<close>

definition stack_popcount :: "bitboard2d list \<Rightarrow> nat" where
  "stack_popcount boards = sum_list (map popcount2 boards)"

definition stack_empty :: "value_iterator \<Rightarrow> bitboard2d list" where
  "stack_empty vi = map (\<lambda>_. new2 (nat (cell_num_x vi)) (nat (cell_num_y vi))) [0..<nat (cell_num_t vi)]"

definition stack_seed :: "value_iterator \<Rightarrow> bitboard2d list" where
  "stack_seed vi = fold (\<lambda>s boards. if total_cost s < MAX_COST
        then boards[nat (st_it s) := set2 (boards ! nat (st_it s)) (nat (st_ix s)) (nat (st_iy s))]
        else boards) (states vi) (stack_empty vi)"

definition stack_merge :: "nat \<Rightarrow> nat \<Rightarrow> bitboard2d list \<Rightarrow> nat \<Rightarrow> bitboard2d" where
  "stack_merge nt mt dilated it =
     fold (\<lambda>st cand.
         let it_minus = (it + nt - st) mod nt;
             it_plus = (it + st) mod nt
         in or_inplace2 (or_inplace2 cand (dilated ! it_minus)) (dilated ! it_plus))
       [1..<mt + 1] (dilated ! it)"

definition stack_visit ::
  "nat \<Rightarrow> nat \<times> nat \<Rightarrow> value_iterator \<times> bitboard2d list \<times> u64 \<Rightarrow> value_iterator \<times> bitboard2d list \<times> u64" where
  "stack_visit it = (\<lambda>(ix, iy) (vi, nf, updates).
     let idx = usize_of (to_index vi (int ix) (int iy) (int it));
         (vi', d) = value_iteration_at vi idx
     in if 0 < d then (vi', nf[it := set2 (nf ! it) ix iy], updates + 1) else (vi', nf, updates))"

definition stack_round ::
  "nat \<Rightarrow> nat \<Rightarrow> nat \<Rightarrow> value_iterator \<Rightarrow> bitboard2d list \<Rightarrow> (value_iterator \<times> bitboard2d list \<times> u64) option" where
  "stack_round dx dy mt vi frontier =
     (case those (map (\<lambda>b. dilate2d b dx dy) frontier) of
        None \<Rightarrow> None
      | Some dilated \<Rightarrow>
          let nt = nat (cell_num_t vi);
              candidates = map (stack_merge nt mt dilated) [0..<nt]
          in Some (fold (\<lambda>it. fold (stack_visit it) (enumerate2 (candidates ! it))) [0..<nt] (vi, stack_empty vi, 0)))"

definition frontier_stack_solve_observed ::
  "value_iterator \<Rightarrow> nat \<Rightarrow> 'o solve_observer \<Rightarrow> 'o \<Rightarrow> (value_iterator \<times> solve_outcome \<times> 'o) option" where
  "frontier_stack_solve_observed vi max_iter obs o' =
     (case displacement vi of (mx, my, mt) \<Rightarrow>
        frontier_loop (stack_round (nat mx) (nat my) (nat mt)) stack_popcount max_iter obs
          vi (stack_seed vi) 0 0 (pacer_new obs, o'))"

section \<open>Sweeps as sequences of updates\<close>

text \<open>The update at the machine index of a cell is the update of the cell.\<close>

lemma update_at_cell:
  assumes "wf_vi vi" "in_map vi (x, y, t)"
  shows "value_iteration_at vi (usize_of (to_index vi (int x) (int y) (int t))) = relax vi (x, y, t)"
  unfolding relax_def to_index_def to_index_cell [OF assms] ..

lemma upto_conv_upt: "0 \<le> n \<Longrightarrow> [0..n - 1] = map int [0..<nat n]"
proof -
  have "[0..int k - 1] = map int [0..<k]" for k
  proof (induction k)
    case (Suc k)
    have "[0..int (Suc k) - 1] = [0..int k - 1] @ [int k]" by (simp add: upto_rec2)
    with Suc show ?case by simp
  qed simp
  from this [of "nat n"] show "0 \<le> n \<Longrightarrow> [0..n - 1] = map int [0..<nat n]" by simp
qed

text \<open>A loop that updates cells, marks those that moved and counts them.\<close>

lemma sweep_fold:
  assumes "wf_vi vi" "\<forall>c\<in>set cs. in_map vi c"
    and step: "\<And>vi c nf u. wf_vi vi \<Longrightarrow> in_map vi c \<Longrightarrow> c \<in> set cs \<Longrightarrow> f c (vi, nf, u) =
      (if 0 < snd (relax vi c) then (fst (relax vi c), mark c nf, u + 1) else (fst (relax vi c), nf, u))"
  shows "fold f cs (vi, nf, u) =
    (fst (relax_list vi cs), fold mark (snd (relax_list vi cs)) nf, u + of_nat (length (snd (relax_list vi cs))))"
  using assms
proof (induction cs arbitrary: vi nf u)
  case (Cons c cs)
  let ?vi = "fst (relax vi c)"
  have c: "in_map vi c" "wf_vi vi" using Cons.prems by simp_all
  have fr: "same_frame vi ?vi" by (rule relax_same_frame [OF c(2,1)])
  have IH: "fold f cs (?vi, nf, u) = (fst (relax_list ?vi cs), fold mark (snd (relax_list ?vi cs)) nf,
      u + of_nat (length (snd (relax_list ?vi cs))))" for nf u
    by (rule Cons.IH) (use Cons.prems same_frame_wf [OF fr c(2)] in \<open>simp_all add: same_frame_sel [OF fr]\<close>)
  have "f c (vi, nf, u) = (if snd (relax vi c) = 0 then (?vi, nf, u) else (?vi, mark c nf, u + 1))"
    using Cons.prems(3) [OF c(2,1)] by (simp add: word_gt_0)
  then show ?case by (simp add: IH Let_def case_prod_beta add.assoc)
qed simp

lemma sweep_count:
  assumes "wf_vi vi" "\<forall>c\<in>set cs. in_map vi c"
    and step: "\<And>vi c u. wf_vi vi \<Longrightarrow> in_map vi c \<Longrightarrow> c \<in> set cs \<Longrightarrow> f c (vi, u) =
      (fst (relax vi c), if 0 < snd (relax vi c) then u + 1 else u)"
  shows "fold f cs (vi, u) = (fst (relax_list vi cs), u + of_nat (length (snd (relax_list vi cs))))"
  using assms
proof (induction cs arbitrary: vi u)
  case (Cons c cs)
  let ?vi = "fst (relax vi c)"
  have c: "in_map vi c" "wf_vi vi" using Cons.prems by simp_all
  have fr: "same_frame vi ?vi" by (rule relax_same_frame [OF c(2,1)])
  have IH: "fold f cs (?vi, u) = (fst (relax_list ?vi cs), u + of_nat (length (snd (relax_list ?vi cs))))" for u
    by (rule Cons.IH) (use Cons.prems same_frame_wf [OF fr c(2)] in \<open>simp_all add: same_frame_sel [OF fr]\<close>)
  have "f c (vi, u) = (?vi, if snd (relax vi c) = 0 then u else u + 1)"
    using Cons.prems(3) [OF c(2,1)] by (simp add: word_gt_0)
  then show ?case by (simp add: IH Let_def case_prod_beta add.assoc)
qed simp

section \<open>The planar frontier\<close>

definition column :: "value_iterator \<Rightarrow> nat \<times> nat \<Rightarrow> cell list" where
  "column vi = (\<lambda>(x, y). map (\<lambda>t. (x, y, t)) [0..<dim_t vi])"

definition in_plane :: "value_iterator \<Rightarrow> nat \<times> nat \<Rightarrow> bool" where
  "in_plane vi = (\<lambda>(x, y). x < dim_x vi \<and> y < dim_y vi)"

lemma column_in_map: "in_plane vi p \<Longrightarrow> c \<in> set (column vi p) \<Longrightarrow> in_map vi c"
  by (auto simp: column_def in_plane_def split: prod.splits)

lemma f2_column_relax:
  assumes "wf_vi vi" "in_plane vi (x, y)"
  shows "f2_column x y vi = (fst (relax_list vi (column vi (x, y))),
    of_nat (length (snd (relax_list vi (column vi (x, y))))))"
proof -
  have "[0..cell_num_t vi - 1] = map (\<lambda>c. int (snd (snd c))) (column vi (x, y))"
    using upto_conv_upt [of "cell_num_t vi"] assms(1) by (simp add: column_def dim_t_def wf_vi_def comp_def)
  then have "f2_column x y vi = fold (\<lambda>c (vi, u).
       let idx = usize_of (to_index vi (int x) (int y) (int (snd (snd c)))); (vi', d) = value_iteration_at vi idx
       in (vi', if 0 < d then u + 1 else u)) (column vi (x, y)) (vi, 0)"
    by (simp only: f2_column_def fold_map comp_def)
  also have "\<dots> = (fst (relax_list vi (column vi (x, y))),
    0 + of_nat (length (snd (relax_list vi (column vi (x, y))))))"
  proof (rule sweep_count [OF assms(1)])
    show "\<forall>c\<in>set (column vi (x, y)). in_map vi c" using column_in_map [OF assms(2)] by blast
    fix vi' c and u :: u64 assume wf: "wf_vi vi'" and c: "in_map vi' c" "c \<in> set (column vi (x, y))"
    then have "c = (x, y, snd (snd c))" by (auto simp: column_def)
    then have "value_iteration_at vi' (usize_of (to_index vi' (int x) (int y) (int (snd (snd c))))) = relax vi' c"
      using update_at_cell [OF wf] c(1) by metis
    then show "(case (vi', u) of (vi, u) \<Rightarrow>
       let idx = usize_of (to_index vi (int x) (int y) (int (snd (snd c)))); (vi', d) = value_iteration_at vi idx
       in (vi', if 0 < d then u + 1 else u)) = (fst (relax vi' c), if 0 < snd (relax vi' c) then u + 1 else u)"
      by (simp add: Let_def case_prod_beta)
  qed
  finally show ?thesis by simp
qed

lemma length_changed: "length (snd (relax_list vi cs)) \<le> length cs"
proof (induction cs arbitrary: vi)
  case (Cons c cs)
  have "length (snd (relax_list (fst (relax vi c)) cs)) \<le> length cs" by (rule Cons)
  then show ?case by (simp add: Let_def case_prod_beta le_SucI)
qed simp

lemma column_frame: "same_frame vi vi' \<Longrightarrow> column vi' = column vi \<and> in_plane vi' = in_plane vi"
  by (simp add: column_def in_plane_def same_frame_sel)

definition plane :: "cell \<Rightarrow> nat \<times> nat" where
  "plane = (\<lambda>(x, y, t). (x, y))"

text \<open>One round over a list of candidate columns.\<close>

lemma frontier2d_sweep:
  assumes "wf_vi vi" "\<forall>p\<in>set ps. in_plane vi p" "wf2 nf" "map_x2 nf = dim_x vi" "map_y2 nf = dim_y vi"
  defines "cs \<equiv> concat (map (column vi) ps)"
  shows "\<exists>nf'. fold frontier2d_visit ps (vi, nf, upd) =
      (fst (relax_list vi cs), nf', upd + of_nat (length (snd (relax_list vi cs))))
    \<and> wf2 nf' \<and> map_x2 nf' = dim_x vi \<and> map_y2 nf' = dim_y vi
    \<and> cells2 nf' = cells2 nf \<union> plane ` set (snd (relax_list vi cs))"
  using assms(1-5) unfolding cs_def
proof (induction ps arbitrary: vi nf upd)
  case (Cons p ps)
  obtain x y where p: "p = (x, y)" by (cases p)
  have pl: "in_plane vi (x, y)" using Cons.prems p by simp
  let ?vi = "fst (relax_list vi (column vi p))" and ?ch = "snd (relax_list vi (column vi p))"
  have col: "\<forall>c\<in>set (column vi p). in_map vi c" using column_in_map [OF pl] p by auto
  have fr: "same_frame vi ?vi" by (rule relax_list_frame [OF Cons.prems(1) col])
  have "length ?ch \<le> dim_t vi" using length_changed [of vi "column vi p"] by (simp add: column_def p)
  moreover have "dim_t vi < 2 ^ 31"
  proof -
    have "dim_t vi \<le> dim_x vi * dim_y vi * dim_t vi" using wf_dims_pos [OF Cons.prems(1)] by simp
    then show ?thesis using wf_dims_pos(4) [OF Cons.prems(1)] by linarith
  qed
  ultimately have pos: "0 < (of_nat (length ?ch) :: u64) \<longleftrightarrow> ?ch \<noteq> []"
    by (auto simp: word_gt_0 word_of_nat_eq_0_iff dest: dvd_imp_le)
  have sub: "plane ` set ?ch \<subseteq> {p}"
    using relax_list_changed [of vi "column vi p"] by (auto simp: column_def plane_def p)
  let ?nf = "if ?ch = [] then nf else set2 nf x y"
  have nf: "wf2 ?nf" "map_x2 ?nf = dim_x ?vi" "map_y2 ?nf = dim_y ?vi"
    using Cons.prems pl by (simp_all add: wf2_set in_plane_def same_frame_sel [OF fr])
  have nfc: "cells2 ?nf = cells2 nf \<union> plane ` set ?ch"
    using sub Cons.prems(3-5) pl p by (cases ?ch) (auto simp: cells2_set in_plane_def)
  have rest: "\<forall>p\<in>set ps. in_plane ?vi p" using Cons.prems(2) column_frame [OF fr] by simp
  from Cons.IH [OF same_frame_wf [OF fr Cons.prems(1)] rest nf, of "upd + of_nat (length ?ch)"]
  obtain nf' where IH: "fold frontier2d_visit ps (?vi, ?nf, upd + of_nat (length ?ch)) =
      (fst (relax_list ?vi (concat (map (column vi) ps))), nf',
       upd + of_nat (length ?ch) + of_nat (length (snd (relax_list ?vi (concat (map (column vi) ps))))))"
    and nf': "wf2 nf'" "map_x2 nf' = dim_x vi" "map_y2 nf' = dim_y vi"
      "cells2 nf' = cells2 ?nf \<union> plane ` set (snd (relax_list ?vi (concat (map (column vi) ps))))"
    unfolding column_frame [OF fr, THEN conjunct1] same_frame_sel(1,2) [OF fr] by blast
  have step: "frontier2d_visit p (vi, nf, upd) = (?vi, ?nf, upd + of_nat (length ?ch))"
    using pos f2_column_relax [OF Cons.prems(1) pl] by (simp add: frontier2d_visit_def p)
  have app: "fst (relax_list vi (concat (map (column vi) (p # ps)))) = fst (relax_list ?vi (concat (map (column vi) ps)))"
    "snd (relax_list vi (concat (map (column vi) (p # ps)))) = ?ch @ snd (relax_list ?vi (concat (map (column vi) ps)))"
    by (simp_all add: relax_list_append Let_def case_prod_beta)
  have "fold frontier2d_visit (p # ps) (vi, nf, upd) = (fst (relax_list vi (concat (map (column vi) (p # ps)))), nf',
      upd + of_nat (length (snd (relax_list vi (concat (map (column vi) (p # ps)))))))"
    unfolding fold_Cons comp_def step IH app by (simp add: add.assoc)
  moreover have "cells2 nf' = cells2 nf \<union> plane ` set (snd (relax_list vi (concat (map (column vi) (p # ps)))))"
    unfolding nf'(4) nfc app by (simp add: image_Un Un_assoc)
  ultimately show ?case using nf'(1-3) by blast
qed simp

definition marks2 :: "bitboard2d \<Rightarrow> cell set" where
  "marks2 f = {c. plane c \<in> cells2 f}"

definition ok2 :: "nat \<Rightarrow> nat \<Rightarrow> value_iterator \<Rightarrow> bitboard2d \<Rightarrow> bool" where
  "ok2 dx dy vi f \<longleftrightarrow> wf2 f \<and> map_x2 f = dim_x vi \<and> map_y2 f = dim_y vi \<and>
     dx = nat (fst (displacement vi)) \<and> dy = nat (fst (snd (displacement vi)))"

lemma set_column: "c \<in> set (column vi p) \<longleftrightarrow> plane c = p \<and> snd (snd c) < dim_t vi"
  by (cases c; cases p) (auto simp: column_def plane_def)

lemma set_columns: "c \<in> set (concat (map (column vi) ps)) \<longleftrightarrow> plane c \<in> set ps \<and> snd (snd c) < dim_t vi"
  by (simp add: set_column conj_commute)

lemma affected_cases:
  assumes "wf_vi vi" "c \<in> affected vi M" "displacement vi = (mx, my, mt)"
  obtains x y t x' y' t' where "c = (x, y, t)" "in_map vi (x, y, t)" "(x', y', t') \<in> M"
    "x' \<le> x + nat mx" "x \<le> x' + nat mx" "y' \<le> y + nat my" "y \<le> y' + nat my"
    "circ_dist (dim_t vi) t t' \<le> nat mt"
proof -
  obtain x y t where c: "c = (x, y, t)" by (cases c)
  have m: "in_map vi (x, y, t)" using assms(2) c by (simp add: affected_def)
  from assms(2) consider "c \<in> M" | c' where "c' \<in> succs vi c" "c' \<in> M" by (auto simp: affected_def)
  then show thesis
  proof cases
    case 1
    have "circ_dist (dim_t vi) t t = 0" by (simp add: circ_dist_def)
    with 1 c m show ?thesis by (intro that [of x y t x y t]) simp_all
  next
    case 2
    obtain x' y' t' where c': "c' = (x', y', t')" by (cases c')
    with 2 displacement_covers [OF assms(1) m _ assms(3), of x' y' t'] c m show ?thesis
      by (intro that [of x y t x' y' t']) simp_all
  qed
qed

lemma frontier2d_round_spec:
  assumes wf: "wf_vi vi" and ok: "ok2 dx dy vi f" and r: "frontier2d_round dx dy vi f = Some (vi', f', u)"
  shows "\<exists>cs. (\<forall>c\<in>set cs. in_map vi c) \<and> affected vi (marks2 f) \<subseteq> set cs \<union> {c. \<not> free (state_at vi c)} \<and> vi' = fst (relax_list vi cs)
    \<and> set (snd (relax_list vi cs)) \<subseteq> marks2 f' \<and> ok2 dx dy vi f' \<and> u = of_nat (length (snd (relax_list vi cs)))"
proof -
  obtain mx my mt where d: "displacement vi = (mx, my, mt)" by (cases "displacement vi")
  have f: "wf2 f" "map_x2 f = dim_x vi" "map_y2 f = dim_y vi" "dx = nat mx" "dy = nat my"
    using ok d by (simp_all add: ok2_def)
  have "dx < 64" using r dilate2d_panics [of dx f dy] by (force simp: frontier2d_round_def)
  then obtain cand where cand: "dilate2d f dx dy = Some cand" "wf2 cand" "map_x2 cand = dim_x vi" "map_y2 cand = dim_y vi"
    and cells: "cells2 cand = {(x, y). x < dim_x vi \<and> y < dim_y vi \<and>
      (\<exists>(x', y')\<in>cells2 f. x' \<le> x + dx \<and> x \<le> x' + dx \<and> y' \<le> y + dy \<and> y \<le> y' + dy)}"
    by (rule dilate2d_Some [OF f(1), of dx dy, unfolded f(2,3)])
  let ?ps = "enumerate2 cand" and ?new = "new2 (nat (cell_num_x vi)) (nat (cell_num_y vi))"
  let ?cs = "concat (map (column vi) ?ps)"
  have ps: "set ?ps = cells2 cand"
    using cand wf_dims_pos(1) [OF wf] by (intro set_enumerate2 wpr2_pos) simp_all
  have plane: "\<forall>p\<in>set ?ps. in_plane vi p" unfolding ps cells by (auto simp: in_plane_def)
  have new: "wf2 ?new" "map_x2 ?new = dim_x vi" "map_y2 ?new = dim_y vi"
    by (simp_all add: wf2_new) (simp_all add: new2_def Let_def dim_x_def dim_y_def)
  from frontier2d_sweep [OF wf plane new, of 0] r cand(1)
  have res: "vi' = fst (relax_list vi ?cs)" "u = of_nat (length (snd (relax_list vi ?cs)))"
    "wf2 f'" "map_x2 f' = dim_x vi" "map_y2 f' = dim_y vi" "cells2 f' = plane ` set (snd (relax_list vi ?cs))"
    by (auto simp: frontier2d_round_def)
  have "affected vi (marks2 f) \<subseteq> set ?cs"
  proof
    fix c assume "c \<in> affected vi (marks2 f)"
    then obtain x y t x' y' t' where c: "c = (x, y, t)" "in_map vi (x, y, t)" "(x', y', t') \<in> marks2 f"
      "x' \<le> x + dx" "x \<le> x' + dx" "y' \<le> y + dy" "y \<le> y' + dy"
      by (rule affected_cases [OF wf _ d, folded f(4,5)])
    then have "(x', y') \<in> cells2 f" by (simp add: plane_def marks2_def)
    with c have "plane c \<in> cells2 cand" unfolding cells by (auto simp: plane_def)
    then show "c \<in> set ?cs" unfolding set_columns ps using c by simp
  qed
  moreover have "\<forall>c\<in>set ?cs. in_map vi c" using plane column_in_map by auto
  moreover have "set (snd (relax_list vi ?cs)) \<subseteq> marks2 f'" by (auto simp: marks2_def res(6))
  moreover have "ok2 dx dy vi f'" using res ok by (simp add: ok2_def)
  ultimately show ?thesis using res(1,2) by blast
qed

interpretation f2: frontier_solver "frontier2d_round dx dy" popcount2 marks2 "ok2 dx dy" "\<lambda>_. dx < 64" for dx dy
proof
  show "ok2 dx dy vi' f" if "same_frame vi vi'" "ok2 dx dy vi f" for vi vi' f
    using that by (simp add: ok2_def same_frame_sel [OF that(1)] displacement_frame [OF that(1)])
  show "popcount2 f = 0 \<longleftrightarrow> marks2 f = {}" if "ok2 dx dy vi f" for vi f
  proof -
    have "marks2 f = {} \<longleftrightarrow> cells2 f = {}" by (force simp: marks2_def plane_def)
    then show ?thesis using popcount2_pos [of f] that by (auto simp: ok2_def)
  qed
  show "\<exists>r. frontier2d_round dx dy vi f = Some r" if ok: "wf_vi vi" "ok2 dx dy vi f" "dx < 64" for vi f
  proof -
    obtain cand where "dilate2d f dx dy = Some cand"
      by (rule dilate2d_Some [of f dx dy]) (use ok in \<open>simp_all add: ok2_def\<close>)
    then show ?thesis unfolding frontier2d_round_def by (simp only: option.case) (rule exI, rule refl)
  qed
qed (assumption, rule frontier2d_round_spec)

lemma ok2_seed:
  assumes "wf_vi vi" "displacement vi = (mx, my, mt)"
  shows "ok2 (nat mx) (nat my) vi (seed_frontier_2d vi)"
    "consistent_but vi (affected vi (marks2 (seed_frontier_2d vi)))"
proof -
  show "ok2 (nat mx) (nat my) vi (seed_frontier_2d vi)"
    using seed_frontier_2d_spec [OF assms(1)] assms(2) by (simp add: ok2_def)
  have "seeds vi \<subseteq> marks2 (seed_frontier_2d vi)"
    using seed_frontier_2d_spec(4) [OF assms(1)] by (force simp: marks2_def plane_def)
  then show "consistent_but vi (affected vi (marks2 (seed_frontier_2d vi)))"
    by (rule seeds_consistent [OF assms(1)])
qed

section \<open>The frontier with a theta axis\<close>

definition marks3 :: "bitboard3d \<Rightarrow> cell set" where
  "marks3 f = cells3 f"

definition ok3 :: "nat \<Rightarrow> nat \<Rightarrow> nat \<Rightarrow> value_iterator \<Rightarrow> bitboard3d \<Rightarrow> bool" where
  "ok3 dx dy dt vi f \<longleftrightarrow> wf3 f \<and> map_x3 f = dim_x vi \<and> map_y3 f = dim_y vi \<and> n_theta3 f = dim_t vi \<and>
     dt \<le> dim_t vi \<and> (\<exists>mx my mt. displacement vi = (mx, my, mt) \<and> dx = nat mx \<and> dy = nat my \<and> dt = nat mt)"

lemma fold_set3:
  assumes "wf3 bb" "\<forall>(x, y, t)\<in>set cs. x < map_x3 bb \<and> y < map_y3 bb \<and> t < n_theta3 bb"
  shows "let bb' = fold (\<lambda>(x, y, t) bb. set3 bb x y t) cs bb in
    wf3 bb' \<and> map_x3 bb' = map_x3 bb \<and> map_y3 bb' = map_y3 bb \<and> n_theta3 bb' = n_theta3 bb \<and> cells3 bb' = cells3 bb \<union> set cs"
  using assms
proof (induction cs arbitrary: bb)
  case (Cons c cs)
  obtain x y t where c: "c = (x, y, t)" by (cases c)
  have "wf3 (set3 bb x y t)" "cells3 (set3 bb x y t) = insert c (cells3 bb)"
    using Cons.prems by (simp_all add: c wf3_set cells3_set)
  with Cons.IH [of "set3 bb x y t"] Cons.prems(2) show ?case by (simp add: c Let_def)
qed simp

lemma frontier3d_round_spec:
  assumes wf: "wf_vi vi" and ok: "ok3 dx dy dt vi f" and r: "frontier3d_round dx dy dt vi f = Some (vi', f', u)"
    and dx: "dx < 64"
  shows "\<exists>cs. (\<forall>c\<in>set cs. in_map vi c) \<and> affected vi (marks3 f) \<subseteq> set cs \<union> {c. \<not> free (state_at vi c)} \<and> vi' = fst (relax_list vi cs)
    \<and> set (snd (relax_list vi cs)) \<subseteq> marks3 f' \<and> ok3 dx dy dt vi f' \<and> u = of_nat (length (snd (relax_list vi cs)))"
proof -
  from ok obtain mx my mt where d: "displacement vi = (mx, my, mt)"
    and f: "wf3 f" "map_x3 f = dim_x vi" "map_y3 f = dim_y vi" "n_theta3 f = dim_t vi"
      "dt \<le> dim_t vi" "dx = nat mx" "dy = nat my" "dt = nat mt"
    by (auto simp: ok3_def)
  obtain cand where cand: "dilate3d f dx dy dt = Some cand" "wf3 cand" "map_x3 cand = dim_x vi" "map_y3 cand = dim_y vi"
      "n_theta3 cand = dim_t vi"
    and cells: "cells3 cand = {(x, y, t). x < dim_x vi \<and> y < dim_y vi \<and> t < dim_t vi \<and>
      (\<exists>(x', y', t')\<in>cells3 f. x' \<le> x + dx \<and> x \<le> x' + dx \<and> y' \<le> y + dy \<and> y \<le> y' + dy
        \<and> circ_dist (dim_t vi) t t' \<le> dt)}"
    by (rule dilate3d_Some [OF f(1) dx, of dt dy, unfolded f(2-4), OF f(5)])
  let ?cs = "enumerate3 cand" and ?new = "new3 (nat (cell_num_x vi)) (nat (cell_num_y vi)) (nat (cell_num_t vi))"
  have cs: "set ?cs = cells3 cand"
    using cand wf_dims_pos [OF wf] by (intro set_enumerate3 wpr3_pos) simp_all
  have inm: "\<forall>c\<in>set ?cs. in_map vi c" unfolding cs cells by auto
  let ?mark = "\<lambda>(x, y, t) bb. set3 bb x y t" and ?ch = "snd (relax_list vi ?cs)"
  have "fold frontier3d_visit ?cs (vi, ?new, 0) =
    (fst (relax_list vi ?cs), fold ?mark ?ch ?new, 0 + of_nat (length ?ch))"
    by (rule sweep_fold [OF wf inm]) (auto simp: frontier3d_visit_def update_at_cell Let_def split: prod.splits)
  then have res: "vi' = fst (relax_list vi ?cs)" "u = of_nat (length ?ch)" "f' = fold ?mark ?ch ?new"
    using r cand(1) by (simp_all add: frontier3d_round_def)
  have new: "wf3 ?new" "map_x3 ?new = dim_x vi" "map_y3 ?new = dim_y vi" "n_theta3 ?new = dim_t vi"
    by (simp_all add: wf3_new) (simp_all add: new3_def Let_def dim_x_def dim_y_def dim_t_def)
  have chm: "c \<in> set ?ch \<Longrightarrow> in_map vi c" for c using relax_list_changed [of vi ?cs] inm by blast
  have "\<forall>(x, y, t)\<in>set ?ch. x < map_x3 ?new \<and> y < map_y3 ?new \<and> t < n_theta3 ?new"
    unfolding new by (auto dest!: chm)
  from fold_set3 [OF new(1) this] have "ok3 dx dy dt vi f'" "set ?ch \<subseteq> marks3 f'"
    using ok new by (auto simp: res(3) Let_def ok3_def marks3_def)
  moreover have "affected vi (marks3 f) \<subseteq> set ?cs"
  proof
    fix c assume "c \<in> affected vi (marks3 f)"
    then obtain x y t x' y' t' where c: "c = (x, y, t)" "in_map vi (x, y, t)" "(x', y', t') \<in> cells3 f"
      "x' \<le> x + dx" "x \<le> x' + dx" "y' \<le> y + dy" "y \<le> y' + dy" "circ_dist (dim_t vi) t t' \<le> dt"
      unfolding marks3_def by (rule affected_cases [OF wf _ d, folded f(6-8)])
    then show "c \<in> set ?cs" unfolding cs cells by auto
  qed
  ultimately show ?thesis using res(1,2) inm by blast
qed

text \<open>The theta displacement never exceeds the number of layers.\<close>

lemma displacement_theta_le:
  assumes "wf_vi vi" "displacement vi = (mx, my, mt)"
  shows "nat mt \<le> dim_t vi"
proof -
  let ?nt = "cell_num_t vi"
  have nt: "0 < ?nt" using assms(1) by (simp add: wf_vi_def)
  let ?P = "\<lambda>(a, b, c::i32). c \<le> ?nt"
  have step: "?P p \<Longrightarrow> ?P (disp_step ?nt t st p)" for p t st
    using nt by (auto simp: disp_step_def Let_def split: prod.splits)
  have inner: "?P p \<Longrightarrow> ?P (fold (disp_step ?nt t) trans p)" for p t trans
    using step by (induction trans arbitrary: p) simp_all
  have mid: "?P p \<Longrightarrow> ?P (fold (\<lambda>(t, trans). fold (disp_step ?nt t) trans) ts p)" for p ts
  proof (induction ts arbitrary: p)
    case (Cons q ts)
    then show ?case using inner by (cases q) simp
  qed simp
  have "?P (fold (\<lambda>a. fold (\<lambda>(t, trans). fold (disp_step ?nt t) trans) (List.enumerate 0 (state_transitions a))) as (0, 0, 0))" for as
  proof -
    have "?P p \<Longrightarrow> ?P (fold (\<lambda>a. fold (\<lambda>(t, trans). fold (disp_step ?nt t) trans) (List.enumerate 0 (state_transitions a))) as p)" for p
      using mid by (induction as arbitrary: p) simp_all
    then show ?thesis using nt by simp
  qed
  from this [of "actions vi"] have "mt \<le> ?nt" using assms(2) by (auto simp: displacement_def split: prod.splits)
  then show ?thesis by (simp add: dim_t_def)
qed

interpretation f3: frontier_solver "frontier3d_round dx dy dt" popcount3 marks3 "\<lambda>vi f. ok3 dx dy dt vi f \<and> dx < 64" "\<lambda>_. True" for dx dy dt
proof
  show "ok3 dx dy dt vi' f \<and> dx < 64" if "same_frame vi vi'" "ok3 dx dy dt vi f \<and> dx < 64" for vi vi' f
    using that by (simp add: ok3_def same_frame_sel [OF that(1)] displacement_frame [OF that(1)])
  show "popcount3 f = 0 \<longleftrightarrow> marks3 f = {}" if "ok3 dx dy dt vi f \<and> dx < 64" for vi f
    using popcount3_pos [of f] that by (auto simp: ok3_def marks3_def)
  show "\<exists>r. frontier3d_round dx dy dt vi f = Some r" if ok: "wf_vi vi" "ok3 dx dy dt vi f \<and> dx < 64" for vi f
  proof -
    obtain cand where "dilate3d f dx dy dt = Some cand"
      by (rule dilate3d_Some [of f dx dt dy]) (use ok in \<open>simp_all add: ok3_def\<close>)
    then show ?thesis unfolding frontier3d_round_def by (simp only: option.case) (rule exI, rule refl)
  qed
  show "\<exists>cs. (\<forall>c\<in>set cs. in_map vi c) \<and> affected vi (marks3 f) \<subseteq> set cs \<union> {c. \<not> free (state_at vi c)} \<and> vi' = fst (relax_list vi cs)
      \<and> set (snd (relax_list vi cs)) \<subseteq> marks3 f' \<and> (ok3 dx dy dt vi f' \<and> dx < 64) \<and> u = of_nat (length (snd (relax_list vi cs)))"
    if "wf_vi vi" "ok3 dx dy dt vi f \<and> dx < 64" "frontier3d_round dx dy dt vi f = Some (vi', f', u)" for vi f vi' f' u
    using frontier3d_round_spec [of vi dx dy dt f vi' f' u] that by blast
qed simp

lemma ok3_seed:
  assumes "wf_vi vi" "displacement vi = (mx, my, mt)"
  shows "ok3 (nat mx) (nat my) (nat mt) vi (seed_frontier vi)"
    "consistent_but vi (affected vi (marks3 (seed_frontier vi)))"
proof -
  show "ok3 (nat mx) (nat my) (nat mt) vi (seed_frontier vi)"
    using seed_frontier_spec [OF assms(1)] displacement_theta_le [OF assms] assms(2) by (simp add: ok3_def)
  show "consistent_but vi (affected vi (marks3 (seed_frontier vi)))"
    by (rule seeds_consistent [OF assms(1)]) (simp add: marks3_def seed_frontier_spec [OF assms(1)])
qed

section \<open>One planar frontier per theta layer\<close>

definition marks_stack :: "bitboard2d list \<Rightarrow> cell set" where
  "marks_stack f = {(x, y, t). t < length f \<and> (x, y) \<in> cells2 (f ! t)}"

definition fits_layer :: "value_iterator \<Rightarrow> bitboard2d \<Rightarrow> bool" where
  "fits_layer vi b \<longleftrightarrow> wf2 b \<and> map_x2 b = dim_x vi \<and> map_y2 b = dim_y vi"

definition ok_stack :: "nat \<Rightarrow> nat \<Rightarrow> nat \<Rightarrow> value_iterator \<Rightarrow> bitboard2d list \<Rightarrow> bool" where
  "ok_stack dx dy mt vi f \<longleftrightarrow> length f = dim_t vi \<and> (\<forall>b\<in>set f. fits_layer vi b) \<and> mt \<le> dim_t vi \<and>
     (\<exists>x y t. displacement vi = (x, y, t) \<and> dx = nat x \<and> dy = nat y \<and> mt = nat t)"

lemma stack_empty_spec:
  "length (stack_empty vi) = dim_t vi" "\<forall>b\<in>set (stack_empty vi). fits_layer vi b" "marks_stack (stack_empty vi) = {}"
  by (auto simp: stack_empty_def dim_t_def fits_layer_def marks_stack_def new2_def Let_def dim_x_def dim_y_def
      intro: wf2_new [unfolded new2_def Let_def] dest: cells2_new [unfolded new2_def Let_def, THEN equalityD1, THEN subsetD])

text \<open>Marking one cell of a stack.\<close>

definition stack_mark :: "cell \<Rightarrow> bitboard2d list \<Rightarrow> bitboard2d list" where
  "stack_mark = (\<lambda>(x, y, t) nf. nf[t := set2 (nf ! t) x y])"

lemma stack_mark_spec:
  assumes "length f = dim_t vi" "\<forall>b\<in>set f. fits_layer vi b" "in_map vi c"
  shows "length (stack_mark c f) = dim_t vi" "\<forall>b\<in>set (stack_mark c f). fits_layer vi b"
    "marks_stack (stack_mark c f) = insert c (marks_stack f)"
proof -
  obtain x y t where c: "c = (x, y, t)" by (cases c)
  have t: "t < length f" "x < dim_x vi" "y < dim_y vi" using assms c by simp_all
  have l: "fits_layer vi (f ! t)" using assms(2) t by simp
  then have s: "fits_layer vi (set2 (f ! t) x y)" "cells2 (set2 (f ! t) x y) = insert (x, y) (cells2 (f ! t))"
    using t by (simp_all add: fits_layer_def wf2_set cells2_set)
  show "length (stack_mark c f) = dim_t vi" using assms(1) by (simp add: c stack_mark_def)
  show "\<forall>b\<in>set (stack_mark c f). fits_layer vi b"
    using assms(2) s(1) set_update_subset_insert [of f t] by (auto simp: c stack_mark_def)
  show "marks_stack (stack_mark c f) = insert c (marks_stack f)"
    using t s(2) by (auto simp: c stack_mark_def marks_stack_def nth_update_at split: if_splits)
qed

lemma fold_stack_mark:
  assumes "length f = dim_t vi" "\<forall>b\<in>set f. fits_layer vi b" "\<forall>c\<in>set cs. in_map vi c"
  shows "length (fold stack_mark cs f) = dim_t vi \<and> (\<forall>b\<in>set (fold stack_mark cs f). fits_layer vi b)
    \<and> marks_stack (fold stack_mark cs f) = marks_stack f \<union> set cs"
  using assms
proof (induction cs arbitrary: f)
  case (Cons c cs)
  have c: "in_map vi c" "\<forall>c\<in>set cs. in_map vi c" using Cons.prems(3) by simp_all
  note m = stack_mark_spec [OF Cons.prems(1,2) c(1)]
  show ?case using Cons.IH [OF m(1,2) c(2)] m(3) by simp
qed simp

lemma stack_merge_cells:
  assumes len: "length ds = nt" and ds: "\<forall>b\<in>set ds. fits_layer vi b" and it: "it < nt" and mt: "mt \<le> nt"
  shows "fits_layer vi (stack_merge nt mt ds it) \<and>
    cells2 (stack_merge nt mt ds it) = {p. \<exists>t'<nt. circ_dist nt it t' \<le> mt \<and> p \<in> cells2 (ds ! t')}"
proof -
  let ?f = "\<lambda>st cand. or_inplace2 (or_inplace2 cand (ds ! ((it + nt - st) mod nt))) (ds ! ((it + st) mod nt))"
  have layer: "fits_layer vi (ds ! (k mod nt))" for k using ds len it by simp
  have orl: "fits_layer vi (or_inplace2 a b) \<and> cells2 (or_inplace2 a b) = cells2 a \<union> cells2 b"
    if "fits_layer vi a" "fits_layer vi b" for a b
    using or_inplace2_spec [of a b] that by (simp add: fits_layer_def)
  have gen: "fits_layer vi (fold ?f ss cand) \<and> cells2 (fold ?f ss cand) = cells2 cand \<union>
     (\<Union>st\<in>set ss. cells2 (ds ! ((it + nt - st) mod nt)) \<union> cells2 (ds ! ((it + st) mod nt)))"
    if "fits_layer vi cand" for ss cand
    using that
  proof (induction ss arbitrary: cand)
    case (Cons st ss)
    have "fits_layer vi (?f st cand) \<and> cells2 (?f st cand) = cells2 cand \<union> cells2 (ds ! ((it + nt - st) mod nt)) \<union> cells2 (ds ! ((it + st) mod nt))"
      using orl layer Cons.prems by simp
    with Cons.IH [of "?f st cand"] show ?case by auto
  qed simp
  have self: "ds ! it = ds ! ((it + 0) mod nt)" "ds ! it = ds ! ((it + nt - 0) mod nt)" using it by simp_all
  have m: "fits_layer vi (stack_merge nt mt ds it) \<and> cells2 (stack_merge nt mt ds it) = cells2 (ds ! it) \<union>
     (\<Union>st\<in>{1..<mt + 1}. cells2 (ds ! ((it + nt - st) mod nt)) \<union> cells2 (ds ! ((it + st) mod nt)))"
  proof -
    have "fits_layer vi (ds ! it)" using ds len it by simp
    from gen [OF this, of "[1..<mt + 1]"] show ?thesis
      unfolding stack_merge_def Let_def set_upt .
  qed
  have "p \<in> cells2 (stack_merge nt mt ds it) \<longleftrightarrow>
      (\<exists>st\<le>mt. p \<in> cells2 (ds ! ((it + st) mod nt)) \<or> p \<in> cells2 (ds ! ((it + nt - st) mod nt)))" for p
  proof -
    have "(\<exists>st\<le>mt. Q st) \<longleftrightarrow> Q 0 \<or> (\<exists>st\<in>{1..<mt + 1}. Q st)" for Q
      by (metis One_nat_def Suc_eq_plus1 Suc_leI atLeastLessThan_iff bot_nat_0.extremum le_imp_less_Suc less_Suc_eq_le not_gr_zero)
    from this [of "\<lambda>st. p \<in> cells2 (ds ! ((it + st) mod nt)) \<or> p \<in> cells2 (ds ! ((it + nt - st) mod nt))"] m self
    show ?thesis by auto
  qed
  also have "\<dots> p \<longleftrightarrow> (\<exists>t'<nt. (\<exists>st\<le>mt. t' = (it + st) mod nt \<or> t' = (it + nt - st) mod nt) \<and> p \<in> cells2 (ds ! t'))" for p
    using it by (metis mod_less_divisor less_nat_zero_code neq0_conv)
  also have "\<dots> p \<longleftrightarrow> (\<exists>t'<nt. circ_dist nt it t' \<le> mt \<and> p \<in> cells2 (ds ! t'))" for p
    using theta_near_iff [OF it _ mt] by blast
  finally show ?thesis using m by blast
qed

definition stack_cells :: "(nat \<Rightarrow> bitboard2d) \<Rightarrow> nat \<Rightarrow> cell list" where
  "stack_cells cand nt = concat (map (\<lambda>t. map (\<lambda>(x, y). (x, y, t)) (enumerate2 (cand t))) [0..<nt])"

lemma set_stack_cells:
  assumes "wf_vi vi" "\<forall>t<nt. fits_layer vi (cand t)"
  shows "set (stack_cells cand nt) = {(x, y, t). t < nt \<and> (x, y) \<in> cells2 (cand t)}"
proof -
  have "set (enumerate2 (cand t)) = cells2 (cand t)" if "t < nt" for t
    using assms that wf_dims_pos(1) [OF assms(1)] by (intro set_enumerate2 wpr2_pos) (simp_all add: fits_layer_def)
  then show ?thesis by (force simp: stack_cells_def)
qed

lemma stack_sweep:
  assumes "wf_vi vi" "\<forall>c\<in>set (stack_cells cand nt). in_map vi c"
  shows "fold (\<lambda>it. fold (stack_visit it) (enumerate2 (cand it))) [0..<nt] (vi, nf, u) =
    (fst (relax_list vi (stack_cells cand nt)), fold stack_mark (snd (relax_list vi (stack_cells cand nt))) nf,
     u + of_nat (length (snd (relax_list vi (stack_cells cand nt)))))"
proof -
  let ?f = "\<lambda>(x, y, t). stack_visit t (x, y)"
  have "fold (stack_visit it) ps = fold ?f (map (\<lambda>(x, y). (x, y, it)) ps)" for it ps
    by (induction ps) auto
  then have "fold (\<lambda>it. fold (stack_visit it) (enumerate2 (cand it))) [0..<nt] (vi, nf, u) = fold ?f (stack_cells cand nt) (vi, nf, u)"
    by (simp add: stack_cells_def fold_concat_map)
  also have "\<dots> = (fst (relax_list vi (stack_cells cand nt)), fold stack_mark (snd (relax_list vi (stack_cells cand nt))) nf,
     u + of_nat (length (snd (relax_list vi (stack_cells cand nt)))))"
    by (rule sweep_fold [OF assms]) (auto simp: stack_visit_def stack_mark_def update_at_cell Let_def split: prod.splits)
  finally show ?thesis .
qed

definition dilates_to :: "value_iterator \<Rightarrow> nat \<Rightarrow> nat \<Rightarrow> bitboard2d \<Rightarrow> bitboard2d \<Rightarrow> bool" where
  "dilates_to vi dx dy b b' \<longleftrightarrow> dilate2d b dx dy = Some b' \<and> fits_layer vi b' \<and>
     cells2 b' = {(x, y). x < dim_x vi \<and> y < dim_y vi \<and>
      (\<exists>(x', y')\<in>cells2 b. x' \<le> x + dx \<and> x \<le> x' + dx \<and> y' \<le> y + dy \<and> y \<le> y' + dy)}"

lemma dilates_to_ex:
  assumes "fits_layer vi b" "dx < 64"
  obtains b' where "dilates_to vi dx dy b b'"
proof -
  have f: "wf2 b" "map_x2 b = dim_x vi" "map_y2 b = dim_y vi" using assms by (simp_all add: fits_layer_def)
  show thesis
    by (rule dilate2d_Some [OF f(1) assms(2), of dy, unfolded f(2,3)])
       (rule that, simp add: dilates_to_def fits_layer_def)
qed

lemma stack_dilated:
  assumes ok: "ok_stack dx dy mt vi f" and dx: "dx < 64"
  obtains ds where "those (map (\<lambda>b. dilate2d b dx dy) f) = Some ds" "length ds = dim_t vi"
    "\<forall>t<dim_t vi. dilates_to vi dx dy (f ! t) (ds ! t)"
proof -
  define g where "g b = (SOME b'. dilates_to vi dx dy b b')" for b
  have g: "dilates_to vi dx dy b (g b)" if b: "b \<in> set f" for b
  proof -
    have "fits_layer vi b" using ok b by (simp add: ok_stack_def)
    then obtain b' where "dilates_to vi dx dy b b'" by (rule dilates_to_ex [OF _ dx])
    then show ?thesis unfolding g_def by (rule someI)
  qed
  then have "\<forall>b\<in>set f. dilate2d b dx dy = Some (g b)" by (simp add: dilates_to_def)
  then have "those (map (\<lambda>b. dilate2d b dx dy) f) = Some (map g f)" by (simp add: those_Some)
  moreover have "length (map g f) = dim_t vi" using ok by (simp add: ok_stack_def)
  moreover have "\<forall>t<dim_t vi. dilates_to vi dx dy (f ! t) (map g f ! t)"
    using g ok by (simp add: ok_stack_def)
  ultimately show thesis by (rule that)
qed

lemma stack_round_spec:
  assumes wf: "wf_vi vi" and ok: "ok_stack dx dy mt vi f" and dx: "dx < 64"
    and r: "stack_round dx dy mt vi f = Some (vi', f', u)"
  shows "\<exists>cs. (\<forall>c\<in>set cs. in_map vi c) \<and> affected vi (marks_stack f) \<subseteq> set cs \<union> {c. \<not> free (state_at vi c)} \<and> vi' = fst (relax_list vi cs)
    \<and> set (snd (relax_list vi cs)) \<subseteq> marks_stack f' \<and> ok_stack dx dy mt vi f' \<and> u = of_nat (length (snd (relax_list vi cs)))"
proof -
  from ok obtain mx my mtt where d: "displacement vi = (mx, my, mtt)"
    and f: "length f = dim_t vi" "mt \<le> dim_t vi" "dx = nat mx" "dy = nat my" "mt = nat mtt"
    by (auto simp: ok_stack_def)
  obtain ds where ds: "those (map (\<lambda>b. dilate2d b dx dy) f) = Some ds" "length ds = dim_t vi"
    and dc: "\<forall>t<dim_t vi. dilates_to vi dx dy (f ! t) (ds ! t)"
    by (rule stack_dilated [OF ok dx])
  then have dsl: "\<forall>b\<in>set ds. fits_layer vi b" by (auto simp: in_set_conv_nth dilates_to_def)
  define cand where "cand = (!) (map (stack_merge (dim_t vi) mt ds) [0..<dim_t vi])"
  have cand: "fits_layer vi (cand t)" "cells2 (cand t) = {p. \<exists>t'<dim_t vi. circ_dist (dim_t vi) t t' \<le> mt \<and> p \<in> cells2 (ds ! t')}"
    if "t < dim_t vi" for t
    using stack_merge_cells [OF ds(2) dsl that f(2)] that by (simp_all add: cand_def)
  let ?cs = "stack_cells cand (dim_t vi)"
  let ?ch = "snd (relax_list vi ?cs)"
  have cs: "set ?cs = {(x, y, t). t < dim_t vi \<and> (x, y) \<in> cells2 (cand t)}"
    using cand(1) by (intro set_stack_cells [OF wf]) blast
  have inm: "\<forall>c\<in>set ?cs. in_map vi c" unfolding cs using cand(1) by (fastforce simp: fits_layer_def cells2_def)
  have "fold (\<lambda>it. fold (stack_visit it) (enumerate2 (cand it))) [0..<dim_t vi] (vi, stack_empty vi, 0) = (vi', f', u)"
    using r ds(1) by (simp add: stack_round_def cand_def dim_t_def Let_def)
  then have res: "vi' = fst (relax_list vi ?cs)" "f' = fold stack_mark ?ch (stack_empty vi)" "u = of_nat (length ?ch)"
    unfolding stack_sweep [OF wf inm] by auto
  have chm: "\<forall>c\<in>set ?ch. in_map vi c" using relax_list_changed [of vi ?cs] inm by blast
  from fold_stack_mark [OF stack_empty_spec(1,2) chm] stack_empty_spec(3)
  have "ok_stack dx dy mt vi f'" "set ?ch \<subseteq> marks_stack f'" using ok by (simp_all add: res(2) ok_stack_def)
  moreover have "affected vi (marks_stack f) \<subseteq> set ?cs"
  proof
    fix c assume "c \<in> affected vi (marks_stack f)"
    then obtain x y t x' y' t' where c: "c = (x, y, t)" "in_map vi (x, y, t)" "(x', y', t') \<in> marks_stack f"
      "x' \<le> x + dx" "x \<le> x' + dx" "y' \<le> y + dy" "y \<le> y' + dy" "circ_dist (dim_t vi) t t' \<le> mt"
      by (rule affected_cases [OF wf _ d, folded f(3-5)])
    then have t': "t' < dim_t vi" "(x', y') \<in> cells2 (f ! t')" using f(1) by (simp_all add: marks_stack_def)
    then have "(x, y) \<in> cells2 (ds ! t')" using dc c by (auto simp: dilates_to_def)
    then show "c \<in> set ?cs" unfolding cs using c cand(2) t'(1) by auto
  qed
  ultimately show ?thesis using res(1,3) inm by blast
qed

interpretation fs: frontier_solver "stack_round dx dy mt" stack_popcount marks_stack
  "\<lambda>vi f. ok_stack dx dy mt vi f \<and> dx < 64" "\<lambda>_. True" for dx dy mt
proof
  show "ok_stack dx dy mt vi' f \<and> dx < 64" if "same_frame vi vi'" "ok_stack dx dy mt vi f \<and> dx < 64" for vi vi' f
    using that by (simp add: ok_stack_def fits_layer_def same_frame_sel [OF that(1)] displacement_frame [OF that(1)])
  show "stack_popcount f = 0 \<longleftrightarrow> marks_stack f = {}" if ok: "ok_stack dx dy mt vi f \<and> dx < 64" for vi f
  proof -
    have "popcount2 b = 0 \<longleftrightarrow> cells2 b = {}" if "b \<in> set f" for b
      using popcount2_pos [of b] ok that by (auto simp: ok_stack_def fits_layer_def)
    then have "stack_popcount f = 0 \<longleftrightarrow> (\<forall>b\<in>set f. cells2 b = {})" by (simp add: stack_popcount_def sum_list_eq_0_iff)
    also have "\<dots> \<longleftrightarrow> marks_stack f = {}" by (force simp: marks_stack_def in_set_conv_nth)
    finally show ?thesis .
  qed
  show "\<exists>r. stack_round dx dy mt vi f = Some r" if ok: "wf_vi vi" "ok_stack dx dy mt vi f \<and> dx < 64" for vi f
  proof -
    obtain ds where "those (map (\<lambda>b. dilate2d b dx dy) f) = Some ds"
      by (rule stack_dilated [of dx dy mt vi f]) (use ok in simp_all)
    then show ?thesis unfolding stack_round_def by (simp only: option.case Let_def) (rule exI, rule refl)
  qed
  show "\<exists>cs. (\<forall>c\<in>set cs. in_map vi c) \<and> affected vi (marks_stack f) \<subseteq> set cs \<union> {c. \<not> free (state_at vi c)} \<and> vi' = fst (relax_list vi cs)
      \<and> set (snd (relax_list vi cs)) \<subseteq> marks_stack f' \<and> (ok_stack dx dy mt vi f' \<and> dx < 64) \<and> u = of_nat (length (snd (relax_list vi cs)))"
    if "wf_vi vi" "ok_stack dx dy mt vi f \<and> dx < 64" "stack_round dx dy mt vi f = Some (vi', f', u)" for vi f vi' f' u
    using stack_round_spec [of vi dx dy mt f vi' f' u] that by blast
qed simp

lemma ok_stack_seed:
  assumes "wf_vi vi" "displacement vi = (mx, my, mt)"
  shows "ok_stack (nat mx) (nat my) (nat mt) vi (stack_seed vi)"
    "consistent_but vi (affected vi (marks_stack (stack_seed vi)))"
proof -
  have seed: "fold (\<lambda>s boards. if total_cost s < MAX_COST
        then boards[nat (st_it s) := set2 (boards ! nat (st_it s)) (nat (st_ix s)) (nat (st_iy s))]
        else boards) ss f = fold stack_mark (map coords (filter (\<lambda>s. total_cost s < MAX_COST) ss)) f" for ss f
    by (induction ss arbitrary: f) (simp_all add: stack_mark_def coords_def)
  have sub: "set (map coords (filter (\<lambda>s. total_cost s < MAX_COST) (states vi))) = seeds vi"
    using seeds_coords [OF assms(1)] by simp
  then have "\<forall>c\<in>set (map coords (filter (\<lambda>s. total_cost s < MAX_COST) (states vi))). in_map vi c"
    by (simp only: sub) (simp add: seeds_def)
  from fold_stack_mark [OF stack_empty_spec(1,2) this] stack_empty_spec(3) sub
  have s: "length (stack_seed vi) = dim_t vi" "\<forall>b\<in>set (stack_seed vi). fits_layer vi b" "marks_stack (stack_seed vi) = seeds vi"
    unfolding stack_seed_def seed by simp_all
  then show "ok_stack (nat mx) (nat my) (nat mt) vi (stack_seed vi)"
    using displacement_theta_le [OF assms] assms(2) by (simp add: ok_stack_def)
  show "consistent_but vi (affected vi (marks_stack (stack_seed vi)))"
    by (rule seeds_consistent [OF assms(1)]) (simp add: s(3))
qed

section \<open>The solvers\<close>

lemma consistent_all:
  assumes "same_frame vi vi' \<and> (conv \<longrightarrow> consistent_but vi' {})" "conv"
  shows "same_frame vi vi' \<and> (\<forall>c. in_map vi c \<longrightarrow> settled vi' c \<or> unreached vi' c)"
proof -
  have fr: "same_frame vi vi'" using assms by blast
  then have "in_map vi' = in_map vi" by (simp add: same_frame_sel)
  then show ?thesis using assms by (auto simp: consistent_but_def simp del: in_map.simps)
qed

text \<open>C1: when \<open>frontier2d_solve_observed\<close> reports convergence, the Bellman equation holds at every
  cell of the map: each free non-goal cell carries the minimal action cost of its neighbourhood and
  the first action that attains it, except cells none of whose in-map successors has a value yet.
  Nothing but values and policies has changed.\<close>

theorem frontier2d_fixpoint:
  assumes "wf_vi vi" and "frontier2d_solve_observed vi max_iter obs o0 = Some (vi', out, o1)" and "o_converged out"
  shows "same_frame vi vi' \<and> (\<forall>c. in_map vi c \<longrightarrow> settled vi' c \<or> unreached vi' c)"
proof -
  obtain mx my mt where d: "displacement vi = (mx, my, mt)" by (rule prod_cases3)
  note seed = ok2_seed [OF assms(1) d]
  from assms(2) d have "frontier_loop (frontier2d_round (nat mx) (nat my)) popcount2 max_iter obs vi
      (seed_frontier_2d vi) 0 0 (pacer_new obs, o0) = Some (vi', out, o1)"
    by (simp add: frontier2d_solve_observed_def)
  from f2.loop_sound [OF assms(1) seed this] assms(3) show ?thesis by (rule consistent_all)
qed

theorem frontier2d_fixpoint_witness:
  "\<exists>vi' out o'. frontier2d_solve_observed corridor 10 quiet_observer () = Some (vi', out, o') \<and> o_converged out
     \<and> (settled vi' (0, 0, 0) \<or> unreached vi' (0, 0, 0))"
proof -
  have "map_option (\<lambda>(_, out, _). o_converged out) (frontier2d_solve_observed corridor 10 quiet_observer ()) = Some True"
    by code_simp
  then obtain vi' out o' where r: "frontier2d_solve_observed corridor 10 quiet_observer () = Some (vi', out, o')" "o_converged out"
    by (rule converged_run)
  moreover have "in_map corridor (0, 0, 0)" by code_simp
  ultimately show ?thesis using frontier2d_fixpoint [OF corridor_wf r] by blast
qed

text \<open>C2: the same for \<open>frontier3d_solve_observed\<close>, whose frontier has a theta axis.\<close>

theorem frontier3d_fixpoint:
  assumes "wf_vi vi" and "fst (displacement vi) < 64"
    and "frontier3d_solve_observed vi max_iter obs o0 = Some (vi', out, o1)" and "o_converged out"
  shows "same_frame vi vi' \<and> (\<forall>c. in_map vi c \<longrightarrow> settled vi' c \<or> unreached vi' c)"
proof -
  obtain mx my mt where d: "displacement vi = (mx, my, mt)" by (rule prod_cases3)
  note seed = ok3_seed [OF assms(1) d]
  have ok: "ok3 (nat mx) (nat my) (nat mt) vi (seed_frontier vi) \<and> nat mx < 64" using seed assms(2) d by simp
  from assms(3) d have run: "frontier_loop (frontier3d_round (nat mx) (nat my) (nat mt)) popcount3 max_iter obs vi
      (seed_frontier vi) 0 0 (pacer_new obs, o0) = Some (vi', out, o1)"
    by (simp add: frontier3d_solve_observed_def)
  from f3.loop_sound [OF assms(1) ok seed(2) run] assms(4) show ?thesis by (rule consistent_all)
qed

theorem frontier3d_fixpoint_witness:
  "\<exists>vi' out o'. frontier3d_solve_observed corridor 10 quiet_observer () = Some (vi', out, o') \<and> o_converged out
     \<and> (settled vi' (1, 0, 0) \<or> unreached vi' (1, 0, 0))"
proof -
  have "map_option (\<lambda>(_, out, _). o_converged out) (frontier3d_solve_observed corridor 10 quiet_observer ()) = Some True"
    by code_simp
  then obtain vi' out o' where r: "frontier3d_solve_observed corridor 10 quiet_observer () = Some (vi', out, o')" "o_converged out"
    by (rule converged_run)
  moreover have "in_map corridor (1, 0, 0)" by code_simp
  moreover have "fst (displacement corridor) < 64" by (simp add: corridor_displacement)
  ultimately show ?thesis using frontier3d_fixpoint [OF corridor_wf _ r] by blast
qed

text \<open>C3: the same for \<open>frontier_stack_solve_observed\<close>, which keeps one planar frontier per theta layer
  and merges the dilated layers within the theta displacement.\<close>

theorem frontier_stack_fixpoint:
  assumes "wf_vi vi" and "fst (displacement vi) < 64"
    and "frontier_stack_solve_observed vi max_iter obs o0 = Some (vi', out, o1)" and "o_converged out"
  shows "same_frame vi vi' \<and> (\<forall>c. in_map vi c \<longrightarrow> settled vi' c \<or> unreached vi' c)"
proof -
  obtain mx my mt where d: "displacement vi = (mx, my, mt)" by (rule prod_cases3)
  note seed = ok_stack_seed [OF assms(1) d]
  have ok: "ok_stack (nat mx) (nat my) (nat mt) vi (stack_seed vi) \<and> nat mx < 64" using seed assms(2) d by simp
  from assms(3) d have run: "frontier_loop (stack_round (nat mx) (nat my) (nat mt)) stack_popcount max_iter obs vi
      (stack_seed vi) 0 0 (pacer_new obs, o0) = Some (vi', out, o1)"
    by (simp add: frontier_stack_solve_observed_def)
  from fs.loop_sound [OF assms(1) ok seed(2) run] assms(4) show ?thesis by (rule consistent_all)
qed

theorem frontier_stack_fixpoint_witness:
  "\<exists>vi' out o'. frontier_stack_solve_observed corridor 10 quiet_observer () = Some (vi', out, o') \<and> o_converged out
     \<and> (settled vi' (1, 0, 0) \<or> unreached vi' (1, 0, 0))"
proof -
  have "map_option (\<lambda>(_, out, _). o_converged out) (frontier_stack_solve_observed corridor 10 quiet_observer ()) = Some True"
    by code_simp
  then obtain vi' out o' where r: "frontier_stack_solve_observed corridor 10 quiet_observer () = Some (vi', out, o')" "o_converged out"
    by (rule converged_run)
  moreover have "in_map corridor (1, 0, 0)" by code_simp
  moreover have "fst (displacement corridor) < 64" by (simp add: corridor_displacement)
  ultimately show ?thesis using frontier_stack_fixpoint [OF corridor_wf _ r] by blast
qed

text \<open>C4: the three solvers return: with a displacement below one word the dilation assertion holds, the
  loop ends within \<open>max_iter\<close> rounds under every observer, and the geometry, the actions and all
  fields of the states but value and policy are untouched.\<close>

theorem frontier_solvers_return:
  assumes "wf_vi vi" and "fst (displacement vi) < 64"
    and "solve \<in> {frontier2d_solve_observed, frontier3d_solve_observed, frontier_stack_solve_observed}"
  shows "\<exists>vi' out o'. solve vi max_iter obs o0 = Some (vi', out, o') \<and> o_iters out \<le> max_iter \<and> same_frame vi vi'"
proof -
  obtain mx my mt where d: "displacement vi = (mx, my, mt)" by (rule prod_cases3)
  then have mx: "nat mx < 64" using assms(2) by simp
  note s2 = ok2_seed [OF assms(1) d] and s3 = ok3_seed [OF assms(1) d] and ss = ok_stack_seed [OF assms(1) d]
  have s3': "ok3 (nat mx) (nat my) (nat mt) vi (seed_frontier vi) \<and> nat mx < 64"
    and ss': "ok_stack (nat mx) (nat my) (nat mt) vi (stack_seed vi) \<and> nat mx < 64" using s3(1) ss(1) mx by auto
  let ?po = "(pacer_new obs, o0)"
  have r2: "\<exists>vi' out o'. frontier_loop (frontier2d_round (nat mx) (nat my)) popcount2 max_iter obs vi (seed_frontier_2d vi) 0 0 ?po
      = Some (vi', out, o') \<and> o_iters out \<le> max_iter \<and> same_frame vi vi'"
    using f2.loop_total [OF assms(1) s2(1) mx] f2.loop_sound [OF assms(1) s2]
    by (metis frontier_loop_outcome le0 prod_cases3)
  have r3: "\<exists>vi' out o'. frontier_loop (frontier3d_round (nat mx) (nat my) (nat mt)) popcount3 max_iter obs vi (seed_frontier vi) 0 0 ?po
      = Some (vi', out, o') \<and> o_iters out \<le> max_iter \<and> same_frame vi vi'"
    using f3.loop_total [OF assms(1) s3'] f3.loop_sound [OF assms(1) s3' s3(2)]
    by (metis frontier_loop_outcome le0 prod_cases3)
  have rs: "\<exists>vi' out o'. frontier_loop (stack_round (nat mx) (nat my) (nat mt)) stack_popcount max_iter obs vi (stack_seed vi) 0 0 ?po
      = Some (vi', out, o') \<and> o_iters out \<le> max_iter \<and> same_frame vi vi'"
    using fs.loop_total [OF assms(1) ss'] fs.loop_sound [OF assms(1) ss' ss(2)]
    by (metis frontier_loop_outcome le0 prod_cases3)
  from assms(3) r2 r3 rs show ?thesis
    by (auto simp: frontier2d_solve_observed_def frontier3d_solve_observed_def frontier_stack_solve_observed_def d)
qed

theorem frontier_solvers_return_witness:
  "\<exists>vi' out o'. frontier3d_solve_observed corridor 10 quiet_observer () = Some (vi', out, o') \<and> o_iters out \<le> 10"
  using frontier_solvers_return [OF corridor_wf, of frontier3d_solve_observed 10 quiet_observer "()"]
  by (auto simp: corridor_displacement)

end
