(* ===== verification/Costs.thy ===== *)
theory Costs
  imports Corridor
begin

text \<open>
  The arithmetic of the Bellman update: when the wrapping \<open>u64\<close> sums are exact, what they are when a
  successor has no value yet, and why a greedy step on a settled field descends.
\<close>

section \<open>The cost of an action\<close>

definition passable :: "value_iterator \<Rightarrow> cell \<Rightarrow> state_transition \<Rightarrow> bool" where
  "passable vi c tr \<longleftrightarrow> (case succ_cell vi tr c of None \<Rightarrow> False | Some c' \<Rightarrow> free (state_at vi c'))"

definition tran_word :: "value_iterator \<Rightarrow> cell \<Rightarrow> state_transition \<Rightarrow> u64" where
  "tran_word vi c tr = (case succ_cell vi tr c of None \<Rightarrow> 0 | Some c' \<Rightarrow>
     total_cost (state_at vi c') + penalty (state_at vi c') + local_penalty (state_at vi c'))"

definition tran_nat :: "value_iterator \<Rightarrow> cell \<Rightarrow> state_transition \<Rightarrow> nat" where
  "tran_nat vi c tr = (case succ_cell vi tr c of None \<Rightarrow> 0 | Some c' \<Rightarrow>
     unat (total_cost (state_at vi c')) + unat (penalty (state_at vi c')) + unat (local_penalty (state_at vi c')))"

lemma cost_loop_eq:
  "cost_loop vi c trs cost =
    (if \<forall>tr\<in>set trs. passable vi c tr
     then drop_bit 18 (cost + (\<Sum>tr\<leftarrow>trs. tran_word vi c tr * word_of_int (prob tr))) else MAX_COST)"
proof (induction trs arbitrary: cost)
  case (Cons tr trs)
  then show ?case
    by (cases "succ_cell vi tr c") (simp_all add: passable_def tran_word_def Let_def add.assoc)
qed simp

definition action_trans :: "action \<Rightarrow> cell \<Rightarrow> state_transition list" where
  "action_trans a c = state_transitions a ! snd (snd c)"

lemma action_cost_eq:
  assumes "wf_vi vi" "in_map vi c" "a \<in> set (actions vi)"
  shows "action_cost vi (state_at vi c) a =
    (if \<forall>tr\<in>set (action_trans a c). passable vi c tr
     then drop_bit 18 (\<Sum>tr\<leftarrow>action_trans a c. tran_word vi c tr * word_of_int (prob tr)) else MAX_COST)"
  unfolding action_cost_cells [OF assms] cost_loop_eq by (simp add: action_trans_def)

text \<open>The bounds under which no intermediate result wraps: probabilities of total mass at most
  \<open>PROB_BASE\<close>, and successor costs below \<open>2^46\<close>.\<close>

definition exact_at :: "value_iterator \<Rightarrow> cell \<Rightarrow> state_transition list \<Rightarrow> bool" where
  "exact_at vi c trs \<longleftrightarrow> (\<forall>tr\<in>set trs. passable vi c tr \<and> 0 \<le> prob tr \<and> tran_nat vi c tr < 2 ^ 46) \<and>
     (\<Sum>tr\<leftarrow>trs. nat (prob tr)) \<le> 2 ^ 18"

lemma unat_tran_word:
  assumes "tran_nat vi c tr < 2 ^ 46"
  shows "unat (tran_word vi c tr) = tran_nat vi c tr"
proof (cases "succ_cell vi tr c")
  case (Some c')
  let ?s = "state_at vi c'"
  have b: "unat (total_cost ?s) + unat (penalty ?s) + unat (local_penalty ?s) < 2 ^ 46"
    using assms Some by (simp add: tran_nat_def)
  then have "unat (total_cost ?s + penalty ?s) = unat (total_cost ?s) + unat (penalty ?s)"
    by (intro unat_add_lem [THEN iffD1]) simp
  with b have "unat (total_cost ?s + penalty ?s + local_penalty ?s) = unat (total_cost ?s) + unat (penalty ?s) + unat (local_penalty ?s)"
    by (subst unat_add_lem [THEN iffD1]) simp_all
  then show ?thesis using Some by (simp add: tran_word_def tran_nat_def)
qed (simp add: tran_word_def tran_nat_def)

lemma sum_words_exact:
  assumes "\<forall>tr\<in>set trs. 0 \<le> prob tr \<and> tran_nat vi c tr < 2 ^ 46"
    and "(\<Sum>tr\<leftarrow>trs. nat (prob tr)) \<le> 2 ^ 18"
  shows "unat (\<Sum>tr\<leftarrow>trs. tran_word vi c tr * word_of_int (prob tr)) = (\<Sum>tr\<leftarrow>trs. tran_nat vi c tr * nat (prob tr))
    \<and> (\<Sum>tr\<leftarrow>trs. tran_nat vi c tr * nat (prob tr)) \<le> (2 ^ 46 - 1) * (\<Sum>tr\<leftarrow>trs. nat (prob tr))"
  using assms
proof (induction trs)
  case (Cons tr trs)
  let ?p = "nat (prob tr)" and ?v = "tran_nat vi c tr" and ?S = "\<Sum>tr\<leftarrow>trs. tran_nat vi c tr * nat (prob tr)"
    and ?P = "\<Sum>tr\<leftarrow>trs. nat (prob tr)"
  have p: "0 \<le> prob tr" "?v < 2 ^ 46" "?p + ?P \<le> 2 ^ 18" using Cons.prems by simp_all
  have IH: "unat (\<Sum>tr\<leftarrow>trs. tran_word vi c tr * word_of_int (prob tr)) = ?S" "?S \<le> (2 ^ 46 - 1) * ?P"
    using Cons.IH Cons.prems by auto
  have m: "?v * ?p \<le> (2 ^ 46 - 1) * ?p" using p(2) by (intro mult_right_mono) simp_all
  then have tot: "?v * ?p + ?S \<le> (2 ^ 46 - 1) * (?p + ?P)" unfolding distrib_left using IH(2) by (rule add_mono)
  also have "\<dots> \<le> (2 ^ 46 - 1) * 2 ^ 18" using p(3) by (intro mult_left_mono) simp_all
  finally have lt: "?v * ?p + ?S < 2 ^ 64" by simp
  have "word_of_int (prob tr) = (of_nat ?p :: u64)" using p(1) by (metis int_nat_eq of_int_of_nat_eq)
  then have up: "unat (word_of_int (prob tr) :: u64) = ?p" using p(3) by (simp add: unsigned_of_nat take_bit_nat_eq_self)
  have "unat (tran_word vi c tr * word_of_int (prob tr)) = ?v * ?p"
    using unat_mult_lem [of "tran_word vi c tr" "word_of_int (prob tr)"] unat_tran_word [OF p(2)] up lt by simp
  then have "unat (tran_word vi c tr * word_of_int (prob tr) + (\<Sum>tr\<leftarrow>trs. tran_word vi c tr * word_of_int (prob tr))) = ?v * ?p + ?S"
    using unat_add_lem [of "tran_word vi c tr * word_of_int (prob tr)" "\<Sum>tr\<leftarrow>trs. tran_word vi c tr * word_of_int (prob tr)"]
      IH(1) lt by simp
  with tot show ?case by simp
qed simp

lemma action_cost_exact_nat:
  assumes "wf_vi vi" "in_map vi c" "a \<in> set (actions vi)" "exact_at vi c (action_trans a c)"
  shows "unat (action_cost vi (state_at vi c) a) =
    (\<Sum>tr\<leftarrow>action_trans a c. tran_nat vi c tr * nat (prob tr)) div 2 ^ 18"
proof -
  have "unat (\<Sum>tr\<leftarrow>action_trans a c. tran_word vi c tr * word_of_int (prob tr)) =
      (\<Sum>tr\<leftarrow>action_trans a c. tran_nat vi c tr * nat (prob tr))"
    using sum_words_exact [of "action_trans a c" vi c] assms(4) by (simp add: exact_at_def)
  then show ?thesis
    using assms(4) unfolding action_cost_eq [OF assms(1-3)]
    by (simp add: exact_at_def drop_bit_eq_div unat_div)
qed

section \<open>The minimum\<close>

lemma argmin_fold:
  fixes cost :: "'a \<Rightarrow> u64"
  defines "step \<equiv> \<lambda>(ai, a) (m, b). let c = cost a in if c < m then (c, Some ai) else (m, b)"
  shows "case fold step (List.enumerate k acts) (m, b) of (m', b') \<Rightarrow>
     m' \<le> m \<and> (\<forall>a\<in>set acts. m' \<le> cost a) \<and>
     (m' < m \<longrightarrow> (\<exists>i<length acts. b' = Some (k + i) \<and> cost (acts ! i) = m' \<and> (\<forall>j<i. m' < cost (acts ! j)))) \<and>
     (m' = m \<longrightarrow> b' = b)"
proof (induction acts arbitrary: k m b)
  case (Cons a acts)
  let ?m = "if cost a < m then cost a else m" and ?b = "if cost a < m then Some k else b"
  obtain m' b' where r: "fold step (List.enumerate (Suc k) acts) (?m, ?b) = (m', b')" by fastforce
  have IH: "m' \<le> ?m" "\<forall>a\<in>set acts. m' \<le> cost a"
    "m' < ?m \<longrightarrow> (\<exists>i<length acts. b' = Some (Suc k + i) \<and> cost (acts ! i) = m' \<and> (\<forall>j<i. m' < cost (acts ! j)))"
    "m' = ?m \<longrightarrow> b' = ?b"
    using Cons [where k = "Suc k" and m = ?m and b = ?b] unfolding r by simp_all
  have s: "fold step (List.enumerate k (a # acts)) (m, b) = (m', b')"
    using r by (simp add: step_def Let_def split: if_splits)
  have ma: "?m \<le> cost a" "?m \<le> m" by (auto simp: not_less)
  have "\<exists>i<length (a # acts). b' = Some (k + i) \<and> cost ((a # acts) ! i) = m' \<and> (\<forall>j<i. m' < cost ((a # acts) ! j))"
    if lt: "m' < m"
  proof (cases "m' < ?m")
    case True
    then obtain i where i: "i < length acts" "b' = Some (Suc k + i)" "cost (acts ! i) = m'" "\<forall>j<i. m' < cost (acts ! j)"
      using IH(3) by blast
    have "m' < cost a" using True ma(1) by simp
    with i show ?thesis by (intro exI [of _ "Suc i"]) (auto simp: nth_Cons split: nat.splits)
  next
    case False
    then have "m' = ?m" using IH(1) by simp
    with lt IH(4) show ?thesis by (intro exI [of _ 0]) (auto split: if_splits)
  qed
  moreover have "m' = m \<longrightarrow> b' = b"
    using IH(1,4) ma by (auto split: if_splits)
  moreover have "m' \<le> m" "m' \<le> cost a" using IH(1) ma by (metis order.trans)+
  ultimately show ?case unfolding s using IH(2) by simp
qed simp

text \<open>What a settled cell promises: its value is the minimum over the actions, capped at \<open>MAX_COST\<close>, and
  its policy is the first action that attains it.\<close>

lemma settled_value:
  assumes wf: "wf_vi vi" "in_map vi c" and s: "settled vi c" and live: "free (state_at vi c)" "\<not> final_state (state_at vi c)"
  shows "total_cost (state_at vi c) \<le> MAX_COST"
    and "\<forall>a\<in>set (actions vi). total_cost (state_at vi c) \<le> action_cost vi (state_at vi c) a"
    and "total_cost (state_at vi c) < MAX_COST \<longrightarrow> (\<exists>i<length (actions vi). optimal_action (state_at vi c) = Some i \<and>
       action_cost vi (state_at vi c) (actions vi ! i) = total_cost (state_at vi c) \<and>
       (\<forall>j<i. total_cost (state_at vi c) < action_cost vi (state_at vi c) (actions vi ! j)))"
    and "total_cost (state_at vi c) = MAX_COST \<longrightarrow> optimal_action (state_at vi c) = None"
proof -
  let ?f = "\<lambda>a. action_cost vi (state_at vi c) a"
  obtain m b where mb: "fold (\<lambda>(ai, a) (m, b). let c = ?f a in if c < m then (c, Some ai) else (m, b))
      (List.enumerate 0 (actions vi)) (MAX_COST, None) = (m, b)" by fastforce
  then have "bellman_update vi (cidx vi c) = Some (m, b)"
    using live by (simp add: bellman_update_def min_action_cost_def state_at_def action_cost_def)
  then have v: "total_cost (state_at vi c) = m" "optimal_action (state_at vi c) = b"
    using s by (simp_all add: settled_def)
  from argmin_fold [where cost = ?f and k = 0 and acts = "actions vi" and m = MAX_COST and b = None] mb v
  show "total_cost (state_at vi c) \<le> MAX_COST"
    "\<forall>a\<in>set (actions vi). total_cost (state_at vi c) \<le> ?f a"
    "total_cost (state_at vi c) < MAX_COST \<longrightarrow> (\<exists>i<length (actions vi). optimal_action (state_at vi c) = Some i \<and>
       ?f (actions vi ! i) = total_cost (state_at vi c) \<and> (\<forall>j<i. total_cost (state_at vi c) < ?f (actions vi ! j)))"
    "total_cost (state_at vi c) = MAX_COST \<longrightarrow> optimal_action (state_at vi c) = None"
    by simp_all
qed

section \<open>Descent\<close>

text \<open>A weighted mean of natural numbers has a term that does not exceed it.\<close>

lemma weighted_mean:
  fixes v w :: "'a \<Rightarrow> nat"
  assumes "(\<Sum>x\<leftarrow>xs. v x * w x) < (m + 1) * (\<Sum>x\<leftarrow>xs. w x)"
  obtains x where "x \<in> set xs" "0 < w x" "v x \<le> m"
proof -
  have "\<exists>x\<in>set xs. 0 < w x \<and> v x \<le> m"
  proof (rule ccontr)
    assume na: "\<not> (\<exists>x\<in>set xs. 0 < w x \<and> v x \<le> m)"
    have le: "(m + 1) * w x \<le> v x * w x" if x: "x \<in> set xs" for x
    proof (cases "w x = 0")
      case False
      then have "m + 1 \<le> v x" using na x by (auto simp: not_le)
      then show ?thesis by (rule mult_le_mono1)
    qed simp
    have "(\<Sum>x\<leftarrow>xs. (m + 1) * w x) \<le> (\<Sum>x\<leftarrow>xs. v x * w x)" by (rule sum_list_mono) (rule le)
    then have "(m + 1) * (\<Sum>x\<leftarrow>xs. w x) \<le> (\<Sum>x\<leftarrow>xs. v x * w x)" by (simp only: sum_list_const_mult)
    from leD [OF this] assms show False by contradiction
  qed
  with that show thesis by blast
qed

lemma below_next_multiple: "(n::nat) < (n div 2 ^ k + 1) * 2 ^ k"
proof -
  have "n = n div 2 ^ k * 2 ^ k + n mod 2 ^ k" by (rule div_mult_mod_eq [symmetric])
  also have "\<dots> < n div 2 ^ k * 2 ^ k + 2 ^ k" by (intro add_strict_left_mono mod_less_divisor) simp
  finally show ?thesis by simp
qed

lemma greedy_successor:
  assumes wf: "wf_vi vi" "in_map vi c" and s: "settled vi c" and live: "free (state_at vi c)" "\<not> final_state (state_at vi c)"
    and v: "total_cost (state_at vi c) < MAX_COST"
    and a: "optimal_action (state_at vi c) = Some i" and ex: "exact_at vi c (action_trans (actions vi ! i) c)"
    and mass: "(\<Sum>tr\<leftarrow>action_trans (actions vi ! i) c. nat (prob tr)) = 2 ^ 18"
  obtains tr c' where "tr \<in> set (action_trans (actions vi ! i) c)" "0 < prob tr" "succ_cell vi tr c = Some c'"
    "free (state_at vi c')"
    "unat (total_cost (state_at vi c')) + unat (penalty (state_at vi c')) + unat (local_penalty (state_at vi c'))
      \<le> unat (total_cost (state_at vi c))"
proof -
  let ?trs = "action_trans (actions vi ! i) c" and ?V = "unat (total_cost (state_at vi c))"
  from settled_value(3) [OF wf s live] v a have i: "i < length (actions vi)"
    "action_cost vi (state_at vi c) (actions vi ! i) = total_cost (state_at vi c)" by auto
  have "?V = (\<Sum>tr\<leftarrow>?trs. tran_nat vi c tr * nat (prob tr)) div 2 ^ 18"
    using action_cost_exact_nat [OF wf nth_mem [OF i(1)] ex] i(2) by simp
  then have "(\<Sum>tr\<leftarrow>?trs. tran_nat vi c tr * nat (prob tr)) < (?V + 1) * 2 ^ 18"
    using below_next_multiple by simp
  then have "(\<Sum>tr\<leftarrow>?trs. tran_nat vi c tr * nat (prob tr)) < (?V + 1) * (\<Sum>tr\<leftarrow>?trs. nat (prob tr))" by (simp only: mass)
  then obtain tr where tr: "tr \<in> set ?trs" "0 < nat (prob tr)" "tran_nat vi c tr \<le> ?V" by (rule weighted_mean)
  then have "passable vi c tr" using ex by (simp add: exact_at_def)
  then obtain c' where c': "succ_cell vi tr c = Some c'" "free (state_at vi c')"
    by (auto simp: passable_def split: option.splits)
  with tr show thesis by (intro that [of tr c']) (simp_all add: tran_nat_def)
qed

section \<open>Properties\<close>

text \<open>C22: the fixed-point sum of \<open>action_cost_raw\<close> is exact: if every outcome of the action stays on free cells
  of the map, the outcome probabilities are non-negative with mass at most \<open>PROB_BASE\<close> and every successor's
  value plus penalties is below \<open>2^46\<close>, then no \<open>u64\<close> operation wraps and the result is the
  expectation of value plus penalties, rounded down.\<close>

theorem action_cost_exact:
  assumes "wf_vi vi" and "in_map vi c" and "a \<in> set (actions vi)" and "exact_at vi c (action_trans a c)"
  shows "unat (action_cost vi (state_at vi c) a) =
    (\<Sum>tr\<leftarrow>action_trans a c. tran_nat vi c tr * nat (prob tr)) div 2 ^ PROB_BASE_BIT"
  using action_cost_exact_nat [OF assms] by simp

theorem action_cost_exact_witness:
  "unat (action_cost corridor_solved (state_at corridor_solved (0, 0, 0)) (corridor_action 1)) = 524288"
proof -
  have "exact_at corridor_solved (0, 0, 0) (action_trans (corridor_action 1) (0, 0, 0))"
    "in_map corridor_solved (0, 0, 0)"
    "(\<Sum>tr\<leftarrow>action_trans (corridor_action 1) (0, 0, 0). tran_nat corridor_solved (0, 0, 0) tr * nat (prob tr)) = 524288 * 2 ^ PROB_BASE_BIT"
    by (simp_all add: exact_at_def action_trans_def corridor_action_def passable_def tran_nat_def succ_cell_def
        corridor_solved_def corridor_of_def corridor_state_def state_at_def dim_x_def dim_y_def dim_t_def)
  moreover have "corridor_action 1 \<in> set (actions corridor_solved)" by (simp add: corridor_solved_def corridor_of_def)
  ultimately show ?thesis using action_cost_exact [OF corridor_solved_wf, of "(0, 0, 0)" "corridor_action 1"] by simp
qed

text \<open>An action of which some outcome leaves the map or hits an occupied cell costs exactly \<open>MAX_COST\<close>, wherever
  that outcome stands in the transition list; otherwise the cost is the wrapped sum shifted down.\<close>

theorem action_cost_branches:
  assumes "wf_vi vi" and "in_map vi c" and "a \<in> set (actions vi)"
  shows "action_cost vi (state_at vi c) a =
    (if \<forall>tr\<in>set (action_trans a c). passable vi c tr
     then drop_bit PROB_BASE_BIT (\<Sum>tr\<leftarrow>action_trans a c. tran_word vi c tr * word_of_int (prob tr)) else MAX_COST)"
  using action_cost_eq [OF assms] by simp

theorem action_cost_branches_witness:
  "action_cost corridor (state_at corridor (0, 0, 0)) (corridor_action (- 1)) = MAX_COST"
proof -
  have "corridor_action (- 1) \<in> set (actions corridor)" "in_map corridor (0, 0, 0)"
    "\<not> (\<forall>tr\<in>set (action_trans (corridor_action (- 1)) (0, 0, 0)). passable corridor (0, 0, 0) tr)"
    by (simp_all add: action_trans_def corridor_action_def passable_def succ_cell_def corridor_def corridor_of_def
        dim_x_def dim_y_def dim_t_def)
  then show ?thesis using action_cost_branches [OF corridor_wf, of "(0, 0, 0)" "corridor_action (- 1)"] by presburger
qed

text \<open>C21: at a settled free non-goal cell the value is the minimum of the action costs capped at \<open>MAX_COST\<close>; the
  policy is the first action that attains it, and it is \<open>None\<close> exactly when no action is below
  \<open>MAX_COST\<close>.\<close>

theorem settled_optimal:
  assumes "wf_vi vi" and "in_map vi c" and "settled vi c" and "free (state_at vi c)" and "\<not> final_state (state_at vi c)"
  shows "(\<forall>a\<in>set (actions vi). total_cost (state_at vi c) \<le> action_cost vi (state_at vi c) a) \<and>
    (case optimal_action (state_at vi c) of
       None \<Rightarrow> total_cost (state_at vi c) = MAX_COST
     | Some i \<Rightarrow> i < length (actions vi) \<and> total_cost (state_at vi c) < MAX_COST \<and>
         action_cost vi (state_at vi c) (actions vi ! i) = total_cost (state_at vi c) \<and>
         (\<forall>j<i. total_cost (state_at vi c) < action_cost vi (state_at vi c) (actions vi ! j)))"
proof -
  note v = settled_value [OF assms]
  show ?thesis
  proof (cases "total_cost (state_at vi c) = MAX_COST")
    case False
    then have "total_cost (state_at vi c) < MAX_COST" using v(1) by simp
    with v show ?thesis by auto
  qed (use v in auto)
qed

theorem settled_optimal_witness:
  "settled corridor_solved (0, 0, 0) \<and>
   524288 \<le> action_cost corridor_solved (state_at corridor_solved (0, 0, 0)) (corridor_action 1) \<and>
   524288 \<le> action_cost corridor_solved (state_at corridor_solved (0, 0, 0)) (corridor_action (- 1))"
proof -
  have "settled corridor_solved (0, 0, 0)" "in_map corridor_solved (0, 0, 0)" "free (state_at corridor_solved (0, 0, 0))"
    "\<not> final_state (state_at corridor_solved (0, 0, 0))" "total_cost (state_at corridor_solved (0, 0, 0)) = 524288"
    by code_simp+
  moreover have "corridor_action 1 \<in> set (actions corridor_solved)" "corridor_action (- 1) \<in> set (actions corridor_solved)"
    by (simp_all add: corridor_solved_def corridor_of_def)
  ultimately show ?thesis using settled_optimal [OF corridor_solved_wf, of "(0, 0, 0)"] by auto
qed

text \<open>C20: on a settled field the greedy action makes progress: where the costs are exact, the action's
  probability mass is \<open>PROB_BASE\<close> and the cells of the map carry at least the base penalty, some outcome of the
  chosen action that has positive probability reaches a free cell whose value is lower by at least
  \<open>PROB_BASE\<close>.\<close>

theorem greedy_descends:
  assumes "wf_vi vi" and "in_map vi c" and "settled vi c" and "free (state_at vi c)" and "\<not> final_state (state_at vi c)"
    and "total_cost (state_at vi c) < MAX_COST" and "optimal_action (state_at vi c) = Some i"
    and "exact_at vi c (action_trans (actions vi ! i) c)"
    and "(\<Sum>tr\<leftarrow>action_trans (actions vi ! i) c. nat (prob tr)) = 2 ^ PROB_BASE_BIT"
    and "\<forall>s\<in>set (states vi). PROB_BASE \<le> penalty s"
  shows "\<exists>tr\<in>set (action_trans (actions vi ! i) c). \<exists>c'. 0 < prob tr \<and> succ_cell vi tr c = Some c' \<and> free (state_at vi c')
    \<and> unat (total_cost (state_at vi c')) + unat PROB_BASE \<le> unat (total_cost (state_at vi c))"
proof -
  have mass: "(\<Sum>tr\<leftarrow>action_trans (actions vi ! i) c. nat (prob tr)) = 2 ^ 18" using assms(9) by simp
  obtain tr c' where tr: "tr \<in> set (action_trans (actions vi ! i) c)" "0 < prob tr" "succ_cell vi tr c = Some c'"
    "free (state_at vi c')"
    "unat (total_cost (state_at vi c')) + unat (penalty (state_at vi c')) + unat (local_penalty (state_at vi c'))
      \<le> unat (total_cost (state_at vi c))"
    by (rule greedy_successor [OF assms(1-8) mass])
  have "state_at vi c' \<in> set (states vi)"
    using state_list_cells [OF assms(1)] succ_cell_in_map [OF assms(1) tr(3)] by blast
  then have "unat PROB_BASE \<le> unat (penalty (state_at vi c'))" using assms(10) by (simp only: word_le_nat_alt)
  with tr show ?thesis by (intro bexI [of _ tr] exI [of _ c']) linarith+
qed

theorem greedy_descends_witness:
  "\<exists>tr\<in>set (action_trans (actions corridor_solved ! 0) (0, 0, 0)). \<exists>c'. 0 < prob tr \<and>
     succ_cell corridor_solved tr (0, 0, 0) = Some c' \<and> free (state_at corridor_solved c')
    \<and> unat (total_cost (state_at corridor_solved c')) + unat PROB_BASE \<le> unat (total_cost (state_at corridor_solved (0, 0, 0)))"
proof (rule greedy_descends)
  show "exact_at corridor_solved (0, 0, 0) (action_trans (actions corridor_solved ! 0) (0, 0, 0))"
    by (simp add: exact_at_def action_trans_def corridor_action_def passable_def tran_nat_def succ_cell_def
        corridor_solved_def corridor_of_def corridor_state_def state_at_def dim_x_def dim_y_def dim_t_def)
  show "(\<Sum>tr\<leftarrow>action_trans (actions corridor_solved ! 0) (0, 0, 0). nat (prob tr)) = 2 ^ PROB_BASE_BIT"
    by (simp add: action_trans_def corridor_action_def corridor_solved_def corridor_of_def)
qed (rule corridor_solved_wf, code_simp+)

text \<open>C23: an action all of whose outcomes lead to free cells that no value has reached yet and that have the
  base penalty only, without margin or local penalty, with probabilities that sum to \<open>2 ^ 18\<close>, does not cost
  \<open>MAX_COST\<close>: the product wraps and the cost is \<open>194693633 * PROB_BASE\<close>, below \<open>MAX_COST\<close>.\<close>

theorem unreached_successor_wraps:
  assumes "wf_vi vi" and "in_map vi c" and "a \<in> set (actions vi)"
    and "\<forall>tr\<in>set (action_trans a c). passable vi c tr \<and> tran_word vi c tr = MAX_COST + PROB_BASE"
    and "(\<Sum>tr\<leftarrow>action_trans a c. prob tr) = 2 ^ PROB_BASE_BIT"
  shows "action_cost vi (state_at vi c) a = 194693633 * PROB_BASE \<and> 194693633 * PROB_BASE < MAX_COST"
proof -
  let ?trs = "action_trans a c"
  have "(\<Sum>tr\<leftarrow>?trs. tran_word vi c tr * word_of_int (prob tr)) = (\<Sum>tr\<leftarrow>?trs. (MAX_COST + PROB_BASE) * word_of_int (prob tr))"
    using assms(4) by (intro arg_cong [where f = sum_list] map_cong) simp_all
  also have "\<dots> = (MAX_COST + PROB_BASE) * word_of_int (\<Sum>tr\<leftarrow>?trs. prob tr)"
  proof -
    have "word_of_int (\<Sum>tr\<leftarrow>ts. prob tr) = (\<Sum>tr\<leftarrow>ts. word_of_int (prob tr) :: u64)" for ts :: "state_transition list"
      by (induction ts) simp_all
    then show ?thesis by (simp only: sum_list_const_mult)
  qed
  also have "\<dots> = 194693633 * 2 ^ 36" using assms(5) by (simp add: MAX_COST_eq PROB_BASE_eq)
  finally show ?thesis
    using action_cost_eq [OF assms(1-3)] assms(4) by (simp add: PROB_BASE_eq MAX_COST_eq drop_bit_eq_div)
qed

theorem unreached_successor_wraps_witness:
  "action_cost corridor (state_at corridor (0, 0, 0)) (corridor_action 1) = 194693633 * PROB_BASE"
proof -
  have "corridor_action 1 \<in> set (actions corridor)" "in_map corridor (0, 0, 0)"
    "\<forall>tr\<in>set (action_trans (corridor_action 1) (0, 0, 0)). passable corridor (0, 0, 0) tr \<and> tran_word corridor (0, 0, 0) tr = MAX_COST + PROB_BASE"
    "(\<Sum>tr\<leftarrow>action_trans (corridor_action 1) (0, 0, 0). prob tr) = 2 ^ PROB_BASE_BIT"
    by (simp_all add: action_trans_def corridor_action_def passable_def tran_word_def succ_cell_def corridor_def corridor_of_def
        corridor_state_def state_at_def dim_x_def dim_y_def dim_t_def)
  then show ?thesis using unreached_successor_wraps [OF corridor_wf, of "(0, 0, 0)" "corridor_action 1"] by blast
qed

end
