(* ===== verification/Block.thy ===== *)
theory Block
  imports Frontier
begin

text \<open>
  The block solvers (\<^verbatim>\<open>solvers/block.rs\<close>, \<^verbatim>\<open>solvers/pyramid.rs\<close>): the map is cut into square blocks,
  a block whose values moved activates the passable blocks within the block displacement, and an
  active block is swept \<open>local_sweeps\<close> times. The pyramid runs the same solver on a schedule of
  shrinking block sizes.

  The block round interprets the locale \<open>frontier_solver\<close>: a block frontier marks all cells of its
  blocks, and a block is left out of the round only when it holds no free cell.
\<close>

section \<open>The code\<close>

definition BLOCK :: i32 where "BLOCK = 8"
definition LOCAL_SWEEPS :: nat where "LOCAL_SWEEPS = 2"

definition update_block_cell ::
  "i32 \<times> i32 \<times> i32 \<Rightarrow> value_iterator \<times> bool \<times> u64 \<Rightarrow> value_iterator \<times> bool \<times> u64" where
  "update_block_cell = (\<lambda>(ix, iy, it) (vi, changed, updates).
     let idx = usize_of (to_index vi ix iy it);
         (vi', d) = value_iteration_at vi idx
     in if 0 < d then (vi', True, updates + 1) else (vi', changed, updates))"

definition update_block ::
  "value_iterator \<Rightarrow> i32 \<Rightarrow> i32 \<Rightarrow> i32 \<Rightarrow> i32 \<Rightarrow> nat \<Rightarrow> value_iterator \<times> bool \<times> u64" where
  "update_block vi x0 x1 y0 y1 local_passes =
     fold (\<lambda>_. fold (\<lambda>iy. fold (\<lambda>ix. fold (\<lambda>it. update_block_cell (ix, iy, it))
       [0..cell_num_t vi - 1]) [x0..x1]) [y0..y1]) [0..<local_passes] (vi, False, 0)"

definition ceil_div :: "i32 \<Rightarrow> i32 \<Rightarrow> i32" where
  "ceil_div a b = wrap32 (a + b - 1) sdiv b"

definition bidx :: "i32 \<Rightarrow> i32 \<Rightarrow> i32 \<Rightarrow> nat" where
  "bidx n_bx bx by' = usize_of (wrap32 (by' * n_bx + bx))"

text \<open>The two masks computed from the states: blocks with a free cell, blocks with a seed.\<close>

definition block_mask :: "(state \<Rightarrow> bool) \<Rightarrow> i32 \<Rightarrow> i32 \<Rightarrow> nat \<Rightarrow> value_iterator \<Rightarrow> bool list" where
  "block_mask p block n_bx nb vi =
     fold (\<lambda>s m. if p s then m[bidx n_bx (st_ix s sdiv block) (st_iy s sdiv block) := True] else m)
       (states vi) (replicate nb False)"

definition block_activate :: "bool list \<Rightarrow> i32 \<Rightarrow> i32 \<Rightarrow> i32 \<times> i32 \<Rightarrow> bool list \<Rightarrow> bool list" where
  "block_activate passable n_bx n_by = (\<lambda>(jx, jy) active.
     if jy < 0 \<or> n_by \<le> jy then active
     else if jx < 0 \<or> n_bx \<le> jx then active
     else let j = bidx n_bx jx jy in if passable ! j then active[j := True] else active)"

definition block_active :: "bool list \<Rightarrow> i32 \<Rightarrow> i32 \<Rightarrow> i32 \<Rightarrow> i32 \<Rightarrow> nat \<Rightarrow> bool list \<Rightarrow> bool list" where
  "block_active passable n_bx n_by rx ry nb frontier =
     fold (\<lambda>by'. fold (\<lambda>bx active.
       if \<not> frontier ! bidx n_bx bx by' then active
       else fold (\<lambda>dby. fold (\<lambda>dbx. block_activate passable n_bx n_by (bx + dbx, by' + dby)) [- rx..rx])
              [- ry..ry] active) [0..n_bx - 1]) [0..n_by - 1] (replicate nb False)"

definition block_visit ::
  "i32 \<Rightarrow> nat \<Rightarrow> i32 \<Rightarrow> i32 \<times> i32 \<Rightarrow> value_iterator \<times> bool list \<times> u64 \<Rightarrow> value_iterator \<times> bool list \<times> u64" where
  "block_visit block local_sweeps n_bx = (\<lambda>(bx, by') (vi, next, updates).
     let y0 = by' * block;
         y1 = min ((by' + 1) * block) (cell_num_y vi) - 1;
         x0 = bx * block;
         x1 = min ((bx + 1) * block) (cell_num_x vi) - 1
     in case update_block vi x0 x1 y0 y1 local_sweeps of (vi', changed, u) \<Rightarrow>
          (vi', if changed then next[bidx n_bx bx by' := True] else next, updates + u))"

definition block_round ::
  "i32 \<Rightarrow> nat \<Rightarrow> i32 \<Rightarrow> i32 \<Rightarrow> i32 \<Rightarrow> i32 \<Rightarrow> bool list \<Rightarrow> value_iterator \<Rightarrow> bool list
     \<Rightarrow> (value_iterator \<times> bool list \<times> u64) option" where
  "block_round block local_sweeps n_bx n_by rx ry passable vi frontier =
     (let nb = length frontier;
          active = block_active passable n_bx n_by rx ry nb frontier
      in Some (fold (\<lambda>by'. fold (\<lambda>bx acc. if \<not> active ! bidx n_bx bx by' then acc
            else block_visit block local_sweeps n_bx (bx, by') acc) [0..n_bx - 1]) [0..n_by - 1]
          (vi, replicate nb False, 0)))"

text \<open>\<open>any\<close>: the number of marked blocks, which is zero exactly when none is marked.\<close>

definition block_count :: "bool list \<Rightarrow> nat" where
  "block_count m = length (filter (\<lambda>b. b) m)"

definition block_refine_sized ::
  "i32 \<Rightarrow> nat \<Rightarrow> value_iterator \<Rightarrow> nat \<Rightarrow> 'o solve_observer \<Rightarrow> 'o \<Rightarrow> (value_iterator \<times> solve_outcome \<times> 'o) option" where
  "block_refine_sized block local_sweeps vi max_iter obs o' =
     (let n_bx = ceil_div (cell_num_x vi) block;
          n_by = ceil_div (cell_num_y vi) block;
          nb = usize_of (wrap32 (n_bx * n_by));
          passable = block_mask free block n_bx nb vi;
          frontier = block_mask (\<lambda>s. total_cost s < MAX_COST) block n_bx nb vi
      in case displacement vi of (mx, my, _) \<Rightarrow>
        frontier_loop (block_round block local_sweeps n_bx n_by (ceil_div mx block) (ceil_div my block) passable)
          block_count max_iter obs vi frontier 0 0 (pacer_new obs, o'))"

definition block_refine_solve_observed ::
  "value_iterator \<Rightarrow> nat \<Rightarrow> 'o solve_observer \<Rightarrow> 'o \<Rightarrow> (value_iterator \<times> solve_outcome \<times> 'o) option" where
  "block_refine_solve_observed vi max_iter obs o' = block_refine_sized BLOCK LOCAL_SWEEPS vi max_iter obs o'"

subsection \<open>The pyramid schedule\<close>

definition FINEST :: i32 where "FINEST = 8"
definition COARSE_BUDGET :: nat where "COARSE_BUDGET = 4"

definition pyramid_sizes :: "i32 \<Rightarrow> i32 list" where
  "pyramid_sizes max_dim = filter (\<lambda>s. FINEST < s \<and> s < max_dim) [64, 32, 16] @ [FINEST]"

text \<open>The level loop. \<open>conv\<close> is the convergence of the last level that ran.\<close>

fun pyramid_levels ::
  "i32 list \<Rightarrow> value_iterator \<Rightarrow> nat \<Rightarrow> 'o solve_observer \<Rightarrow> 'o \<Rightarrow> nat \<Rightarrow> u64 \<Rightarrow> bool
     \<Rightarrow> (value_iterator \<times> solve_outcome \<times> 'o) option" where
  "pyramid_levels [] vi max_iter obs o' iters updates conv = Some (vi, outcome_running iters updates conv, o')"
| "pyramid_levels (block # sizes) vi max_iter obs o' iters updates conv =
     (let budget = (if sizes = [] then max_iter - iters else COARSE_BUDGET) in
      case block_refine_sized block LOCAL_SWEEPS vi budget (offset_observer iters updates obs) o' of
        None \<Rightarrow> None
      | Some (vi', out, o'') \<Rightarrow>
          let iters' = min (2 ^ 32 - 1) (iters + o_iters out);
              updates' = updates + o_updates out
          in if o_stopped out \<or> o_cancelled out
             then Some (vi', out\<lparr>o_iters := iters', o_updates := updates'\<rparr>, o'')
             else if max_iter \<le> iters' then Some (vi', outcome_running iters' updates' (o_converged out), o'')
             else pyramid_levels sizes vi' max_iter obs o'' iters' updates' (o_converged out))"

definition pyramid_sweep_solve_observed ::
  "value_iterator \<Rightarrow> nat \<Rightarrow> 'o solve_observer \<Rightarrow> 'o \<Rightarrow> (value_iterator \<times> solve_outcome \<times> 'o) option" where
  "pyramid_sweep_solve_observed vi max_iter obs o' =
     pyramid_levels (pyramid_sizes (max (cell_num_x vi) (cell_num_y vi))) vi max_iter obs o' 0 0 False"


section \<open>Block arithmetic\<close>

lemma ceil_div_int:
  assumes "0 \<le> a" "0 < b" "a + b \<le> 2 ^ 31"
  shows "ceil_div a b = int (div_ceil (nat a) (nat b))"
proof -
  have "wrap32 (a + b - 1) = a + b - 1" using assms by (simp add: wrap32_id)
  moreover have "(a + b - 1) sdiv b = (a + b - 1) div b"
  proof (cases "a + b - 1 = 0")
    case False
    then have "sgn (a + b - 1) = 1" "sgn b = 1" using assms by (simp_all add: sgn_if)
    then show ?thesis using assms by (simp add: signed_divide_int_def)
  qed (simp add: signed_divide_int_def)
  moreover have "a + b - 1 = int (nat a + nat b - 1)" using assms by linarith
  ultimately show ?thesis using assms by (simp add: ceil_div_def div_ceil_def zdiv_int del: of_nat_diff)
qed

lemma div_less_blocks:
  assumes "0 < b" "x < n"
  shows "x div b < div_ceil n b"
proof (cases "n mod b = 0")
  case True
  then have "n = n div b * b" by (metis add.right_neutral div_mult_mod_eq)
  then have "x < n div b * b" using assms(2) by simp
  then show ?thesis using assms True by (simp add: div_ceil_eq less_mult_imp_div_less)
next
  case False
  have "x div b \<le> n div b" using assms(2) by (intro div_le_mono) simp
  then show ?thesis using assms False by (simp add: div_ceil_eq)
qed

lemma block_distance:
  assumes "0 < b" "x \<le> x' + (m::nat)"
  shows "x div b \<le> x' div b + div_ceil m b"
proof -
  have "x div b \<le> (x' + m) div b" using assms(2) by (rule div_le_mono)
  also have "\<dots> \<le> x' div b + div_ceil m b"
  proof (cases "m mod b = 0")
    case True
    then have k: "m = m div b * b" by (metis add.right_neutral div_mult_mod_eq)
    have "(x' + m div b * b) div b = x' div b + m div b" using assms(1) by simp
    then show ?thesis using assms(1) True k by (simp add: div_ceil_eq)
  next
    case False
    have "(x' + m) div b \<le> x' div b + m div b + 1"
    proof -
      have "x' mod b + m mod b < 2 * b" using mod_less_divisor [OF assms(1)] by (simp add: add_less_le_mono less_imp_le mult_2)
      then have "(x' mod b + m mod b) div b < 2" by (rule less_mult_imp_div_less)
      then show ?thesis by (simp add: div_add1_eq [of x' m b])
    qed
    then show ?thesis using assms(1) False by (simp add: div_ceil_eq)
  qed
  finally show ?thesis .
qed

lemma upto_map_int: "[int a..int c - 1] = map int [a..<c]"
proof (induction c)
  case (Suc c)
  show ?case
  proof (cases "a \<le> c")
    case True
    then have "[int a..int (Suc c) - 1] = [int a..int c - 1] @ [int c]" by (simp add: upto_rec2)
    with Suc True show ?thesis by simp
  qed simp
qed simp

lemma bidx_nat:
  assumes "bx < nbx" "by' < nby" "nby * nbx < 2 ^ 31"
  shows "bidx (int nbx) (int bx) (int by') = by' * nbx + bx"
proof -
  have l: "by' * nbx + bx < 2 ^ 31" using row_major_less [OF assms(2,1)] assms(3) by linarith
  then have "int (by' * nbx + bx) < 2 ^ 31" by (metis of_nat_less_iff of_nat_numeral of_nat_power)
  then show ?thesis using l unfolding bidx_def by (metis of_nat_0_le_iff of_nat_add of_nat_mult usize_of_int wrap32_id)
qed

section \<open>Loops that set flags\<close>

definition grows :: "nat \<Rightarrow> (bool list \<Rightarrow> bool list) \<Rightarrow> bool" where
  "grows n f \<longleftrightarrow> (\<forall>d. length d = n \<longrightarrow> length (f d) = n \<and> (\<forall>j<n. d ! j \<longrightarrow> f d ! j))"

definition raises :: "nat \<Rightarrow> nat \<Rightarrow> (bool list \<Rightarrow> bool list) \<Rightarrow> bool" where
  "raises n j f \<longleftrightarrow> (\<forall>d. length d = n \<longrightarrow> f d ! j)"

lemma grows_fold: "(\<And>x. x \<in> set xs \<Longrightarrow> grows n (f x)) \<Longrightarrow> grows n (fold f xs)"
proof (induction xs)
  case (Cons x xs)
  then have "grows n (f x)" "grows n (fold f xs)" by simp_all
  then show ?case by (simp add: grows_def)
qed (simp add: grows_def)

lemma raises_fold:
  assumes "\<And>x. x \<in> set xs \<Longrightarrow> grows n (f x)" "x \<in> set xs" "raises n j (f x)" "j < n"
  shows "raises n j (fold f xs)"
  using assms
proof (induction xs)
  case (Cons y ys)
  have y: "grows n (f y)" and ys: "grows n (fold f ys)" using Cons.prems(1) by (simp_all add: grows_fold)
  show ?case
  proof (cases "x = y")
    case True
    then show ?thesis using y ys Cons.prems(3,4) by (simp add: grows_def raises_def)
  next
    case False
    then have "raises n j (fold f ys)" using Cons by simp
    then show ?thesis using y by (simp add: grows_def raises_def)
  qed
qed simp

lemma grows_id [simp]: "grows n (\<lambda>d. d)"
  by (simp add: grows_def)

lemma grows_update [simp]: "grows n (\<lambda>d. d[j := True])"
  by (simp add: grows_def nth_update_at)

lemma grows_if: "grows n f \<Longrightarrow> grows n g \<Longrightarrow> grows n (\<lambda>d. if P then f d else g d)"
  by (simp add: grows_def)

definition mask_step :: "(state \<Rightarrow> bool) \<Rightarrow> i32 \<Rightarrow> i32 \<Rightarrow> state \<Rightarrow> bool list \<Rightarrow> bool list" where
  "mask_step p block n_bx s m = (if p s then m[bidx n_bx (st_ix s sdiv block) (st_iy s sdiv block) := True] else m)"

lemma block_mask_steps: "block_mask p block n_bx nb vi = fold (mask_step p block n_bx) (states vi) (replicate nb False)"
  unfolding block_mask_def mask_step_def ..

lemma grows_mask_step: "grows n (mask_step p block n_bx s)"
  by (simp add: grows_def mask_step_def nth_update_at)

lemma length_block_mask [simp]: "length (block_mask p block n_bx nb vi) = nb"
  using grows_fold [of "states vi" nb "mask_step p block n_bx", OF grows_mask_step] by (simp add: block_mask_steps grows_def)

lemma block_mask_set:
  assumes "s \<in> set (states vi)" "p s" "bidx n_bx (st_ix s sdiv block) (st_iy s sdiv block) < nb"
  shows "block_mask p block n_bx nb vi ! bidx n_bx (st_ix s sdiv block) (st_iy s sdiv block)"
proof -
  have "raises nb (bidx n_bx (st_ix s sdiv block) (st_iy s sdiv block)) (mask_step p block n_bx s)"
    using assms(2,3) by (simp add: raises_def mask_step_def)
  from raises_fold [where f = "mask_step p block n_bx", OF grows_mask_step assms(1) this assms(3)]
  show ?thesis by (simp add: block_mask_steps raises_def)
qed

section \<open>The active blocks\<close>

lemma grows_activate: "grows n (block_activate passable n_bx n_by p)"
  by (cases p) (auto simp: block_activate_def Let_def grows_def nth_update_at)

lemma block_active_spec:
  assumes dims: "nby * nbx < 2 ^ 31" "length frontier = nby * nbx"
    and from': "bx < nbx" "by' < nby" "frontier ! (by' * nbx + bx)"
    and to: "jx < nbx" "jy < nby" "passable ! (jy * nbx + jx)"
    and near: "jx \<le> bx + rx" "bx \<le> jx + rx" "jy \<le> by' + ry" "by' \<le> jy + ry"
  shows "block_active passable (int nbx) (int nby) (int rx) (int ry) (nby * nbx) frontier ! (jy * nbx + jx)"
proof -
  let ?n = "nby * nbx" and ?j = "jy * nbx + jx"
  have j: "?j < ?n" by (rule row_major_less [OF to(2,1)])
  let ?act = "\<lambda>bx by' dby dbx. block_activate passable (int nbx) (int nby) (bx + dbx, by' + dby)"
  let ?in = "\<lambda>bx by' dby. fold (?act bx by' dby) [- int rx..int rx]"
  let ?box = "\<lambda>bx by'. fold (?in bx by') [- int ry..int ry]"
  let ?cell = "\<lambda>by' bx active. if \<not> frontier ! bidx (int nbx) bx by' then active else ?box bx by' active"
  let ?row = "\<lambda>by'. fold (?cell by') [0..int nbx - 1]"
  have g1: "grows ?n (?in bx by' dby)" for bx by' dby by (intro grows_fold grows_activate)
  have g2: "grows ?n (?box bx by')" for bx by' by (intro grows_fold g1)
  have g3: "grows ?n (?cell by' bx)" for bx by' by (intro grows_if grows_id g2)
  have g4: "grows ?n (?row by')" for by' by (intro grows_fold g3)
  have "raises ?n ?j (?act (int bx) (int by') (int jy - int by') (int jx - int bx))"
    using to j dims(1) by (simp add: raises_def block_activate_def Let_def bidx_nat)
  then have "raises ?n ?j (?in (int bx) (int by') (int jy - int by'))"
    by (rule raises_fold [rotated 2]) (use near j grows_activate in auto)
  then have "raises ?n ?j (?box (int bx) (int by'))"
    by (rule raises_fold [rotated 2]) (use near j g1 in auto)
  then have "raises ?n ?j (?cell (int by') (int bx))"
    using bidx_nat [OF from'(1,2) dims(1)] from'(3) by (simp add: raises_def)
  then have "raises ?n ?j (?row (int by'))"
    by (rule raises_fold [rotated 2]) (use from' j g3 in auto)
  then have "raises ?n ?j (fold ?row [0..int nby - 1])"
    by (rule raises_fold [rotated 2]) (use from' j g4 in auto)
  then show ?thesis by (simp add: block_active_def raises_def)
qed


section \<open>Sweeping a block\<close>

definition block_cells :: "nat \<Rightarrow> value_iterator \<Rightarrow> nat \<times> nat \<Rightarrow> cell list" where
  "block_cells b vi = (\<lambda>(bx, by'). concat (map (\<lambda>y. concat (map (\<lambda>x. map (\<lambda>t. (x, y, t)) [0..<dim_t vi])
     [bx * b..<min ((bx + 1) * b) (dim_x vi)])) [by' * b..<min ((by' + 1) * b) (dim_y vi)]))"

definition block_passes :: "nat \<Rightarrow> nat \<Rightarrow> value_iterator \<Rightarrow> nat \<times> nat \<Rightarrow> cell list" where
  "block_passes b passes vi p = concat (map (\<lambda>_. block_cells b vi p) [0..<passes])"

definition cell_block :: "nat \<Rightarrow> cell \<Rightarrow> nat \<times> nat" where
  "cell_block b = (\<lambda>(x, y, t). (x div b, y div b))"

lemma in_block:
  assumes "0 < (b::nat)"
  shows "bx * b \<le> x \<and> x < (bx + 1) * b \<longleftrightarrow> x div b = bx"
  using assms by (auto simp: div_nat_eqI mult.commute) (metis add.commute dividend_less_div_times mult.commute mult_Suc_right)

lemma set_block_cells:
  assumes "0 < b"
  shows "set (block_cells b vi p) = {c. in_map vi c \<and> cell_block b c = p}"
proof -
  have "(x, y, t) \<in> set (block_cells b vi (bx, by')) \<longleftrightarrow> in_map vi (x, y, t) \<and> x div b = bx \<and> y div b = by'" for x y t bx by'
  proof -
    have "(x, y, t) \<in> set (block_cells b vi (bx, by')) \<longleftrightarrow>
      (bx * b \<le> x \<and> x < (bx + 1) * b) \<and> (by' * b \<le> y \<and> y < (by' + 1) * b) \<and> in_map vi (x, y, t)"
      by (auto simp: block_cells_def image_iff)
    then show ?thesis unfolding in_block [OF assms] by blast
  qed
  then show ?thesis by (cases p) (auto simp: cell_block_def)
qed

lemma set_block_passes:
  assumes "0 < b" "0 < passes"
  shows "set (block_passes b passes vi p) = {c. in_map vi c \<and> cell_block b c = p}"
  using assms by (auto simp: block_passes_def set_block_cells)

definition int_cell :: "cell \<Rightarrow> i32 \<times> i32 \<times> i32" where
  "int_cell = (\<lambda>(x, y, t). (int x, int y, int t))"

lemma update_block_cell_relax:
  assumes "wf_vi vi" "in_map vi c"
  shows "update_block_cell (int_cell c) (vi, ch, u) =
    (if 0 < snd (relax vi c) then (fst (relax vi c), True, u + 1) else (fst (relax vi c), ch, u))"
  using update_at_cell [OF assms(1)] assms(2)
  by (cases c) (simp add: update_block_cell_def int_cell_def Let_def case_prod_beta)

lemma update_block_relax:
  fixes bx by' :: nat
  assumes wf: "wf_vi vi" and b: "0 < b" and n: "0 < passes"
  defines "cs \<equiv> block_passes b passes vi (bx, by')"
  shows "update_block vi (int bx * int b) (min ((int bx + 1) * int b) (cell_num_x vi) - 1)
      (int by' * int b) (min ((int by' + 1) * int b) (cell_num_y vi) - 1) passes =
    (fst (relax_list vi cs), snd (relax_list vi cs) \<noteq> [], of_nat (length (snd (relax_list vi cs))))"
proof -
  let ?xs = "[bx * b..<min ((bx + 1) * b) (dim_x vi)]" and ?ys = "[by' * b..<min ((by' + 1) * b) (dim_y vi)]"
  have int_min: "int (min k l) = min (int k) (int l)" for k l by (simp add: min_def)
  have x: "[int bx * int b..min ((int bx + 1) * int b) (cell_num_x vi) - 1] = map int ?xs"
  proof -
    have "min ((int bx + 1) * int b) (cell_num_x vi) = int (min ((bx + 1) * b) (dim_x vi))"
      by (simp add: int_min int_dims(1) [OF wf, symmetric] algebra_simps del: int_dims)
    then show ?thesis using upto_map_int [of "bx * b"] by simp
  qed
  have y: "[int by' * int b..min ((int by' + 1) * int b) (cell_num_y vi) - 1] = map int ?ys"
  proof -
    have "min ((int by' + 1) * int b) (cell_num_y vi) = int (min ((by' + 1) * b) (dim_y vi))"
      by (simp add: int_min int_dims(2) [OF wf, symmetric] algebra_simps del: int_dims)
    then show ?thesis using upto_map_int [of "by' * b"] by simp
  qed
  have t: "[0..cell_num_t vi - 1] = map int [0..<dim_t vi]"
    using upto_map_int [of 0 "dim_t vi"] by (simp add: wf)
  have "update_block vi (int bx * int b) (min ((int bx + 1) * int b) (cell_num_x vi) - 1)
      (int by' * int b) (min ((int by' + 1) * int b) (cell_num_y vi) - 1) passes =
    fold (\<lambda>c. update_block_cell (int_cell c)) cs (vi, False, 0)"
    unfolding update_block_def cs_def block_passes_def block_cells_def x y t fold_concat_map fold_map prod.case comp_def int_cell_def ..
  also have "\<dots> = (fst (relax_list vi cs), fold (\<lambda>_ _. True) (snd (relax_list vi cs)) False,
      0 + of_nat (length (snd (relax_list vi cs))))"
    by (rule sweep_fold [OF wf]) (use b n in \<open>simp_all add: cs_def set_block_passes update_block_cell_relax\<close>)
  also have "fold (\<lambda>_ _. True) zs False = (zs \<noteq> [])" for zs :: "cell list"
    by (cases zs rule: rev_cases) simp_all
  finally show ?thesis by simp
qed


lemma block_cells_frame: "same_frame vi vi' \<Longrightarrow> block_passes b n vi' = block_passes b n vi"
  by (rule ext) (simp add: block_passes_def block_cells_def same_frame_sel)

definition block_of :: "nat \<Rightarrow> nat \<Rightarrow> cell \<Rightarrow> nat" where
  "block_of nbx b c = (case cell_block b c of (bx, by') \<Rightarrow> by' * nbx + bx)"

text \<open>One pass over a list of blocks: the cells of the blocks are updated in order, flags are only
  raised, and the flag of every changed cell's block is raised.\<close>

lemma block_sweep:
  assumes "wf_vi vi" "\<forall>(bx, by')\<in>set ps. bx < nbx \<and> by' < nby" "length next = nby * nbx"
    and "0 < b" "0 < passes" "nby * nbx < 2 ^ 31"
  defines "cs \<equiv> concat (map (block_passes b passes vi) ps)"
  shows "\<exists>next'. fold (\<lambda>p. block_visit (int b) passes (int nbx) (int (fst p), int (snd p))) ps (vi, next, upd) =
      (fst (relax_list vi cs), next', upd + of_nat (length (snd (relax_list vi cs))))
    \<and> length next' = nby * nbx \<and> (\<forall>j<nby * nbx. next ! j \<longrightarrow> next' ! j)
    \<and> (\<forall>c\<in>set (snd (relax_list vi cs)). next' ! block_of nbx b c)"
  using assms(1-3) unfolding cs_def
proof (induction ps arbitrary: vi "next" upd)
  case (Cons p ps)
  obtain bx by' where p: "p = (bx, by')" by (cases p)
  have pl: "bx < nbx" "by' < nby" using Cons.prems p by simp_all
  let ?cs = "block_passes b passes vi p" and ?rest = "concat (map (block_passes b passes vi) ps)"
  let ?vi = "fst (relax_list vi ?cs)" and ?ch = "snd (relax_list vi ?cs)"
  have cs: "\<forall>c\<in>set ?cs. in_map vi c" using assms(4,5) by (simp add: set_block_passes)
  have fr: "same_frame vi ?vi" by (rule relax_list_frame [OF Cons.prems(1) cs])
  let ?next = "if ?ch \<noteq> [] then next[by' * nbx + bx := True] else next"
  have step: "block_visit (int b) passes (int nbx) (int bx, int by') (vi, next, upd)
      = (?vi, ?next, upd + of_nat (length ?ch))"
    using update_block_relax [OF Cons.prems(1) assms(4,5), of bx by'] bidx_nat [OF pl assms(6)]
    by (simp add: block_visit_def p)
  have j: "by' * nbx + bx < nby * nbx" by (rule row_major_less [OF pl(2,1)])
  have ch: "?next ! block_of nbx b c" if "c \<in> set ?ch" for c
  proof -
    have "c \<in> set ?cs" using relax_list_changed that by blast
    then have "cell_block b c = (bx, by')" using assms(4,5) p by (simp add: set_block_passes)
    then show ?thesis using that j Cons.prems(3) by (auto simp: block_of_def)
  qed
  have blk: "block_of nbx b c < nby * nbx" if "c \<in> set ?ch" for c
  proof -
    have "c \<in> set ?cs" using relax_list_changed that by blast
    then have "cell_block b c = (bx, by')" using assms(4,5) p by (simp add: set_block_passes)
    then show ?thesis using j by (simp add: block_of_def)
  qed
  have rest: "\<forall>(bx, by')\<in>set ps. bx < nbx \<and> by' < nby" "length ?next = nby * nbx" using Cons.prems by simp_all
  from Cons.IH [OF same_frame_wf [OF fr Cons.prems(1)] rest, of "upd + of_nat (length ?ch)"]
  obtain next' where IH: "fold (\<lambda>p. block_visit (int b) passes (int nbx) (int (fst p), int (snd p))) ps (?vi, ?next, upd + of_nat (length ?ch)) =
      (fst (relax_list ?vi ?rest), next', upd + of_nat (length ?ch) + of_nat (length (snd (relax_list ?vi ?rest))))"
    and l: "length next' = nby * nbx" and m: "\<forall>j<nby * nbx. ?next ! j \<longrightarrow> next' ! j"
    and n: "\<forall>c\<in>set (snd (relax_list ?vi ?rest)). next' ! block_of nbx b c"
    unfolding block_cells_frame [OF fr] by blast
  have "\<forall>j<nby * nbx. next ! j \<longrightarrow> next' ! j" using m Cons.prems(3) by (auto simp: nth_update_at)
  moreover have "\<forall>c\<in>set ?ch. next' ! block_of nbx b c" using ch blk m by blast
  moreover have "fold (\<lambda>p. block_visit (int b) passes (int nbx) (int (fst p), int (snd p))) (p # ps) (vi, next, upd) =
      (fst (relax_list ?vi ?rest), next', upd + of_nat (length ?ch) + of_nat (length (snd (relax_list ?vi ?rest))))"
    using IH step by (simp add: p)
  ultimately show ?case using l n
    by (intro exI [of _ next']) (simp add: relax_list_append Let_def case_prod_beta ball_Un add.assoc)
qed simp

section \<open>The block round as a frontier round\<close>

definition marks_block :: "nat \<Rightarrow> nat \<Rightarrow> bool list \<Rightarrow> cell set" where
  "marks_block nbx b f = {c. fst (cell_block b c) < nbx \<and> block_of nbx b c < length f \<and> f ! block_of nbx b c}"

definition ok_block :: "nat \<Rightarrow> nat \<Rightarrow> nat \<Rightarrow> nat \<Rightarrow> nat \<Rightarrow> nat \<Rightarrow> bool list \<Rightarrow> value_iterator \<Rightarrow> bool list \<Rightarrow> bool" where
  "ok_block b passes nbx nby rx ry passable vi f \<longleftrightarrow>
     wf_vi vi \<and> 0 < b \<and> 0 < passes \<and> nbx = div_ceil (dim_x vi) b \<and> nby = div_ceil (dim_y vi) b \<and> length f = nby * nbx \<and>
     rx = div_ceil (nat (fst (displacement vi))) b \<and> ry = div_ceil (nat (fst (snd (displacement vi)))) b \<and>
     (\<forall>c. in_map vi c \<and> free (state_at vi c) \<longrightarrow> passable ! block_of nbx b c)"

lemma div_ceil_le: "0 < b \<Longrightarrow> 0 < n \<Longrightarrow> div_ceil n b \<le> n"
proof -
  assume b: "0 < b" "0 < n"
  then have "n \<le> n * b" by simp
  then have "n + b - 1 < Suc n * b" using b by (simp only: mult_Suc)
  then have "div_ceil n b < Suc n" unfolding div_ceil_def by (rule less_mult_imp_div_less)
  then show ?thesis by simp
qed

lemma ok_block_dims:
  assumes "wf_vi vi" "0 < b"
  shows "div_ceil (dim_y vi) b * div_ceil (dim_x vi) b < 2 ^ 31"
proof -
  note d = wf_dims_pos [OF assms(1)]
  have "div_ceil (dim_y vi) b * div_ceil (dim_x vi) b \<le> dim_y vi * dim_x vi"
    using div_ceil_le assms(2) d by (intro mult_le_mono) simp_all
  also have "\<dots> \<le> dim_x vi * dim_y vi * dim_t vi" using d(3) by simp
  finally show ?thesis using d(4) by linarith
qed


lemma ok_block_frame:
  assumes "same_frame vi vi'" "ok_block b passes nbx nby rx ry passable vi f"
  shows "ok_block b passes nbx nby rx ry passable vi' f"
proof -
  have wf: "wf_vi vi" using assms(2) by (simp add: ok_block_def)
  have "free (state_at vi' c) = free (state_at vi c)" if "in_map vi c" for c
    by (rule same_frame_state [OF assms(1) wf that]) simp
  then have "\<forall>c. in_map vi' c \<and> free (state_at vi' c) \<longrightarrow> passable ! block_of nbx b c"
    using assms(2) unfolding ok_block_def same_frame_sel [OF assms(1)] by blast
  then show ?thesis using assms(2) same_frame_wf [OF assms(1) wf]
    unfolding ok_block_def same_frame_sel [OF assms(1)] displacement_frame [OF assms(1)] by blast
qed

lemma block_of_less:
  assumes "0 < b" "in_map vi c"
  shows "fst (cell_block b c) < div_ceil (dim_x vi) b" "snd (cell_block b c) < div_ceil (dim_y vi) b"
    "block_of (div_ceil (dim_x vi) b) b c < div_ceil (dim_y vi) b * div_ceil (dim_x vi) b"
proof -
  show *: "fst (cell_block b c) < div_ceil (dim_x vi) b" "snd (cell_block b c) < div_ceil (dim_y vi) b"
    using assms by (cases c; simp add: cell_block_def div_less_blocks)+
  show "block_of (div_ceil (dim_x vi) b) b c < div_ceil (dim_y vi) b * div_ceil (dim_x vi) b"
    using row_major_less [OF *(2,1)] by (simp add: block_of_def case_prod_beta)
qed

lemma block_marks_empty:
  assumes "ok_block b passes nbx nby rx ry passable vi f"
  shows "block_count f = 0 \<longleftrightarrow> marks_block nbx b f = {}"
proof -
  have b: "0 < b" and len: "length f = nby * nbx" using assms by (simp_all add: ok_block_def)
  have "f ! j \<longrightarrow> (\<exists>c. c \<in> marks_block nbx b f)" if "j < length f" for j
  proof
    assume j: "f ! j"
    from that len obtain y i where yi: "y < nby" "i < nbx" "j = y * nbx + i" by (auto elim: row_major_cases)
    then have "(i * b, y * b, 0) \<in> marks_block nbx b f"
      using that j b len by (simp add: marks_block_def cell_block_def block_of_def)
    then show "\<exists>c. c \<in> marks_block nbx b f" ..
  qed
  then have "(\<exists>j<length f. f ! j) \<longleftrightarrow> marks_block nbx b f \<noteq> {}" unfolding marks_block_def by blast
  then show ?thesis by (auto simp: block_count_def filter_empty_conv in_set_conv_nth)
qed

lemma fold_filter_if: "fold (\<lambda>x acc. if \<not> P x then acc else f x acc) xs acc = fold f (filter P xs) acc"
  by (induction xs arbitrary: acc) simp_all

text \<open>The blocks a round visits, in the order of the loop.\<close>

definition visited_blocks :: "nat \<Rightarrow> nat \<Rightarrow> bool list \<Rightarrow> (nat \<times> nat) list" where
  "visited_blocks nbx nby active =
     filter (\<lambda>(bx, by'). active ! (by' * nbx + bx)) (concat (map (\<lambda>by'. map (\<lambda>bx. (bx, by')) [0..<nbx]) [0..<nby]))"

lemma set_visited: "set (visited_blocks nbx nby active) = {(bx, by'). bx < nbx \<and> by' < nby \<and> active ! (by' * nbx + bx)}"
  by (auto simp: visited_blocks_def image_iff)

lemma block_round_visits:
  assumes "nby * nbx < 2 ^ 31" "length f = nby * nbx"
  shows "block_round (int b) passes (int nbx) (int nby) rx ry passable vi f =
    Some (fold (\<lambda>p. block_visit (int b) passes (int nbx) (int (fst p), int (snd p)))
      (visited_blocks nbx nby (block_active passable (int nbx) (int nby) rx ry (nby * nbx) f))
      (vi, replicate (nby * nbx) False, 0))"
proof -
  let ?act = "block_active passable (int nbx) (int nby) rx ry (nby * nbx) f"
  let ?v = "\<lambda>p. block_visit (int b) passes (int nbx) (int (fst p), int (snd p))"
  let ?P = "\<lambda>p. ?act ! bidx (int nbx) (int (fst p)) (int (snd p))"
  let ?all = "concat (map (\<lambda>by'. map (\<lambda>bx. (bx, by')) [0..<nbx]) [0..<nby])"
  have u: "[0..int n - 1] = map int [0..<n]" for n using upto_map_int [of 0 n] by simp
  have "block_round (int b) passes (int nbx) (int nby) rx ry passable vi f =
    Some (fold (\<lambda>p acc. if \<not> ?P p then acc else ?v p acc) ?all (vi, replicate (nby * nbx) False, 0))"
    unfolding block_round_def Let_def assms(2) u fold_concat_map fold_map comp_def fst_conv snd_conv ..
  also have "\<dots> = Some (fold ?v (filter ?P ?all) (vi, replicate (nby * nbx) False, 0))"
    by (simp only: fold_filter_if)
  also have "filter ?P ?all = visited_blocks nbx nby ?act"
    unfolding visited_blocks_def by (rule filter_cong) (use assms(1) in \<open>auto simp: bidx_nat\<close>)
  finally show ?thesis .
qed

lemma block_round_spec:
  assumes ok: "ok_block b passes nbx nby rx ry passable vi f"
    and r: "block_round (int b) passes (int nbx) (int nby) (int rx) (int ry) passable vi f = Some (vi', f', u)"
  shows "\<exists>cs. (\<forall>c\<in>set cs. in_map vi c) \<and> affected vi (marks_block nbx b f) \<subseteq> set cs \<union> {c. \<not> free (state_at vi c)}
        \<and> vi' = fst (relax_list vi cs) \<and> set (snd (relax_list vi cs)) \<subseteq> marks_block nbx b f'
        \<and> ok_block b passes nbx nby rx ry passable vi f' \<and> u = of_nat (length (snd (relax_list vi cs)))"
proof -
  from ok have wf: "wf_vi vi" and b: "0 < b" and n: "0 < passes" and nbx: "nbx = div_ceil (dim_x vi) b"
    and nby: "nby = div_ceil (dim_y vi) b" and len: "length f = nby * nbx"
    and pass: "\<And>c. in_map vi c \<Longrightarrow> free (state_at vi c) \<Longrightarrow> passable ! block_of nbx b c"
    by (auto simp: ok_block_def simp del: in_map.simps)
  have lim: "nby * nbx < 2 ^ 31" unfolding nbx nby by (rule ok_block_dims [OF wf b])
  let ?act = "block_active passable (int nbx) (int nby) (int rx) (int ry) (nby * nbx) f"
  let ?ps = "visited_blocks nbx nby ?act"
  let ?cs = "concat (map (block_passes b passes vi) ?ps)"
  have ps: "\<forall>(bx, by')\<in>set ?ps. bx < nbx \<and> by' < nby" unfolding set_visited by auto
  obtain next' where res: "vi' = fst (relax_list vi ?cs)" "f' = next'" "u = of_nat (length (snd (relax_list vi ?cs)))"
    "length next' = nby * nbx" "\<forall>c\<in>set (snd (relax_list vi ?cs)). next' ! block_of nbx b c"
    using block_sweep [OF wf ps length_replicate b n lim, of False 0] r
    unfolding block_round_visits [OF lim len] by auto
  have cs: "c \<in> set ?cs \<longleftrightarrow> in_map vi c \<and> cell_block b c \<in> set ?ps" for c
    using b n by (auto simp: set_block_passes)
  have "c \<in> set ?cs" if c: "c \<in> affected vi (marks_block nbx b f)" "free (state_at vi c)" for c
  proof -
    obtain mx my mt where d: "displacement vi = (mx, my, mt)" by (rule prod_cases3)
    have r: "rx = div_ceil (nat mx) b" "ry = div_ceil (nat my) b" using ok d by (simp_all add: ok_block_def)
    obtain x y t x' y' t' where c': "c = (x, y, t)" "in_map vi (x, y, t)" "(x', y', t') \<in> marks_block nbx b f"
      "x' \<le> x + nat mx" "x \<le> x' + nat mx" "y' \<le> y + nat my" "y \<le> y' + nat my"
      using affected_cases [OF wf c(1) d] by metis
    have dist: "x div b \<le> x' div b + rx" "x' div b \<le> x div b + rx" "y div b \<le> y' div b + ry" "y' div b \<le> y div b + ry"
      unfolding r using c'(4-7) b by (simp_all add: block_distance)
    have f: "x' div b < nbx" "f ! (y' div b * nbx + x' div b)" "y' div b * nbx + x' div b < nby * nbx"
      using c'(3) len by (simp_all add: marks_block_def cell_block_def block_of_def)
    have "y' div b < nby" 
    proof -
      have "y' div b * nbx < nby * nbx" using f(3) by linarith
      then show ?thesis by simp
    qed
    moreover have to: "x div b < nbx" "y div b < nby" using block_of_less(1,2) [OF b c'(2)] nbx nby by (simp_all add: cell_block_def)
    moreover have "passable ! (y div b * nbx + x div b)" using pass [of c] c(2) c'(1,2) by (simp add: block_of_def cell_block_def)
    ultimately have "?act ! (y div b * nbx + x div b)"
      using block_active_spec [OF lim len f(1) _ f(2) to, of passable rx ry] dist by blast
    then show ?thesis unfolding cs set_visited using to c'(1,2) by (simp add: cell_block_def)
  qed
  moreover have "set (snd (relax_list vi ?cs)) \<subseteq> marks_block nbx b f'"
  proof
    fix c assume c: "c \<in> set (snd (relax_list vi ?cs))"
    then have "in_map vi c" using relax_list_changed cs by blast
    then show "c \<in> marks_block nbx b f'" using block_of_less [OF b, of vi c] res(2,4,5) c nbx nby by (simp add: marks_block_def)
  qed
  moreover have "ok_block b passes nbx nby rx ry passable vi f'"
    using ok unfolding ok_block_def res(2) res(4) by blast
  ultimately show ?thesis using res(1,3) cs by blast
qed

interpretation blk: frontier_solver "block_round (int b) passes (int nbx) (int nby) (int rx) (int ry) passable" block_count
  "marks_block nbx b" "ok_block b passes nbx nby rx ry passable" "\<lambda>_. True" for b passes nbx nby rx ry passable
proof
  show "\<exists>r. block_round (int b) passes (int nbx) (int nby) (int rx) (int ry) passable vi f = Some r" for vi f
    unfolding block_round_def Let_def by (rule exI, rule refl)
qed (erule (1) ok_block_frame, simp, erule block_marks_empty, erule (1) block_round_spec)


section \<open>The solvers\<close>

lemma sdiv_nat: "0 < b \<Longrightarrow> int x sdiv int b = int (x div b)"
  by (cases "x = 0") (simp_all add: signed_divide_int_def sgn_if zdiv_int)

lemma block_mask_cell:
  assumes "wf_vi vi" "0 < b" "in_map vi c" "p (state_at vi c)"
  defines "nbx \<equiv> div_ceil (dim_x vi) b" and "nby \<equiv> div_ceil (dim_y vi) b"
  shows "block_mask p (int b) (int nbx) (nby * nbx) vi ! block_of nbx b c"
proof -
  let ?s = "state_at vi c"
  obtain x y t where c: "c = (x, y, t)" by (cases c)
  have l: "x div b < nbx" "y div b < nby" "block_of nbx b c < nby * nbx"
    using block_of_less [OF assms(2,3)] c by (simp_all add: nbx_def nby_def cell_block_def)
  have "nby * nbx < 2 ^ 31" unfolding nbx_def nby_def by (rule ok_block_dims [OF assms(1,2)])
  then have i: "bidx (int nbx) (st_ix ?s sdiv int b) (st_iy ?s sdiv int b) = block_of nbx b c"
    using l wf_vi_state_at [OF assms(1), of x y t] assms(2,3) c
    by (simp add: sdiv_nat bidx_nat block_of_def cell_block_def)
  have "?s \<in> set (states vi)" using state_list_cells [OF assms(1)] assms(3) by blast
  then show ?thesis using block_mask_set [of ?s vi p "int nbx" "int b" "nby * nbx"] assms(4) l(3) by (simp add: i)
qed

text \<open>The bounds under which the \<open>i32\<close> block arithmetic does not overflow.\<close>

definition block_fits :: "i32 \<Rightarrow> value_iterator \<Rightarrow> bool" where
  "block_fits block vi \<longleftrightarrow> 0 < block \<and> cell_num_x vi + block \<le> 2 ^ 31 \<and> cell_num_y vi + block \<le> 2 ^ 31 \<and>
     fst (displacement vi) + block \<le> 2 ^ 31 \<and> fst (snd (displacement vi)) + block \<le> 2 ^ 31"

lemma block_fits_frame: "same_frame vi vi' \<Longrightarrow> block_fits block vi' = block_fits block vi"
  by (simp add: block_fits_def same_frame_sel displacement_frame)

lemma block_run:
  assumes wf: "wf_vi vi" and fits: "block_fits block vi" and n: "0 < passes"
  obtains b nbx nby rx ry passable f where
    "block_refine_sized block passes vi max_iter obs o0 =
       frontier_loop (block_round (int b) passes (int nbx) (int nby) (int rx) (int ry) passable) block_count max_iter obs vi f 0 0 (pacer_new obs, o0)"
    "ok_block b passes nbx nby rx ry passable vi f" "consistent_but vi (affected vi (marks_block nbx b f))"
proof -
  define b where "b = nat block"
  have b: "0 < b" "block = int b" using fits by (simp_all add: block_fits_def b_def)
  obtain mx my mt where d: "displacement vi = (mx, my, mt)" by (rule prod_cases3)
  have m: "1 \<le> mx" "1 \<le> my" using d by (auto simp: displacement_def split: prod.splits)
  define nbx nby where "nbx = div_ceil (dim_x vi) b" and "nby = div_ceil (dim_y vi) b"
  let ?pass = "block_mask free (int b) (int nbx) (nby * nbx) vi"
  let ?f = "block_mask (\<lambda>s. total_cost s < MAX_COST) (int b) (int nbx) (nby * nbx) vi"
  have lim: "nby * nbx < 2 ^ 31" unfolding nbx_def nby_def by (rule ok_block_dims [OF wf b(1)])
  have e: "ceil_div (cell_num_x vi) block = int nbx" "ceil_div (cell_num_y vi) block = int nby"
    "ceil_div mx block = int (div_ceil (nat mx) b)" "ceil_div my block = int (div_ceil (nat my) b)"
    using wf fits m d by (simp_all add: ceil_div_int block_fits_def wf_vi_def nbx_def nby_def dim_x_def dim_y_def b_def)
  have nb: "usize_of (wrap32 (int nbx * int nby)) = nby * nbx"
  proof -
    have "int (nby * nbx) < 2 ^ 31" using lim by (metis of_nat_less_iff of_nat_numeral of_nat_power)
    then have "wrap32 (int (nby * nbx)) = int (nby * nbx)" by (intro wrap32_id) simp_all
    then show ?thesis using usize_of_int [OF lim] by (simp add: mult.commute)
  qed
  have run: "block_refine_sized block passes vi max_iter obs o0 =
      frontier_loop (block_round (int b) passes (int nbx) (int nby) (int (div_ceil (nat mx) b)) (int (div_ceil (nat my) b)) ?pass)
        block_count max_iter obs vi ?f 0 0 (pacer_new obs, o0)"
    unfolding block_refine_sized_def Let_def d prod.case e nb b(2) [symmetric] ..
  have ok: "ok_block b passes nbx nby (div_ceil (nat mx) b) (div_ceil (nat my) b) ?pass vi ?f"
    unfolding ok_block_def
    using wf b(1) n d block_mask_cell [OF wf b(1), of _ free] by (simp add: nbx_def nby_def del: in_map.simps)
  have "seeds vi \<subseteq> marks_block nbx b ?f"
    using block_mask_cell [OF wf b(1), of _ "\<lambda>s. total_cost s < MAX_COST"] block_of_less [OF b(1)]
    by (auto simp: seeds_def marks_block_def nbx_def nby_def simp del: in_map.simps)
  from seeds_consistent [OF wf this] show thesis by (rule that [OF run ok])
qed

lemma block_sound:
  assumes "wf_vi vi" "block_fits block vi" "0 < passes"
    and "block_refine_sized block passes vi max_iter obs o0 = Some (vi', out, o1)"
  shows "same_frame vi vi' \<and> (o_converged out \<longrightarrow> consistent_but vi' {})" "o_iters out \<le> max_iter"
proof -
  obtain b nbx nby rx ry passable f where
    run: "block_refine_sized block passes vi max_iter obs o0 =
       frontier_loop (block_round (int b) passes (int nbx) (int nby) (int rx) (int ry) passable) block_count max_iter obs vi f 0 0 (pacer_new obs, o0)"
    and ok: "ok_block b passes nbx nby rx ry passable vi f" "consistent_but vi (affected vi (marks_block nbx b f))"
    by (rule block_run [OF assms(1-3)])
  note r = assms(4) [unfolded run]
  show "same_frame vi vi' \<and> (o_converged out \<longrightarrow> consistent_but vi' {})" by (rule blk.loop_sound [OF assms(1) ok r])
  show "o_iters out \<le> max_iter" using frontier_loop_outcome [OF r] by simp
qed

lemma block_total:
  assumes "wf_vi vi" "block_fits block vi" "0 < passes"
  shows "\<exists>vi' out o'. block_refine_sized block passes vi max_iter obs o0 = Some (vi', out, o')"
proof -
  obtain b nbx nby rx ry passable f where
    run: "block_refine_sized block passes vi max_iter obs o0 =
       frontier_loop (block_round (int b) passes (int nbx) (int nby) (int rx) (int ry) passable) block_count max_iter obs vi f 0 0 (pacer_new obs, o0)"
    and ok: "ok_block b passes nbx nby rx ry passable vi f" "consistent_but vi (affected vi (marks_block nbx b f))"
    by (rule block_run [OF assms])
  from blk.loop_total [OF assms(1) ok(1) TrueI] show ?thesis unfolding run by (metis prod_cases3)
qed

text \<open>C24: for every block size and every positive number of inner sweeps, when the block solver
  reports convergence the Bellman equation holds at every cell of the map except those none of
  whose successors has a value: leaving out the blocks outside the dilated frontier and the blocks
  without a free cell loses nothing.\<close>

theorem block_refine_fixpoint:
  assumes "wf_vi vi" and "block_fits block vi" and "0 < local_sweeps"
    and "block_refine_sized block local_sweeps vi max_iter obs o0 = Some (vi', out, o1)" and "o_converged out"
  shows "same_frame vi vi' \<and> (\<forall>c. in_map vi c \<longrightarrow> settled vi' c \<or> unreached vi' c)"
  by (rule consistent_all [OF block_sound(1) [OF assms(1-4)] assms(5)])

lemma corridor_block_fits: "block \<in> {1..64} \<Longrightarrow> block_fits block corridor"
  by (simp add: block_fits_def corridor_displacement) (simp add: corridor_def corridor_of_def)

theorem block_refine_fixpoint_witness:
  "\<exists>vi' out o'. block_refine_sized 2 1 corridor 10 quiet_observer () = Some (vi', out, o') \<and> o_converged out
     \<and> (settled vi' (0, 0, 0) \<or> unreached vi' (0, 0, 0))"
proof -
  have "map_option (\<lambda>(_, out, _). o_converged out) (block_refine_sized 2 1 corridor 10 quiet_observer ()) = Some True"
    by code_simp
  then obtain vi' out o' where r: "block_refine_sized 2 1 corridor 10 quiet_observer () = Some (vi', out, o')" "o_converged out"
    by (rule converged_run)
  moreover have "in_map corridor (0, 0, 0)" by code_simp
  ultimately show ?thesis using block_refine_fixpoint [OF corridor_wf corridor_block_fits _ r] by auto
qed

lemma pyramid_levels_spec:
  assumes "wf_vi vi" "\<forall>b\<in>set sizes. block_fits b vi" "conv \<longrightarrow> consistent_but vi {}" "iters \<le> max_iter + COARSE_BUDGET"
    "iters < max_iter \<or> iters = 0"
  shows "\<exists>vi' out o'. pyramid_levels sizes vi max_iter obs o0 iters updates conv = Some (vi', out, o')
    \<and> same_frame vi vi' \<and> (o_converged out \<longrightarrow> consistent_but vi' {}) \<and> o_iters out \<le> max_iter + COARSE_BUDGET"
  using assms
proof (induction sizes arbitrary: vi o0 iters updates conv)
  case Nil
  then show ?case by (simp add: outcome_running_def)
next
  case (Cons block sizes)
  have f: "block_fits block vi" "0 < LOCAL_SWEEPS" using Cons.prems(2) by (simp_all add: LOCAL_SWEEPS_def)
  let ?budget = "if sizes = [] then max_iter - iters else COARSE_BUDGET"
  obtain vi1 out o1 where r: "block_refine_sized block LOCAL_SWEEPS vi ?budget (offset_observer iters updates obs) o0 = Some (vi1, out, o1)"
    using block_total [OF Cons.prems(1) f, of ?budget "offset_observer iters updates obs" o0] by auto
  note snd1 = block_sound [OF Cons.prems(1) f r]
  define it where "it = min (2 ^ 32 - 1) (iters + o_iters out)"
  have it: "it \<le> max_iter + COARSE_BUDGET"
    using snd1(2) Cons.prems(4,5) unfolding it_def by (simp split: if_splits) linarith+
  note eq = pyramid_levels.simps(2) [of block sizes vi max_iter obs o0 iters updates conv, unfolded Let_def r option.case prod.case, folded it_def]
  show ?case
  proof (cases "(o_stopped out \<or> o_cancelled out) \<or> max_iter \<le> it")
    case True
    then show ?thesis unfolding eq using snd1(1) it by (auto simp: outcome_running_def)
  next
    case False
    have fr: "same_frame vi vi1" using snd1(1) by blast
    have "\<exists>vi' out' o'. pyramid_levels sizes vi1 max_iter obs o1 it (updates + o_updates out) (o_converged out) = Some (vi', out', o')
      \<and> same_frame vi1 vi' \<and> (o_converged out' \<longrightarrow> consistent_but vi' {}) \<and> o_iters out' \<le> max_iter + COARSE_BUDGET"
      by (rule Cons.IH) (use same_frame_wf [OF fr Cons.prems(1)] Cons.prems(2) block_fits_frame [OF fr] snd1(1) it False in auto)
    moreover have "pyramid_levels (block # sizes) vi max_iter obs o0 iters updates conv =
        pyramid_levels sizes vi1 max_iter obs o1 it (updates + o_updates out) (o_converged out)"
      unfolding eq using False by simp
    ultimately show ?thesis using fr by (auto intro: same_frame_trans)
  qed
qed

text \<open>C25: \<open>pyramid_sweep_solve_observed\<close> returns under every observer, exceeds its budget by at most
  one coarse level, changes values and policies only, and when it reports convergence, the Bellman
  equation holds at every cell that has a successor with a value.\<close>

theorem pyramid_fixpoint:
  assumes "wf_vi vi" and "block_fits 64 vi"
  shows "\<exists>vi' out o'. pyramid_sweep_solve_observed vi max_iter obs o0 = Some (vi', out, o') \<and> same_frame vi vi' \<and>
    o_iters out \<le> max_iter + COARSE_BUDGET \<and>
    (o_converged out \<longrightarrow> (\<forall>c. in_map vi c \<longrightarrow> settled vi' c \<or> unreached vi' c))"
proof -
  have "\<forall>b\<in>set (pyramid_sizes (max (cell_num_x vi) (cell_num_y vi))). block_fits b vi"
    using assms(2) by (auto simp: pyramid_sizes_def FINEST_def block_fits_def)
  from pyramid_levels_spec [OF assms(1) this, of False 0 max_iter obs o0 0]
  obtain vi' out o' where r: "pyramid_sweep_solve_observed vi max_iter obs o0 = Some (vi', out, o')" "same_frame vi vi'"
    "o_converged out \<longrightarrow> consistent_but vi' {}" "o_iters out \<le> max_iter + COARSE_BUDGET"
    unfolding pyramid_sweep_solve_observed_def by auto
  have "o_converged out \<longrightarrow> (\<forall>c. in_map vi c \<longrightarrow> settled vi' c \<or> unreached vi' c)"
    using consistent_all [of vi vi' "o_converged out"] r(2,3) by blast
  with r show ?thesis by blast
qed

theorem pyramid_fixpoint_witness:
  "\<exists>vi' out o'. pyramid_sweep_solve_observed corridor 9 quiet_observer () = Some (vi', out, o') \<and> o_iters out \<le> 9 + COARSE_BUDGET"
  using pyramid_fixpoint [OF corridor_wf corridor_block_fits, of 9 quiet_observer "()"] by auto

end
