(* ===== verification/Original.thy ===== *)
theory Original
  imports Frontier "HOL-Library.Multiset"
begin

unbundle bit_operations_syntax

text \<open>
  The full-sweep solver (\<^verbatim>\<open>solvers/original/worker.rs\<close>, \<^verbatim>\<open>solvers/original/solve.rs\<close>) and its alias
  \<^verbatim>\<open>solvers/stream.rs\<close>: one worker sweeps every cell in the order of its sweep list, the driver
  repeats sweeps until no reachable value changes.

  Shown: the worker keeps the map and reports its progress, the sweep list of thread 0 visits every
  cell exactly once, and what the driver's convergence test implies.
\<close>

section \<open>The code\<close>

definition REACH_THRESH :: u64 where "REACH_THRESH = 1000000 * PROB_BASE"

text \<open>\<open>if let Some(st) = self.thread_status.get_mut(&id)\<close>\<close>

definition update_status :: "i32 \<Rightarrow> (sweep_worker_status \<Rightarrow> sweep_worker_status) \<Rightarrow> value_iterator \<Rightarrow> value_iterator" where
  "update_status wid f vi =
     (case thread_status vi wid of
        None \<Rightarrow> vi
      | Some st \<Rightarrow> vi\<lparr>thread_status := (thread_status vi)(wid \<mapsto> f st)\<rparr>)"

definition sweep_cell :: "i32 \<Rightarrow> value_iterator \<times> u64 \<Rightarrow> value_iterator \<times> u64" where
  "sweep_cell i = (\<lambda>(vi, max_delta). case value_iteration_at vi (usize_of i) of (vi', d) \<Rightarrow> (vi', max max_delta d))"

fun worker_sweeps :: "nat \<Rightarrow> i32 \<Rightarrow> i32 \<Rightarrow> nat \<Rightarrow> value_iterator \<Rightarrow> value_iterator" where
  "worker_sweeps 0 j wid order_idx vi = vi"
| "worker_sweeps (Suc n) j wid order_idx vi =
     (let vi1 = update_status wid (\<lambda>st. st\<lparr>sweep_step := j + 1\<rparr>) vi;
          (vi2, max_delta) = fold sweep_cell (sweep_orders vi1 ! order_idx) (vi1, 0);
          vi3 = update_status wid (\<lambda>st. st\<lparr>delta := f_of_int (uint (drop_bit PROB_BASE_BIT max_delta))\<rparr>) vi2
      in if status vi3 = ''canceled'' \<or> status vi3 = ''goal'' then vi3
         else worker_sweeps n (j + 1) wid order_idx vi3)"

text \<open>\<open>None\<close>: the remainder by an empty list of orders panics.\<close>

definition value_iteration_worker :: "i32 \<Rightarrow> i32 \<Rightarrow> value_iterator \<Rightarrow> value_iterator option" where
  "value_iteration_worker n_times wid vi =
     (if sweep_orders vi = [] then None
      else let vi1 = vi\<lparr>thread_status := (thread_status vi)(wid \<mapsto> sweep_status_default)\<rparr>;
               order_idx = usize_of wid mod length (sweep_orders vi1)
           in Some (update_status wid (\<lambda>st. st\<lparr>finished := True\<rparr>) (worker_sweeps (nat n_times) 0 wid order_idx vi1)))"

text \<open>\<open>finished\<close>: the status of every thread, a missing one inserted with its default.\<close>

definition finished_entry ::
  "i32 \<Rightarrow> value_iterator \<times> i32 list \<times> f64 list \<times> bool \<Rightarrow> value_iterator \<times> i32 list \<times> f64 list \<times> bool" where
  "finished_entry t = (\<lambda>(vi, sweep_times, deltas, finish).
     let st = (case thread_status vi t of Some st \<Rightarrow> st | None \<Rightarrow> sweep_status_default)
     in (vi\<lparr>thread_status := (thread_status vi)(t \<mapsto> st)\<rparr>, sweep_times[usize_of t := take_bit 32 (sweep_step st)],
         deltas[usize_of t := delta st], finish \<and> finished st))"

definition vi_finished :: "value_iterator \<Rightarrow> value_iterator \<times> i32 list \<times> f64 list \<times> bool" where
  "vi_finished vi =
     (let n = usize_of (thread_num vi)
      in fold finished_entry [0..thread_num vi - 1] (vi, replicate n 0, replicate n (f_of_int 0), True))"

text \<open>The driver. A state below the threshold whose value differs from the previous sweep counts as changed.\<close>

definition sweep_changed :: "u64 list \<Rightarrow> value_iterator \<Rightarrow> bool" where
  "sweep_changed prev vi = list_ex (\<lambda>(s, p). total_cost s < REACH_THRESH \<and> total_cost s \<noteq> p) (zip (states vi) prev)"

function original_loop ::
  "nat \<Rightarrow> 'o solve_observer \<Rightarrow> value_iterator \<Rightarrow> u64 list \<Rightarrow> nat \<Rightarrow> boundary_pacer \<times> 'o
     \<Rightarrow> (value_iterator \<times> solve_outcome \<times> 'o) option" where
  "original_loop max_iter obs vi prev iters po =
     (case value_iteration_worker 1 0 vi of
        None \<Rightarrow> None
      | Some vi' \<Rightarrow>
          let iters' = iters + 1 in
          if \<not> sweep_changed prev vi' then Some (vi', outcome_running iters' 0 True, snd po)
          else if max_iter \<le> iters' then Some (vi', outcome_running iters' 0 False, snd po)
          else (case at_boundary obs True vi' iters' 0 po of
                  (Continue, po') \<Rightarrow> original_loop max_iter obs vi' (map total_cost (states vi')) iters' po'
                | (Stop, _, o') \<Rightarrow> Some (vi', outcome_stopped iters' 0, o')
                | (Cancel, _, o') \<Rightarrow> Some (vi', outcome_cancelled iters' 0, o')))"
  by pat_completeness auto
termination
  by (relation "measure (\<lambda>(m, obs, vi, prev, i, po). m - i)") auto

declare original_loop.simps [simp del]

definition original_solve_observed ::
  "value_iterator \<Rightarrow> nat \<Rightarrow> 'o solve_observer \<Rightarrow> 'o \<Rightarrow> (value_iterator \<times> solve_outcome \<times> 'o) option" where
  "original_solve_observed vi max_iter obs o' =
     original_loop max_iter obs vi (map total_cost (states vi)) 0 (pacer_new obs, o')"

definition stream_mimic_solve_observed ::
  "value_iterator \<Rightarrow> nat \<Rightarrow> 'o solve_observer \<Rightarrow> 'o \<Rightarrow> (value_iterator \<times> solve_outcome \<times> 'o) option" where
  "stream_mimic_solve_observed vi max_iter obs o' = original_solve_observed vi max_iter obs o'"

section \<open>The thread status is not part of the map\<close>

definition with_ts :: "(i32 \<rightharpoonup> sweep_worker_status) \<Rightarrow> value_iterator \<Rightarrow> value_iterator" where
  "with_ts ts vi = vi\<lparr>thread_status := ts\<rparr>"

lemma with_ts_sel [simp]:
  "states (with_ts ts vi) = states vi" "actions (with_ts ts vi) = actions vi" "dim_x (with_ts ts vi) = dim_x vi"
  "dim_y (with_ts ts vi) = dim_y vi" "dim_t (with_ts ts vi) = dim_t vi" "sweep_orders (with_ts ts vi) = sweep_orders vi"
  "cell_num_x (with_ts ts vi) = cell_num_x vi" "cell_num_y (with_ts ts vi) = cell_num_y vi"
  "cell_num_t (with_ts ts vi) = cell_num_t vi" "status (with_ts ts vi) = status vi" "thread_status (with_ts ts vi) = ts"
  "with_ts ts (with_ts ts' vi) = with_ts ts vi" "with_ts (thread_status vi) vi = vi"
  by (simp_all add: with_ts_def dim_x_def dim_y_def dim_t_def)

lemma with_ts_cells [simp]:
  "in_map (with_ts ts vi) = in_map vi" "cidx (with_ts ts vi) = cidx vi" "state_at (with_ts ts vi) = state_at vi"
  "succ_cell (with_ts ts vi) = succ_cell vi" "succs (with_ts ts vi) = succs vi"
proof -
  show c: "in_map (with_ts ts vi) = in_map vi" "cidx (with_ts ts vi) = cidx vi" by (auto simp: fun_eq_iff)
  show "state_at (with_ts ts vi) = state_at vi" by (rule ext) (simp add: state_at_def c)
  show s: "succ_cell (with_ts ts vi) = succ_cell vi" unfolding succ_cell_def with_ts_sel ..
  show "succs (with_ts ts vi) = succs vi" by (auto simp: fun_eq_iff succs_def action_succs_def s)
qed

lemma with_ts_preds [simp]:
  "bellman_update (with_ts ts vi) = bellman_update vi" "settled (with_ts ts vi) = settled vi"
  "unreached (with_ts ts vi) = unreached vi" "affected (with_ts ts vi) = affected vi"
  "consistent_but (with_ts ts vi) = consistent_but vi"
proof -
  show b: "bellman_update (with_ts ts vi) = bellman_update vi" by (simp add: fun_eq_iff bellman_update_def)
  show s: "settled (with_ts ts vi) = settled vi" by (rule ext) (simp add: settled_def b split: option.split)
  show u: "unreached (with_ts ts vi) = unreached vi" by (rule ext) (simp add: unreached_def)
  show "affected (with_ts ts vi) = affected vi" by (rule ext) (simp add: affected_def)
  show "consistent_but (with_ts ts vi) = consistent_but vi" by (rule ext) (simp add: consistent_but_def s u del: in_map.simps)
qed

lemma with_ts_wf [simp]: "wf_vi (with_ts ts vi) = wf_vi vi"
proof -
  have "wf_action (with_ts ts vi) = wf_action vi"
    by (rule ext) (simp add: wf_action_def wf_transition_def [abs_def])
  then show ?thesis by (simp add: wf_vi_def wf_state_def)
qed

lemma with_ts_update: "value_iteration_at (with_ts ts vi) i = (with_ts ts (fst (value_iteration_at vi i)), snd (value_iteration_at vi i))"
  by (simp add: value_iteration_at_def case_prod_beta) (simp add: with_ts_def)

lemma with_ts_relax: "relax (with_ts ts vi) c = (with_ts ts (fst (relax vi c)), snd (relax vi c))"
  unfolding relax_def by (simp add: with_ts_update)

lemma with_ts_relax_list: "relax_list (with_ts ts vi) cs = (with_ts ts (fst (relax_list vi cs)), snd (relax_list vi cs))"
  by (induction cs arbitrary: vi) (simp_all add: with_ts_relax Let_def case_prod_beta)

lemma update_status_eq: "\<exists>ts. update_status wid f vi = with_ts ts vi"
  unfolding update_status_def with_ts_def
  by (cases "thread_status vi wid") (auto intro: exI [of _ "thread_status vi"])


section \<open>Sweeps\<close>

text \<open>A list of machine indices that visits the cells \<open>cs\<close>.\<close>

lemma sweep_relax:
  assumes "wf_vi vi" "\<forall>c\<in>set cs. in_map vi c"
  shows "\<exists>d. fold sweep_cell (map (\<lambda>c. int (cidx vi c)) cs) (vi, m) = (fst (relax_list vi cs), d)"
  using assms
proof (induction cs arbitrary: vi m)
  case (Cons c cs)
  let ?vi = "fst (relax vi c)"
  have c: "in_map vi c" using Cons.prems(2) by simp
  have fr: "same_frame vi ?vi" by (rule relax_same_frame [OF Cons.prems(1) c])
  have "cidx vi c < 2 ^ 31" using cidx_less [OF c] wf_dims_pos(4) [OF Cons.prems(1)] by linarith
  then have "value_iteration_at vi (usize_of (int (cidx vi c))) = relax vi c"
    by (simp add: usize_of_int relax_def del: cidx.simps)
  then have "sweep_cell (int (cidx vi c)) (vi, m) = (?vi, max m (snd (relax vi c)))"
    by (simp add: sweep_cell_def case_prod_beta)
  moreover have "\<exists>d. fold sweep_cell (map (\<lambda>c. int (cidx ?vi c)) cs) (?vi, m') = (fst (relax_list ?vi cs), d)" for m'
    by (rule Cons.IH) (use Cons.prems same_frame_wf [OF fr] in \<open>simp_all add: same_frame_sel [OF fr]\<close>)
  ultimately show ?case by (simp add: same_frame_sel [OF fr] Let_def case_prod_beta)
qed simp

lemma relax_list_untouched:
  assumes "wf_vi vi" "\<forall>c\<in>set cs. in_map vi c" "in_map vi c" "c \<notin> set cs"
  shows "state_at (fst (relax_list vi cs)) c = state_at vi c"
  using assms
proof (induction cs arbitrary: vi)
  case (Cons d cs)
  have d: "in_map vi d" "c \<noteq> d" using Cons.prems by auto
  have fr: "same_frame vi (fst (relax vi d))" by (rule relax_same_frame [OF Cons.prems(1) d(1)])
  have "state_at (fst (relax_list (fst (relax vi d)) cs)) c = state_at (fst (relax vi d)) c"
    by (rule Cons.IH) (use Cons.prems same_frame_wf [OF fr] in \<open>simp_all add: same_frame_sel [OF fr]\<close>)
  also have "\<dots> = state_at vi c" by (rule relax_other) (use d Cons.prems in auto)
  finally show ?case by (simp add: Let_def case_prod_beta)
qed simp

text \<open>When every cell is visited at most once, the cells that moved are those whose value differs after the sweep.\<close>

lemma relax_list_moved:
  assumes "wf_vi vi" "\<forall>c\<in>set cs. in_map vi c" "distinct cs" "c \<in> set (snd (relax_list vi cs))"
  shows "total_cost (state_at (fst (relax_list vi cs)) c) \<noteq> total_cost (state_at vi c)"
  using assms
proof (induction cs arbitrary: vi)
  case (Cons d cs)
  let ?vi = "fst (relax vi d)"
  have d: "in_map vi d" "d \<notin> set cs" using Cons.prems by auto
  have fr: "same_frame vi ?vi" by (rule relax_same_frame [OF Cons.prems(1) d(1)])
  have wf: "wf_vi ?vi" "\<forall>c\<in>set cs. in_map ?vi c" "in_map ?vi d"
    using Cons.prems same_frame_wf [OF fr] d by (simp_all add: same_frame_sel [OF fr])
  show ?case
  proof (cases "c = d")
    case True
    have "d \<notin> set (snd (relax_list ?vi cs))" using d(2) relax_list_changed by blast
    then have "snd (relax vi d) \<noteq> 0" using Cons.prems(4) True by (auto simp: Let_def case_prod_beta split: if_splits)
    then have "total_cost (state_at ?vi d) \<noteq> total_cost (state_at vi d)" using relax_delta [OF Cons.prems(1) d(1)] by simp
    moreover have "state_at (fst (relax_list ?vi cs)) d = state_at ?vi d" by (rule relax_list_untouched [OF wf d(2)])
    ultimately show ?thesis using True by (simp add: Let_def case_prod_beta)
  next
    case False
    then have c: "c \<in> set (snd (relax_list ?vi cs))" using Cons.prems(4) by (auto simp: Let_def case_prod_beta split: if_splits)
    then have "c \<in> set cs" using relax_list_changed by blast
    then have "in_map vi c" using Cons.prems(2) by simp
    then have "state_at ?vi c = state_at vi c" using False Cons.prems(1) d by (intro relax_other) auto
    moreover have "total_cost (state_at (fst (relax_list ?vi cs)) c) \<noteq> total_cost (state_at ?vi c)"
      by (rule Cons.IH [OF wf(1,2) _ c]) (use Cons.prems(3) in simp)
    ultimately show ?thesis by (simp add: Let_def case_prod_beta)
  qed
qed simp


section \<open>The sweep orders\<close>

definition wf_order :: "value_iterator \<Rightarrow> i32 list \<Rightarrow> bool" where
  "wf_order vi ord \<longleftrightarrow> (\<exists>cs. ord = map (\<lambda>c. int (cidx vi c)) cs \<and> distinct cs \<and> set cs = {c. in_map vi c})"

text \<open>The lists \<open>y, x, t\<close> and \<open>x, y, t\<close> of all cells.\<close>

definition cells_yxt :: "value_iterator \<Rightarrow> cell list" where
  "cells_yxt vi = concat (map (\<lambda>y. concat (map (\<lambda>x. map (\<lambda>t. (x, y, t)) [0..<dim_t vi]) [0..<dim_x vi])) [0..<dim_y vi])"

definition cells_xyt :: "value_iterator \<Rightarrow> cell list" where
  "cells_xyt vi = concat (map (\<lambda>x. concat (map (\<lambda>y. map (\<lambda>t. (x, y, t)) [0..<dim_t vi]) [0..<dim_y vi])) [0..<dim_x vi])"

lemma distinct_nested:
  assumes "distinct xs" "\<And>x. distinct (f x)" "\<And>x y z. z \<in> set (f x) \<Longrightarrow> z \<in> set (f y) \<Longrightarrow> x = y"
  shows "distinct (concat (map f xs))"
  using assms(1)
proof (induction xs)
  case (Cons x xs)
  then have "x \<notin> set xs" by simp
  then have "set (f x) \<inter> set (concat (map f xs)) = {}" using assms(3) by (simp add: disjoint_iff) blast
  then show ?case using Cons assms(2) by simp
qed simp

lemma cells_lists:
  "distinct (cells_yxt vi)" "set (cells_yxt vi) = {c. in_map vi c}"
  "distinct (cells_xyt vi)" "set (cells_xyt vi) = {c. in_map vi c}"
proof -
  have t: "distinct (map (\<lambda>t. (x, y, t)) [0..<dim_t vi])" for x y :: nat by (simp add: distinct_map inj_on_def)
  have x: "distinct (concat (map (\<lambda>x. map (\<lambda>t. (x, y, t)) [0..<dim_t vi]) [0..<dim_x vi]))" for y :: nat
    by (rule distinct_nested, rule distinct_upt, rule t, auto)
  have y: "distinct (concat (map (\<lambda>y. map (\<lambda>t. (x, y, t)) [0..<dim_t vi]) [0..<dim_y vi]))" for x :: nat
    by (rule distinct_nested, rule distinct_upt, rule t, auto)
  show "distinct (cells_yxt vi)" unfolding cells_yxt_def by (rule distinct_nested, rule distinct_upt, rule x, auto)
  show "distinct (cells_xyt vi)" unfolding cells_xyt_def by (rule distinct_nested, rule distinct_upt, rule y, auto)
  show "set (cells_yxt vi) = {c. in_map vi c}" "set (cells_xyt vi) = {c. in_map vi c}"
    by (auto simp: cells_yxt_def cells_xyt_def image_iff)
qed

lemma to_index_int:
  assumes "wf_vi vi" "in_map vi (x, y, t)"
  shows "to_index vi (int x) (int y) (int t) = int (cidx vi (x, y, t))"
proof -
  have "cidx vi (x, y, t) < 2 ^ 31" using cidx_less [OF assms(2)] wf_dims_pos(4) [OF assms(1)] by linarith
  then have "int (cidx vi (x, y, t)) < 2 ^ 31" by (metis of_nat_less_iff of_nat_numeral of_nat_power)
  moreover have "int t + int x * cell_num_t vi + int y * (cell_num_t vi * cell_num_x vi) = int (cidx vi (x, y, t))"
    using int_dims [OF assms(1), symmetric] by (simp add: algebra_simps)
  ultimately show ?thesis by (simp add: to_index_def to_index_raw_def wrap32_id del: cidx.simps)
qed

lemma order_lists:
  assumes "wf_vi vi"
  shows "concat (map (\<lambda>y. concat (map (\<lambda>x. map (\<lambda>t. to_index vi x y t) [0..cell_num_t vi - 1]) [0..cell_num_x vi - 1])) [0..cell_num_y vi - 1])
      = map (\<lambda>c. int (cidx vi c)) (cells_yxt vi)" (is ?A)
    and "concat (map (\<lambda>x. concat (map (\<lambda>y. map (\<lambda>t. to_index vi x y t) [0..cell_num_t vi - 1]) [0..cell_num_y vi - 1])) [0..cell_num_x vi - 1])
      = map (\<lambda>c. int (cidx vi c)) (cells_xyt vi)" (is ?B)
proof -
  have u: "[0..cell_num_x vi - 1] = map int [0..<dim_x vi]" "[0..cell_num_y vi - 1] = map int [0..<dim_y vi]"
    "[0..cell_num_t vi - 1] = map int [0..<dim_t vi]"
    using assms by (simp_all add: upto_conv_upt wf_vi_def dim_x_def dim_y_def dim_t_def)
  show ?A unfolding u cells_yxt_def
    by (simp add: map_concat comp_def del: cidx.simps)
      (intro arg_cong [of _ _ concat] map_cong refl, simp del: cidx.simps add: to_index_int [OF assms])
  show ?B unfolding u cells_xyt_def
    by (simp add: map_concat comp_def del: cidx.simps)
      (intro arg_cong [of _ _ concat] map_cong refl, simp del: cidx.simps add: to_index_int [OF assms])
qed


lemma upt_blocks: "concat (map (\<lambda>i. map (\<lambda>j. i * m + j) [0..<m]) [0..<n]) = [0..<n * (m::nat)]"
proof (induction n)
  case (Suc n)
  have "map (\<lambda>j. n * m + j) [0..<m] = [n * m..<n * m + m]" by (simp add: map_add_upt add.commute)
  then have "concat (map (\<lambda>i. map (\<lambda>j. i * m + j) [0..<m]) [0..<Suc n]) = [0..<n * m] @ [n * m..<n * m + m]"
    using Suc by simp
  also have "\<dots> = [0..<n * m + m]" by (rule upt_add_eq_append [symmetric]) simp
  finally show ?case by (simp add: add.commute)
qed simp

lemma concat_map_concat: "concat (map f (concat (map g xs))) = concat (map (\<lambda>x. concat (map f (g x))) xs)"
  by (induction xs) simp_all

text \<open>The row-major list of cells is the list of array indices.\<close>

lemma cells_yxt_indices: "map (cidx vi) (cells_yxt vi) = [0..<dim_x vi * dim_y vi * dim_t vi]"
proof -
  let ?T = "\<lambda>i. map (\<lambda>t. i * dim_t vi + t) [0..<dim_t vi]"
  have "map (cidx vi) (cells_yxt vi) =
    concat (map (\<lambda>y. concat (map ?T (map (\<lambda>x. y * dim_x vi + x) [0..<dim_x vi]))) [0..<dim_y vi])"
    by (simp add: cells_yxt_def map_concat comp_def)
  also have "\<dots> = concat (map ?T (concat (map (\<lambda>y. map (\<lambda>x. y * dim_x vi + x) [0..<dim_x vi]) [0..<dim_y vi])))"
    by (simp only: concat_map_concat)
  also have "\<dots> = [0..<dim_y vi * dim_x vi * dim_t vi]" by (simp only: upt_blocks)
  finally show ?thesis by (simp only: mult.commute [of "dim_y vi"])
qed

lemma cells_xyt_indices: "mset (map (cidx vi) (cells_xyt vi)) = mset (map (cidx vi) (cells_yxt vi))"
proof -
  have "mset (cells_xyt vi) = mset (cells_yxt vi)"
    using cells_lists [of vi] by (metis set_eq_iff_mset_eq_distinct)
  then show ?thesis by simp
qed

lemma set_sweep_orders_eq:
  assumes "wf_vi vi" "sweep_orders vi = []"
  shows "sweep_orders (set_sweep_orders vi) =
    (let o0 = map int [0..<length (states vi)]; o1 = map (\<lambda>c. int (cidx vi c)) (cells_xyt vi); h = length (states vi) div 2
     in [o0, o1, rev o0, rev o1, o0 @ drop h o1, take h o1])"
proof -
  have o0: "map (\<lambda>c. int (cidx vi c)) (cells_yxt vi) = map int [0..<length (states vi)]"
    using cells_yxt_indices [of vi] assms(1) by (simp add: wf_vi_def flip: map_map [of int "cidx vi", unfolded comp_def])
  show ?thesis using assms(2) unfolding set_sweep_orders_def Let_def order_lists [OF assms(1)] o0 by simp
qed

text \<open>The six sweep orders. The first four visit every state exactly once (the first in array
  order), the fifth visits every state and the second half of the second order again, the sixth
  visits only the first half of the second order, so a sixth worker never updates the other half.\<close>

theorem sweep_orders_shape:
  assumes "wf_vi vi" and "sweep_orders vi = []"
  defines "os \<equiv> sweep_orders (set_sweep_orders vi)" and "n \<equiv> length (states vi)"
  shows "length os = 6 \<and> os ! 0 = map int [0..<n] \<and> (\<forall>k<4. mset (os ! k) = mset (map int [0..<n]))
    \<and> set (os ! 4) = int ` {..<n} \<and> length (os ! 4) = n + (n - n div 2)
    \<and> length (os ! 5) = n div 2 \<and> mset (os ! 5) + mset (drop (n div 2) (os ! 1)) = mset (os ! 0)"
proof -
  let ?o1 = "map (\<lambda>c. int (cidx vi c)) (cells_xyt vi)"
  have n: "dim_x vi * dim_y vi * dim_t vi = n" using assms(1) by (simp add: wf_vi_def n_def)
  have m: "mset ?o1 = mset (map int [0..<n])"
  proof -
    have "mset ?o1 = image_mset int (mset (map (cidx vi) (cells_xyt vi)))"
      unfolding mset_map image_mset.compositionality comp_def ..
    also have "\<dots> = image_mset int (mset [0..<n])"
      unfolding cells_xyt_indices cells_yxt_indices n by (rule refl)
    finally show ?thesis by (simp only: mset_map)
  qed
  have l: "length ?o1 = n" using mset_eq_length [OF m] by simp
  have s: "set ?o1 = int ` {..<n}" using mset_eq_setD [OF m] by (simp only: set_map set_upt lessThan_atLeast0)
  have os: "os = [map int [0..<n], ?o1, rev (map int [0..<n]), rev ?o1, map int [0..<n] @ drop (n div 2) ?o1, take (n div 2) ?o1]"
    unfolding os_def n_def set_sweep_orders_eq [OF assms(1,2)] Let_def ..
  have k: "os ! 0 = map int [0..<n]" "os ! 1 = ?o1" "os ! 2 = rev (map int [0..<n])" "os ! 3 = rev ?o1"
    "os ! 4 = map int [0..<n] @ drop (n div 2) ?o1" "os ! 5 = take (n div 2) ?o1" "length os = 6"
    unfolding os by (simp_all add: nth_Cons')
  have "mset (os ! k) = mset (map int [0..<n])" if "k < 4" for k
  proof -
    from that consider "k = 0" | "k = 1" | "k = 2" | "k = 3" by linarith
    then show ?thesis by cases (simp_all only: k m mset_rev)
  qed
  moreover have "set (os ! 4) = int ` {..<n}"
  proof -
    have "set (drop (n div 2) ?o1) \<subseteq> int ` {..<n}" using set_drop_subset [of "n div 2" ?o1] unfolding s .
    then show ?thesis unfolding k by (simp add: lessThan_atLeast0 sup_absorb1)
  qed
  moreover have "mset (take (n div 2) ?o1) + mset (drop (n div 2) ?o1) = mset (map int [0..<n])"
    unfolding m [symmetric] mset_append [symmetric] by (simp only: append_take_drop_id)
  moreover have "length (take (n div 2) ?o1) = n div 2" "length (map int [0..<n] @ drop (n div 2) ?o1) = n + (n - n div 2)"
    using l by simp_all
  ultimately show ?thesis by (intro conjI allI impI) (simp_all only: k)
qed


section \<open>The driver\<close>

definition wf_orders :: "value_iterator \<Rightarrow> bool" where
  "wf_orders vi \<longleftrightarrow> sweep_orders vi \<noteq> [] \<and> wf_order vi (sweep_orders vi ! 0)"

text \<open>Two solver states with the same map, actions and sweep lists.\<close>

definition same_map :: "value_iterator \<Rightarrow> value_iterator \<Rightarrow> bool" where
  "same_map vi vi' \<longleftrightarrow> same_frame vi (with_ts (thread_status vi) vi')"

lemma same_map_frame: "same_frame vi vi' \<Longrightarrow> same_map vi (with_ts ts vi')"
proof -
  assume fr: "same_frame vi vi'"
  then have "thread_status vi' = thread_status vi" by (auto simp: same_frame_def)
  then have "with_ts (thread_status vi) vi' = vi'" by (metis with_ts_sel(13))
  with fr show ?thesis by (simp add: same_map_def)
qed

lemma same_frame_with_ts: "same_frame vi vi' \<Longrightarrow> same_frame (with_ts ts vi) (with_ts ts vi')"
  unfolding same_frame_def with_ts_def by (elim exE, rule_tac x = sts in exI) simp

lemma same_map_trans:
  assumes "same_map vi vi'" "same_map vi' vi''"
  shows "same_map vi vi''"
proof -
  have "same_frame (with_ts (thread_status vi) vi') (with_ts (thread_status vi) vi'')"
    using same_frame_with_ts [OF assms(2) [unfolded same_map_def], of "thread_status vi"] by simp
  with assms(1) show ?thesis unfolding same_map_def by (rule same_frame_trans)
qed

lemma same_map_sel:
  assumes "same_map vi vi'"
  shows "in_map vi' = in_map vi" "succs vi' = succs vi" "wf_vi vi \<Longrightarrow> wf_vi vi'" "cidx vi' = cidx vi"
    "sweep_orders vi' = sweep_orders vi" "wf_orders vi \<Longrightarrow> wf_orders vi'"
proof -
  let ?v = "with_ts (thread_status vi) vi'"
  have fr: "same_frame vi ?v" using assms by (simp add: same_map_def)
  show s: "in_map vi' = in_map vi" "succs vi' = succs vi" "cidx vi' = cidx vi" using same_frame_sel [OF fr] by simp_all
  show "wf_vi vi \<Longrightarrow> wf_vi vi'" using same_frame_wf [OF fr] by simp
  obtain sts where "?v = vi\<lparr>states := sts\<rparr>" using fr by (auto simp only: same_frame_def)
  from arg_cong [OF this, of sweep_orders] have "sweep_orders ?v = sweep_orders vi" by simp
  then show o: "sweep_orders vi' = sweep_orders vi" by simp
  show "wf_orders vi \<Longrightarrow> wf_orders vi'" by (simp add: wf_orders_def wf_order_def s o del: in_map.simps cidx.simps)
qed

lemma worker_one_sweep:
  assumes "wf_vi vi" "wf_orders vi"
  obtains ts cs where "value_iteration_worker 1 0 vi = Some (with_ts ts (fst (relax_list vi cs)))"
    "distinct cs" "set cs = {c. in_map vi c}"
proof -
  from assms(2) obtain cs where ne: "sweep_orders vi \<noteq> []"
    and cs: "sweep_orders vi ! 0 = map (\<lambda>c. int (cidx vi c)) cs" "distinct cs" "set cs = {c. in_map vi c}"
    by (auto simp: wf_orders_def wf_order_def simp del: cidx.simps in_map.simps)
  let ?vi0 = "with_ts ((thread_status vi)(0 \<mapsto> sweep_status_default)) vi"
  obtain ts1 where vi1: "update_status 0 (\<lambda>st. st\<lparr>sweep_step := 0 + 1\<rparr>) ?vi0 = with_ts ts1 ?vi0"
    using update_status_eq [of 0 "\<lambda>st. st\<lparr>sweep_step := 0 + 1\<rparr>" ?vi0] by blast
  then have vi1': "update_status 0 (\<lambda>st. st\<lparr>sweep_step := 0 + 1\<rparr>) ?vi0 = with_ts ts1 vi" by simp
  obtain d where "fold sweep_cell (map (\<lambda>c. int (cidx (with_ts ts1 vi) c)) cs) (with_ts ts1 vi, 0) = (fst (relax_list (with_ts ts1 vi) cs), d)"
    using sweep_relax [of "with_ts ts1 vi" cs 0] assms(1) cs(3) by (auto simp del: in_map.simps)
  then have sw: "fold sweep_cell (sweep_orders (with_ts ts1 vi) ! 0) (with_ts ts1 vi, 0) = (with_ts ts1 (fst (relax_list vi cs)), d)"
    by (simp add: cs(1) with_ts_relax_list del: cidx.simps)
  have "\<exists>ts. worker_sweeps (Suc 0) 0 0 0 ?vi0 = with_ts ts (fst (relax_list vi cs))"
    unfolding worker_sweeps.simps Let_def vi1' sw prod.case if_cancel using update_status_eq by (metis with_ts_sel(12))
  then obtain ts2 where ts2: "worker_sweeps (Suc 0) 0 0 0 ?vi0 = with_ts ts2 (fst (relax_list vi cs))" ..
  obtain ts where "update_status 0 (\<lambda>st. st\<lparr>finished := True\<rparr>) (with_ts ts2 (fst (relax_list vi cs))) = with_ts ts (with_ts ts2 (fst (relax_list vi cs)))"
    using update_status_eq by blast
  then have "value_iteration_worker 1 0 vi = Some (with_ts ts (fst (relax_list vi cs)))"
    using ne ts2 by (simp add: value_iteration_worker_def usize_of_def Let_def with_ts_def [symmetric] del: worker_sweeps.simps)
  then show thesis by (rule that [OF _ cs(2,3)])
qed

text \<open>What one more sweep without a visible change shows.\<close>

definition reach_settled :: "value_iterator \<Rightarrow> cell \<Rightarrow> bool" where
  "reach_settled vi c \<longleftrightarrow> settled vi c \<or> unreached vi c \<or>
     (\<exists>c'\<in>insert c (succs vi c). REACH_THRESH \<le> total_cost (state_at vi c'))"

lemma quiet_sweep:
  assumes wf: "wf_vi vi" and cs: "distinct cs" "set cs = {c. in_map vi c}"
    and quiet: "\<not> sweep_changed (map total_cost (states vi)) (with_ts ts (fst (relax_list vi cs)))" and c: "in_map vi c"
  shows "reach_settled (with_ts ts (fst (relax_list vi cs))) c"
proof -
  let ?vi = "fst (relax_list vi cs)"
  have inm: "\<forall>c\<in>set cs. in_map vi c" using cs(2) by simp
  have fr: "same_frame vi ?vi" by (rule relax_list_frame [OF wf inm])
  have big: "REACH_THRESH \<le> total_cost (state_at ?vi d)" if d: "d \<in> set (snd (relax_list vi cs))" for d
  proof (rule ccontr)
    assume lt: "\<not> ?thesis"
    have dm: "in_map vi d" using d relax_list_changed inm by blast
    then have i: "cidx vi d < length (states vi)" using cidx_less wf by (simp add: wf_vi_def)
    have "total_cost (state_at ?vi d) \<noteq> total_cost (state_at vi d)" by (rule relax_list_moved [OF wf inm cs(1) d])
    then have "(\<lambda>(s, p). total_cost s < REACH_THRESH \<and> total_cost s \<noteq> p) (zip (states ?vi) (map total_cost (states vi)) ! cidx vi d)"
      using lt i same_frame_sel [OF fr] by (simp add: state_at_def not_le del: cidx.simps)
    moreover have "cidx vi d < length (zip (states ?vi) (map total_cost (states vi)))"
      using i same_frame_sel [OF fr] by simp
    ultimately have "sweep_changed (map total_cost (states vi)) (with_ts ts ?vi)"
      unfolding sweep_changed_def with_ts_sel list_ex_iff by (rule bexI [OF _ nth_mem])
    with quiet show False by simp
  qed
  have "consistent_but vi (set cs \<union> {})" using cs(2) by (simp add: consistent_but_def del: in_map.simps)
  from relax_list_consistent [OF wf inm this] c
  consider "settled ?vi c" | "unreached ?vi c" | "c \<in> affected vi (set (snd (relax_list vi cs)))"
    unfolding consistent_but_def same_frame_sel [OF fr] by blast
  then show ?thesis
  proof cases
    case 3
    then obtain c' where "c' \<in> insert c (succs vi c)" "c' \<in> set (snd (relax_list vi cs))" unfolding affected_def by blast
    then show ?thesis unfolding reach_settled_def with_ts_cells with_ts_preds same_frame_sel [OF fr] using big by blast
  qed (simp_all add: reach_settled_def)
qed

lemma original_loop_sound:
  assumes "wf_vi vi" "wf_orders vi" "prev = map total_cost (states vi)"
  shows "\<exists>vi' out o'. original_loop m obs vi prev i po = Some (vi', out, o') \<and> same_map vi vi' \<and>
    (o_converged out \<longrightarrow> (\<forall>c. in_map vi c \<longrightarrow> reach_settled vi' c)) \<and> i < o_iters out \<and> o_iters out \<le> max (i + 1) m"
  using assms
proof (induction m obs vi prev i po rule: original_loop.induct)
  case (1 m obs vi prev i po)
  obtain ts cs where w: "value_iteration_worker 1 0 vi = Some (with_ts ts (fst (relax_list vi cs)))"
    and cs: "distinct cs" "set cs = {c. in_map vi c}" by (rule worker_one_sweep [OF 1(2,3)])
  let ?vi = "with_ts ts (fst (relax_list vi cs))"
  have "same_frame vi (fst (relax_list vi cs))" using cs(2) by (intro relax_list_frame [OF 1(2)]) simp
  then have sm: "same_map vi ?vi" by (rule same_map_frame)
  note eq = original_loop.simps [of m obs vi prev i po, unfolded w option.case Let_def]
  consider (conv) "\<not> sweep_changed prev ?vi" | (budget) "sweep_changed prev ?vi" "m \<le> i + 1"
    | (more) "sweep_changed prev ?vi" "\<not> m \<le> i + 1" by blast
  then show ?case
  proof cases
    case conv
    then have "\<forall>c. in_map vi c \<longrightarrow> reach_settled ?vi c" using quiet_sweep [OF 1(2) cs] 1(4) by blast
    then show ?thesis unfolding eq using conv sm by (auto simp: outcome_running_def)
  next
    case budget
    then show ?thesis unfolding eq using sm by (auto simp: outcome_running_def)
  next
    case more
    obtain fl p' o' where b: "at_boundary obs True ?vi (i + 1) 0 po = (fl, p', o')" by (metis prod.exhaust)
    show ?thesis
    proof (cases fl)
      case Continue
      have "\<exists>vi' out o''. original_loop m obs ?vi (map total_cost (states ?vi)) (i + 1) (p', o') = Some (vi', out, o'')
        \<and> same_map ?vi vi' \<and> (o_converged out \<longrightarrow> (\<forall>c. in_map ?vi c \<longrightarrow> reach_settled vi' c))
        \<and> i + 1 < o_iters out \<and> o_iters out \<le> max (i + 1 + 1) m"
        using 1(1) [OF w refl _ _ b [symmetric] Continue] more same_map_sel(3,6) [OF sm] 1(2,3) by simp
      then obtain vi' out o'' where r: "original_loop m obs ?vi (map total_cost (states ?vi)) (i + 1) (p', o') = Some (vi', out, o'')"
        and p: "same_map ?vi vi'" "o_converged out \<longrightarrow> (\<forall>c. in_map ?vi c \<longrightarrow> reach_settled vi' c)"
        "i + 1 < o_iters out" "o_iters out \<le> max (i + 1 + 1) m" by blast
      have "original_loop m obs vi prev i po = Some (vi', out, o'')" unfolding eq using more b Continue r by simp
      moreover have "o_iters out \<le> max (i + 1) m" using p(3,4) more by simp
      moreover have "i < o_iters out" "same_map vi vi'" using p(3) same_map_trans [OF sm p(1)] by simp_all
      ultimately show ?thesis using p(2) unfolding same_map_sel(1) [OF sm] by blast
    qed (use eq more b sm in \<open>auto simp: outcome_stopped_def outcome_cancelled_def\<close>)
  qed
qed


text \<open>C26: \<open>original_solve_observed\<close> returns under every observer after at least one sweep and at
  most \<open>max_iter\<close> of them (one, when \<open>max_iter\<close> is zero), and changes nothing but values, policies and
  the thread status. When it reports convergence, the Bellman equation holds at every cell that has
  a successor with a value and whose own and successors' values are below the reachability
  threshold; values above it are not compared.\<close>

theorem original_converges:
  assumes "wf_vi vi" and "wf_orders vi"
  shows "\<exists>vi' out o'. original_solve_observed vi max_iter obs o0 = Some (vi', out, o') \<and> same_map vi vi' \<and>
    1 \<le> o_iters out \<and> o_iters out \<le> max 1 max_iter \<and>
    (o_converged out \<longrightarrow> (\<forall>c. in_map vi c \<longrightarrow> reach_settled vi' c))"
  using original_loop_sound [OF assms refl, of max_iter obs 0 "(pacer_new obs, o0)"]
  unfolding original_solve_observed_def by (auto simp del: in_map.simps)

lemma corridor_orders: "wf_orders corridor"
proof -
  have "sweep_orders corridor ! 0 = map (\<lambda>c. int (cidx corridor c)) [(0, 0, 0), (1, 0, 0), (2, 0, 0)]" by code_simp
  moreover have "set [(0, 0, 0), (1, 0, 0), (2, 0, 0)] = {c. in_map corridor c}"
  proof -
    have "dim_x corridor = 3" "dim_y corridor = 1" "dim_t corridor = 1" by code_simp+
    then have "in_map corridor (x, y, t) \<longleftrightarrow> (x = 0 \<or> x = 1 \<or> x = 2) \<and> y = 0 \<and> t = 0" for x y t by auto
    then show ?thesis by (auto simp del: in_map.simps)
  qed
  moreover have "sweep_orders corridor \<noteq> []" by code_simp
  ultimately show ?thesis unfolding wf_orders_def wf_order_def
    by (intro conjI exI [of _ "[(0, 0, 0), (1, 0, 0), (2, 0, 0)]"]) simp_all
qed

theorem original_converges_witness:
  "\<exists>vi' out o'. original_solve_observed corridor 10 quiet_observer () = Some (vi', out, o') \<and> o_iters out \<le> 10 \<and>
     o_converged out \<and> reach_settled vi' (0, 0, 0)"
proof -
  have "map_option (\<lambda>(_, out, _). o_converged out) (original_solve_observed corridor 10 quiet_observer ()) = Some True"
    by code_simp
  then obtain vi' out o' where r: "original_solve_observed corridor 10 quiet_observer () = Some (vi', out, o')" "o_converged out"
    by (rule converged_run)
  have "in_map corridor (0, 0, 0)" by code_simp
  then show ?thesis using original_converges [OF corridor_wf corridor_orders, of 10 quiet_observer "()"] r by (auto simp del: in_map.simps)
qed

definition corridor_fresh :: value_iterator where
  "corridor_fresh = corridor\<lparr>sweep_orders := []\<rparr>"

theorem sweep_orders_shape_witness:
  "sweep_orders (set_sweep_orders corridor_fresh) ! 0 = map int [0..<length (states corridor_fresh)]"
proof -
  have "wf_vi corridor_fresh" "sweep_orders corridor_fresh = []" by code_simp+
  from sweep_orders_shape [OF this] show ?thesis by blast
qed

section \<open>Progress reports\<close>

lemma worker_sweeps_status:
  assumes "thread_status vi wid = Some st" "status vi \<notin> {''canceled'', ''goal''}"
  shows "\<exists>st'. thread_status (worker_sweeps n j wid k vi) = (thread_status vi)(wid \<mapsto> st') \<and>
    finished st' = finished st \<and> sweep_step st' = (if n = 0 then sweep_step st else j + int n)"
  using assms
proof (induction n arbitrary: j vi st)
  case 0
  then show ?case by (intro exI [of _ st]) (simp add: fun_upd_idem)
next
  case (Suc n)
  let ?vi1 = "update_status wid (\<lambda>st. st\<lparr>sweep_step := j + 1\<rparr>) vi"
  have keep: "thread_status (fst (fold sweep_cell is (v, m))) = thread_status v \<and> status (fst (fold sweep_cell is (v, m))) = status v" for "is" v m
    by (induction "is" arbitrary: v m) (simp_all add: sweep_cell_def value_iteration_at_def case_prod_beta)
  define vi2 m where "vi2 = fst (fold sweep_cell (sweep_orders ?vi1 ! k) (?vi1, 0))"
    and "m = snd (fold sweep_cell (sweep_orders ?vi1 ! k) (?vi1, 0))"
  have vi2: "thread_status vi2 = (thread_status vi)(wid \<mapsto> st\<lparr>sweep_step := j + 1\<rparr>)" "status vi2 = status vi"
    using keep [of "sweep_orders ?vi1 ! k" ?vi1 0] Suc.prems(1) by (simp_all add: vi2_def update_status_def)
  define vi3 where "vi3 = update_status wid (\<lambda>st. st\<lparr>delta := f_of_int (uint (drop_bit PROB_BASE_BIT m))\<rparr>) vi2"
  let ?st = "st\<lparr>sweep_step := j + 1, delta := f_of_int (uint (drop_bit PROB_BASE_BIT m))\<rparr>"
  have vi3: "thread_status vi3 = (thread_status vi)(wid \<mapsto> ?st)" "status vi3 = status vi"
    using vi2 by (simp_all add: vi3_def update_status_def)
  have eq: "worker_sweeps (Suc n) j wid k vi = worker_sweeps n (j + 1) wid k vi3"
    using vi3(2) Suc.prems(2) by (simp add: Let_def case_prod_beta vi3_def vi2_def m_def)
  have "thread_status vi3 wid = Some ?st" "status vi3 \<notin> {''canceled'', ''goal''}" using vi3 Suc.prems(2) by simp_all
  from Suc.IH [OF this, of "j + 1"] obtain st' where
    "thread_status (worker_sweeps n (j + 1) wid k vi3) = (thread_status vi3)(wid \<mapsto> st')"
    "finished st' = finished ?st" "sweep_step st' = (if n = 0 then sweep_step ?st else j + 1 + int n)" by blast
  then show ?case unfolding eq vi3(1) by (intro exI [of _ st']) (simp del: fun_upd_apply)
qed

lemma worker_status:
  assumes "value_iteration_worker n_times wid vi = Some vi'" "status vi \<notin> {''canceled'', ''goal''}" "0 < n_times"
  shows "\<exists>st. thread_status vi' = (thread_status vi)(wid \<mapsto> st) \<and> finished st \<and> sweep_step st = n_times"
proof -
  let ?vi1 = "vi\<lparr>thread_status := (thread_status vi)(wid \<mapsto> sweep_status_default)\<rparr>"
  let ?k = "usize_of wid mod length (sweep_orders vi)"
  have "thread_status ?vi1 wid = Some sweep_status_default" "status ?vi1 \<notin> {''canceled'', ''goal''}" using assms(2) by simp_all
  from worker_sweeps_status [OF this, of "nat n_times" 0 ?k] obtain st' where
    st': "thread_status (worker_sweeps (nat n_times) 0 wid ?k ?vi1) = (thread_status vi)(wid \<mapsto> st')" "sweep_step st' = n_times"
    using assms(3) by auto
  have "vi' = update_status wid (\<lambda>st. st\<lparr>finished := True\<rparr>) (worker_sweeps (nat n_times) 0 wid ?k ?vi1)"
    using assms(1) by (simp add: value_iteration_worker_def Let_def split: if_splits)
  then have "thread_status vi' = (thread_status vi)(wid \<mapsto> st'\<lparr>finished := True\<rparr>)"
    using st'(1) by (simp add: update_status_def)
  then show ?thesis using st'(2) by (intro exI [of _ "st'\<lparr>finished := True\<rparr>"]) simp
qed

text \<open>After the worker of the only thread has run \<open>n_times\<close> sweeps without being cancelled,
  \<open>finished\<close> reports that number of sweeps for it and that everything has finished.\<close>

theorem worker_then_finished:
  assumes "value_iteration_worker n_times 0 vi = Some vi'" and "status vi \<notin> {''canceled'', ''goal''}"
    and "0 < n_times" and "n_times < 2 ^ 31" and "thread_num vi' = 1"
  shows "\<exists>d. vi_finished vi' = (vi', [n_times], [d], True)"
proof -
  obtain st where st: "thread_status vi' 0 = Some st" "finished st" "sweep_step st = n_times"
    using worker_status [OF assms(1-3)] by auto
  then have "(thread_status vi')(0 \<mapsto> st) = thread_status vi'" by (simp add: fun_upd_idem)
  moreover have "take_bit 32 n_times = n_times" using assms(3,4) by (simp add: take_bit_int_eq_self)
  ultimately show ?thesis using st assms(5)
    by (intro exI [of _ "delta st"]) (simp add: vi_finished_def finished_entry_def usize_of_def)
qed

theorem worker_then_finished_witness:
  "\<exists>vi' d. value_iteration_worker 3 0 corridor = Some vi' \<and> vi_finished vi' = (vi', [3], [d], True)"
proof -
  have ne: "sweep_orders corridor \<noteq> []" by code_simp
  then obtain vi' where w: "value_iteration_worker 3 0 corridor = Some vi'" by (simp add: value_iteration_worker_def Let_def)
  have "thread_num (worker_sweeps n j wid k v) = thread_num v" for n j wid k v
  proof -
    have keep: "thread_num (fst (fold sweep_cell is (v, m))) = thread_num v" for "is" v m
      by (induction "is" arbitrary: v m) (simp_all add: sweep_cell_def value_iteration_at_def case_prod_beta)
    have us: "thread_num (update_status wid f v) = thread_num v" for wid f v by (simp add: update_status_def split: option.split)
    show ?thesis by (induction n arbitrary: j v) (simp_all add: Let_def case_prod_beta us keep)
  qed
  then have "thread_num vi' = 1" using w ne
    by (auto simp: value_iteration_worker_def Let_def update_status_def corridor_def corridor_of_def split: option.split)
  moreover have "status corridor \<notin> {''canceled'', ''goal''}" by code_simp
  ultimately show ?thesis using worker_then_finished [OF w] w by simp
qed

end
