(* ===== verification/Padded.thy ===== *)
theory Padded
  imports Original
begin

text \<open>
  The padded model of the planar frontier solvers and the deterministic parallel solver on it
  (\<^verbatim>\<open>solvers/frontier2d_pad.rs\<close>, \<^verbatim>\<open>solvers/frontier2d_par.rs\<close>, the shared final policy pass of
  \<^verbatim>\<open>solvers/mod.rs\<close>): the map is surrounded by occupied cells as wide as the displacement, successor
  offsets are precomputed, every round evaluates all candidates on a snapshot in parallel bands
  and applies the results one after the other.

  The probe of this solver materialises the field only when the observer asks for the policy;
  \<open>looks i\<close> says whether it does at the boundary of round \<open>i\<close>.
\<close>

section \<open>The code\<close>

text \<open>\<open>slice::chunks\<close>, which panics on size zero; the callers pass a positive size.\<close>

function chunks :: "nat \<Rightarrow> 'a list \<Rightarrow> 'a list list" where
  "chunks n xs = (if xs = [] \<or> n = 0 then [] else take n xs # chunks n (drop n xs))"
  by pat_completeness auto
termination by (relation "measure (\<lambda>(n, xs). length xs)") (auto simp: length_drop)

declare chunks.simps [simp del]

record padded =
  hot :: "(u64 \<times> u64) list"
  p_free :: "bool list"
  finals :: "bool list"
  precomp :: "(int \<times> u64) list list list"
  p_nx :: i32
  p_ny :: i32
  p_nt :: i32
  p_mx :: i32
  p_my :: i32
  p_nx_pad :: i32
  row_stride :: int

definition build_precomp :: "value_iterator \<Rightarrow> i32 \<Rightarrow> int \<Rightarrow> (int \<times> u64) list list list" where
  "build_precomp vi nt stride =
     map (\<lambda>a. map (\<lambda>it. map (\<lambda>tr.
         let nit = wrap32 (dit tr + nt) smod nt;
             off = dix tr * nt + diy tr * stride + nit
         in (off, word_of_int (prob tr))) (state_transitions a ! it)) [0..<nat nt]) (actions vi)"

text \<open>The padded index of a state.\<close>

definition pad_state_idx :: "i32 \<Rightarrow> i32 \<Rightarrow> i32 \<Rightarrow> i32 \<Rightarrow> state \<Rightarrow> nat" where
  "pad_state_idx nt mx my nx_pad s = usize_of (wrap32 (st_it s + (st_ix s + mx) * nt + (st_iy s + my) * (nt * nx_pad)))"

definition pad_fill ::
  "i32 \<Rightarrow> i32 \<Rightarrow> i32 \<Rightarrow> i32 \<Rightarrow> state \<Rightarrow> (u64 \<times> u64) list \<times> bool list \<times> bool list \<Rightarrow> (u64 \<times> u64) list \<times> bool list \<times> bool list" where
  "pad_fill nt mx my nx_pad s = (\<lambda>(h, fr, fin).
     let idx = pad_state_idx nt mx my nx_pad s
     in (h[idx := (total_cost s, penalty s + local_penalty s)], fr[idx := free s], fin[idx := final_state s]))"

definition padded_build :: "value_iterator \<Rightarrow> padded" where
  "padded_build vi =
     (case displacement vi of (mx, my, _) \<Rightarrow>
      let nx = cell_num_x vi; ny = cell_num_y vi; nt = cell_num_t vi;
          nx_pad = wrap32 (nx + 2 * mx);
          ny_pad = wrap32 (ny + 2 * my);
          stride = wrap32 (nt * nx_pad);
          n_pad = usize_of (wrap32 (nx_pad * ny_pad * nt))
      in case fold (pad_fill nt mx my nx_pad) (states vi)
             (replicate n_pad (MAX_COST, 0), replicate n_pad False, replicate n_pad False) of
           (h, fr, fin) \<Rightarrow>
         \<lparr>hot = h, p_free = fr, finals = fin, precomp = build_precomp vi nt stride, p_nx = nx, p_ny = ny, p_nt = nt,
          p_mx = mx, p_my = my, p_nx_pad = nx_pad, row_stride = stride\<rparr>)"

definition pad_col :: "padded \<Rightarrow> i32 \<Rightarrow> i32 \<Rightarrow> int" where
  "pad_col m ix iy = (ix + p_mx m) * p_nt m + (iy + p_my m) * row_stride m"

definition pad_write_state :: "padded \<Rightarrow> nat option list option \<Rightarrow> state \<Rightarrow> state" where
  "pad_write_state m opt s =
     (let pad_idx = pad_state_idx (p_nt m) (p_mx m) (p_my m) (p_nx_pad m) s;
          s = s\<lparr>total_cost := fst (hot m ! pad_idx)\<rparr>
      in case opt of
           None \<Rightarrow> s
         | Some acts \<Rightarrow>
             let orig = usize_of (wrap32 (st_it s + st_ix s * p_nt m + st_iy s * (p_nt m * p_nx m)))
             in s\<lparr>optimal_action := acts ! orig\<rparr>)"

definition pad_write_back :: "padded \<Rightarrow> nat option list option \<Rightarrow> value_iterator \<Rightarrow> value_iterator" where
  "pad_write_back m opt vi = vi\<lparr>states := map (pad_write_state m opt) (states vi)\<rparr>"

fun action_cost_pad :: "(u64 \<times> u64) list \<Rightarrow> bool list \<Rightarrow> int \<Rightarrow> (int \<times> u64) list \<Rightarrow> u64 \<Rightarrow> u64" where
  "action_cost_pad h fr col_base [] cost = drop_bit PROB_BASE_BIT cost"
| "action_cost_pad h fr col_base ((off, pr) # buckets) cost =
     (let n = usize_of (col_base + off) in
      if \<not> fr ! n then MAX_COST
      else if fst (h ! n) = MAX_COST then MAX_COST
      else action_cost_pad h fr col_base buckets (cost + (fst (h ! n) + snd (h ! n)) * pr))"

subsection \<open>The final policy pass\<close>

text \<open>One band of rows; \<open>skip\<close> and \<open>cost\<close> are the closures of the caller.\<close>

definition policy_cell ::
  "(nat \<Rightarrow> bool) \<Rightarrow> ((int \<times> u64) list \<Rightarrow> int \<Rightarrow> u64) \<Rightarrow> (int \<times> u64) list list list \<Rightarrow> int \<Rightarrow> nat \<Rightarrow> i32 \<Rightarrow> (nat \<times> nat option) list" where
  "policy_cell skip cost pre pcol orig_col it =
     (if skip (usize_of (pcol + it)) then []
      else [(orig_col + usize_of it,
             snd (fold (\<lambda>(ai, per_theta) (min_cost, min_action).
               let c = cost (per_theta ! usize_of it) pcol in
               if c < min_cost then (c, Some ai) else (min_cost, min_action)) (List.enumerate 0 pre) (MAX_COST, None)))])"

definition policy_row ::
  "(nat \<Rightarrow> bool) \<Rightarrow> ((int \<times> u64) list \<Rightarrow> int \<Rightarrow> u64) \<Rightarrow> (int \<times> u64) list list list \<Rightarrow> i32 \<Rightarrow> i32 \<Rightarrow> i32 \<Rightarrow> i32 \<Rightarrow> int \<Rightarrow> i32
     \<Rightarrow> (nat \<times> nat option) list" where
  "policy_row skip cost pre nx nt mx my stride iy =
     concat (map (\<lambda>ix.
       let pcol = (ix + mx) * nt + (iy + my) * stride;
           orig_col = usize_of (wrap32 (ix * nt + iy * (nt * nx)))
       in concat (map (policy_cell skip cost pre pcol orig_col) [0..nt - 1])) [0..nx - 1])"

definition final_policy_parallel ::
  "i32 \<Rightarrow> i32 \<Rightarrow> i32 \<Rightarrow> i32 \<Rightarrow> i32 \<Rightarrow> int \<Rightarrow> (int \<times> u64) list list list \<Rightarrow> nat \<Rightarrow> (nat \<Rightarrow> bool)
     \<Rightarrow> ((int \<times> u64) list \<Rightarrow> int \<Rightarrow> u64) \<Rightarrow> nat option list" where
  "final_policy_parallel nx ny nt mx my stride pre nthreads skip cost =
     (let n = usize_of (wrap32 (nx * ny * nt));
          rows = [0..ny - 1];
          chunk = max 1 (div_ceil (length rows) nthreads);
          parts = map (\<lambda>band. concat (map (policy_row skip cost pre nx nt mx my stride) band)) (chunks chunk rows)
      in fold (\<lambda>part. fold (\<lambda>(orig, act) opt. opt[orig := act]) part) parts (replicate n None))"

definition final_policy :: "padded \<Rightarrow> nat \<Rightarrow> nat option list" where
  "final_policy m nthreads =
     final_policy_parallel (p_nx m) (p_ny m) (p_nt m) (p_mx m) (p_my m) (row_stride m) (precomp m) nthreads
       (\<lambda>pad_idx. \<not> p_free m ! pad_idx \<or> finals m ! pad_idx)
       (\<lambda>buckets pcol. action_cost_pad (hot m) (p_free m) pcol buckets 0)"

subsection \<open>The parallel Jacobi solver\<close>

definition compute_cell :: "padded \<Rightarrow> nat \<Rightarrow> nat \<Rightarrow> int \<Rightarrow> i32 \<Rightarrow> (nat \<times> u64 \<times> nat \<times> nat) list" where
  "compute_cell m ixu iyu pcol it =
     (let pad_idx = usize_of (pcol + it) in
      if \<not> p_free m ! pad_idx \<or> finals m ! pad_idx then []
      else let before = fst (hot m ! pad_idx);
               min_cost = fold (\<lambda>per_theta min_cost.
                 let c = action_cost_pad (hot m) (p_free m) pcol (per_theta ! usize_of it) 0
                 in if c < min_cost then c else min_cost) (precomp m) MAX_COST
           in if min_cost \<noteq> before then [(pad_idx, min_cost, ixu, iyu)] else [])"

definition compute_column :: "padded \<Rightarrow> nat \<times> nat \<Rightarrow> (nat \<times> u64 \<times> nat \<times> nat) list" where
  "compute_column m = (\<lambda>(ixu, iyu).
     concat (map (compute_cell m ixu iyu (pad_col m (int ixu) (int iyu))) [0..p_nt m - 1]))"

definition compute_round :: "padded \<Rightarrow> (nat \<times> nat) list \<Rightarrow> nat \<Rightarrow> (nat \<times> u64 \<times> nat \<times> nat) list list" where
  "compute_round m candidates nthreads =
     (let chunk = max 1 (div_ceil (length candidates) nthreads)
      in map (\<lambda>part. concat (map (compute_column m) part)) (chunks chunk candidates))"

definition apply_update :: "nat \<times> u64 \<times> nat \<times> nat \<Rightarrow> padded \<times> bitboard2d \<times> u64 \<Rightarrow> padded \<times> bitboard2d \<times> u64" where
  "apply_update = (\<lambda>(pad_idx, min_cost, ixu, iyu) (m, nf, updates).
     (m\<lparr>hot := (hot m)[pad_idx := (min_cost, snd (hot m ! pad_idx))]\<rparr>, set2 nf ixu iyu, updates + 1))"

definition par_round :: "nat \<Rightarrow> padded \<Rightarrow> bitboard2d \<Rightarrow> (padded \<times> bitboard2d \<times> u64) option" where
  "par_round nthreads m frontier =
     (case dilate2d frontier (nat (p_mx m)) (nat (p_my m)) of
        None \<Rightarrow> None
      | Some candidates \<Rightarrow> Some
          (fold (\<lambda>ups. fold apply_update ups) (compute_round m (enumerate2 candidates) nthreads)
             (m, new2 (nat (p_nx m)) (nat (p_ny m)), 0)))"

text \<open>What a look of the observer leaves in the solver state.\<close>

definition par_materialize :: "nat \<Rightarrow> padded \<Rightarrow> value_iterator \<Rightarrow> value_iterator" where
  "par_materialize nthreads m vi = pad_write_back m (Some (final_policy m nthreads)) vi"

text \<open>The round loop; it returns the field, the flow that ended it and the counters.\<close>

function par_loop ::
  "nat \<Rightarrow> (nat \<Rightarrow> bool) \<Rightarrow> nat \<Rightarrow> 'o solve_observer \<Rightarrow> value_iterator \<Rightarrow> padded \<Rightarrow> bitboard2d \<Rightarrow> nat \<Rightarrow> u64 \<Rightarrow> boundary_pacer \<times> 'o
     \<Rightarrow> (value_iterator \<times> padded \<times> bitboard2d \<times> nat \<times> u64 \<times> solve_flow \<times> 'o) option" where
  "par_loop nthreads looks max_iter obs vi m frontier iters updates po =
     (if 0 < popcount2 frontier \<and> iters < max_iter then
        (case par_round nthreads m frontier of
           None \<Rightarrow> None
         | Some (m', frontier', u) \<Rightarrow>
             let iters' = iters + 1;
                 updates' = updates + u;
                 due = 0 < popcount2 frontier' \<and> fst (pacer_due iters' (fst po));
                 vi' = (if due \<and> looks iters' then par_materialize nthreads m' vi else vi)
             in (case at_boundary obs (0 < popcount2 frontier') (par_materialize nthreads m' vi) iters' updates' po of
                   (flow, po') \<Rightarrow>
                     if flow = Continue then par_loop nthreads looks max_iter obs vi' m' frontier' iters' updates' po'
                     else Some (vi', m', frontier', iters', updates', flow, snd po')))
      else Some (vi, m, frontier, iters, updates, Continue, snd po))"
  by pat_completeness auto
termination
  by (relation "measure (\<lambda>(nthr, l, mx, obs, vi, m, f, i, u, po). mx - i)") auto

declare par_loop.simps [simp del]

definition frontier2d_par_solve_observed ::
  "nat \<Rightarrow> (nat \<Rightarrow> bool) \<Rightarrow> value_iterator \<Rightarrow> nat \<Rightarrow> 'o solve_observer \<Rightarrow> 'o \<Rightarrow> (value_iterator \<times> solve_outcome \<times> 'o) option" where
  "frontier2d_par_solve_observed nthreads looks vi max_iter obs o0 =
     (case par_loop nthreads looks max_iter obs vi (padded_build vi) (seed_frontier_2d vi) 0 0 (pacer_new obs, o0) of
        None \<Rightarrow> None
      | Some (vi', m, frontier, iters, updates, flow, o') \<Rightarrow>
          (case flow of
             Cancel \<Rightarrow> Some (vi', outcome_cancelled iters updates, o')
           | Stop \<Rightarrow> Some (par_materialize nthreads m vi', outcome_stopped iters updates, o')
           | Continue \<Rightarrow> Some (par_materialize nthreads m vi', outcome_running iters updates (popcount2 frontier = 0), o')))"

section \<open>Independence of the number of threads\<close>

lemma concat_chunks: "0 < n \<Longrightarrow> concat (chunks n xs) = xs"
proof (induction n xs rule: chunks.induct)
  case (1 n xs)
  show ?case
  proof (cases "xs = []")
    case True
    then show ?thesis by (subst chunks.simps) simp
  next
    case False
    then have "concat (chunks n (drop n xs)) = drop n xs" using 1 by simp
    then show ?thesis using False 1(2) by (subst chunks.simps) simp
  qed
qed

lemma fold_parts: "fold (\<lambda>part. fold f part) parts s = fold f (concat parts) s"
  by (induction parts arbitrary: s) simp_all

lemma concat_map_parts: "concat (map (\<lambda>part. concat (map f part)) parts) = concat (map f (concat parts))"
  by (induction parts) simp_all

lemma final_policy_parallel_seq:
  "final_policy_parallel nx ny nt mx my stride pre nthreads skip cost =
     fold (\<lambda>(orig, act) opt. opt[orig := act]) (concat (map (policy_row skip cost pre nx nt mx my stride) [0..ny - 1]))
       (replicate (usize_of (wrap32 (nx * ny * nt))) None)"
  unfolding final_policy_parallel_def Let_def fold_parts concat_map_parts
  by (subst concat_chunks) simp_all

lemma compute_round_seq: "concat (compute_round m candidates nthreads) = concat (map (compute_column m) candidates)"
  unfolding compute_round_def Let_def concat_map_parts by (subst concat_chunks) simp_all

lemma par_round_seq:
  "par_round nthreads m frontier =
     map_option (\<lambda>candidates. fold apply_update (concat (map (compute_column m) (enumerate2 candidates)))
       (m, new2 (nat (p_nx m)) (nat (p_ny m)), 0)) (dilate2d frontier (nat (p_mx m)) (nat (p_my m)))"
  unfolding par_round_def fold_parts compute_round_seq by (cases "dilate2d frontier (nat (p_mx m)) (nat (p_my m))") simp_all

lemma par_materialize_threads: "par_materialize n m vi = par_materialize n' m vi"
  unfolding par_materialize_def final_policy_def final_policy_parallel_seq ..

lemma par_loop_threads:
  "par_loop n looks mi obs vi m f i u po = par_loop n' looks mi obs vi m f i u po"
proof (induction n looks mi obs vi m f i u po rule: par_loop.induct)
  case (1 n looks mi obs vi m f i u po)
  have r: "par_round n m f = par_round n' m f" unfolding par_round_seq ..
  show ?case
  proof (cases "0 < popcount2 f \<and> i < mi")
    case True
    show ?thesis
    proof (cases "par_round n m f")
      case None
      then show ?thesis using True r by (subst (1 2) par_loop.simps) simp
    next
      case (Some a)
      obtain m' f' u' where a: "a = (m', f', u')" by (rule prod_cases3)
      obtain fl po' where b: "at_boundary obs (0 < popcount2 f') (par_materialize n m' vi) (i + 1) (u + u') po = (fl, po')"
        by (rule prod.exhaust)
      have b': "at_boundary obs (0 < popcount2 f') (par_materialize n' m' vi) (i + 1) (u + u') po = (fl, po')"
        using b par_materialize_threads [of n m' vi n'] by simp
      note IH = 1 [OF True Some a [symmetric] refl refl refl refl refl b [symmetric]]
      show ?thesis
        using True Some r a b b' IH par_materialize_threads [of n m' vi n'] by (subst (1 2) par_loop.simps) (simp add: Let_def)
    qed
  next
    case False
    then show ?thesis by (subst (1 2) par_loop.simps) auto
  qed
qed

text \<open>C27: the deterministic parallel solver: the number of threads, and with it the way candidates and
  rows are split into bands, does not influence the field, the policy, the counters or what the
  observer sees.\<close>

theorem par_deterministic:
  "frontier2d_par_solve_observed n looks vi max_iter obs o0 = frontier2d_par_solve_observed n' looks vi max_iter obs o0"
  unfolding frontier2d_par_solve_observed_def par_loop_threads [of n looks max_iter obs vi _ _ _ _ _ n'] par_materialize_threads [of n _ _ n'] ..


section \<open>The padded array\<close>

lemma fold_write_length: "length (fold (\<lambda>s a. a[k s := g s]) ss a) = length a"
  by (induction ss arbitrary: a) simp_all

lemma fold_write_other: "\<forall>s\<in>set ss. k s \<noteq> j \<Longrightarrow> fold (\<lambda>s a. a[k s := g s]) ss a ! j = a ! j"
  by (induction ss arbitrary: a) simp_all

lemma fold_write_same:
  assumes "j < length a" "\<exists>s\<in>set ss. k s = j" "\<forall>s\<in>set ss. k s = j \<longrightarrow> g s = v"
  shows "fold (\<lambda>s a. a[k s := g s]) ss a ! j = v"
  using assms
proof (induction ss arbitrary: a)
  case (Cons s ss)
  show ?case
  proof (cases "\<exists>s\<in>set ss. k s = j")
    case True
    then show ?thesis using Cons.IH [of "a[k s := g s]"] Cons.prems by simp
  next
    case False
    then have "k s = j" using Cons.prems(2) by auto
    then show ?thesis using False Cons.prems(1,3) by (simp add: fold_write_other)
  qed
qed simp

lemma fold_pad_fill:
  "fold (pad_fill nt mx my w) ss (h, fr, fin) =
    (fold (\<lambda>s a. a[pad_state_idx nt mx my w s := (total_cost s, penalty s + local_penalty s)]) ss h,
     fold (\<lambda>s a. a[pad_state_idx nt mx my w s := free s]) ss fr,
     fold (\<lambda>s a. a[pad_state_idx nt mx my w s := final_state s]) ss fin)"
  by (induction ss arbitrary: h fr fin) (simp_all add: pad_fill_def Let_def)

definition pad_x :: "value_iterator \<Rightarrow> nat" where "pad_x vi = nat (fst (displacement vi))"
definition pad_y :: "value_iterator \<Rightarrow> nat" where "pad_y vi = nat (fst (snd (displacement vi)))"
definition pad_w :: "value_iterator \<Rightarrow> nat" where "pad_w vi = dim_x vi + 2 * pad_x vi"
definition pad_h :: "value_iterator \<Rightarrow> nat" where "pad_h vi = dim_y vi + 2 * pad_y vi"

definition pad_fits :: "value_iterator \<Rightarrow> bool" where
  "pad_fits vi \<longleftrightarrow> pad_w vi * pad_h vi * dim_t vi < 2 ^ 31"

definition pcell :: "value_iterator \<Rightarrow> nat \<Rightarrow> nat \<Rightarrow> nat \<Rightarrow> nat" where
  "pcell vi px py t = (py * pad_w vi + px) * dim_t vi + t"

definition pidx :: "value_iterator \<Rightarrow> cell \<Rightarrow> nat" where
  "pidx vi = (\<lambda>(x, y, t). pcell vi (x + pad_x vi) (y + pad_y vi) t)"

lemma pcell_less:
  assumes "px < pad_w vi" "py < pad_h vi" "t < dim_t vi"
  shows "pcell vi px py t < pad_w vi * pad_h vi * dim_t vi"
proof -
  have "py * pad_w vi + px < pad_h vi * pad_w vi" using assms by (simp add: row_major_less)
  then have "(py * pad_w vi + px) * dim_t vi + t < (pad_h vi * pad_w vi) * dim_t vi" using assms by (intro row_major_less) simp_all
  then show ?thesis by (simp add: pcell_def mult.commute)
qed

lemma pcell_eq:
  assumes "px < pad_w vi" "t < dim_t vi" "px' < pad_w vi" "t' < dim_t vi"
  shows "pcell vi px py t = pcell vi px' py' t' \<longleftrightarrow> px = px' \<and> py = py' \<and> t = t'"
  using assms by (auto simp: pcell_def row_major_eq)

lemma pidx_less: "in_map vi c \<Longrightarrow> pidx vi c < pad_w vi * pad_h vi * dim_t vi"
proof (cases c)
  case (fields x y t)
  assume "in_map vi c"
  then have "x + pad_x vi < pad_w vi" "y + pad_y vi < pad_h vi" "t < dim_t vi" using fields by (simp_all add: pad_w_def pad_h_def)
  then show ?thesis using fields by (simp add: pidx_def pcell_less)
qed

lemma pidx_inj: "in_map vi c \<Longrightarrow> in_map vi c' \<Longrightarrow> pidx vi c = pidx vi c' \<longleftrightarrow> c = c'"
  by (cases c; cases c') (simp add: pidx_def pcell_eq pad_w_def)

lemma disp_pos:
  assumes "displacement vi = (mx, my, mt)"
  shows "mx = int (pad_x vi)" "my = int (pad_y vi)"
proof -
  have "1 \<le> mx" "1 \<le> my" using assms by (auto simp: displacement_def split: prod.splits)
  then show "mx = int (pad_x vi)" "my = int (pad_y vi)" using assms by (simp_all add: pad_x_def pad_y_def)
qed

lemma wrap32_nat: "n < 2 ^ 31 \<Longrightarrow> wrap32 (int n) = int n"
proof -
  assume "n < 2 ^ 31"
  then have "int n < 2 ^ 31" by (metis of_nat_less_iff of_nat_numeral of_nat_power)
  then show ?thesis by (intro wrap32_id) simp_all
qed

lemma pad_state_idx_cell:
  assumes "wf_vi vi" "pad_fits vi" "in_map vi c"
  shows "pad_state_idx (cell_num_t vi) (int (pad_x vi)) (int (pad_y vi)) (int (pad_w vi)) (state_at vi c) = pidx vi c"
proof -
  obtain x y t where c: "c = (x, y, t)" by (cases c)
  have l: "pidx vi c < 2 ^ 31" using pidx_less [OF assms(3)] assms(2) by (simp add: pad_fits_def)
  have "st_it (state_at vi c) + (st_ix (state_at vi c) + int (pad_x vi)) * cell_num_t vi
      + (st_iy (state_at vi c) + int (pad_y vi)) * (cell_num_t vi * int (pad_w vi)) = int (pidx vi c)"
    using wf_vi_state_at [OF assms(1), of x y t] assms(3) c int_dims [OF assms(1), symmetric]
    by (simp add: pidx_def pcell_def algebra_simps)
  then show ?thesis unfolding pad_state_idx_def by (simp add: wrap32_nat [OF l] usize_of_int [OF l])
qed

text \<open>The padded arrays hold the values \<open>V\<close> and the map of \<open>vi\<close>, and no free cell outside the map.\<close>

definition pad_rel :: "value_iterator \<Rightarrow> (cell \<Rightarrow> u64) \<Rightarrow> padded \<Rightarrow> bool" where
  "pad_rel vi V m \<longleftrightarrow>
     p_nx m = cell_num_x vi \<and> p_ny m = cell_num_y vi \<and> p_nt m = cell_num_t vi \<and> p_mx m = int (pad_x vi) \<and> p_my m = int (pad_y vi) \<and>
     p_nx_pad m = int (pad_w vi) \<and> row_stride m = cell_num_t vi * int (pad_w vi) \<and>
     precomp m = build_precomp vi (cell_num_t vi) (cell_num_t vi * int (pad_w vi)) \<and>
     length (hot m) = pad_w vi * pad_h vi * dim_t vi \<and>
     (\<forall>c. in_map vi c \<longrightarrow> hot m ! pidx vi c = (V c, penalty (state_at vi c) + local_penalty (state_at vi c)) \<and>
        p_free m ! pidx vi c = free (state_at vi c) \<and> finals m ! pidx vi c = final_state (state_at vi c)) \<and>
     (\<forall>px py t. px < pad_w vi \<and> py < pad_h vi \<and> t < dim_t vi \<and>
        \<not> (pad_x vi \<le> px \<and> px < pad_x vi + dim_x vi \<and> pad_y vi \<le> py \<and> py < pad_y vi + dim_y vi) \<longrightarrow> \<not> p_free m ! pcell vi px py t)"

lemma pad_rel_at:
  assumes "pad_rel vi V m" "in_map vi c"
  shows "hot m ! pidx vi c = (V c, penalty (state_at vi c) + local_penalty (state_at vi c))"
    "p_free m ! pidx vi c = free (state_at vi c)" "finals m ! pidx vi c = final_state (state_at vi c)"
  using assms unfolding pad_rel_def by blast+

lemma pad_state_key:
  assumes "wf_vi vi" "pad_fits vi" "s \<in> set (states vi)"
  shows "\<exists>c. in_map vi c \<and> s = state_at vi c \<and>
    pad_state_idx (cell_num_t vi) (int (pad_x vi)) (int (pad_y vi)) (int (pad_w vi)) s = pidx vi c"
  using assms(3) pad_state_idx_cell [OF assms(1,2)] unfolding state_list_cells [OF assms(1)] by blast

lemma pad_fold_at:
  assumes wf: "wf_vi vi" and fits: "pad_fits vi" and c: "in_map vi c"
  shows "fold (\<lambda>s a. a[pad_state_idx (cell_num_t vi) (int (pad_x vi)) (int (pad_y vi)) (int (pad_w vi)) s := g s]) (states vi)
    (replicate (pad_w vi * pad_h vi * dim_t vi) x) ! pidx vi c = g (state_at vi c)"
proof (rule fold_write_same)
  let ?k = "pad_state_idx (cell_num_t vi) (int (pad_x vi)) (int (pad_y vi)) (int (pad_w vi))"
  show "pidx vi c < length (replicate (pad_w vi * pad_h vi * dim_t vi) x)" using pidx_less [OF c] by simp
  show "\<exists>s\<in>set (states vi). ?k s = pidx vi c"
    using c pad_state_idx_cell [OF wf fits c] state_list_cells [OF wf, of "state_at vi c"] by blast
  show "\<forall>s\<in>set (states vi). ?k s = pidx vi c \<longrightarrow> g s = g (state_at vi c)"
    using pad_state_key [OF wf fits] pidx_inj [OF _ c] by metis
qed

lemma padded_build_rel:
  assumes wf: "wf_vi vi" and fits: "pad_fits vi"
  shows "pad_rel vi (\<lambda>c. total_cost (state_at vi c)) (padded_build vi)"
proof -
  let ?N = "pad_w vi * pad_h vi * dim_t vi"
  obtain mx my mt where d: "displacement vi = (mx, my, mt)" by (rule prod_cases3)
  note m = disp_pos [OF d] and dims = wf_dims_pos [OF wf]
  have N: "?N < 2 ^ 31" using fits by (simp add: pad_fits_def)
  have pos: "0 < pad_w vi" "0 < pad_h vi" using dims by (simp_all add: pad_w_def pad_h_def)
  have le: "pad_w vi \<le> ?N" "pad_h vi \<le> ?N" "dim_t vi * pad_w vi \<le> ?N" using pos dims by simp_all
  have w: "wrap32 (cell_num_x vi + 2 * mx) = int (pad_w vi)" "wrap32 (cell_num_y vi + 2 * my) = int (pad_h vi)"
  proof -
    have e: "cell_num_x vi + 2 * mx = int (pad_w vi)" "cell_num_y vi + 2 * my = int (pad_h vi)"
      unfolding m using int_dims [OF wf] by (simp_all add: pad_w_def pad_h_def)
    show "wrap32 (cell_num_x vi + 2 * mx) = int (pad_w vi)" "wrap32 (cell_num_y vi + 2 * my) = int (pad_h vi)"
      unfolding e by (rule wrap32_nat, rule le_less_trans [OF _ N], rule le)+
  qed
  have st: "wrap32 (cell_num_t vi * int (pad_w vi)) = cell_num_t vi * int (pad_w vi)"
    using wrap32_nat [OF le_less_trans [OF le(3) N]] int_dims [OF wf] by simp
  have np: "usize_of (wrap32 (int (pad_w vi) * int (pad_h vi) * cell_num_t vi)) = ?N"
    using wrap32_nat [OF N] usize_of_int [OF N] int_dims [OF wf] by simp
  let ?k = "pad_state_idx (cell_num_t vi) (int (pad_x vi)) (int (pad_y vi)) (int (pad_w vi))"
  have b: "padded_build vi = \<lparr>hot = fold (\<lambda>s a. a[?k s := (total_cost s, penalty s + local_penalty s)]) (states vi) (replicate ?N (MAX_COST, 0)),
      p_free = fold (\<lambda>s a. a[?k s := free s]) (states vi) (replicate ?N False),
      finals = fold (\<lambda>s a. a[?k s := final_state s]) (states vi) (replicate ?N False),
      precomp = build_precomp vi (cell_num_t vi) (cell_num_t vi * int (pad_w vi)), p_nx = cell_num_x vi, p_ny = cell_num_y vi,
      p_nt = cell_num_t vi, p_mx = int (pad_x vi), p_my = int (pad_y vi), p_nx_pad = int (pad_w vi), row_stride = cell_num_t vi * int (pad_w vi)\<rparr>"
    unfolding padded_build_def d prod.case Let_def w st np unfolding m fold_pad_fill prod.case ..
  note key = pad_state_key [OF wf fits] and at = pad_fold_at [OF wf fits]
  have off: "\<not> fold (\<lambda>s a. a[?k s := free s]) (states vi) (replicate ?N False) ! pcell vi px py t"
    if p: "px < pad_w vi" "py < pad_h vi" "t < dim_t vi"
      "\<not> (pad_x vi \<le> px \<and> px < pad_x vi + dim_x vi \<and> pad_y vi \<le> py \<and> py < pad_y vi + dim_y vi)" for px py t
  proof -
    have "?k s \<noteq> pcell vi px py t" if s: "s \<in> set (states vi)" for s
    proof -
      obtain x y t' where "in_map vi (x, y, t')" "?k s = pidx vi (x, y, t')" using key [OF s] by (metis prod_cases3)
      then show ?thesis using p by (auto simp: pidx_def pcell_eq pad_w_def)
    qed
    then have "fold (\<lambda>s a. a[?k s := free s]) (states vi) (replicate ?N False) ! pcell vi px py t = replicate ?N False ! pcell vi px py t"
      by (intro fold_write_other) blast
    then show ?thesis using pcell_less [OF p(1-3)] by simp
  qed
  show ?thesis unfolding pad_rel_def b using off by (simp add: fold_write_length at del: in_map.simps)
qed


section \<open>The clamped cost\<close>

text \<open>The reference cost with one difference: an outcome on a free cell without a value costs
  \<open>MAX_COST\<close> instead of the wrapped product.\<close>

fun cost_clamp :: "(cell \<Rightarrow> u64) \<Rightarrow> value_iterator \<Rightarrow> cell \<Rightarrow> state_transition list \<Rightarrow> u64 \<Rightarrow> u64" where
  "cost_clamp V vi c [] cost = drop_bit PROB_BASE_BIT cost"
| "cost_clamp V vi c (tr # trs) cost =
     (case succ_cell vi tr c of
        None \<Rightarrow> MAX_COST
      | Some c' \<Rightarrow> let s = state_at vi c' in
          if \<not> free s then MAX_COST
          else if V c' = MAX_COST then MAX_COST
          else cost_clamp V vi c trs (cost + (V c' + (penalty s + local_penalty s)) * word_of_int (prob tr)))"

lemma pad_target:
  assumes wf: "wf_vi vi" and fits: "pad_fits vi" and c: "in_map vi (x, y, t)" and tr: "wf_transition vi tr"
    and disp: "\<bar>dix tr\<bar> \<le> int (pad_x vi)" "\<bar>diy tr\<bar> \<le> int (pad_y vi)" and rel: "pad_rel vi V m"
  defines "n \<equiv> usize_of (pad_col m (int x) (int y) + (dix tr * cell_num_t vi + diy tr * (cell_num_t vi * int (pad_w vi))
      + wrap32 (dit tr + cell_num_t vi) smod cell_num_t vi))"
  shows "n < pad_w vi * pad_h vi * dim_t vi" and "case succ_cell vi tr (x, y, t) of None \<Rightarrow> \<not> p_free m ! n
    | Some c' \<Rightarrow> n = pidx vi c' \<and> p_free m ! n = free (state_at vi c') \<and> hot m ! n = (V c', penalty (state_at vi c') + local_penalty (state_at vi c'))"
proof -
  define px py nit where "px = nat (int x + int (pad_x vi) + dix tr)" and "py = nat (int y + int (pad_y vi) + diy tr)"
    and "nit = nat (dit tr mod cell_num_t vi)"
  have nt: "0 < cell_num_t vi" using wf by (simp add: wf_vi_def)
  have i: "int px = int x + int (pad_x vi) + dix tr" "int py = int y + int (pad_y vi) + diy tr" "int nit = dit tr mod cell_num_t vi"
    using disp nt by (simp_all add: px_def py_def nit_def)
  have xy: "x < dim_x vi" "y < dim_y vi" using c by simp_all
  have b: "px < pad_w vi" "py < pad_h vi" using i disp xy by (simp_all add: pad_w_def pad_h_def)
  have t: "nit < dim_t vi" using i(3) nt int_dims(3) [OF wf] by (metis of_nat_less_iff pos_mod_bound)
  have l: "pcell vi px py nit < 2 ^ 31" using pcell_less [OF b t] fits by (simp add: pad_fits_def)
  have "pad_col m (int x) (int y) + (dix tr * cell_num_t vi + diy tr * (cell_num_t vi * int (pad_w vi)) + dit tr mod cell_num_t vi)
      = int (pcell vi px py nit)"
    using rel i int_dims [OF wf, symmetric] by (simp add: pad_rel_def pad_col_def pcell_def algebra_simps)
  then have n: "n = pcell vi px py nit"
    unfolding n_def theta_index [OF wf tr] using usize_of_int [OF l] by simp
  show "n < pad_w vi * pad_h vi * dim_t vi" unfolding n by (rule pcell_less [OF b t])
  show "case succ_cell vi tr (x, y, t) of None \<Rightarrow> \<not> p_free m ! n
    | Some c' \<Rightarrow> n = pidx vi c' \<and> p_free m ! n = free (state_at vi c') \<and> hot m ! n = (V c', penalty (state_at vi c') + local_penalty (state_at vi c'))"
  proof (cases "succ_cell vi tr (x, y, t)")
    case None
    then have "\<not> (pad_x vi \<le> px \<and> px < pad_x vi + dim_x vi \<and> pad_y vi \<le> py \<and> py < pad_y vi + dim_y vi)"
      using i int_dims [OF wf, symmetric] by (auto simp: succ_cell_def Let_def split: if_splits)
    then show ?thesis using rel b t None unfolding n pad_rel_def by simp
  next
    case (Some c')
    then have c': "c' = (nat (int x + dix tr), nat (int y + diy tr), nit)"
      "0 \<le> int x + dix tr" "0 \<le> int y + diy tr"
      by (auto simp: succ_cell_def Let_def nit_def split: if_splits)
    then have "px = nat (int x + dix tr) + pad_x vi" "py = nat (int y + diy tr) + pad_y vi" using i(1,2) by linarith+
    then have "n = pidx vi c'" unfolding n c'(1) by (simp add: pidx_def)
    then show ?thesis using pad_rel_at [OF rel succ_cell_in_map [OF wf Some]] Some by simp
  qed
qed

lemma action_cost_pad_clamp:
  assumes wf: "wf_vi vi" and fits: "pad_fits vi" and c: "in_map vi (x, y, t)" and rel: "pad_rel vi V m"
    and trs: "\<forall>tr\<in>set trs. wf_transition vi tr \<and> \<bar>dix tr\<bar> \<le> int (pad_x vi) \<and> \<bar>diy tr\<bar> \<le> int (pad_y vi)"
  shows "action_cost_pad (hot m) (p_free m) (pad_col m (int x) (int y))
      (map (\<lambda>tr. let nit = wrap32 (dit tr + cell_num_t vi) smod cell_num_t vi;
             off = dix tr * cell_num_t vi + diy tr * (cell_num_t vi * int (pad_w vi)) + nit
         in (off, word_of_int (prob tr))) trs) cost = cost_clamp V vi (x, y, t) trs cost"
  using trs
proof (induction trs arbitrary: cost)
  case (Cons tr trs)
  note tgt = pad_target [OF wf fits c _ _ _ rel, of tr]
  show ?case
  proof (cases "succ_cell vi tr (x, y, t)")
    case None
    then show ?thesis using tgt Cons.prems by (simp add: Let_def)
  next
    case (Some c')
    then show ?thesis using tgt Cons pad_rel_at [OF rel succ_cell_in_map [OF wf Some]] by (simp add: Let_def)
  qed
qed simp

lemma transition_bounds:
  assumes "wf_vi vi" "a \<in> set (actions vi)" "t < dim_t vi" "tr \<in> set (state_transitions a ! t)"
  shows "wf_transition vi tr" "\<bar>dix tr\<bar> \<le> int (pad_x vi)" "\<bar>diy tr\<bar> \<le> int (pad_y vi)"
proof -
  obtain mx my mt where d: "displacement vi = (mx, my, mt)" by (rule prod_cases3)
  have len: "t < length (state_transitions a)" using assms(1-3) by (simp add: wf_vi_def list_all_iff wf_action_def)
  from displacement_bounds(1) [OF assms(2) len assms(4) d] disp_pos [OF d]
  show "\<bar>dix tr\<bar> \<le> int (pad_x vi)" "\<bar>diy tr\<bar> \<le> int (pad_y vi)" by (simp_all add: le3_def tr_disp_def Let_def)
  show "wf_transition vi tr" by (rule wf_vi_transition [OF assms])
qed

text \<open>The clamped Bellman update of a cell: the best value and the first action that attains it.\<close>

definition clamped :: "(cell \<Rightarrow> u64) \<Rightarrow> value_iterator \<Rightarrow> cell \<Rightarrow> u64 \<times> nat option" where
  "clamped V vi c = argmin_loop (\<lambda>a. cost_clamp V vi c (state_transitions a ! snd (snd c)) 0) (actions vi)"

definition eligible :: "value_iterator \<Rightarrow> cell \<Rightarrow> bool" where
  "eligible vi c \<longleftrightarrow> free (state_at vi c) \<and> \<not> final_state (state_at vi c)"

lemma precomp_cost:
  assumes wf: "wf_vi vi" and fits: "pad_fits vi" and c: "in_map vi (x, y, t)" and rel: "pad_rel vi V m"
    and i: "i < length (actions vi)"
  shows "action_cost_pad (hot m) (p_free m) (pad_col m (int x) (int y)) (precomp m ! i ! t) 0
     = cost_clamp V vi (x, y, t) (state_transitions (actions vi ! i) ! t) 0"
proof -
  have t: "t < dim_t vi" using c by simp
  have "precomp m ! i ! t = map (\<lambda>tr. let nit = wrap32 (dit tr + cell_num_t vi) smod cell_num_t vi;
             off = dix tr * cell_num_t vi + diy tr * (cell_num_t vi * int (pad_w vi)) + nit
         in (off, word_of_int (prob tr))) (state_transitions (actions vi ! i) ! t)"
    using rel i t by (simp add: pad_rel_def build_precomp_def dim_t_def)
  then show ?thesis
    using action_cost_pad_clamp [OF wf fits c rel] transition_bounds [OF wf nth_mem [OF i] t] by simp
qed

lemma length_precomp: "pad_rel vi V m \<Longrightarrow> length (precomp m) = length (actions vi)"
  by (simp add: pad_rel_def build_precomp_def)

text \<open>The loop that keeps only the minimum agrees with the one that also keeps the action.\<close>

lemma fold_min_argmin:
  "length xs = length ys \<Longrightarrow> (\<And>i. i < length xs \<Longrightarrow> f (xs ! i) = g (ys ! i)) \<Longrightarrow>
   fold (\<lambda>x m. let c = f x in if c < m then c else m) xs (m :: u64) =
   fst (fold (\<lambda>(ai, a) (m, b). let c = g a in if c < m then (c, Some ai) else (m, b)) (List.enumerate k ys) (m, b))"
proof (induction xs ys arbitrary: m b k rule: list_induct2)
  case (Cons x xs y ys)
  have h: "f x = g y" using Cons.prems [of 0] by simp
  have t: "f (xs ! i) = g (ys ! i)" if "i < length xs" for i using Cons.prems [of "Suc i"] that by simp
  show ?case using Cons.IH [OF t] by (simp add: Let_def h)
qed simp

lemma fold_argmin_map:
  "length xs = length ys \<Longrightarrow> (\<And>i. i < length xs \<Longrightarrow> f (xs ! i) = g (ys ! i)) \<Longrightarrow>
   fold (\<lambda>(ai, a) (m, b). let c = f a in if c < m then (c, Some ai) else (m, b)) (List.enumerate k xs) p =
   fold (\<lambda>(ai, a) (m, b). let c = g a in if c < m then (c, Some ai) else (m :: u64, b)) (List.enumerate k ys) p"
proof (induction xs ys arbitrary: p k rule: list_induct2)
  case (Cons x xs y ys)
  have h: "f x = g y" using Cons.prems [of 0] by simp
  have t: "f (xs ! i) = g (ys ! i)" if "i < length xs" for i using Cons.prems [of "Suc i"] that by simp
  show ?case by (simp add: h Cons.IH [OF t])
qed simp


section \<open>A round on the padded array\<close>

definition moved :: "(cell \<Rightarrow> u64) \<Rightarrow> value_iterator \<Rightarrow> cell \<Rightarrow> bool" where
  "moved V vi c \<longleftrightarrow> eligible vi c \<and> fst (clamped V vi c) \<noteq> V c"

definition upd_of :: "(cell \<Rightarrow> u64) \<Rightarrow> value_iterator \<Rightarrow> cell \<Rightarrow> nat \<times> u64 \<times> nat \<times> nat" where
  "upd_of V vi c = (pidx vi c, fst (clamped V vi c), fst c, fst (snd c))"

lemma pad_col_idx:
  assumes "wf_vi vi" "pad_fits vi" "in_map vi (x, y, t)" "pad_rel vi V m"
  shows "usize_of (pad_col m (int x) (int y) + int t) = pidx vi (x, y, t)"
proof -
  have l: "pidx vi (x, y, t) < 2 ^ 31" using pidx_less [OF assms(3)] assms(2) by (simp add: pad_fits_def)
  have "pad_col m (int x) (int y) + int t = int (pidx vi (x, y, t))"
    using assms(4) int_dims [OF assms(1), symmetric] by (simp add: pad_rel_def pad_col_def pidx_def pcell_def algebra_simps)
  then show ?thesis using usize_of_int [OF l] by simp
qed

lemma usize_theta: "wf_vi vi \<Longrightarrow> t < dim_t vi \<Longrightarrow> usize_of (int t) = t"
proof -
  assume wf: "wf_vi vi" and t: "t < dim_t vi"
  have "dim_t vi \<le> dim_x vi * dim_y vi * dim_t vi" using wf_dims_pos [OF wf] by simp
  then show ?thesis using t wf_dims_pos(4) [OF wf] by (intro usize_of_int) linarith
qed

lemma compute_cell_spec:
  assumes wf: "wf_vi vi" and fits: "pad_fits vi" and c: "in_map vi (x, y, t)" and rel: "pad_rel vi V m"
  shows "compute_cell m x y (pad_col m (int x) (int y)) (int t) = (if moved V vi (x, y, t) then [upd_of V vi (x, y, t)] else [])"
proof -
  let ?cost = "\<lambda>pt. action_cost_pad (hot m) (p_free m) (pad_col m (int x) (int y)) (pt ! t) 0"
  have t: "usize_of (int t) = t" using usize_theta [OF wf] c by simp
  have "fold (\<lambda>pt mc. let c = ?cost pt in if c < mc then c else mc) (precomp m) MAX_COST = fst (clamped V vi (x, y, t))"
    unfolding clamped_def argmin_loop_def
    by (rule fold_min_argmin) (simp_all add: length_precomp [OF rel] precomp_cost [OF wf fits c rel])
  then show ?thesis
    using pad_rel_at [OF rel c] unfolding compute_cell_def pad_col_idx [OF wf fits c rel] t
    by (auto simp: Let_def moved_def upd_of_def eligible_def)
qed

lemma compute_column_spec:
  assumes wf: "wf_vi vi" and fits: "pad_fits vi" and p: "in_plane vi p" and rel: "pad_rel vi V m"
  shows "compute_column m p = map (upd_of V vi) (filter (moved V vi) (column vi p))"
proof -
  obtain x y where xy: "p = (x, y)" by (cases p)
  have u: "[0..p_nt m - 1] = map int [0..<dim_t vi]"
    using rel wf by (simp add: pad_rel_def upto_conv_upt wf_vi_def dim_t_def)
  have in': "in_map vi (x, y, t)" if "t < dim_t vi" for t using p xy that by (simp add: in_plane_def)
  have "compute_column m p = concat (map (\<lambda>t. if moved V vi (x, y, t) then [upd_of V vi (x, y, t)] else []) [0..<dim_t vi])"
    unfolding compute_column_def xy prod.case u map_map
    by (intro arg_cong [of _ _ concat] map_cong refl) (simp add: compute_cell_spec [OF wf fits in' rel])
  also have "\<dots> = map (upd_of V vi) (filter (moved V vi) (column vi p))"
  proof -
    have "concat (map (\<lambda>t. if P (f t) then [g (f t)] else []) ts) = map g (filter P (map f ts))" for P f g and ts :: "nat list"
      by (induction ts) simp_all
    then show ?thesis by (simp add: column_def xy)
  qed
  finally show ?thesis .
qed

lemma compute_columns_spec:
  assumes "wf_vi vi" "pad_fits vi" "\<forall>p\<in>set ps. in_plane vi p" "pad_rel vi V m"
  shows "concat (map (compute_column m) ps) = map (upd_of V vi) (filter (moved V vi) (concat (map (column vi) ps)))"
  using assms(3) by (induction ps) (simp_all add: compute_column_spec [OF assms(1,2) _ assms(4)])

lemma apply_updates_spec:
  assumes "\<forall>c\<in>set cs. in_map vi c" "pad_rel vi W m" "wf2 nf" "map_x2 nf = dim_x vi" "map_y2 nf = dim_y vi"
  shows "\<exists>m' nf'. fold apply_update (map (upd_of V vi) cs) (m, nf, u) = (m', nf', u + of_nat (length cs)) \<and>
    pad_rel vi (\<lambda>c. if c \<in> set cs then fst (clamped V vi c) else W c) m' \<and>
    wf2 nf' \<and> map_x2 nf' = dim_x vi \<and> map_y2 nf' = dim_y vi \<and> cells2 nf' = cells2 nf \<union> plane ` set cs"
  using assms
proof (induction cs arbitrary: W m nf u)
  case (Cons c cs)
  obtain x y t where c: "c = (x, y, t)" by (cases c)
  have cm: "in_map vi c" using Cons.prems(1) by simp
  let ?v = "fst (clamped V vi c)"
  let ?m = "m\<lparr>hot := (hot m)[pidx vi c := (?v, snd (hot m ! pidx vi c))]\<rparr>" and ?W = "W(c := ?v)"
  have len: "pidx vi c < length (hot m)" using pidx_less [OF cm] Cons.prems(2) by (simp add: pad_rel_def)
  have rel: "pad_rel vi ?W ?m"
  proof -
    have "(hot m)[pidx vi c := (?v, snd (hot m ! pidx vi c))] ! pidx vi d = (?W d, penalty (state_at vi d) + local_penalty (state_at vi d))"
      if "in_map vi d" for d
      using pad_rel_at(1) [OF Cons.prems(2) that] pad_rel_at(1) [OF Cons.prems(2) cm] pidx_inj [OF cm that] len by auto
    then show ?thesis using Cons.prems(2) unfolding pad_rel_def by simp
  qed
  have nf: "wf2 (set2 nf x y)" "map_x2 (set2 nf x y) = dim_x vi" "map_y2 (set2 nf x y) = dim_y vi"
    "cells2 (set2 nf x y) = insert (plane c) (cells2 nf)"
    using Cons.prems(3-5) cm c by (auto simp: wf2_set cells2_set plane_def)
  have step: "apply_update (upd_of V vi c) (m, nf, u) = (?m, set2 nf x y, u + 1)"
    by (simp add: apply_update_def upd_of_def c)
  obtain m' nf' where IH: "fold apply_update (map (upd_of V vi) cs) (?m, set2 nf x y, u + 1) = (m', nf', u + 1 + of_nat (length cs))"
    "pad_rel vi (\<lambda>d. if d \<in> set cs then fst (clamped V vi d) else ?W d) m'"
    "wf2 nf'" "map_x2 nf' = dim_x vi" "map_y2 nf' = dim_y vi" "cells2 nf' = cells2 (set2 nf x y) \<union> plane ` set cs"
    using Cons.IH [OF _ rel nf(1-3), of "u + 1"] Cons.prems(1) by auto
  have "(\<lambda>d. if d \<in> set (c # cs) then fst (clamped V vi d) else W d) = (\<lambda>d. if d \<in> set cs then fst (clamped V vi d) else ?W d)"
    by (rule ext) simp
  then have "pad_rel vi (\<lambda>d. if d \<in> set (c # cs) then fst (clamped V vi d) else W d) m'" using IH(2) by simp
  moreover have "fold apply_update (map (upd_of V vi) (c # cs)) (m, nf, u) = (m', nf', u + of_nat (length (c # cs)))"
    using IH(1) step by (simp add: add.assoc)
  ultimately show ?case using IH(3-6) nf(4) by (intro exI [of _ m'] exI [of _ nf']) auto
qed simp

text \<open>One Jacobi round: the candidates contain every cell affected by the frontier, all of them are
  updated from the same snapshot, and the new frontier marks the columns that moved.\<close>

lemma par_round_spec:
  assumes wf: "wf_vi vi" and fits: "pad_fits vi" and rel: "pad_rel vi V m" and dx: "pad_x vi < 64"
    and f: "wf2 f" "map_x2 f = dim_x vi" "map_y2 f = dim_y vi"
  shows "\<exists>m' f' u S. par_round n m f = Some (m', f', u) \<and> affected vi (marks2 f) \<subseteq> S \<and> S \<subseteq> {c. in_map vi c} \<and>
    pad_rel vi (\<lambda>c. if c \<in> S \<and> eligible vi c then fst (clamped V vi c) else V c) m' \<and>
    wf2 f' \<and> map_x2 f' = dim_x vi \<and> map_y2 f' = dim_y vi \<and> {c\<in>S. moved V vi c} \<subseteq> marks2 f'"
proof -
  obtain mx my mt where d: "displacement vi = (mx, my, mt)" by (rule prod_cases3)
  have pm: "nat (p_mx m) = pad_x vi" "nat (p_my m) = pad_y vi" "nat (p_nx m) = dim_x vi" "nat (p_ny m) = dim_y vi"
    using rel by (simp_all add: pad_rel_def dim_x_def dim_y_def)
  obtain cand where cand: "dilate2d f (pad_x vi) (pad_y vi) = Some cand" "wf2 cand" "map_x2 cand = dim_x vi" "map_y2 cand = dim_y vi"
    and cells: "cells2 cand = {(x, y). x < dim_x vi \<and> y < dim_y vi \<and>
      (\<exists>(x', y')\<in>cells2 f. x' \<le> x + pad_x vi \<and> x \<le> x' + pad_x vi \<and> y' \<le> y + pad_y vi \<and> y \<le> y' + pad_y vi)}"
    by (rule dilate2d_Some [OF f(1) dx, of "pad_y vi", unfolded f(2,3)])
  let ?ps = "enumerate2 cand"
  have ps: "set ?ps = cells2 cand" 
    using cand wf_dims_pos(1) [OF wf] by (intro set_enumerate2 wpr2_pos) simp_all
  have plane': "\<forall>p\<in>set ?ps. in_plane vi p" unfolding ps cells by (auto simp: in_plane_def)
  let ?cs = "concat (map (column vi) ?ps)"
  let ?S = "set ?cs"
  have inm: "\<forall>c\<in>?S. in_map vi c" using plane' column_in_map by auto
  have new: "wf2 (new2 (dim_x vi) (dim_y vi))" "map_x2 (new2 (dim_x vi) (dim_y vi)) = dim_x vi"
    "map_y2 (new2 (dim_x vi) (dim_y vi)) = dim_y vi" by (simp_all add: wf2_new)
  have filt: "\<forall>c\<in>set (filter (moved V vi) ?cs). in_map vi c" using inm unfolding set_filter by blast
  from apply_updates_spec [OF filt rel new, of V 0] obtain m' f' where
    r: "fold apply_update (map (upd_of V vi) (filter (moved V vi) ?cs)) (m, new2 (dim_x vi) (dim_y vi), 0)
        = (m', f', 0 + of_nat (length (filter (moved V vi) ?cs)))"
      "pad_rel vi (\<lambda>c. if c \<in> set (filter (moved V vi) ?cs) then fst (clamped V vi c) else V c) m'"
      "wf2 f'" "map_x2 f' = dim_x vi" "map_y2 f' = dim_y vi"
      "cells2 f' = cells2 (new2 (dim_x vi) (dim_y vi)) \<union> plane ` set (filter (moved V vi) ?cs)" by blast
  have round: "par_round n m f = Some (m', f', of_nat (length (filter (moved V vi) ?cs)))"
    unfolding par_round_seq pm cand(1) using r(1) compute_columns_spec [OF wf fits plane' rel] by simp
  have V': "(\<lambda>c. if c \<in> set (filter (moved V vi) ?cs) then fst (clamped V vi c) else V c)
      = (\<lambda>c. if c \<in> ?S \<and> eligible vi c then fst (clamped V vi c) else V c)"
    by (rule ext) (auto simp: moved_def)
  have "c \<in> ?S" if aff: "c \<in> affected vi (marks2 f)" for c
  proof -
    obtain x y t x' y' t' where c: "c = (x, y, t)" "in_map vi (x, y, t)" "(x', y', t') \<in> marks2 f"
      "x' \<le> x + nat mx" "x \<le> x' + nat mx" "y' \<le> y + nat my" "y \<le> y' + nat my"
      using affected_cases [OF wf aff d] by metis
    then have "(x', y') \<in> cells2 f" by (simp add: plane_def marks2_def)
    then have "plane c \<in> cells2 cand" unfolding cells using c disp_pos [OF d] by (auto simp: plane_def)
    then show ?thesis unfolding set_columns ps using c by simp
  qed
  moreover have "{c\<in>?S. moved V vi c} \<subseteq> marks2 f'" using r(6) by (auto simp: marks2_def)
  ultimately show ?thesis using round r(2-5) inm unfolding V' by blast
qed


section \<open>The Jacobi invariant\<close>

lemma cost_clamp_cong:
  assumes "\<And>tr c'. tr \<in> set trs \<Longrightarrow> succ_cell vi tr c = Some c' \<Longrightarrow> V c' = V' c'"
  shows "cost_clamp V vi c trs cost = cost_clamp V' vi c trs cost"
  using assms
proof (induction trs arbitrary: cost)
  case (Cons tr trs)
  have "cost_clamp V vi c trs k = cost_clamp V' vi c trs k" for k by (rule Cons.IH) (use Cons.prems in auto)
  then show ?case using Cons.prems [of tr] by (auto simp: Let_def split: option.split)
qed simp

lemma clamped_cong:
  assumes "\<And>c'. c' \<in> succs vi c \<Longrightarrow> V c' = V' c'"
  shows "clamped V vi c = clamped V' vi c"
  unfolding clamped_def argmin_loop_def
proof (rule fold_argmin_cong)
  fix a assume a: "a \<in> set (actions vi)"
  show "cost_clamp V vi c (state_transitions a ! snd (snd c)) 0 = cost_clamp V' vi c (state_transitions a ! snd (snd c)) 0"
  proof (rule cost_clamp_cong)
    fix tr c' assume "tr \<in> set (state_transitions a ! snd (snd c))" "succ_cell vi tr c = Some c'"
    then have "c' \<in> succs vi c" using a unfolding succs_def action_succs_def by blast
    then show "V c' = V' c'" by (rule assms)
  qed
qed

definition clamp_ok :: "(cell \<Rightarrow> u64) \<Rightarrow> value_iterator \<Rightarrow> cell \<Rightarrow> bool" where
  "clamp_ok V vi c \<longleftrightarrow> (eligible vi c \<longrightarrow> V c = fst (clamped V vi c)) \<or> (\<forall>c'\<in>succs vi c. MAX_COST \<le> V c')"

lemma clamp_ok_cong:
  assumes "\<And>c'. c' \<in> succs vi c \<Longrightarrow> V c' = V' c'" "V c = V' c" "clamp_ok V vi c"
  shows "clamp_ok V' vi c"
proof -
  have "clamped V vi c = clamped V' vi c" by (rule clamped_cong) (rule assms(1))
  then show ?thesis using assms unfolding clamp_ok_def by auto
qed

definition jacobi_inv :: "value_iterator \<Rightarrow> (cell \<Rightarrow> u64) \<Rightarrow> cell set \<Rightarrow> bool" where
  "jacobi_inv vi V M \<longleftrightarrow> (\<forall>c. in_map vi c \<and> c \<notin> affected vi M \<longrightarrow> clamp_ok V vi c)"

lemma jacobi_step:
  assumes inv: "jacobi_inv vi V M" and S: "affected vi M \<subseteq> S"
    and V': "V' = (\<lambda>c. if c \<in> S \<and> eligible vi c then fst (clamped V vi c) else V c)"
    and M': "{c\<in>S. moved V vi c} \<subseteq> M'"
  shows "jacobi_inv vi V' M'"
  unfolding jacobi_inv_def
proof (intro allI impI)
  fix c assume c: "in_map vi c \<and> c \<notin> affected vi M'"
  have same: "V' c' = V c'" if "c' \<notin> M'" for c' using that M' unfolding V' moved_def by (auto simp del: split_paired_All)
  have succ: "V c' = V' c'" if "c' \<in> succs vi c" for c' 
  proof -
    have "c' \<notin> M'" using that c unfolding affected_def by blast
    then show ?thesis using same by simp
  qed
  have cl: "clamped V' vi c = clamped V vi c" by (rule clamped_cong [symmetric]) (rule succ)
  show "clamp_ok V' vi c"
  proof (cases "c \<in> S")
    case True
    then have "eligible vi c \<longrightarrow> V' c = fst (clamped V vi c)" unfolding V' by simp
    then show ?thesis by (simp add: clamp_ok_def cl)
  next
    case False
    then have "clamp_ok V vi c" using inv S c unfolding jacobi_inv_def by blast
    moreover have "V' c = V c" using False unfolding V' by simp
    ultimately show ?thesis using succ by (simp add: clamp_ok_def cl)
  qed
qed

lemma jacobi_seed:
  assumes "wf_vi vi" "seeds vi \<subseteq> M"
  shows "jacobi_inv vi (\<lambda>c. total_cost (state_at vi c)) M"
  unfolding jacobi_inv_def
proof (intro allI impI)
  fix c assume c: "in_map vi c \<and> c \<notin> affected vi M"
  have "MAX_COST \<le> total_cost (state_at vi c')" if "c' \<in> succs vi c" for c'
  proof -
    have "c' \<notin> M" using that c by (auto simp: affected_def)
    then show ?thesis using assms(2) succs_in_map [OF assms(1) that] unfolding seeds_def by (auto simp: not_less simp del: in_map.simps)
  qed
  then show "clamp_ok (\<lambda>c. total_cost (state_at vi c)) vi c" by (simp add: clamp_ok_def)
qed

section \<open>Writing the field back\<close>

lemma policy_cell_spec:
  assumes wf: "wf_vi vi" and fits: "pad_fits vi" and c: "in_map vi (x, y, t)" and rel: "pad_rel vi V m"
  shows "policy_cell (\<lambda>i. (\<not> p_free m ! i \<or> finals m ! i) \<or> off i) (\<lambda>buckets pcol. action_cost_pad (hot m) (p_free m) pcol buckets 0)
     (precomp m) (pad_col m (int x) (int y)) (usize_of (wrap32 (int x * cell_num_t vi + int y * (cell_num_t vi * cell_num_x vi)))) (int t) =
    (if eligible vi (x, y, t) \<and> \<not> off (pidx vi (x, y, t)) then [(cidx vi (x, y, t), snd (clamped V vi (x, y, t)))] else [])"
proof -
  have t: "usize_of (int t) = t" using usize_theta [OF wf] c by simp
  have z: "in_map vi (x, y, 0)" using c by simp
  have e: "int x * cell_num_t vi + int y * (cell_num_t vi * cell_num_x vi) = int (cidx vi (x, y, 0))"
    using int_dims [OF wf, symmetric] by (simp add: algebra_simps)
  have l: "cidx vi (x, y, 0) < 2 ^ 31" using cidx_less [OF z] wf_dims_pos(4) [OF wf] by linarith
  have i: "usize_of (wrap32 (int x * cell_num_t vi + int y * (cell_num_t vi * cell_num_x vi))) + t = cidx vi (x, y, t)"
    unfolding e wrap32_nat [OF l] usize_of_int [OF l] by simp
  have "fold (\<lambda>(ai, per_theta) (min_cost, min_action).
       let c = action_cost_pad (hot m) (p_free m) (pad_col m (int x) (int y)) (per_theta ! t) 0 in
       if c < min_cost then (c, Some ai) else (min_cost, min_action)) (List.enumerate 0 (precomp m)) (MAX_COST, None)
     = clamped V vi (x, y, t)"
    unfolding clamped_def argmin_loop_def
    by (rule fold_argmin_map) (simp_all add: length_precomp [OF rel] precomp_cost [OF wf fits c rel])
  then show ?thesis
    using pad_rel_at(2,3) [OF rel c] unfolding policy_cell_def pad_col_idx [OF wf fits c rel] t i by (auto simp: eligible_def)
qed

lemma policy_list:
  assumes wf: "wf_vi vi" and fits: "pad_fits vi" and rel: "pad_rel vi V m"
  shows "concat (map (policy_row (\<lambda>i. (\<not> p_free m ! i \<or> finals m ! i) \<or> off i)
      (\<lambda>buckets pcol. action_cost_pad (hot m) (p_free m) pcol buckets 0) (precomp m)
      (cell_num_x vi) (cell_num_t vi) (p_mx m) (p_my m) (row_stride m)) [0..cell_num_y vi - 1]) =
    map (\<lambda>c. (cidx vi c, snd (clamped V vi c))) (filter (\<lambda>c. eligible vi c \<and> \<not> off (pidx vi c)) (cells_yxt vi))"
proof -
  let ?skip = "\<lambda>i. (\<not> p_free m ! i \<or> finals m ! i) \<or> off i" and ?cost = "\<lambda>buckets pcol. action_cost_pad (hot m) (p_free m) pcol buckets 0"
  let ?one = "\<lambda>c. if eligible vi c \<and> \<not> off (pidx vi c) then [(cidx vi c, snd (clamped V vi c))] else []"
  have u: "[0..cell_num_x vi - 1] = map int [0..<dim_x vi]" "[0..cell_num_y vi - 1] = map int [0..<dim_y vi]"
    "[0..cell_num_t vi - 1] = map int [0..<dim_t vi]"
    using wf by (simp_all add: upto_conv_upt wf_vi_def dim_x_def dim_y_def dim_t_def)
  have pc: "(int x + p_mx m) * cell_num_t vi + (int y + p_my m) * row_stride m = pad_col m (int x) (int y)" for x y
    using rel by (simp add: pad_col_def pad_rel_def)
  have cell: "policy_cell ?skip ?cost (precomp m) (pad_col m (int x) (int y))
      (usize_of (wrap32 (int x * cell_num_t vi + int y * (cell_num_t vi * cell_num_x vi)))) (int t) = ?one (x, y, t)"
    if "x < dim_x vi" "y < dim_y vi" "t < dim_t vi" for x y t
    by (rule policy_cell_spec [OF wf fits _ rel]) (use that in simp)
  have "concat (map (policy_row ?skip ?cost (precomp m) (cell_num_x vi) (cell_num_t vi) (p_mx m) (p_my m) (row_stride m)) [0..cell_num_y vi - 1])
     = concat (map (\<lambda>y. concat (map (\<lambda>x. concat (map (\<lambda>t. ?one (x, y, t)) [0..<dim_t vi])) [0..<dim_x vi])) [0..<dim_y vi])"
    unfolding policy_row_def u Let_def map_map comp_def pc
    by (intro arg_cong [of _ _ concat] map_cong refl cell) simp_all
  also have "\<dots> = concat (map ?one (cells_yxt vi))"
    unfolding cells_yxt_def concat_map_concat by (simp add: comp_def)
  also have "\<dots> = map (\<lambda>c. (cidx vi c, snd (clamped V vi c))) (filter (\<lambda>c. eligible vi c \<and> \<not> off (pidx vi c)) (cells_yxt vi))"
  proof -
    have "concat (map ?one cs) = map (\<lambda>c. (cidx vi c, snd (clamped V vi c))) (filter (\<lambda>c. eligible vi c \<and> \<not> off (pidx vi c)) cs)" for cs
      by (induction cs) simp_all
    then show ?thesis .
  qed
  finally show ?thesis .
qed

lemma final_policy_off:
  assumes wf: "wf_vi vi" and fits: "pad_fits vi" and rel: "pad_rel vi V m" and c: "in_map vi c"
  shows "final_policy_parallel (cell_num_x vi) (cell_num_y vi) (cell_num_t vi) (p_mx m) (p_my m) (row_stride m) (precomp m) n
      (\<lambda>i. (\<not> p_free m ! i \<or> finals m ! i) \<or> off i) (\<lambda>buckets pcol. action_cost_pad (hot m) (p_free m) pcol buckets 0) ! cidx vi c =
    (if eligible vi c \<and> \<not> off (pidx vi c) then snd (clamped V vi c) else None)"
proof -
  let ?cs = "filter (\<lambda>c. eligible vi c \<and> \<not> off (pidx vi c)) (cells_yxt vi)"
  have fold: "fold (\<lambda>(orig, act) opt. opt[orig := act]) (map (\<lambda>c. (cidx vi c, f c)) cs) a = fold (\<lambda>c a. a[cidx vi c := f c]) cs a" for f cs a
    by (induction cs arbitrary: a) simp_all
  let ?p = "final_policy_parallel (cell_num_x vi) (cell_num_y vi) (cell_num_t vi) (p_mx m) (p_my m) (row_stride m) (precomp m) n
      (\<lambda>i. (\<not> p_free m ! i \<or> finals m ! i) \<or> off i) (\<lambda>buckets pcol. action_cost_pad (hot m) (p_free m) pcol buckets 0)"
  have N: "usize_of (wrap32 (cell_num_x vi * cell_num_y vi * cell_num_t vi)) = dim_x vi * dim_y vi * dim_t vi"
    using wrap32_nat [OF wf_dims_pos(4) [OF wf]] usize_of_int [OF wf_dims_pos(4) [OF wf]] int_dims [OF wf] by simp
  have eq: "?p = fold (\<lambda>c a. a[cidx vi c := snd (clamped V vi c)]) ?cs (replicate (dim_x vi * dim_y vi * dim_t vi) None)"
    unfolding final_policy_parallel_seq policy_list [OF wf fits rel] fold N ..
  have cs: "d \<in> set ?cs \<longleftrightarrow> in_map vi d \<and> eligible vi d \<and> \<not> off (pidx vi d)" for d using cells_lists(2) [of vi] by auto
  show ?thesis
  proof (cases "eligible vi c \<and> \<not> off (pidx vi c)")
    case True
    have "fold (\<lambda>c a. a[cidx vi c := snd (clamped V vi c)]) ?cs (replicate (dim_x vi * dim_y vi * dim_t vi) None) ! cidx vi c = snd (clamped V vi c)"
    proof (rule fold_write_same)
      show "cidx vi c < length (replicate (dim_x vi * dim_y vi * dim_t vi) None)" using cidx_less [OF c] by simp
      show "\<exists>s\<in>set ?cs. cidx vi s = cidx vi c" using cs True c by blast
      show "\<forall>s\<in>set ?cs. cidx vi s = cidx vi c \<longrightarrow> snd (clamped V vi s) = snd (clamped V vi c)"
        using cs cidx_inj [OF _ c] by blast
    qed
    then show ?thesis using True unfolding eq by (simp del: cidx.simps)
  next
    case False
    have "\<forall>s\<in>set ?cs. cidx vi s \<noteq> cidx vi c" using cs cidx_inj [OF _ c] False by blast
    then have "?p ! cidx vi c = replicate (dim_x vi * dim_y vi * dim_t vi) None ! cidx vi c" unfolding eq by (rule fold_write_other)
    also have "\<dots> = None" using cidx_less [OF c] by (rule nth_replicate)
    finally show ?thesis using False by argo
  qed
qed

lemma final_policy_spec:
  assumes "wf_vi vi" "pad_fits vi" "pad_rel vi V m" "in_map vi c"
  shows "final_policy m n ! cidx vi c = (if eligible vi c then snd (clamped V vi c) else None)"
proof -
  have "p_nx m = cell_num_x vi" "p_ny m = cell_num_y vi" "p_nt m = cell_num_t vi" using assms(3) by (simp_all add: pad_rel_def)
  then show ?thesis using final_policy_off [OF assms, of n "\<lambda>_. False"] by (simp add: final_policy_def del: cidx.simps)
qed

lemma pad_write_cell:
  assumes wf: "wf_vi vi" and fits: "pad_fits vi" and rel: "pad_rel vi V m" and c: "in_map vi c"
  shows "pad_write_state m (Some (final_policy m n)) ((state_at vi c)\<lparr>total_cost := v, optimal_action := a\<rparr>) =
    (state_at vi c)\<lparr>total_cost := V c, optimal_action := (if eligible vi c then snd (clamped V vi c) else None)\<rparr>"
proof -
  obtain x y t where xyt: "c = (x, y, t)" by (cases c)
  have p: "p_nx m = cell_num_x vi" "p_nt m = cell_num_t vi" "p_mx m = int (pad_x vi)" "p_my m = int (pad_y vi)" "p_nx_pad m = int (pad_w vi)"
    using rel by (simp_all add: pad_rel_def)
  have i: "pad_state_idx (p_nt m) (p_mx m) (p_my m) (p_nx_pad m) ((state_at vi c)\<lparr>total_cost := v, optimal_action := a\<rparr>) = pidx vi c"
    using pad_state_idx_cell [OF wf fits c] unfolding p by (simp add: pad_state_idx_def)
  have l: "cidx vi c < 2 ^ 31" using cidx_less [OF c] wf_dims_pos(4) [OF wf] by linarith
  have "st_it (state_at vi c) + st_ix (state_at vi c) * cell_num_t vi + st_iy (state_at vi c) * (cell_num_t vi * cell_num_x vi) = int (cidx vi c)"
    using wf_vi_state_at [OF wf, of x y t] c xyt int_dims [OF wf, symmetric] by (simp add: algebra_simps)
  then have o: "usize_of (wrap32 (st_it (state_at vi c) + st_ix (state_at vi c) * cell_num_t vi + st_iy (state_at vi c) * (cell_num_t vi * cell_num_x vi))) = cidx vi c"
    by (simp add: wrap32_nat [OF l] usize_of_int [OF l] del: cidx.simps)
  show ?thesis unfolding pad_write_state_def Let_def i option.case
    using pad_rel_at(1) [OF rel c] final_policy_spec [OF wf fits rel c, of n] by (simp add: o p del: cidx.simps)
qed

lemma materialize_spec:
  assumes wf: "wf_vi vi" and fits: "pad_fits vi" and rel: "pad_rel vi V m" and fr: "same_frame vi vi1"
  shows "same_frame vi (par_materialize n m vi1)"
    "in_map vi c \<Longrightarrow> state_at (par_materialize n m vi1) c =
      (state_at vi c)\<lparr>total_cost := V c, optimal_action := (if eligible vi c then snd (clamped V vi c) else None)\<rparr>"
proof -
  let ?vi = "par_materialize n m vi1"
  from fr obtain sts where v: "vi1 = vi\<lparr>states := sts\<rparr>" "length sts = length (states vi)" by (auto simp: same_frame_def)
  have vi': "?vi = vi\<lparr>states := map (pad_write_state m (Some (final_policy m n))) sts\<rparr>"
    by (simp add: par_materialize_def pad_write_back_def v(1))
  have at: "map (pad_write_state m (Some (final_policy m n))) sts ! cidx vi c =
      (state_at vi c)\<lparr>total_cost := V c, optimal_action := (if eligible vi c then snd (clamped V vi c) else None)\<rparr>" if c: "in_map vi c" for c
  proof -
    have len: "cidx vi c < length sts" using cidx_less [OF c] wf v(2) by (simp add: wf_vi_def)
    obtain va aa where "state_at vi1 c = (state_at vi c)\<lparr>total_cost := va, optimal_action := aa\<rparr>"
      by (rule same_frame_state [OF fr wf c])
    then have "sts ! cidx vi c = (state_at vi c)\<lparr>total_cost := va, optimal_action := aa\<rparr>"
      using same_frame_sel(9) [OF fr] by (simp add: state_at_def v(1))
    then show ?thesis using len pad_write_cell [OF wf fits rel c] by (simp del: cidx.simps)
  qed
  show fr': "same_frame vi ?vi"
    unfolding same_frame_def
  proof (rule exI, intro conjI allI impI)
    show "?vi = vi\<lparr>states := map (pad_write_state m (Some (final_policy m n))) sts\<rparr>" by (rule vi')
    show "length (map (pad_write_state m (Some (final_policy m n))) sts) = length (states vi)" using v(2) by simp
    fix i assume "i < length (map (pad_write_state m (Some (final_policy m n))) sts)"
    then have "i < dim_x vi * dim_y vi * dim_t vi" using v(2) wf by (simp add: wf_vi_def)
    then obtain c where c: "in_map vi c" "cidx vi c = i" by (rule cidx_surj)
    then show "\<exists>v a. map (pad_write_state m (Some (final_policy m n))) sts ! i = (states vi ! i)\<lparr>total_cost := v, optimal_action := a\<rparr>"
      using at [OF c(1)] unfolding c(2) state_at_def by (intro exI)
  qed
  show "state_at ?vi c = (state_at vi c)\<lparr>total_cost := V c, optimal_action := (if eligible vi c then snd (clamped V vi c) else None)\<rparr>" if "in_map vi c"
    using at [OF that] same_frame_sel(9) [OF fr'] by (simp add: state_at_def vi')
qed


section \<open>The solver\<close>

lemma par_loop_spec:
  assumes wf: "wf_vi vi" and fits: "pad_fits vi" and dx: "pad_x vi < 64" and "same_frame vi vi1" "pad_rel vi V m"
    "wf2 f" "map_x2 f = dim_x vi" "map_y2 f = dim_y vi" "jacobi_inv vi V (marks2 f)" "i \<le> mi"
  shows "\<exists>vi' m' f' i' u' fl o' V'. par_loop n looks mi obs vi1 m f i u po = Some (vi', m', f', i', u', fl, o') \<and>
    same_frame vi vi' \<and> pad_rel vi V' m' \<and> wf2 f' \<and> jacobi_inv vi V' (marks2 f') \<and> i' \<le> mi"
  using assms(4-10)
proof (induction n looks mi obs vi1 m f i u po arbitrary: V rule: par_loop.induct)
  case (1 n looks mi obs vi1 m f i u po)
  show ?case
  proof (cases "0 < popcount2 f \<and> i < mi")
    case False
    then have "par_loop n looks mi obs vi1 m f i u po = Some (vi1, m, f, i, u, Continue, snd po)"
      by (subst par_loop.simps) auto
    then show ?thesis using "1.prems" by blast
  next
    case True
    obtain m' f' u' S where r: "par_round n m f = Some (m', f', u')" "affected vi (marks2 f) \<subseteq> S"
      and rel: "pad_rel vi (\<lambda>c. if c \<in> S \<and> eligible vi c then fst (clamped V vi c) else V c) m'"
      and f': "wf2 f'" "map_x2 f' = dim_x vi" "map_y2 f' = dim_y vi" and mv: "{c\<in>S. moved V vi c} \<subseteq> marks2 f'"
      using par_round_spec [OF wf fits "1.prems"(2) dx "1.prems"(3-5), of n] by blast
    have inv: "jacobi_inv vi (\<lambda>c. if c \<in> S \<and> eligible vi c then fst (clamped V vi c) else V c) (marks2 f')"
      by (rule jacobi_step [OF "1.prems"(6) r(2) refl mv])
    obtain fl po' where b: "at_boundary obs (0 < popcount2 f') (par_materialize n m' vi1) (i + 1) (u + u') po = (fl, po')"
      by (rule prod.exhaust)
    define vi2 where "vi2 = (if (0 < popcount2 f' \<and> fst (pacer_due (i + 1) (fst po))) \<and> looks (i + 1) then par_materialize n m' vi1 else vi1)"
    have fr: "same_frame vi vi2" using materialize_spec(1) [OF wf fits rel "1.prems"(1)] "1.prems"(1) by (simp add: vi2_def)
    have eq: "par_loop n looks mi obs vi1 m f i u po =
        (if fl = Continue then par_loop n looks mi obs vi2 m' f' (i + 1) (u + u') po' else Some (vi2, m', f', i + 1, u + u', fl, snd po'))"
      using True r(1) b by (subst par_loop.simps) (simp add: Let_def vi2_def)
    show ?thesis
    proof (cases "fl = Continue")
      case c: True
      have i: "i + 1 \<le> mi" using True by simp
      show ?thesis unfolding eq using c
        "1.IH" [OF True r(1) refl refl refl refl refl vi2_def b [symmetric] c fr rel f' inv i] by simp
    next
      case False
      then have "par_loop n looks mi obs vi1 m f i u po = Some (vi2, m', f', i + 1, u + u', fl, snd po')" using eq by simp
      moreover have "i + 1 \<le> mi" using True by simp
      ultimately show ?thesis using fr rel f'(1) inv by blast
    qed
  qed
qed

text \<open>The field satisfies the clamped Bellman equation at a cell.\<close>

definition settled_clamped :: "value_iterator \<Rightarrow> cell \<Rightarrow> bool" where
  "settled_clamped vi c \<longleftrightarrow> (eligible vi c \<longrightarrow>
     (total_cost (state_at vi c), optimal_action (state_at vi c)) = clamped (\<lambda>c. total_cost (state_at vi c)) vi c)"

lemma cost_clamp_frame:
  assumes "wf_vi vi" "same_frame vi vi'" "\<And>c. in_map vi c \<Longrightarrow> V' c = V c"
  shows "cost_clamp V' vi' c trs cost = cost_clamp V vi c trs cost"
proof (induction trs arbitrary: cost)
  case (Cons tr trs)
  show ?case
  proof (cases "succ_cell vi tr c")
    case None
    then show ?thesis by (simp add: same_frame_sel [OF assms(2)])
  next
    case (Some c')
    have m: "in_map vi c'" by (rule succ_cell_in_map [OF assms(1) Some])
    obtain v a where "state_at vi' c' = (state_at vi c')\<lparr>total_cost := v, optimal_action := a\<rparr>"
      by (rule same_frame_state [OF assms(2,1) m])
    then show ?thesis using Some Cons assms(3) [OF m] by (simp add: same_frame_sel [OF assms(2)] Let_def)
  qed
qed simp

lemma clamped_frame:
  assumes "wf_vi vi" "same_frame vi vi'" "\<And>c. in_map vi c \<Longrightarrow> V' c = V c"
  shows "clamped V' vi' c = clamped V vi c"
  unfolding clamped_def argmin_loop_def same_frame_sel(4) [OF assms(2)]
  by (rule fold_argmin_cong) (rule cost_clamp_frame [OF assms])

lemma cost_clamp_loop:
  assumes "\<And>tr c'. tr \<in> set trs \<Longrightarrow> succ_cell vi tr c = Some c' \<Longrightarrow> total_cost (state_at vi c') \<noteq> MAX_COST"
  shows "cost_clamp (\<lambda>c. total_cost (state_at vi c)) vi c trs cost = cost_loop vi c trs cost"
  using assms
proof (induction trs arbitrary: cost)
  case (Cons tr trs)
  have "cost_clamp (\<lambda>c. total_cost (state_at vi c)) vi c trs k = cost_loop vi c trs k" for k by (rule Cons.IH) (use Cons.prems in auto)
  then show ?case using Cons.prems [of tr] by (auto simp: Let_def add.assoc split: option.split)
qed simp

text \<open>Where every successor has a value, the clamped equation is the reference equation.\<close>

lemma settled_clamped_settled:
  assumes "wf_vi vi" "in_map vi c" "settled_clamped vi c" "\<And>c'. c' \<in> succs vi c \<Longrightarrow> total_cost (state_at vi c') \<noteq> MAX_COST"
  shows "settled vi c"
proof -
  have "clamped (\<lambda>c. total_cost (state_at vi c)) vi c = argmin_loop (\<lambda>a. cost_loop vi c (state_transitions a ! snd (snd c)) 0) (actions vi)"
    unfolding clamped_def argmin_loop_def
  proof (rule fold_argmin_cong)
    fix a assume a: "a \<in> set (actions vi)"
    show "cost_clamp (\<lambda>c. total_cost (state_at vi c)) vi c (state_transitions a ! snd (snd c)) 0 = cost_loop vi c (state_transitions a ! snd (snd c)) 0"
    proof (rule cost_clamp_loop)
      fix tr c' assume "tr \<in> set (state_transitions a ! snd (snd c))" "succ_cell vi tr c = Some c'"
      then have "c' \<in> succs vi c" using a unfolding succs_def action_succs_def by blast
      then show "total_cost (state_at vi c') \<noteq> MAX_COST" by (rule assms(4))
    qed
  qed
  then show ?thesis using assms(3) unfolding settled_def bellman_update_cells [OF assms(1,2)] settled_clamped_def eligible_def
    by (auto split: prod.split)
qed

text \<open>The materialised field is settled where the cells are.\<close>

lemma materialize_settled:
  assumes wf: "wf_vi vi" and fits: "pad_fits vi" and rel: "pad_rel vi V m" and fr: "same_frame vi vi1" and c: "in_map vi c" and ok: "clamp_ok V vi c"
  shows "settled_clamped (par_materialize n m vi1) c \<or> unreached (par_materialize n m vi1) c"
proof -
  let ?vi = "par_materialize n m vi1"
  note fr' = materialize_spec(1) [OF wf fits rel fr, of n] and at = materialize_spec(2) [OF wf fits rel fr, of _ n]
  have cl: "clamped (\<lambda>c. total_cost (state_at ?vi c)) ?vi c = clamped V vi c"
    by (rule clamped_frame [OF wf fr']) (simp add: at del: in_map.simps)
  from ok show ?thesis unfolding clamp_ok_def
  proof
    assume "eligible vi c \<longrightarrow> V c = fst (clamped V vi c)"
    then show ?thesis using at [OF c] unfolding settled_clamped_def cl by (simp add: eligible_def)
  next
    assume h: "\<forall>c'\<in>succs vi c. MAX_COST \<le> V c'"
    have "MAX_COST \<le> total_cost (state_at ?vi c')" if s: "c' \<in> succs vi c" for c'
      using h s at [OF succs_in_map [OF wf s]] by simp
    then show ?thesis by (simp add: unreached_def same_frame_sel [OF fr'])
  qed
qed

lemma par_solve_spec:
  assumes wf: "wf_vi vi" and fits: "pad_fits vi" and dx: "pad_x vi < 64"
  shows "\<exists>vi' out o'. frontier2d_par_solve_observed n looks vi max_iter obs o0 = Some (vi', out, o') \<and> same_frame vi vi' \<and>
    o_iters out \<le> max_iter \<and> (o_converged out \<longrightarrow> (\<forall>c. in_map vi c \<longrightarrow> settled_clamped vi' c \<or> unreached vi' c))"
proof -
  have "seeds vi \<subseteq> marks2 (seed_frontier_2d vi)"
    using seed_frontier_2d_spec(4) [OF wf] by (force simp: marks2_def plane_def)
  note inv = jacobi_seed [OF wf this]
  from par_loop_spec [OF wf fits dx same_frame_refl padded_build_rel [OF wf fits] seed_frontier_2d_spec(1-3) [OF wf] inv le0,
    where n = n and looks = looks and mi = max_iter and obs = obs and u = 0 and po = "(pacer_new obs, o0)"]
  obtain vi1 m f i u fl o' V where r: "par_loop n looks max_iter obs vi (padded_build vi) (seed_frontier_2d vi) 0 0 (pacer_new obs, o0)
      = Some (vi1, m, f, i, u, fl, o')"
    and p: "same_frame vi vi1" "pad_rel vi V m" "wf2 f" "jacobi_inv vi V (marks2 f)" "i \<le> max_iter" by blast
  let ?vi = "par_materialize n m vi1"
  note fr = materialize_spec(1) [OF wf fits p(2,1), of n]
  have conv: "settled_clamped ?vi c \<or> unreached ?vi c" if z: "popcount2 f = 0" and c: "in_map vi c" for c
  proof -
    have "cells2 f = {}" using z popcount2_pos [of f] p(3) by auto
    then have "affected vi (marks2 f) = {}" by (auto simp: affected_def marks2_def)
    then have ok: "clamp_ok V vi c" using p(4) c unfolding jacobi_inv_def by blast
    show ?thesis by (rule materialize_settled [OF wf fits p(2,1) c ok])
  qed
  show ?thesis
    using r p(1,5) fr conv
    by (cases fl) (auto simp: frontier2d_par_solve_observed_def outcome_running_def outcome_stopped_def outcome_cancelled_def simp del: in_map.simps)
qed

text \<open>C28: the parallel solver on the padded map returns within its budget under every observer, and
  when it reports convergence, every cell that is free and not a goal carries the minimal clamped
  action cost and the first action that attains it, unless none of its successors has a value;
  where all successors have values this is the reference Bellman equation. The padding replaces
  the range checks without changing a result.\<close>

theorem par_fixpoint:
  assumes "wf_vi vi" and "pad_fits vi" and "pad_x vi < 64"
  shows "\<exists>vi' out o'. frontier2d_par_solve_observed n looks vi max_iter obs o0 = Some (vi', out, o') \<and> same_frame vi vi' \<and>
    o_iters out \<le> max_iter \<and>
    (o_converged out \<longrightarrow> (\<forall>c. in_map vi c \<longrightarrow> settled_clamped vi' c \<or> unreached vi' c)) \<and>
    (o_converged out \<longrightarrow> (\<forall>c. in_map vi c \<and> (\<forall>c'\<in>succs vi c. total_cost (state_at vi' c') \<noteq> MAX_COST) \<longrightarrow> settled vi' c \<or> unreached vi' c))"
proof -
  obtain vi' out o' where r: "frontier2d_par_solve_observed n looks vi max_iter obs o0 = Some (vi', out, o')" "same_frame vi vi'"
    "o_iters out \<le> max_iter" "o_converged out \<longrightarrow> (\<forall>c. in_map vi c \<longrightarrow> settled_clamped vi' c \<or> unreached vi' c)"
    using par_solve_spec [OF assms, of n looks max_iter obs o0] by blast
  have "settled vi' c" if "settled_clamped vi' c" "in_map vi c" "\<forall>c'\<in>succs vi c. total_cost (state_at vi' c') \<noteq> MAX_COST" for c
    by (rule settled_clamped_settled [OF same_frame_wf [OF r(2) assms(1)]]) (use that in \<open>auto simp: same_frame_sel [OF r(2)]\<close>)
  then have "o_converged out \<longrightarrow> (\<forall>c. in_map vi c \<and> (\<forall>c'\<in>succs vi c. total_cost (state_at vi' c') \<noteq> MAX_COST) \<longrightarrow> settled vi' c \<or> unreached vi' c)"
    using r(4) by blast
  with r show ?thesis by blast
qed

theorem par_fixpoint_witness:
  "\<exists>vi' out o'. frontier2d_par_solve_observed 2 (\<lambda>_. True) corridor 10 quiet_observer () = Some (vi', out, o') \<and> o_converged out
     \<and> (settled_clamped vi' (0, 0, 0) \<or> unreached vi' (0, 0, 0))"
proof -
  have "map_option (\<lambda>(_, out, _). o_converged out) (frontier2d_par_solve_observed 2 (\<lambda>_. True) corridor 10 quiet_observer ()) = Some True"
    by code_simp
  then obtain vi' out o' where r: "frontier2d_par_solve_observed 2 (\<lambda>_. True) corridor 10 quiet_observer () = Some (vi', out, o')" "o_converged out"
    by (rule converged_run)
  have "pad_x corridor < 64" "in_map corridor (0, 0, 0)" by code_simp+
  moreover have "pad_fits corridor"
  proof -
    have "pad_w corridor * pad_h corridor * dim_t corridor = 15" by code_simp
    then show ?thesis by (simp add: pad_fits_def)
  qed
  ultimately show ?thesis using par_fixpoint [OF corridor_wf, of 2 "\<lambda>_. True" 10 quiet_observer "()"] r by (auto simp del: in_map.simps)
qed

end
