(* ===== verification/Bridge.thy ===== *)
theory Bridge
  imports Padded Block
begin

unbundle bit_operations_syntax

text \<open>
  The conversion layer between the messages of the middleware and the solver
  (\<^verbatim>\<open>vi_lib/src/bridge.rs\<close>): occupancy views, map down-sampling, rendering of a value slice, and the
  heading of a goal in degrees.
\<close>

section \<open>The code\<close>

record occupancy_grid_view =
  gv_width :: nat
  gv_height :: nat
  gv_resolution :: f64
  gv_origin_x :: f64
  gv_origin_y :: f64
  gv_data :: "int list"

record pose_view =
  pv_x :: f64
  pv_y :: f64
  yaw_rad :: f64

text \<open>\<open>f64::to_degrees\<close> multiplies by the constant \<open>180/pi\<close>; \<open>%\<close> on \<open>f64\<close> is exact, with the sign
  of the dividend; \<open>rem_euclid\<close> adds the divisor to a negative remainder.\<close>

definition f_to_degrees :: "f64 \<Rightarrow> f64" where
  "f_to_degrees x = f_mul x (f_lit (572957795130823208767981548141051703 / 10 ^ 34))"

fun f_rem :: "f64 \<Rightarrow> f64 \<Rightarrow> f64" where
  "f_rem (Fin s p) (Fin t q) = (if q = 0 then NaN else Fin s (p - q * of_int \<lfloor>p / q\<rfloor>))"
| "f_rem (Fin s p) (Inf t) = Fin s p"
| "f_rem x y = NaN"

definition f_rem_euclid :: "f64 \<Rightarrow> f64 \<Rightarrow> f64" where
  "f_rem_euclid x y = (let r = f_rem x y in if f_lt r (f_of_int 0) then f_add r (f_abs y) else r)"

definition yaw_to_goal_theta_deg :: "f64 \<Rightarrow> i32" where
  "yaw_to_goal_theta_deg yaw = f_as_i32 (f_rem_euclid (f_to_degrees yaw) (f_of_int 360))"

definition identity_quat :: quaternion where
  "identity_quat = \<lparr>q_x = f_of_int 0, q_y = f_of_int 0, q_z = f_of_int 0, q_w = f_of_int 1\<rparr>"

text \<open>\<open>None\<close>: the length assertion panics. \<open>as i32\<close> of a \<open>u32\<close> reinterprets the bits.\<close>

definition occupancy_view_to_vi_grid :: "occupancy_grid_view \<Rightarrow> bool \<Rightarrow> occupancy_grid option" where
  "occupancy_view_to_vi_grid g unknown_as_obstacle =
     (if length (gv_data g) \<noteq> gv_width g * gv_height g then None
      else Some \<lparr>width = wrap32 (int (gv_width g)), height = wrap32 (int (gv_height g)), resolution = gv_resolution g,
        origin_x = gv_origin_x g, origin_y = gv_origin_y g, origin_quat = identity_quat,
        data = map (\<lambda>v. if 100 \<le> v \<or> v < 0 \<and> unknown_as_obstacle then 100 else 0) (gv_data g)\<rparr>)"

text \<open>The search of one block: it stops at the first hit, and at the border of the map.\<close>

definition block_hit :: "occupancy_grid \<Rightarrow> nat \<Rightarrow> nat \<Rightarrow> nat \<Rightarrow> bool \<Rightarrow> nat \<Rightarrow> nat \<Rightarrow> bool" where
  "block_hit g w h s optimistic ox oy =
     list_ex (\<lambda>dy. list_ex (\<lambda>dx. (data g ! ((oy * s + dy) * w + (ox * s + dx)) = 0) = optimistic)
        (takeWhile (\<lambda>dx. ox * s + dx < w) [0..<s])) (takeWhile (\<lambda>dy. oy * s + dy < h) [0..<s])"

definition downsample :: "occupancy_grid \<Rightarrow> i32 \<Rightarrow> bool \<Rightarrow> occupancy_grid" where
  "downsample g scale optimistic =
     (if scale \<le> 1 then g
      else let w = usize_of (width g); h = usize_of (height g); s = usize_of scale;
               ow = div_ceil w s; oh = div_ceil h s
           in \<lparr>width = wrap32 (int ow), height = wrap32 (int oh), resolution = f_mul (resolution g) (f_of_int scale),
               origin_x = origin_x g, origin_y = origin_y g, origin_quat = origin_quat g,
               data = concat (map (\<lambda>oy. map (\<lambda>ox. if block_hit g w h s optimistic ox oy = optimistic then 0 else 100)
                        [0..<ow]) [0..<oh])\<rparr>)"

definition downsample_occupancy :: "occupancy_grid \<Rightarrow> i32 \<Rightarrow> occupancy_grid" where
  "downsample_occupancy g scale = downsample g scale False"

definition downsample_occupancy_optimistic :: "occupancy_grid \<Rightarrow> i32 \<Rightarrow> occupancy_grid" where
  "downsample_occupancy_optimistic g scale = downsample g scale True"

definition value_pixel :: "u64 \<Rightarrow> u64 \<Rightarrow> int" where
  "value_pixel threshold_steps c =
     (if MAX_COST \<le> c then - 1
      else let display = c div PROB_BASE in
        if threshold_steps = 0 then (if display = 0 then 0 else 100)
        else let scaled = (of_nat (min (2 ^ 64 - 1) (unat display * 100)) :: u64) div threshold_steps
             in if 100 \<le> scaled then 100 else uint scaled)"

definition value_slice_to_occupancy :: "u64 list \<Rightarrow> nat \<Rightarrow> nat \<Rightarrow> u64 \<Rightarrow> int list option" where
  "value_slice_to_occupancy vals w h threshold_steps =
     (if length vals \<noteq> w * h then None else Some (map (value_pixel threshold_steps) vals))"

section \<open>Down-sampling\<close>

lemma takeWhile_upt: "takeWhile (\<lambda>d. a + d < n) [0..<s] = [0..<min s (n - a)]"
proof (induction s)
  case (Suc s)
  show ?case
  proof (cases "a + s < n")
    case True
    then have "takeWhile (\<lambda>d. a + d < n) ([0..<s] @ [s]) = [0..<s] @ [s]" by (intro takeWhile_eq_all_conv [THEN iffD2]) auto
    then show ?thesis using True by (simp add: min_def)
  next
    case False
    then have "takeWhile (\<lambda>d. a + d < n) ([0..<s] @ [s]) = takeWhile (\<lambda>d. a + d < n) [0..<s]"
      by (simp add: takeWhile_tail)
    moreover have "min s (n - a) = n - a" "min (Suc s) (n - a) = n - a" using False by simp_all
    ultimately show ?thesis using Suc by simp
  qed
qed simp

lemma block_hit_iff:
  "block_hit g w h s opt ox oy \<longleftrightarrow>
     (\<exists>ix iy. ix < w \<and> iy < h \<and> ix div s = ox \<and> iy div s = oy \<and> (data g ! (iy * w + ix) = 0) = opt)" if s: "0 < s"
proof -
  have range: "d < min s (n - o' * s) \<longleftrightarrow> o' * s + d < n \<and> (o' * s + d) div s = o'" if "d < s" for d n o' :: nat
    using that s by auto
  show ?thesis
  proof
    assume "block_hit g w h s opt ox oy"
    then obtain dy dx where d: "dy < min s (h - oy * s)" "dx < min s (w - ox * s)"
      "(data g ! ((oy * s + dy) * w + (ox * s + dx)) = 0) = opt"
      by (auto simp: block_hit_def takeWhile_upt list_ex_iff)
    then show "\<exists>ix iy. ix < w \<and> iy < h \<and> ix div s = ox \<and> iy div s = oy \<and> (data g ! (iy * w + ix) = 0) = opt"
      by (intro exI [of _ "ox * s + dx"] exI [of _ "oy * s + dy"]) auto
  next
    assume "\<exists>ix iy. ix < w \<and> iy < h \<and> ix div s = ox \<and> iy div s = oy \<and> (data g ! (iy * w + ix) = 0) = opt"
    then obtain ix iy where i: "ix < w" "iy < h" "ix div s = ox" "iy div s = oy" "(data g ! (iy * w + ix) = 0) = opt" by blast
    have e: "oy * s + iy mod s = iy" "ox * s + ix mod s = ix" using i(3,4) by (metis div_mult_mod_eq)+
    have "iy mod s < min s (h - oy * s)" "ix mod s < min s (w - ox * s)" using i(1,2) e s by (simp_all add: less_diff_conv add.commute)
    then show "block_hit g w h s opt ox oy"
      unfolding block_hit_def takeWhile_upt list_ex_iff using e i(5) by (intro bexI [of _ "iy mod s"] bexI [of _ "ix mod s"]) auto
  qed
qed

lemma concat_grid_nth:
  assumes "ox < ow" "oy < oh"
  shows "concat (map (\<lambda>oy. map (f oy) [0..<ow]) [0..<oh]) ! (oy * ow + ox) = f oy ox"
  using assms
proof (induction oh)
  case (Suc oh)
  have len: "length (concat (map (\<lambda>oy. map (f oy) [0..<ow]) [0..<oh])) = oh * ow" by (induction oh) simp_all
  show ?case
  proof (cases "oy < oh")
    case True
    then have "oy * ow + ox < oh * ow" by (rule row_major_less [OF _ Suc.prems(1)])
    then show ?thesis using Suc True len by (simp add: nth_append)
  next
    case False
    then have "oy = oh" using Suc.prems(2) by simp
    then show ?thesis using Suc.prems(1) len by (simp add: nth_append)
  qed
qed simp

text \<open>C29: down-sampling by \<open>scale > 1\<close>: the output has \<open>ceil(dim / scale)\<close> rows and columns, its
  resolution is scaled, the origin kept. The conservative version marks an output cell free exactly
  when every map cell of its block is free, the optimistic one when at least one is. Blocks cut off
  by the border count only the cells that exist.\<close>

theorem downsample_blocks:
  assumes "1 < scale" and "scale < 2 ^ 31" and "0 \<le> width g" and "width g < 2 ^ 31" and "0 \<le> height g" and "height g < 2 ^ 31"
    and "int ox < width (downsample g scale opt)" and "int oy < height (downsample g scale opt)"
  shows "width (downsample g scale opt) = int (div_ceil (nat (width g)) (nat scale))
    \<and> height (downsample g scale opt) = int (div_ceil (nat (height g)) (nat scale))
    \<and> (data (downsample g scale False) ! (oy * div_ceil (nat (width g)) (nat scale) + ox) = 0 \<longleftrightarrow>
        (\<forall>ix iy. ix < nat (width g) \<and> iy < nat (height g) \<and> ix div nat scale = ox \<and> iy div nat scale = oy \<longrightarrow> data g ! (iy * nat (width g) + ix) = 0))
    \<and> (data (downsample g scale True) ! (oy * div_ceil (nat (width g)) (nat scale) + ox) = 0 \<longleftrightarrow>
        (\<exists>ix iy. ix < nat (width g) \<and> iy < nat (height g) \<and> ix div nat scale = ox \<and> iy div nat scale = oy \<and> data g ! (iy * nat (width g) + ix) = 0))"
proof -
  let ?w = "nat (width g)" and ?h = "nat (height g)" and ?s = "nat scale"
  have s: "0 < ?s" using assms(1) by simp
  have u: "usize_of (width g) = ?w" "usize_of (height g) = ?h" "usize_of scale = ?s" using assms by (simp_all add: usize_of_nonneg)
  have le: "wrap32 (int (div_ceil n ?s)) = int (div_ceil n ?s)" if n: "n < 2 ^ 31" for n
  proof (rule wrap32_nat)
    show "div_ceil n ?s < 2 ^ 31"
    proof (cases "n = 0")
      case True
      then show ?thesis using s by (simp add: div_ceil_def)
    next
      case False
      then show ?thesis using div_ceil_le [OF s, of n] n by simp
    qed
  qed
  have wh: "?w < 2 ^ 31" "?h < 2 ^ 31" using assms by (simp_all add: nat_less_iff)
  have dim: "width (downsample g scale opt) = int (div_ceil ?w ?s)" "height (downsample g scale opt) = int (div_ceil ?h ?s)"
    using assms(1) le [OF wh(1)] le [OF wh(2)] by (simp_all add: downsample_def u Let_def)
  then have o: "ox < div_ceil ?w ?s" "oy < div_ceil ?h ?s" using assms(7,8) by simp_all
  have at: "data (downsample g scale b) ! (oy * div_ceil ?w ?s + ox) = (if block_hit g ?w ?h ?s b ox oy = b then 0 else 100)" for b
    using assms(1) concat_grid_nth [OF o, of "\<lambda>oy ox. if block_hit g ?w ?h ?s b ox oy = b then 0 else 100"]
    by (simp add: downsample_def u Let_def)
  show ?thesis unfolding dim at block_hit_iff [OF s] by auto
qed

definition small_grid :: occupancy_grid where
  "small_grid = \<lparr>width = 3, height = 3, resolution = NaN, origin_x = NaN, origin_y = NaN, origin_quat = identity_quat,
     data = [0, 100, 0, 0, 0, 0, 0, 0, 0]\<rparr>"

theorem downsample_blocks_witness:
  "width (downsample small_grid 2 False) = 2 \<and> data (downsample small_grid 2 False) ! 0 \<noteq> 0 \<and> data (downsample small_grid 2 True) ! 0 = 0"
proof -
  have w: "width small_grid = 3" "height small_grid = 3" "nat 3 = 3" "nat 2 = 2" by (simp_all add: small_grid_def)
  have d: "div_ceil 3 2 = 2" by (simp add: div_ceil_def)
  have "usize_of 3 = 3" "usize_of 2 = 2" by (simp_all add: usize_of_nonneg)
  then have b: "int 0 < width (downsample small_grid 2 False)" "int 0 < height (downsample small_grid 2 False)"
    using wrap32_nat [of 2] by (simp_all add: downsample_def Let_def w d)
  note p = downsample_blocks [of 2 small_grid 0 False 0, OF _ _ _ _ _ _ b, unfolded w d]
  have "\<not> (\<forall>ix iy. ix < 3 \<and> iy < 3 \<and> ix div 2 = 0 \<and> iy div 2 = 0 \<longrightarrow> data small_grid ! (iy * 3 + ix) = 0)"
  proof
    assume "\<forall>ix iy. ix < 3 \<and> iy < 3 \<and> ix div 2 = 0 \<and> iy div 2 = 0 \<longrightarrow> data small_grid ! (iy * 3 + ix) = 0"
    from this [rule_format, of 1 0] show False by (simp add: small_grid_def)
  qed
  moreover have "\<exists>ix iy. ix < (3::nat) \<and> iy < (3::nat) \<and> ix div 2 = 0 \<and> iy div 2 = 0 \<and> data small_grid ! (iy * 3 + ix) = 0"
    by (intro exI [of _ 0]) (simp add: small_grid_def)
  ultimately show ?thesis using p by simp
qed

section \<open>Occupancy views and value slices\<close>

text \<open>An occupancy view whose data does not have \<open>width * height\<close> entries is refused (the assertion
  panics); otherwise the grid has the same cells, a cell is blocked exactly when the view says
  occupied, or unknown with \<open>unknown_as_obstacle\<close>, and the solver's test for zero sees exactly
  the others as free.\<close>

theorem occupancy_view_cells:
  "(occupancy_view_to_vi_grid g unk = None \<longleftrightarrow> length (gv_data g) \<noteq> gv_width g * gv_height g) \<and>
   (\<forall>m i. occupancy_view_to_vi_grid g unk = Some m \<and> i < length (gv_data g) \<longrightarrow>
     length (data m) = gv_width g * gv_height g \<and>
     (data m ! i = 0 \<longleftrightarrow> \<not> (100 \<le> gv_data g ! i \<or> gv_data g ! i < 0 \<and> unk)) \<and> data m ! i \<in> {0, 100})"
  by (auto simp: occupancy_view_to_vi_grid_def split: if_splits)

theorem occupancy_view_cells_witness:
  "\<exists>m. occupancy_view_to_vi_grid \<lparr>gv_width = 2, gv_height = 1, gv_resolution = NaN, gv_origin_x = NaN, gv_origin_y = NaN, gv_data = [-1, 0]\<rparr> False = Some m
     \<and> data m ! 0 = 0"
proof -
  let ?g = "\<lparr>gv_width = 2, gv_height = 1, gv_resolution = NaN, gv_origin_x = NaN, gv_origin_y = NaN, gv_data = [-1, 0]\<rparr>"
  obtain m where m: "occupancy_view_to_vi_grid ?g False = Some m" by (simp add: occupancy_view_to_vi_grid_def)
  then show ?thesis using occupancy_view_cells [of ?g False] by (intro exI [of _ m]) auto
qed

lemma unat_div_prob: "unat (c div PROB_BASE) = unat c div 262144"
  by (simp add: unat_div)

lemma unat_of_nat64: "n < 2 ^ 64 \<Longrightarrow> unat (of_nat n :: u64) = n"
  by (simp add: unat_of_nat take_bit_nat_eq_self)

lemma pixel_min: "(if 100 \<le> s then 100 else uint s) = int (min 100 (unat (s :: u64)))"
proof -
  have "100 \<le> s \<longleftrightarrow> 100 \<le> unat s" by (simp add: word_le_nat_alt)
  moreover have "uint s = int (unat s)" by (rule uint_nat)
  ultimately show ?thesis by (simp only: min_def if_distrib [of int] of_nat_numeral)
qed

lemma value_pixel_scaled:
  assumes "c < MAX_COST" "0 < t"
  shows "value_pixel t c = int (min 100 (unat c div 262144 * 100 div unat t))"
proof -
  have c: "unat c < 262144000000000" using assms(1) by (simp add: word_less_nat_alt)
  then have d: "unat c div 262144 * 100 < 2 ^ 64" by simp
  let ?s = "(of_nat (unat c div 262144 * 100) :: u64) div t"
  have s: "unat ?s = unat c div 262144 * 100 div unat t"
  proof -
    have "unat (of_nat (unat c div 262144 * 100) :: u64) = unat c div 262144 * 100"
      by (rule unat_of_nat64) (use d in simp)
    then show ?thesis by (simp only: unat_div)
  qed
  have n: "\<not> MAX_COST \<le> c" "t \<noteq> 0" using assms by (simp_all only: not_le word_gt_0)
  have m: "min (2 ^ 64 - 1) (unat (c div PROB_BASE) * 100) = unat c div 262144 * 100"
    unfolding unat_div_prob using d by (intro min_absorb2) linarith
  have "value_pixel t c = (if 100 \<le> ?s then 100 else uint ?s)"
    unfolding value_pixel_def Let_def m by (simp only: n if_False)
  also have "\<dots> = int (min 100 (unat ?s))"
    by (rule pixel_min)
  finally show ?thesis by (simp only: s)
qed

text \<open>The rendered value slice: an entry is \<open>-1\<close> exactly when the cell has no value, otherwise it
  lies between 0 and 100, grows with the value, and reaches 100 exactly at the threshold.\<close>

theorem value_pixel_range:
  "(value_pixel t c = - 1 \<longleftrightarrow> MAX_COST \<le> c) \<and>
   (c < MAX_COST \<longrightarrow> 0 \<le> value_pixel t c \<and> value_pixel t c \<le> 100) \<and>
   (c \<le> c' \<and> c' < MAX_COST \<longrightarrow> value_pixel t c \<le> value_pixel t c') \<and>
   (c < MAX_COST \<and> 0 < t \<longrightarrow> (value_pixel t c = 100 \<longleftrightarrow> unat t \<le> unat c div 262144))"
proof -
  have zero: "value_pixel 0 d = (if unat d div 262144 = 0 then 0 else 100)" if "d < MAX_COST" for d
    using that unat_div_prob [of d] by (simp add: value_pixel_def Let_def not_le unat_eq_0 [symmetric])
  have range: "0 \<le> value_pixel t d \<and> value_pixel t d \<le> 100" if "d < MAX_COST" for d
    using value_pixel_scaled [OF that, of t] zero [OF that] by (cases "t = 0") (simp_all add: word_gt_0)
  moreover have "value_pixel t c = - 1 \<longleftrightarrow> MAX_COST \<le> c"
    using range [of c] by (cases "MAX_COST \<le> c") (simp add: value_pixel_def, fastforce simp: not_le)
  moreover have "value_pixel t c \<le> value_pixel t c'" if "c \<le> c'" "c' < MAX_COST"
  proof -
    have c: "c < MAX_COST" using that by (rule le_less_trans)
    have d: "unat c div 262144 \<le> unat c' div 262144" using that(1) by (intro div_le_mono) (simp add: word_le_nat_alt)
    show ?thesis
    proof (cases "t = 0")
      case True
      then show ?thesis using zero [OF c] zero [OF that(2)] d by simp
    next
      case False
      have "unat c div 262144 * 100 div unat t \<le> unat c' div 262144 * 100 div unat t" by (rule div_le_mono, rule mult_le_mono1, rule d)
      then show ?thesis using False value_pixel_scaled [OF c, of t] value_pixel_scaled [OF that(2), of t] by (simp add: word_gt_0 min.mono)
    qed
  qed
  moreover have "value_pixel t c = 100 \<longleftrightarrow> unat t \<le> unat c div 262144" if "c < MAX_COST" "0 < t"
  proof -
    have t: "0 < unat t" using that(2) by (simp add: word_less_nat_alt)
    have "value_pixel t c = 100 \<longleftrightarrow> 100 \<le> unat c div 262144 * 100 div unat t"
      unfolding value_pixel_scaled [OF that] by linarith
    also have "\<dots> \<longleftrightarrow> 100 * unat t \<le> unat c div 262144 * 100" using t by (rule less_eq_div_iff_mult_less_eq)
    finally show ?thesis by simp
  qed
  ultimately show ?thesis by blast
qed

theorem value_pixel_range_witness:
  "value_pixel 60 (30 * PROB_BASE) \<le> value_pixel 60 (100 * PROB_BASE) \<and> value_pixel 60 (100 * PROB_BASE) = 100 \<and> value_pixel 60 MAX_COST = - 1"
proof -
  have "(30 * PROB_BASE :: u64) \<le> 100 * PROB_BASE" "100 * PROB_BASE < (MAX_COST :: u64)" "unat (100 * PROB_BASE :: u64) = 26214400"
    by (simp_all add: PROB_BASE_eq MAX_COST_eq)
  then show ?thesis using value_pixel_range [of 60 "30 * PROB_BASE" "100 * PROB_BASE"] value_pixel_range [of 60 "100 * PROB_BASE" 0]
      value_pixel_range [of 60 MAX_COST 0] by simp
qed

section \<open>Headings\<close>

lemma ulp_small:
  assumes "exponent q < 52"
  obtains j where "ulp q = inverse (2 ^ j)"
proof -
  have "max (exponent q - 52) (-1074) = - int (nat (- max (exponent q - 52) (-1074)))" using assms by simp
  then have "ulp q = inverse (2 ^ nat (- max (exponent q - 52) (-1074)))" unfolding ulp_def by (metis power_int_minus power_int_of_nat)
  then show thesis by (rule that)
qed

lemma f_rem_360: "f_rem x (Fin False 360) = NaN \<or> (\<exists>s r. f_rem x (Fin False 360) = Fin s r \<and> 0 \<le> r \<and> r < 360)"
proof (cases x)
  case (Fin s p)
  have "360 * of_int \<lfloor>p / 360\<rfloor> \<le> p" "p < 360 * (of_int \<lfloor>p / 360\<rfloor> + 1)"
    using floor_correct [of "p / 360"] by (simp_all add: field_simps)
  then have "0 \<le> p - 360 * of_int \<lfloor>p / 360\<rfloor>" "p - 360 * of_int \<lfloor>p / 360\<rfloor> < 360" by (simp_all add: algebra_simps)
  then show ?thesis using Fin by (intro disjI2 exI [of _ s] exI [of _ "p - 360 * of_int \<lfloor>p / 360\<rfloor>"]) simp
qed simp_all

lemma small_ints: "f_of_int 360 = Fin False 360" "f_of_int 0 = Fin False 0"
  by (simp_all add: f_of_int_exact)

text \<open>What the reduction does to the remainder.\<close>

lemma wrap_remainder:
  assumes "0 \<le> r" "r < 360"
  shows "f_lt (Fin s r) (Fin False 0) \<longleftrightarrow> s \<and> r \<noteq> 0"
    "s \<Longrightarrow> r \<noteq> 0 \<Longrightarrow> f_add (Fin s r) (Fin False 360) = Fin False (round_mag (360 - r))"
proof -
  show "f_lt (Fin s r) (Fin False 0) \<longleftrightarrow> s \<and> r \<noteq> 0" using assms by (auto simp: sval_def)
  have "round_mag (360 - r) \<le> of_int 360" using assms by (intro round_mag_le_int) simp_all
  also have "\<dots> < 2 ^ 1024" by simp
  finally have "\<not> 2 ^ 1024 \<le> round_mag (360 - r)" by simp
  then show "s \<Longrightarrow> r \<noteq> 0 \<Longrightarrow> f_add (Fin s r) (Fin False 360) = Fin False (round_mag (360 - r))"
    using assms by (simp add: sval_def Let_def mk_f64_def)
qed

lemma as_i32_range:
  assumes "0 \<le> q" "q \<le> 360"
  shows "0 \<le> f_as_i32 (Fin False q) \<and> f_as_i32 (Fin False q) \<le> 360"
proof -
  have "0 \<le> \<lfloor>q\<rfloor>" "\<lfloor>q\<rfloor> \<le> 360" using assms by (simp_all add: floor_le_iff)
  then show ?thesis by (simp add: clamp_def trunc0_def)
qed

text \<open>The goal heading in degrees lies between 0 and 360 for every input, infinities and \<open>NaN\<close>
  included (they give 0).\<close>

theorem yaw_range: "0 \<le> yaw_to_goal_theta_deg yaw \<and> yaw_to_goal_theta_deg yaw \<le> 360"
proof -
  let ?r = "f_rem (f_to_degrees yaw) (Fin False 360)"
  from f_rem_360 [of "f_to_degrees yaw"] consider "?r = NaN" | s r where "?r = Fin s r" "0 \<le> r" "r < 360" by blast
  then show ?thesis
  proof cases
    case 1
    then show ?thesis by (simp add: yaw_to_goal_theta_deg_def f_rem_euclid_def small_ints)
  next
    case (2 s r)
    note w = wrap_remainder [OF 2(2,3), of s]
    show ?thesis
    proof (cases "s \<and> r \<noteq> 0")
      case True
      have "round_mag (360 - r) \<le> of_int 360" using 2 by (intro round_mag_le_int) simp_all
      moreover have "0 \<le> round_mag (360 - r)" using 2 by (intro round_mag_nonneg) simp
      ultimately show ?thesis using True w as_i32_range [of "round_mag (360 - r)"]
        by (simp add: yaw_to_goal_theta_deg_def f_rem_euclid_def small_ints 2(1) Let_def del: f_as_i32.simps f_add.simps f_lt.simps)
    next
      case False
      then have z: "f_as_i32 (Fin s r) = f_as_i32 (Fin False r)" by (auto simp: trunc0_def)
      have "f_rem_euclid (f_to_degrees yaw) (f_of_int 360) = Fin s r"
        using False w(1) unfolding f_rem_euclid_def small_ints 2(1) Let_def by (simp only: if_False)
      then show ?thesis using z as_i32_range [OF 2(2)] 2(3) by (simp add: yaw_to_goal_theta_deg_def del: f_as_i32.simps)
    qed
  qed
qed

lemma round_even_below:
  assumes "0 < e" "e < 1 / 2"
  shows "round_even (of_int k - e) = k"
proof -
  have "\<lfloor>of_int k - e\<rfloor> = k - 1" using assms by (simp add: floor_eq_iff)
  then show ?thesis using assms by (simp add: round_even_def Let_def)
qed

lemma round_mag_360:
  assumes "0 < e" "e < 1 / 2 ^ 45"
  shows "round_mag (360 - e) = 360"
proof -
  have e: "e < 1" using assms(2) by (rule less_trans) simp
  have q: "0 < 360 - e" using e by simp
  have "exponent (360 - e) < 9" by (rule exponent_le [OF q]) (use assms(1) in \<open>simp add: power_int_def\<close>)
  moreover have "8 \<le> exponent (360 - e)" by (rule exponent_ge [OF q]) (use e in \<open>simp add: power_int_def\<close>)
  ultimately have "exponent (360 - e) = 8" by simp
  then have u: "ulp (360 - e) = 1 / 2 ^ 44" by (simp add: ulp_def power_int_def power_one_over)
  have "(360 - e) / ulp (360 - e) = of_int (360 * 2 ^ 44) - e * 2 ^ 44" by (simp add: u algebra_simps)
  moreover have "round_even (of_int (360 * 2 ^ 44) - e * 2 ^ 44) = 360 * 2 ^ 44"
    using assms by (intro round_even_below) simp_all
  ultimately have "round_even ((360 - e) / ulp (360 - e)) = 360 * 2 ^ 44" by (simp only:)
  then show ?thesis using q by (simp add: round_mag_def u)
qed

lemma round_mag_ge_int:
  assumes "of_int n \<le> q" "0 < q" "q < 2 ^ 52"
  shows "of_int n \<le> round_mag q"
proof -
  have "exponent q < 52" by (rule exponent_le [OF assms(2)]) (use assms(3) in \<open>simp add: power_int_def\<close>)
  then obtain j where j: "ulp q = inverse (2 ^ j)" by (rule ulp_small)
  have "of_int (n * 2 ^ j) \<le> q / ulp q" using assms(1) by (simp add: j divide_inverse mult_right_mono)
  then have "n * 2 ^ j \<le> round_even (q / ulp q)" by (rule round_even_ge)
  then have "of_int (n * 2 ^ j) * ulp q \<le> of_int (round_even (q / ulp q)) * ulp q"
    by (intro mult_right_mono) (simp_all only: of_int_le_iff ulp_pos)
  moreover have "of_int (n * 2 ^ j) * ulp q = of_int n" by (simp add: j)
  moreover have "round_mag q = of_int (round_even (q / ulp q)) * ulp q" using assms(2) by (simp add: round_mag_def)
  ultimately show ?thesis by (simp only:)
qed

text \<open>C30: the heading is not always below 360: the smallest negative yaw, whose remainder is lost when
  360 is added to it, gives exactly 360 degrees.\<close>

theorem yaw_can_be_360: "yaw_to_goal_theta_deg (Fin True (1 / 2 ^ 1074)) = 360"
proof -
  define L where "L = (572957795130823208767981548141051703 / 10 ^ 34 :: rat)"
  have L: "57 < L" "L < 58" by (simp_all add: L_def)
  define l where "l = round_mag L"
  have l: "57 \<le> l" "l \<le> 58"
    using round_mag_ge_int [of 57 L] round_mag_le_int [of L 58] L by (simp_all add: l_def)
  have lit: "f_lit L = Fin False l" using L l by (simp add: f_lit_def mk_f64_def Let_def l_def [symmetric])
  define p where "p = 1 / 2 ^ 1074 * l"
  have p: "0 < p" using l by (simp add: p_def)
  have "p < 2 powi (- 1050)"
  proof -
    have "p \<le> 1 / 2 ^ 1074 * 58" unfolding p_def using l by (intro mult_left_mono) simp_all
    also have "\<dots> < 1 / 2 ^ 1050" by simp
    also have "\<dots> = 2 powi (- 1050)" by (simp add: power_int_minus inverse_eq_divide)
    finally show ?thesis .
  qed
  then have "exponent p < - 1050" by (rule exponent_le [OF p])
  then have "max (exponent p - 52) (- 1074) = - 1074" by simp
  then have u: "ulp p = 2 powi (- 1074)" by (simp only: ulp_def)
  then have u': "ulp p = 1 / 2 ^ 1074" by (simp add: power_int_minus inverse_eq_divide)
  define r where "r = of_int (round_even l) * ulp p"
  have "p / ulp p = l" unfolding u' unfolding p_def by simp
  then have rm: "round_mag p = r" using p by (simp add: round_mag_def r_def)
  have k: "57 \<le> round_even l" "round_even l \<le> 58" using round_even_ge [of 57 l] round_even_le [of l 58] l by simp_all
  have r: "0 < r" "r < 1 / 2 ^ 45"
  proof -
    show "0 < r" using k by (simp add: r_def)
    have "r \<le> 58 * (1 / 2 ^ 1074)" unfolding r_def u' using k by (intro mult_right_mono) simp_all
    also have "\<dots> < 1 / 2 ^ 45" by simp
    finally show "r < 1 / 2 ^ 45" .
  qed
  have small: "r < 1" using r(2) by (rule less_trans) simp
  then have "\<not> 2 ^ 1024 \<le> r" by (simp add: not_le)
  then have deg: "f_to_degrees (Fin True (1 / 2 ^ 1074)) = Fin True r"
    unfolding f_to_degrees_def L_def [symmetric] lit f_mul.simps p_def [symmetric] mk_f64_def rm Let_def by simp
  have "\<lfloor>r / 360\<rfloor> = 0" using r(1) small by (simp add: floor_eq_iff)
  then have rem: "f_rem (Fin True r) (Fin False 360) = Fin True r" by simp
  have "f_rem_euclid (Fin True r) (Fin False 360) = Fin False 360"
    using wrap_remainder [of r True] r(1) small round_mag_360 [OF r]
    by (simp add: f_rem_euclid_def rem small_ints Let_def del: f_rem.simps f_add.simps f_lt.simps)
  then show ?thesis unfolding yaw_to_goal_theta_deg_def deg small_ints by (simp add: clamp_def trunc0_def)
qed

end
