(* ===== verification/Prefetch.thy ===== *)
theory Prefetch
  imports Bridge
begin

text \<open>
  The waypoint prefetcher (\<^verbatim>\<open>vi_planner/src/core/prefetch.rs\<close>): a shared state behind a mutex, the
  operations the running planner calls, and the worker thread that solves the next waypoint ahead
  of time. Every critical section is one function on the shared state; the step relation
  interleaves the critical sections of the planner with those of the worker.

  The solved fields are values of a type variable. The solve of the worker runs outside the lock,
  so its end is a step with an arbitrary result: a field for the goal it was given, cancellation or
  an error.
\<close>

section \<open>The code\<close>

text \<open>\<open>==\<close> on \<open>f64\<close>: both zeros are equal, \<open>NaN\<close> equals nothing.\<close>

definition f_eq :: "f64 \<Rightarrow> f64 \<Rightarrow> bool" where
  "f_eq x y \<longleftrightarrow> f_le x y \<and> f_le y x"

type_synonym goal_key = "f64 \<times> f64 \<times> i32"

definition goal_matches :: "goal_key \<Rightarrow> goal_key \<Rightarrow> bool" where
  "goal_matches = (\<lambda>(x, y, t) (x', y', t'). f_eq x x' \<and> f_eq y y' \<and> t = t')"

record 'f cached_goal =
  cg_x :: f64
  cg_y :: f64
  cg_t_deg :: i32
  cg_field :: 'f
  cg_partial :: bool

definition cached_key :: "'f cached_goal \<Rightarrow> goal_key" where
  "cached_key c = (cg_x c, cg_y c, cg_t_deg c)"

definition pose_key :: "pose_view \<Rightarrow> goal_key" where
  "pose_key g = (pv_x g, pv_y g, yaw_to_goal_theta_deg (yaw_rad g))"

text \<open>The mutex-protected state. A cancel flag is a shared \<open>AtomicBool\<close>; flags are numbered, \<open>flags\<close>
  holds their values and \<open>fresh\<close> is the next number.\<close>

record 'f pf_state =
  waypoints :: "pose_view list"
  want :: "pose_view option"
  solving :: "pose_view option"
  ready :: "'f cached_goal option"
  cancel :: "nat option"
  flags :: "nat \<Rightarrow> bool"
  fresh :: nat

definition pf_default :: "'f pf_state" where
  "pf_default = \<lparr>waypoints = [], want = None, solving = None, ready = None, cancel = None, flags = (\<lambda>_. False), fresh = 0\<rparr>"

datatype position = Next pose_view | Last | Unknown

definition same_goal :: "pose_view \<Rightarrow> goal_key \<Rightarrow> bool" where
  "same_goal a b = goal_matches (pose_key a) b"

fun position_in :: "pose_view list \<Rightarrow> goal_key \<Rightarrow> position" where
  "position_in [] key = Unknown"
| "position_in (w # ws) key =
     (if same_goal w key then (case ws of [] \<Rightarrow> Last | nxt # _ \<Rightarrow> Next nxt) else position_in ws key)"

definition position_of :: "'f pf_state \<Rightarrow> pose_view \<Rightarrow> position" where
  "position_of st goal = position_in (waypoints st) (pose_key goal)"

definition set_waypoints :: "pose_view list \<Rightarrow> 'f pf_state \<Rightarrow> 'f pf_state" where
  "set_waypoints ws st = st\<lparr>waypoints := ws\<rparr>"

definition cancel_in_flight :: "'f pf_state \<Rightarrow> 'f pf_state" where
  "cancel_in_flight st =
     (let st = st\<lparr>want := None\<rparr> in
      case cancel st of None \<Rightarrow> st | Some c \<Rightarrow> st\<lparr>cancel := None, flags := (flags st)(c := True)\<rparr>)"

definition discard :: "'f pf_state \<Rightarrow> 'f pf_state" where
  "discard st = cancel_in_flight (st\<lparr>ready := None, want := None\<rparr>)"

definition opt_same :: "pose_view option \<Rightarrow> goal_key \<Rightarrow> bool" where
  "opt_same g key = (case g of None \<Rightarrow> False | Some g \<Rightarrow> same_goal g key)"

definition pf_request :: "pose_view \<Rightarrow> 'f pf_state \<Rightarrow> 'f pf_state" where
  "pf_request nxt st =
     (let key = pose_key nxt;
          have' = (case ready st of None \<Rightarrow> False | Some c \<Rightarrow> goal_matches (cached_key c) key)
      in if have' \<or> opt_same (solving st) key \<or> opt_same (want st) key then st
         else (discard st)\<lparr>want := Some nxt\<rparr>)"

definition note_goal :: "pose_view \<Rightarrow> 'f pf_state \<Rightarrow> 'f pf_state" where
  "note_goal goal st =
     (case position_of st goal of
        Next nxt \<Rightarrow> pf_request nxt st
      | Last \<Rightarrow> discard st
      | Unknown \<Rightarrow> st)"

text \<open>One turn of the loop of \<open>adopt\<close>, from taking the lock to the return or to the wait on the
  condition variable. \<open>cancelled\<close> is what the caller's flag reads.\<close>

datatype 'f adopt_result = Adopted "'f cached_goal" | Absent | Waiting

definition adopt_turn :: "pose_view \<Rightarrow> i32 \<Rightarrow> bool \<Rightarrow> 'f pf_state \<Rightarrow> 'f adopt_result \<times> 'f pf_state" where
  "adopt_turn goal goal_t_deg cancelled st =
     (let key = (pv_x goal, pv_y goal, goal_t_deg) in
      case ready st of
        Some c \<Rightarrow>
          if goal_matches (cached_key c) key then (Adopted c, st\<lparr>ready := None\<rparr>)
          else let st = st\<lparr>ready := None\<rparr> in
               if \<not> (opt_same (solving st) key \<or> opt_same (want st) key) then (Absent, cancel_in_flight st)
               else if cancelled then (Absent, st) else (Waiting, st)
      | None \<Rightarrow>
          if \<not> (opt_same (solving st) key \<or> opt_same (want st) key) then (Absent, cancel_in_flight st)
          else if cancelled then (Absent, st) else (Waiting, st))"

text \<open>The worker: taking an order, and putting the result down. \<open>Inr c\<close> is a solved field.\<close>

datatype plan_error = Cancelled | Other

definition worker_take :: "'f pf_state \<Rightarrow> (pose_view \<times> nat \<times> 'f pf_state) option" where
  "worker_take st =
     (case want st of
        None \<Rightarrow> None
      | Some g \<Rightarrow> let c = fresh st in
          Some (g, c, st\<lparr>want := None, cancel := Some c, flags := (flags st)(c := False), fresh := Suc c, solving := Some g\<rparr>))"

definition worker_put :: "plan_error + 'f cached_goal \<Rightarrow> 'f pf_state \<Rightarrow> 'f pf_state" where
  "worker_put solved st =
     (let st = st\<lparr>solving := None, cancel := None\<rparr> in
      case solved of Inr c \<Rightarrow> st\<lparr>ready := Some c\<rparr> | Inl _ \<Rightarrow> st)"

section \<open>The interleaving\<close>

text \<open>The whole system: the shared state and what the worker is doing (\<open>Some\<close> while it solves).\<close>

record 'f pf_sys =
  shared :: "'f pf_state"
  busy :: "(pose_view \<times> nat) option"

inductive pf_step :: "'f pf_sys \<Rightarrow> 'f pf_sys \<Rightarrow> bool" where
  set_wps: "pf_step s (s\<lparr>shared := set_waypoints ws (shared s)\<rparr>)"
| noted: "pf_step s (s\<lparr>shared := note_goal g (shared s)\<rparr>)"
| adopting: "adopt_turn g t b (shared s) = (r, st) \<Longrightarrow> pf_step s (s\<lparr>shared := st\<rparr>)"
| taking: "busy s = None \<Longrightarrow> worker_take (shared s) = Some (g, c, st) \<Longrightarrow> pf_step s \<lparr>shared = st, busy = Some (g, c)\<rparr>"
| put_ok: "busy s = Some (g, c) \<Longrightarrow> cached_key r = pose_key g \<Longrightarrow>
    pf_step s \<lparr>shared = worker_put (Inr r) (shared s), busy = None\<rparr>"
| put_err: "busy s = Some (g, c) \<Longrightarrow> pf_step s \<lparr>shared = worker_put (Inl e) (shared s), busy = None\<rparr>"

definition pf_init :: "'f pf_sys" where
  "pf_init = \<lparr>shared = pf_default, busy = None\<rparr>"

definition pf_reachable :: "'f pf_sys \<Rightarrow> bool" where
  "pf_reachable s \<longleftrightarrow> pf_step\<^sup>*\<^sup>* pf_init s"

inductive_cases pf_stepE: "pf_step s s'"

lemma pf_induct [consumes 1, case_names init step]:
  assumes "pf_reachable s" "P pf_init" "\<And>s s'. pf_reachable s \<Longrightarrow> P s \<Longrightarrow> pf_step s s' \<Longrightarrow> P s'"
  shows "P s"
proof -
  have "pf_step\<^sup>*\<^sup>* pf_init s" using assms(1) by (simp add: pf_reachable_def)
  then have "pf_reachable s \<and> P s"
  proof (induction rule: rtranclp_induct)
    case base
    then show ?case using assms(2) by (simp add: pf_reachable_def)
  next
    case (step y z)
    then show ?case using assms(3) by (auto simp: pf_reachable_def intro: rtranclp.rtrancl_into_rtrancl)
  qed
  then show ?thesis ..
qed

section \<open>Invariants\<close>

text \<open>What the fields of the shared state say about the worker.\<close>

definition pf_inv :: "'f pf_sys \<Rightarrow> bool" where
  "pf_inv s \<longleftrightarrow>
     (solving (shared s) = map_option fst (busy s)) \<and>
     (case cancel (shared s) of
        None \<Rightarrow> (\<forall>g c. busy s = Some (g, c) \<longrightarrow> flags (shared s) c)
      | Some k \<Rightarrow> (\<exists>g. busy s = Some (g, k)) \<and> \<not> flags (shared s) k)"

lemmas pf_defs = set_waypoints_def note_goal_def pf_request_def discard_def cancel_in_flight_def adopt_turn_def
  worker_take_def worker_put_def

text \<open>The critical sections of the planner, without the worker.\<close>

lemma planner_sections:
  "solving (cancel_in_flight st) = solving st" "want (cancel_in_flight st) = None" "ready (cancel_in_flight st) = ready st"
  "cancel (cancel_in_flight st) = None" "fresh (cancel_in_flight st) = fresh st"
  "flags (cancel_in_flight st) = (case cancel st of None \<Rightarrow> flags st | Some c \<Rightarrow> (flags st)(c := True))"
  by (simp_all add: cancel_in_flight_def Let_def split: option.split)

lemma note_goal_cases:
  obtains (same) "note_goal g st = st"
  | (order) n where "note_goal g st = (discard st)\<lparr>want := Some n\<rparr>" "position_of st g = Next n"
  | (drop) "note_goal g st = discard st"
proof (cases "position_of st g")
  case (Next n)
  then have "note_goal g st = pf_request n st" by (simp add: note_goal_def)
  moreover have "pf_request n st = st \<or> pf_request n st = (discard st)\<lparr>want := Some n\<rparr>" by (simp add: pf_request_def Let_def)
  ultimately show thesis using Next same order by metis
qed (auto simp: note_goal_def intro: same drop)

lemma adopt_turn_cases:
  assumes "adopt_turn g t b st = (r, st')"
  obtains (take) c where "r = Adopted c" "ready st = Some c" "goal_matches (cached_key c) (pv_x g, pv_y g, t)" "st' = st\<lparr>ready := None\<rparr>"
  | (gone) "r = Absent" "st' = cancel_in_flight (st\<lparr>ready := None\<rparr>)"
      "\<not> opt_same (solving st) (pv_x g, pv_y g, t)" "\<not> opt_same (want st) (pv_x g, pv_y g, t)"
  | (wait) "r = (if b then Absent else Waiting)" "st' = st\<lparr>ready := None\<rparr>"
      "opt_same (solving st) (pv_x g, pv_y g, t) \<or> opt_same (want st) (pv_x g, pv_y g, t)"
proof -
  let ?key = "(pv_x g, pv_y g, t)"
  let ?any = "opt_same (solving st) ?key \<or> opt_same (want st) ?key"
  have same: "ready st = None \<Longrightarrow> st\<lparr>ready := None\<rparr> = st" by simp
  have "adopt_turn g t b st =
    (if \<exists>c. ready st = Some c \<and> goal_matches (cached_key c) ?key then (Adopted (the (ready st)), st\<lparr>ready := None\<rparr>)
     else if \<not> ?any then (Absent, cancel_in_flight (st\<lparr>ready := None\<rparr>))
     else (if b then Absent else Waiting, st\<lparr>ready := None\<rparr>))"
    by (cases "ready st") (simp_all add: adopt_turn_def Let_def same)
  then show thesis using assms take gone wait by (auto split: if_splits)
qed

lemma pf_inv_step:
  assumes inv: "pf_inv s" and step: "pf_step s s'"
  shows "pf_inv s'"
proof -
  have drop: "pf_inv (s\<lparr>shared := st\<rparr>)"
    if "solving st = solving (shared s)" "cancel st = None"
      "flags st = (case cancel (shared s) of None \<Rightarrow> flags (shared s) | Some c \<Rightarrow> (flags (shared s))(c := True))" for st
    using inv that by (cases "cancel (shared s)") (auto simp: pf_inv_def)
  have keep: "pf_inv (s\<lparr>shared := st\<rparr>)"
    if "solving st = solving (shared s)" "cancel st = cancel (shared s)" "flags st = flags (shared s)" for st
    using inv that by (auto simp: pf_inv_def split: option.splits)
  from step show ?thesis
  proof cases
    case (set_wps ws)
    then show ?thesis by (simp add: keep set_waypoints_def)
  next
    case (noted g)
    show ?thesis
    proof (cases rule: note_goal_cases [of g "shared s"])
      case same
      then show ?thesis using noted inv by simp
    next
      case (order n)
      then show ?thesis unfolding noted by (intro drop) (simp_all add: discard_def planner_sections split: option.split)
    next
      case drop': drop
      then show ?thesis unfolding noted by (intro drop) (simp_all add: discard_def planner_sections split: option.split)
    qed
  next
    case (adopting g t b r st)
    from adopting(2) show ?thesis
    proof (cases rule: adopt_turn_cases)
      case (take c)
      then show ?thesis unfolding adopting(1) by (intro keep) simp_all
    next
      case gone
      then show ?thesis unfolding adopting(1) by (intro drop) (simp_all add: planner_sections split: option.split)
    next
      case wait
      then show ?thesis unfolding adopting(1) by (intro keep) simp_all
    qed
  next
    case (taking g c st)
    then show ?thesis by (auto simp: pf_inv_def worker_take_def Let_def split: option.splits)
  next
    case (put_ok g c r)
    then show ?thesis by (simp add: pf_inv_def worker_put_def Let_def)
  next
    case (put_err g c e)
    then show ?thesis by (simp add: pf_inv_def worker_put_def Let_def)
  qed
qed

lemma pf_reachable_inv: "pf_reachable s \<Longrightarrow> pf_inv s"
proof (induction rule: pf_induct)
  case init
  show ?case by (simp add: pf_inv_def pf_init_def pf_default_def)
next
  case (step s s')
  then show ?case by (blast intro: pf_inv_step)
qed

text \<open>C31: in every reachable state the recorded \<open>solving\<close> goal is the one the worker is solving, the
  cancel handle is held only while a solve runs and then belongs to that solve and is not raised,
  and a solve without a handle has been told to stop.\<close>

theorem prefetch_invariant:
  assumes "pf_reachable s"
  shows "solving (shared s) = map_option fst (busy s)
    \<and> (\<forall>k. cancel (shared s) = Some k \<longrightarrow> (\<exists>g. busy s = Some (g, k)) \<and> \<not> flags (shared s) k)
    \<and> (\<forall>g c. busy s = Some (g, c) \<and> cancel (shared s) = None \<longrightarrow> flags (shared s) c)"
  using pf_reachable_inv [OF assms] by (auto simp: pf_inv_def split: option.splits)

section \<open>One field at a time\<close>

text \<open>A step in which a solve that has been told to stop does not deliver a field.\<close>

definition pf_step_checked :: "'f pf_sys \<Rightarrow> 'f pf_sys \<Rightarrow> bool" where
  "pf_step_checked s s' \<longleftrightarrow> pf_step s s' \<and>
     (\<forall>g c r. busy s = Some (g, c) \<and> s' = \<lparr>shared = worker_put (Inr r) (shared s), busy = None\<rparr> \<longrightarrow> \<not> flags (shared s) c)"

definition single_inv :: "'f pf_sys \<Rightarrow> bool" where
  "single_inv s \<longleftrightarrow> pf_inv s \<and> (ready (shared s) \<noteq> None \<longrightarrow> want (shared s) = None \<and> busy s = None)
     \<and> (\<forall>g c. busy s = Some (g, c) \<and> \<not> flags (shared s) c \<longrightarrow> want (shared s) = None)"

lemma single_inv_step:
  assumes inv: "single_inv s" and step: "pf_step_checked s s'"
  shows "single_inv s'"
proof -
  have pf: "pf_inv s'" using inv step pf_inv_step by (auto simp: single_inv_def pf_step_checked_def)
  from step have st: "pf_step s s'" by (simp add: pf_step_checked_def)
  from st have "(ready (shared s') \<noteq> None \<longrightarrow> want (shared s') = None \<and> busy s' = None)
     \<and> (\<forall>g c. busy s' = Some (g, c) \<and> \<not> flags (shared s') c \<longrightarrow> want (shared s') = None)"
  proof cases
    case (set_wps ws)
    then show ?thesis using inv by (simp add: single_inv_def set_waypoints_def)
  next
    case (noted g)
    show ?thesis
    proof (cases rule: note_goal_cases [of g "shared s"])
      case same
      then show ?thesis using noted inv by (simp add: single_inv_def)
    next
      case (order n)
      have "flags (shared s') c" if "busy s = Some (h, c)" for h c
        using inv that unfolding noted order(1)
        by (auto simp: single_inv_def pf_inv_def discard_def planner_sections split: option.splits)
      then show ?thesis unfolding noted by (auto simp: order discard_def planner_sections noted)
    next
      case drop
      then show ?thesis unfolding noted by (simp add: discard_def planner_sections)
    qed
  next
    case (adopting g t b r st)
    from adopting(2) show ?thesis
    proof (cases rule: adopt_turn_cases)
      case (take c)
      then show ?thesis using inv unfolding adopting(1) by (simp add: single_inv_def)
    next
      case gone
      then show ?thesis unfolding adopting(1) by (simp add: planner_sections)
    next
      case wait
      then show ?thesis using inv unfolding adopting(1) by (simp add: single_inv_def)
    qed
  next
    case (taking g c st)
    then show ?thesis using inv by (auto simp: single_inv_def worker_take_def Let_def split: option.splits)
  next
    case (put_ok g c r)
    then have "\<not> flags (shared s) c" using step unfolding pf_step_checked_def by blast
    then show ?thesis using put_ok inv by (simp add: single_inv_def worker_put_def Let_def)
  next
    case (put_err g c e)
    then show ?thesis using inv by (auto simp: single_inv_def worker_put_def Let_def)
  qed
  with pf show ?thesis by (simp add: single_inv_def)
qed

text \<open>C32: as long as no solve delivers a field after it has been told to stop, the prefetcher never
  holds a finished field while another one is ordered or being solved.\<close>

theorem prefetch_single_field:
  assumes "pf_step_checked\<^sup>*\<^sup>* pf_init s" and "ready (shared s) \<noteq> None"
  shows "want (shared s) = None \<and> busy s = None"
proof -
  from assms(1) have "single_inv s"
  proof (induction rule: rtranclp_induct)
    case base
    show ?case by (simp add: single_inv_def pf_inv_def pf_init_def pf_default_def)
  next
    case (step y z)
    then show ?case by (blast intro: single_inv_step)
  qed
  then show ?thesis using assms(2) by (simp add: single_inv_def)
qed

section \<open>A run\<close>

text \<open>Three waypoints one metre apart, and the field of the middle one.\<close>

definition wp :: "int \<Rightarrow> pose_view" where
  "wp i = \<lparr>pv_x = f_of_int i, pv_y = f_of_int 0, yaw_rad = f_of_int 0\<rparr>"

definition wp_field :: "int \<Rightarrow> nat cached_goal" where
  "wp_field i = \<lparr>cg_x = pv_x (wp i), cg_y = pv_y (wp i), cg_t_deg = yaw_to_goal_theta_deg (yaw_rad (wp i)),
     cg_field = 0, cg_partial = False\<rparr>"

lemma f_eq_int: "\<bar>i\<bar> < 2 ^ 52 \<Longrightarrow> \<bar>j\<bar> < 2 ^ 52 \<Longrightarrow> f_eq (f_of_int i) (f_of_int j) \<longleftrightarrow> i = j"
  by (auto simp: f_eq_def f_of_int_exact sval_def)

lemma wp_same: "\<bar>i\<bar> < 2 ^ 52 \<Longrightarrow> \<bar>j\<bar> < 2 ^ 52 \<Longrightarrow> same_goal (wp i) (pose_key (wp j)) \<longleftrightarrow> i = j"
  by (simp add: same_goal_def goal_matches_def pose_key_def wp_def f_eq_int)

lemma wp_field_key: "cached_key (wp_field i) = pose_key (wp i)"
  by (simp add: cached_key_def wp_field_def pose_key_def)

text \<open>The states of the run: ordering the second waypoint, solving it, and ordering the third, which tells
  that solve to stop.\<close>

definition pf_at :: "pose_view option \<Rightarrow> pose_view option \<Rightarrow> nat cached_goal option \<Rightarrow> nat option \<Rightarrow> bool \<Rightarrow> nat \<Rightarrow> nat pf_state" where
  "pf_at w s r c f n = \<lparr>waypoints = [wp 0, wp 1, wp 2], want = w, solving = s, ready = r, cancel = c,
     flags = (\<lambda>k. k = 0 \<and> f), fresh = n\<rparr>"

definition run :: "nat \<Rightarrow> nat pf_sys" where
  "run k =
     [\<lparr>shared = pf_at None None None None False 0, busy = None\<rparr>,
      \<lparr>shared = pf_at (Some (wp 1)) None None None False 0, busy = None\<rparr>,
      \<lparr>shared = pf_at None (Some (wp 1)) None (Some 0) False 1, busy = Some (wp 1, 0)\<rparr>,
      \<lparr>shared = pf_at (Some (wp 2)) (Some (wp 1)) None None True 1, busy = Some (wp 1, 0)\<rparr>] ! k"

lemma flag_updates: "(\<lambda>k::nat. False)(0 := True) = (\<lambda>k. k = 0)" "(\<lambda>k::nat. False)(0 := False) = (\<lambda>k. False)"
  by (rule ext, simp)+

lemma run_start: "pf_step pf_init (run 0)"
  using pf_step.set_wps [of pf_init "[wp 0, wp 1, wp 2]"]
  by (simp add: pf_init_def pf_default_def run_def pf_at_def set_waypoints_def)

lemma run_note: "pf_step (run 0) (run 1)"
  using pf_step.noted [of "run 0" "wp 0"]
  by (simp add: run_def pf_at_def note_goal_def position_of_def wp_same pf_request_def opt_same_def discard_def cancel_in_flight_def)

lemma run_take: "pf_step (run 1) (run 2)"
  using pf_step.taking [of "run 1" "wp 1" 0 "pf_at None (Some (wp 1)) None (Some 0) False 1"]
  by (simp add: run_def pf_at_def worker_take_def flag_updates)

lemma run_renote: "pf_step (run 2) (run 3)"
  using pf_step.noted [of "run 2" "wp 1"]
  by (simp add: run_def pf_at_def note_goal_def position_of_def wp_same pf_request_def opt_same_def discard_def cancel_in_flight_def flag_updates)

lemma run_reachable: "pf_reachable (run 3)"
proof -
  note chain = converse_rtranclp_into_rtranclp
  have "pf_step\<^sup>*\<^sup>* pf_init (run 3)"
    by (rule chain [OF run_start chain [OF run_note chain [OF run_take r_into_rtranclp [of pf_step, OF run_renote]]]])
  then show ?thesis by (simp add: pf_reachable_def)
qed

theorem prefetch_invariant_witness:
  "solving (shared (run 3)) = Some (wp 1) \<and> cancel (shared (run 3)) = None \<and> busy (run 3) = Some (wp 1, 0) \<and> flags (shared (run 3)) 0"
  using prefetch_invariant [OF run_reachable] by (simp add: run_def pf_at_def)

text \<open>A run in which no solve ends late: the second waypoint is ordered, solved and put down.\<close>

definition calm :: "nat pf_sys" where
  "calm = \<lparr>shared = pf_at None None (Some (wp_field 1)) None False 1, busy = None\<rparr>"

lemma calm_put: "pf_step (run 2) calm"
  using pf_step.put_ok [of "run 2" "wp 1" 0 "wp_field 1"]
  by (simp add: run_def calm_def pf_at_def worker_put_def wp_field_key)

lemma calm_steps: "pf_step_checked pf_init (run 0)" "pf_step_checked (run 0) (run 1)" "pf_step_checked (run 1) (run 2)"
  "pf_step_checked (run 2) calm"
  using run_start run_note run_take calm_put
  by (auto simp: pf_step_checked_def pf_init_def run_def pf_at_def)

theorem prefetch_single_field_witness: "ready (shared calm) \<noteq> None \<and> want (shared calm) = None \<and> busy calm = None"
proof -
  note chain = converse_rtranclp_into_rtranclp
  have "pf_step_checked\<^sup>*\<^sup>* pf_init calm"
    by (rule chain [OF calm_steps(1) chain [OF calm_steps(2) chain [OF calm_steps(3) r_into_rtranclp [of pf_step_checked, OF calm_steps(4)]]]])
  moreover have "ready (shared calm) \<noteq> None" by (simp add: calm_def pf_at_def)
  ultimately show ?thesis using prefetch_single_field [of calm] by blast
qed

section \<open>Handing a field over\<close>

text \<open>A worker step: taking an order or putting a result down.\<close>

definition worker_step :: "'f pf_sys \<Rightarrow> 'f pf_sys \<Rightarrow> bool" where
  "worker_step s s' \<longleftrightarrow> (\<exists>g c st. busy s = None \<and> worker_take (shared s) = Some (g, c, st) \<and> s' = \<lparr>shared = st, busy = Some (g, c)\<rparr>)
     \<or> (\<exists>g c r. busy s = Some (g, c) \<and> s' = \<lparr>shared = worker_put r (shared s), busy = None\<rparr>)"

lemma worker_step_enabled:
  assumes "pf_inv s" "solving (shared s) \<noteq> None \<or> want (shared s) \<noteq> None"
  shows "\<exists>s'. worker_step s s'"
proof (cases "busy s")
  case None
  then have "solving (shared s) = None" using assms(1) by (simp add: pf_inv_def)
  then obtain g where "want (shared s) = Some g" using assms(2) by blast
  then show ?thesis using None by (auto simp: worker_step_def worker_take_def Let_def)
qed (auto simp: worker_step_def)

text \<open>C34: \<open>adopt\<close> hands over only a field of the very goal it is asked for, and takes it out of the
  shared state; when it gives up without being cancelled, nothing stays ordered or ready and the
  solve that may still be running has been told to stop; and it waits only while the worker can
  make a step.\<close>

theorem prefetch_adopt:
  assumes "pf_reachable s" and "adopt_turn g t b (shared s) = (r, st)"
  shows "(\<forall>c. r = Adopted c \<longrightarrow> goal_matches (cached_key c) (pv_x g, pv_y g, t) \<and> ready (shared s) = Some c \<and> ready st = None)
    \<and> (r = Absent \<and> \<not> b \<longrightarrow> ready st = None \<and> want st = None \<and> (\<forall>h k. busy s = Some (h, k) \<longrightarrow> flags st k))
    \<and> (r = Waiting \<longrightarrow> \<not> b \<and> (\<exists>s'. worker_step (s\<lparr>shared := st\<rparr>) s'))"
proof -
  have inv: "pf_inv s" by (rule pf_reachable_inv [OF assms(1)])
  have "pf_step s (s\<lparr>shared := st\<rparr>)" by (rule pf_step.adopting [OF assms(2)])
  then have inv': "pf_inv (s\<lparr>shared := st\<rparr>)" by (rule pf_inv_step [OF inv])
  from assms(2) show ?thesis
  proof (cases rule: adopt_turn_cases)
    case (take c)
    then show ?thesis by simp
  next
    case gone
    then show ?thesis using inv' by (auto simp: planner_sections pf_inv_def)
  next
    case wait
    then have "solving st \<noteq> None \<or> want st \<noteq> None" by (auto simp: opt_same_def split: option.splits)
    then have "\<exists>s'. worker_step (s\<lparr>shared := st\<rparr>) s'" using worker_step_enabled [OF inv'] by simp
    then show ?thesis using wait(1) by simp
  qed
qed

theorem prefetch_adopt_witness:
  "\<exists>st s'. adopt_turn (wp 1) (snd (snd (pose_key (wp 1)))) False (shared (run 3)) = (Waiting, st) \<and> worker_step ((run 3)\<lparr>shared := st\<rparr>) s'"
proof -
  have key: "(pv_x (wp 1), pv_y (wp 1), snd (snd (pose_key (wp 1)))) = pose_key (wp 1)" by (simp add: pose_key_def)
  have "adopt_turn (wp 1) (snd (snd (pose_key (wp 1)))) False (shared (run 3)) = (Waiting, shared (run 3))"
    unfolding adopt_turn_def key by (simp add: run_def pf_at_def opt_same_def wp_same)
  then show ?thesis using prefetch_adopt [OF run_reachable] by blast
qed

end
