(* ===== verification/AsyncEngine.thy ===== *)
theory AsyncEngine
  imports Padded
begin

text \<open>
  The asynchronous parallel engine shared by the unsafe and the fused planar solvers
  (\<open>async_gs_engine\<close> of \<^verbatim>\<open>solvers/mod.rs\<close>): persistent threads claim blocks of candidates from a
  shared cursor and evaluate them in place on shared atomic cells, two barriers separate the
  rounds, and the leader rebuilds the candidates between the barriers.

  The evaluation of a column is a program of single atomic loads and stores. The step relation
  interleaves the loads, stores and claims of all threads in any order; the work of the leader
  between the two barriers is one step, because every other thread waits there. The loads and
  stores are relaxed; the cells are modelled as coherent, one value at a time.
\<close>

section \<open>The code\<close>

subsection \<open>Programs on shared cells\<close>

datatype 'a prog = Ret 'a | Load nat "u64 \<Rightarrow> 'a prog" | Store nat u64 "'a prog"

type_synonym cell2 = "nat \<times> nat"

type_synonym eval_prog = "cell2 \<Rightarrow> (bool \<times> u64) prog"

subsection \<open>The engine\<close>

datatype gs_phase = Claim | Run "cell2 list" "(bool \<times> u64) prog" | AtBarrier

record gs_worker =
  w_phase :: gs_phase
  w_changed :: "cell2 list"
  w_ups :: u64

text \<open>The arguments of the engine; \<open>e_boundary\<close> is the closure the leader calls at a boundary, with the
  round, the update count, the cells and the state of the observer.\<close>

record 'o gs_args =
  e_nx :: nat
  e_ny :: nat
  e_dx :: nat
  e_dy :: nat
  e_max_iter :: nat
  e_eval :: eval_prog
  e_interval :: nat
  e_boundary :: "nat \<Rightarrow> u64 \<Rightarrow> u64 list \<Rightarrow> 'o \<Rightarrow> solve_flow \<times> 'o"

record 'o gs_sys =
  g_mem :: "u64 list"
  g_cand :: "cell2 list"
  g_cursor :: nat
  g_updates :: u64
  g_workers :: "gs_worker list"
  g_iters :: nat
  g_next :: nat
  g_obs :: 'o
  g_outcome :: "solve_outcome option"

definition gs_block :: nat where "gs_block = 16"

definition fresh_worker :: gs_worker where
  "fresh_worker = \<lparr>w_phase = Claim, w_changed = [], w_ups = 0\<rparr>"

text \<open>The next atomic action of a thread: a claim, a load, a store, or taking the result of a column.\<close>

definition claim_turn :: "eval_prog \<Rightarrow> gs_worker \<Rightarrow> 'o gs_sys \<Rightarrow> gs_worker \<times> 'o gs_sys" where
  "claim_turn ev w s =
     (let b = g_cursor s; s1 = s\<lparr>g_cursor := b + gs_block\<rparr> in
      if length (g_cand s) \<le> b then (w\<lparr>w_phase := AtBarrier\<rparr>, s1\<lparr>g_updates := g_updates s + w_ups w\<rparr>)
      else let blk = take gs_block (drop b (g_cand s)) in (w\<lparr>w_phase := Run blk (ev (hd blk))\<rparr>, s1))"

definition return_turn :: "eval_prog \<Rightarrow> cell2 list \<Rightarrow> bool \<times> u64 \<Rightarrow> gs_worker \<Rightarrow> gs_worker" where
  "return_turn ev cs = (\<lambda>(cell_changed, ups) w.
     w\<lparr>w_ups := w_ups w + ups,
       w_changed := (if cell_changed then w_changed w @ [hd cs] else w_changed w),
       w_phase := (if tl cs = [] then Claim else Run (tl cs) (ev (hd (tl cs))))\<rparr>)"

definition worker_turn :: "eval_prog \<Rightarrow> gs_worker \<Rightarrow> 'o gs_sys \<Rightarrow> (gs_worker \<times> 'o gs_sys) option" where
  "worker_turn ev w s =
     (case w_phase w of
        AtBarrier \<Rightarrow> None
      | Claim \<Rightarrow> Some (claim_turn ev w s)
      | Run cs p \<Rightarrow> (case p of
          Load a k \<Rightarrow> Some (w\<lparr>w_phase := Run cs (k (g_mem s ! a))\<rparr>, s)
        | Store a v q \<Rightarrow> Some (w\<lparr>w_phase := Run cs q\<rparr>, s\<lparr>g_mem := (g_mem s)[a := v]\<rparr>)
        | Ret r \<Rightarrow> Some (return_turn ev cs r w, s)))"

text \<open>The serial part of the leader, between the barriers. \<open>None\<close> is the panic of the dilation.\<close>

definition all_changed :: "'o gs_sys \<Rightarrow> cell2 list" where
  "all_changed s = concat (map w_changed (g_workers s))"

definition next_frontier :: "'o gs_args \<Rightarrow> 'o gs_sys \<Rightarrow> bitboard2d" where
  "next_frontier e s = fold (\<lambda>(x, y) nf. set2 nf x y) (all_changed s) (new2 (e_nx e) (e_ny e))"

definition leader_turn :: "'o gs_args \<Rightarrow> 'o gs_sys \<Rightarrow> 'o gs_sys option" where
  "leader_turn e s =
     (let iters = g_iters s + 1;
          any = (all_changed s \<noteq> []);
          due = (any \<and> iters < e_max_iter e \<and> g_next s \<le> iters);
          nb = (if due then min (2 ^ 64 - 1) (iters + max 1 (e_interval e)) else g_next s)
      in case (if due then e_boundary e iters (g_updates s) (g_mem s) (g_obs s) else (Continue, g_obs s)) of (flow, o') \<Rightarrow>
        let s1 = s\<lparr>g_iters := iters, g_next := nb, g_obs := o'\<rparr> in
        if any \<and> iters < e_max_iter e \<and> flow = Continue then
          (case dilate2d (next_frontier e s) (e_dx e) (e_dy e) of
             None \<Rightarrow> None
           | Some d \<Rightarrow> Some (s1\<lparr>g_cand := (if iters mod 2 = 1 then rev (enumerate2 d) else enumerate2 d),
                 g_cursor := 0, g_workers := map (\<lambda>_. fresh_worker) (g_workers s)\<rparr>))
        else Some (s1\<lparr>g_outcome := Some (case flow of
               Stop \<Rightarrow> outcome_stopped iters (g_updates s)
             | Cancel \<Rightarrow> outcome_cancelled iters (g_updates s)
             | Continue \<Rightarrow> outcome_running iters (g_updates s) (\<not> any))\<rparr>))"

definition gs_init :: "'o gs_args \<Rightarrow> nat \<Rightarrow> cell2 list \<Rightarrow> u64 list \<Rightarrow> 'o \<Rightarrow> 'o gs_sys" where
  "gs_init e nthreads cand_list m o0 =
     \<lparr>g_mem = m, g_cand = cand_list, g_cursor = 0, g_updates = 0, g_workers = replicate nthreads fresh_worker,
      g_iters = 0, g_next = max 1 (e_interval e), g_obs = o0, g_outcome = None\<rparr>"

inductive gs_step :: "'o gs_args \<Rightarrow> 'o gs_sys \<Rightarrow> 'o gs_sys \<Rightarrow> bool" for e where
  work: "g_outcome s = None \<Longrightarrow> i < length (g_workers s) \<Longrightarrow> worker_turn (e_eval e) (g_workers s ! i) s = Some (w, s1) \<Longrightarrow>
    gs_step e s (s1\<lparr>g_workers := (g_workers s)[i := w]\<rparr>)"
| lead: "g_outcome s = None \<Longrightarrow> \<forall>w\<in>set (g_workers s). w_phase w = AtBarrier \<Longrightarrow> leader_turn e s = Some s' \<Longrightarrow> gs_step e s s'"

definition gs_reachable :: "'o gs_args \<Rightarrow> nat \<Rightarrow> cell2 list \<Rightarrow> u64 list \<Rightarrow> 'o \<Rightarrow> 'o gs_sys \<Rightarrow> bool" where
  "gs_reachable e nthreads cand_list m o0 s \<longleftrightarrow> (gs_step e)\<^sup>*\<^sup>* (gs_init e nthreads cand_list m o0) s"

inductive_cases gs_stepE: "gs_step e s s'"

section \<open>Running a program alone\<close>

primrec run_prog :: "'a prog \<Rightarrow> u64 list \<Rightarrow> 'a \<times> u64 list" where
  "run_prog (Ret x) m = (x, m)"
| "run_prog (Load a k) m = run_prog (k (m ! a)) m"
| "run_prog (Store a v p) m = run_prog p (m[a := v])"

text \<open>The addresses a program may load and store, and that a program that stores says so.\<close>

primrec touches :: "(nat \<Rightarrow> bool) \<Rightarrow> (nat \<Rightarrow> bool) \<Rightarrow> 'a prog \<Rightarrow> bool" where
  "touches R W (Ret x) = True"
| "touches R W (Load a k) = (R a \<and> (\<forall>v. touches R W (k v)))"
| "touches R W (Store a v p) = (W a \<and> touches R W p)"

primrec honest :: "bool \<Rightarrow> (bool \<times> 'b) prog \<Rightarrow> bool" where
  "honest b (Ret r) = (b \<longrightarrow> fst r)"
| "honest b (Load a k) = (\<forall>v. honest b (k v))"
| "honest b (Store a v p) = honest True p"

text \<open>The longest run of a program; a load has \<open>2 ^ 64\<close> continuations.\<close>

primrec depth :: "'a prog \<Rightarrow> nat" where
  "depth (Ret x) = 0"
| "depth (Load a k) = Suc (Max (range (\<lambda>v. depth (k v))))"
| "depth (Store a v p) = Suc (depth p)"

lemma depth_load: "depth (k v) < depth (Load a k)"
  by (simp add: less_Suc_eq_le Max_ge)

section \<open>Every schedule ends\<close>

text \<open>The atomic actions left in a round.\<close>

definition col_weight :: "eval_prog \<Rightarrow> cell2 \<Rightarrow> nat" where
  "col_weight ev c = depth (ev c) + 1"

definition worker_weight :: "eval_prog \<Rightarrow> gs_worker \<Rightarrow> nat" where
  "worker_weight ev w =
     (case w_phase w of AtBarrier \<Rightarrow> 0 | Claim \<Rightarrow> 1 | Run cs p \<Rightarrow> depth p + sum_list (map (col_weight ev) (tl cs)) + 2)"

definition open_weight :: "eval_prog \<Rightarrow> 'o gs_sys \<Rightarrow> nat" where
  "open_weight ev s = sum_list (map (\<lambda>c. col_weight ev c + 1) (drop (g_cursor s) (g_cand s)))"

lemma sum_list_replace:
  fixes f :: "'a \<Rightarrow> nat"
  shows "i < length xs \<Longrightarrow> sum_list (map f (xs[i := y])) + f (xs ! i) = sum_list (map f xs) + f y"
proof (induction xs arbitrary: i)
  case (Cons x xs)
  then show ?case by (cases i) auto
qed simp

lemma claim_weight:
  assumes "claim_turn ev w s = (w', s1)" "w_phase w = Claim"
  shows "worker_weight ev w' + open_weight ev s1 < worker_weight ev w + open_weight ev s"
proof (cases "length (g_cand s) \<le> g_cursor s")
  case True
  then show ?thesis using assms by (auto simp: claim_turn_def Let_def worker_weight_def open_weight_def)
next
  case False
  let ?rest = "drop (g_cursor s) (g_cand s)"
  obtain c cs where blk: "take gs_block ?rest = c # cs" using False by (cases ?rest) (auto simp: gs_block_def)
  have split: "?rest = (c # cs) @ drop (g_cursor s + gs_block) (g_cand s)"
    using append_take_drop_id [of gs_block ?rest] blk by (simp add: add.commute)
  have le: "sum_list (map (col_weight ev) cs) \<le> sum_list (map (\<lambda>c. col_weight ev c + 1) cs)"
    by (rule sum_list_mono) simp
  have w': "w' = w\<lparr>w_phase := Run (c # cs) (ev c)\<rparr>" "s1 = s\<lparr>g_cursor := g_cursor s + gs_block\<rparr>"
    using assms(1) False blk by (simp_all add: claim_turn_def Let_def)
  have "open_weight ev s = col_weight ev c + 1 + sum_list (map (\<lambda>c. col_weight ev c + 1) cs) + open_weight ev s1"
    unfolding open_weight_def split w'(2) by simp
  moreover have "worker_weight ev w' = depth (ev c) + sum_list (map (col_weight ev) cs) + 2" by (simp add: worker_weight_def w')
  moreover have "worker_weight ev w = 1" using assms(2) by (simp add: worker_weight_def)
  ultimately show ?thesis using le by (simp add: col_weight_def)
qed

lemma return_weight: "worker_weight ev (return_turn ev cs r w) < worker_weight ev (w\<lparr>w_phase := Run cs (Ret r)\<rparr>)"
proof (cases "tl cs")
  case (Cons c ds)
  then show ?thesis by (simp add: worker_weight_def return_turn_def col_weight_def split: prod.split)
qed (simp add: worker_weight_def return_turn_def split: prod.split)

lemma worker_turn_weight:
  assumes "worker_turn ev w s = Some (w', s1)"
  shows "worker_weight ev w' + open_weight ev s1 < worker_weight ev w + open_weight ev s"
proof (cases "w_phase w")
  case Claim
  then show ?thesis using assms claim_weight [of ev w s] by (simp add: worker_turn_def)
next
  case (Run cs p)
  have w: "w\<lparr>w_phase := Run cs p\<rparr> = w" using Run by simp
  show ?thesis
  proof (cases p)
    case (Ret r)
    then have "w' = return_turn ev cs r w" "s1 = s" using assms Run by (simp_all add: worker_turn_def)
    then show ?thesis using return_weight [of ev cs r w] w Ret by simp
  next
    case (Load a k)
    then show ?thesis using assms Run depth_load [of k "g_mem s ! a" a] by (auto simp: worker_turn_def worker_weight_def)
  next
    case (Store a v q)
    then show ?thesis using assms Run by (auto simp: worker_turn_def worker_weight_def open_weight_def)
  qed
next
  case AtBarrier
  then show ?thesis using assms by (simp add: worker_turn_def)
qed

lemma worker_turn_frame:
  assumes "worker_turn ev w s = Some (w', s1)"
  shows "g_iters s1 = g_iters s" "g_outcome s1 = g_outcome s" "g_cand s1 = g_cand s" "g_workers s1 = g_workers s"
  using assms by (auto simp: worker_turn_def claim_turn_def Let_def split: gs_phase.splits prog.splits if_splits)

definition rounds_left :: "'o gs_args \<Rightarrow> 'o gs_sys \<Rightarrow> nat" where
  "rounds_left e s = (if g_outcome s = None then Suc (e_max_iter e - g_iters s) else 0)"

definition round_weight :: "'o gs_args \<Rightarrow> 'o gs_sys \<Rightarrow> nat" where
  "round_weight e s = sum_list (map (worker_weight (e_eval e)) (g_workers s)) + open_weight (e_eval e) s"

lemma leader_turn_cases:
  assumes "leader_turn e s = Some s'"
  obtains (more) d where "dilate2d (next_frontier e s) (e_dx e) (e_dy e) = Some d" "all_changed s \<noteq> []"
      "g_iters s + 1 < e_max_iter e" "g_iters s' = g_iters s + 1" "g_mem s' = g_mem s" "g_cursor s' = 0"
      "g_cand s' = (if (g_iters s + 1) mod 2 = 1 then rev (enumerate2 d) else enumerate2 d)"
      "g_workers s' = map (\<lambda>_. fresh_worker) (g_workers s)" "g_outcome s' = g_outcome s"
  | (finish) out where "g_outcome s' = Some out" "o_converged out \<longrightarrow> all_changed s = [] \<and> \<not> o_cancelled out" "o_iters out = g_iters s + 1"
      "g_mem s' = g_mem s" "g_iters s' = g_iters s + 1"
proof -
  define any iters where "any = (all_changed s \<noteq> [])" and "iters = g_iters s + 1"
  define due where "due = (any \<and> iters < e_max_iter e \<and> g_next s \<le> iters)"
  obtain flow o' where fl: "(if due then e_boundary e iters (g_updates s) (g_mem s) (g_obs s) else (Continue, g_obs s)) = (flow, o')"
    by (rule prod.exhaust)
  note eq = assms [unfolded leader_turn_def Let_def, folded any_def iters_def, folded due_def, unfolded fl prod.case]
  show thesis
  proof (cases "any \<and> iters < e_max_iter e \<and> flow = Continue")
    case True
    then obtain d where d: "dilate2d (next_frontier e s) (e_dx e) (e_dy e) = Some d"
      using eq by (cases "dilate2d (next_frontier e s) (e_dx e) (e_dy e)") auto
    show thesis by (rule more [OF d]) (use True eq d in \<open>auto simp: any_def iters_def\<close>)
  next
    case False
    then show thesis using eq finish
      by (cases flow) (auto simp: any_def iters_def outcome_stopped_def outcome_cancelled_def outcome_running_def split: if_splits)
  qed
qed

lemma gs_step_measure:
  assumes "gs_step e s s'"
  shows "(s', s) \<in> measures [rounds_left e, round_weight e]"
  using assms
proof cases
  case (work i w s1)
  note fr = worker_turn_frame [OF work(4)]
  have "round_weight e s' < round_weight e s"
    using worker_turn_weight [OF work(4)] sum_list_replace [OF work(3), of "worker_weight (e_eval e)" w]
    unfolding round_weight_def work(1) by (simp add: open_weight_def)
  then show ?thesis using fr work(1) by (simp add: rounds_left_def)
next
  case lead
  from lead(3) show ?thesis
  proof (cases rule: leader_turn_cases)
    case (more d)
    then have "rounds_left e s' < rounds_left e s" using lead(1) by (simp add: rounds_left_def diff_less_mono2)
    then show ?thesis by simp
  next
    case (finish out)
    then show ?thesis using lead(1) by (simp add: rounds_left_def)
  qed
qed

lemma gs_step_wf: "wf {(s', s). gs_step e s s'}"
  by (rule wf_subset [OF wf_measures [of "[rounds_left e, round_weight e]"]]) (use gs_step_measure in blast)

text \<open>No schedule gets stuck before the outcome is set.\<close>

lemma worker_turn_enabled: "w_phase w \<noteq> AtBarrier \<Longrightarrow> \<exists>w' s1. worker_turn ev w s = Some (w', s1)"
  by (auto simp: worker_turn_def split: gs_phase.split prog.split)

lemma leader_turn_enabled: "e_dx e < 64 \<Longrightarrow> \<exists>s'. leader_turn e s = Some s'"
  by (auto simp: leader_turn_def Let_def dilate2d_def dilate2d_into_def split: prod.split option.split if_splits)

lemma gs_progress:
  assumes "e_dx e < 64" "g_outcome s = None"
  shows "\<exists>s'. gs_step e s s'"
proof (cases "\<forall>w\<in>set (g_workers s). w_phase w = AtBarrier")
  case True
  then show ?thesis using leader_turn_enabled [OF assms(1), of s] gs_step.lead [OF assms(2)] by blast
next
  case False
  then obtain i where i: "i < length (g_workers s)" "w_phase (g_workers s ! i) \<noteq> AtBarrier" by (auto simp: in_set_conv_nth)
  then show ?thesis using worker_turn_enabled [OF i(2)] gs_step.work [OF assms(2) i(1)] by blast
qed

lemma gs_outcome_reached:
  assumes "e_dx e < 64"
  shows "\<exists>s'. (gs_step e)\<^sup>*\<^sup>* s s' \<and> g_outcome s' \<noteq> None"
proof (induction s rule: wf_induct_rule [OF gs_step_wf [of e]])
  case (1 s)
  show ?case
  proof (cases "g_outcome s = None")
    case True
    then obtain s1 where s1: "gs_step e s s1" using gs_progress [OF assms] by blast
    then obtain s' where "(gs_step e)\<^sup>*\<^sup>* s1 s'" "g_outcome s' \<noteq> None" using 1 by blast
    then show ?thesis using s1 by (meson converse_rtranclp_into_rtranclp)
  qed blast
qed

lemma gs_iters_bound:
  assumes "gs_reachable e n cand_list m o0 s"
  shows "(g_outcome s = None \<longrightarrow> g_iters s < max 1 (e_max_iter e)) \<and> 
    (\<forall>out. g_outcome s = Some out \<longrightarrow> o_iters out \<le> max 1 (e_max_iter e) \<and> (o_converged out \<longrightarrow> \<not> o_cancelled out))"
  using assms unfolding gs_reachable_def
proof (induction rule: rtranclp_induct)
  case base
  show ?case by (simp add: gs_init_def)
next
  case (step y z)
  from step(2) show ?case
  proof cases
    case (work i w s1)
    then show ?thesis using step(3) worker_turn_frame [OF work(4)] by simp
  next
    case lead
    from lead(3) show ?thesis by (cases rule: leader_turn_cases) (use lead(1) step(3) in auto)
  qed
qed

section \<open>One round under any interleaving\<close>

text \<open>The columns a thread has claimed and not finished; the first one is being evaluated.\<close>

definition pending :: "gs_worker \<Rightarrow> cell2 list" where
  "pending w = (case w_phase w of Run cs p \<Rightarrow> cs | _ \<Rightarrow> [])"

text \<open>\<open>D\<close> are the columns that have stored in this round. A column is clean when no column of \<open>D\<close> owns an
  address it may load; then it sees the cells as they were at the start of the round.\<close>

definition clean :: "(cell2 \<Rightarrow> nat \<Rightarrow> bool) \<Rightarrow> (cell2 \<Rightarrow> nat \<Rightarrow> bool) \<Rightarrow> cell2 set \<Rightarrow> cell2 \<Rightarrow> bool" where
  "clean near own D c \<longleftrightarrow> (\<forall>d\<in>D. \<forall>a. own d a \<longrightarrow> \<not> near c a)"

definition quiet :: "eval_prog \<Rightarrow> u64 list \<Rightarrow> cell2 \<Rightarrow> bool" where
  "quiet ev m c \<longleftrightarrow> \<not> fst (fst (run_prog (ev c) m))"

definition run_inv ::
  "eval_prog \<Rightarrow> (cell2 \<Rightarrow> nat \<Rightarrow> bool) \<Rightarrow> (cell2 \<Rightarrow> nat \<Rightarrow> bool) \<Rightarrow> u64 list \<Rightarrow> cell2 set \<Rightarrow> cell2 list \<Rightarrow> (bool \<times> u64) prog \<Rightarrow> bool" where
  "run_inv ev near own m0 D cs p \<longleftrightarrow> cs \<noteq> [] \<and> touches (near (hd cs)) (own (hd cs)) p \<and> honest (hd cs \<in> D) p \<and>
     (clean near own D (hd cs) \<longrightarrow> run_prog p m0 = run_prog (ev (hd cs)) m0)"

definition worker_inv ::
  "eval_prog \<Rightarrow> (cell2 \<Rightarrow> nat \<Rightarrow> bool) \<Rightarrow> (cell2 \<Rightarrow> nat \<Rightarrow> bool) \<Rightarrow> u64 list \<Rightarrow> cell2 set \<Rightarrow> cell2 list \<Rightarrow> nat \<Rightarrow> gs_worker \<Rightarrow> bool" where
  "worker_inv ev near own m0 D cand cur w \<longleftrightarrow>
     distinct (pending w) \<and> set (pending w) \<subseteq> set (take cur cand) \<and> D \<inter> set (tl (pending w)) = {} \<and>
     set (w_changed w) \<subseteq> set (take cur cand) \<and> (w_phase w = AtBarrier \<longrightarrow> length cand \<le> cur) \<and>
     (\<forall>cs p. w_phase w = Run cs p \<longrightarrow> run_inv ev near own m0 D cs p)"

definition claimed_inv ::
  "eval_prog \<Rightarrow> (cell2 \<Rightarrow> nat \<Rightarrow> bool) \<Rightarrow> (cell2 \<Rightarrow> nat \<Rightarrow> bool) \<Rightarrow> u64 list \<Rightarrow> cell2 set \<Rightarrow> gs_worker list \<Rightarrow> cell2 \<Rightarrow> bool" where
  "claimed_inv ev near own m0 D ws c \<longleftrightarrow>
     (\<exists>w\<in>set ws. c \<in> set (pending w)) \<or> (\<exists>w\<in>set ws. c \<in> set (w_changed w)) \<or> c \<notin> D \<and> (clean near own D c \<longrightarrow> quiet ev m0 c)"

definition disjoint_pending :: "gs_worker list \<Rightarrow> bool" where
  "disjoint_pending ws \<longleftrightarrow> (\<forall>i<length ws. \<forall>j<length ws. i \<noteq> j \<longrightarrow> set (pending (ws ! i)) \<inter> set (pending (ws ! j)) = {})"

definition round_inv ::
  "eval_prog \<Rightarrow> (cell2 \<Rightarrow> nat \<Rightarrow> bool) \<Rightarrow> (cell2 \<Rightarrow> nat \<Rightarrow> bool) \<Rightarrow> u64 list \<Rightarrow> cell2 set \<Rightarrow> u64 list \<Rightarrow> cell2 list \<Rightarrow> nat \<Rightarrow> gs_worker list \<Rightarrow> bool" where
  "round_inv ev near own m0 D m cand cur ws \<longleftrightarrow>
     length m = length m0 \<and> (\<forall>a. m ! a \<noteq> m0 ! a \<longrightarrow> (\<exists>d\<in>D. own d a)) \<and> distinct cand \<and> D \<subseteq> set (take cur cand) \<and>
     disjoint_pending ws \<and> (\<forall>w\<in>set ws. worker_inv ev near own m0 D cand cur w) \<and>
     (\<forall>c\<in>set (take cur cand). claimed_inv ev near own m0 D ws c)"

lemma round_inv_move:
  assumes "round_inv ev near own m0 D m cand cur ws" "disjoint_pending ws'" "D \<subseteq> set (take cur' cand)"
    "\<And>w. w \<in> set ws' \<Longrightarrow> worker_inv ev near own m0 D cand cur' w"
    "\<And>c. c \<in> set (take cur' cand) \<Longrightarrow> claimed_inv ev near own m0 D ws' c"
  shows "round_inv ev near own m0 D m cand cur' ws'"
  using assms by (simp add: round_inv_def)

lemma set_replace: "i < length xs \<Longrightarrow> set (xs[i := y]) \<subseteq> insert y (set xs)"
  by (rule set_update_subset_insert)

lemma disjoint_pending_replace:
  assumes "disjoint_pending ws" "i < length ws" "\<And>w. w \<in> set ws \<Longrightarrow> set (pending w') \<inter> set (pending w) \<subseteq> set (pending (ws ! i)) \<inter> set (pending w)"
  shows "disjoint_pending (ws[i := w'])"
  unfolding disjoint_pending_def
proof (intro allI impI)
  fix j k assume jk: "j < length (ws[i := w'])" "k < length (ws[i := w'])" "j \<noteq> k"
  have a: "set (pending (ws ! i)) \<inter> set (pending (ws ! k)) = {}" if "k < length ws" "i \<noteq> k" for k
    using assms(1,2) that by (auto simp: disjoint_pending_def)
  have b: "set (pending w') \<inter> set (pending (ws ! k)) = {}" if "k < length ws" "i \<noteq> k" for k
    using a [OF that] assms(3) [OF nth_mem [OF that(1)]] by blast
  show "set (pending (ws[i := w'] ! j)) \<inter> set (pending (ws[i := w'] ! k)) = {}"
    using jk b [of j] b [of k] assms(1,2) by (cases "i = j"; cases "i = k") (simp_all add: disjoint_pending_def Int_commute)
qed

lemma claimed_replace:
  assumes "claimed_inv ev near own m0 D ws c" "i < length ws"
    and "set (w_changed (ws ! i)) \<subseteq> set (w_changed w')"
    and "c \<in> set (pending (ws ! i)) \<Longrightarrow> c \<in> set (pending w') \<or> c \<in> set (w_changed w') \<or> c \<notin> D \<and> (clean near own D c \<longrightarrow> quiet ev m0 c)"
  shows "claimed_inv ev near own m0 D (ws[i := w']) c"
proof -
  have old: "w \<in> set (ws[i := w']) \<or> w = ws ! i" if "w \<in> set ws" for w
    using that by (metis in_set_conv_nth length_list_update nth_list_update_neq)
  have new: "w' \<in> set (ws[i := w'])" using assms(2) by (rule set_update_memI)
  from assms(1) consider w where "w \<in> set ws" "c \<in> set (pending w)" | w where "w \<in> set ws" "c \<in> set (w_changed w)"
    | "c \<notin> D \<and> (clean near own D c \<longrightarrow> quiet ev m0 c)" by (auto simp: claimed_inv_def)
  then show ?thesis
  proof cases
    case 1
    then show ?thesis using old [OF 1(1)] new assms(4) unfolding claimed_inv_def by blast
  next
    case 2
    then show ?thesis using old [OF 2(1)] new assms(3) unfolding claimed_inv_def by blast
  next
    case 3
    then show ?thesis unfolding claimed_inv_def by blast
  qed
qed

text \<open>Replacing a thread by its next state, with the set of stores and the cursor unchanged.\<close>

lemma round_inv_replace:
  assumes inv: "round_inv ev near own m0 D m cand cur ws" and i: "i < length ws"
    and w': "worker_inv ev near own m0 D cand cur w'"
    and p: "set (pending w') \<subseteq> set (pending (ws ! i))" and ch: "set (w_changed (ws ! i)) \<subseteq> set (w_changed w')"
    and fin: "\<And>c. c \<in> set (pending (ws ! i)) \<Longrightarrow> c \<notin> set (pending w') \<Longrightarrow> c \<notin> set (w_changed w') \<Longrightarrow>
        c \<notin> D \<and> (clean near own D c \<longrightarrow> quiet ev m0 c)"
  shows "round_inv ev near own m0 D m cand cur (ws[i := w'])"
proof -
  have "disjoint_pending (ws[i := w'])"
    by (rule disjoint_pending_replace [OF _ i]) (use inv p in \<open>auto simp: round_inv_def\<close>)
  moreover have "claimed_inv ev near own m0 D (ws[i := w']) c" if "c \<in> set (take cur cand)" for c
  proof (rule claimed_replace [OF _ i ch])
    show "claimed_inv ev near own m0 D ws c" using inv that unfolding round_inv_def by blast
  qed (use fin [of c] in blast)
  moreover have "\<forall>w\<in>set (ws[i := w']). worker_inv ev near own m0 D cand cur w"
    using inv w' set_replace [OF i, of w'] by (auto simp: round_inv_def)
  ultimately show ?thesis using inv by (simp add: round_inv_def)
qed

text \<open>A load sees the value of the start of the round, if the column is clean.\<close>

lemma run_inv_load:
  assumes "run_inv ev near own m0 D cs (Load a k)" "\<forall>a. m ! a \<noteq> m0 ! a \<longrightarrow> (\<exists>d\<in>D. own d a)"
  shows "run_inv ev near own m0 D cs (k (m ! a))"
proof -
  have "m ! a = m0 ! a" if "clean near own D (hd cs)" using that assms unfolding run_inv_def clean_def by auto
  then show ?thesis using assms(1) unfolding run_inv_def by simp
qed

lemma round_inv_load:
  assumes inv: "round_inv ev near own m0 D m cand cur ws" and i: "i < length ws" and ph: "w_phase (ws ! i) = Run cs (Load a k)"
  shows "round_inv ev near own m0 D m cand cur (ws[i := (ws ! i)\<lparr>w_phase := Run cs (k (m ! a))\<rparr>])"
proof (rule round_inv_replace [OF inv i])
  have w: "worker_inv ev near own m0 D cand cur (ws ! i)" using inv i by (simp add: round_inv_def)
  have "run_inv ev near own m0 D cs (k (m ! a))"
    by (rule run_inv_load) (use inv w ph in \<open>auto simp: round_inv_def worker_inv_def\<close>)
  then show "worker_inv ev near own m0 D cand cur ((ws ! i)\<lparr>w_phase := Run cs (k (m ! a))\<rparr>)"
    using w ph by (simp add: worker_inv_def pending_def)
qed (use ph in \<open>auto simp: pending_def\<close>)

text \<open>A column that reports no change has not stored, and is quiet if it is clean.\<close>

lemma round_inv_return:
  assumes inv: "round_inv ev near own m0 D m cand cur ws" and i: "i < length ws" and ph: "w_phase (ws ! i) = Run cs (Ret r)"
    and ev: "\<And>c. c \<in> set cand \<Longrightarrow> touches (near c) (own c) (ev c) \<and> honest False (ev c)"
  shows "round_inv ev near own m0 D m cand cur (ws[i := return_turn ev cs r (ws ! i)])"
proof (rule round_inv_replace [OF inv i])
  let ?w = "ws ! i"
  let ?w' = "return_turn ev cs r ?w"
  have w: "worker_inv ev near own m0 D cand cur ?w" using inv i by (simp add: round_inv_def)
  have run: "run_inv ev near own m0 D cs (Ret r)" using w ph by (simp add: worker_inv_def)
  then obtain c ds where cs: "cs = c # ds" by (cases cs) (simp_all add: run_inv_def)
  have pend: "pending ?w = c # ds" using ph cs by (simp add: pending_def)
  have pend': "pending ?w' = ds" by (simp add: pending_def return_turn_def cs split: prod.split)
  have ch: "w_changed ?w' = (if fst r then w_changed ?w @ [c] else w_changed ?w)" by (simp add: return_turn_def cs split: prod.split)
  have take: "set (take cur cand) \<subseteq> set cand" by (rule set_take_subset)
  have next': "run_inv ev near own m0 D es p" if "w_phase ?w' = Run es p" for es p
  proof -
    from that have "ds \<noteq> []" "es = ds" "p = ev (hd ds)" by (auto simp: return_turn_def cs split: prod.splits if_splits)
    moreover from this have "hd ds \<in> set ds" by simp
    moreover have "set ds \<subseteq> set cand" "D \<inter> set ds = {}" using w take unfolding worker_inv_def pend by auto
    ultimately have "hd ds \<in> set cand" "hd ds \<notin> D" "ds \<noteq> []" "es = ds" "p = ev (hd ds)" by blast+
    then show ?thesis using ev [of "hd ds"] by (simp add: run_inv_def)
  qed
  show "worker_inv ev near own m0 D cand cur ?w'"
  proof -
    have "D \<inter> set (tl ds) = {}" using w unfolding worker_inv_def pend by (cases ds) auto
    moreover have "w_phase ?w' \<noteq> AtBarrier" by (simp add: return_turn_def split: prod.split)
    ultimately show ?thesis using w next' unfolding worker_inv_def pend pend' ch by auto
  qed
  show "set (pending ?w') \<subseteq> set (pending ?w)" "set (w_changed ?w) \<subseteq> set (w_changed ?w')" unfolding pend pend' ch by auto
  fix c' assume "c' \<in> set (pending ?w)" "c' \<notin> set (pending ?w')" "c' \<notin> set (w_changed ?w')"
  then have "c' = c" "\<not> fst r" unfolding pend pend' ch by (auto split: if_splits)
  moreover have "run_prog (ev c) m0 = (r, m0)" if "clean near own D c" using run that by (simp add: run_inv_def cs)
  ultimately show "c' \<notin> D \<and> (clean near own D c' \<longrightarrow> quiet ev m0 c')" using run by (auto simp: run_inv_def cs quiet_def)
qed

text \<open>A store adds the column to \<open>D\<close>.\<close>

lemma clean_mono: "clean near own (insert d D) c \<Longrightarrow> clean near own D c"
  by (simp add: clean_def)

lemma worker_inv_insert:
  assumes "worker_inv ev near own m0 D cand cur w" "d \<notin> set (pending w)"
  shows "worker_inv ev near own m0 (insert d D) cand cur w"
proof -
  have "run_inv ev near own m0 (insert d D) cs p" if "w_phase w = Run cs p" for cs p
  proof -
    have r: "run_inv ev near own m0 D cs p" using assms(1) that by (simp add: worker_inv_def)
    then have "hd cs \<in> set (pending w)" using that by (simp add: pending_def run_inv_def)
    then have "hd cs \<noteq> d" using assms(2) by auto
    then show ?thesis using r clean_mono [of near own d D "hd cs"] by (simp add: run_inv_def)
  qed
  moreover have "d \<notin> set (tl (pending w))" using assms(2) by (cases "pending w") auto
  ultimately show ?thesis using assms(1) by (simp add: worker_inv_def)
qed

lemma round_inv_store:
  assumes inv: "round_inv ev near own m0 D m cand cur ws" and i: "i < length ws" and ph: "w_phase (ws ! i) = Run cs (Store a v q)"
    and own: "\<And>c a. own c a \<Longrightarrow> near c a"
  shows "round_inv ev near own m0 (insert (hd cs) D) (m[a := v]) cand cur (ws[i := (ws ! i)\<lparr>w_phase := Run cs q\<rparr>])"
proof -
  let ?c = "hd cs" and ?w = "ws ! i"
  let ?D = "insert ?c D" and ?w' = "?w\<lparr>w_phase := Run cs q\<rparr>"
  have w: "worker_inv ev near own m0 D cand cur ?w" using inv i by (simp add: round_inv_def)
  have run: "run_inv ev near own m0 D cs (Store a v q)" using w ph by (simp add: worker_inv_def)
  then have oa: "own ?c a" and cs: "cs \<noteq> []" by (simp_all add: run_inv_def)
  have pend: "pending ?w = cs" "pending ?w' = cs" using ph by (simp_all add: pending_def)
  have cp: "?c \<in> set (pending ?w)" using cs pend by simp
  have dirty: "\<not> clean near own ?D ?c" using oa own [OF oa] by (auto simp: clean_def)
  have others: "?c \<notin> set (pending (ws ! j))" if "j < length ws" "j \<noteq> i" for j
  proof -
    have "set (pending ?w) \<inter> set (pending (ws ! j)) = {}" using inv i that by (simp add: round_inv_def disjoint_pending_def)
    then show ?thesis using cp by blast
  qed
  have mem: "length (m[a := v]) = length m0" "\<forall>b. m[a := v] ! b \<noteq> m0 ! b \<longrightarrow> (\<exists>d\<in>?D. own d b)"
  proof -
    show "length (m[a := v]) = length m0" using inv by (simp add: round_inv_def)
    have "\<exists>d\<in>?D. own d b" if "m[a := v] ! b \<noteq> m0 ! b" for b
      using that inv oa by (cases "a = b") (auto simp: round_inv_def)
    then show "\<forall>b. m[a := v] ! b \<noteq> m0 ! b \<longrightarrow> (\<exists>d\<in>?D. own d b)" by blast
  qed
  have w': "worker_inv ev near own m0 ?D cand cur ?w'"
  proof -
    have "?c \<notin> set (tl cs)" using w cs unfolding worker_inv_def pend by (cases cs) auto
    moreover have "run_inv ev near own m0 ?D cs q" using run dirty by (simp add: run_inv_def)
    ultimately show ?thesis using w unfolding worker_inv_def pend by simp
  qed
  have ws: "\<forall>w\<in>set (ws[i := ?w']). worker_inv ev near own m0 ?D cand cur w"
  proof
    fix w assume "w \<in> set (ws[i := ?w'])"
    then obtain j where j: "j < length ws" "w = ws[i := ?w'] ! j" by (auto simp: in_set_conv_nth)
    show "worker_inv ev near own m0 ?D cand cur w"
      using j w' inv worker_inv_insert [OF _ others [OF j(1)]] by (cases "j = i") (auto simp: round_inv_def)
  qed
  have cl: "claimed_inv ev near own m0 ?D (ws[i := ?w']) c" if c: "c \<in> set (take cur cand)" for c
  proof -
    have "claimed_inv ev near own m0 D ws c" using inv c unfolding round_inv_def by blast
    then have "claimed_inv ev near own m0 ?D ws c"
    proof (cases "c = ?c")
      case True
      then show ?thesis unfolding claimed_inv_def using cp nth_mem [OF i] by blast
    next
      case False
      then show "claimed_inv ev near own m0 D ws c \<Longrightarrow> ?thesis" unfolding claimed_inv_def using clean_mono [of near own ?c D c] by blast
    qed
    then show ?thesis by (rule claimed_replace [OF _ i]) (simp_all add: pend)
  qed
  have "?c \<in> set (take cur cand)" using w cp by (auto simp: worker_inv_def)
  moreover have "disjoint_pending (ws[i := ?w'])"
    by (rule disjoint_pending_replace [OF _ i]) (use inv pend in \<open>auto simp: round_inv_def\<close>)
  ultimately show ?thesis using inv mem ws cl unfolding round_inv_def by blast
qed

text \<open>Claims: the block of a claim is disjoint from everything claimed before.\<close>

lemma worker_inv_cursor:
  assumes "worker_inv ev near own m0 D cand cur w" "cur \<le> cur'"
  shows "worker_inv ev near own m0 D cand cur' w"
proof -
  have "set (take cur cand) \<subseteq> set (take cur' cand)" using assms(2) by (rule set_take_subset_set_take)
  then show ?thesis using assms unfolding worker_inv_def by auto
qed

lemma round_inv_claim_end:
  assumes inv: "round_inv ev near own m0 D m cand cur ws" and i: "i < length ws" and ph: "w_phase (ws ! i) = Claim"
    and e: "length cand \<le> cur"
  shows "round_inv ev near own m0 D m cand (cur + k) (ws[i := (ws ! i)\<lparr>w_phase := AtBarrier\<rparr>])"
proof -
  have all: "take (cur + k) cand = take cur cand" using e by simp
  have inv': "round_inv ev near own m0 D m cand (cur + k) ws"
    using inv worker_inv_cursor [of ev near own m0 D cand cur _ "cur + k"] unfolding round_inv_def all by simp
  have w: "worker_inv ev near own m0 D cand (cur + k) (ws ! i)" using inv' i by (simp add: round_inv_def)
  show ?thesis by (rule round_inv_replace [OF inv' i]) (use w ph e in \<open>auto simp: worker_inv_def pending_def\<close>)
qed

lemma round_inv_claim_block:
  assumes inv: "round_inv ev near own m0 D m cand cur ws" and i: "i < length ws" and ph: "w_phase (ws ! i) = Claim"
    and lt: "cur < length cand" and k: "0 < k"
    and ev: "\<And>c. c \<in> set cand \<Longrightarrow> touches (near c) (own c) (ev c) \<and> honest False (ev c)"
  shows "round_inv ev near own m0 D m cand (cur + k)
    (ws[i := (ws ! i)\<lparr>w_phase := Run (take k (drop cur cand)) (ev (hd (take k (drop cur cand))))\<rparr>])"
proof -
  define blk where "blk = take k (drop cur cand)"
  let ?w = "ws ! i"
  let ?w' = "?w\<lparr>w_phase := Run blk (ev (hd blk))\<rparr>"
  have ne: "blk \<noteq> []" using lt k by (simp add: blk_def)
  have take: "take (cur + k) cand = take cur cand @ blk" unfolding blk_def by (rule take_add)
  have dist: "distinct (take cur cand @ blk)" unfolding take [symmetric] using inv by (simp add: round_inv_def)
  have sub: "set blk \<subseteq> set cand" unfolding blk_def using set_take_subset set_drop_subset by (rule subset_trans)
  have w: "worker_inv ev near own m0 D cand (cur + k) ?w" 
    by (rule worker_inv_cursor [of _ _ _ _ _ _ cur]) (use inv i in \<open>simp_all add: round_inv_def\<close>)
  have pend: "pending ?w = []" "pending ?w' = blk" using ph by (simp_all add: pending_def)
  have disj: "set (take cur cand) \<inter> set blk = {}" using dist by (simp only: distinct_append)
  have pin: "set (pending v) \<subseteq> set (take cur cand)" if "v \<in> set ws" for v
    using inv that unfolding round_inv_def worker_inv_def by blast
  have freshD: "D \<inter> set blk = {}" using inv disj unfolding round_inv_def by blast
  have run: "run_inv ev near own m0 D blk (ev (hd blk))"
  proof -
    have "hd blk \<in> set blk" using ne by (rule hd_in_set)
    then have "hd blk \<in> set cand" "hd blk \<notin> D" using sub freshD by blast+
    then show ?thesis using ne ev [of "hd blk"] by (simp add: run_inv_def)
  qed
  have "D \<inter> set (tl blk) = {}" using freshD list.set_sel(2) [OF ne] by blast
  then have w': "worker_inv ev near own m0 D cand (cur + k) ?w'"
    using w run dist unfolding worker_inv_def pend take by simp
  have free: "set blk \<inter> set (pending v) = {}" if "v \<in> set ws" for v
    using pin [OF that] disj by blast
  have "disjoint_pending ws" using inv by (simp only: round_inv_def)
  then have "disjoint_pending (ws[i := ?w'])"
    by (rule disjoint_pending_replace [OF _ i]) (simp only: pend free, simp)
  moreover have "worker_inv ev near own m0 D cand (cur + k) v" if "v \<in> set ws" for v
    by (rule worker_inv_cursor [of _ _ _ _ _ _ cur]) (use inv that in \<open>simp_all add: round_inv_def\<close>)
  then have "\<forall>v\<in>set (ws[i := ?w']). worker_inv ev near own m0 D cand (cur + k) v"
    using w' set_replace [OF i, of ?w'] by blast
  moreover have "claimed_inv ev near own m0 D (ws[i := ?w']) c" if c: "c \<in> set (take (cur + k) cand)" for c
  proof (cases "c \<in> set blk")
    case True
    then show ?thesis unfolding claimed_inv_def
      by (intro disjI1 bexI [OF _ set_update_memI [OF i]]) (simp only: pend(2))
  next
    case False
    then have "c \<in> set (take cur cand)" using c unfolding take by auto
    then have "claimed_inv ev near own m0 D ws c" using inv unfolding round_inv_def by blast
    then show ?thesis by (rule claimed_replace [OF _ i]) (simp_all add: pend(1))
  qed
  moreover have "D \<subseteq> set (take (cur + k) cand)" unfolding take set_append using inv unfolding round_inv_def by blast
  ultimately show ?thesis unfolding blk_def [symmetric] by (intro round_inv_move [OF inv]) blast+
qed

text \<open>One action of a thread keeps the invariant of the round.\<close>

lemma round_inv_work:
  assumes inv: "round_inv ev near own m0 D (g_mem s) (g_cand s) (g_cursor s) (g_workers s)" and i: "i < length (g_workers s)"
    and turn: "worker_turn ev (g_workers s ! i) s = Some (w, s1)"
    and ev: "\<And>c. c \<in> set (g_cand s) \<Longrightarrow> touches (near c) (own c) (ev c) \<and> honest False (ev c)"
    and own: "\<And>c a. own c a \<Longrightarrow> near c a"
  shows "\<exists>D'. round_inv ev near own m0 D' (g_mem s1) (g_cand s1) (g_cursor s1) ((g_workers s)[i := w])"
proof (cases "w_phase (g_workers s ! i)")
  case Claim
  then have w: "(w, s1) = claim_turn ev (g_workers s ! i) s" using turn by (simp add: worker_turn_def)
  show ?thesis
  proof (cases "length (g_cand s) \<le> g_cursor s")
    case True
    then show ?thesis using w round_inv_claim_end [OF inv i Claim True, of gs_block] by (auto simp: claim_turn_def Let_def)
  next
    case False
    then show ?thesis using w round_inv_claim_block [OF inv i Claim _ _ ev, of gs_block] by (auto simp: claim_turn_def Let_def gs_block_def)
  qed
next
  case (Run cs p)
  show ?thesis
  proof (cases p)
    case (Ret r)
    then show ?thesis using turn Run round_inv_return [OF inv i _ ev] by (auto simp: worker_turn_def)
  next
    case (Load a k)
    then show ?thesis using turn Run round_inv_load [OF inv i] by (auto simp: worker_turn_def)
  next
    case (Store a v q)
    then show ?thesis using turn Run round_inv_store [OF inv i _ own] by (auto simp: worker_turn_def)
  qed
next
  case AtBarrier
  then show ?thesis using turn by (simp add: worker_turn_def)
qed

text \<open>At the first barrier: what was not reported as changed is quiet unless a reported column is in
  reach, and the cells changed only at addresses of reported columns.\<close>

lemma round_inv_barrier:
  assumes inv: "round_inv ev near own m0 D m cand cur ws" and b: "\<forall>w\<in>set ws. w_phase w = AtBarrier" and ne: "ws \<noteq> []"
  defines "C \<equiv> {c. \<exists>w\<in>set ws. c \<in> set (w_changed w)}"
  shows "C \<subseteq> set cand" "\<forall>a. m ! a \<noteq> m0 ! a \<longrightarrow> (\<exists>d\<in>C. own d a)" "\<forall>c\<in>set cand. c \<in> C \<or> (clean near own C c \<longrightarrow> quiet ev m0 c)"
proof -
  have cur: "length cand \<le> cur" using inv b ne by (cases ws) (auto simp: round_inv_def worker_inv_def)
  then have take: "take cur cand = cand" by simp
  have pend: "pending w = []" if "w \<in> set ws" for w using b that by (simp add: pending_def)
  have cl: "c \<in> C \<or> c \<notin> D \<and> (clean near own D c \<longrightarrow> quiet ev m0 c)" if "c \<in> set cand" for c
  proof -
    have "claimed_inv ev near own m0 D ws c" using inv that unfolding round_inv_def take by blast
    then show ?thesis unfolding claimed_inv_def C_def using pend by auto
  qed
  have D: "D \<subseteq> C" using cl inv unfolding round_inv_def take by blast
  then have "clean near own D c" if "clean near own C c" for c using that by (auto simp: clean_def)
  then show "\<forall>c\<in>set cand. c \<in> C \<or> (clean near own C c \<longrightarrow> quiet ev m0 c)" using cl by blast
  show "\<forall>a. m ! a \<noteq> m0 ! a \<longrightarrow> (\<exists>d\<in>C. own d a)" using inv D unfolding round_inv_def by blast
  show "C \<subseteq> set cand" using inv unfolding round_inv_def worker_inv_def take C_def by auto
qed

section \<open>The interface of an evaluation, and convergence\<close>

definition plane_cells :: "nat \<Rightarrow> nat \<Rightarrow> cell2 set" where
  "plane_cells nx ny = {c. fst c < nx \<and> snd c < ny}"

lemma fold_set2:
  assumes "wf2 b" "set ps \<subseteq> plane_cells (map_x2 b) (map_y2 b)"
  shows "wf2 (fold (\<lambda>(x, y) nf. set2 nf x y) ps b) \<and> map_x2 (fold (\<lambda>(x, y) nf. set2 nf x y) ps b) = map_x2 b \<and>
    map_y2 (fold (\<lambda>(x, y) nf. set2 nf x y) ps b) = map_y2 b \<and> cells2 (fold (\<lambda>(x, y) nf. set2 nf x y) ps b) = cells2 b \<union> set ps"
  using assms
proof (induction ps arbitrary: b)
  case (Cons p ps)
  obtain x y where p: "p = (x, y)" by (cases p)
  have xy: "x < map_x2 b" "y < map_y2 b" using Cons.prems(2) p by (simp_all add: plane_cells_def)
  then have "wf2 (set2 b x y)" "set ps \<subseteq> plane_cells (map_x2 (set2 b x y)) (map_y2 (set2 b x y))"
    using Cons.prems by (simp_all add: wf2_set)
  from Cons.IH [OF this] show ?case using cells2_set [OF Cons.prems(1) xy] by (simp add: p)
qed simp

text \<open>The invariant between steps: in a running round every column that is not a candidate was settled
  at the start of the round.\<close>

definition gs_inv ::
  "eval_prog \<Rightarrow> (cell2 \<Rightarrow> nat \<Rightarrow> bool) \<Rightarrow> (cell2 \<Rightarrow> nat \<Rightarrow> bool) \<Rightarrow> (u64 list \<Rightarrow> cell2 \<Rightarrow> bool) \<Rightarrow> cell2 set \<Rightarrow> nat \<Rightarrow> 'o gs_sys \<Rightarrow> bool" where
  "gs_inv ev near own okm P sz s \<longleftrightarrow> length (g_mem s) = sz \<and> g_workers s \<noteq> [] \<and>
     (g_outcome s = None \<longrightarrow> (\<exists>m0 D. round_inv ev near own m0 D (g_mem s) (g_cand s) (g_cursor s) (g_workers s) \<and> set (g_cand s) \<subseteq> P \<and> (\<forall>c\<in>P - set (g_cand s). okm m0 c))) \<and>
     (\<forall>out. g_outcome s = Some out \<and> o_converged out \<longrightarrow> (\<forall>c\<in>P. okm (g_mem s) c))"

lemma round_inv_start:
  assumes "distinct cand" "\<forall>w\<in>set ws. w = fresh_worker"
  shows "round_inv ev near own m {} m cand 0 ws"
proof -
  have nth: "ws ! i = fresh_worker" if "i < length ws" for i using assms(2) that by simp
  have "disjoint_pending ws" unfolding disjoint_pending_def by (simp add: nth) (simp add: pending_def fresh_worker_def)
  moreover have "worker_inv ev near own m {} cand 0 fresh_worker" by (simp add: worker_inv_def pending_def fresh_worker_def)
  then have "\<forall>w\<in>set ws. worker_inv ev near own m {} cand 0 w" using assms(2) by (metis (no_types))
  ultimately show ?thesis using assms(1) by (simp add: round_inv_def)
qed

text \<open>What the engine needs to know of an evaluation. \<open>near c\<close> are the addresses column \<open>c\<close> may load and
  \<open>own c\<close> the ones it may store; \<open>ok\<close> says that a column is settled. The columns that load an address
  of another one lie within the dilation.\<close>

lemma leader_workers: "leader_turn e s = Some s' \<Longrightarrow> length (g_workers s') = length (g_workers s)"
  by (auto simp: leader_turn_def Let_def split: prod.splits option.splits if_splits)

locale async_model =
  fixes good :: "'e \<Rightarrow> bool" and ev :: "'e \<Rightarrow> eval_prog" and nx ny dx dy sz :: "'e \<Rightarrow> nat"
    and near own :: "'e \<Rightarrow> cell2 \<Rightarrow> nat \<Rightarrow> bool" and ok :: "'e \<Rightarrow> u64 list \<Rightarrow> cell2 \<Rightarrow> bool"
  assumes dims: "good e \<Longrightarrow> 0 < nx e \<and> dx e < 64"
    and touch: "good e \<Longrightarrow> c \<in> plane_cells (nx e) (ny e) \<Longrightarrow> touches (near e c) (own e c) (ev e c)"
    and reports: "good e \<Longrightarrow> honest False (ev e c)"
    and own_near: "own e c a \<Longrightarrow> near e c a"
    and box: "good e \<Longrightarrow> c \<in> plane_cells (nx e) (ny e) \<Longrightarrow> d \<in> plane_cells (nx e) (ny e) \<Longrightarrow> own e d a \<Longrightarrow> near e c a \<Longrightarrow>
      fst d \<le> fst c + dx e \<and> fst c \<le> fst d + dx e \<and> snd d \<le> snd c + dy e \<and> snd c \<le> snd d + dy e"
    and quiet_ok: "good e \<Longrightarrow> c \<in> plane_cells (nx e) (ny e) \<Longrightarrow> length m = sz e \<Longrightarrow> quiet (ev e) m c \<Longrightarrow> ok e m c"
    and ok_local: "good e \<Longrightarrow> c \<in> plane_cells (nx e) (ny e) \<Longrightarrow> length m = length m' \<Longrightarrow> (\<And>a. near e c a \<Longrightarrow> m ! a = m' ! a) \<Longrightarrow>
      ok e m c \<Longrightarrow> ok e m' c"
begin

abbreviation inv :: "'e \<Rightarrow> 'o gs_sys \<Rightarrow> bool" where
  "inv e \<equiv> gs_inv (ev e) (near e) (own e) (ok e) (plane_cells (nx e) (ny e)) (sz e)"

definition args_of :: "'e \<Rightarrow> 'o gs_args \<Rightarrow> bool" where
  "args_of e a \<longleftrightarrow> e_nx a = nx e \<and> e_ny a = ny e \<and> e_dx a = dx e \<and> e_dy a = dy e \<and> e_eval a = ev e"

lemma ev_ok:
  assumes "good e" "set cand \<subseteq> plane_cells (nx e) (ny e)" "c \<in> set cand"
  shows "touches (near e c) (own e c) (ev e c) \<and> honest False (ev e c)"
proof -
  have "c \<in> plane_cells (nx e) (ny e)" using assms(2,3) by blast
  then show ?thesis using touch [OF assms(1)] reports [OF assms(1)] by blast
qed

lemma work_inv:
  assumes g: "good e" and inv: "inv e s" and o: "g_outcome s = None" and i: "i < length (g_workers s)"
    and turn: "worker_turn (ev e) (g_workers s ! i) s = Some (w, s1)"
  shows "inv e (s1\<lparr>g_workers := (g_workers s)[i := w]\<rparr>)"
proof -
  let ?P = "plane_cells (nx e) (ny e)"
  from inv obtain m0 D where r: "round_inv (ev e) (near e) (own e) m0 D (g_mem s) (g_cand s) (g_cursor s) (g_workers s)"
    and c: "set (g_cand s) \<subseteq> ?P" "\<forall>c\<in>?P - set (g_cand s). ok e m0 c" using o unfolding gs_inv_def by blast
  from round_inv_work [OF r i turn ev_ok [OF g c(1)] own_near]
  obtain D' where r': "round_inv (ev e) (near e) (own e) m0 D' (g_mem s1) (g_cand s1) (g_cursor s1) ((g_workers s)[i := w])" by blast
  have "length (g_mem s1) = sz e" using r r' inv by (simp add: round_inv_def gs_inv_def)
  then show ?thesis using r' c i worker_turn_frame [OF turn] o unfolding gs_inv_def by auto
qed

text \<open>What the first barrier gives for the columns of the plane.\<close>

lemma barrier:
  assumes g: "good e" and inv: "inv e s" and o: "g_outcome s = None" and b: "\<forall>w\<in>set (g_workers s). w_phase w = AtBarrier"
  shows "set (all_changed s) \<subseteq> plane_cells (nx e) (ny e)"
    and "c \<in> plane_cells (nx e) (ny e) \<Longrightarrow> c \<notin> set (all_changed s) \<Longrightarrow> clean (near e) (own e) (set (all_changed s)) c \<Longrightarrow> ok e (g_mem s) c"
proof -
  let ?P = "plane_cells (nx e) (ny e)"
  from inv obtain m0 D where r: "round_inv (ev e) (near e) (own e) m0 D (g_mem s) (g_cand s) (g_cursor s) (g_workers s)"
    and c: "set (g_cand s) \<subseteq> ?P" "\<forall>c\<in>?P - set (g_cand s). ok e m0 c" and ne: "g_workers s \<noteq> []" and l: "length (g_mem s) = sz e"
    using o unfolding gs_inv_def by blast
  have C: "{c. \<exists>w\<in>set (g_workers s). c \<in> set (w_changed w)} = set (all_changed s)" by (auto simp: all_changed_def)
  note bar = round_inv_barrier [OF r b ne, unfolded C]
  have l0: "length m0 = length (g_mem s)" using r by (simp add: round_inv_def)
  show "set (all_changed s) \<subseteq> ?P" using bar(1) c(1) by (rule subset_trans)
  assume cP: "c \<in> ?P" and nc: "c \<notin> set (all_changed s)" and cl: "clean (near e) (own e) (set (all_changed s)) c"
  have "ok e m0 c"
  proof (cases "c \<in> set (g_cand s)")
    case True
    then have "quiet (ev e) m0 c" using bar(3) nc cl by blast
    then show ?thesis using quiet_ok [OF g cP] l l0 by simp
  next
    case False
    then show ?thesis using c(2) cP by blast
  qed
  moreover have "m0 ! a = g_mem s ! a" if "near e c a" for a
    using bar(2) cl that unfolding clean_def by metis
  ultimately show "ok e (g_mem s) c" by (intro ok_local [OF g cP l0])
qed

lemma lead_inv:
  assumes g: "good e" and a: "args_of e a" and inv: "inv e s" and o: "g_outcome s = None"
    and b: "\<forall>w\<in>set (g_workers s). w_phase w = AtBarrier" and turn: "leader_turn a s = Some s'"
  shows "inv e s'"
  using turn
proof (cases rule: leader_turn_cases)
  case (finish out)
  have "ok e (g_mem s) c" if "o_converged out" "c \<in> plane_cells (nx e) (ny e)" for c
    using barrier(2) [OF g inv o b that(2)] finish(2) that(1) by (simp add: clean_def)
  moreover have "g_workers s' \<noteq> []" using inv leader_workers [OF turn] by (auto simp: gs_inv_def)
  ultimately show ?thesis using finish inv by (simp add: gs_inv_def)
next
  case (more d)
  let ?P = "plane_cells (nx e) (ny e)" and ?C = "set (all_changed s)" and ?nf = "next_frontier a s"
  have C: "?C \<subseteq> ?P" by (rule barrier(1) [OF g inv o b])
  have nf: "wf2 ?nf" "map_x2 ?nf = nx e" "map_y2 ?nf = ny e" "cells2 ?nf = ?C"
    using fold_set2 [OF wf2_new, of "all_changed s" "nx e" "ny e"] C a by (simp_all add: next_frontier_def args_of_def)
  obtain d' where d': "dilate2d ?nf (dx e) (dy e) = Some d'" "wf2 d'" "map_x2 d' = nx e" "map_y2 d' = ny e"
    and cells: "cells2 d' = {(x, y). x < nx e \<and> y < ny e \<and>
      (\<exists>(x', y')\<in>?C. x' \<le> x + dx e \<and> x \<le> x' + dx e \<and> y' \<le> y + dy e \<and> y \<le> y' + dy e)}"
    by (rule dilate2d_Some [OF nf(1) conjunct2 [OF dims [OF g]], of "dy e", unfolded nf])
  have dd: "d' = d" using d'(1) more(1) a by (simp add: args_of_def)
  have w: "0 < wpr2 d" using d'(2,3) dims [OF g] unfolding dd by (intro wpr2_pos) simp_all
  have cand: "set (g_cand s') = cells2 d" "distinct (g_cand s')"
    using set_enumerate2 [OF d'(2) [unfolded dd] w] enumerate2_distinct [OF w] more(7) by simp_all
  have mem: "c \<in> set (g_cand s')" if "c \<in> ?P" "x \<in> ?C" "fst x \<le> fst c + dx e" "fst c \<le> fst x + dx e" "snd x \<le> snd c + dy e" "snd c \<le> snd x + dy e" for c x
  proof -
    obtain i j where "c = (i, j)" by (cases c)
    moreover obtain k l where "x = (k, l)" by (cases x)
    ultimately show ?thesis using that unfolding cand(1) cells [unfolded dd] plane_cells_def by auto
  qed
  have ok: "ok e (g_mem s) c" if c: "c \<in> ?P - set (g_cand s')" for c
  proof (rule barrier(2) [OF g inv o b])
    show "c \<in> ?P" using c by blast
    then show "c \<notin> ?C" using c mem [of c c] by (meson DiffD2 le_add1)
    show "clean (near e) (own e) ?C c"
      unfolding clean_def
    proof (intro ballI allI impI notI)
      fix x i assume x: "x \<in> ?C" "own e x i" "near e c i"
      have "x \<in> ?P" using x(1) C by blast
      moreover have "c \<in> ?P" "c \<notin> set (g_cand s')" using c by simp_all
      ultimately show False using box [OF g _ _ x(2,3)] mem [of c x] x(1) by simp
    qed
  qed
  have "round_inv (ev e) (near e) (own e) (g_mem s) {} (g_mem s') (g_cand s') (g_cursor s') (g_workers s')"
    unfolding more(5,6,8) by (rule round_inv_start [OF cand(2)]) auto
  moreover have "set (g_cand s') \<subseteq> ?P" unfolding cand(1) cells [unfolded dd] by (auto simp: plane_cells_def)
  moreover have "length (g_mem s') = sz e" "g_workers s' \<noteq> []" using inv more(5,8) by (simp_all add: gs_inv_def)
  moreover have "g_outcome s' = None" using more(9) o by simp
  ultimately show ?thesis using ok unfolding gs_inv_def by auto
qed

lemma step_inv:
  assumes "good e" "args_of e a" "inv e s" "gs_step a s s'"
  shows "inv e s'"
  using assms(4)
proof cases
  case (work i w s1)
  then show ?thesis using work_inv [OF assms(1,3)] assms(2) by (simp add: args_of_def)
next
  case lead
  then show ?thesis using lead_inv [OF assms(1-3)] by blast
qed

lemma reach_inv:
  assumes "good e" "args_of e a" "gs_reachable a n cand_list m o0 s" "0 < n" "length m = sz e"
    "distinct cand_list" "set cand_list \<subseteq> plane_cells (nx e) (ny e)" "\<forall>c\<in>plane_cells (nx e) (ny e) - set cand_list. ok e m c"
  shows "inv e s"
  using assms(3) unfolding gs_reachable_def
proof (induction rule: rtranclp_induct)
  case base
  have "round_inv (ev e) (near e) (own e) m {} m cand_list 0 (replicate n fresh_worker)"
    by (rule round_inv_start [OF assms(6)]) simp
  then show ?case using assms(4-8) unfolding gs_inv_def gs_init_def by auto
next
  case (step y z)
  then show ?case using step_inv [OF assms(1,2)] by blast
qed

text \<open>Two threads never work on the same column.\<close>

lemma single_writer:
  assumes "inv e s" "g_outcome s = None" "i < length (g_workers s)" "j < length (g_workers s)" "i \<noteq> j"
  shows "set (pending (g_workers s ! i)) \<inter> set (pending (g_workers s ! j)) = {}"
proof -
  from assms(1,2) obtain m0 D where "round_inv (ev e) (near e) (own e) m0 D (g_mem s) (g_cand s) (g_cursor s) (g_workers s)"
    unfolding gs_inv_def by blast
  then have "disjoint_pending (g_workers s)" unfolding round_inv_def by blast
  then show ?thesis using assms(3-5) by (simp add: disjoint_pending_def)
qed

lemma converged:
  assumes "inv e s" "g_outcome s = Some out" "o_converged out" "c \<in> plane_cells (nx e) (ny e)"
  shows "ok e (g_mem s) c"
  using assms unfolding gs_inv_def by blast

end

end
