(* ===== verification/ParUnsafe.thy ===== *)
theory ParUnsafe
  imports AsyncEngine
begin

text \<open>
  The asynchronous solver on the padded map (\<^verbatim>\<open>solvers/frontier2d_par_unsafe.rs\<close>): the evaluation of a
  column as a program on the atomic view of the hot array, and the solver around the engine. The
  first word of a hot cell is the shared cell; the second one, the penalty, is never stored after
  the build and is read from the model.
\<close>

section \<open>The code\<close>

text \<open>\<open>action_cost_pad\<close> on the atomic view, the minimum over the actions, and the loop over the headings;
  \<open>k\<close> is the rest of the evaluation.\<close>

fun cost_prog :: "padded \<Rightarrow> int \<Rightarrow> (int \<times> u64) list \<Rightarrow> u64 \<Rightarrow> (u64 \<Rightarrow> 'a prog) \<Rightarrow> 'a prog" where
  "cost_prog m col_base [] cost k = k (drop_bit PROB_BASE_BIT cost)"
| "cost_prog m col_base ((off, pr) # buckets) cost k =
     (let n = usize_of (col_base + off) in
      if \<not> p_free m ! n then k MAX_COST
      else Load n (\<lambda>h0. if h0 = MAX_COST then k MAX_COST
                        else cost_prog m col_base buckets (cost + (h0 + snd (hot m ! n)) * pr) k))"

fun min_prog :: "padded \<Rightarrow> int \<Rightarrow> i32 \<Rightarrow> (int \<times> u64) list list list \<Rightarrow> u64 \<Rightarrow> (u64 \<Rightarrow> 'a prog) \<Rightarrow> 'a prog" where
  "min_prog m pcol it [] min_cost k = k min_cost"
| "min_prog m pcol it (per_theta # rest) min_cost k =
     cost_prog m pcol (per_theta ! usize_of it) 0 (\<lambda>c. min_prog m pcol it rest (if c < min_cost then c else min_cost) k)"

fun column_prog :: "padded \<Rightarrow> int \<Rightarrow> i32 list \<Rightarrow> bool \<Rightarrow> u64 \<Rightarrow> (bool \<times> u64) prog" where
  "column_prog m pcol [] cell_changed ups = Ret (cell_changed, ups)"
| "column_prog m pcol (it # its) cell_changed ups =
     (let pad_idx = usize_of (pcol + it) in
      if \<not> p_free m ! pad_idx \<or> finals m ! pad_idx then column_prog m pcol its cell_changed ups
      else Load pad_idx (\<lambda>v_before. min_prog m pcol it (precomp m) MAX_COST (\<lambda>min_cost.
        if min_cost \<noteq> v_before then Store pad_idx min_cost (column_prog m pcol its True (ups + 1))
        else column_prog m pcol its cell_changed ups)))"

definition eval_pad :: "padded \<Rightarrow> eval_prog" where
  "eval_pad m = (\<lambda>(ixu, iyu). column_prog m (pad_col m (int ixu) (int iyu)) [0..p_nt m - 1] False 0)"

text \<open>The hot array with the values of the shared cells.\<close>

definition with_cells :: "padded \<Rightarrow> u64 list \<Rightarrow> padded" where
  "with_cells m cells = m\<lparr>hot := map2 (\<lambda>v h. (v, snd h)) cells (hot m)\<rparr>"

text \<open>The boundary closure: the observer sees the materialised field, and a look leaves it in the solver
  state.\<close>

definition unsafe_boundary ::
  "nat \<Rightarrow> (nat \<Rightarrow> bool) \<Rightarrow> padded \<Rightarrow> 'o solve_observer \<Rightarrow> nat \<Rightarrow> u64 \<Rightarrow> u64 list \<Rightarrow> value_iterator \<times> 'o \<Rightarrow> solve_flow \<times> value_iterator \<times> 'o" where
  "unsafe_boundary nthreads looks m obs iters updates cells = (\<lambda>(vi, o').
     let vi' = par_materialize nthreads (with_cells m cells) vi in
     case boundary obs o' \<lparr>pr_vi = vi', pr_iters = iters, pr_updates = updates\<rparr> of
       (flow, o'') \<Rightarrow> (flow, if looks iters then vi' else vi, o''))"

definition unsafe_args :: "nat \<Rightarrow> (nat \<Rightarrow> bool) \<Rightarrow> padded \<Rightarrow> nat \<Rightarrow> 'o solve_observer \<Rightarrow> (value_iterator \<times> 'o) gs_args" where
  "unsafe_args nthreads looks m max_iter obs =
     \<lparr>e_nx = nat (p_nx m), e_ny = nat (p_ny m), e_dx = nat (p_mx m), e_dy = nat (p_my m), e_max_iter = max_iter,
      e_eval = eval_pad m, e_interval = interval obs, e_boundary = unsafe_boundary nthreads looks m obs\<rparr>"

definition unsafe_finish :: "nat \<Rightarrow> padded \<Rightarrow> (value_iterator \<times> 'o) gs_sys \<Rightarrow> solve_outcome \<Rightarrow> value_iterator \<times> solve_outcome \<times> 'o" where
  "unsafe_finish nthreads m s out =
     ((if o_cancelled out then fst (g_obs s) else par_materialize nthreads (with_cells m (g_mem s)) (fst (g_obs s))), out, snd (g_obs s))"

text \<open>The results the solver may return, one for each schedule of the threads.\<close>

definition unsafe_start ::
  "nat \<Rightarrow> (nat \<Rightarrow> bool) \<Rightarrow> value_iterator \<Rightarrow> nat \<Rightarrow> 'o solve_observer \<Rightarrow> 'o \<Rightarrow> (value_iterator \<times> 'o) gs_sys option" where
  "unsafe_start nthreads looks vi max_iter obs o0 =
     (let m = padded_build vi in
      map_option (\<lambda>d. gs_init (unsafe_args nthreads looks m max_iter obs) nthreads (enumerate2 d) (map fst (hot m)) (vi, o0))
        (dilate2d (seed_frontier_2d vi) (nat (p_mx m)) (nat (p_my m))))"

definition frontier2d_par_unsafe_returns ::
  "nat \<Rightarrow> (nat \<Rightarrow> bool) \<Rightarrow> value_iterator \<Rightarrow> nat \<Rightarrow> 'o solve_observer \<Rightarrow> 'o \<Rightarrow> value_iterator \<times> solve_outcome \<times> 'o \<Rightarrow> bool" where
  "frontier2d_par_unsafe_returns nthreads looks vi max_iter obs o0 res \<longleftrightarrow>
     (\<exists>s0 s out. unsafe_start nthreads looks vi max_iter obs o0 = Some s0 \<and>
        (gs_step (unsafe_args nthreads looks (padded_build vi) max_iter obs))\<^sup>*\<^sup>* s0 s \<and>
        g_outcome s = Some out \<and> res = unsafe_finish nthreads (padded_build vi) s out)"

section \<open>The evaluation of a column\<close>

definition near_pad :: "value_iterator \<Rightarrow> cell2 \<Rightarrow> nat \<Rightarrow> bool" where
  "near_pad vi c a \<longleftrightarrow> (\<exists>x y t. in_map vi (x, y, t) \<and> a = pidx vi (x, y, t) \<and>
     x \<le> fst c + pad_x vi \<and> fst c \<le> x + pad_x vi \<and> y \<le> snd c + pad_y vi \<and> snd c \<le> y + pad_y vi)"

definition own_pad :: "value_iterator \<Rightarrow> cell2 \<Rightarrow> nat \<Rightarrow> bool" where
  "own_pad vi c a \<longleftrightarrow> (\<exists>t. in_map vi (fst c, snd c, t) \<and> a = pidx vi (fst c, snd c, t))"

definition cells_of :: "value_iterator \<Rightarrow> u64 list \<Rightarrow> cell \<Rightarrow> u64" where
  "cells_of vi cells c = cells ! pidx vi c"

lemma own_near_pad: "own_pad vi c a \<Longrightarrow> near_pad vi c a"
  unfolding own_pad_def near_pad_def by (metis le_add1)

lemma succ_near:
  assumes "wf_vi vi" "succ_cell vi tr (x, y, t) = Some c'" "\<bar>dix tr\<bar> \<le> int (pad_x vi)" "\<bar>diy tr\<bar> \<le> int (pad_y vi)"
  shows "near_pad vi (x, y) (pidx vi c')"
proof -
  obtain x' y' t' where c': "c' = (x', y', t')" by (cases c')
  have m: "in_map vi (x', y', t')" using succ_cell_in_map [OF assms(1,2)] c' by simp
  have "int x' = int x + dix tr" "int y' = int y + diy tr" using assms(2) c' by (auto simp: succ_cell_def Let_def split: if_splits)
  then have "x' \<le> x + pad_x vi \<and> x \<le> x' + pad_x vi \<and> y' \<le> y + pad_y vi \<and> y \<le> y' + pad_y vi" using assms(3,4) by linarith
  then show ?thesis using m unfolding near_pad_def c' fst_conv snd_conv by blast
qed

lemma honest_cost_prog: "(\<And>v. honest b (k v)) \<Longrightarrow> honest b (cost_prog m col bs cost k)"
  by (induction m col bs cost k rule: cost_prog.induct) (simp_all add: Let_def)

lemma honest_min_prog: "(\<And>v. honest b (k v)) \<Longrightarrow> honest b (min_prog m col it pts mc k)"
  by (induction pts arbitrary: mc) (simp_all add: honest_cost_prog)

lemma honest_column_prog: "(b \<longrightarrow> ch) \<Longrightarrow> honest b (column_prog m col its ch u)"
proof (induction its arbitrary: b ch u)
  case (Cons it its)
  have "honest b (if mc \<noteq> bef then Store i mc (column_prog m col its True (u + 1)) else column_prog m col its ch u)" for mc bef i
    using Cons by simp
  then show ?case using Cons by (simp add: Let_def honest_min_prog)
qed simp

lemma honest_run: "honest True p \<Longrightarrow> fst (fst (run_prog p m))"
  by (induction p arbitrary: m) auto

definition bucket :: "value_iterator \<Rightarrow> state_transition \<Rightarrow> int \<times> u64" where
  "bucket vi tr = (let nit = wrap32 (dit tr + cell_num_t vi) smod cell_num_t vi;
      off = dix tr * cell_num_t vi + diy tr * (cell_num_t vi * int (pad_w vi)) + nit in (off, word_of_int (prob tr)))"

lemma cost_prog_run:
  assumes wf: "wf_vi vi" and fits: "pad_fits vi" and c: "in_map vi (x, y, t)" and rel: "pad_rel vi V m"
    and trs: "\<forall>tr\<in>set trs. wf_transition vi tr \<and> \<bar>dix tr\<bar> \<le> int (pad_x vi) \<and> \<bar>diy tr\<bar> \<le> int (pad_y vi)"
  shows "run_prog (cost_prog m (pad_col m (int x) (int y)) (map (bucket vi) trs) cost k) cells
      = run_prog (k (cost_clamp (cells_of vi cells) vi (x, y, t) trs cost)) cells"
    and "(\<And>v. touches (near_pad vi (x, y)) W (k v)) \<Longrightarrow>
      touches (near_pad vi (x, y)) W (cost_prog m (pad_col m (int x) (int y)) (map (bucket vi) trs) cost k)"
proof -
  have "run_prog (cost_prog m (pad_col m (int x) (int y)) (map (bucket vi) trs) cost k) cells
      = run_prog (k (cost_clamp (cells_of vi cells) vi (x, y, t) trs cost)) cells \<and>
    ((\<forall>v. touches (near_pad vi (x, y)) W (k v)) \<longrightarrow>
      touches (near_pad vi (x, y)) W (cost_prog m (pad_col m (int x) (int y)) (map (bucket vi) trs) cost k))"
    using trs
  proof (induction trs arbitrary: cost)
    case (Cons tr trs)
    note tgt = pad_target [OF wf fits c _ _ _ rel, of tr]
    have tr: "wf_transition vi tr" "\<bar>dix tr\<bar> \<le> int (pad_x vi)" "\<bar>diy tr\<bar> \<le> int (pad_y vi)" using Cons.prems by simp_all
    show ?case
    proof (cases "succ_cell vi tr (x, y, t)")
      case None
      then show ?thesis using tgt [OF tr] by (simp add: Let_def bucket_def)
    next
      case (Some c')
      have at: "p_free m ! pidx vi c' = free (state_at vi c')"
        "snd (hot m ! pidx vi c') = penalty (state_at vi c') + local_penalty (state_at vi c')"
        using pad_rel_at [OF rel succ_cell_in_map [OF wf Some]] by simp_all
      obtain off where b: "bucket vi tr = (off, word_of_int (prob tr))" and "off = fst (bucket vi tr)" by (simp add: bucket_def Let_def)
      then have n: "usize_of (pad_col m (int x) (int y) + off) = pidx vi c'" using tgt [OF tr] Some by (simp add: bucket_def Let_def)
      have IH: "run_prog (cost_prog m (pad_col m (int x) (int y)) (map (bucket vi) trs) cost' k) cells
          = run_prog (k (cost_clamp (cells_of vi cells) vi (x, y, t) trs cost')) cells"
        "(\<forall>v. touches (near_pad vi (x, y)) W (k v)) \<longrightarrow>
          touches (near_pad vi (x, y)) W (cost_prog m (pad_col m (int x) (int y)) (map (bucket vi) trs) cost' k)" for cost'
        using Cons by simp_all
      show ?thesis unfolding list.map b using succ_near [OF wf Some tr(2,3)] IH at n Some
        by (simp add: Let_def cells_of_def [of vi cells c'])
    qed
  qed simp
  then show "run_prog (cost_prog m (pad_col m (int x) (int y)) (map (bucket vi) trs) cost k) cells
      = run_prog (k (cost_clamp (cells_of vi cells) vi (x, y, t) trs cost)) cells"
    "(\<And>v. touches (near_pad vi (x, y)) W (k v)) \<Longrightarrow>
      touches (near_pad vi (x, y)) W (cost_prog m (pad_col m (int x) (int y)) (map (bucket vi) trs) cost k)" by blast+
qed

text \<open>The buckets of an action at a heading.\<close>

lemma precomp_buckets:
  assumes "pad_rel vi V m" "i < length (actions vi)" "t < dim_t vi"
  shows "precomp m ! i ! t = map (bucket vi) (state_transitions (actions vi ! i) ! t)"
  using assms by (simp add: pad_rel_def build_precomp_def bucket_def dim_t_def)

lemma min_prog_run:
  fixes k :: "u64 \<Rightarrow> 'a prog"
  assumes "length pts = length ys" "\<And>i (k :: u64 \<Rightarrow> 'a prog). i < length pts \<Longrightarrow> run_prog (cost_prog m col (pts ! i ! usize_of it) 0 k) cells = run_prog (k (g (ys ! i))) cells"
  shows "run_prog (min_prog m col it pts mc k) cells =
    run_prog (k (fst (fold (\<lambda>(ai, a) (m, b). let c = g a in if c < m then (c, Some ai) else (m, b)) (List.enumerate j ys) (mc, b)))) cells"
  using assms
proof (induction pts ys arbitrary: mc b j rule: list_induct2)
  case (Cons pt pts y ys)
  have h: "run_prog (cost_prog m col (pt ! usize_of it) 0 k) cells = run_prog (k (g y)) cells" for k :: "u64 \<Rightarrow> 'a prog" using Cons.prems [of 0] by simp
  have t: "run_prog (cost_prog m col (pts ! i ! usize_of it) 0 k) cells = run_prog (k (g (ys ! i))) cells" if "i < length pts" for i and k :: "u64 \<Rightarrow> 'a prog"
    using Cons.prems [of "Suc i"] that by simp
  show ?case using Cons.IH [OF t] by (simp add: h Let_def)
qed simp

lemma touches_min_prog:
  fixes k :: "u64 \<Rightarrow> 'a prog"
  assumes "\<And>pt (k :: u64 \<Rightarrow> 'a prog). pt \<in> set pts \<Longrightarrow> (\<And>v. touches R W (k v)) \<Longrightarrow> touches R W (cost_prog m col (pt ! usize_of it) 0 k)" "\<And>v. touches R W (k v)"
  shows "touches R W (min_prog m col it pts mc k)"
  using assms(1)
proof (induction pts arbitrary: mc)
  case (Cons pt pts)
  have "touches R W (min_prog m col it pts mc k)" for mc by (rule Cons.IH) (simp add: Cons.prems)
  then show ?case unfolding min_prog.simps by (intro Cons.prems) simp_all
qed (simp add: assms(2))

text \<open>The value the minimum over the actions computes on a memory that does not move.\<close>

lemma min_prog_clamped:
  assumes wf: "wf_vi vi" and fits: "pad_fits vi" and c: "in_map vi (x, y, t)" and rel: "pad_rel vi V m"
  shows "run_prog (min_prog m (pad_col m (int x) (int y)) (int t) (precomp m) MAX_COST k) cells
      = run_prog (k (fst (clamped (cells_of vi cells) vi (x, y, t)))) cells"
    and "(\<And>v. touches (near_pad vi (x, y)) W (k v)) \<Longrightarrow>
      touches (near_pad vi (x, y)) W (min_prog m (pad_col m (int x) (int y)) (int t) (precomp m) MAX_COST k)"
proof -
  let ?col = "pad_col m (int x) (int y)"
  have t: "usize_of (int t) = t" "t < dim_t vi" using usize_theta [OF wf] c by simp_all
  have nth: "\<exists>i<length (actions vi). precomp m ! i = pt" if "pt \<in> set (precomp m)" for pt
    using that length_precomp [OF rel] by (auto simp: in_set_conv_nth)
  have trs: "\<forall>tr\<in>set (state_transitions (actions vi ! i) ! t). wf_transition vi tr \<and> \<bar>dix tr\<bar> \<le> int (pad_x vi) \<and> \<bar>diy tr\<bar> \<le> int (pad_y vi)"
    if "i < length (actions vi)" for i
    using transition_bounds [OF wf nth_mem [OF that] t(2)] by blast
  show "touches (near_pad vi (x, y)) W (min_prog m ?col (int t) (precomp m) MAX_COST k)" if "\<And>v. touches (near_pad vi (x, y)) W (k v)"
  proof (rule touches_min_prog)
    fix pt and k' :: "u64 \<Rightarrow> 'a prog" assume "pt \<in> set (precomp m)" and k': "\<And>v. touches (near_pad vi (x, y)) W (k' v)"
    then obtain i where i: "i < length (actions vi)" "precomp m ! i = pt" using nth by blast
    show "touches (near_pad vi (x, y)) W (cost_prog m ?col (pt ! usize_of (int t)) 0 k')"
      unfolding t(1) i(2) [symmetric] precomp_buckets [OF rel i(1) t(2)] by (rule cost_prog_run(2) [OF wf fits c rel trs [OF i(1)] k'])
  qed (rule that)
  show "run_prog (min_prog m ?col (int t) (precomp m) MAX_COST k) cells = run_prog (k (fst (clamped (cells_of vi cells) vi (x, y, t)))) cells"
    unfolding clamped_def argmin_loop_def snd_conv
  proof (rule min_prog_run)
    show "length (precomp m) = length (actions vi)" by (rule length_precomp [OF rel])
    fix i and k' :: "u64 \<Rightarrow> 'a prog" assume "i < length (precomp m)"
    then have i: "i < length (actions vi)" using length_precomp [OF rel] by simp
    show "run_prog (cost_prog m ?col (precomp m ! i ! usize_of (int t)) 0 k') cells =
      run_prog (k' (cost_clamp (cells_of vi cells) vi (x, y, t) (state_transitions (actions vi ! i) ! t) 0)) cells"
      unfolding t(1) precomp_buckets [OF rel i t(2)] by (rule cost_prog_run(1) [OF wf fits c rel trs [OF i]])
  qed
qed

text \<open>A column whose evaluation reports no change satisfies the clamped equation at every heading.\<close>

lemma column_prog_quiet:
  assumes wf: "wf_vi vi" and fits: "pad_fits vi" and xy: "x < dim_x vi" "y < dim_y vi" and rel: "pad_rel vi V m"
    and "\<forall>t\<in>set ts. t < dim_t vi" and "\<not> fst (fst (run_prog (column_prog m (pad_col m (int x) (int y)) (map int ts) ch u) cells))"
  shows "\<forall>t\<in>set ts. eligible vi (x, y, t) \<longrightarrow> cells_of vi cells (x, y, t) = fst (clamped (cells_of vi cells) vi (x, y, t))"
  using assms(6,7)
proof (induction ts arbitrary: ch u)
  case (Cons t ts)
  have c: "in_map vi (x, y, t)" using Cons.prems(1) xy by simp
  note idx = pad_col_idx [OF wf fits c rel] and at = pad_rel_at [OF rel c]
  show ?case
  proof (cases "eligible vi (x, y, t)")
    case False
    then have "column_prog m (pad_col m (int x) (int y)) (map int (t # ts)) ch u = column_prog m (pad_col m (int x) (int y)) (map int ts) ch u"
      using at by (simp add: Let_def idx eligible_def)
    then show ?thesis using Cons False by auto
  next
    case True
    let ?mc = "fst (clamped (cells_of vi cells) vi (x, y, t))"
    have run: "run_prog (column_prog m (pad_col m (int x) (int y)) (map int (t # ts)) ch u) cells =
      run_prog (if ?mc \<noteq> cells ! pidx vi (x, y, t) then Store (pidx vi (x, y, t)) ?mc (column_prog m (pad_col m (int x) (int y)) (map int ts) True (u + 1))
        else column_prog m (pad_col m (int x) (int y)) (map int ts) ch u) cells"
      using True at by (simp add: Let_def idx eligible_def min_prog_clamped(1) [OF wf fits c rel])
    have "honest True (column_prog m (pad_col m (int x) (int y)) (map int ts) True (u + 1))" by (rule honest_column_prog) simp
    then have eq: "?mc = cells ! pidx vi (x, y, t)"
      using Cons.prems(2) honest_run unfolding run by (auto split: if_splits)
    then have "\<not> fst (fst (run_prog (column_prog m (pad_col m (int x) (int y)) (map int ts) ch u) cells))" using Cons.prems(2) unfolding run by simp
    then show ?thesis using Cons.IH Cons.prems(1) eq by (simp add: cells_of_def [of vi cells "(x, y, t)"])
  qed
qed simp

lemma column_prog_touches:
  assumes wf: "wf_vi vi" and fits: "pad_fits vi" and xy: "x < dim_x vi" "y < dim_y vi" and rel: "pad_rel vi V m"
    and "\<forall>t\<in>set ts. t < dim_t vi"
  shows "touches (near_pad vi (x, y)) (own_pad vi (x, y)) (column_prog m (pad_col m (int x) (int y)) (map int ts) ch u)"
  using assms(6)
proof (induction ts arbitrary: ch u)
  case (Cons t ts)
  have c: "in_map vi (x, y, t)" using Cons.prems xy by simp
  have own: "own_pad vi (x, y) (pidx vi (x, y, t))" unfolding own_pad_def fst_conv snd_conv using c by blast
  have IH: "touches (near_pad vi (x, y)) (own_pad vi (x, y)) (column_prog m (pad_col m (int x) (int y)) (map int ts) ch' u')" for ch' u'
    using Cons by simp
  have "touches (near_pad vi (x, y)) (own_pad vi (x, y)) (if mc \<noteq> bef then Store (pidx vi (x, y, t)) mc
      (column_prog m (pad_col m (int x) (int y)) (map int ts) True (u + 1)) else column_prog m (pad_col m (int x) (int y)) (map int ts) ch u)" for mc bef
    using IH own by simp
  note min = min_prog_clamped(2) [OF wf fits c rel this]
  show ?case using IH own_near_pad [OF own] min by (simp add: Let_def pad_col_idx [OF wf fits c rel])
qed simp

definition good_pad :: "value_iterator \<Rightarrow> bool" where
  "good_pad vi \<longleftrightarrow> wf_vi vi \<and> pad_fits vi \<and> pad_x vi < 64"

definition ok_pad :: "value_iterator \<Rightarrow> u64 list \<Rightarrow> cell2 \<Rightarrow> bool" where
  "ok_pad vi cells c \<longleftrightarrow> (\<forall>t<dim_t vi. clamp_ok (cells_of vi cells) vi (fst c, snd c, t))"

lemma theta_list: "wf_vi vi \<Longrightarrow> pad_rel vi V m \<Longrightarrow> [0..p_nt m - 1] = map int [0..<dim_t vi]"
  by (simp add: pad_rel_def upto_conv_upt wf_vi_def dim_t_def)

lemma succs_near:
  assumes wf: "wf_vi vi" and c: "in_map vi (x, y, t)" and s: "c' \<in> succs vi (x, y, t)"
  shows "near_pad vi (x, y) (pidx vi c')"
proof -
  from s obtain a tr where a: "a \<in> set (actions vi)" "tr \<in> set (state_transitions a ! t)" "succ_cell vi tr (x, y, t) = Some c'"
    unfolding succs_def action_succs_def by auto
  have "t < dim_t vi" using c by simp
  from transition_bounds [OF wf a(1) this a(2)] show ?thesis by (intro succ_near [OF wf a(3)])
qed

lemma clamp_ok_local:
  assumes wf: "wf_vi vi" and c: "in_map vi (x, y, t)" and eq: "\<And>a. near_pad vi (x, y) a \<Longrightarrow> cells ! a = cells' ! a"
    and ok: "clamp_ok (cells_of vi cells) vi (x, y, t)"
  shows "clamp_ok (cells_of vi cells') vi (x, y, t)"
proof (rule clamp_ok_cong [OF _ _ ok])
  show "cells_of vi cells c' = cells_of vi cells' c'" if "c' \<in> succs vi (x, y, t)" for c'
    unfolding cells_of_def by (rule eq [OF succs_near [OF wf c that]])
  have "own_pad vi (x, y) (pidx vi (x, y, t))" unfolding own_pad_def fst_conv snd_conv using c by blast
  then show "cells_of vi cells (x, y, t) = cells_of vi cells' (x, y, t)" unfolding cells_of_def by (intro eq own_near_pad)
qed

interpretation pu: async_model good_pad "\<lambda>vi. eval_pad (padded_build vi)" dim_x dim_y pad_x pad_y
  "\<lambda>vi. pad_w vi * pad_h vi * dim_t vi" near_pad own_pad ok_pad
proof unfold_locales
  fix vi assume g: "good_pad vi"
  then have wf: "wf_vi vi" and fits: "pad_fits vi" by (simp_all add: good_pad_def)
  note rel = padded_build_rel [OF wf fits]
  show "0 < dim_x vi \<and> pad_x vi < 64" using g wf_dims_pos(1) [OF wf] by (simp add: good_pad_def)
  fix c :: cell2
  obtain x y where xy: "c = (x, y)" by (cases c)
  show "honest False (eval_pad (padded_build vi) c)" by (simp add: eval_pad_def xy honest_column_prog)
  assume "c \<in> plane_cells (dim_x vi) (dim_y vi)"
  then have p: "x < dim_x vi" "y < dim_y vi" by (simp_all add: plane_cells_def xy)
  have ev: "eval_pad (padded_build vi) (x, y) = column_prog (padded_build vi) (pad_col (padded_build vi) (int x) (int y)) (map int [0..<dim_t vi]) False 0"
    by (simp add: eval_pad_def xy theta_list [OF wf rel])
  show "touches (near_pad vi c) (own_pad vi c) (eval_pad (padded_build vi) c)"
    unfolding xy ev by (rule column_prog_touches [OF wf fits p rel]) simp
  fix cells :: "u64 list"
  show "ok_pad vi cells c" if "quiet (eval_pad (padded_build vi)) cells c"
  proof -
    have "\<not> fst (fst (run_prog (eval_pad (padded_build vi) c) cells))" using that by (simp only: quiet_def not_False_eq_True)
    from column_prog_quiet [OF wf fits p rel _ this [unfolded xy ev]] show ?thesis by (simp add: ok_pad_def clamp_ok_def xy)
  qed
  fix cells' :: "u64 list"
  assume "\<And>a. near_pad vi c a \<Longrightarrow> cells ! a = cells' ! a" and "ok_pad vi cells c"
  then show "ok_pad vi cells' c" 
    unfolding ok_pad_def xy fst_conv snd_conv using clamp_ok_local [OF wf, of x y _ cells cells'] p by (metis in_map.simps)
next
  fix vi and c :: cell2 and a assume "own_pad vi c a"
  then show "near_pad vi c a" by (rule own_near_pad)
next
  fix vi and c d :: cell2 and a assume "own_pad vi d a" "near_pad vi c a"
  then obtain t x y t' where 1: "in_map vi (fst d, snd d, t)" "a = pidx vi (fst d, snd d, t)"
    and 2: "in_map vi (x, y, t')" "a = pidx vi (x, y, t')"
      "x \<le> fst c + pad_x vi" "fst c \<le> x + pad_x vi" "y \<le> snd c + pad_y vi" "snd c \<le> y + pad_y vi"
    unfolding own_pad_def near_pad_def by blast
  have "(fst d, snd d, t) = (x, y, t')" using pidx_inj [OF 1(1) 2(1)] 1(2) 2(2) by simp
  then show "fst d \<le> fst c + pad_x vi \<and> fst c \<le> fst d + pad_x vi \<and> snd d \<le> snd c + pad_y vi \<and> snd c \<le> snd d + pad_y vi"
    using 2(3-6) by simp
qed

section \<open>The solver\<close>

lemma with_cells_rel:
  assumes rel: "pad_rel vi V m" and len: "length cells = length (hot m)"
  shows "pad_rel vi (cells_of vi cells) (with_cells m cells)"
proof -
  have "map2 (\<lambda>v h. (v, snd h)) cells (hot m) ! pidx vi c = (cells_of vi cells c, penalty (state_at vi c) + local_penalty (state_at vi c))"
    if "in_map vi c" for c
    using pidx_less [OF that] pad_rel_at(1) [OF rel that] len rel by (simp add: cells_of_def pad_rel_def)
  then show ?thesis using rel len unfolding pad_rel_def with_cells_def by simp
qed

text \<open>The field the observer state carries keeps the frame of the map.\<close>

lemma observer_frame_step:
  assumes wf: "wf_vi vi" and fits: "pad_fits vi" and step: "gs_step (unsafe_args n looks (padded_build vi) mi obs) s s'"
    and fr: "same_frame vi (fst (g_obs s))" and len: "length (g_mem s) = pad_w vi * pad_h vi * dim_t vi"
  shows "same_frame vi (fst (g_obs s'))"
  using step
proof cases
  case (work i w s1)
  have "g_obs s1 = g_obs s" using work(4)
    by (auto simp: worker_turn_def claim_turn_def Let_def split: gs_phase.splits prog.splits if_splits)
  then show ?thesis using fr work(1) by simp
next
  case lead
  let ?m = "padded_build vi"
  note rel = padded_build_rel [OF wf fits]
  have "pad_rel vi (cells_of vi (g_mem s)) (with_cells ?m (g_mem s))"
    by (rule with_cells_rel [OF rel]) (use rel len in \<open>simp add: pad_rel_def\<close>)
  then have b: "same_frame vi (fst (snd (unsafe_boundary n looks ?m obs i u (g_mem s) (g_obs s))))" for i u
    using materialize_spec(1) [OF wf fits _ fr] fr by (cases "g_obs s") (simp add: unsafe_boundary_def Let_def split: prod.split)
  have "g_obs s' = g_obs s \<or> (\<exists>i u. g_obs s' = snd (unsafe_boundary n looks ?m obs i u (g_mem s) (g_obs s)))"
    using lead(3) by (auto simp: leader_turn_def unsafe_args_def Let_def split: prod.splits option.splits if_splits) (metis snd_conv)+
  then show ?thesis using fr b by auto
qed

text \<open>Outside the first candidates every cell is settled or without valued successors.\<close>

lemma start_ok:
  assumes good: "good_pad vi" and xyt: "in_map vi (x, y, t)"
    and far: "\<And>x' y' t'. (x', y', t') \<in> seeds vi \<Longrightarrow> \<not> (x' \<le> x + pad_x vi \<and> x \<le> x' + pad_x vi \<and> y' \<le> y + pad_y vi \<and> y \<le> y' + pad_y vi)"
  shows "clamp_ok (cells_of vi (map fst (hot (padded_build vi)))) vi (x, y, t)"
proof -
  have wf: "wf_vi vi" and fits: "pad_fits vi" using good by (simp_all add: good_pad_def)
  note rel = padded_build_rel [OF wf fits]
  have V: "total_cost (state_at vi c) = cells_of vi (map fst (hot (padded_build vi))) c" if "in_map vi c" for c
    using pad_rel_at(1) [OF rel that] pidx_less [OF that] rel by (simp add: cells_of_def pad_rel_def)
  have "(x, y, t) \<notin> affected vi (seeds vi)"
  proof
    assume "(x, y, t) \<in> affected vi (seeds vi)"
    then consider "(x, y, t) \<in> seeds vi" | c' where "c' \<in> succs vi (x, y, t)" "c' \<in> seeds vi" unfolding affected_def by blast
    then show False
    proof cases
      case 1
      then show ?thesis using far [OF 1] by simp
    next
      case (2 c')
      obtain x' y' t' where c': "c' = (x', y', t')" by (cases c')
      have "near_pad vi (x, y) (pidx vi c')" by (rule succs_near [OF wf xyt 2(1)])
      then obtain x2 y2 t2 where n: "in_map vi (x2, y2, t2)" "pidx vi c' = pidx vi (x2, y2, t2)"
        "x2 \<le> x + pad_x vi \<and> x \<le> x2 + pad_x vi \<and> y2 \<le> y + pad_y vi \<and> y \<le> y2 + pad_y vi" unfolding near_pad_def fst_conv snd_conv by blast
      have "c' = (x2, y2, t2)" using pidx_inj [OF succs_in_map [OF wf 2(1)] n(1)] n(2) by simp
      then show ?thesis using far [of x2 y2 t2] 2(2) n(3) by simp
    qed
  qed
  then have ok: "clamp_ok (\<lambda>c. total_cost (state_at vi c)) vi (x, y, t)"
    using jacobi_seed [OF wf order_refl] xyt unfolding jacobi_inv_def by blast
  show ?thesis by (rule clamp_ok_cong [OF _ _ ok]) (use V succs_in_map [OF wf] xyt in \<open>simp_all del: in_map.simps\<close>)
qed

lemma unsafe_start_spec:
  assumes good: "good_pad vi"
  obtains cand_list where
    "unsafe_start n looks vi mi obs o0 = Some (gs_init (unsafe_args n looks (padded_build vi) mi obs) n cand_list (map fst (hot (padded_build vi))) (vi, o0))"
    "distinct cand_list" "set cand_list \<subseteq> plane_cells (dim_x vi) (dim_y vi)"
    "\<forall>c\<in>plane_cells (dim_x vi) (dim_y vi) - set cand_list. ok_pad vi (map fst (hot (padded_build vi))) c"
    "plane ` seeds vi \<subseteq> set cand_list"
proof -
  have wf: "wf_vi vi" and fits: "pad_fits vi" and dx: "pad_x vi < 64" using good by (simp_all add: good_pad_def)
  note rel = padded_build_rel [OF wf fits]
  note f = seed_frontier_2d_spec [OF wf]
  obtain d where d: "dilate2d (seed_frontier_2d vi) (pad_x vi) (pad_y vi) = Some d" "wf2 d" "map_x2 d = dim_x vi" "map_y2 d = dim_y vi"
    and cells: "cells2 d = {(x, y). x < dim_x vi \<and> y < dim_y vi \<and>
      (\<exists>(x', y')\<in>cells2 (seed_frontier_2d vi). x' \<le> x + pad_x vi \<and> x \<le> x' + pad_x vi \<and> y' \<le> y + pad_y vi \<and> y \<le> y' + pad_y vi)}"
    by (rule dilate2d_Some [OF f(1) dx, of "pad_y vi", unfolded f(2,3)])
  have w: "0 < wpr2 d" using d wf_dims_pos(1) [OF wf] by (intro wpr2_pos) simp_all
  have set: "set (enumerate2 d) = cells2 d" by (rule set_enumerate2 [OF d(2) w])
  have "unsafe_start n looks vi mi obs o0 = Some (gs_init (unsafe_args n looks (padded_build vi) mi obs) n (enumerate2 d) (map fst (hot (padded_build vi))) (vi, o0))"
    using d(1) rel by (simp add: unsafe_start_def Let_def pad_rel_def)
  moreover have "set (enumerate2 d) \<subseteq> plane_cells (dim_x vi) (dim_y vi)" unfolding set cells plane_cells_def by auto
  moreover have "ok_pad vi (map fst (hot (padded_build vi))) c" if c: "c \<in> plane_cells (dim_x vi) (dim_y vi) - set (enumerate2 d)" for c
  proof -
    obtain x y where xy: "c = (x, y)" by (cases c)
    have p: "x < dim_x vi" "y < dim_y vi" using c by (simp_all add: plane_cells_def xy)
    have far: "\<not> (x' \<le> x + pad_x vi \<and> x \<le> x' + pad_x vi \<and> y' \<le> y + pad_y vi \<and> y \<le> y' + pad_y vi)" if "(x', y', t') \<in> seeds vi" for x' y' t'
    proof -
      have "(x', y') \<in> cells2 (seed_frontier_2d vi)" unfolding f(4) using that by force
      then show ?thesis using c p unfolding xy set cells by blast
    qed
    show ?thesis unfolding ok_pad_def xy fst_conv snd_conv using start_ok [OF good _ far] p by simp
  qed
  moreover have "plane ` seeds vi \<subseteq> set (enumerate2 d)"
    unfolding set cells f(4) seeds_def plane_def by force
  ultimately show thesis using that enumerate2_distinct [OF w] by blast
qed

text \<open>What holds of every reachable state of a run.\<close>

lemma unsafe_reach:
  assumes good: "good_pad vi" and n: "0 < n" and start: "unsafe_start n looks vi mi obs o0 = Some s0"
    and run: "(gs_step (unsafe_args n looks (padded_build vi) mi obs))\<^sup>*\<^sup>* s0 s"
  shows "pu.inv vi s" "same_frame vi (fst (g_obs s))" "\<forall>out. g_outcome s = Some out \<longrightarrow> o_iters out \<le> max 1 mi \<and> (o_converged out \<longrightarrow> \<not> o_cancelled out)"
proof -
  let ?a = "unsafe_args n looks (padded_build vi) mi obs" and ?cells = "map fst (hot (padded_build vi))"
  have wf: "wf_vi vi" and fits: "pad_fits vi" using good by (simp_all add: good_pad_def)
  note rel = padded_build_rel [OF wf fits]
  have args: "pu.args_of vi ?a" using rel by (simp add: pu.args_of_def unsafe_args_def pad_rel_def dim_x_def dim_y_def)
  have len: "length ?cells = pad_w vi * pad_h vi * dim_t vi" using rel by (simp add: pad_rel_def)
  obtain cand_list where s0: "s0 = gs_init ?a n cand_list ?cells (vi, o0)"
    and c: "distinct cand_list" "set cand_list \<subseteq> plane_cells (dim_x vi) (dim_y vi)"
      "\<forall>c\<in>plane_cells (dim_x vi) (dim_y vi) - set cand_list. ok_pad vi ?cells c"
    by (rule unsafe_start_spec [OF good, of n looks mi obs o0])
      (metis start option.inject)
  have inv: "pu.inv vi z" if "(gs_step ?a)\<^sup>*\<^sup>* s0 z" for z
  proof -
    have "gs_reachable ?a n cand_list ?cells (vi, o0) z" using that by (simp add: gs_reachable_def s0)
    from pu.reach_inv [OF good args this n len c] show ?thesis .
  qed
  show "pu.inv vi s" by (rule inv [OF run])
  show "same_frame vi (fst (g_obs s))"
    using run
  proof (induction rule: rtranclp_induct)
    case base
    show ?case by (simp add: s0 gs_init_def same_frame_refl)
  next
    case (step y z)
    have "length (g_mem y) = pad_w vi * pad_h vi * dim_t vi" using inv [OF step(1)] by (simp add: gs_inv_def)
    then show ?case by (rule observer_frame_step [OF wf fits step(2,3)])
  qed
  have "e_max_iter ?a = mi" by (simp add: unsafe_args_def)
  then show "\<forall>out. g_outcome s = Some out \<longrightarrow> o_iters out \<le> max 1 mi \<and> (o_converged out \<longrightarrow> \<not> o_cancelled out)"
    using gs_iters_bound [of ?a n cand_list ?cells "(vi, o0)" s] run by (simp add: gs_reachable_def s0)
qed

text \<open>C36: at every moment of every schedule the columns claimed by two threads are disjoint, and with them
  the cells they may store to: each cell has one writer.\<close>

theorem par_unsafe_single_writer:
  assumes "good_pad vi" and "unsafe_start n looks vi max_iter obs o0 = Some s0"
    and "(gs_step (unsafe_args n looks (padded_build vi) max_iter obs))\<^sup>*\<^sup>* s0 s" and "g_outcome s = None"
    and "i < length (g_workers s)" and "j < length (g_workers s)" and "i \<noteq> j"
    and "c \<in> set (pending (g_workers s ! i))" and "d \<in> set (pending (g_workers s ! j))"
  shows "c \<noteq> d \<and> (\<forall>a. own_pad vi c a \<longrightarrow> \<not> own_pad vi d a)"
proof -
  have n: "0 < n"
  proof (rule ccontr)
    assume "\<not> 0 < n"
    then have s0: "g_workers s0 = []" using assms(2) by (auto simp: unsafe_start_def gs_init_def Let_def)
    have "g_workers s = []" using assms(3) s0
    proof (induction rule: rtranclp_induct)
      case (step y z)
      then show ?case by (auto elim!: gs_stepE dest: leader_workers)
    qed simp
    then show False using assms(5) by simp
  qed
  have "pu.inv vi s" by (rule unsafe_reach(1) [OF assms(1) n assms(2,3)])
  from pu.single_writer [OF this assms(4-7)] have ne: "c \<noteq> d" using assms(8,9) by blast
  have "\<not> own_pad vi d a" if "own_pad vi c a" for a
  proof
    assume "own_pad vi d a"
    then obtain t where t: "in_map vi (fst d, snd d, t)" "a = pidx vi (fst d, snd d, t)" unfolding own_pad_def by blast
    from that obtain t' where t': "in_map vi (fst c, snd c, t')" "a = pidx vi (fst c, snd c, t')" unfolding own_pad_def by blast
    have "(fst d, snd d, t) = (fst c, snd c, t')" using pidx_inj [OF t(1) t'(1)] t(2) t'(2) by simp
    then show False using ne by (simp add: prod_eq_iff)
  qed
  with ne show ?thesis by blast
qed

text \<open>C35: the asynchronous solver: under every schedule of its threads it comes to a result, no schedule
  runs forever, it stays within its budget (one round at least), and a result that reports
  convergence satisfies the same clamped equation as the deterministic solver, although threads
  read cells while others write them.\<close>

theorem par_unsafe_fixpoint:
  assumes "wf_vi vi" and "pad_fits vi" and "pad_x vi < 64" and "0 < n"
  shows "(\<exists>res. frontier2d_par_unsafe_returns n looks vi max_iter obs o0 res) \<and>
    wf {(s', s). gs_step (unsafe_args n looks (padded_build vi) max_iter obs) s s'} \<and>
    (\<forall>vi' out o'. frontier2d_par_unsafe_returns n looks vi max_iter obs o0 (vi', out, o') \<longrightarrow>
      same_frame vi vi' \<and> o_iters out \<le> max 1 max_iter \<and>
      (o_converged out \<longrightarrow> (\<forall>c. in_map vi c \<longrightarrow> settled_clamped vi' c \<or> unreached vi' c)))"
proof (intro conjI allI impI)
  let ?m = "padded_build vi"
  let ?a = "unsafe_args n looks ?m max_iter obs"
  have good: "good_pad vi" using assms by (simp add: good_pad_def)
  note rel = padded_build_rel [OF assms(1,2)]
  have dx: "e_dx ?a < 64" using assms(3) rel by (simp add: unsafe_args_def pad_rel_def)
  obtain s0 where s0: "unsafe_start n looks vi max_iter obs o0 = Some s0" by (rule unsafe_start_spec [OF good, of n looks max_iter obs o0])
  show "wf {(s', s). gs_step ?a s s'}" by (rule gs_step_wf)
  from gs_outcome_reached [OF dx, of s0] show "\<exists>res. frontier2d_par_unsafe_returns n looks vi max_iter obs o0 res"
    using s0 unfolding frontier2d_par_unsafe_returns_def by blast
  fix vi' out o' assume "frontier2d_par_unsafe_returns n looks vi max_iter obs o0 (vi', out, o')"
  then obtain s where run: "(gs_step ?a)\<^sup>*\<^sup>* s0 s" and out: "g_outcome s = Some out"
    and fin: "vi' = (if o_cancelled out then fst (g_obs s) else par_materialize n (with_cells ?m (g_mem s)) (fst (g_obs s)))"
    using s0 unfolding frontier2d_par_unsafe_returns_def unsafe_finish_def by auto
  note reach = unsafe_reach [OF good assms(4) s0 run]
  have len: "length (g_mem s) = length (hot ?m)" using reach(1) rel by (simp add: gs_inv_def pad_rel_def)
  note wrel = with_cells_rel [OF rel len]
  show "same_frame vi vi'" using reach(2) materialize_spec(1) [OF assms(1,2) wrel reach(2)] by (simp add: fin)
  show "o_iters out \<le> max 1 max_iter" using reach(3) out by simp
  fix c assume conv: "o_converged out" and c: "in_map vi c"
  obtain x y t where xyt: "c = (x, y, t)" by (cases c)
  have "(x, y) \<in> plane_cells (dim_x vi) (dim_y vi)" using c by (simp add: plane_cells_def xyt)
  from pu.converged [OF reach(1) out conv this] have ok: "clamp_ok (cells_of vi (g_mem s)) vi c"
    using c by (simp add: ok_pad_def xyt)
  have "\<not> o_cancelled out" using reach(3) out conv by simp
  then show "settled_clamped vi' c \<or> unreached vi' c"
    using materialize_settled [OF assms(1,2) wrel reach(2) c ok] by (simp add: fin)
qed

section \<open>A concrete schedule\<close>

text \<open>An executable scheduler that moves the threads in turn.\<close>

definition at_barrier :: "gs_worker \<Rightarrow> bool" where
  "at_barrier w = (case w_phase w of AtBarrier \<Rightarrow> True | _ \<Rightarrow> False)"

fun schedule :: "'o gs_args \<Rightarrow> nat \<Rightarrow> 'o gs_sys \<Rightarrow> 'o gs_sys" where
  "schedule e 0 s = s"
| "schedule e (Suc k) s =
     (if g_outcome s \<noteq> None then s
      else case find (\<lambda>i. \<not> at_barrier (g_workers s ! i)) (rotate k [0..<length (g_workers s)]) of
        None \<Rightarrow> (case leader_turn e s of None \<Rightarrow> s | Some s' \<Rightarrow> schedule e k s')
      | Some i \<Rightarrow> (case worker_turn (e_eval e) (g_workers s ! i) s of
          None \<Rightarrow> s | Some (w, s1) \<Rightarrow> schedule e k (s1\<lparr>g_workers := (g_workers s)[i := w]\<rparr>)))"

lemma at_barrier_iff: "at_barrier w \<longleftrightarrow> w_phase w = AtBarrier"
  by (simp add: at_barrier_def split: gs_phase.split)

lemma schedule_steps: "(gs_step e)\<^sup>*\<^sup>* s (schedule e k s)"
proof (induction e k s rule: schedule.induct)
  case (2 e k s)
  show ?case
  proof (cases "g_outcome s = None")
    case o: True
    show ?thesis
    proof (cases "find (\<lambda>i. \<not> at_barrier (g_workers s ! i)) (rotate k [0..<length (g_workers s)])")
      case None
      then have b: "\<forall>w\<in>set (g_workers s). w_phase w = AtBarrier" by (auto simp: find_None_iff at_barrier_iff in_set_conv_nth)
      show ?thesis
      proof (cases "leader_turn e s")
        case (Some s')
        then show ?thesis using 2(1) [OF _ None Some] o gs_step.lead [OF o b Some] None by (simp add: converse_rtranclp_into_rtranclp)
      qed (use o None in simp)
    next
      case (Some i)
      then have i: "i < length (g_workers s)" by (auto simp: find_Some_iff) (metis length_rotate length_upt diff_zero nth_mem set_rotate set_upt atLeastLessThan_iff)
      show ?thesis
      proof (cases "worker_turn (e_eval e) (g_workers s ! i) s")
        case (Some r)
        obtain w s1 where r: "r = (w, s1)" by (cases r)
        note t = Some [unfolded r]
        show ?thesis
          using 2(2) [OF _ \<open>find _ _ = Some i\<close> t refl] o gs_step.work [OF o i t] \<open>find _ _ = Some i\<close> t
          by (simp add: converse_rtranclp_into_rtranclp)
      qed (use o Some in simp)
    qed
  qed simp
qed simp

definition corridor_args :: "(value_iterator \<times> unit) gs_args" where
  "corridor_args = unsafe_args 2 (\<lambda>_. True) (padded_build corridor) 10 quiet_observer"

lemma corridor_good: "good_pad corridor"
proof -
  have "pad_w corridor * pad_h corridor * dim_t corridor = 15" "pad_x corridor < 64" by code_simp+
  then show ?thesis using corridor_wf by (simp add: good_pad_def pad_fits_def)
qed

theorem par_unsafe_fixpoint_witness:
  "\<exists>vi' out o'. frontier2d_par_unsafe_returns 2 (\<lambda>_. True) corridor 10 quiet_observer () (vi', out, o') \<and> o_converged out
     \<and> o_iters out \<le> 10 \<and> (settled_clamped vi' (0, 0, 0) \<or> unreached vi' (0, 0, 0))"
proof -
  have "map_option (\<lambda>s. map_option o_converged (g_outcome (schedule corridor_args 60 s)))
      (unsafe_start 2 (\<lambda>_. True) corridor 10 quiet_observer ()) = Some (Some True)" by code_simp
  then obtain s0 out where s0: "unsafe_start 2 (\<lambda>_. True) corridor 10 quiet_observer () = Some s0"
    and out: "g_outcome (schedule corridor_args 60 s0) = Some out" "o_converged out" by auto
  obtain vi' o' where fin: "unsafe_finish 2 (padded_build corridor) (schedule corridor_args 60 s0) out = (vi', out, o')"
    by (simp add: unsafe_finish_def)
  have ret: "frontier2d_par_unsafe_returns 2 (\<lambda>_. True) corridor 10 quiet_observer () (vi', out, o')"
    unfolding frontier2d_par_unsafe_returns_def using s0 out(1) fin schedule_steps [of corridor_args s0 60] unfolding corridor_args_def by metis
  have "in_map corridor (0, 0, 0)" by code_simp
  then show ?thesis
    using par_unsafe_fixpoint [of corridor 2 "\<lambda>_. True" 10 quiet_observer "()"] corridor_good ret out(2) unfolding good_pad_def
    by (metis max.absorb2 one_le_numeral zero_less_numeral)
qed

text \<open>A hall of eighteen cells, all with values: two blocks, one for each of two threads.\<close>

definition hall :: value_iterator where
  "hall = (corridor_of (map (\<lambda>i. corridor_state 0 i (i = 17) None) [0..17]))\<lparr>cell_num_x := 18\<rparr>"

lemma hall_good: "good_pad hall"
proof -
  have "wf_vi hall" "pad_w hall * pad_h hall * dim_t hall = 60" "pad_x hall < 64" by code_simp+
  then show ?thesis by (simp add: good_pad_def pad_fits_def)
qed

lemma hall_seeds: "i < 18 \<Longrightarrow> (i, 0, 0) \<in> seeds hall"
proof -
  have "\<forall>i\<in>{..<18}. in_map hall (i, 0, 0) \<and> total_cost (state_at hall (i, 0, 0)) < MAX_COST" by code_simp
  then show "i < 18 \<Longrightarrow> (i, 0, 0) \<in> seeds hall" by (simp add: seeds_def)
qed

lemma claim_step:
  assumes "g_outcome s = None" "i < length (g_workers s)" "w_phase (g_workers s ! i) = Claim" "g_cursor s < length (g_cand s)"
  defines "blk \<equiv> take gs_block (drop (g_cursor s) (g_cand s))"
  shows "gs_step e s (s\<lparr>g_cursor := g_cursor s + gs_block, g_workers := (g_workers s)[i := (g_workers s ! i)\<lparr>w_phase := Run blk (e_eval e (hd blk))\<rparr>]\<rparr>)"
  using gs_step.work [of s i e "(g_workers s ! i)\<lparr>w_phase := Run blk (e_eval e (hd blk))\<rparr>" "s\<lparr>g_cursor := g_cursor s + gs_block\<rparr>"] assms
  by (simp add: worker_turn_def claim_turn_def Let_def)

lemma two_claims:
  assumes "g_outcome s = None" "g_workers s = [fresh_worker, fresh_worker]" "g_cursor s = 0" "16 < length (g_cand s)"
  shows "\<exists>s'. (gs_step e)\<^sup>*\<^sup>* s s' \<and> g_outcome s' = None \<and> length (g_workers s') = 2 \<and>
    g_cand s ! 0 \<in> set (pending (g_workers s' ! 0)) \<and> g_cand s ! 16 \<in> set (pending (g_workers s' ! 1))"
proof -
  define s1 where "s1 = s\<lparr>g_cursor := 16, g_workers := [fresh_worker\<lparr>w_phase := Run (take 16 (g_cand s)) (e_eval e (hd (take 16 (g_cand s))))\<rparr>, fresh_worker]\<rparr>"
  define s2 where "s2 = s1\<lparr>g_cursor := 32, g_workers := [g_workers s1 ! 0, fresh_worker\<lparr>w_phase := Run (take 16 (drop 16 (g_cand s))) (e_eval e (hd (take 16 (drop 16 (g_cand s)))))\<rparr>]\<rparr>"
  have f: "w_phase fresh_worker = Claim" "g_cand s \<noteq> []" using assms(4) by (auto simp: fresh_worker_def)
  have "gs_step e s s1" using claim_step [of s 0 e] assms f by (simp add: s1_def gs_block_def)
  moreover have "gs_step e s1 s2" using claim_step [of s1 1 e] assms f by (simp add: s2_def s1_def gs_block_def)
  ultimately have r: "(gs_step e)\<^sup>*\<^sup>* s s2" by (meson converse_rtranclp_into_rtranclp r_into_rtranclp)
  have "take 16 (g_cand s) ! 0 \<in> set (take 16 (g_cand s))" "take 16 (drop 16 (g_cand s)) ! 0 \<in> set (take 16 (drop 16 (g_cand s)))"
    using assms(4) by (intro nth_mem; simp)+
  then show ?thesis using r assms by (intro exI [of _ s2]) (simp add: s2_def s1_def pending_def)
qed

theorem par_unsafe_single_writer_witness:
  "\<exists>s0 s c d. unsafe_start 2 (\<lambda>_. True) hall 10 quiet_observer () = Some s0 \<and>
     (gs_step (unsafe_args 2 (\<lambda>_. True) (padded_build hall) 10 quiet_observer))\<^sup>*\<^sup>* s0 s \<and>
     c \<in> set (pending (g_workers s ! 0)) \<and> d \<in> set (pending (g_workers s ! 1)) \<and> c \<noteq> d"
proof -
  let ?a = "unsafe_args 2 (\<lambda>_. True) (padded_build hall) 10 quiet_observer"
  obtain cl where s0: "unsafe_start 2 (\<lambda>_. True) hall 10 quiet_observer () = Some (gs_init ?a 2 cl (map fst (hot (padded_build hall))) (hall, ()))"
    and d: "distinct cl" "plane ` seeds hall \<subseteq> set cl"
    by (rule unsafe_start_spec [OF hall_good, of 2 "\<lambda>_. True" 10 quiet_observer "()"])
  have "(\<lambda>i. (i, 0)) ` {..<18} \<subseteq> set cl" using d(2) hall_seeds by (force simp: plane_def)
  then have "card ((\<lambda>i. (i, 0::nat)) ` {..<18::nat}) \<le> card (set cl)" by (intro card_mono) simp_all
  then have len: "16 < length cl" using distinct_card [OF d(1)] by (simp add: card_image inj_on_def)
  obtain s where s: "(gs_step ?a)\<^sup>*\<^sup>* (gs_init ?a 2 cl (map fst (hot (padded_build hall))) (hall, ())) s" "g_outcome s = None"
    "length (g_workers s) = 2" "cl ! 0 \<in> set (pending (g_workers s ! 0))" "cl ! 16 \<in> set (pending (g_workers s ! 1))"
    using two_claims [of "gs_init ?a 2 cl (map fst (hot (padded_build hall))) (hall, ())" ?a] len
    by (auto simp: gs_init_def numeral_2_eq_2)
  moreover have "cl ! 0 \<noteq> cl ! 16"
    using par_unsafe_single_writer [OF hall_good s0 s(1,2), of 0 1 "cl ! 0" "cl ! 16"] s(3-5) by simp
  ultimately show ?thesis using s0 by blast
qed

end
