(* ===== verification/Fused.thy ===== *)
theory Fused
  imports ParUnsafe
begin

text \<open>
  The fused solver (\<^verbatim>\<open>solvers/frontier2d_fused.rs\<close>): one word per cell holds the value plus the penalty,
  and an all-ones sentinel stands for occupied cells and for cells without a value. The arrays are
  built and written back in parallel bands of rows; the search runs on the asynchronous engine.
\<close>

section \<open>The code\<close>

definition UNREACHED :: u64 where
  "UNREACHED = - 1"

fun action_cost_fused :: "u64 list \<Rightarrow> int \<Rightarrow> (int \<times> u64) list \<Rightarrow> u64 \<Rightarrow> u64" where
  "action_cost_fused cps col_base [] cost = drop_bit PROB_BASE_BIT cost"
| "action_cost_fused cps col_base ((off, pr) # buckets) cost =
     (let v = cps ! usize_of (col_base + off) in
      if v = UNREACHED then MAX_COST else action_cost_fused cps col_base buckets (cost + v * pr))"

record geom =
  g_precomp :: "(int \<times> u64) list list list"
  g_nx :: i32
  g_ny :: i32
  g_nt :: i32
  g_mx :: i32
  g_my :: i32
  g_row_stride :: int

definition geom_build :: "value_iterator \<Rightarrow> geom" where
  "geom_build vi =
     (case displacement vi of (mx, my, _) \<Rightarrow>
      let nx = cell_num_x vi; ny = cell_num_y vi; nt = cell_num_t vi;
          nx_pad = wrap32 (nx + 2 * mx);
          stride = wrap32 (nt * nx_pad)
      in \<lparr>g_precomp = build_precomp vi nt stride, g_nx = nx, g_ny = ny, g_nt = nt, g_mx = mx, g_my = my, g_row_stride = stride\<rparr>)"

definition geom_pad_col :: "geom \<Rightarrow> i32 \<Rightarrow> i32 \<Rightarrow> int" where
  "geom_pad_col g ix iy = (ix + g_mx g) * g_nt g + (iy + g_my g) * g_row_stride g"

definition geom_n_pad :: "geom \<Rightarrow> nat" where
  "geom_n_pad g = usize_of (g_row_stride g * wrap32 (g_ny g + 2 * g_my g))"

record fused =
  cp :: "u64 list"
  f_pen :: "u64 list"
  eval_ok :: "bool list"

text \<open>One cell of a row: \<open>k\<close> counts the states of the row, which are as contiguous in the padded row.\<close>

definition fused_cell :: "value_iterator \<Rightarrow> geom \<Rightarrow> nat \<Rightarrow> nat \<Rightarrow> fused \<Rightarrow> fused" where
  "fused_cell vi g y k f =
     (let row_pad = usize_of (g_row_stride g);
          s = states vi ! (y * usize_of (wrap32 (g_nx g * g_nt g)) + k);
          i = row_pad * usize_of (g_my g) + (y * row_pad + usize_of (wrap32 (g_mx g * g_nt g))) + k;
          p = penalty s + local_penalty s
      in f\<lparr>f_pen := (f_pen f)[i := p],
           cp := (if free s \<and> total_cost s \<noteq> MAX_COST then (cp f)[i := total_cost s + p] else cp f),
           eval_ok := (eval_ok f)[i := free s \<and> \<not> final_state s]\<rparr>)"

definition fused_row :: "value_iterator \<Rightarrow> geom \<Rightarrow> nat \<Rightarrow> fused \<Rightarrow> fused" where
  "fused_row vi g y = fold (fused_cell vi g y) [0..<usize_of (wrap32 (g_nx g * g_nt g))]"

definition build_direct :: "nat \<Rightarrow> value_iterator \<Rightarrow> geom \<Rightarrow> fused" where
  "build_direct nthreads vi g =
     (let n_pad = geom_n_pad g; ny = usize_of (g_ny g); band = max 1 (div_ceil ny nthreads)
      in fold (\<lambda>rows. fold (fused_row vi g) rows) (chunks band [0..<ny])
           \<lparr>cp = replicate n_pad UNREACHED, f_pen = replicate n_pad 0, eval_ok = replicate n_pad False\<rparr>)"

definition fused_write_state :: "geom \<Rightarrow> u64 list \<Rightarrow> u64 list \<Rightarrow> nat option list \<Rightarrow> nat \<Rightarrow> state \<Rightarrow> state" where
  "fused_write_state g cps pens opt orig s =
     (let pad_idx = usize_of (st_it s + geom_pad_col g (st_ix s) (st_iy s)); v = cps ! pad_idx
      in s\<lparr>total_cost := (if v = UNREACHED then MAX_COST else v - pens ! pad_idx), optimal_action := opt ! orig\<rparr>)"

definition write_back_fused_on :: "nat \<Rightarrow> geom \<Rightarrow> u64 list \<Rightarrow> u64 list \<Rightarrow> nat option list \<Rightarrow> value_iterator \<Rightarrow> value_iterator" where
  "write_back_fused_on nthreads g cps pens opt vi =
     (let row_st = usize_of (wrap32 (g_nx g * g_nt g));
          band = max 1 (div_ceil (usize_of (cell_num_y vi)) nthreads) * row_st
      in vi\<lparr>states := concat (map (\<lambda>(ci, chunk). map (\<lambda>(k, s). fused_write_state g cps pens opt (ci * band + k) s)
             (List.enumerate 0 chunk)) (List.enumerate 0 (chunks band (states vi))))\<rparr>)"

definition final_policy_fused_on :: "geom \<Rightarrow> u64 list \<Rightarrow> bool list \<Rightarrow> nat \<Rightarrow> bool \<Rightarrow> nat option list" where
  "final_policy_fused_on g cps ok nthreads skip_unreached =
     final_policy_parallel (g_nx g) (g_ny g) (g_nt g) (g_mx g) (g_my g) (g_row_stride g) (g_precomp g) nthreads
       (\<lambda>pad_idx. \<not> ok ! pad_idx \<or> skip_unreached \<and> cps ! pad_idx = UNREACHED)
       (\<lambda>buckets pcol. action_cost_fused cps pcol buckets 0)"

subsection \<open>The evaluation of a column\<close>

fun cost_fused_prog :: "int \<Rightarrow> (int \<times> u64) list \<Rightarrow> u64 \<Rightarrow> (u64 \<Rightarrow> 'a prog) \<Rightarrow> 'a prog" where
  "cost_fused_prog col_base [] cost k = k (drop_bit PROB_BASE_BIT cost)"
| "cost_fused_prog col_base ((off, pr) # buckets) cost k =
     Load (usize_of (col_base + off)) (\<lambda>v. if v = UNREACHED then k MAX_COST else cost_fused_prog col_base buckets (cost + v * pr) k)"

fun min_fused_prog :: "int \<Rightarrow> i32 \<Rightarrow> (int \<times> u64) list list list \<Rightarrow> u64 \<Rightarrow> (u64 \<Rightarrow> 'a prog) \<Rightarrow> 'a prog" where
  "min_fused_prog pcol it [] min_cost k = k min_cost"
| "min_fused_prog pcol it (per_theta # rest) min_cost k =
     cost_fused_prog pcol (per_theta ! usize_of it) 0 (\<lambda>c. min_fused_prog pcol it rest (if c < min_cost then c else min_cost) k)"

fun column_fused_prog :: "geom \<Rightarrow> fused \<Rightarrow> int \<Rightarrow> i32 list \<Rightarrow> bool \<Rightarrow> u64 \<Rightarrow> (bool \<times> u64) prog" where
  "column_fused_prog g f pcol [] cell_changed ups = Ret (cell_changed, ups)"
| "column_fused_prog g f pcol (it # its) cell_changed ups =
     (let pad_idx = usize_of (pcol + it) in
      if \<not> eval_ok f ! pad_idx then column_fused_prog g f pcol its cell_changed ups
      else Load pad_idx (\<lambda>cp_self.
        let pen_self = f_pen f ! pad_idx;
            v_before = (if cp_self = UNREACHED then MAX_COST else cp_self - pen_self)
        in min_fused_prog pcol it (g_precomp g) MAX_COST (\<lambda>min_cost.
          if min_cost \<noteq> v_before then Store pad_idx (min_cost + pen_self) (column_fused_prog g f pcol its True (ups + 1))
          else column_fused_prog g f pcol its cell_changed ups)))"

definition eval_fused :: "geom \<Rightarrow> fused \<Rightarrow> eval_prog" where
  "eval_fused g f = (\<lambda>(ixu, iyu). column_fused_prog g f (geom_pad_col g (int ixu) (int iyu)) [0..g_nt g - 1] False 0)"

subsection \<open>The solver\<close>

definition fused_materialize :: "nat \<Rightarrow> geom \<Rightarrow> fused \<Rightarrow> u64 list \<Rightarrow> bool \<Rightarrow> value_iterator \<Rightarrow> value_iterator" where
  "fused_materialize nthreads g f cps skip_unreached vi =
     write_back_fused_on nthreads g cps (f_pen f) (final_policy_fused_on g cps (eval_ok f) nthreads skip_unreached) vi"

definition fused_boundary ::
  "nat \<Rightarrow> (nat \<Rightarrow> bool) \<Rightarrow> geom \<Rightarrow> fused \<Rightarrow> 'o solve_observer \<Rightarrow> nat \<Rightarrow> u64 \<Rightarrow> u64 list \<Rightarrow> value_iterator \<times> 'o \<Rightarrow> solve_flow \<times> value_iterator \<times> 'o" where
  "fused_boundary nthreads looks g f obs iters updates cps = (\<lambda>(vi, o').
     let vi' = fused_materialize nthreads g f cps False vi in
     case boundary obs o' \<lparr>pr_vi = vi', pr_iters = iters, pr_updates = updates\<rparr> of
       (flow, o'') \<Rightarrow> (flow, if looks iters then vi' else vi, o''))"

definition fused_args :: "nat \<Rightarrow> (nat \<Rightarrow> bool) \<Rightarrow> geom \<Rightarrow> fused \<Rightarrow> nat \<Rightarrow> 'o solve_observer \<Rightarrow> (value_iterator \<times> 'o) gs_args" where
  "fused_args nthreads looks g f max_iter obs =
     \<lparr>e_nx = nat (g_nx g), e_ny = nat (g_ny g), e_dx = nat (g_mx g), e_dy = nat (g_my g), e_max_iter = max_iter,
      e_eval = eval_fused g f, e_interval = interval obs, e_boundary = fused_boundary nthreads looks g f obs\<rparr>"

definition fused_start ::
  "nat \<Rightarrow> (nat \<Rightarrow> bool) \<Rightarrow> value_iterator \<Rightarrow> nat \<Rightarrow> 'o solve_observer \<Rightarrow> 'o \<Rightarrow> (value_iterator \<times> 'o) gs_sys option" where
  "fused_start nthreads looks vi max_iter obs o0 =
     (let g = geom_build vi; f = build_direct nthreads vi g in
      map_option (\<lambda>d. gs_init (fused_args nthreads looks g f max_iter obs) nthreads (enumerate2 d) (cp f) (vi, o0))
        (dilate2d (seed_frontier_2d vi) (nat (g_mx g)) (nat (g_my g))))"

definition fused_finish :: "nat \<Rightarrow> geom \<Rightarrow> fused \<Rightarrow> (value_iterator \<times> 'o) gs_sys \<Rightarrow> solve_outcome \<Rightarrow> value_iterator \<times> solve_outcome \<times> 'o" where
  "fused_finish nthreads g f s out =
     ((if o_cancelled out then fst (g_obs s) else fused_materialize nthreads g f (g_mem s) (o_converged out) (fst (g_obs s))), out, snd (g_obs s))"

text \<open>The results the solver may return, one for each schedule of the threads.\<close>

definition frontier2d_fused_returns ::
  "nat \<Rightarrow> (nat \<Rightarrow> bool) \<Rightarrow> value_iterator \<Rightarrow> nat \<Rightarrow> 'o solve_observer \<Rightarrow> 'o \<Rightarrow> value_iterator \<times> solve_outcome \<times> 'o \<Rightarrow> bool" where
  "frontier2d_fused_returns nthreads looks vi max_iter obs o0 res \<longleftrightarrow>
     (let g = geom_build vi; f = build_direct nthreads vi g in
      \<exists>s0 s out. fused_start nthreads looks vi max_iter obs o0 = Some s0 \<and>
        (gs_step (fused_args nthreads looks g f max_iter obs))\<^sup>*\<^sup>* s0 s \<and>
        g_outcome s = Some out \<and> res = fused_finish nthreads g f s out)"

section \<open>The fused arrays are the padded arrays\<close>

lemma geom_fields:
  "g_precomp (geom_build vi) = precomp (padded_build vi)" "g_nx (geom_build vi) = p_nx (padded_build vi)"
  "g_ny (geom_build vi) = p_ny (padded_build vi)" "g_nt (geom_build vi) = p_nt (padded_build vi)"
  "g_mx (geom_build vi) = p_mx (padded_build vi)" "g_my (geom_build vi) = p_my (padded_build vi)"
  "g_row_stride (geom_build vi) = row_stride (padded_build vi)"
  by (simp_all add: geom_build_def padded_build_def Let_def split: prod.split)

lemma geom_pad_col_eq: "geom_pad_col (geom_build vi) ix iy = pad_col (padded_build vi) ix iy"
  by (simp add: geom_pad_col_def pad_col_def geom_fields)

text \<open>The encoding of a padded cell.\<close>

definition fuse_cell :: "u64 \<times> u64 \<Rightarrow> bool \<Rightarrow> u64" where
  "fuse_cell h fr = (if \<not> fr \<or> fst h = MAX_COST then UNREACHED else fst h + snd h)"

definition fuse_of :: "padded \<Rightarrow> u64 list" where
  "fuse_of m = map (\<lambda>i. fuse_cell (hot m ! i) (p_free m ! i)) [0..<length (hot m)]"

definition row_cell :: "value_iterator \<Rightarrow> nat \<Rightarrow> nat \<Rightarrow> cell" where
  "row_cell vi y k = (k div dim_t vi, y, k mod dim_t vi)"

lemma row_cell_spec:
  assumes wf: "wf_vi vi" and fits: "pad_fits vi" and y: "y < dim_y vi" and k: "k < dim_x vi * dim_t vi"
  shows "in_map vi (row_cell vi y k)"
    "usize_of (g_row_stride (geom_build vi)) * usize_of (g_my (geom_build vi)) +
      (y * usize_of (g_row_stride (geom_build vi)) + usize_of (wrap32 (g_mx (geom_build vi) * g_nt (geom_build vi)))) + k = pidx vi (row_cell vi y k)"
    "y * usize_of (wrap32 (g_nx (geom_build vi) * g_nt (geom_build vi))) + k = cidx vi (row_cell vi y k)"
proof -
  note rel = padded_build_rel [OF wf fits]
  have t: "0 < dim_t vi" by (rule wf_dims_pos(3) [OF wf])
  have km: "k = k div dim_t vi * dim_t vi + k mod dim_t vi" by simp
  have x: "k div dim_t vi < dim_x vi" using k by (simp add: less_mult_imp_div_less)
  then show im: "in_map vi (row_cell vi y k)" using y t by (simp add: row_cell_def)
  have N: "pad_w vi * pad_h vi * dim_t vi < 2 ^ 31" using fits by (simp add: pad_fits_def)
  have pos: "0 < pad_w vi" "0 < pad_h vi" using wf_dims_pos(1,2) [OF wf] by (simp_all add: pad_w_def pad_h_def)
  have w: "pad_w vi * dim_t vi \<le> pad_w vi * pad_h vi * dim_t vi" "pad_x vi * dim_t vi \<le> pad_w vi * pad_h vi * dim_t vi" "pad_y vi \<le> pad_w vi * pad_h vi * dim_t vi"
  proof -
    show "pad_w vi * dim_t vi \<le> pad_w vi * pad_h vi * dim_t vi" using pos by simp
    have "pad_x vi * dim_t vi \<le> pad_w vi * dim_t vi" by (simp add: pad_w_def)
    also have "\<dots> \<le> pad_w vi * pad_h vi * dim_t vi" using pos by simp
    finally show "pad_x vi * dim_t vi \<le> pad_w vi * pad_h vi * dim_t vi" .
    have "pad_y vi \<le> pad_h vi" by (simp add: pad_h_def)
    also have "\<dots> \<le> pad_w vi * pad_h vi * dim_t vi" using pos t by simp
    finally show "pad_y vi \<le> pad_w vi * pad_h vi * dim_t vi" .
  qed
  have f: "g_row_stride (geom_build vi) = int (pad_w vi * dim_t vi)" "g_my (geom_build vi) = int (pad_y vi)"
    "g_mx (geom_build vi) * g_nt (geom_build vi) = int (pad_x vi * dim_t vi)" "g_nx (geom_build vi) * g_nt (geom_build vi) = int (dim_x vi * dim_t vi)"
    using rel int_dims [OF wf] by (simp_all add: geom_fields pad_rel_def mult.commute)
  have u: "usize_of (int (pad_w vi * dim_t vi)) = pad_w vi * dim_t vi" "usize_of (int (pad_y vi)) = pad_y vi"
    "usize_of (wrap32 (int (pad_x vi * dim_t vi))) = pad_x vi * dim_t vi"
  proof -
    show "usize_of (int (pad_w vi * dim_t vi)) = pad_w vi * dim_t vi" "usize_of (int (pad_y vi)) = pad_y vi"
      by (rule usize_of_int; use w N in linarith)+
    have "pad_x vi * dim_t vi < 2 ^ 31" using w N by linarith
    then show "usize_of (wrap32 (int (pad_x vi * dim_t vi))) = pad_x vi * dim_t vi" by (simp only: wrap32_nat usize_of_int)
  qed
  show "usize_of (g_row_stride (geom_build vi)) * usize_of (g_my (geom_build vi)) +
      (y * usize_of (g_row_stride (geom_build vi)) + usize_of (wrap32 (g_mx (geom_build vi) * g_nt (geom_build vi)))) + k = pidx vi (row_cell vi y k)"
    unfolding f u by (subst km) (simp add: pidx_def pcell_def row_cell_def algebra_simps)
  have "dim_x vi * dim_t vi \<le> dim_x vi * dim_y vi * dim_t vi" using wf_dims_pos(2) [OF wf] by simp
  then have "dim_x vi * dim_t vi < 2 ^ 31" using wf_dims_pos(4) [OF wf] by linarith
  then have "usize_of (wrap32 (int (dim_x vi * dim_t vi))) = dim_x vi * dim_t vi" by (simp only: wrap32_nat usize_of_int)
  then show "y * usize_of (wrap32 (g_nx (geom_build vi) * g_nt (geom_build vi))) + k = cidx vi (row_cell vi y k)"
    unfolding f(4) by (subst km) (simp add: row_cell_def algebra_simps)
qed

text \<open>Filling the arrays, cell by cell.\<close>

definition pen_at :: "value_iterator \<Rightarrow> cell \<Rightarrow> u64" where
  "pen_at vi c = penalty (state_at vi c) + local_penalty (state_at vi c)"

definition has_value :: "value_iterator \<Rightarrow> cell \<Rightarrow> bool" where
  "has_value vi c \<longleftrightarrow> free (state_at vi c) \<and> total_cost (state_at vi c) \<noteq> MAX_COST"

definition fill :: "value_iterator \<Rightarrow> cell \<Rightarrow> fused \<Rightarrow> fused" where
  "fill vi c f = f\<lparr>f_pen := (f_pen f)[pidx vi c := pen_at vi c],
     cp := (if has_value vi c then (cp f)[pidx vi c := total_cost (state_at vi c) + pen_at vi c] else cp f),
     eval_ok := (eval_ok f)[pidx vi c := eligible vi c]\<rparr>"

definition row_cells :: "value_iterator \<Rightarrow> cell list" where
  "row_cells vi = concat (map (\<lambda>y. map (row_cell vi y) [0..<dim_x vi * dim_t vi]) [0..<dim_y vi])"

lemma set_row_cells: "wf_vi vi \<Longrightarrow> pad_fits vi \<Longrightarrow> set (row_cells vi) = {c. in_map vi c}"
proof -
  assume wf: "wf_vi vi" and fits: "pad_fits vi"
  have "(x, y, t) \<in> set (row_cells vi)" if "in_map vi (x, y, t)" for x y t
  proof -
    have t: "t < dim_t vi" "x < dim_x vi" "y < dim_y vi" using that by simp_all
    have "x * dim_t vi + t < Suc x * dim_t vi" using t by simp
    also have "\<dots> \<le> dim_x vi * dim_t vi" using t by (intro mult_le_mono1) simp
    finally have "x * dim_t vi + t < dim_x vi * dim_t vi" .
    moreover have "row_cell vi y (x * dim_t vi + t) = (x, y, t)" using t by (simp add: row_cell_def)
    ultimately show ?thesis using t unfolding row_cells_def by force
  qed
  moreover have "in_map vi c" if "c \<in> set (row_cells vi)" for c
    using that row_cell_spec(1) [OF wf fits] by (auto simp: row_cells_def simp del: in_map.simps)
  ultimately show ?thesis by (auto simp del: in_map.simps)
qed

lemma build_direct_seq:
  assumes wf: "wf_vi vi" and fits: "pad_fits vi"
  shows "build_direct n vi (geom_build vi) = fold (fill vi) (row_cells vi)
    \<lparr>cp = replicate (pad_w vi * pad_h vi * dim_t vi) UNREACHED, f_pen = replicate (pad_w vi * pad_h vi * dim_t vi) 0,
     eval_ok = replicate (pad_w vi * pad_h vi * dim_t vi) False\<rparr>"
proof -
  let ?g = "geom_build vi"
  note rel = padded_build_rel [OF wf fits]
  have cell: "fused_cell vi ?g y k f = fill vi (row_cell vi y k) f" if "y < dim_y vi" "k < dim_x vi * dim_t vi" for y k f
    unfolding fused_cell_def Let_def row_cell_spec(2,3) [OF wf fits that]
    by (simp add: fill_def pen_at_def has_value_def eligible_def state_at_def)
  have small: "dim_x vi * dim_t vi < 2 ^ 31" "dim_y vi < 2 ^ 31"
  proof -
    have "dim_x vi * dim_t vi \<le> dim_x vi * dim_y vi * dim_t vi" "dim_y vi \<le> dim_x vi * dim_y vi * dim_t vi"
      using wf_dims_pos(1-3) [OF wf] by simp_all
    then show "dim_x vi * dim_t vi < 2 ^ 31" "dim_y vi < 2 ^ 31" using wf_dims_pos(4) [OF wf] by linarith+
  qed
  have f: "g_nx ?g * g_nt ?g = int (dim_x vi * dim_t vi)" "g_ny ?g = int (dim_y vi)" "g_ny ?g + 2 * g_my ?g = int (pad_h vi)"
    "g_row_stride ?g * int (pad_h vi) = int (pad_w vi * pad_h vi * dim_t vi)"
    using rel int_dims [OF wf] by (simp_all add: geom_fields pad_rel_def pad_h_def algebra_simps)
  have row: "usize_of (wrap32 (g_nx ?g * g_nt ?g)) = dim_x vi * dim_t vi" unfolding f(1) using small by (simp only: wrap32_nat usize_of_int)
  have ny: "usize_of (g_ny ?g) = dim_y vi" unfolding f(2) using small by (simp only: usize_of_int)
  have N: "geom_n_pad ?g = pad_w vi * pad_h vi * dim_t vi"
  proof -
    have "pad_h vi \<le> pad_w vi * pad_h vi * dim_t vi" using wf_dims_pos(1,3) [OF wf] by (simp add: pad_w_def)
    then have "pad_h vi < 2 ^ 31" using fits unfolding pad_fits_def by linarith
    then show ?thesis unfolding geom_n_pad_def f(3) using fits by (simp only: wrap32_nat f(4) usize_of_int pad_fits_def)
  qed
  have row_fold: "fused_row vi ?g y f = fold (fill vi) (map (row_cell vi y) [0..<dim_x vi * dim_t vi]) f" if "y < dim_y vi" for y f
    unfolding fused_row_def row fold_map comp_def by (rule fold_cong) (use that cell in auto)
  have "fold (fused_row vi ?g) ys f = fold (fill vi) (concat (map (\<lambda>y. map (row_cell vi y) [0..<dim_x vi * dim_t vi]) ys)) f"
    if "\<forall>y\<in>set ys. y < dim_y vi" for ys f
    using that by (induction ys arbitrary: f) (simp_all add: row_fold)
  then show ?thesis unfolding build_direct_def Let_def fold_parts N ny row_cells_def by (subst concat_chunks) simp_all
qed

lemma fill_parts:
  "f_pen (fold (fill vi) cs f) = fold (\<lambda>c a. a[pidx vi c := pen_at vi c]) cs (f_pen f)"
  "eval_ok (fold (fill vi) cs f) = fold (\<lambda>c a. a[pidx vi c := eligible vi c]) cs (eval_ok f)"
  "cp (fold (fill vi) cs f) = fold (\<lambda>c a. a[pidx vi c := total_cost (state_at vi c) + pen_at vi c]) (filter (has_value vi) cs) (cp f)"
  by (induction cs arbitrary: f) (simp_all add: fill_def)

text \<open>Every padded index is a cell of the map or lies on the border.\<close>

lemma pad_index_cases:
  assumes wf: "wf_vi vi" and i: "i < pad_w vi * pad_h vi * dim_t vi"
  obtains (cell) c where "in_map vi c" "i = pidx vi c"
  | (border) px py t where "px < pad_w vi" "py < pad_h vi" "t < dim_t vi" "i = pcell vi px py t"
      "\<not> (pad_x vi \<le> px \<and> px < pad_x vi + dim_x vi \<and> pad_y vi \<le> py \<and> py < pad_y vi + dim_y vi)" "\<forall>c. in_map vi c \<longrightarrow> pidx vi c \<noteq> i"
proof -
  define px py t where "px = i div dim_t vi mod pad_w vi" and "py = i div dim_t vi div pad_w vi" and "t = i mod dim_t vi"
  have pos: "0 < dim_t vi" "0 < pad_w vi" using wf_dims_pos(1,3) [OF wf] by (simp_all add: pad_w_def)
  have i': "i = pcell vi px py t" by (simp add: pcell_def px_def py_def t_def)
  have b: "px < pad_w vi" "t < dim_t vi" using pos by (simp_all add: px_def t_def)
  have "i div dim_t vi < pad_h vi * pad_w vi" using i by (simp add: less_mult_imp_div_less mult.commute)
  then have py: "py < pad_h vi" by (simp add: py_def less_mult_imp_div_less)
  show thesis
  proof (cases "pad_x vi \<le> px \<and> px < pad_x vi + dim_x vi \<and> pad_y vi \<le> py \<and> py < pad_y vi + dim_y vi")
    case True
    then have "in_map vi (px - pad_x vi, py - pad_y vi, t)" "i = pidx vi (px - pad_x vi, py - pad_y vi, t)"
      using b unfolding i' by (auto simp: pidx_def)
    then show thesis by (rule cell)
  next
    case False
    have "pidx vi c \<noteq> i" if c: "in_map vi c" for c
    proof
      assume e: "pidx vi c = i"
      obtain x y t' where xyt: "c = (x, y, t')" by (cases c)
      have "pcell vi (x + pad_x vi) (y + pad_y vi) t' = pcell vi px py t" using e i' by (simp add: pidx_def xyt)
      then have "x + pad_x vi = px" "y + pad_y vi = py" using pcell_eq [of "x + pad_x vi" vi t' px t] c b xyt by (auto simp: pad_w_def)
      then show False using False c xyt by auto
    qed
    then show thesis using border [OF b(1) py b(2) i' False] by blast
  qed
qed

lemma fold_write_cell:
  assumes "set cs \<subseteq> {c. in_map vi c}" "c \<in> set cs"
  shows "fold (\<lambda>c a. a[pidx vi c := g c]) cs (replicate (pad_w vi * pad_h vi * dim_t vi) z) ! pidx vi c = g c"
proof (rule fold_write_same)
  have c: "in_map vi c" using assms by blast
  show "pidx vi c < length (replicate (pad_w vi * pad_h vi * dim_t vi) z)" using pidx_less [OF c] by simp
  show "\<exists>s\<in>set cs. pidx vi s = pidx vi c" using assms(2) by blast
  show "\<forall>s\<in>set cs. pidx vi s = pidx vi c \<longrightarrow> g s = g c" using pidx_inj [OF _ c] assms(1) by blast
qed

text \<open>What the build leaves in the arrays, for every number of threads.\<close>

lemma build_direct_spec:
  assumes wf: "wf_vi vi" and fits: "pad_fits vi"
  shows "cp (build_direct n vi (geom_build vi)) = fuse_of (padded_build vi)"
    and "in_map vi c \<Longrightarrow> f_pen (build_direct n vi (geom_build vi)) ! pidx vi c = pen_at vi c"
    and "in_map vi c \<Longrightarrow> eval_ok (build_direct n vi (geom_build vi)) ! pidx vi c = eligible vi c"
proof -
  let ?N = "pad_w vi * pad_h vi * dim_t vi"
  note rel = padded_build_rel [OF wf fits] and cs = set_row_cells [OF wf fits] and seq = build_direct_seq [OF wf fits, of n]
  show "f_pen (build_direct n vi (geom_build vi)) ! pidx vi c = pen_at vi c" "eval_ok (build_direct n vi (geom_build vi)) ! pidx vi c = eligible vi c"
    if "in_map vi c"
    using that cs unfolding seq fill_parts by (simp_all add: fold_write_cell del: in_map.simps)
  let ?W = "\<lambda>c a. a[pidx vi c := total_cost (state_at vi c) + pen_at vi c]" and ?cs = "filter (has_value vi) (row_cells vi)"
  have cp: "cp (build_direct n vi (geom_build vi)) = fold ?W ?cs (replicate ?N UNREACHED)" unfolding seq fill_parts by simp
  have len: "length (hot (padded_build vi)) = ?N" using rel by (simp add: pad_rel_def)
  show "cp (build_direct n vi (geom_build vi)) = fuse_of (padded_build vi)"
    unfolding cp
  proof (rule nth_equalityI)
    show "length (fold ?W ?cs (replicate ?N UNREACHED)) = length (fuse_of (padded_build vi))" by (simp add: fold_write_length fuse_of_def len)
    fix i assume "i < length (fold ?W ?cs (replicate ?N UNREACHED))"
    then have i: "i < ?N" by (simp add: fold_write_length)
    have fuse: "fuse_of (padded_build vi) ! i = fuse_cell (hot (padded_build vi) ! i) (p_free (padded_build vi) ! i)" using i len by (simp add: fuse_of_def)
    from wf i show "fold ?W ?cs (replicate ?N UNREACHED) ! i = fuse_of (padded_build vi) ! i"
    proof (cases rule: pad_index_cases)
      case (cell c)
      note at = pad_rel_at [OF rel cell(1)]
      show ?thesis
      proof (cases "has_value vi c")
        case True
        then have "fold ?W ?cs (replicate ?N UNREACHED) ! pidx vi c = total_cost (state_at vi c) + pen_at vi c"
          by (intro fold_write_cell) (use cs cell(1) in auto)
        then show ?thesis using True at unfolding cell(2) fuse [unfolded cell(2)] by (simp add: fuse_cell_def has_value_def pen_at_def)
      next
        case False
        have "\<forall>s\<in>set ?cs. pidx vi s \<noteq> pidx vi c" using False cs pidx_inj [OF _ cell(1)] by auto
        then have "fold ?W ?cs (replicate ?N UNREACHED) ! pidx vi c = UNREACHED" using i cell(2) by (simp add: fold_write_other)
        then show ?thesis using False at unfolding cell(2) fuse [unfolded cell(2)] by (auto simp: fuse_cell_def has_value_def)
      qed
    next
      case (border px py t)
      have "\<forall>s\<in>set ?cs. pidx vi s \<noteq> i" using border(6) cs by auto
      then have "fold ?W ?cs (replicate ?N UNREACHED) ! i = UNREACHED" using i by (simp add: fold_write_other)
      moreover have "\<not> p_free (padded_build vi) ! i" using rel border(1-5) unfolding pad_rel_def by blast
      ultimately show ?thesis unfolding fuse by (simp add: fuse_cell_def)
    qed
  qed
qed

section \<open>The fused cost\<close>

text \<open>No value with its penalty collides with the sentinel. The code relies on it: values stay below
  \<open>MAX_COST\<close> and penalties far below the rest of the range.\<close>

definition no_collision :: "padded \<Rightarrow> bool" where
  "no_collision m \<longleftrightarrow> (\<forall>i<length (hot m). p_free m ! i \<and> fst (hot m ! i) \<noteq> MAX_COST \<longrightarrow> fst (hot m ! i) + snd (hot m ! i) \<noteq> UNREACHED)"

lemma fuse_of_at: "i < length (hot m) \<Longrightarrow> fuse_of m ! i = fuse_cell (hot m ! i) (p_free m ! i)"
  by (simp add: fuse_of_def)

lemma action_cost_fused_pad:
  assumes nc: "no_collision m" and "\<forall>(off, pr)\<in>set buckets. usize_of (col + off) < length (hot m)"
  shows "action_cost_fused (fuse_of m) col buckets cost = action_cost_pad (hot m) (p_free m) col buckets cost"
  using assms(2)
proof (induction buckets arbitrary: cost)
  case (Cons b buckets)
  obtain off pr where b: "b = (off, pr)" by (cases b)
  have i: "usize_of (col + off) < length (hot m)" using Cons.prems by (simp add: b)
  have IH: "action_cost_fused (fuse_of m) col buckets c = action_cost_pad (hot m) (p_free m) col buckets c" for c
    using Cons by simp
  show ?case using nc i IH unfolding no_collision_def b by (auto simp: fuse_of_at fuse_cell_def Let_def)
qed simp

text \<open>The buckets of a cell stay inside the padded array.\<close>

lemma bucket_bounds:
  assumes wf: "wf_vi vi" and fits: "pad_fits vi" and rel: "pad_rel vi V m" and c: "in_map vi (x, y, t)" and pt: "pt \<in> set (precomp m)"
  shows "\<forall>(off, pr)\<in>set (pt ! t). usize_of (pad_col m (int x) (int y) + off) < length (hot m)"
proof -
  obtain i where i: "i < length (actions vi)" "precomp m ! i = pt" using pt length_precomp [OF rel] by (auto simp: in_set_conv_nth)
  have t: "t < dim_t vi" using c by simp
  have "usize_of (pad_col m (int x) (int y) + fst (bucket vi tr)) < length (hot m)" if "tr \<in> set (state_transitions (actions vi ! i) ! t)" for tr
    using pad_target(1) [OF wf fits c transition_bounds [OF wf nth_mem [OF i(1)] t that] rel] rel by (simp add: bucket_def Let_def pad_rel_def)
  then show ?thesis unfolding i(2) [symmetric] precomp_buckets [OF rel i(1) t] by (simp add: split_def)
qed

section \<open>Writing back\<close>

lemma chunks_enumerate:
  "0 < n \<Longrightarrow> concat (map (\<lambda>(ci, chunk). map (\<lambda>(k, s). f (ci * n + k) s) (List.enumerate 0 chunk)) (List.enumerate j (chunks n xs)))
     = map (\<lambda>(i, s). f i s) (List.enumerate (j * n) xs)"
proof (induction n xs arbitrary: j rule: chunks.induct)
  case (1 n xs)
  show ?case
  proof (cases "xs = []")
    case True
    then show ?thesis by (subst chunks.simps) simp
  next
    case False
    have IH: "concat (map (\<lambda>(ci, chunk). map (\<lambda>(k, s). f (ci * n + k) s) (List.enumerate 0 chunk)) (List.enumerate (Suc j) (chunks n (drop n xs))))
        = map (\<lambda>(i, s). f i s) (List.enumerate (Suc j * n) (drop n xs))" by (rule "1.IH") (use False 1(2) in simp_all)
    have head: "map (\<lambda>(k, s). f (j * n + k) s) (List.enumerate 0 (take n xs)) = map (\<lambda>(i, s). f i s) (List.enumerate (j * n) (take n xs))"
      by (rule nth_equalityI) (simp_all add: nth_enumerate_eq)
    have "List.enumerate (j * n) xs = List.enumerate (j * n) (take n xs) @ List.enumerate (Suc j * n) (drop n xs)"
    proof (cases "n \<le> length xs")
      case True
      then show ?thesis using enumerate_append_eq [of "j * n" "take n xs" "drop n xs"] by (simp add: add.commute)
    next
      case False
      then show ?thesis by simp
    qed
    then show ?thesis using False 1(2) IH head by (subst chunks.simps) simp
  qed
qed

lemma policy_cell_cong:
  assumes "skip (usize_of (pcol + it)) = skip' (usize_of (pcol + it))"
    and "\<And>pt. pt \<in> set pre \<Longrightarrow> cost (pt ! usize_of it) pcol = cost' (pt ! usize_of it) pcol"
  shows "policy_cell skip cost pre pcol orig it = policy_cell skip' cost' pre pcol orig it"
proof -
  have "fold (\<lambda>(ai, pt) (mc, ma). let c = cost (pt ! usize_of it) pcol in if c < mc then (c, Some ai) else (mc, ma)) (List.enumerate 0 pre) z =
      fold (\<lambda>(ai, pt) (mc, ma). let c = cost' (pt ! usize_of it) pcol in if c < mc then (c, Some ai) else (mc, ma)) (List.enumerate 0 pre) z" for z
    by (rule fold_cong) (auto simp: assms(2) in_set_enumerate_eq)
  then show ?thesis by (simp add: policy_cell_def assms(1))
qed

text \<open>The padded model with other values in its cells.\<close>

lemma with_cells_fields: "precomp (with_cells m cells) = precomp m" "p_free (with_cells m cells) = p_free m" "finals (with_cells m cells) = finals m"
  "p_nx (with_cells m cells) = p_nx m" "p_ny (with_cells m cells) = p_ny m" "p_nt (with_cells m cells) = p_nt m" "p_mx (with_cells m cells) = p_mx m"
  "p_my (with_cells m cells) = p_my m" "row_stride (with_cells m cells) = row_stride m" "pad_col (with_cells m cells) = pad_col m"
  by (simp_all add: with_cells_def pad_col_def fun_eq_iff)

text \<open>The final policy pass on the encoding is that on the padded arrays; with \<open>skip\<close> it also leaves out the cells
  without a value.\<close>

lemma final_policy_fused_pad:
  assumes wf: "wf_vi vi" and fits: "pad_fits vi" and len: "length cells = length (hot (padded_build vi))"
    and nc: "no_collision (with_cells (padded_build vi) cells)" and c0: "in_map vi c"
  defines "m \<equiv> with_cells (padded_build vi) cells"
  shows "final_policy_fused_on (geom_build vi) (fuse_of m) (eval_ok (build_direct k vi (geom_build vi))) n skip ! cidx vi c =
    (if skip \<and> fuse_of m ! pidx vi c = UNREACHED then None else final_policy m n' ! cidx vi c)"
proof -
  let ?ok = "eval_ok (build_direct k vi (geom_build vi))" and ?off = "\<lambda>i. skip \<and> fuse_of m ! i = UNREACHED"
  note rel = with_cells_rel [OF padded_build_rel [OF wf fits] len, folded m_def]
  have fields: "p_nx m = cell_num_x vi" "p_ny m = cell_num_y vi" "p_nt m = cell_num_t vi" using rel by (simp_all add: pad_rel_def)
  have cell: "policy_cell (\<lambda>i. \<not> ?ok ! i \<or> skip \<and> fuse_of m ! i = UNREACHED) (\<lambda>buckets pcol. action_cost_fused (fuse_of m) pcol buckets 0)
      (precomp m) (pad_col m (int x) (int y)) orig (int t) =
    policy_cell (\<lambda>i. (\<not> p_free m ! i \<or> finals m ! i) \<or> ?off i) (\<lambda>buckets pcol. action_cost_pad (hot m) (p_free m) pcol buckets 0)
      (precomp m) (pad_col m (int x) (int y)) orig (int t)" if c: "in_map vi (x, y, t)" for x y t orig
  proof (rule policy_cell_cong)
    show "(\<not> ?ok ! usize_of (pad_col m (int x) (int y) + int t) \<or> skip \<and> fuse_of m ! usize_of (pad_col m (int x) (int y) + int t) = UNREACHED) =
      ((\<not> p_free m ! usize_of (pad_col m (int x) (int y) + int t) \<or> finals m ! usize_of (pad_col m (int x) (int y) + int t))
        \<or> ?off (usize_of (pad_col m (int x) (int y) + int t)))"
      unfolding pad_col_idx [OF wf fits c rel] using pad_rel_at(2,3) [OF rel c] build_direct_spec(3) [OF wf fits c, of k] by (simp add: eligible_def)
    have t: "usize_of (int t) = t" using usize_theta [OF wf] c by simp
    show "action_cost_fused (fuse_of m) (pad_col m (int x) (int y)) (pt ! usize_of (int t)) 0 =
        action_cost_pad (hot m) (p_free m) (pad_col m (int x) (int y)) (pt ! usize_of (int t)) 0" if "pt \<in> set (precomp m)" for pt
      unfolding t by (rule action_cost_fused_pad [OF nc [folded m_def] bucket_bounds [OF wf fits rel c that]])
  qed
  have u: "[0..cell_num_x vi - 1] = map int [0..<dim_x vi]" "[0..cell_num_y vi - 1] = map int [0..<dim_y vi]"
    "[0..cell_num_t vi - 1] = map int [0..<dim_t vi]"
    using wf by (simp_all add: upto_conv_upt wf_vi_def dim_x_def dim_y_def dim_t_def)
  have pc: "(int x + p_mx m) * cell_num_t vi + (int y + p_my m) * row_stride m = pad_col m (int x) (int y)" for x y
    using fields by (simp add: pad_col_def)
  have g: "g_nx (geom_build vi) = cell_num_x vi" "g_ny (geom_build vi) = cell_num_y vi" "g_nt (geom_build vi) = cell_num_t vi"
    "g_mx (geom_build vi) = p_mx m" "g_my (geom_build vi) = p_my m" "g_row_stride (geom_build vi) = row_stride m" "g_precomp (geom_build vi) = precomp m"
    using fields by (simp_all add: geom_fields m_def with_cells_fields)
  have "final_policy_fused_on (geom_build vi) (fuse_of m) ?ok n skip =
      final_policy_parallel (cell_num_x vi) (cell_num_y vi) (cell_num_t vi) (p_mx m) (p_my m) (row_stride m) (precomp m) n
        (\<lambda>i. (\<not> p_free m ! i \<or> finals m ! i) \<or> ?off i) (\<lambda>buckets pcol. action_cost_pad (hot m) (p_free m) pcol buckets 0)"
    unfolding final_policy_fused_on_def final_policy_parallel_seq g policy_row_def u Let_def map_map comp_def pc
    by (intro arg_cong [of _ _ "\<lambda>l. fold _ l _"] arg_cong [of _ _ concat] map_cong refl cell) simp_all
  then show ?thesis
    using final_policy_off [OF wf fits rel c0, of n ?off] final_policy_spec [OF wf fits rel c0, of n'] by (simp del: cidx.simps in_map.simps)
qed

text \<open>Occupied cells hold no value.\<close>

definition blocked_empty :: "padded \<Rightarrow> bool" where
  "blocked_empty m \<longleftrightarrow> (\<forall>i<length (hot m). \<not> p_free m ! i \<longrightarrow> fst (hot m ! i) = MAX_COST)"

lemma fuse_decode:
  assumes "no_collision m" "blocked_empty m" "i < length (hot m)"
  shows "(if fuse_of m ! i = UNREACHED then MAX_COST else fuse_of m ! i - snd (hot m ! i)) = fst (hot m ! i)"
  using assms by (auto simp: no_collision_def blocked_empty_def fuse_of_at fuse_cell_def)

lemma unreached_value:
  assumes "no_collision m" "blocked_empty m" "i < length (hot m)"
  shows "fuse_of m ! i = UNREACHED \<longleftrightarrow> fst (hot m ! i) = MAX_COST"
  using assms by (auto simp: no_collision_def blocked_empty_def fuse_of_at fuse_cell_def)

definition drop_policy :: "bool \<Rightarrow> state \<Rightarrow> state" where
  "drop_policy skip s = (if skip \<and> total_cost s = MAX_COST then s\<lparr>optimal_action := None\<rparr> else s)"

lemma fused_write_pad:
  assumes wf: "wf_vi vi" and fits: "pad_fits vi" and rel: "pad_rel vi V m" and nc: "no_collision m" and be: "blocked_empty m"
    and c: "in_map vi c" and col: "\<And>x y. geom_pad_col g x y = pad_col m x y" and pen: "pens ! pidx vi c = pen_at vi c"
    and opt: "opt ! cidx vi c = (if skip \<and> fuse_of m ! pidx vi c = UNREACHED then None else opt' ! cidx vi c)"
  shows "fused_write_state g (fuse_of m) pens opt (cidx vi c) ((state_at vi c)\<lparr>total_cost := v, optimal_action := a\<rparr>) =
    drop_policy skip (pad_write_state m (Some opt') ((state_at vi c)\<lparr>total_cost := v, optimal_action := a\<rparr>))"
proof -
  obtain x y t where xyt: "c = (x, y, t)" by (cases c)
  have st: "st_it (state_at vi c) = int t" "st_ix (state_at vi c) = int x" "st_iy (state_at vi c) = int y"
    using wf_vi_state_at [OF wf, of x y t] c xyt by simp_all
  have p: "p_nx m = cell_num_x vi" "p_nt m = cell_num_t vi" "p_mx m = int (pad_x vi)" "p_my m = int (pad_y vi)" "p_nx_pad m = int (pad_w vi)"
    using rel by (simp_all add: pad_rel_def)
  have i: "pad_state_idx (p_nt m) (p_mx m) (p_my m) (p_nx_pad m) ((state_at vi c)\<lparr>total_cost := v, optimal_action := a\<rparr>) = pidx vi c"
    using pad_state_idx_cell [OF wf fits c] unfolding p by (simp add: pad_state_idx_def)
  have j: "usize_of (int t + geom_pad_col g (int x) (int y)) = pidx vi c"
    using pad_col_idx [OF wf fits c [unfolded xyt] rel] by (simp add: col xyt add.commute)
  have l: "cidx vi c < 2 ^ 31" using cidx_less [OF c] wf_dims_pos(4) [OF wf] by linarith
  have "int t + int x * cell_num_t vi + int y * (cell_num_t vi * cell_num_x vi) = int (cidx vi c)"
    using int_dims [OF wf, symmetric] by (simp add: xyt algebra_simps)
  then have o: "usize_of (wrap32 (int t + int x * p_nt m + int y * (p_nt m * p_nx m))) = cidx vi c"
    by (simp add: p wrap32_nat [OF l] usize_of_int [OF l] del: cidx.simps)
  have pl: "pidx vi c < length (hot m)" using pidx_less [OF c] rel by (simp add: pad_rel_def)
  have sp: "snd (hot m ! pidx vi c) = pen_at vi c" using pad_rel_at(1) [OF rel c] by (simp add: pen_at_def)
  have val: "(if fuse_of m ! pidx vi c = UNREACHED then MAX_COST else fuse_of m ! pidx vi c - pens ! pidx vi c) = fst (hot m ! pidx vi c)"
    unfolding pen using fuse_decode [OF nc be pl] unfolding sp .
  let ?s = "(state_at vi c)\<lparr>total_cost := v, optimal_action := a\<rparr>"
  have "pad_write_state m (Some opt') ?s = ?s\<lparr>total_cost := fst (hot m ! pidx vi c), optimal_action := opt' ! cidx vi c\<rparr>"
    unfolding pad_write_state_def Let_def i option.case by (simp add: st o del: cidx.simps)
  moreover have "fused_write_state g (fuse_of m) pens opt (cidx vi c) ?s = ?s\<lparr>total_cost := fst (hot m ! pidx vi c), optimal_action := opt ! cidx vi c\<rparr>"
    unfolding fused_write_state_def Let_def using val by (auto simp: st j simp del: cidx.simps split: if_splits)
  ultimately show ?thesis using unreached_value [OF nc be pl] by (simp add: drop_policy_def opt del: cidx.simps)
qed

lemma write_back_fused_pad:
  assumes wf: "wf_vi vi" and fits: "pad_fits vi" and rel: "pad_rel vi V m" and nc: "no_collision m" and be: "blocked_empty m"
    and fr: "same_frame vi vi1" and col: "\<And>x y. geom_pad_col g x y = pad_col m x y" and pen: "\<And>c. in_map vi c \<Longrightarrow> pens ! pidx vi c = pen_at vi c"
    and g: "g_nx g = cell_num_x vi" "g_nt g = cell_num_t vi"
    and opt: "\<And>c. in_map vi c \<Longrightarrow> opt ! cidx vi c = (if skip \<and> fuse_of m ! pidx vi c = UNREACHED then None else opt' ! cidx vi c)"
  shows "write_back_fused_on n g (fuse_of m) pens opt vi1 =
    (pad_write_back m (Some opt') vi1)\<lparr>states := map (drop_policy skip) (states (pad_write_back m (Some opt') vi1))\<rparr>"
proof -
  from fr obtain sts where v: "vi1 = vi\<lparr>states := sts\<rparr>" "length sts = length (states vi)" by (auto simp: same_frame_def)
  have "dim_x vi * dim_t vi \<le> dim_x vi * dim_y vi * dim_t vi" using wf_dims_pos(2) [OF wf] by simp
  then have "dim_x vi * dim_t vi < 2 ^ 31" using wf_dims_pos(4) [OF wf] by linarith
  then have "usize_of (wrap32 (g_nx g * g_nt g)) = dim_x vi * dim_t vi"
    unfolding g int_dims [OF wf, symmetric] of_nat_mult [symmetric] by (simp only: wrap32_nat usize_of_int)
  then have pos: "0 < max 1 (div_ceil (usize_of (cell_num_y vi1)) n) * usize_of (wrap32 (g_nx g * g_nt g))"
    using wf_dims_pos(1,3) [OF wf] by simp
  have eq: "map (\<lambda>(i, s). fused_write_state g (fuse_of m) pens opt i s) (List.enumerate 0 sts) = map (drop_policy skip) (map (pad_write_state m (Some opt')) sts)"
  proof (rule nth_equalityI)
    fix i assume "i < length (map (\<lambda>(i, s). fused_write_state g (fuse_of m) pens opt i s) (List.enumerate 0 sts))"
    then have i: "i < length sts" by simp
    then have "i < dim_x vi * dim_y vi * dim_t vi" using v(2) wf by (simp add: wf_vi_def)
    then obtain c where c: "in_map vi c" "cidx vi c = i" by (rule cidx_surj)
    obtain va aa where "state_at vi1 c = (state_at vi c)\<lparr>total_cost := va, optimal_action := aa\<rparr>"
      by (rule same_frame_state [OF fr wf c(1)])
    then have "sts ! i = (state_at vi c)\<lparr>total_cost := va, optimal_action := aa\<rparr>"
      using same_frame_sel(9) [OF fr] c(2) by (simp add: state_at_def v(1))
    then show "map (\<lambda>(i, s). fused_write_state g (fuse_of m) pens opt i s) (List.enumerate 0 sts) ! i = map (drop_policy skip) (map (pad_write_state m (Some opt')) sts) ! i"
      using fused_write_pad [OF wf fits rel nc be c(1) col pen [OF c(1)] opt [OF c(1)], where v = va and a = aa] i c(2) by (simp add: nth_enumerate_eq del: cidx.simps)
  qed simp
  show ?thesis
    unfolding write_back_fused_on_def pad_write_back_def Let_def
    using chunks_enumerate [OF pos, of "fused_write_state g (fuse_of m) pens opt" 0 "states vi1"] eq by (simp add: v(1))
qed

text \<open>C37: the fused layout is a faithful image of the padded one. For every number of threads, building it
  from a solver state gives the encoding of the padded arrays. And for any values of the cells that do
  not collide with the sentinel, with no value on an occupied cell, the policy pass and the write back
  from the encoding, whether or not they skip the cells without a value as a converged run does, leave
  the field of the padded code, except that skipping drops the policy of cells without a value; at a field
  where such cells have no policy anyway, as at a fixed point, skipping changes nothing.\<close>

theorem fused_refines_padded:
  assumes "wf_vi vi" and "pad_fits vi" and "length cells = length (hot (padded_build vi))"
    and "no_collision (with_cells (padded_build vi) cells)" and "blocked_empty (with_cells (padded_build vi) cells)" and "same_frame vi vi1"
    and "par_materialize n' (with_cells (padded_build vi) cells) vi1 = p"
    and "fused_materialize n (geom_build vi) (build_direct n vi (geom_build vi)) (fuse_of (with_cells (padded_build vi) cells)) skip vi1 = f"
  shows "cp (build_direct n vi (geom_build vi)) = fuse_of (padded_build vi) \<and>
    f = p\<lparr>states := map (drop_policy skip) (states p)\<rparr> \<and>
    (\<not> skip \<or> (\<forall>s\<in>set (states p). total_cost s = MAX_COST \<longrightarrow> optimal_action s = None) \<longrightarrow> f = p)"
proof -
  let ?m = "with_cells (padded_build vi) cells"
  note rel0 = padded_build_rel [OF assms(1,2)]
  note rel = with_cells_rel [OF rel0 assms(3)]
  have f: "f = p\<lparr>states := map (drop_policy skip) (states p)\<rparr>"
    unfolding assms(7,8) [symmetric] fused_materialize_def par_materialize_def
  proof (rule write_back_fused_pad [OF assms(1,2) rel assms(4,5,6)])
    show "geom_pad_col (geom_build vi) x y = pad_col ?m x y" for x y by (simp add: geom_pad_col_eq with_cells_fields)
    show "f_pen (build_direct n vi (geom_build vi)) ! pidx vi c = pen_at vi c" if "in_map vi c" for c
      by (rule build_direct_spec(2) [OF assms(1,2) that])
    show "g_nx (geom_build vi) = cell_num_x vi" "g_nt (geom_build vi) = cell_num_t vi" using rel0 by (simp_all add: geom_fields pad_rel_def)
  qed (rule final_policy_fused_pad [OF assms(1-4)])
  have "map (drop_policy skip) (states p) = states p" if "\<not> skip \<or> (\<forall>s\<in>set (states p). total_cost s = MAX_COST \<longrightarrow> optimal_action s = None)"
    by (rule map_idI) (use that in \<open>auto simp: drop_policy_def\<close>)
  then show ?thesis using f build_direct_spec(1) [OF assms(1,2)] by simp
qed

section \<open>The evaluation of a column\<close>

text \<open>The values a program stores when it runs alone.\<close>

primrec run_stores :: "'a prog \<Rightarrow> u64 list \<Rightarrow> u64 list" where
  "run_stores (Ret x) m = []"
| "run_stores (Load a k) m = run_stores (k (m ! a)) m"
| "run_stores (Store a v p) m = v # run_stores p (m[a := v])"

lemma cost_fused_prog_run:
  "run_prog (cost_fused_prog col bs cost k) cps = run_prog (k (action_cost_fused cps col bs cost)) cps"
  by (induction cps col bs cost rule: action_cost_fused.induct) (simp_all add: Let_def)

lemma cost_prog_pad:
  assumes "length cells = length (hot m)" "\<forall>(off, pr)\<in>set bs. usize_of (col + off) < length (hot m)"
  shows "run_prog (cost_prog m col bs cost k) cells = run_prog (k (action_cost_pad (hot (with_cells m cells)) (p_free m) col bs cost)) cells"
    and "run_stores (cost_prog m col bs cost k) cells = run_stores (k (action_cost_pad (hot (with_cells m cells)) (p_free m) col bs cost)) cells"
proof -
  have "run_prog (cost_prog m col bs cost k) cells = run_prog (k (action_cost_pad (hot (with_cells m cells)) (p_free m) col bs cost)) cells \<and>
    run_stores (cost_prog m col bs cost k) cells = run_stores (k (action_cost_pad (hot (with_cells m cells)) (p_free m) col bs cost)) cells"
    using assms(2)
  proof (induction bs arbitrary: cost)
    case (Cons b bs)
    obtain off pr where b: "b = (off, pr)" by (cases b)
    have i: "usize_of (col + off) < length (hot m)" using Cons.prems by (simp add: b)
    then have at: "hot (with_cells m cells) ! usize_of (col + off) = (cells ! usize_of (col + off), snd (hot m ! usize_of (col + off)))"
      using assms(1) by (simp add: with_cells_def)
    show ?case using Cons by (simp add: b Let_def at)
  qed simp
  then show "run_prog (cost_prog m col bs cost k) cells = run_prog (k (action_cost_pad (hot (with_cells m cells)) (p_free m) col bs cost)) cells"
    "run_stores (cost_prog m col bs cost k) cells = run_stores (k (action_cost_pad (hot (with_cells m cells)) (p_free m) col bs cost)) cells" by blast+
qed

definition min_over :: "('p \<Rightarrow> u64) \<Rightarrow> 'p list \<Rightarrow> u64 \<Rightarrow> u64" where
  "min_over f = fold (\<lambda>pt mc. if f pt < mc then f pt else mc)"

lemma min_over_le: "min_over f pts mc \<le> mc"
proof (induction pts arbitrary: mc)
  case (Cons pt pts)
  have "min_over f pts (if f pt < mc then f pt else mc) \<le> (if f pt < mc then f pt else mc)" by (rule Cons.IH)
  also have "\<dots> \<le> mc" by auto
  finally show ?case by (simp add: min_over_def)
qed (simp add: min_over_def)

lemma min_over_cong: "(\<And>pt. pt \<in> set pts \<Longrightarrow> f pt = g pt) \<Longrightarrow> min_over f pts mc = min_over g pts mc"
  unfolding min_over_def by (rule fold_cong) auto

lemma min_fused_prog_run:
  "run_prog (min_fused_prog col it pts mc k) cps = run_prog (k (min_over (\<lambda>pt. action_cost_fused cps col (pt ! usize_of it) 0) pts mc)) cps"
  by (induction pts arbitrary: mc) (simp_all add: cost_fused_prog_run min_over_def)

lemma min_prog_pad:
  assumes "length cells = length (hot m)" "\<forall>pt\<in>set pts. \<forall>(off, pr)\<in>set (pt ! usize_of it). usize_of (col + off) < length (hot m)"
  shows "run_prog (min_prog m col it pts mc k) cells = run_prog (k (min_over (\<lambda>pt. action_cost_pad (hot (with_cells m cells)) (p_free m) col (pt ! usize_of it) 0) pts mc)) cells \<and>
    run_stores (min_prog m col it pts mc k) cells = run_stores (k (min_over (\<lambda>pt. action_cost_pad (hot (with_cells m cells)) (p_free m) col (pt ! usize_of it) 0) pts mc)) cells"
  using assms(2) by (induction pts arbitrary: mc) (simp_all add: cost_prog_pad [OF assms(1)] min_over_def)

text \<open>Values up to \<open>MAX_COST\<close> and penalties below \<open>2 ^ 63\<close> cannot reach the sentinel.\<close>

definition small_pens :: "padded \<Rightarrow> bool" where
  "small_pens m \<longleftrightarrow> (\<forall>i<length (hot m). snd (hot m ! i) < 2 ^ 63)"

definition values_ok :: "u64 list \<Rightarrow> bool" where
  "values_ok cells \<longleftrightarrow> (\<forall>v\<in>set cells. v \<le> MAX_COST)"

lemma sum_not_sentinel: "v \<le> MAX_COST \<Longrightarrow> p < 2 ^ 63 \<Longrightarrow> v + p \<noteq> UNREACHED"
proof -
  assume v: "v \<le> MAX_COST" and p: "p < 2 ^ 63"
  have "unat v \<le> 262144000000000" using v by (simp add: word_le_nat_alt MAX_COST_def PROB_BASE_def)
  moreover have "unat p < 2 ^ 63" using p by (simp add: word_less_nat_alt)
  ultimately have "unat (v + p) = unat v + unat p" by (intro unat_add_lem [THEN iffD1]) simp
  then have "unat (v + p) < 2 ^ 64 - 1" using \<open>unat v \<le> _\<close> \<open>unat p < _\<close> by simp
  moreover have "unat UNREACHED = 2 ^ 64 - 1" by (simp add: UNREACHED_def unsigned_minus_1_eq_mask mask_eq_exp_minus_1)
  ultimately show "v + p \<noteq> UNREACHED" by auto
qed

lemma small_no_collision:
  assumes "small_pens m" "values_ok cells" "length cells = length (hot m)"
  shows "no_collision (with_cells m cells)"
proof -
  have "fst (hot (with_cells m cells) ! i) + snd (hot (with_cells m cells) ! i) \<noteq> UNREACHED" if "i < length (hot m)" for i
  proof (rule sum_not_sentinel)
    have at: "hot (with_cells m cells) ! i = (cells ! i, snd (hot m ! i))" using that assms(3) by (simp add: with_cells_def)
    show "fst (hot (with_cells m cells) ! i) \<le> MAX_COST" using assms(2,3) that by (simp add: at values_ok_def)
    show "snd (hot (with_cells m cells) ! i) < 2 ^ 63" using assms(1) that by (simp add: at small_pens_def)
  qed
  then show ?thesis using assms(3) by (simp add: no_collision_def with_cells_def)
qed

lemma fuse_of_store:
  assumes "length cells = length (hot m)" "i < length (hot m)" "p_free m ! i" "v \<noteq> MAX_COST"
  shows "fuse_of (with_cells m (cells[i := v])) = (fuse_of (with_cells m cells))[i := v + snd (hot m ! i)]"
proof (rule nth_equalityI)
  fix j assume "j < length (fuse_of (with_cells m (cells[i := v])))"
  then have "j < length (hot m)" using assms(1) by (simp add: fuse_of_def with_cells_def)
  then show "fuse_of (with_cells m (cells[i := v])) ! j = (fuse_of (with_cells m cells))[i := v + snd (hot m ! i)] ! j"
    using assms by (cases "j = i") (simp_all add: fuse_of_def with_cells_def fuse_cell_def)
qed (simp add: fuse_of_def with_cells_def)

lemma values_ok_update: "values_ok cells \<Longrightarrow> v \<le> MAX_COST \<Longrightarrow> values_ok (cells[i := v])"
  unfolding values_ok_def using set_update_subset_insert [of cells i v] by auto

text \<open>One heading: both programs compute the same minimum and compare it with the same value.\<close>

lemma heading_sim:
  assumes wf: "wf_vi vi" and fits: "pad_fits vi" and c: "in_map vi (x, y, t)" and len: "length cells = length (hot (padded_build vi))"
    and sp: "small_pens (padded_build vi)" and vo: "values_ok cells" and el: "eligible vi (x, y, t)"
  defines "m \<equiv> padded_build vi" and "cps \<equiv> fuse_of (with_cells (padded_build vi) cells)"
  defines "col \<equiv> pad_col (padded_build vi) (int x) (int y)"
  defines "mc \<equiv> min_over (\<lambda>pt. action_cost_pad (hot (with_cells m cells)) (p_free m) col (pt ! t) 0) (precomp m) MAX_COST"
  shows "min_over (\<lambda>pt. action_cost_fused cps col (pt ! t) 0) (precomp m) MAX_COST = mc"
    and "run_prog (min_prog m col (int t) (precomp m) MAX_COST k) cells = run_prog (k mc) cells"
    and "run_stores (min_prog m col (int t) (precomp m) MAX_COST k) cells = run_stores (k mc) cells"
    and "(if cps ! pidx vi (x, y, t) = UNREACHED then MAX_COST else cps ! pidx vi (x, y, t) - pen_at vi (x, y, t)) = cells ! pidx vi (x, y, t)"
    and "p_free m ! pidx vi (x, y, t)" "\<not> finals m ! pidx vi (x, y, t)" "snd (hot m ! pidx vi (x, y, t)) = pen_at vi (x, y, t)"
proof -
  note rel = padded_build_rel [OF wf fits, folded m_def]
  note rel' = with_cells_rel [OF padded_build_rel [OF wf fits] len, folded m_def]
  have nc: "no_collision (with_cells m cells)" unfolding m_def by (rule small_no_collision [OF sp vo len])
  have t: "usize_of (int t) = t" using usize_theta [OF wf] c by simp
  have len': "length (hot (with_cells m cells)) = length (hot m)" using len by (simp add: with_cells_def m_def)
  have bb: "\<forall>(off, pr)\<in>set (pt ! t). usize_of (col + off) < length (hot m)" if "pt \<in> set (precomp m)" for pt
    using bucket_bounds [OF wf fits rel c that] by (simp add: col_def m_def)
  show "min_over (\<lambda>pt. action_cost_fused cps col (pt ! t) 0) (precomp m) MAX_COST = mc"
    unfolding mc_def
  proof (rule min_over_cong)
    fix pt assume "pt \<in> set (precomp m)"
    from action_cost_fused_pad [OF nc, of "pt ! t" col 0] bb [OF this]
    show "action_cost_fused cps col (pt ! t) 0 = action_cost_pad (hot (with_cells m cells)) (p_free m) col (pt ! t) 0"
      by (simp add: cps_def m_def [symmetric] len' with_cells_fields)
  qed
  from min_prog_pad [OF len [folded m_def], of "precomp m" "int t" col MAX_COST k] bb
  show "run_prog (min_prog m col (int t) (precomp m) MAX_COST k) cells = run_prog (k mc) cells"
    "run_stores (min_prog m col (int t) (precomp m) MAX_COST k) cells = run_stores (k mc) cells" unfolding t mc_def by blast+
  note at = pad_rel_at [OF rel c]
  show "p_free m ! pidx vi (x, y, t)" "\<not> finals m ! pidx vi (x, y, t)" "snd (hot m ! pidx vi (x, y, t)) = pen_at vi (x, y, t)"
    using at el by (simp_all add: eligible_def pen_at_def)
  have i: "pidx vi (x, y, t) < length (hot (with_cells m cells))" using pidx_less [OF c] rel' by (simp add: pad_rel_def)
  have h: "hot (with_cells m cells) ! pidx vi (x, y, t) = (cells ! pidx vi (x, y, t), pen_at vi (x, y, t))"
    using pad_rel_at(1) [OF rel' c] by (simp add: cells_of_def pen_at_def)
  show "(if cps ! pidx vi (x, y, t) = UNREACHED then MAX_COST else cps ! pidx vi (x, y, t) - pen_at vi (x, y, t)) = cells ! pidx vi (x, y, t)"
    using nc i el at(2) unfolding cps_def m_def [symmetric] fuse_of_at [OF i] fuse_cell_def h
    by (auto simp: no_collision_def h with_cells_fields eligible_def)
qed

lemma column_sim:
  assumes wf: "wf_vi vi" and fits: "pad_fits vi" and xy: "x < dim_x vi" "y < dim_y vi" and sp: "small_pens (padded_build vi)"
    and "\<forall>t\<in>set ts. t < dim_t vi" "length cells = length (hot (padded_build vi))" "values_ok cells"
    "MAX_COST \<notin> set (run_stores (column_prog (padded_build vi) (pad_col (padded_build vi) (int x) (int y)) (map int ts) ch u) cells)"
  shows "run_prog (column_fused_prog (geom_build vi) (build_direct n vi (geom_build vi)) (pad_col (padded_build vi) (int x) (int y)) (map int ts) ch u)
      (fuse_of (with_cells (padded_build vi) cells)) =
    map_prod (\<lambda>r. r) (\<lambda>cells'. fuse_of (with_cells (padded_build vi) cells'))
      (run_prog (column_prog (padded_build vi) (pad_col (padded_build vi) (int x) (int y)) (map int ts) ch u) cells)"
  using assms(6-)
proof (induction ts arbitrary: ch u cells)
  case (Cons t ts)
  let ?m = "padded_build vi" and ?f = "build_direct n vi (geom_build vi)"
  let ?col = "pad_col ?m (int x) (int y)"
  note rel = padded_build_rel [OF wf fits]
  have c: "in_map vi (x, y, t)" using Cons.prems(1) xy by simp
  have t: "usize_of (int t) = t" using usize_theta [OF wf] c by simp
  note idx = pad_col_idx [OF wf fits c rel] and at = pad_rel_at [OF rel c]
  note ok = build_direct_spec(3) [OF wf fits c, of n] and pen = build_direct_spec(2) [OF wf fits c, of n]
  have ts: "\<forall>t\<in>set ts. t < dim_t vi" using Cons.prems(1) by simp
  show ?case
  proof (cases "eligible vi (x, y, t)")
    case False
    then have "column_prog ?m ?col (map int (t # ts)) ch u = column_prog ?m ?col (map int ts) ch u"
      "column_fused_prog (geom_build vi) ?f ?col (map int (t # ts)) ch u = column_fused_prog (geom_build vi) ?f ?col (map int ts) ch u"
      using at ok by (simp_all add: Let_def idx eligible_def)
    then show ?thesis using Cons.IH [OF ts Cons.prems(2,3)] Cons.prems(4) by simp
  next
    case True
    note sim = heading_sim [OF wf fits c Cons.prems(2) sp Cons.prems(3) True]
    define mc where "mc = min_over (\<lambda>pt. action_cost_pad (hot (with_cells ?m cells)) (p_free ?m) ?col (pt ! t) 0) (precomp ?m) MAX_COST"
    let ?i = "pidx vi (x, y, t)"
    have i: "?i < length (hot ?m)" using pidx_less [OF c] rel by (simp add: pad_rel_def)
    let ?cps = "fuse_of (with_cells ?m cells)"
    have pad: "run_prog (column_prog ?m ?col (map int (t # ts)) ch u) cells =
        run_prog (if mc \<noteq> cells ! ?i then Store ?i mc (column_prog ?m ?col (map int ts) True (u + 1)) else column_prog ?m ?col (map int ts) ch u) cells"
      "run_stores (column_prog ?m ?col (map int (t # ts)) ch u) cells =
        run_stores (if mc \<noteq> cells ! ?i then Store ?i mc (column_prog ?m ?col (map int ts) True (u + 1)) else column_prog ?m ?col (map int ts) ch u) cells"
      using sim(5,6) by (simp_all add: Let_def idx sim(2,3) mc_def)
    have fus: "run_prog (column_fused_prog (geom_build vi) ?f ?col (map int (t # ts)) ch u) ?cps =
        run_prog (if mc \<noteq> cells ! ?i then Store ?i (mc + pen_at vi (x, y, t)) (column_fused_prog (geom_build vi) ?f ?col (map int ts) True (u + 1))
          else column_fused_prog (geom_build vi) ?f ?col (map int ts) ch u) ?cps"
      using True ok pen by (simp only: column_fused_prog.simps list.map Let_def idx run_prog.simps min_fused_prog_run t geom_fields sim(1,4) mc_def not_True_eq_False if_False)
    show ?thesis
    proof (cases "mc = cells ! ?i")
      case eq: True
      then show ?thesis using Cons.IH [OF ts Cons.prems(2,3)] Cons.prems(4) unfolding fus pad by simp
    next
      case False
      have st: "MAX_COST \<notin> set (mc # run_stores (column_prog ?m ?col (map int ts) True (u + 1)) (cells[?i := mc]))"
        using Cons.prems(4) False unfolding pad by simp
      have "mc \<le> MAX_COST" unfolding mc_def by (rule min_over_le)
      then have vo: "values_ok (cells[?i := mc])" by (rule values_ok_update [OF Cons.prems(3)])
      have fuse: "?cps[?i := mc + pen_at vi (x, y, t)] = fuse_of (with_cells ?m (cells[?i := mc]))"
        using fuse_of_store [OF Cons.prems(2) i sim(5), of mc] st sim(7) by (simp add: eq_commute [of MAX_COST])
      show ?thesis using Cons.IH [OF ts _ vo, of True "u + 1"] st Cons.prems(2) False unfolding fus pad by (simp add: fuse)
    qed
  qed
qed (simp add: map_prod_def)

text \<open>C15: evaluating a column undisturbed on the fused cells does the same as on the padded cells, update for
  update: as long as the padded evaluation stores no \<open>MAX_COST\<close>, with values up to \<open>MAX_COST\<close> and penalties
  below \<open>2 ^ 63\<close>, the fused evaluation gives the same report and leaves the encoding of the same cells.\<close>

theorem fused_column:
  assumes "wf_vi vi" and "pad_fits vi" and "x < dim_x vi" and "y < dim_y vi" and "small_pens (padded_build vi)"
    and "length cells = length (hot (padded_build vi))" and "values_ok cells"
    and "MAX_COST \<notin> set (run_stores (eval_pad (padded_build vi) (x, y)) cells)"
    and "run_prog (eval_pad (padded_build vi) (x, y)) cells = (r, cells')"
  shows "run_prog (eval_fused (geom_build vi) (build_direct n vi (geom_build vi)) (x, y)) (fuse_of (with_cells (padded_build vi) cells))
    = (r, fuse_of (with_cells (padded_build vi) cells'))"
proof -
  let ?m = "padded_build vi"
  have th: "[0..p_nt ?m - 1] = map int [0..<dim_t vi]" by (rule theta_list [OF assms(1) padded_build_rel [OF assms(1,2)]])
  have pad: "eval_pad ?m (x, y) = column_prog ?m (pad_col ?m (int x) (int y)) (map int [0..<dim_t vi]) False 0" by (simp add: eval_pad_def th)
  have fus: "eval_fused (geom_build vi) f (x, y) = column_fused_prog (geom_build vi) f (pad_col ?m (int x) (int y)) (map int [0..<dim_t vi]) False 0" for f
    by (simp add: eval_fused_def geom_pad_col_eq geom_fields th)
  show ?thesis using column_sim [OF assms(1-5) _ assms(6,7,8) [unfolded pad], of n] assms(9) unfolding fus pad by simp
qed

section \<open>The lost sentinel\<close>

text \<open>A corridor that may only be walked to the right, into an occupied cell, with values left in its two
  free cells.\<close>

definition dead_end :: value_iterator where
  "dead_end = (corridor_of [corridor_state 5 0 False None, corridor_state 7 1 False None,
      (corridor_state MAX_COST 2 False None)\<lparr>free := False\<rparr>])\<lparr>actions := [corridor_action 1]\<rparr>"

definition dead_geom :: geom where
  "dead_geom = \<lparr>g_precomp = [[[(1, 262144)]]], g_nx = 3, g_ny = 1, g_nt = 1, g_mx = 1, g_my = 1, g_row_stride = 5\<rparr>"

definition dead_fused :: fused where
  "dead_fused = \<lparr>cp = [UNREACHED, UNREACHED, UNREACHED, UNREACHED, UNREACHED, UNREACHED, 262149, 262151, UNREACHED, UNREACHED, UNREACHED, UNREACHED, UNREACHED, UNREACHED, UNREACHED],
     f_pen = [0, 0, 0, 0, 0, 0, 262144, 262144, 262144, 0, 0, 0, 0, 0, 0],
     eval_ok = [False, False, False, False, False, False, True, True, False, False, False, False, False, False, False]\<rparr>"

definition dead_pad :: padded where
  "dead_pad = \<lparr>hot = [(MAX_COST, 0), (MAX_COST, 0), (MAX_COST, 0), (MAX_COST, 0), (MAX_COST, 0), (MAX_COST, 0), (5, 262144), (7, 262144), (MAX_COST, 262144), (MAX_COST, 0), (MAX_COST, 0), (MAX_COST, 0), (MAX_COST, 0), (MAX_COST, 0), (MAX_COST, 0)],
     p_free = [False, False, False, False, False, False, True, True, False, False, False, False, False, False, False], finals = replicate 15 False,
     precomp = [[[(1, 262144)]]], p_nx = 3, p_ny = 1, p_nt = 1, p_mx = 1, p_my = 1, p_nx_pad = 5, row_stride = 5\<rparr>"

lemma dead_built: "geom_build dead_end = dead_geom" "build_direct 1 dead_end dead_geom = dead_fused" "padded_build dead_end = dead_pad"
  by code_simp+

definition dead_args :: "(value_iterator \<times> unit) gs_args" where
  "dead_args = fused_args 1 (\<lambda>_. False) dead_geom dead_fused 10 quiet_observer"

definition dead_pad_args :: "(value_iterator \<times> unit) gs_args" where
  "dead_pad_args = unsafe_args 1 (\<lambda>_. False) dead_pad 10 quiet_observer"

lemma dead_cands: "map_option enumerate2 (dilate2d (seed_frontier_2d dead_end) 1 1) = Some [(0, 0), (1, 0), (2, 0)]"
  by code_simp

lemma dead_fused_run:
  "(let s = schedule dead_args 45 (gs_init dead_args 1 [(0, 0), (1, 0), (2, 0)] (cp dead_fused) (dead_end, ()))
    in (g_mem s, g_outcome s)) =
   ([UNREACHED, UNREACHED, UNREACHED, UNREACHED, UNREACHED, UNREACHED, 51037767991296, 262144000262144, UNREACHED, UNREACHED, UNREACHED, UNREACHED, UNREACHED, UNREACHED, UNREACHED],
    Some (outcome_running 3 3 True))"
  by code_simp

lemma dead_pad_run:
  "(let s = schedule dead_pad_args 45 (gs_init dead_pad_args 1 [(0, 0), (1, 0), (2, 0)] (map fst (hot dead_pad)) (dead_end, ()))
    in (g_mem s, g_outcome s)) = (replicate 15 MAX_COST, Some (outcome_running 3 3 True))"
  by code_simp

definition dead_fused_out :: "value_iterator" where
  "dead_fused_out = fused_materialize 1 dead_geom dead_fused [UNREACHED, UNREACHED, UNREACHED, UNREACHED, UNREACHED, UNREACHED, 51037767991296, 262144000262144, UNREACHED, UNREACHED, UNREACHED, UNREACHED, UNREACHED, UNREACHED, UNREACHED] True dead_end"

definition dead_pad_out :: "value_iterator" where
  "dead_pad_out = par_materialize 1 (with_cells dead_pad (replicate 15 MAX_COST)) dead_end"

lemma dead_results:
  "map total_cost (states dead_fused_out) = [51037767729152, MAX_COST, MAX_COST]"
  "map total_cost (states dead_pad_out) = [MAX_COST, MAX_COST, MAX_COST]"
  by code_simp+

text \<open>An observer that does not look leaves the solver state alone while the engine runs.\<close>

lemma engine_keeps_field:
  assumes b: "\<And>i u m ob. fst (snd (e_boundary e i u m ob)) = fst ob" and run: "(gs_step e)\<^sup>*\<^sup>* s s'"
  shows "fst (g_obs s') = fst (g_obs s)"
  using run
proof (induction rule: rtranclp_induct)
  case (step y z)
  from step(2) have "fst (g_obs z) = fst (g_obs y)"
  proof cases
    case (work i w s1)
    then have "g_obs s1 = g_obs y" by (auto simp: worker_turn_def claim_turn_def Let_def split: gs_phase.splits prog.splits if_splits)
    then show ?thesis using work(1) by simp
  next
    case lead
    then have "g_obs z = g_obs y \<or> (\<exists>i u. g_obs z = snd (e_boundary e i u (g_mem y) (g_obs y)))"
      by (auto simp: leader_turn_def Let_def split: prod.splits option.splits if_splits) (metis snd_conv)+
    then show ?thesis
    proof (elim disjE exE)
      fix i u
      assume z: "g_obs z = snd (e_boundary e i u (g_mem y) (g_obs y))"
      show ?thesis unfolding z by (rule b)
    qed simp
  qed
  then show ?case using step(3) by simp
qed simp

lemma dead_fused_returns:
  "\<exists>vf outf. frontier2d_fused_returns 1 (\<lambda>_. False) dead_end 10 quiet_observer () (vf, outf, ()) \<and> o_converged outf \<and>
     map total_cost (states vf) = [51037767729152, MAX_COST, MAX_COST]"
proof -
  let ?ini = "gs_init dead_args 1 [(0, 0), (1, 0), (2, 0)] (cp dead_fused) (dead_end, ())"
  let ?fin = "schedule dead_args 45 ?ini"
  have start: "fused_start 1 (\<lambda>_. False) dead_end 10 quiet_observer () = Some ?ini"
    using dead_cands unfolding fused_start_def Let_def dead_built dead_args_def by (auto simp: dead_geom_def)
  have mem: "g_mem ?fin = [UNREACHED, UNREACHED, UNREACHED, UNREACHED, UNREACHED, UNREACHED, 51037767991296, 262144000262144, UNREACHED, UNREACHED, UNREACHED, UNREACHED, UNREACHED, UNREACHED, UNREACHED]" and out: "g_outcome ?fin = Some (outcome_running 3 3 True)" using dead_fused_run by (simp_all add: Let_def)
  have "fst (g_obs ?fin) = fst (g_obs ?ini)"
    by (rule engine_keeps_field [OF _ schedule_steps]) (simp add: dead_args_def fused_args_def fused_boundary_def Let_def split: prod.split)
  then have obs: "g_obs ?fin = (dead_end, ())" by (simp add: gs_init_def prod_eq_iff)
  have "frontier2d_fused_returns 1 (\<lambda>_. False) dead_end 10 quiet_observer () (fused_finish 1 dead_geom dead_fused ?fin (outcome_running 3 3 True))"
    unfolding frontier2d_fused_returns_def Let_def dead_built using start out schedule_steps [of dead_args ?ini 45] unfolding dead_args_def by blast
  then have ret: "frontier2d_fused_returns 1 (\<lambda>_. False) dead_end 10 quiet_observer () (dead_fused_out, outcome_running 3 3 True, ())"
    unfolding fused_finish_def obs mem dead_fused_out_def by (simp add: outcome_running_def)
  show ?thesis by (intro exI conjI, rule ret) (simp_all add: outcome_running_def dead_results del: map_eq_Cons_conv)
qed

lemma dead_pad_returns:
  "\<exists>vp outp. frontier2d_par_unsafe_returns 1 (\<lambda>_. False) dead_end 10 quiet_observer () (vp, outp, ()) \<and> o_converged outp \<and>
     map total_cost (states vp) = [MAX_COST, MAX_COST, MAX_COST]"
proof -
  let ?ini = "gs_init dead_pad_args 1 [(0, 0), (1, 0), (2, 0)] (map fst (hot dead_pad)) (dead_end, ())"
  let ?fin = "schedule dead_pad_args 45 ?ini"
  have start: "unsafe_start 1 (\<lambda>_. False) dead_end 10 quiet_observer () = Some ?ini"
    using dead_cands unfolding unsafe_start_def Let_def dead_built dead_pad_args_def by (auto simp: dead_pad_def)
  have mem: "g_mem ?fin = replicate 15 MAX_COST" and out: "g_outcome ?fin = Some (outcome_running 3 3 True)" using dead_pad_run by (simp_all add: Let_def)
  have "fst (g_obs ?fin) = fst (g_obs ?ini)"
    by (rule engine_keeps_field [OF _ schedule_steps]) (simp add: dead_pad_args_def unsafe_args_def unsafe_boundary_def Let_def split: prod.split)
  then have obs: "g_obs ?fin = (dead_end, ())" by (simp add: gs_init_def prod_eq_iff)
  have "frontier2d_par_unsafe_returns 1 (\<lambda>_. False) dead_end 10 quiet_observer () (unsafe_finish 1 dead_pad ?fin (outcome_running 3 3 True))"
    unfolding frontier2d_par_unsafe_returns_def dead_built using start out schedule_steps [of dead_pad_args ?ini 45] unfolding dead_pad_args_def by blast
  then have ret: "frontier2d_par_unsafe_returns 1 (\<lambda>_. False) dead_end 10 quiet_observer () (dead_pad_out, outcome_running 3 3 True, ())"
    unfolding unsafe_finish_def obs mem dead_pad_out_def by (simp add: outcome_running_def)
  show ?thesis by (intro exI conjI, rule ret) (simp_all add: outcome_running_def dead_results del: map_eq_Cons_conv)
qed

text \<open>C38: the fused solver does not agree with the padded one on every field: it stores \<open>MAX_COST\<close> plus the
  penalty, not the sentinel, when a cell loses its value, and the cell before it then computes a
  wrapped product below \<open>MAX_COST\<close>. On the same field both report convergence; the padded solver
  leaves the first cell without a value, the fused one with a value. The module comment says that
  values and policies agree bit for bit.\<close>

theorem fused_sentinel_lost:
  "\<exists>vp outp vf outf. frontier2d_par_unsafe_returns 1 (\<lambda>_. False) dead_end 10 quiet_observer () (vp, outp, ()) \<and>
     frontier2d_fused_returns 1 (\<lambda>_. False) dead_end 10 quiet_observer () (vf, outf, ()) \<and> o_converged outp \<and> o_converged outf \<and>
     map total_cost (states vp) = [MAX_COST, MAX_COST, MAX_COST] \<and> map total_cost (states vf) = [51037767729152, MAX_COST, MAX_COST]"
proof -
  obtain vp outp where p: "frontier2d_par_unsafe_returns 1 (\<lambda>_. False) dead_end 10 quiet_observer () (vp, outp, ())" "o_converged outp"
    "map total_cost (states vp) = [MAX_COST, MAX_COST, MAX_COST]" using dead_pad_returns by (elim exE conjE)
  obtain vf outf where f: "frontier2d_fused_returns 1 (\<lambda>_. False) dead_end 10 quiet_observer () (vf, outf, ())" "o_converged outf"
    "map total_cost (states vf) = [51037767729152, MAX_COST, MAX_COST]" using dead_fused_returns by (elim exE conjE)
  show ?thesis by (intro exI conjI) (rule p f)+
qed

text \<open>Witnesses on the corridor.\<close>

lemma corridor_small: "pad_fits corridor" "small_pens (padded_build corridor)" "values_ok (map fst (hot (padded_build corridor)))"
  "blocked_empty (with_cells (padded_build corridor) (map fst (hot (padded_build corridor))))"
proof -
  show "pad_fits corridor" using corridor_good by (simp add: good_pad_def)
  have "length (hot (padded_build corridor)) = 15" "list_all (\<lambda>h. snd h < 2 ^ 63) (hot (padded_build corridor))" by code_simp+
  then show "small_pens (padded_build corridor)" by (simp add: small_pens_def list_all_length)
  have "list_all (\<lambda>v. v \<le> MAX_COST) (map fst (hot (padded_build corridor)))" by code_simp
  then show "values_ok (map fst (hot (padded_build corridor)))" unfolding values_ok_def list_all_iff .
  have "list_all (\<lambda>i. \<not> p_free (padded_build corridor) ! i \<longrightarrow> fst (hot (with_cells (padded_build corridor) (map fst (hot (padded_build corridor)))) ! i) = MAX_COST) [0..<15]"
    "length (hot (with_cells (padded_build corridor) (map fst (hot (padded_build corridor))))) = 15" by code_simp+
  then show "blocked_empty (with_cells (padded_build corridor) (map fst (hot (padded_build corridor))))"
    by (simp add: blocked_empty_def list_all_iff with_cells_fields)
qed

theorem fused_refines_padded_witness:
  "\<exists>f p. fused_materialize 2 (geom_build corridor) (build_direct 2 corridor (geom_build corridor))
      (fuse_of (with_cells (padded_build corridor) (map fst (hot (padded_build corridor))))) True corridor = f \<and>
    par_materialize 3 (with_cells (padded_build corridor) (map fst (hot (padded_build corridor)))) corridor = p \<and>
    f = p\<lparr>states := map (drop_policy True) (states p)\<rparr>"
  using fused_refines_padded [where cells = "map fst (hot (padded_build corridor))", OF corridor_wf corridor_small(1) length_map
      small_no_collision [OF corridor_small(2,3) length_map] corridor_small(4) same_frame_refl refl refl] by blast

theorem fused_column_witness:
  "\<exists>r cells'. run_prog (eval_pad (padded_build corridor) (1, 0)) (map fst (hot (padded_build corridor))) = (r, cells') \<and>
     run_prog (eval_fused (geom_build corridor) (build_direct 2 corridor (geom_build corridor)) (1, 0))
       (fuse_of (with_cells (padded_build corridor) (map fst (hot (padded_build corridor))))) = (r, fuse_of (with_cells (padded_build corridor) cells'))"
proof -
  have "list_all (\<lambda>v. v \<noteq> MAX_COST) (run_stores (eval_pad (padded_build corridor) (1, 0)) (map fst (hot (padded_build corridor))))" by code_simp
  then have ns: "MAX_COST \<notin> set (run_stores (eval_pad (padded_build corridor) (1, 0)) (map fst (hot (padded_build corridor))))"
    by (auto simp: list_all_iff)
  have d: "1 < dim_x corridor" "0 < dim_y corridor" by code_simp+
  obtain r cells' where r: "run_prog (eval_pad (padded_build corridor) (1, 0)) (map fst (hot (padded_build corridor))) = (r, cells')" by (rule prod.exhaust)
  from fused_column [OF corridor_wf corridor_small(1) d corridor_small(2) length_map corridor_small(3) ns r] r show ?thesis by blast
qed

end
