(* ===== verification/Local.thy ===== *)
theory Local
  imports Frontier
begin

text \<open>
  The local window of the follower (\<^verbatim>\<open>vi_lib/src/local.rs\<close>): its shape and placement, the penalties a
  laser scan writes into it, and the margin band that grows with the uncertainty of the pose. The
  window is the set of cells \<open>in_local_area\<close> accepts; every writer of the component goes through it.

  Shown: the chamfer transform \<open>dist_linf\<close> computes the Chebyshev distance to the nearest obstacle, a
  placed window lies in the map, and what the writers change and leave alone.
\<close>

section \<open>More of \<open>f64\<close>\<close>

text \<open>\<open>max\<close> and \<open>min\<close> ignore a \<open>NaN\<close> argument; \<open>clamp\<close> panics unless its bounds are ordered.\<close>

definition f_max :: "f64 \<Rightarrow> f64 \<Rightarrow> f64" where
  "f_max x y = (if x = NaN then y else if y = NaN then x else if f_lt x y then y else x)"

definition f_min :: "f64 \<Rightarrow> f64 \<Rightarrow> f64" where
  "f_min x y = (if x = NaN then y else if y = NaN then x else if f_lt y x then y else x)"

definition f_clamp :: "f64 \<Rightarrow> f64 \<Rightarrow> f64 \<Rightarrow> f64 option" where
  "f_clamp x lo hi = (if f_le lo hi then Some (if f_lt x lo then lo else if f_lt hi x then hi else x) else None)"

definition f_epsilon :: f64 where
  "f_epsilon = Fin False (1 / 2 ^ 52)"

definition f_sq :: "f64 \<Rightarrow> f64" where
  "f_sq x = f_mul x x"

fun f_as_u16 :: "f64 \<Rightarrow> nat" where
  "f_as_u16 NaN = 0"
| "f_as_u16 (Inf s) = (if s then 0 else 65535)"
| "f_as_u16 (Fin s q) = nat (clamp 0 65535 (trunc0 s q))"

section \<open>The code\<close>

record laser_scan =
  angle_min :: f64
  angle_increment :: f64
  ranges :: "f64 list"

text \<open>One beam of \<open>walk_beams\<close> from distance \<open>s\<close> on; \<open>None\<close> is a beam that is walked for ever.\<close>

partial_function (option) walk_beam :: "f64 \<Rightarrow> f64 \<Rightarrow> (f64 \<Rightarrow> 'a \<Rightarrow> bool \<times> 'a) \<Rightarrow> f64 \<Rightarrow> 'a \<Rightarrow> 'a option" where
  "walk_beam step stop f s acc =
     (if f_lt s stop then
        (case f s acc of (go, acc') \<Rightarrow> if go then walk_beam step stop f (f_add s step) acc' else Some acc')
      else Some acc)"

definition beam_angle :: "laser_scan \<Rightarrow> f64 \<Rightarrow> nat \<Rightarrow> f64" where
  "beam_angle msg t i = f_add (f_add t (f_mul (angle_increment msg) (f_of_int (int i)))) (angle_min msg)"

definition walk_beams ::
  "(f64 \<Rightarrow> f64) \<Rightarrow> (f64 \<Rightarrow> f64) \<Rightarrow> laser_scan \<Rightarrow> f64 \<Rightarrow> f64 \<Rightarrow> f64 \<Rightarrow> f64 \<Rightarrow> f64 \<Rightarrow> (f64 \<Rightarrow> f64 \<Rightarrow> 'a \<Rightarrow> bool \<times> 'a) \<Rightarrow> 'a \<Rightarrow> 'a option" where
  "walk_beams cosf sinf msg x y t step stop_back f acc =
     fold (\<lambda>i r. Option.bind r (\<lambda>acc.
        let a = beam_angle msg t i in
        walk_beam step (f_sub (ranges msg ! i) stop_back)
          (\<lambda>s. f (f_add x (f_mul s (cosf a))) (f_add y (f_mul s (sinf a)))) step acc))
       [0..<length (ranges msg)] (Some acc)"

datatype local_shape = Square | Circle | Ellipse | Capsule

fun local_shape_from_name :: "string \<Rightarrow> local_shape option" where
  "local_shape_from_name s =
     (if s = ''square'' then Some Square
      else if s = ''circle'' then Some Circle
      else if s = ''ellipse'' then Some Ellipse
      else if s = ''capsule'' then Some Capsule
      else None)"

definition oriented :: "local_shape \<Rightarrow> bool" where
  "oriented sh \<longleftrightarrow> sh \<noteq> Square"

definition dynamic :: "local_shape \<Rightarrow> bool" where
  "dynamic sh \<longleftrightarrow> sh = Ellipse \<or> sh = Capsule"

record local_shape_config =
  shape :: local_shape
  range_m :: f64
  lat_m :: f64
  ratio_max :: f64
  slew_m :: f64
  fw_ref_m :: f64

definition shape_config_default :: local_shape_config where
  "shape_config_default =
     \<lparr>shape = Square, range_m = f_of_int 1, lat_m = f_of_int 0, ratio_max = f_of_int 1, slew_m = f_of_int 0, fw_ref_m = f_of_int 0\<rparr>"

definition config_lat :: "local_shape_config \<Rightarrow> f64" where
  "config_lat cfg = (if f_lt (f_of_int 0) (lat_m cfg) then lat_m cfg else range_m cfg)"

definition radii_cells :: "local_shape_config \<Rightarrow> f64 \<Rightarrow> i32 \<times> i32" where
  "radii_cells cfg res =
     (if oriented (shape cfg)
      then let m = f_as_i32 (f_div (f_max (f_mul (range_m cfg) (f_max (ratio_max cfg) (f_of_int 1))) (config_lat cfg)) res) in (m, m)
      else (f_as_i32 (f_div (range_m cfg) res), f_as_i32 (f_div (config_lat cfg) res)))"

definition min_radius_m :: "local_shape_config \<Rightarrow> f64" where
  "min_radius_m cfg =
     (let fore = (if dynamic (shape cfg) then f_div (range_m cfg) (f_max (ratio_max cfg) (f_of_int 1)) else range_m cfg)
      in f_min fore (config_lat cfg))"

definition bbox_cells :: "local_shape_config \<Rightarrow> f64 \<Rightarrow> i32" where
  "bbox_cells cfg res = (case radii_cells cfg res of (rx, ry) \<Rightarrow> max rx ry)"

definition DEADBAND_CELLS :: f64 where
  "DEADBAND_CELLS = f_lit (3 / 10)"

record vi_local =
  base :: value_iterator
  scan_penalty_radius :: f64
  scan_penalty :: u64
  local_ix_min :: i32
  local_ix_max :: i32
  local_iy_min :: i32
  local_iy_max :: i32
  local_ixy_range :: i32
  local_xy_range :: f64
  l_shape :: local_shape_config
  a_fwd :: f64
  a_bwd :: f64
  l_lat :: f64
  center :: "f64 \<times> f64"
  cos_t :: f64
  sin_t :: f64
  prev_xy :: "(f64 \<times> f64) option"
  clear_map_from_scan :: bool
  safety_radius :: f64
  safety_radius_penalty :: f64
  obstacle_dist :: "nat list"

definition vi_local_new :: "action list \<Rightarrow> i32 \<Rightarrow> vi_local" where
  "vi_local_new acts nthr =
     (let z = f_of_int 0 in
      \<lparr>base = value_iterator_new acts nthr, scan_penalty_radius = f_lit (1 / 10), scan_penalty = 10000,
       local_ix_min = 0, local_ix_max = 0, local_iy_min = 0, local_iy_max = 0, local_ixy_range = 0, local_xy_range = z,
       l_shape = shape_config_default, a_fwd = z, a_bwd = z, l_lat = z, center = (z, z), cos_t = f_of_int 1, sin_t = z,
       prev_xy = None, clear_map_from_scan = False, safety_radius = z, safety_radius_penalty = z, obstacle_dist = []\<rparr>)"

definition rect_radii :: "vi_local \<Rightarrow> i32 \<times> i32" where
  "rect_radii vi = radii_cells (l_shape vi) (xy_resolution (base vi))"

definition set_local_shape :: "local_shape_config \<Rightarrow> vi_local \<Rightarrow> vi_local" where
  "set_local_shape cfg vi =
     (let res = xy_resolution (base vi);
          vi = vi\<lparr>l_shape := cfg, local_xy_range := range_m cfg, a_fwd := f_div (range_m cfg) res, a_bwd := f_div (range_m cfg) res,
                  l_lat := f_div (config_lat cfg) res, prev_xy := None\<rparr>
      in case rect_radii vi of (rx, ry) \<Rightarrow>
         vi\<lparr>local_ixy_range := max rx ry, local_ix_min := 0, local_iy_min := 0,
            local_ix_max := wrap32 (rx * 2), local_iy_max := wrap32 (ry * 2)\<rparr>)"

definition local_set_map ::
  "(f64 \<Rightarrow> f64) \<Rightarrow> (f64 \<Rightarrow> f64) \<Rightarrow> nat \<Rightarrow> occupancy_grid \<Rightarrow> i32 \<Rightarrow> f64 \<Rightarrow> f64 \<Rightarrow> f64 \<Rightarrow> i32 \<Rightarrow> vi_local \<Rightarrow> vi_local option" where
  "local_set_map cosf sinf par m theta_cell_num sr srp gm_radius gm_theta vi =
     map_option (\<lambda>b. (set_local_shape shape_config_default (vi\<lparr>base := b\<rparr>))
         \<lparr>safety_radius := sr, safety_radius_penalty := srp, obstacle_dist := []\<rparr>)
       (set_map_with_occupancy_grid cosf sinf par m theta_cell_num sr srp gm_radius gm_theta (base vi))"

definition set_local_xy_range :: "f64 \<Rightarrow> vi_local \<Rightarrow> vi_local" where
  "set_local_xy_range r vi = set_local_shape (shape_config_default\<lparr>range_m := r\<rparr>) vi"

text \<open>The bounds of the \<open>clamp\<close> in a capsule are on both sides of zero, so it does not panic.\<close>

definition in_shape :: "vi_local \<Rightarrow> f64 \<Rightarrow> f64 \<Rightarrow> bool" where
  "in_shape vi fx fy =
     (let b = f_max (l_lat vi) f_epsilon in
      case shape (l_shape vi) of
        Square \<Rightarrow> True
      | Capsule \<Rightarrow>
          (case f_clamp fx (f_neg (f_max (f_sub (a_bwd vi) b) (f_of_int 0))) (f_max (f_sub (a_fwd vi) b) (f_of_int 0)) of
             Some c \<Rightarrow> f_le (f_add (f_sq (f_sub fx c)) (f_mul fy fy)) (f_mul b b)
           | None \<Rightarrow> False)
      | _ \<Rightarrow>
          let a = f_max (if f_le (f_of_int 0) fx then a_fwd vi else a_bwd vi) f_epsilon
          in f_le (f_add (f_sq (f_div fx a)) (f_sq (f_div fy b))) (f_of_int 1))"

definition in_local_area :: "vi_local \<Rightarrow> i32 \<Rightarrow> i32 \<Rightarrow> bool" where
  "in_local_area vi ix iy \<longleftrightarrow>
     \<not> (ix < local_ix_min vi \<or> local_ix_max vi < ix \<or> iy < local_iy_min vi \<or> local_iy_max vi < iy) \<and>
     (\<not> oriented (shape (l_shape vi)) \<or>
      (let dx = f_sub (f_add (f_of_int ix) (f_lit (1 / 2))) (fst (center vi));
           dy = f_sub (f_add (f_of_int iy) (f_lit (1 / 2))) (snd (center vi));
           fx = f_add (f_mul dx (cos_t vi)) (f_mul dy (sin_t vi));
           fy = f_add (f_mul (f_neg dx) (sin_t vi)) (f_mul dy (cos_t vi))
       in in_shape vi fx fy))"

definition update_axes :: "(f64 \<Rightarrow> f64) \<Rightarrow> (f64 \<Rightarrow> f64) \<Rightarrow> f64 \<Rightarrow> f64 \<Rightarrow> f64 \<Rightarrow> vi_local \<Rightarrow> vi_local option" where
  "update_axes cosf sinf x y yaw vi =
     (let cfg = l_shape vi; prev = prev_xy vi; vi = vi\<lparr>prev_xy := Some (x, y)\<rparr> in
      if \<not> dynamic (shape cfg) \<or> f_le (ratio_max cfg) (f_of_int 1) \<or> f_le (fw_ref_m cfg) (f_of_int 0) then Some vi
      else case prev of None \<Rightarrow> Some vi
      | Some (px, py) \<Rightarrow>
          let res = xy_resolution (base vi);
              disp = f_add (f_mul (f_sub x px) (cosf yaw)) (f_mul (f_sub y py) (sinf yaw))
          in if f_lt (f_abs disp) (f_mul DEADBAND_CELLS res) then Some vi
             else Option.bind (f_clamp (f_div disp (fw_ref_m cfg)) (f_of_int (- 1)) (f_of_int 1)) (\<lambda>v.
               let r = range_m cfg;
                   lo = f_div r (ratio_max cfg);
                   hi = f_min (f_sub (f_mul (f_of_int 2) r) lo) (f_mul r (ratio_max cfg))
               in Option.bind (f_clamp (f_mul r (f_add (f_of_int 1) (f_mul (f_sub (ratio_max cfg) (f_of_int 1)) v))) lo hi) (\<lambda>target.
               let cur = f_mul (a_fwd vi) res;
                   slew = (if f_lt (f_of_int 0) (slew_m cfg) then slew_m cfg else Inf False)
               in map_option (\<lambda>nxt. vi\<lparr>a_fwd := f_div nxt res, a_bwd := f_div (f_sub (f_mul (f_of_int 2) r) nxt) res\<rparr>)
                    (f_clamp target (f_sub cur slew) (f_add cur slew)))))"

text \<open>\<open>value_iteration_local\<close> is \<open>value_iteration_at\<close> on the base.\<close>

definition value_iteration_local :: "nat \<Rightarrow> vi_local \<Rightarrow> vi_local \<times> u64" where
  "value_iteration_local idx vi = (case value_iteration_at (base vi) idx of (b, d) \<Rightarrow> (vi\<lparr>base := b\<rparr>, d))"

definition local_value_iteration_loop :: "vi_local \<Rightarrow> vi_local" where
  "local_value_iteration_loop vi =
     fold (\<lambda>iix. fold (\<lambda>iiy vi.
        if \<not> in_local_area vi iix iiy then vi
        else fold (\<lambda>iit vi. fst (value_iteration_local (usize_of (to_index (base vi) iix iiy iit)) vi)) [0..cell_num_t (base vi) - 1] vi)
       [local_iy_min vi..local_iy_max vi]) [local_ix_min vi..local_ix_max vi] vi"

text \<open>The loop over the headings of one cell, which every writer ends in.\<close>

definition map_thetas :: "(state \<Rightarrow> state) \<Rightarrow> i32 \<Rightarrow> i32 \<Rightarrow> vi_local \<Rightarrow> vi_local" where
  "map_thetas f ix iy vi =
     fold (\<lambda>it vi. let i = usize_of (to_index (base vi) ix iy it) in
        vi\<lparr>base := (base vi)\<lparr>states := (states (base vi))[i := f (states (base vi) ! i)]\<rparr>\<rparr>)
       [0..cell_num_t (base vi) - 1] vi"

definition map_window_cell :: "(state \<Rightarrow> state) \<Rightarrow> i32 \<Rightarrow> i32 \<Rightarrow> vi_local \<Rightarrow> vi_local" where
  "map_window_cell f ix iy vi = (if in_local_area vi ix iy then map_thetas f ix iy vi else vi)"

text \<open>The cell of a point of the map.\<close>

definition cell_of :: "vi_local \<Rightarrow> f64 \<Rightarrow> f64 \<Rightarrow> i32 \<times> i32" where
  "cell_of vi px py =
     (f_as_i32 (f_floor (f_div (f_sub px (map_origin_x (base vi))) (xy_resolution (base vi)))),
      f_as_i32 (f_floor (f_div (f_sub py (map_origin_y (base vi))) (xy_resolution (base vi)))))"

text \<open>\<open>let mut d = 0.1; while d <= 0.9 { \<dots>; d += 0.1 }\<close>\<close>

partial_function (option) tenths_loop :: "(f64 \<Rightarrow> 'a \<Rightarrow> 'a) \<Rightarrow> f64 \<Rightarrow> 'a \<Rightarrow> 'a option" where
  "tenths_loop body d acc =
     (if f_le d (f_lit (9 / 10)) then tenths_loop body (f_add d (f_lit (1 / 10))) (body d acc) else Some acc)"

declare walk_beam.simps [code] tenths_loop.simps [code]

definition halve_penalty :: "state \<Rightarrow> state" where
  "halve_penalty s = s\<lparr>local_penalty := local_penalty s div 2\<rparr>"

definition open_state :: "state \<Rightarrow> state" where
  "open_state s = s\<lparr>free := True, penalty := PROB_BASE\<rparr>"

definition scan_strength :: "u64 \<Rightarrow> nat \<Rightarrow> u64" where
  "scan_strength p shift = (if p = 0 then 0 else max 1 (drop_bit (min shift 63) p))"

definition scan_beam :: "(f64 \<Rightarrow> f64) \<Rightarrow> (f64 \<Rightarrow> f64) \<Rightarrow> laser_scan \<Rightarrow> f64 \<Rightarrow> f64 \<Rightarrow> f64 \<Rightarrow> u64 \<Rightarrow> i32 \<Rightarrow> nat \<Rightarrow> vi_local \<Rightarrow> vi_local option" where
  "scan_beam cosf sinf msg x y t inject radius i vi =
     (let a = beam_angle msg t i; r = ranges msg ! i in
      case cell_of vi (f_add x (f_mul r (cosf a))) (f_add y (f_mul r (sinf a))) of (ix, iy) \<Rightarrow>
      map_option
        (\<lambda>vi. fold (\<lambda>iix. fold (\<lambda>iiy. map_window_cell (\<lambda>s. s\<lparr>local_penalty := inject\<rparr>) iix iiy)
                [wrap32 (iy - radius)..wrap32 (iy + radius)]) [wrap32 (ix - radius)..wrap32 (ix + radius)] vi)
        (tenths_loop (\<lambda>d vi.
            case cell_of vi (f_add x (f_mul (f_mul r (cosf a)) d)) (f_add y (f_mul (f_mul r (sinf a)) d)) of
              (half_ix, half_iy) \<Rightarrow> map_window_cell halve_penalty half_ix half_iy vi)
          (f_lit (1 / 10)) vi))"

definition open_cell :: "f64 \<Rightarrow> f64 \<Rightarrow> vi_local \<Rightarrow> bool \<times> vi_local" where
  "open_cell wx wy vi =
     (case cell_of vi wx wy of (bx, by') \<Rightarrow>
      if \<not> in_local_area vi bx by' then (False, vi) else (True, map_thetas open_state bx by' vi))"

definition set_local_cost_attenuated ::
  "(f64 \<Rightarrow> f64) \<Rightarrow> (f64 \<Rightarrow> f64) \<Rightarrow> laser_scan \<Rightarrow> f64 \<Rightarrow> f64 \<Rightarrow> f64 \<Rightarrow> nat \<Rightarrow> vi_local \<Rightarrow> vi_local option" where
  "set_local_cost_attenuated cosf sinf msg x y t shift vi =
     (let inject = push_bit PROB_BASE_BIT (scan_strength (scan_penalty vi) shift);
          res = xy_resolution (base vi);
          radius = f_as_i32 (f_ceil (f_div (scan_penalty_radius vi) res))
      in Option.bind
           (fold (\<lambda>i r. Option.bind r (scan_beam cosf sinf msg x y t inject radius i)) [0..<length (ranges msg)] (Some vi))
           (\<lambda>vi. if clear_map_from_scan vi
                 then walk_beams cosf sinf msg x y t (f_mul res (f_lit (1 / 2))) res open_cell vi
                 else Some vi))"

definition set_local_cost ::
  "(f64 \<Rightarrow> f64) \<Rightarrow> (f64 \<Rightarrow> f64) \<Rightarrow> laser_scan \<Rightarrow> f64 \<Rightarrow> f64 \<Rightarrow> f64 \<Rightarrow> vi_local \<Rightarrow> vi_local option" where
  "set_local_cost cosf sinf msg x y t = set_local_cost_attenuated cosf sinf msg x y t 0"

definition set_local_window :: "(f64 \<Rightarrow> f64) \<Rightarrow> (f64 \<Rightarrow> f64) \<Rightarrow> f64 \<Rightarrow> f64 \<Rightarrow> f64 \<Rightarrow> vi_local \<Rightarrow> vi_local option" where
  "set_local_window cosf sinf x y t vi =
     map_option (\<lambda>vi.
       let res = xy_resolution (base vi);
           cx = f_div (f_sub x (map_origin_x (base vi))) res;
           cy = f_div (f_sub y (map_origin_y (base vi))) res;
           ix = f_as_i32 (f_floor cx);
           iy = f_as_i32 (f_floor cy)
       in case rect_radii vi of (rx, ry) \<Rightarrow>
          vi\<lparr>center := (cx, cy), cos_t := cosf t, sin_t := sinf t,
             local_ix_min := (if 0 \<le> wrap32 (ix - rx) then wrap32 (ix - rx) else 0),
             local_iy_min := (if 0 \<le> wrap32 (iy - ry) then wrap32 (iy - ry) else 0),
             local_ix_max := (if wrap32 (ix + rx) < cell_num_x (base vi) then wrap32 (ix + rx) else cell_num_x (base vi) - 1),
             local_iy_max := (if wrap32 (iy + ry) < cell_num_y (base vi) then wrap32 (iy + ry) else cell_num_y (base vi) - 1)\<rparr>)
       (update_axes cosf sinf x y t vi)"

text \<open>The chamfer transform. A \<open>u16\<close> is a natural number up to 65535 with saturating successor.\<close>

definition sat1 :: "nat \<Rightarrow> nat" where
  "sat1 v = min 65535 (v + 1)"

definition fwd_value :: "nat \<Rightarrow> nat list \<Rightarrow> nat \<Rightarrow> nat \<Rightarrow> nat" where
  "fwd_value nx d iy ix =
     (let i = iy * nx + ix;
          v = d ! i;
          v = (if 0 < ix then min v (sat1 (d ! (i - 1))) else v)
      in if 0 < iy then
           let v = min v (sat1 (d ! (i - nx)));
               v = (if 0 < ix then min v (sat1 (d ! (i - nx - 1))) else v)
           in if ix + 1 < nx then min v (sat1 (d ! (i - nx + 1))) else v
         else v)"

definition bwd_value :: "nat \<Rightarrow> nat \<Rightarrow> nat list \<Rightarrow> nat \<Rightarrow> nat \<Rightarrow> nat" where
  "bwd_value nx ny d iy ix =
     (let i = iy * nx + ix;
          v = d ! i;
          v = (if ix + 1 < nx then min v (sat1 (d ! (i + 1))) else v)
      in if iy + 1 < ny then
           let v = min v (sat1 (d ! (i + nx)));
               v = (if ix + 1 < nx then min v (sat1 (d ! (i + nx + 1))) else v)
           in if 0 < ix then min v (sat1 (d ! (i + nx - 1))) else v
         else v)"

definition dist_linf :: "i32 \<Rightarrow> i32 \<Rightarrow> (i32 \<Rightarrow> i32 \<Rightarrow> bool) \<Rightarrow> nat list" where
  "dist_linf nx_i ny_i is_obstacle =
     (let nx = usize_of (max nx_i 0); ny = usize_of (max ny_i 0) in
      if nx = 0 \<or> ny = 0 then []
      else let d = replicate (nx * ny) 65535;
               d = fold (\<lambda>iy. fold (\<lambda>ix d. if is_obstacle (int ix) (int iy) then d[iy * nx + ix := 0] else d) [0..<nx]) [0..<ny] d;
               d = fold (\<lambda>iy. fold (\<lambda>ix d. d[iy * nx + ix := fwd_value nx d iy ix]) [0..<nx]) [0..<ny] d
           in fold (\<lambda>iy. fold (\<lambda>ix d. d[iy * nx + ix := bwd_value nx ny d iy ix]) (rev [0..<nx])) (rev [0..<ny]) d)"

definition ensure_obstacle_dist :: "vi_local \<Rightarrow> vi_local" where
  "ensure_obstacle_dist vi =
     (if obstacle_dist vi \<noteq> [] then vi
      else let nx = cell_num_x (base vi); ny = cell_num_y (base vi); nt = cell_num_t (base vi)
           in vi\<lparr>obstacle_dist := dist_linf nx ny (\<lambda>ix iy. \<not> free (states (base vi) ! usize_of (wrap32 (ix * nt + iy * nt * nx))))\<rparr>)"

definition inflate_by_sigma :: "f64 \<Rightarrow> vi_local \<Rightarrow> vi_local" where
  "inflate_by_sigma extra_m vi =
     (if f_le extra_m (f_of_int 0) then vi
      else let vi = ensure_obstacle_dist vi;
               res = xy_resolution (base vi);
               m0 = f_as_u16 (f_ceil (f_div (safety_radius vi) res));
               m1 = min 65535 (m0 + f_as_u16 (f_ceil (f_div extra_m res)));
               pen = f_as_u64 (f_mul (safety_radius_penalty vi) (f_of_int (uint PROB_BASE)));
               nx = cell_num_x (base vi)
           in fold (\<lambda>ix. fold (\<lambda>iy vi.
                if \<not> in_local_area vi ix iy then vi
                else let d = obstacle_dist vi ! usize_of (wrap32 (iy * nx + ix)) in
                     if d \<le> m0 \<or> m1 < d then vi
                     else map_thetas (\<lambda>s. s\<lparr>local_penalty := max (local_penalty s) pen\<rparr>) ix iy vi)
                [local_iy_min vi..local_iy_max vi]) [local_ix_min vi..local_ix_max vi] vi)"

section \<open>The chamfer transform\<close>

lemma fold_product: "fold (\<lambda>y. fold (f y) xs) ys s = fold (\<lambda>(y, x). f y x) (List.product ys xs) s"
  by (induction ys arbitrary: s) (simp_all add: fold_map comp_def)

lemma sorted_wrt_product:
  "sorted_wrt R ys \<Longrightarrow> sorted_wrt S xs \<Longrightarrow> sorted_wrt (\<lambda>(a, b) (c, d). R a c \<or> a = c \<and> S b d) (List.product ys xs)"
proof (induction ys)
  case (Cons y ys)
  have "sorted_wrt (\<lambda>b d. R y y \<or> S b d) xs" by (rule sorted_wrt_mono_rel [OF _ Cons.prems(2)]) simp
  then show ?case using Cons by (auto simp: sorted_wrt_append sorted_wrt_map)
qed simp

text \<open>A loop over \<open>ks\<close> with an invariant on the part already visited.\<close>

lemma fold_visited:
  assumes "P [] s" and "\<And>as k bs s. ks = as @ k # bs \<Longrightarrow> P as s \<Longrightarrow> P (as @ [k]) (f k s)"
  shows "P ks (fold f ks s)"
proof -
  have "P as (fold f as s)" if "ks = as @ bs" for as bs
    using that
  proof (induction as arbitrary: bs rule: rev_induct)
    case (snoc k as)
    then have "P (as @ [k]) (f k (fold f as s))" by (intro assms(2) snoc.IH) simp_all
    then show ?case by simp
  qed (simp add: assms(1))
  then show ?thesis by simp
qed

lemma visited_before:
  assumes "ks = as @ k # bs" "sorted_wrt R ks" "k' \<in> set ks" "R k' k" "\<not> R k k'" "k' \<noteq> k"
  shows "k' \<in> set as"
  using assms by (auto simp: sorted_wrt_append)

definition cheb :: "nat \<times> nat \<Rightarrow> nat \<times> nat \<Rightarrow> nat" where
  "cheb = (\<lambda>(y, x) (b, a). max (max (x - a) (a - x)) (max (y - b) (b - y)))"

definition sat_dist :: "(nat \<times> nat) set \<Rightarrow> nat \<times> nat \<Rightarrow> nat" where
  "sat_dist Obs q = Min (insert 65535 (cheb q ` Obs))"

lemma sat_dist_le: "finite Obs \<Longrightarrow> sat_dist Obs q \<le> 65535" "finite Obs \<Longrightarrow> o' \<in> Obs \<Longrightarrow> sat_dist Obs q \<le> cheb q o'"
  by (simp_all add: sat_dist_def)

lemma sat_dist_ge: "finite Obs \<Longrightarrow> v \<le> 65535 \<Longrightarrow> (\<And>o'. o' \<in> Obs \<Longrightarrow> v \<le> cheb q o') \<Longrightarrow> v \<le> sat_dist Obs q"
  by (simp add: sat_dist_def)

lemma sat_dist_cases: "finite Obs \<Longrightarrow> sat_dist Obs q = 65535 \<or> (\<exists>o'\<in>Obs. sat_dist Obs q = cheb q o')"
  using Min_in [of "insert 65535 (cheb q ` Obs)"] by (auto simp: sat_dist_def)

lemma max4_Suc:
  assumes "a \<le> Suc a'" "b \<le> Suc b'" "c \<le> Suc c'" "d \<le> Suc d'"
  shows "max (max a b) (max c d) \<le> Suc (max (max a' b') (max c' d'))"
proof -
  define m where "m = max (max a' b') (max c' d')"
  have "a' \<le> m" "b' \<le> m" "c' \<le> m" "d' \<le> m" unfolding m_def by (simp_all only: le_max_iff_disj) simp_all
  then have "a \<le> Suc m" "b \<le> Suc m" "c \<le> Suc m" "d \<le> Suc m" using assms by linarith+
  then show ?thesis unfolding m_def [symmetric] by (simp only: max.bounded_iff)
qed

lemma cheb_step: "cheb p q \<le> 1 \<Longrightarrow> cheb p o' \<le> Suc (cheb q o')"
proof -
  assume pq: "cheb p q \<le> 1"
  obtain y x where p: "p = (y, x)" by (cases p)
  obtain y' x' where q: "q = (y', x')" by (cases q)
  obtain b a where o': "o' = (b, a)" by (cases o')
  have "x - x' \<le> 1 \<and> x' - x \<le> 1 \<and> y - y' \<le> 1 \<and> y' - y \<le> 1"
    using pq unfolding cheb_def p q prod.case by (simp only: max.bounded_iff)
  then have "x - a \<le> Suc (x' - a)" "a - x \<le> Suc (a - x')" "y - b \<le> Suc (y' - b)" "b - y \<le> Suc (b - y')" by linarith+
  then show ?thesis unfolding cheb_def p q o' prod.case by (rule max4_Suc)
qed

lemma sat_dist_step:
  assumes "finite Obs" "cheb p q \<le> 1"
  shows "sat_dist Obs p \<le> sat1 (sat_dist Obs q)"
proof -
  have "sat_dist Obs p \<le> Suc (sat_dist Obs q)"
    using sat_dist_cases [OF assms(1), of q]
  proof
    assume "sat_dist Obs q = 65535"
    then show ?thesis using sat_dist_le(1) [OF assms(1), of p] by simp
  next
    assume "\<exists>o'\<in>Obs. sat_dist Obs q = cheb q o'"
    then obtain o' where o': "o' \<in> Obs" "sat_dist Obs q = cheb q o'" ..
    have "sat_dist Obs p \<le> cheb p o'" by (rule sat_dist_le(2) [OF assms(1) o'(1)])
    also have "\<dots> \<le> Suc (cheb q o')" by (rule cheb_step [OF assms(2)])
    finally show ?thesis by (simp add: o'(2))
  qed
  then show ?thesis using sat_dist_le(1) [OF assms(1), of p] by (simp add: sat1_def)
qed

lemma sat1_mono: "a \<le> b \<Longrightarrow> sat1 a \<le> sat1 b"
  by (simp add: sat1_def)

definition at2 :: "nat \<Rightarrow> nat list \<Rightarrow> nat \<times> nat \<Rightarrow> nat" where
  "at2 nx d = (\<lambda>(y, x). d ! (y * nx + x))"

text \<open>The neighbours the two passes read.\<close>

definition fwd_nbrs :: "nat \<Rightarrow> nat \<times> nat \<Rightarrow> (nat \<times> nat) set" where
  "fwd_nbrs nx = (\<lambda>(y, x). {(y, x - 1) |_::unit. 0 < x} \<union> {(y - 1, x) |_::unit. 0 < y} \<union>
     {(y - 1, x - 1) |_::unit. 0 < y \<and> 0 < x} \<union> {(y - 1, x + 1) |_::unit. 0 < y \<and> x + 1 < nx})"

definition bwd_nbrs :: "nat \<Rightarrow> nat \<Rightarrow> nat \<times> nat \<Rightarrow> (nat \<times> nat) set" where
  "bwd_nbrs nx ny = (\<lambda>(y, x). {(y, x + 1) |_::unit. x + 1 < nx} \<union> {(y + 1, x) |_::unit. y + 1 < ny} \<union>
     {(y + 1, x + 1) |_::unit. y + 1 < ny \<and> x + 1 < nx} \<union> {(y + 1, x - 1) |_::unit. y + 1 < ny \<and> 0 < x})"

lemma fwd_value_spec:
  assumes "x < nx"
  shows "v \<le> fwd_value nx d y x \<longleftrightarrow> v \<le> at2 nx d (y, x) \<and> (\<forall>q\<in>fwd_nbrs nx (y, x). v \<le> sat1 (at2 nx d q))"
  using assms
  by (cases x; cases y; cases "x + 1 < nx") (auto simp: fwd_value_def fwd_nbrs_def at2_def Let_def)

lemma bwd_value_spec:
  assumes "x < nx"
  shows "v \<le> bwd_value nx ny d y x \<longleftrightarrow> v \<le> at2 nx d (y, x) \<and> (\<forall>q\<in>bwd_nbrs nx ny (y, x). v \<le> sat1 (at2 nx d q))"
  using assms
  by (cases "0 < x"; cases "y + 1 < ny"; cases "x + 1 < nx") (auto simp: bwd_value_def bwd_nbrs_def at2_def Let_def algebra_simps)

lemma cheb_le: "cheb (y, x) (b, a) \<le> n \<longleftrightarrow> x \<le> a + n \<and> a \<le> x + n \<and> y \<le> b + n \<and> b \<le> y + n"
proof -
  have "cheb (y, x) (b, a) \<le> n \<longleftrightarrow> (x - a \<le> n \<and> a - x \<le> n) \<and> y - b \<le> n \<and> b - y \<le> n"
    unfolding cheb_def prod.case by (simp only: max.bounded_iff)
  also have "\<dots> \<longleftrightarrow> x \<le> a + n \<and> a \<le> x + n \<and> y \<le> b + n \<and> b \<le> y + n" by linarith
  finally show ?thesis .
qed

lemma fwd_nbrs_cheb: "q \<in> fwd_nbrs nx p \<Longrightarrow> cheb p q \<le> 1"
  by (cases p; cases q) (auto simp: fwd_nbrs_def cheb_le)

lemma bwd_nbrs_cheb: "q \<in> bwd_nbrs nx ny p \<Longrightarrow> cheb p q \<le> 1"
  by (cases p; cases q) (auto simp: bwd_nbrs_def cheb_le)

lemma at2_update:
  assumes "length d = nx * ny" "x < nx" "y < ny" "fst q < ny" "snd q < nx"
  shows "at2 nx (d[y * nx + x := v]) q = (if q = (y, x) then v else at2 nx d q)"
proof (cases q)
  case (Pair b a)
  have "b * nx + a < length d" using assms(4,5) Pair row_major_less [of b ny a nx] by (simp add: assms(1) mult.commute [of nx])
  then show ?thesis using assms Pair by (auto simp: at2_def nth_list_update row_major_eq)
qed

text \<open>What one pass does, whatever its order and its neighbours, as long as the neighbours come first.\<close>

lemma chamfer_pass:
  assumes ks: "distinct ks" "set ks = {0..<ny} \<times> {0..<nx}" and before: "\<And>as k bs. ks = as @ k # bs \<Longrightarrow> N k \<subseteq> set as"
    and val: "\<And>d y x v. x < nx \<Longrightarrow> v \<le> val d y x \<longleftrightarrow> v \<le> at2 nx d (y, x) \<and> (\<forall>q\<in>N (y, x). v \<le> sat1 (at2 nx d q))"
    and len: "length d = nx * ny" and low: "\<forall>q\<in>set ks. L q \<le> at2 nx d q" and lip: "\<forall>k\<in>set ks. \<forall>q\<in>N k. L k \<le> sat1 (L q)"
  shows "let res = fold (\<lambda>(y, x) d. d[y * nx + x := val d y x]) ks d in
    length res = nx * ny \<and> (\<forall>q\<in>set ks. L q \<le> at2 nx res q \<and> at2 nx res q \<le> at2 nx d q) \<and>
    (\<forall>k\<in>set ks. \<forall>q\<in>N k. at2 nx res k \<le> sat1 (at2 nx res q))"
proof -
  define P where "P as e \<longleftrightarrow> length e = nx * ny \<and> (\<forall>q\<in>set ks. L q \<le> at2 nx e q \<and> at2 nx e q \<le> at2 nx d q) \<and>
    (\<forall>k\<in>set as. N k \<subseteq> set as \<and> (\<forall>q\<in>N k. at2 nx e k \<le> sat1 (at2 nx e q)))" for as e
  have "P ks (fold (\<lambda>(y, x) d. d[y * nx + x := val d y x]) ks d)"
  proof (rule fold_visited)
    show "P [] d" using len low by (simp add: P_def)
    fix as k bs e assume sp: "ks = as @ k # bs" and P: "P as e"
    obtain y x where k: "k = (y, x)" by (cases k)
    have sub: "N k \<subseteq> set as" by (rule before [OF sp])
    have kin: "k \<in> set ks" "k \<notin> set as" "set as \<subseteq> set ks" using sp ks(1) by auto
    then have yx: "y < ny" "x < nx" using ks(2) k by auto
    let ?v = "val e y x"
    have upd: "at2 nx (e[y * nx + x := ?v]) q = (if q = k then ?v else at2 nx e q)" if "q \<in> set ks" for q
      unfolding k using P yx that ks(2) by (intro at2_update) (auto simp: P_def)
    have v: "?v \<le> at2 nx e k \<and> (\<forall>q\<in>N k. ?v \<le> sat1 (at2 nx e q))" using val [OF yx(2), of ?v e y] by (simp add: k)
    have L: "L q \<le> at2 nx e q" if "q \<in> set ks" for q using P that by (simp add: P_def)
    have "L k \<le> sat1 (at2 nx e q)" if "q \<in> N k" for q
      using lip kin that sub L [of q] sat1_mono [of "L q" "at2 nx e q"] by (meson le_trans subsetD)
    then have "L k \<le> ?v" using val [OF yx(2), of "L k" e y] L [OF kin(1)] by (simp add: k)
    then show "P (as @ [k]) ((\<lambda>(y, x) d. d[y * nx + x := val d y x]) k e)"
      unfolding k prod.case using P v upd kin sub
      by (auto simp: P_def k [symmetric] subset_iff)
  qed
  then show ?thesis by (simp add: P_def Let_def)
qed

definition lex_less :: "nat \<times> nat \<Rightarrow> nat \<times> nat \<Rightarrow> bool" where
  "lex_less = (\<lambda>(a, b) (c, d). a < c \<or> a = c \<and> b < d)"

lemma fwd_order:
  assumes "List.product [0..<ny] [0..<nx] = as @ k # bs"
  shows "fwd_nbrs nx k \<subseteq> set as"
proof
  fix q assume q: "q \<in> fwd_nbrs nx k"
  have k: "k \<in> set (List.product [0..<ny] [0..<nx])" by (simp add: assms)
  show "q \<in> set as"
  proof (rule visited_before [OF assms, of lex_less])
    show "sorted_wrt lex_less (List.product [0..<ny] [0..<nx])"
      unfolding lex_less_def by (rule sorted_wrt_product) simp_all
  qed (use q k in \<open>auto simp: fwd_nbrs_def lex_less_def\<close>)
qed

lemma bwd_order:
  assumes "List.product (rev [0..<ny]) (rev [0..<nx]) = as @ k # bs"
  shows "bwd_nbrs nx ny k \<subseteq> set as"
proof
  fix q assume q: "q \<in> bwd_nbrs nx ny k"
  have k: "k \<in> set (List.product (rev [0..<ny]) (rev [0..<nx]))" by (simp add: assms)
  show "q \<in> set as"
  proof (rule visited_before [OF assms, of "\<lambda>p q. lex_less q p"])
    have "sorted_wrt (\<lambda>(a, b) (c, d). a > c \<or> a = c \<and> b > d) (List.product (rev [0..<ny]) (rev [0..<nx]))"
      by (rule sorted_wrt_product) (simp_all add: sorted_wrt_rev)
    then show "sorted_wrt (\<lambda>p q. lex_less q p) (List.product (rev [0..<ny]) (rev [0..<nx]))"
      by (rule sorted_wrt_mono_rel [rotated]) (auto simp: lex_less_def)
  qed (use q k in \<open>auto simp: bwd_nbrs_def lex_less_def\<close>)
qed

lemma mark_obstacles:
  fixes nx ny :: nat and obs :: "nat \<times> nat \<Rightarrow> bool"
  defines "res \<equiv> fold (\<lambda>(y, x) d. if obs (y, x) then d[y * nx + x := 0] else d) (List.product [0..<ny] [0..<nx]) (replicate (nx * ny) 65535)"
  shows "length res = nx * ny \<and> (\<forall>q\<in>{0..<ny} \<times> {0..<nx}. at2 nx res q = (if obs q then 0 else 65535))"
proof -
  define P where "P as e \<longleftrightarrow> length e = nx * ny \<and>
    (\<forall>q\<in>{0..<ny} \<times> {0..<nx}. at2 nx e q = (if q \<in> set as \<and> obs q then 0 else 65535))" for as e
  have "P (List.product [0..<ny] [0..<nx]) res"
    unfolding res_def
  proof (rule fold_visited)
    have "b * nx + a < nx * ny" if "b < ny" "a < nx" for a b using row_major_less [OF that] by (simp add: mult.commute)
    then show "P [] (replicate (nx * ny) 65535)" by (auto simp: P_def at2_def)
    fix as k bs e assume sp: "List.product [0..<ny] [0..<nx] = as @ k # bs" and P: "P as e"
    obtain y x where k: "k = (y, x)" by (cases k)
    have "k \<in> set (List.product [0..<ny] [0..<nx])" by (simp add: sp)
    then have yx: "y < ny" "x < nx" by (auto simp: k)
    have "at2 nx (e[y * nx + x := 0]) q = (if q = k then 0 else at2 nx e q)" if "q \<in> {0..<ny} \<times> {0..<nx}" for q
      unfolding k using P yx that by (intro at2_update) (auto simp: P_def)
    then show "P (as @ [k]) ((\<lambda>(y, x) d. if obs (y, x) then d[y * nx + x := 0] else d) k e)"
      using P unfolding k prod.case by (auto simp: P_def k)
  qed
  then show ?thesis by (auto simp: P_def)
qed

text \<open>The obstacles the first pass sees from a cell: those above it, or beside it to the left.\<close>

definition fwd_sees :: "nat \<times> nat \<Rightarrow> nat \<times> nat \<Rightarrow> bool" where
  "fwd_sees = (\<lambda>(y, x) (b, a). b \<le> y \<and> (a \<le> x \<or> b < y \<and> a - x \<le> y - b))"

lemma fwd_upper:
  assumes low: "\<forall>o'\<in>Obs. f o' = 0" and step': "\<forall>k\<in>{0..<ny} \<times> {0..<nx}. \<forall>q\<in>fwd_nbrs nx k. f k \<le> sat1 (f q)" and Obs: "Obs \<subseteq> {0..<ny} \<times> {0..<nx}"
    and q: "q \<in> {0..<ny} \<times> {0..<nx}" "o' \<in> Obs" "fwd_sees q o'" "cheb q o' \<le> n"
  shows "f q \<le> n"
  using q
proof (induction n arbitrary: q)
  case 0
  obtain y x b a where e: "q = (y, x)" "o' = (b, a)" by (metis prod.exhaust)
  have "q = o'" using "0.prems"(4) cheb_le [of y x b a 0] by (simp add: e)
  then show ?case using low 0 by simp
next
  case (Suc n)
  obtain y x b a where e: "q = (y, x)" "o' = (b, a)" by (metis prod.exhaust)
  have "a < nx" using Obs Suc.prems e by auto
  consider "b = y" "a = x" | "b < y" "a < x" | "b < y" "a = x" | "b = y" "a < x" | "x < a" "b < y" "a - x \<le> y - b"
    using Suc.prems(3) by (auto simp: fwd_sees_def e) linarith+
  then have "q = o' \<or> (\<exists>q'\<in>fwd_nbrs nx q. q' \<in> {0..<ny} \<times> {0..<nx} \<and> fwd_sees q' o' \<and> cheb q' o' \<le> n)"
  proof cases
    case 1
    then show ?thesis by (simp add: e)
  next
    case 2
    then show ?thesis using Suc.prems by (intro disjI2 bexI [of _ "(y - 1, x - 1)"]) (auto simp: e cheb_le fwd_sees_def fwd_nbrs_def)
  next
    case 3
    then show ?thesis using Suc.prems by (intro disjI2 bexI [of _ "(y - 1, x)"]) (auto simp: e cheb_le fwd_sees_def fwd_nbrs_def)
  next
    case 4
    then show ?thesis using Suc.prems by (intro disjI2 bexI [of _ "(y, x - 1)"]) (auto simp: e cheb_le fwd_sees_def fwd_nbrs_def)
  next
    case 5
    then show ?thesis using Suc.prems \<open>a < nx\<close> by (intro disjI2 bexI [of _ "(y - 1, x + 1)"]) (auto simp: e cheb_le fwd_sees_def fwd_nbrs_def)
  qed
  then show ?case
  proof
    assume "q = o'"
    then show ?thesis using low Suc.prems by simp
  next
    assume "\<exists>q'\<in>fwd_nbrs nx q. q' \<in> {0..<ny} \<times> {0..<nx} \<and> fwd_sees q' o' \<and> cheb q' o' \<le> n"
    then obtain q' where q': "q' \<in> fwd_nbrs nx q" "f q' \<le> n" using Suc.IH Suc.prems(2) by blast
    then have "f q \<le> sat1 (f q')" using step' Suc.prems(1) by blast
    then show ?thesis using q'(2) by (simp add: sat1_def)
  qed
qed

lemma bwd_upper:
  assumes fwd: "\<forall>q\<in>{0..<ny} \<times> {0..<nx}. \<forall>o'\<in>Obs. fwd_sees q o' \<longrightarrow> f q \<le> cheb q o'"
    and step: "\<forall>k\<in>{0..<ny} \<times> {0..<nx}. \<forall>q\<in>bwd_nbrs nx ny k. f k \<le> sat1 (f q)" and Obs: "Obs \<subseteq> {0..<ny} \<times> {0..<nx}"
    and q: "q \<in> {0..<ny} \<times> {0..<nx}" "o' \<in> Obs" "cheb q o' \<le> n"
  shows "f q \<le> n"
  using q
proof (induction n arbitrary: q)
  case 0
  obtain y x b a where e: "q = (y, x)" "o' = (b, a)" by (metis prod.exhaust)
  have "q = o'" using "0.prems"(3) cheb_le [of y x b a 0] by (simp add: e)
  then have "fwd_sees q o'" by (simp add: e fwd_sees_def)
  then show ?case using fwd 0 by fastforce
next
  case (Suc n)
  obtain y x b a where e: "q = (y, x)" "o' = (b, a)" by (metis prod.exhaust)
  have ba: "a < nx" "b < ny" using Obs Suc.prems e by auto
  show ?case
  proof (cases "fwd_sees q o'")
    case True
    then show ?thesis using fwd Suc.prems by fastforce
  next
    case False
    then consider "y < b" "x < a" | "y < b" "x = a" | "y < b" "a < x" | "b \<le> y" "x < a" "y - b < a - x"
      by (auto simp: fwd_sees_def e) linarith+
    then have "\<exists>q'\<in>bwd_nbrs nx ny q. q' \<in> {0..<ny} \<times> {0..<nx} \<and> cheb q' o' \<le> n"
    proof cases
      case 1
      then show ?thesis using Suc.prems ba by (intro bexI [of _ "(y + 1, x + 1)"]) (auto simp: e cheb_le bwd_nbrs_def)
    next
      case 2
      then show ?thesis using Suc.prems ba by (intro bexI [of _ "(y + 1, x)"]) (auto simp: e cheb_le bwd_nbrs_def)
    next
      case 3
      then show ?thesis using Suc.prems ba by (intro bexI [of _ "(y + 1, x - 1)"]) (auto simp: e cheb_le bwd_nbrs_def)
    next
      case 4
      then show ?thesis using Suc.prems ba by (intro bexI [of _ "(y, x + 1)"]) (auto simp: e cheb_le bwd_nbrs_def)
    qed
    then obtain q' where q': "q' \<in> bwd_nbrs nx ny q" "f q' \<le> n" using Suc.IH Suc.prems(2) by blast
    then have "f q \<le> sat1 (f q')" using step Suc.prems(1) by blast
    then show ?thesis using q'(2) by (simp add: sat1_def)
  qed
qed

lemma dist_linf_sat:
  fixes obs :: "i32 \<Rightarrow> i32 \<Rightarrow> bool"
  assumes nx: "0 < nx" "nx < 2 ^ 31" and ny: "0 < ny" "ny < 2 ^ 31"
  defines "Obs \<equiv> {(y, x). y < ny \<and> x < nx \<and> obs (int x) (int y)}"
  shows "length (dist_linf (int nx) (int ny) obs) = nx * ny \<and>
    (\<forall>q\<in>{0..<ny} \<times> {0..<nx}. at2 nx (dist_linf (int nx) (int ny) obs) q = sat_dist Obs q)"
proof -
  let ?ks = "List.product [0..<ny] [0..<nx]" and ?rs = "List.product (rev [0..<ny]) (rev [0..<nx])"
  let ?G = "{0..<ny} \<times> {0..<nx}"
  define d0 where "d0 = fold (\<lambda>(y, x) d. if obs (int x) (int y) then d[y * nx + x := 0] else d) ?ks (replicate (nx * ny) (65535 :: nat))"
  define d1 where "d1 = fold (\<lambda>(y, x) d. d[y * nx + x := fwd_value nx d y x]) ?ks d0"
  define d2 where "d2 = fold (\<lambda>(y, x) d. d[y * nx + x := bwd_value nx ny d y x]) ?rs d1"
  have d2: "dist_linf (int nx) (int ny) obs = d2"
    using nx ny unfolding dist_linf_def d2_def d1_def d0_def by (simp add: Let_def usize_of_int fold_product)
  have G: "set ?ks = ?G" "set ?rs = ?G" by auto
  have fin: "finite Obs" by (rule finite_subset [of _ ?G]) (auto simp: Obs_def)
  have sub: "Obs \<subseteq> ?G" by (auto simp: Obs_def)
  let ?L = "sat_dist Obs"
  have m: "length d0 = nx * ny" "\<forall>q\<in>?G. at2 nx d0 q = (if q \<in> Obs then 0 else 65535)"
    using mark_obstacles [where obs = "\<lambda>(y, x). obs (int x) (int y)" and nx = nx and ny = ny] unfolding d0_def Obs_def by auto
  have "?L q = 0" if "q \<in> Obs" for q using sat_dist_le(2) [OF fin that, of q] by (cases q) (simp add: cheb_def)
  then have low0: "\<forall>q\<in>set ?ks. ?L q \<le> at2 nx d0 q" using m(2) sat_dist_le(1) [OF fin] unfolding G by simp
  have r1: "length d1 = nx * ny \<and> (\<forall>q\<in>?G. ?L q \<le> at2 nx d1 q \<and> at2 nx d1 q \<le> at2 nx d0 q) \<and>
      (\<forall>k\<in>?G. \<forall>q\<in>fwd_nbrs nx k. at2 nx d1 k \<le> sat1 (at2 nx d1 q))"
    using chamfer_pass [OF _ G(1) fwd_order fwd_value_spec m(1) low0] sat_dist_step [OF fin] fwd_nbrs_cheb
    unfolding d1_def [symmetric] G Let_def by (simp add: distinct_product)
  then have low1: "\<forall>q\<in>set ?rs. ?L q \<le> at2 nx d1 q" unfolding G by simp
  have r2: "length d2 = nx * ny \<and> (\<forall>q\<in>?G. ?L q \<le> at2 nx d2 q \<and> at2 nx d2 q \<le> at2 nx d1 q) \<and>
      (\<forall>k\<in>?G. \<forall>q\<in>bwd_nbrs nx ny k. at2 nx d2 k \<le> sat1 (at2 nx d2 q))"
    using chamfer_pass [where N = "bwd_nbrs nx ny" and val = "bwd_value nx ny", OF _ G(2) bwd_order bwd_value_spec _ low1]
      r1 sat_dist_step [OF fin] bwd_nbrs_cheb
    unfolding d2_def [symmetric] G Let_def by (simp add: distinct_product)
  have z1: "\<forall>o'\<in>Obs. at2 nx d1 o' = 0" using r1 m(2) sub by fastforce
  have up1: "at2 nx d1 q \<le> cheb q o'" if "q \<in> ?G" "o' \<in> Obs" "fwd_sees q o'" for q o'
    using fwd_upper [OF z1 _ sub that order_refl] r1 by blast
  have "at2 nx d2 q \<le> cheb q o'" if "q \<in> ?G" "o' \<in> Obs" "fwd_sees q o'" for q o'
    using up1 [OF that] r2 that(1) by (meson le_trans)
  then have up2: "at2 nx d2 q \<le> cheb q o'" if "q \<in> ?G" "o' \<in> Obs" for q o'
    using bwd_upper [OF _ _ sub that order_refl] r2 by blast
  have "at2 nx d2 q \<le> 65535" if "q \<in> ?G" for q using r1 r2 m(2) that by (metis le_trans order_refl zero_le)
  then have "at2 nx d2 q \<le> ?L q" if "q \<in> ?G" for q using sat_dist_ge [OF fin] up2 that by blast
  then show ?thesis unfolding d2 using r2 by (meson le_antisym)
qed

text \<open>C39: the chamfer transform computes the Chebyshev distance to the nearest obstacle. For every margin
  below the saturation value, a cell of the map is within the margin exactly when an obstacle lies in
  the square of that radius around it, which is the square the static penalty band is made of.\<close>

theorem dist_linf_exact:
  assumes "0 < nx" and "nx < 2 ^ 31" and "0 < ny" and "ny < 2 ^ 31" and "x < nx" and "y < ny" and "m < 65535"
  shows "dist_linf (int nx) (int ny) obs ! (y * nx + x) \<le> m \<longleftrightarrow>
    (\<exists>a b. a < nx \<and> b < ny \<and> obs (int a) (int b) \<and> \<bar>int a - int x\<bar> \<le> int m \<and> \<bar>int b - int y\<bar> \<le> int m)"
proof -
  let ?Obs = "{(y, x). y < ny \<and> x < nx \<and> obs (int x) (int y)}"
  have fin: "finite ?Obs" by (rule finite_subset [of _ "{0..<ny} \<times> {0..<nx}"]) auto
  have "dist_linf (int nx) (int ny) obs ! (y * nx + x) = sat_dist ?Obs (y, x)"
    using dist_linf_sat [OF assms(1-4), of obs] assms(5,6) by (auto simp: at2_def)
  moreover have "sat_dist ?Obs (y, x) \<le> m \<longleftrightarrow> (\<exists>o'\<in>?Obs. cheb (y, x) o' \<le> m)"
  proof
    assume "sat_dist ?Obs (y, x) \<le> m"
    then show "\<exists>o'\<in>?Obs. cheb (y, x) o' \<le> m" using sat_dist_cases [OF fin, of "(y, x)"] assms(7) by fastforce
  next
    assume "\<exists>o'\<in>?Obs. cheb (y, x) o' \<le> m"
    then obtain o' where "o' \<in> ?Obs" "cheb (y, x) o' \<le> m" ..
    then show "sat_dist ?Obs (y, x) \<le> m" using sat_dist_le(2) [OF fin, of o' "(y, x)"] by linarith
  qed
  moreover have "(\<exists>o'\<in>?Obs. cheb (y, x) o' \<le> m) \<longleftrightarrow>
    (\<exists>a b. a < nx \<and> b < ny \<and> obs (int a) (int b) \<and> \<bar>int a - int x\<bar> \<le> int m \<and> \<bar>int b - int y\<bar> \<le> int m)"
  proof -
    have "cheb (y, x) (b, a) \<le> m \<longleftrightarrow> \<bar>int a - int x\<bar> \<le> int m \<and> \<bar>int b - int y\<bar> \<le> int m" for a b
      unfolding cheb_le by linarith
    then show ?thesis by auto
  qed
  ultimately show ?thesis by (simp only:)
qed

theorem dist_linf_exact_witness:
  "dist_linf (int 3) (int 2) (\<lambda>a b. a = 2 \<and> b = 1) ! (0 * 3 + 0) \<le> 2 \<and> \<not> dist_linf (int 3) (int 2) (\<lambda>a b. a = 2 \<and> b = 1) ! (0 * 3 + 0) \<le> 1"
proof
  have "\<exists>a b. a < 3 \<and> b < 2 \<and> (int a = 2 \<and> int b = 1) \<and> \<bar>int a - int 0\<bar> \<le> int 2 \<and> \<bar>int b - int 0\<bar> \<le> int 2"
    by (rule exI [of _ 2], rule exI [of _ 1]) simp
  then show "dist_linf (int 3) (int 2) (\<lambda>a b. a = 2 \<and> b = 1) ! (0 * 3 + 0) \<le> 2"
    using dist_linf_exact [of 3 2 0 0 2 "\<lambda>a b. a = 2 \<and> b = 1"] by simp
  show "\<not> dist_linf (int 3) (int 2) (\<lambda>a b. a = 2 \<and> b = 1) ! (0 * 3 + 0) \<le> 1"
    using dist_linf_exact [of 3 2 0 0 1 "\<lambda>a b. a = 2 \<and> b = 1"] by simp
qed

section \<open>What the writers of the window change\<close>

definition window_in_map :: "vi_local \<Rightarrow> bool" where
  "window_in_map vi \<longleftrightarrow> 0 \<le> local_ix_min vi \<and> local_ix_max vi < cell_num_x (base vi) \<and>
     0 \<le> local_iy_min vi \<and> local_iy_max vi < cell_num_y (base vi)"

text \<open>Scans and margins write all headings of a cell alike.\<close>

definition state_input :: "state \<Rightarrow> bool \<times> u64 \<times> u64" where
  "state_input s = (free s, penalty s, local_penalty s)"

definition put_input :: "bool \<times> u64 \<times> u64 \<Rightarrow> state \<Rightarrow> state" where
  "put_input i s = s\<lparr>free := fst i, penalty := fst (snd i), local_penalty := snd (snd i)\<rparr>"

definition theta_uniform :: "value_iterator \<Rightarrow> bool" where
  "theta_uniform vi \<longleftrightarrow> (\<forall>x y t. in_map vi (x, y, t) \<longrightarrow> state_input (state_at vi (x, y, t)) = state_input (state_at vi (x, y, 0)))"

definition input_map :: "(state \<Rightarrow> state) \<Rightarrow> bool" where
  "input_map f \<longleftrightarrow> (\<exists>g. \<forall>s. f s = put_input (g (state_input s)) s)"

definition inputs_step :: "vi_local \<Rightarrow> vi_local \<Rightarrow> bool" where
  "inputs_step vi vi' \<longleftrightarrow>
     (\<exists>sts od. vi' = vi\<lparr>base := (base vi)\<lparr>states := sts\<rparr>, obstacle_dist := od\<rparr> \<and> length sts = length (states (base vi))) \<and>
     (\<forall>x y t. in_map (base vi) (x, y, t) \<longrightarrow>
        (\<exists>i. state_at (base vi') (x, y, t) = put_input i (state_at (base vi) (x, y, t))) \<and>
        (\<not> in_local_area vi (int x) (int y) \<longrightarrow> state_at (base vi') (x, y, t) = state_at (base vi) (x, y, t))) \<and>
     (theta_uniform (base vi) \<longrightarrow> theta_uniform (base vi'))"

lemma put_input_simps [simp]:
  "total_cost (put_input i s) = total_cost s" "optimal_action (put_input i s) = optimal_action s" "final_state (put_input i s) = final_state s"
  "st_ix (put_input i s) = st_ix s" "st_iy (put_input i s) = st_iy s" "st_it (put_input i s) = st_it s"
  "free (put_input i s) = fst i" "penalty (put_input i s) = fst (snd i)" "local_penalty (put_input i s) = snd (snd i)"
  "state_input (put_input i s) = i" "put_input i (put_input j s) = put_input i s" "put_input (state_input s) s = s"
  by (simp_all add: put_input_def state_input_def)

lemma in_shape_cong: "in_shape (vi\<lparr>base := b, obstacle_dist := od\<rparr>) fx fy = in_shape vi fx fy" "in_shape (vi\<lparr>base := b\<rparr>) fx fy = in_shape vi fx fy"
  by (cases "shape (l_shape vi)"; simp add: in_shape_def)+

lemma in_local_area_cong: "in_local_area (vi\<lparr>base := b, obstacle_dist := od\<rparr>) = in_local_area vi"
  by (simp add: fun_eq_iff in_local_area_def in_shape_cong)

lemma in_local_area_base: "in_local_area (vi\<lparr>base := b\<rparr>) = in_local_area vi"
  by (simp add: fun_eq_iff in_local_area_def in_shape_cong)

lemma inputs_stepD:
  assumes "inputs_step vi vi'"
  shows "in_local_area vi' = in_local_area vi" "in_map (base vi') = in_map (base vi)" "cidx (base vi') = cidx (base vi)"
    "actions (base vi') = actions (base vi)" "cell_num_x (base vi') = cell_num_x (base vi)"
    "cell_num_y (base vi') = cell_num_y (base vi)" "cell_num_t (base vi') = cell_num_t (base vi)"
    "length (states (base vi')) = length (states (base vi))" "window_in_map vi' = window_in_map vi"
    "local_ix_min vi' = local_ix_min vi" "local_ix_max vi' = local_ix_max vi" "local_iy_min vi' = local_iy_min vi" "local_iy_max vi' = local_iy_max vi"
proof -
  from assms obtain sts od where v: "vi' = vi\<lparr>base := (base vi)\<lparr>states := sts\<rparr>, obstacle_dist := od\<rparr>" "length sts = length (states (base vi))"
    by (auto simp: inputs_step_def)
  show "in_local_area vi' = in_local_area vi" by (simp add: v in_local_area_cong)
  show "in_map (base vi') = in_map (base vi)" "cidx (base vi') = cidx (base vi)"
    by (auto simp: fun_eq_iff v dim_x_def dim_y_def dim_t_def)
qed (use assms in \<open>auto simp: inputs_step_def window_in_map_def\<close>)

lemma inputs_step_refl [simp]: "inputs_step vi vi"
proof -
  have "\<exists>i. s = put_input i s" for s :: state by (rule exI [of _ "state_input s"]) simp
  moreover have "\<exists>sts od. vi = vi\<lparr>base := (base vi)\<lparr>states := sts\<rparr>, obstacle_dist := od\<rparr> \<and> length sts = length (states (base vi))"
    by (rule exI [of _ "states (base vi)"], rule exI [of _ "obstacle_dist vi"]) simp
  ultimately show ?thesis by (simp add: inputs_step_def)
qed

lemma inputs_step_trans:
  assumes "inputs_step vi vi'" "inputs_step vi' vi''"
  shows "inputs_step vi vi''"
proof -
  note d = inputs_stepD [OF assms(1)]
  have "\<exists>sts od. vi'' = vi\<lparr>base := (base vi)\<lparr>states := sts\<rparr>, obstacle_dist := od\<rparr> \<and> length sts = length (states (base vi))"
    using assms by (force simp: inputs_step_def)
  moreover have "(\<exists>i. state_at (base vi'') (x, y, t) = put_input i (state_at (base vi) (x, y, t))) \<and>
      (\<not> in_local_area vi (int x) (int y) \<longrightarrow> state_at (base vi'') (x, y, t) = state_at (base vi) (x, y, t))"
    if c: "in_map (base vi) (x, y, t)" for x y t
  proof -
    from assms(1) c obtain i where i: "state_at (base vi') (x, y, t) = put_input i (state_at (base vi) (x, y, t))"
      "\<not> in_local_area vi (int x) (int y) \<longrightarrow> state_at (base vi') (x, y, t) = state_at (base vi) (x, y, t)"
      unfolding inputs_step_def by blast
    from assms(2) c obtain j where j: "state_at (base vi'') (x, y, t) = put_input j (state_at (base vi') (x, y, t))"
      "\<not> in_local_area vi (int x) (int y) \<longrightarrow> state_at (base vi'') (x, y, t) = state_at (base vi') (x, y, t)"
      unfolding inputs_step_def d by blast
    have "state_at (base vi'') (x, y, t) = put_input j (state_at (base vi) (x, y, t))" by (simp add: i(1) j(1))
    then show ?thesis using i(2) j(2) by (metis (no_types))
  qed
  ultimately show ?thesis using assms unfolding inputs_step_def by blast
qed

lemma state_at_update:
  assumes "wf_vi b" "in_map b c" "in_map b c'"
  shows "state_at (b\<lparr>states := (states b)[cidx b c := s]\<rparr>) c' = (if c' = c then s else state_at b c')"
proof -
  have l: "cidx b c < length (states b)" using cidx_less [OF assms(2)] assms(1) by (simp add: wf_vi_def)
  have "cidx (b\<lparr>states := (states b)[cidx b c := s]\<rparr>) c' = cidx b c'" by (cases c') (simp add: dim_x_def dim_y_def dim_t_def)
  then show ?thesis using l cidx_inj [OF assms(2,3)] by (auto simp: state_at_def nth_list_update)
qed

lemma input_step_wf:
  assumes "inputs_step vi vi'" "wf_vi (base vi)"
  shows "wf_vi (base vi')"
proof -
  note d = inputs_stepD [OF assms(1)]
  have dims: "dim_x (base vi') = dim_x (base vi)" "dim_y (base vi') = dim_y (base vi)" "dim_t (base vi') = dim_t (base vi)"
    by (simp_all add: dim_x_def dim_y_def dim_t_def d)
  have "wf_state (base vi') (x, y, t)" if c: "in_map (base vi) (x, y, t)" for x y t
  proof -
    obtain i where "state_at (base vi') (x, y, t) = put_input i (state_at (base vi) (x, y, t))"
      using assms(1) c unfolding inputs_step_def by blast
    then show ?thesis using wf_vi_state_at [OF assms(2) c] by (simp add: wf_state_def Let_def)
  qed
  moreover have "wf_action (base vi') = wf_action (base vi)"
    by (simp add: fun_eq_iff wf_action_def wf_transition_def [abs_def] dims d)
  ultimately show ?thesis using assms(2) by (simp add: wf_vi_def list_all_iff dims d)
qed

lemma map_thetas_states:
  assumes wf: "wf_vi (base vi)" and xy: "x < dim_x (base vi)" "y < dim_y (base vi)"
  shows "\<exists>sts. map_thetas f (int x) (int y) vi = vi\<lparr>base := (base vi)\<lparr>states := sts\<rparr>\<rparr> \<and> length sts = length (states (base vi)) \<and>
    (\<forall>a b t. in_map (base vi) (a, b, t) \<longrightarrow>
       state_at ((base vi)\<lparr>states := sts\<rparr>) (a, b, t) = (if a = x \<and> b = y then f (state_at (base vi) (a, b, t)) else state_at (base vi) (a, b, t)))"
proof -
  let ?b = "base vi"
  define g where "g = (\<lambda>it (vi :: vi_local). let i = usize_of (to_index (base vi) (int x) (int y) it) in
        vi\<lparr>base := (base vi)\<lparr>states := (states (base vi))[i := f (states (base vi) ! i)]\<rparr>\<rparr>)"
  define P where "P as (v :: vi_local) \<longleftrightarrow> (\<exists>sts. v = vi\<lparr>base := ?b\<lparr>states := sts\<rparr>\<rparr> \<and> length sts = length (states ?b) \<and>
    (\<forall>a b t. in_map ?b (a, b, t) \<longrightarrow>
       state_at (?b\<lparr>states := sts\<rparr>) (a, b, t) = (if a = x \<and> b = y \<and> t \<in> set as then f (state_at ?b (a, b, t)) else state_at ?b (a, b, t))))" for as v
  have "P [0..<dim_t ?b] (fold (\<lambda>t. g (int t)) [0..<dim_t ?b] vi)"
  proof (rule fold_visited)
    show "P [] vi" unfolding P_def by (rule exI [of _ "states ?b"]) simp
    fix as k bs v assume sp: "[0..<dim_t ?b] = as @ k # bs" and P: "P as v"
    from P obtain sts where v: "v = vi\<lparr>base := ?b\<lparr>states := sts\<rparr>\<rparr>" "length sts = length (states ?b)"
      and at: "\<forall>a b t. in_map ?b (a, b, t) \<longrightarrow>
       state_at (?b\<lparr>states := sts\<rparr>) (a, b, t) = (if a = x \<and> b = y \<and> t \<in> set as then f (state_at ?b (a, b, t)) else state_at ?b (a, b, t))"
      by (auto simp: P_def)
    have k: "k < dim_t ?b" "k \<notin> set as"
    proof -
      have "k \<in> set [0..<dim_t ?b]" unfolding sp by simp
      moreover have "distinct (as @ k # bs)" unfolding sp [symmetric] by (rule distinct_upt)
      ultimately show "k < dim_t ?b" "k \<notin> set as" by simp_all
    qed
    let ?c = "(x, y, k)"
    have c: "in_map ?b ?c" using xy k by simp
    have l: "cidx ?b ?c < length sts" using cidx_less [OF c] wf v(2) by (simp add: wf_vi_def del: cidx.simps)
    have i: "usize_of (to_index (base v) (int x) (int y) (int k)) = cidx ?b ?c"
      using to_index_cell [OF wf c] by (simp add: v to_index_def del: cidx.simps)
    have old: "sts ! cidx ?b ?c = state_at ?b ?c"
      using at [rule_format, OF c] k by (simp add: state_at_def dim_x_def dim_y_def dim_t_def)
    let ?sts = "sts[cidx ?b ?c := f (state_at ?b ?c)]"
    have g: "g (int k) v = vi\<lparr>base := ?b\<lparr>states := ?sts\<rparr>\<rparr>"
      unfolding g_def Let_def i using old by (simp add: v del: cidx.simps)
    have "state_at (?b\<lparr>states := ?sts\<rparr>) d = (if d = ?c then f (state_at ?b ?c) else state_at (?b\<lparr>states := sts\<rparr>) d)" if "in_map ?b d" for d
    proof -
      have e: "cidx (?b\<lparr>states := s\<rparr>) d = cidx ?b d" for s by (cases d) (simp add: dim_x_def dim_y_def dim_t_def)
      show ?thesis using l cidx_inj [OF c that] unfolding state_at_def e by (auto simp: nth_list_update simp del: cidx.simps)
    qed
    then show "P (as @ [k]) (g (int k) v)" unfolding P_def g using v(2) at k
      by (intro exI [of _ ?sts]) (auto simp del: cidx.simps in_map.simps)
  qed
  moreover have "map_thetas f (int x) (int y) vi = fold (\<lambda>t. g (int t)) [0..<dim_t ?b] vi"
    using int_dims(3) [OF wf] unfolding map_thetas_def g_def [symmetric] by (simp add: upto_conv_upt fold_map comp_def flip: int_dims(3) [OF wf])
  ultimately show ?thesis unfolding P_def by (auto simp del: cidx.simps)
qed

definition inputs_ok :: "vi_local \<Rightarrow> bool" where
  "inputs_ok vi \<longleftrightarrow> wf_vi (base vi) \<and> window_in_map vi"

lemma inputs_ok_step: "inputs_step vi vi' \<Longrightarrow> inputs_ok vi \<Longrightarrow> inputs_ok vi'"
  using input_step_wf inputs_stepD(9) by (simp add: inputs_ok_def)

lemma window_cell:
  assumes "inputs_ok vi" "in_local_area vi ix iy"
  obtains x y where "ix = int x" "iy = int y" "x < dim_x (base vi)" "y < dim_y (base vi)"
proof
  have "0 \<le> ix" "0 \<le> iy" "ix < cell_num_x (base vi)" "iy < cell_num_y (base vi)"
    using assms by (auto simp: inputs_ok_def window_in_map_def in_local_area_def)
  then show "ix = int (nat ix)" "iy = int (nat iy)" "nat ix < dim_x (base vi)" "nat iy < dim_y (base vi)"
    by (simp_all add: dim_x_def dim_y_def)
qed

lemma map_thetas_step:
  assumes ok: "inputs_ok vi" and w: "in_local_area vi ix iy" and f: "input_map f"
  shows "inputs_step vi (map_thetas f ix iy vi)"
proof -
  obtain x y where xy: "ix = int x" "iy = int y" "x < dim_x (base vi)" "y < dim_y (base vi)" by (rule window_cell [OF ok w])
  have wf: "wf_vi (base vi)" using ok by (simp add: inputs_ok_def)
  obtain g where g: "\<And>s. f s = put_input (g (state_input s)) s" using f by (auto simp: input_map_def)
  obtain sts where v: "map_thetas f ix iy vi = vi\<lparr>base := (base vi)\<lparr>states := sts\<rparr>\<rparr>" "length sts = length (states (base vi))"
    and at': "\<forall>a b t. in_map (base vi) (a, b, t) \<longrightarrow> state_at ((base vi)\<lparr>states := sts\<rparr>) (a, b, t) =
        (if a = x \<and> b = y then f (state_at (base vi) (a, b, t)) else state_at (base vi) (a, b, t))"
    using map_thetas_states [OF wf xy(3,4), of f] unfolding xy by (elim exE conjE)
  note at = at' [rule_format]
  have m: "in_map ((base vi)\<lparr>states := sts\<rparr>) = in_map (base vi)" by (auto simp: fun_eq_iff dim_x_def dim_y_def dim_t_def)
  have "\<exists>sts' od. vi\<lparr>base := (base vi)\<lparr>states := sts\<rparr>\<rparr> = vi\<lparr>base := (base vi)\<lparr>states := sts'\<rparr>, obstacle_dist := od\<rparr> \<and> length sts' = length (states (base vi))"
    using v(2) by (intro exI [of _ sts] exI [of _ "obstacle_dist vi"]) simp
  moreover have "(\<exists>i. state_at ((base vi)\<lparr>states := sts\<rparr>) (a, b, t) = put_input i (state_at (base vi) (a, b, t))) \<and>
      (\<not> in_local_area vi (int a) (int b) \<longrightarrow> state_at ((base vi)\<lparr>states := sts\<rparr>) (a, b, t) = state_at (base vi) (a, b, t))"
    if c: "in_map (base vi) (a, b, t)" for a b t
  proof
    show "\<exists>i. state_at ((base vi)\<lparr>states := sts\<rparr>) (a, b, t) = put_input i (state_at (base vi) (a, b, t))"
    proof (cases "a = x \<and> b = y")
      case True
      then show ?thesis unfolding at [OF c] g by (intro exI [of _ "g (state_input (state_at (base vi) (a, b, t)))"]) simp
    next
      case False
      then show ?thesis unfolding at [OF c] if_not_P [OF False] by (intro exI [of _ "state_input (state_at (base vi) (a, b, t))"]) simp
    qed
    show "\<not> in_local_area vi (int a) (int b) \<longrightarrow> state_at ((base vi)\<lparr>states := sts\<rparr>) (a, b, t) = state_at (base vi) (a, b, t)"
      unfolding at [OF c] using w by (auto simp: xy)
  qed
  moreover have "theta_uniform ((base vi)\<lparr>states := sts\<rparr>)" if u: "theta_uniform (base vi)"
    unfolding theta_uniform_def m
  proof (intro allI impI)
    fix a b t assume c: "in_map (base vi) (a, b, t)"
    then have c0: "in_map (base vi) (a, b, 0)" by simp
    show "state_input (state_at ((base vi)\<lparr>states := sts\<rparr>) (a, b, t)) = state_input (state_at ((base vi)\<lparr>states := sts\<rparr>) (a, b, 0))"
    proof (cases "a = x \<and> b = y")
      case True
      have "state_input (state_at (base vi) (a, b, t)) = state_input (state_at (base vi) (a, b, 0))"
        using u c unfolding theta_uniform_def by (elim allE impE)
      then show ?thesis unfolding at [OF c] at [OF c0] if_P [OF True] g put_input_simps(10) by (rule arg_cong)
    next
      case False
      show ?thesis unfolding at [OF c] at [OF c0] if_not_P [OF False] using u c unfolding theta_uniform_def by (elim allE impE)
    qed
  qed
  moreover have b: "base (vi\<lparr>base := (base vi)\<lparr>states := sts\<rparr>\<rparr>) = (base vi)\<lparr>states := sts\<rparr>" by simp
  ultimately show ?thesis unfolding v(1) inputs_step_def b by (intro conjI allI impI) (assumption | blast)+
qed

lemma map_window_cell_step: "inputs_ok vi \<Longrightarrow> input_map f \<Longrightarrow> inputs_step vi (map_window_cell f ix iy vi)"
  by (simp add: map_window_cell_def map_thetas_step)

lemma inputs_then:
  assumes "inputs_step v u" "inputs_ok v" "inputs_ok u \<Longrightarrow> inputs_step u w"
  shows "inputs_step v w"
  using inputs_step_trans [OF assms(1) assms(3) [OF inputs_ok_step [OF assms(1,2)]]] .

lemma fold_inputs:
  assumes "\<And>k v. inputs_ok v \<Longrightarrow> inputs_step v (f k v)" and "inputs_ok v"
  shows "inputs_step v (fold f ks v)"
  using assms(2)
proof (induction ks arbitrary: v)
  case (Cons k ks)
  show ?case unfolding fold_Cons comp_apply
    by (rule inputs_then [OF assms(1) [OF Cons.prems] Cons.prems]) (rule Cons.IH)
qed simp

lemma fold_bind_None [simp]: "fold (\<lambda>i r. Option.bind r (f i)) ks None = None"
  by (induction ks) simp_all

lemma fold_bind_inputs:
  assumes "\<And>k v v'. inputs_ok v \<Longrightarrow> f k v = Some v' \<Longrightarrow> inputs_step v v'" and "inputs_ok v"
    and "fold (\<lambda>i r. Option.bind r (f i)) ks (Some v) = Some v'"
  shows "inputs_step v v'"
  using assms(2,3)
proof (induction ks arbitrary: v)
  case (Cons k ks)
  then obtain u where u: "f k v = Some u" by (cases "f k v") simp_all
  have "fold (\<lambda>i r. Option.bind r (f i)) ks (Some u) = Some v'" using Cons.prems(2) u by simp
  then show ?case by (intro inputs_then [OF assms(1) [OF Cons.prems(1) u] Cons.prems(1)] Cons.IH)
qed simp

lemma tenths_loop_inputs:
  assumes "tenths_loop body d v = Some v'" and "\<And>d v. inputs_ok v \<Longrightarrow> inputs_step v (body d v)" and "inputs_ok v"
  shows "inputs_step v v'"
proof -
  define P where "P body d v v' \<longleftrightarrow> (\<forall>d v. inputs_ok v \<longrightarrow> inputs_step v (body d v)) \<longrightarrow> inputs_ok v \<longrightarrow> inputs_step v v'"
    for body :: "f64 \<Rightarrow> vi_local \<Rightarrow> vi_local" and d :: f64 and v v'
  have "P body d v v'"
  proof (rule tenths_loop.raw_induct [OF _ assms(1)])
    fix loop body d v v' assume IH: "\<And>body d v v'. loop body d v = Some v' \<Longrightarrow> P body d v v'"
      and eq: "(if f_le d (f_lit (9 / 10)) then loop body (f_add d (f_lit (1 / 10))) (body d v) else Some v) = Some v'"
    show "P body d v v'" unfolding P_def
    proof (intro impI)
      assume b: "\<forall>d v. inputs_ok v \<longrightarrow> inputs_step v (body d v)" and v: "inputs_ok v"
      show "inputs_step v v'"
      proof (cases "f_le d (f_lit (9 / 10))")
        case True
        then have "P body (f_add d (f_lit (1 / 10))) (body d v) v'" using eq by (intro IH) simp
        then show ?thesis using b v unfolding P_def by (blast intro: inputs_then)
      qed (use eq in simp)
    qed
  qed
  then show ?thesis using assms by (simp add: P_def)
qed

lemma walk_beam_inputs:
  assumes "walk_beam sp stop f s v = Some v'" and "\<And>s v. inputs_ok v \<Longrightarrow> inputs_step v (snd (f s v))" and "inputs_ok v"
  shows "inputs_step v v'"
proof -
  define P where "P sp stop f s v v' \<longleftrightarrow> (\<forall>s v. inputs_ok v \<longrightarrow> inputs_step v (snd (f s v))) \<longrightarrow> inputs_ok v \<longrightarrow> inputs_step v v'"
    for sp stop :: f64 and f :: "f64 \<Rightarrow> vi_local \<Rightarrow> bool \<times> vi_local" and s :: f64 and v v'
  have "P sp stop f s v v'"
  proof (rule walk_beam.raw_induct [OF _ assms(1)])
    fix loop sp stop f s v v'
    assume IH: "\<And>sp stop f s v v'. loop sp stop f s v = Some v' \<Longrightarrow> P sp stop f s v v'"
      and eq: "(if f_lt s stop then (case f s v of (go, acc') \<Rightarrow> if go then loop sp stop f (f_add s sp) acc' else Some acc') else Some v) = Some v'"
    show "P sp stop f s v v'" unfolding P_def
    proof (intro impI)
      assume b: "\<forall>s v. inputs_ok v \<longrightarrow> inputs_step v (snd (f s v))" and v: "inputs_ok v"
      obtain go u where f: "f s v = (go, u)" by fastforce
      have u: "inputs_step v u" using b v f by (metis snd_conv)
      consider "\<not> f_lt s stop" | "f_lt s stop" "\<not> go" | "f_lt s stop" go by blast
      then show "inputs_step v v'"
      proof cases
        case 3
        then have "P sp stop f (f_add s sp) u v'" using eq f by (intro IH) simp
        then show ?thesis using b v by (intro inputs_then [OF u]) (simp_all add: P_def)
      qed (use eq f u in simp_all)
    qed
  qed
  then show ?thesis using assms by (simp add: P_def)
qed

lemma input_maps [simp]:
  "input_map (\<lambda>s. s\<lparr>local_penalty := v\<rparr>)" "input_map halve_penalty" "input_map open_state"
  "input_map (\<lambda>s. s\<lparr>local_penalty := max (local_penalty s) p\<rparr>)"
proof -
  show "input_map (\<lambda>s. s\<lparr>local_penalty := v\<rparr>)" unfolding input_map_def
    by (rule exI [of _ "\<lambda>(f, p, l). (f, p, v)"]) (simp add: put_input_def state_input_def)
  show "input_map halve_penalty" unfolding input_map_def
    by (rule exI [of _ "\<lambda>(f, p, l). (f, p, l div 2)"]) (simp add: put_input_def state_input_def halve_penalty_def)
  show "input_map open_state" unfolding input_map_def
    by (rule exI [of _ "\<lambda>(f, p, l). (True, PROB_BASE, l)"]) (simp add: put_input_def state_input_def open_state_def)
  show "input_map (\<lambda>s. s\<lparr>local_penalty := max (local_penalty s) p\<rparr>)" unfolding input_map_def
    by (rule exI [of _ "\<lambda>(f, q, l). (f, q, max l p)"]) (simp add: put_input_def state_input_def)
qed

lemma scan_beam_step:
  assumes "scan_beam cosf sinf msg x y t inject radius i vi = Some vi'" "inputs_ok vi"
  shows "inputs_step vi vi'"
proof -
  obtain ix iy where c: "cell_of vi (f_add x (f_mul (ranges msg ! i) (cosf (beam_angle msg t i)))) (f_add y (f_mul (ranges msg ! i) (sinf (beam_angle msg t i)))) = (ix, iy)"
    by fastforce
  from assms(1) obtain u where u: "tenths_loop (\<lambda>d vi.
            case cell_of vi (f_add x (f_mul (f_mul (ranges msg ! i) (cosf (beam_angle msg t i))) d)) (f_add y (f_mul (f_mul (ranges msg ! i) (sinf (beam_angle msg t i))) d)) of
              (half_ix, half_iy) \<Rightarrow> map_window_cell halve_penalty half_ix half_iy vi) (f_lit (1 / 10)) vi = Some u"
    and v': "vi' = fold (\<lambda>iix. fold (\<lambda>iiy. map_window_cell (\<lambda>s. s\<lparr>local_penalty := inject\<rparr>) iix iiy)
                [wrap32 (iy - radius)..wrap32 (iy + radius)]) [wrap32 (ix - radius)..wrap32 (ix + radius)] u"
    unfolding scan_beam_def Let_def c prod.case by auto
  have "inputs_step vi u"
    by (rule tenths_loop_inputs [OF u _ assms(2)]) (auto intro: map_window_cell_step split: prod.split)
  then show ?thesis
    by (rule inputs_then [OF _ assms(2)]) (auto simp: v' intro!: fold_inputs map_window_cell_step)
qed

lemma set_local_cost_step:
  assumes "set_local_cost_attenuated cosf sinf msg x y t shift vi = Some vi'" "inputs_ok vi"
  shows "inputs_step vi vi'"
proof -
  define radius where "radius = f_as_i32 (f_ceil (f_div (scan_penalty_radius vi) (xy_resolution (base vi))))"
  define inject where "inject = push_bit PROB_BASE_BIT (scan_strength (scan_penalty vi) shift)"
  from assms(1) obtain u where u: "fold (\<lambda>i r. Option.bind r (scan_beam cosf sinf msg x y t inject radius i)) [0..<length (ranges msg)] (Some vi) = Some u"
    and v': "(if clear_map_from_scan u then walk_beams cosf sinf msg x y t (f_mul (xy_resolution (base vi)) (f_lit (1 / 2))) (xy_resolution (base vi)) open_cell u
        else Some u) = Some vi'"
    unfolding set_local_cost_attenuated_def Let_def radius_def inject_def by (auto simp: bind_eq_Some_conv)
  have s: "inputs_step vi u" by (rule fold_bind_inputs [OF _ assms(2) u]) (rule scan_beam_step)
  have o: "inputs_step v (snd (open_cell a b v))" if "inputs_ok v" for a b v
    using that by (auto simp: open_cell_def intro: map_thetas_step split: prod.split)
  show ?thesis
  proof (rule inputs_then [OF s assms(2)])
    assume ok: "inputs_ok u"
    show "inputs_step u vi'"
    proof (cases "clear_map_from_scan u")
      case True
      then have "walk_beams cosf sinf msg x y t (f_mul (xy_resolution (base vi)) (f_lit (1 / 2))) (xy_resolution (base vi)) open_cell u = Some vi'"
        using v' by simp
      then show ?thesis unfolding walk_beams_def
        by (rule fold_bind_inputs [OF _ ok, rotated]) (auto simp: Let_def elim!: walk_beam_inputs intro: o)
    qed (use v' in simp)
  qed
qed

lemma inflate_step: "inputs_ok vi \<Longrightarrow> inputs_step vi (inflate_by_sigma e vi)"
proof -
  assume ok: "inputs_ok vi"
  have d: "inputs_step vi (ensure_obstacle_dist vi)"
  proof -
    have "\<exists>od. ensure_obstacle_dist vi = vi\<lparr>obstacle_dist := od\<rparr>"
      unfolding ensure_obstacle_dist_def Let_def by (metis vi_local.surjective vi_local.update_convs(21))
    then obtain od where od: "ensure_obstacle_dist vi = vi\<lparr>obstacle_dist := od\<rparr>" ..
    have "\<exists>i. s = put_input i s" for s :: state by (rule exI [of _ "state_input s"]) simp
    moreover have "\<exists>sts od'. vi\<lparr>obstacle_dist := od\<rparr> = vi\<lparr>base := (base vi)\<lparr>states := sts\<rparr>, obstacle_dist := od'\<rparr> \<and> length sts = length (states (base vi))"
      by (rule exI [of _ "states (base vi)"], rule exI [of _ od]) simp
    ultimately show ?thesis unfolding od inputs_step_def by simp
  qed
  show ?thesis
  proof (cases "f_le e (f_of_int 0)")
    case True
    then show ?thesis by (simp add: inflate_by_sigma_def)
  next
    case False
    show ?thesis unfolding inflate_by_sigma_def Let_def if_not_P [OF False]
      by (rule inputs_then [OF d ok]) (auto intro!: fold_inputs map_thetas_step)
  qed
qed

lemma update_axes_base:
  "update_axes cosf sinf x y yaw vi = Some vi' \<Longrightarrow> base vi' = base vi"
  by (auto simp: update_axes_def Let_def bind_eq_Some_conv split: if_splits option.splits prod.splits)

lemma set_local_window_spec:
  assumes "set_local_window cosf sinf x y t vi = Some vi'"
  shows "window_in_map vi' \<and> base vi' = base vi"
proof -
  obtain u where u: "update_axes cosf sinf x y t vi = Some u" using assms by (auto simp: set_local_window_def)
  obtain rx ry where r: "rect_radii u = (rx, ry)" by fastforce
  show ?thesis using assms update_axes_base [OF u] unfolding set_local_window_def u by (auto simp: Let_def r window_in_map_def)
qed

text \<open>C40: placing the window puts it inside the map, whatever the pose, and leaves the field alone. From then
  on a laser scan (with or without the refutation of map walls) and the margin inflation write only
  inside the window, change nothing but the free flag and the two penalties of a state, and keep all
  headings of a cell alike.\<close>

theorem window_writers:
  assumes "wf_vi (base vi)" and "set_local_window cosf sinf x y t vi = Some vi1"
  shows "window_in_map vi1 \<and> base vi1 = base vi \<and> inputs_step vi1 (inflate_by_sigma e vi1) \<and>
    (\<forall>msg px py pt shift vi2. set_local_cost_attenuated cosf sinf msg px py pt shift vi1 = Some vi2 \<longrightarrow> inputs_step vi1 vi2)"
proof -
  have w: "window_in_map vi1" "base vi1 = base vi" using set_local_window_spec [OF assms(2)] by simp_all
  then have "inputs_ok vi1" using assms(1) by (simp add: inputs_ok_def)
  then show ?thesis using w inflate_step set_local_cost_step by blast
qed

definition follow_vi :: vi_local where
  "follow_vi = (vi_local_new [] 1)\<lparr>base := corridor\<lparr>xy_resolution := f_of_int 1, map_origin_x := f_of_int 0, map_origin_y := f_of_int 0\<rparr>\<rparr>"

theorem window_writers_witness:
  "\<exists>w. set_local_window (\<lambda>_. f_of_int 1) (\<lambda>_. f_of_int 0) (f_lit (1 / 2)) (f_lit (1 / 2)) (f_of_int 0) follow_vi = Some w \<and> window_in_map w \<and>
    base w = base follow_vi \<and> inputs_step w (inflate_by_sigma (f_of_int 1) w)"
proof -
  have "wf_vi (base follow_vi) = wf_vi corridor"
    by (simp add: follow_vi_def wf_vi_def wf_action_def [abs_def] wf_transition_def [abs_def] wf_state_def state_at_def dim_x_def dim_y_def dim_t_def)
  then have wf: "wf_vi (base follow_vi)" using corridor_wf by simp
  have "\<not> dynamic (shape (l_shape follow_vi))" by (simp add: follow_vi_def vi_local_new_def shape_config_default_def dynamic_def Let_def)
  then obtain w where w: "set_local_window (\<lambda>_. f_of_int 1) (\<lambda>_. f_of_int 0) (f_lit (1 / 2)) (f_lit (1 / 2)) (f_of_int 0) follow_vi = Some w"
    by (simp add: set_local_window_def update_axes_def)
  from window_writers [OF wf w, of "f_of_int 1"] w show ?thesis by blast
qed

end
