(* ===== verification/GlobalManager.thy ===== *)
theory GlobalManager
  imports Local Prefetch Padded "HOL-Library.Product_Lexorder"
begin

text \<open>
  The manager of the shared field (\<^verbatim>\<open>vi_planner/src/core/global.rs\<close> and the files under
  \<^verbatim>\<open>core/global\<close>, with the sweep state, the window and the refinement of \<^verbatim>\<open>core/mod.rs\<close>), on the dense
  path: the field is one \<open>ValueIteratorLocal\<close> over the whole map, so \<open>repair\<close>, \<open>patch\<close> and the penalty
  table are absent and the branches on them are left out. The core lives behind a mutex; global and
  local workers take a job (a snapshot), compute outside the lock and commit the result. Epochs,
  revisions, ownership and a certificate decide what a commit may publish.

  The counters \<open>epoch\<close>, \<open>serial\<close> and the two revisions are incremented once per call and modelled as
  natural numbers. The clocks that bound a refinement are functions that answer each query.
\<close>

section \<open>The sweep of the dense path\<close>

record dense_sweep =
  ds_pending :: "bitboard2d option"
  ds_cands :: "(nat \<times> nat) list"
  ds_pos :: nat
  ds_visits :: nat
  ds_last_visits :: nat
  ds_reach :: "nat option"

definition sweep_default :: dense_sweep where
  "sweep_default = \<lparr>ds_pending = None, ds_cands = [], ds_pos = 0, ds_visits = 0, ds_last_visits = 0, ds_reach = None\<rparr>"

definition seed_rect :: "i32 \<Rightarrow> i32 \<Rightarrow> i32 \<times> i32 \<times> i32 \<times> i32 \<Rightarrow> dense_sweep \<Rightarrow> dense_sweep" where
  "seed_rect nx ny = (\<lambda>(x0, x1, y0, y1) sw.
     let bb = (case ds_pending sw of Some b \<Rightarrow> b | None \<Rightarrow> new2 (nat nx) (nat ny))
     in sw\<lparr>ds_pending := Some (fold (\<lambda>iy. fold (\<lambda>ix b. set2 b (nat ix) (nat iy)) [max x0 0..min x1 (nx - 1)]) [max y0 0..min y1 (ny - 1)] bb)\<rparr>)"

definition sweep_settle :: "dense_sweep \<Rightarrow> dense_sweep" where
  "sweep_settle sw = sw\<lparr>ds_last_visits := ds_visits sw, ds_visits := 0\<rparr>"

definition sweep_clear :: "dense_sweep \<Rightarrow> dense_sweep" where
  "sweep_clear sw = sweep_settle (sw\<lparr>ds_pending := None, ds_cands := [], ds_pos := 0\<rparr>)"

section \<open>The manager and the core\<close>

record predecessor =
  pr_dx :: i32
  pr_dy :: i32
  pr_theta :: i32
  pr_action :: nat

record manager =
  epoch :: nat
  serial :: nat
  owner :: "nat option"
  owned :: "(i32 \<times> i32) set"
  deferred :: "(i32 \<times> i32) set"
  certified :: bool
  in_flight :: "nat option"
  local_in_flight :: "nat option"
  local_revision :: nat
  boundary_revision :: nat
  inv_reverse :: "predecessor list list"
  inv_pending :: "(i32 \<times> i32 \<times> i32) list"

definition manager_default :: manager where
  "manager_default = \<lparr>epoch = 0, serial = 0, owner = None, owned = {}, deferred = {}, certified = False, in_flight = None,
     local_in_flight = None, local_revision = 0, boundary_revision = 0, inv_reverse = [], inv_pending = []\<rparr>"

definition invalidating :: "manager \<Rightarrow> bool" where
  "invalidating m \<longleftrightarrow> inv_pending m \<noteq> []"

definition local_pending :: "manager \<Rightarrow> bool" where
  "local_pending m \<longleftrightarrow> owned m \<noteq> {} \<and> \<not> certified m"

record core =
  c_width :: i32
  c_height :: i32
  c_global_sweep :: bool
  c_cached :: "vi_local cached_goal option"
  c_sweep :: dense_sweep
  c_global :: manager
  c_dirty :: bool

definition core_local :: "core \<Rightarrow> vi_local option" where
  "core_local co = map_option cg_field (c_cached co)"

definition upd_global :: "(manager \<Rightarrow> manager) \<Rightarrow> core \<Rightarrow> core" where
  "upd_global f co = co\<lparr>c_global := f (c_global co)\<rparr>"

definition upd_field :: "(vi_local \<Rightarrow> vi_local) \<Rightarrow> core \<Rightarrow> core" where
  "upd_field f co = co\<lparr>c_cached := map_option (\<lambda>c. c\<lparr>cg_field := f (cg_field c)\<rparr>) (c_cached co)\<rparr>"

section \<open>Ownership, queues and completion\<close>

definition enqueue_global :: "i32 \<times> i32 \<times> i32 \<times> i32 \<Rightarrow> core \<Rightarrow> core" where
  "enqueue_global rect co = co\<lparr>c_dirty := True, c_sweep := seed_rect (c_width co) (c_height co) rect (c_sweep co)\<rparr>"

definition enqueue_cell :: "i32 \<times> i32 \<Rightarrow> core \<Rightarrow> core" where
  "enqueue_cell = (\<lambda>(x, y). enqueue_global (x, x, y, y))"

definition global_queued :: "core \<Rightarrow> bool" where
  "global_queued co \<longleftrightarrow> inv_pending (c_global co) \<noteq> [] \<or> ds_pos (c_sweep co) < length (ds_cands (c_sweep co)) \<or>
     (case ds_pending (c_sweep co) of None \<Rightarrow> False | Some p \<Rightarrow> 0 < popcount2 p)"

definition mark_complete :: "'f cached_goal \<Rightarrow> 'f cached_goal" where
  "mark_complete c = (if \<not> cg_partial c then c else c\<lparr>cg_partial := False\<rparr>)"

definition settle_global :: "core \<Rightarrow> core \<times> bool" where
  "settle_global co =
     (let m = c_global co;
          ok = \<not> global_queued co \<and> in_flight m = None \<and> local_in_flight m = None \<and> (owned m = {} \<or> certified m) \<and> deferred m = {};
          co = co\<lparr>c_dirty := \<not> ok\<rparr>
      in if ok then
           (co\<lparr>c_sweep := (if 0 < ds_visits (c_sweep co) then sweep_settle (c_sweep co) else c_sweep co),
               c_cached := map_option mark_complete (c_cached co)\<rparr>, True)
         else (co, False))"

definition is_dirty :: "core \<Rightarrow> bool" where
  "is_dirty co \<longleftrightarrow> c_dirty co \<or> in_flight (c_global co) \<noteq> None \<or> local_in_flight (c_global co) \<noteq> None \<or>
     local_pending (c_global co) \<or> deferred (c_global co) \<noteq> {}"

definition window_cells :: "vi_local \<Rightarrow> (i32 \<times> i32) list" where
  "window_cells vi = concat (map (\<lambda>y. filter (\<lambda>(x, y). in_local_area vi x y) (map (\<lambda>x. (x, y)) [local_ix_min vi..local_ix_max vi]))
     [local_iy_min vi..local_iy_max vi])"

definition owned_now :: "core \<Rightarrow> (i32 \<times> i32) set" where
  "owned_now co =
     (case (owner (c_global co), core_local co) of
        (Some _, Some vi) \<Rightarrow> {(x, y) \<in> set (window_cells vi). 0 \<le> x \<and> 0 \<le> y \<and> x < c_width co \<and> y < c_height co}
      | _ \<Rightarrow> {})"

text \<open>The ordered sets are iterated in ascending order.\<close>

definition update_local_ownership :: "core \<Rightarrow> core" where
  "update_local_ownership co =
     (let new = owned_now co; m = c_global co;
          co = (if new \<noteq> owned m then
                  upd_global (\<lambda>m. m\<lparr>local_revision := local_revision m + 1, certified := False\<rparr>)
                    (if \<not> certified m then fold enqueue_cell (sorted_list_of_set (owned m - new)) co else co)
                else co);
          co = upd_global (\<lambda>m. m\<lparr>owned := new\<rparr>) co
      in fold (\<lambda>p co. enqueue_cell p (upd_global (\<lambda>m. m\<lparr>deferred := deferred m - {p}\<rparr>) co))
           (sorted_list_of_set (deferred m - new)) co)"

definition claim_local :: "core \<Rightarrow> nat \<times> core" where
  "claim_local co =
     (let s = serial (c_global co) + 1;
          co = upd_global (\<lambda>m. m\<lparr>serial := s, owner := Some s, local_in_flight := None, certified := False\<rparr>) co
      in (s, update_local_ownership co))"

definition release_local :: "nat \<Rightarrow> core \<Rightarrow> core" where
  "release_local own co =
     (if owner (c_global co) = Some own
      then update_local_ownership (upd_global (\<lambda>m. m\<lparr>owner := None, local_in_flight := None\<rparr>) co)
      else co)"

definition invalidate_global_jobs :: "core \<Rightarrow> core" where
  "invalidate_global_jobs co =
     (upd_global (\<lambda>m. m\<lparr>epoch := epoch m + 1, in_flight := None, local_in_flight := None, owned := {}, deferred := {},
        certified := False, inv_pending := []\<rparr>) co)\<lparr>c_dirty := False, c_sweep := sweep_clear (c_sweep co)\<rparr>"

definition certify_local :: "core \<Rightarrow> core" where
  "certify_local = upd_global (\<lambda>m. m\<lparr>certified := True, deferred := {}\<rparr>)"

definition seed_sweep_all :: "core \<Rightarrow> core" where
  "seed_sweep_all co =
     (case core_local co of
        None \<Rightarrow> co
      | Some vi \<Rightarrow> let nx = cell_num_x (base vi); ny = cell_num_y (base vi)
                   in co\<lparr>c_sweep := seed_rect nx ny (0, nx - 1, 0, ny - 1) (c_sweep co)\<rparr>)"

definition seed_sweep_window :: "core \<Rightarrow> core" where
  "seed_sweep_window co =
     (case core_local co of
        None \<Rightarrow> co
      | Some vi \<Rightarrow> co\<lparr>c_sweep := seed_rect (cell_num_x (base vi)) (cell_num_y (base vi))
                       (local_ix_min vi, local_ix_max vi, local_iy_min vi, local_iy_max vi) (c_sweep co)\<rparr>)"

definition restart_global_check :: "core \<Rightarrow> core \<times> bool" where
  "restart_global_check co =
     (if c_cached co = None \<or> in_flight (c_global co) \<noteq> None \<or> global_queued co then (co, False)
      else ((seed_sweep_all co)\<lparr>c_dirty := True\<rparr>, True))"

section \<open>Invalidation\<close>

definition repair_state :: "state \<Rightarrow> state" where
  "repair_state s = (if policy_invalidated s then s\<lparr>total_cost := MAX_COST\<rparr> else s)"

definition repair_values :: "value_iterator \<Rightarrow> value_iterator" where
  "repair_values vi = vi\<lparr>states := map repair_state (states vi)\<rparr>"

definition push_predecessor :: "i32 \<Rightarrow> nat \<Rightarrow> nat \<Rightarrow> state_transition \<Rightarrow> predecessor list list \<Rightarrow> predecessor list list" where
  "push_predecessor nt act theta tr rs =
     (if 0 < prob tr
      then let k = usize_of (dit tr mod nt)
           in rs[k := rs ! k @ [\<lparr>pr_dx = dix tr, pr_dy = diy tr, pr_theta = int theta, pr_action = act\<rparr>]]
      else rs)"

definition build_reverse :: "value_iterator \<Rightarrow> predecessor list list" where
  "build_reverse vi =
     fold (\<lambda>(act, a). fold (\<lambda>(theta, trs). fold (push_predecessor (cell_num_t vi) act theta) trs) (List.enumerate 0 (state_transitions a)))
       (List.enumerate 0 (actions vi)) (replicate (usize_of (cell_num_t vi)) [])"

definition queue_cost_increases :: "(i32 \<times> i32) list \<Rightarrow> core \<Rightarrow> core" where
  "queue_cost_increases cells co =
     (if cells = [] \<or> \<not> c_global_sweep co then co
      else let rev_built = (if inv_reverse (c_global co) = []
                 then map_option (\<lambda>vi. build_reverse (base vi)) (core_local co) else Some (inv_reverse (c_global co)))
           in case rev_built of
                None \<Rightarrow> co
              | Some rv \<Rightarrow> upd_global (\<lambda>m. m\<lparr>inv_reverse := rv,
                    inv_pending := inv_pending m @ concat (map (\<lambda>(x, y). map (\<lambda>t. (x, y, t)) [0..int (length rv) - 1]) cells),
                    epoch := epoch m + 1, boundary_revision := boundary_revision m + 1, certified := False\<rparr>) co)"

definition invalidate_policy_state :: "i32 \<times> i32 \<times> i32 \<Rightarrow> nat \<Rightarrow> core \<Rightarrow> core \<times> bool" where
  "invalidate_policy_state = (\<lambda>(x, y, theta) act co.
     case core_local co of
       None \<Rightarrow> (co, False)
     | Some vi \<Rightarrow>
         let idx = usize_of (to_index (base vi) x y theta); s = states (base vi) ! idx in
         if \<not> free s \<or> final_state s \<or> optimal_action s \<noteq> Some act then (co, False)
         else (upd_field (\<lambda>vi. vi\<lparr>base := (base vi)\<lparr>states := (states (base vi))[idx := s\<lparr>optimal_action := None\<rparr>]\<rparr>\<rparr>) co, True))"

definition invalidate_predecessor :: "i32 \<Rightarrow> i32 \<Rightarrow> predecessor \<Rightarrow> core \<Rightarrow> core" where
  "invalidate_predecessor x y p co =
     (let px = wrap32 (x - pr_dx p); py = wrap32 (y - pr_dy p) in
      if px < 0 \<or> py < 0 \<or> c_width co \<le> px \<or> c_height co \<le> py then co
      else case invalidate_policy_state (px, py, pr_theta p) (pr_action p) co of
        (co, hit) \<Rightarrow> if hit then enqueue_cell (px, py) (upd_global (\<lambda>m. m\<lparr>inv_pending := inv_pending m @ [(px, py, pr_theta p)]\<rparr>) co) else co)"

fun advance_invalidations :: "nat \<Rightarrow> core \<Rightarrow> core \<times> bool" where
  "advance_invalidations 0 co = (co, inv_pending (c_global co) = [])"
| "advance_invalidations (Suc budget) co =
     (case inv_pending (c_global co) of
        [] \<Rightarrow> (co, True)
      | (x, y, theta) # rest \<Rightarrow>
          let co = upd_global (\<lambda>m. m\<lparr>inv_pending := rest\<rparr>) co
          in advance_invalidations budget
               (fold (invalidate_predecessor x y) (inv_reverse (c_global co) ! usize_of theta) co))"

section \<open>Jobs\<close>

record global_job =
  gj_epoch :: nat
  gj_id :: nat
  gj_vi :: value_iterator
  gj_before :: "state list"
  gj_origin :: "i32 \<times> i32"
  gj_cells :: "(i32 \<times> i32) list"
  gj_delta :: u64
  gj_ran :: bool

record local_job =
  lj_epoch :: nat
  lj_owner :: nat
  lj_id :: nat
  lj_revision :: nat
  lj_boundary_revision :: nat
  lj_vi :: value_iterator
  lj_origin :: "i32 \<times> i32"
  lj_cells :: "(i32 \<times> i32) list"
  lj_delta :: u64
  lj_ran :: bool

definition saturating_add :: "u64 \<Rightarrow> u64 \<Rightarrow> u64" where
  "saturating_add a b = (if unat a + unat b < 2 ^ 64 then a + b else - 1)"

definition unchanged :: "state \<Rightarrow> state \<Rightarrow> bool" where
  "unchanged a b \<longleftrightarrow> total_cost a = total_cost b \<and> optimal_action a = optimal_action b \<and> free a = free b \<and>
     final_state a = final_state b \<and> penalty a = penalty b \<and> local_penalty a = local_penalty b"

definition geometry :: "value_iterator \<Rightarrow> i32 \<Rightarrow> i32 \<Rightarrow> value_iterator" where
  "geometry b nx ny = (value_iterator_new (actions b) 1)\<lparr>cell_num_x := nx, cell_num_y := ny, cell_num_t := cell_num_t b,
     xy_resolution := xy_resolution b, t_resolution := t_resolution b\<rparr>"

definition snapshot :: "value_iterator \<Rightarrow> i32 \<Rightarrow> i32 \<Rightarrow> i32 \<Rightarrow> i32 \<Rightarrow> value_iterator" where
  "snapshot b x0 x1 y0 y1 =
     (geometry b (x1 - x0 + 1) (y1 - y0 + 1))\<lparr>states := concat (map (\<lambda>y. concat (map (\<lambda>x. map (\<lambda>t.
        let s = states b ! usize_of (to_index b x y t) in s\<lparr>st_ix := wrap32 (st_ix s - x0), st_iy := wrap32 (st_iy s - y0)\<rparr>)
        [0..cell_num_t b - 1]) [x0..x1])) [y0..y1])\<rparr>"

text \<open>One in-place pass over the columns of a job.\<close>

definition pass_state :: "i32 \<times> i32 \<Rightarrow> i32 \<Rightarrow> value_iterator \<times> u64 \<Rightarrow> value_iterator \<times> u64" where
  "pass_state = (\<lambda>(x, y) t (vi, dl).
     case value_iteration_at vi (usize_of (to_index vi x y t)) of (vi', d) \<Rightarrow> (vi', saturating_add dl d))"

definition job_pass :: "(i32 \<times> i32) list \<Rightarrow> value_iterator \<Rightarrow> value_iterator \<times> u64" where
  "job_pass cells vi = fold (\<lambda>p. fold (pass_state p) [0..cell_num_t vi - 1]) cells (vi, 0)"

definition global_run :: "global_job \<Rightarrow> global_job" where
  "global_run j =
     (if gj_ran j then j
      else case job_pass (gj_cells j) (gj_vi j) of (vi, d) \<Rightarrow> j\<lparr>gj_vi := vi, gj_delta := d, gj_ran := True\<rparr>)"

definition local_run :: "local_job \<Rightarrow> local_job" where
  "local_run j =
     (if lj_ran j then j
      else case fold (\<lambda>p. fold (pass_state p) [0..cell_num_t (lj_vi j) - 1]) (lj_cells j) (lj_vi j, lj_delta j) of
        (vi, d) \<Rightarrow> j\<lparr>lj_vi := vi, lj_delta := d, lj_ran := True\<rparr>)"

text \<open>The parallel pass: every helper evaluates its chunk on the unchanged snapshot, the updates are
  applied after all have joined. \<open>clock i\<close> says whether the CPU clock of helper \<open>i\<close> could be read; the
  times themselves are left out.\<close>

definition chunk_updates :: "value_iterator \<Rightarrow> (i32 \<times> i32) list \<Rightarrow> (nat \<times> u64 \<times> nat option) list" where
  "chunk_updates vi cells = concat (map (\<lambda>(x, y). concat (map (\<lambda>t.
     let idx = usize_of (to_index vi x y t) in
     case bellman_update vi idx of None \<Rightarrow> [] | Some (cost, act) \<Rightarrow> [(idx, cost, act)]) [0..cell_num_t vi - 1])) cells)"

definition abs_diff :: "u64 \<Rightarrow> u64 \<Rightarrow> u64" where
  "abs_diff a b = (if a < b then b - a else a - b)"

definition put_update :: "nat \<times> u64 \<times> nat option \<Rightarrow> value_iterator \<times> u64 \<Rightarrow> value_iterator \<times> u64" where
  "put_update = (\<lambda>(idx, cost, act) (vi, dl).
     (vi\<lparr>states := (states vi)[idx := (states vi ! idx)\<lparr>total_cost := cost, optimal_action := act\<rparr>]\<rparr>,
      saturating_add dl (abs_diff (total_cost (states vi ! idx)) cost)))"

definition local_run_parallel :: "nat \<Rightarrow> (nat \<Rightarrow> bool) \<Rightarrow> local_job \<Rightarrow> local_job option" where
  "local_run_parallel threads clock j =
     (if lj_ran j then Some j
      else if threads \<le> 1 \<or> lj_cells j = [] then Some (local_run j)
      else let parts = chunks (div_ceil (length (lj_cells j)) threads) (lj_cells j) in
           if list_all clock [0..<length parts]
           then case fold put_update (concat (map (chunk_updates (lj_vi j)) parts)) (lj_vi j, lj_delta j) of
                  (vi, d) \<Rightarrow> Some (j\<lparr>lj_vi := vi, lj_delta := d, lj_ran := True\<rparr>)
           else None)"

section \<open>Global jobs\<close>

definition transition_reach :: "value_iterator \<Rightarrow> i32" where
  "transition_reach vi = fold max (concat (map (\<lambda>a. map (\<lambda>t. max \<bar>dix t\<bar> \<bar>diy t\<bar>) (concat (state_transitions a))) (actions vi))) 0"

text \<open>The batch: candidates from the cursor on, until the budget is used up or their bounding box would
  reach 32 cells in a direction.\<close>

fun take_batch :: "nat \<Rightarrow> i32 \<times> i32 \<times> i32 \<times> i32 \<Rightarrow> (nat \<times> nat) list \<Rightarrow> (i32 \<times> i32 \<times> i32 \<times> i32) \<times> (i32 \<times> i32) list" where
  "take_batch 0 bb cs = (bb, [])"
| "take_batch (Suc budget) bb [] = (bb, [])"
| "take_batch (Suc budget) (x0, x1, y0, y1) ((x, y) # cs) =
     (let bx0 = min x0 (int x); bx1 = max x1 (int x); by0 = min y0 (int y); by1 = max y1 (int y) in
      if 32 \<le> bx1 - bx0 \<or> 32 \<le> by1 - by0 then ((x0, x1, y0, y1), [])
      else case take_batch budget (bx0, bx1, by0, by1) cs of (bb, cells) \<Rightarrow> (bb, (int x, int y) # cells))"

text \<open>The reach is measured once; the code asserts that it is between 1 and 63.\<close>

definition with_reach :: "value_iterator \<Rightarrow> dense_sweep \<Rightarrow> (nat \<times> dense_sweep) option" where
  "with_reach b sw =
     (case ds_reach sw of
        Some r \<Rightarrow> Some (r, sw)
      | None \<Rightarrow> let r = transition_reach b in
          if 1 \<le> r \<and> r < 64 then Some (nat r, sw\<lparr>ds_reach := Some (nat r)\<rparr>) else None)"

definition refill :: "nat \<Rightarrow> dense_sweep \<Rightarrow> dense_sweep option" where
  "refill reach sw =
     (if length (ds_cands sw) \<le> ds_pos sw then
        let sw = sw\<lparr>ds_cands := [], ds_pos := 0\<rparr> in
        case ds_pending sw of
          None \<Rightarrow> Some sw
        | Some seed \<Rightarrow> map_option (\<lambda>d. sw\<lparr>ds_pending := None, ds_cands := enumerate2 d\<rparr>) (dilate2d seed reach reach)
      else Some sw)"

text \<open>The second half of \<open>prepare_global_job\<close>: the batch at the cursor becomes a job.\<close>

definition checkout :: "nat \<Rightarrow> nat \<Rightarrow> value_iterator \<Rightarrow> core \<Rightarrow> global_job \<times> core" where
  "checkout max_states reach b co =
     (let sw = c_sweep co; m = c_global co;
          budget = max 1 (max_states div usize_of (max (cell_num_t b) 1));
          (x, y) = ds_cands sw ! ds_pos sw
      in case take_batch budget (int x, int x, int y, int y) (drop (ds_pos sw) (ds_cands sw)) of
        ((x0, x1, y0, y1), candidates) \<Rightarrow>
          let x0 = max (x0 - int reach) 0; y0 = max (y0 - int reach) 0;
              x1 = min (x1 + int reach) (cell_num_x b - 1); y1 = min (y1 + int reach) (cell_num_y b - 1);
              vi = snapshot b x0 x1 y0 y1;
              cells = map (\<lambda>(x, y). (x - x0, y - y0)) (filter (\<lambda>p. p \<notin> owned m) candidates);
              i = serial m + 1
          in (\<lparr>gj_epoch = epoch m, gj_id = i, gj_vi = repair_values vi, gj_before = states vi, gj_origin = (x0, y0), gj_cells = cells,
               gj_delta = 0, gj_ran = False\<rparr>,
              co\<lparr>c_sweep := sw\<lparr>ds_pos := ds_pos sw + length candidates, ds_visits := ds_visits sw + length cells\<rparr>,
                 c_global := m\<lparr>serial := i, in_flight := Some i,
                   deferred := (if certified m then deferred m else deferred m \<union> {p \<in> set candidates. p \<in> owned m})\<rparr>,
                 c_dirty := True\<rparr>))"

definition prepare_global_job :: "nat \<Rightarrow> core \<Rightarrow> (global_job option \<times> core) option" where
  "prepare_global_job max_states co =
     (case advance_invalidations (max 1 (min max_states 5000)) co of
        (co, False) \<Rightarrow> Some (None, co)
      | (co, True) \<Rightarrow>
          if in_flight (c_global co) \<noteq> None then Some (None, co)
          else case core_local co of
            None \<Rightarrow> Some (None, co)
          | Some vi \<Rightarrow>
              Option.bind (with_reach (base vi) (c_sweep co)) (\<lambda>(reach, sw).
                map_option (\<lambda>sw.
                  let co = co\<lparr>c_sweep := sw\<rparr> in
                  if ds_cands sw = [] then (None, fst (settle_global co))
                  else case checkout max_states reach (base vi) co of (j, co) \<Rightarrow> (Some j, co))
                (refill reach sw)))"

definition copy_column :: "nat \<Rightarrow> nat \<Rightarrow> nat \<Rightarrow> state list \<Rightarrow> state list \<Rightarrow> state list" where
  "copy_column src dst nt new = fold (\<lambda>t sts. let s = new ! (src + t) in
     sts[dst + t := (sts ! (dst + t))\<lparr>total_cost := total_cost s, optimal_action := optimal_action s\<rparr>]) [0..<nt]"

definition publish_column :: "global_job \<Rightarrow> nat \<Rightarrow> nat \<Rightarrow> nat \<Rightarrow> vi_local \<Rightarrow> vi_local" where
  "publish_column j src dst nt vi =
     vi\<lparr>base := (base vi)\<lparr>states := copy_column src dst nt (states (gj_vi j)) (states (base vi))\<rparr>\<rparr>"

definition column_moved :: "state list \<Rightarrow> state list \<Rightarrow> nat \<Rightarrow> nat \<Rightarrow> nat \<Rightarrow> bool" where
  "column_moved live new dst src nt = list_ex (\<lambda>t. total_cost (live ! (dst + t)) \<noteq> total_cost (new ! (src + t)) \<or>
     optimal_action (live ! (dst + t)) \<noteq> optimal_action (new ! (src + t))) [0..<nt]"

text \<open>One cell of a commit; \<open>None\<close> is the \<open>unwrap\<close> of a missing field.\<close>

definition commit_cell ::
  "global_job \<Rightarrow> i32 \<times> i32 \<Rightarrow> core \<times> (i32 \<times> i32) list \<times> (i32 \<times> i32) list \<Rightarrow> (core \<times> (i32 \<times> i32) list \<times> (i32 \<times> i32) list) option" where
  "commit_cell j = (\<lambda>(x, y) (co, changed, retry).
     let gx = x + fst (gj_origin j); gy = y + snd (gj_origin j); m = c_global co; nt = usize_of (cell_num_t (gj_vi j)) in
     if (gx, gy) \<in> owned m then
       Some (if certified m then co else upd_global (\<lambda>m. m\<lparr>deferred := insert (gx, gy) (deferred m)\<rparr>) co, changed, retry)
     else if \<not> gj_ran j then Some (co, changed, retry @ [(gx, gy)])
     else case core_local co of
       None \<Rightarrow> None
     | Some vi \<Rightarrow>
         let i = usize_of (to_index (gj_vi j) x y 0); dst = usize_of (to_index (base vi) gx gy 0) in
         if \<not> list_all (\<lambda>t. unchanged (states (base vi) ! (dst + t)) (gj_before j ! (i + t))) [0..<nt]
         then Some (co, changed, retry @ [(gx, gy)])
         else Some (upd_field (publish_column j i dst nt) co,
                if column_moved (states (base vi)) (states (gj_vi j)) dst i nt then changed @ [(gx, gy)] else changed, retry))"

definition commit_global_job :: "global_job \<Rightarrow> core \<Rightarrow> ((u64 \<times> bool) \<times> core) option" where
  "commit_global_job j co =
     (if gj_epoch j \<noteq> epoch (c_global co) \<or> in_flight (c_global co) \<noteq> Some (gj_id j) then
        let co = (if in_flight (c_global co) = Some (gj_id j)
                  then fold (\<lambda>(x, y). enqueue_cell (x + fst (gj_origin j), y + snd (gj_origin j))) (gj_cells j)
                         (upd_global (\<lambda>m. m\<lparr>in_flight := None\<rparr>) co)
                  else co)
        in Some ((0, \<not> is_dirty co), co)
      else map_option (\<lambda>(co, changed, retry).
          let co = fold enqueue_cell (changed @ retry) co;
              co = (if changed \<noteq> [] then upd_global (\<lambda>m. m\<lparr>boundary_revision := boundary_revision m + 1, certified := False\<rparr>) co else co)
          in case settle_global co of (co, ok) \<Rightarrow> ((gj_delta j, ok), co))
        (fold (\<lambda>p r. Option.bind r (commit_cell j p)) (gj_cells j) (Some (upd_global (\<lambda>m. m\<lparr>in_flight := None\<rparr>) co, [], []))))"

definition sweep_global :: "nat \<Rightarrow> core \<Rightarrow> ((u64 \<times> bool) \<times> core) option" where
  "sweep_global max_states co =
     Option.bind (prepare_global_job max_states co) (\<lambda>(j, co).
       case j of None \<Rightarrow> Some ((0, \<not> is_dirty co), co) | Some j \<Rightarrow> commit_global_job (global_run j) co)"

section \<open>Local jobs\<close>

definition prepare_local_job :: "core \<Rightarrow> local_job option \<times> core" where
  "prepare_local_job co =
     (case advance_invalidations 512 co of
        (co, False) \<Rightarrow> (None, co)
      | (co, True) \<Rightarrow>
          let m = c_global co in
          (case (owner m, core_local co) of
             (Some ow, Some vi) \<Rightarrow>
               if local_in_flight m \<noteq> None \<or> owned m = {} then (None, co)
               else let b = base vi; reach = transition_reach b;
                        x0 = max (local_ix_min vi - reach) 0; y0 = max (local_iy_min vi - reach) 0;
                        x1 = min (local_ix_max vi + reach) (cell_num_x b - 1); y1 = min (local_iy_max vi + reach) (cell_num_y b - 1);
                        cells = concat (map (\<lambda>x. concat (map (\<lambda>y.
                          if in_local_area vi x y \<and> (x, y) \<in> owned m then [(x - x0, y - y0)] else []) [local_iy_min vi..local_iy_max vi]))
                          [local_ix_min vi..local_ix_max vi]);
                        i = serial m + 1
                    in (Some \<lparr>lj_epoch = epoch m, lj_owner = ow, lj_id = i, lj_revision = local_revision m,
                          lj_boundary_revision = boundary_revision m, lj_vi = repair_values (snapshot b x0 x1 y0 y1), lj_origin = (x0, y0),
                          lj_cells = cells, lj_delta = 0, lj_ran = False\<rparr>,
                        upd_global (\<lambda>m. m\<lparr>serial := i, local_in_flight := Some i\<rparr>) co)
           | _ \<Rightarrow> (None, co)))"

definition commit_local_cell :: "local_job \<Rightarrow> i32 \<times> i32 \<Rightarrow> vi_local \<times> (i32 \<times> i32) list \<Rightarrow> vi_local \<times> (i32 \<times> i32) list" where
  "commit_local_cell j = (\<lambda>(x, y) (vi, changed).
     let gx = x + fst (lj_origin j); gy = y + snd (lj_origin j);
         dst = usize_of (to_index (base vi) gx gy 0); src = usize_of (to_index (lj_vi j) x y 0); nt = usize_of (cell_num_t (lj_vi j))
     in (vi\<lparr>base := (base vi)\<lparr>states := copy_column src dst nt (states (lj_vi j)) (states (base vi))\<rparr>\<rparr>,
         if column_moved (states (base vi)) (states (lj_vi j)) dst src nt then changed @ [(gx, gy)] else changed))"

definition commit_local_job :: "local_job \<Rightarrow> core \<Rightarrow> u64 option \<times> core" where
  "commit_local_job j co =
     (let m = c_global co in
      if lj_epoch j \<noteq> epoch m \<or> owner m \<noteq> Some (lj_owner j) \<or> local_in_flight m \<noteq> Some (lj_id j) then
        (None, if local_in_flight m = Some (lj_id j) then upd_global (\<lambda>m. m\<lparr>local_in_flight := None\<rparr>) co else co)
      else let co = upd_global (\<lambda>m. m\<lparr>local_in_flight := None\<rparr>) co in
        if \<not> lj_ran j \<or> lj_revision j \<noteq> local_revision m then (None, co)
        else case core_local co of
          None \<Rightarrow> (None, co)
        | Some vi \<Rightarrow>
            case fold (commit_local_cell j) (lj_cells j) (vi, []) of (vi', changed) \<Rightarrow>
              let co = fold enqueue_cell changed (upd_field (\<lambda>_. vi') co);
                  co = upd_global (\<lambda>m. m\<lparr>certified := False\<rparr>) co;
                  co = (if lj_delta j = 0 \<and> lj_boundary_revision j = boundary_revision (c_global co) then certify_local co else co)
              in (Some (lj_delta j), fst (settle_global co)))"

section \<open>The window: scans, margins, refinement\<close>

definition set_window :: "(f64 \<Rightarrow> f64) \<Rightarrow> (f64 \<Rightarrow> f64) \<Rightarrow> pose_view \<Rightarrow> core \<Rightarrow> core option" where
  "set_window cosf sinf pose co =
     (case core_local co of
        None \<Rightarrow> Some co
      | Some vi \<Rightarrow> map_option (\<lambda>vi'. update_local_ownership (upd_field (\<lambda>_. vi') co))
                     (set_local_window cosf sinf (pv_x pose) (pv_y pose) (yaw_rad pose) vi))"

definition cell_input :: "vi_local \<Rightarrow> i32 \<times> i32 \<Rightarrow> bool \<times> u64 \<times> u64" where
  "cell_input vi = (\<lambda>(x, y). let s = states (base vi) ! usize_of (to_index (base vi) x y 0) in (free s, penalty s, local_penalty s))"

definition local_inputs :: "core \<Rightarrow> (bool \<times> u64 \<times> u64) list" where
  "local_inputs co = (case core_local co of None \<Rightarrow> [] | Some vi \<Rightarrow> map (cell_input vi) (window_cells vi))"

text \<open>A cell became dearer: it is blocked now, or its penalties sum up to more. The two lists are zipped
  as the code's iterator does: it stops at the end of the older one.\<close>

definition increased_cells :: "vi_local \<Rightarrow> (bool \<times> u64 \<times> u64) list \<Rightarrow> (i32 \<times> i32) list" where
  "increased_cells vi old = map fst (filter (\<lambda>(p, fr, pen, lp).
     let s = states (base vi) ! usize_of (to_index (base vi) (fst p) (snd p) 0)
     in fr \<and> (\<not> free s \<or> pen + lp < penalty s + local_penalty s)) (zip (window_cells vi) old))"

definition invalidate_local_inputs :: "(bool \<times> u64 \<times> u64) list \<Rightarrow> core \<Rightarrow> core" where
  "invalidate_local_inputs old co =
     (if old = local_inputs co then co
      else let co = upd_global (\<lambda>m. m\<lparr>certified := False, local_revision := local_revision m + 1\<rparr>) co in
        case core_local co of
          None \<Rightarrow> co
        | Some vi \<Rightarrow> enqueue_global (local_ix_min vi, local_ix_max vi, local_iy_min vi, local_iy_max vi)
                       (queue_cost_increases (increased_cells vi old) co))"

definition observe_scan_gated ::
  "(f64 \<Rightarrow> f64) \<Rightarrow> (f64 \<Rightarrow> f64) \<Rightarrow> bool \<Rightarrow> f64 \<Rightarrow> u64 \<Rightarrow> laser_scan \<Rightarrow> pose_view \<Rightarrow> nat \<Rightarrow> core \<Rightarrow> core option" where
  "observe_scan_gated cosf sinf map_clear radius pen scan pose shift co =
     (case core_local co of
        None \<Rightarrow> Some co
      | Some vi \<Rightarrow> map_option (\<lambda>vi'. invalidate_local_inputs (local_inputs co) (upd_field (\<lambda>_. vi') co))
          (set_local_cost_attenuated cosf sinf scan (pv_x pose) (pv_y pose) (yaw_rad pose) shift
            (vi\<lparr>clear_map_from_scan := map_clear, scan_penalty_radius := radius, scan_penalty := pen\<rparr>)))"

definition core_inflate :: "f64 \<Rightarrow> local_shape_config \<Rightarrow> f64 \<Rightarrow> core \<Rightarrow> core" where
  "core_inflate gain cfg sigma_m co =
     (if f_le gain (f_of_int 0) \<or> f_le sigma_m (f_of_int 0) then co
      else let extra = f_min (f_mul sigma_m gain) (min_radius_m cfg)
           in invalidate_local_inputs (local_inputs co) (upd_field (inflate_by_sigma extra) co))"

text \<open>One pass over the window. Stale policies within reach read as no value; outside the window their
  values are put back afterwards. \<open>stop x\<close> answers the clock query before column \<open>x\<close>.\<close>

definition halo_indices :: "vi_local \<Rightarrow> (nat \<times> bool) list" where
  "halo_indices vi =
     (let b = base vi; reach = transition_reach b in
      concat (map (\<lambda>y. concat (map (\<lambda>x. map (\<lambda>t. (usize_of (to_index b x y t), \<not> in_local_area vi x y)) [0..cell_num_t b - 1])
        [max (local_ix_min vi - reach) 0..min (local_ix_max vi + reach) (cell_num_x b - 1)]))
        [max (local_iy_min vi - reach) 0..min (local_iy_max vi + reach) (cell_num_y b - 1)]))"

definition hide_stale :: "nat \<times> bool \<Rightarrow> state list \<times> (nat \<times> u64) list \<Rightarrow> state list \<times> (nat \<times> u64) list" where
  "hide_stale = (\<lambda>(idx, outside) (sts, bnd).
     let s = sts ! idx in
     if policy_invalidated s
     then (sts[idx := s\<lparr>total_cost := MAX_COST\<rparr>], if outside then bnd @ [(idx, total_cost s)] else bnd)
     else (sts, bnd))"

definition refine_column :: "i32 \<Rightarrow> vi_local \<times> u64 \<Rightarrow> vi_local \<times> u64" where
  "refine_column x = (\<lambda>(vi, dl).
     fold (\<lambda>y (vi, dl). if \<not> in_local_area vi x y then (vi, dl)
        else fold (\<lambda>t (vi, dl). case value_iteration_local (usize_of (to_index (base vi) x y t)) vi of
               (vi', d) \<Rightarrow> (vi', saturating_add dl d)) [0..cell_num_t (base vi) - 1] (vi, dl))
       [local_iy_min vi..local_iy_max vi] (vi, dl))"

fun refine_columns :: "(i32 \<Rightarrow> bool) \<Rightarrow> i32 list \<Rightarrow> vi_local \<times> u64 \<Rightarrow> (vi_local \<times> u64) \<times> bool" where
  "refine_columns stop [] s = (s, False)"
| "refine_columns stop (x # xs) s = (if stop x then (s, True) else refine_columns stop xs (refine_column x s))"

definition refine_pass_until :: "(i32 \<Rightarrow> bool) \<Rightarrow> vi_local \<Rightarrow> vi_local \<times> u64 \<times> bool" where
  "refine_pass_until stop vi =
     (case fold hide_stale (halo_indices vi) (states (base vi), []) of (sts, bnd) \<Rightarrow>
        case refine_columns stop [local_ix_min vi..local_ix_max vi] (vi\<lparr>base := (base vi)\<lparr>states := sts\<rparr>\<rparr>, 0) of
          ((vi, dl), stopped) \<Rightarrow>
            (vi\<lparr>base := (base vi)\<lparr>states := fold (\<lambda>(idx, v) sts. sts[idx := (sts ! idx)\<lparr>total_cost := v\<rparr>]) bnd (states (base vi))\<rparr>\<rparr>,
             dl, stopped))"

text \<open>The refinement loop. \<open>late\<close> answers the clock queries of the first loop, \<open>stop n\<close> those of pass \<open>n\<close>;
  \<open>None\<close> is a run whose budget never ends.\<close>

partial_function (option) drain_invalidations :: "(nat \<Rightarrow> bool) \<Rightarrow> nat \<Rightarrow> core \<Rightarrow> (core \<times> bool) option" where
  "drain_invalidations late n co =
     (case advance_invalidations 512 co of (co, ok) \<Rightarrow>
        if ok then Some (co, True) else if late n then Some (co, False) else drain_invalidations late (Suc n) co)"

definition after_pass :: "vi_local \<Rightarrow> u64 \<Rightarrow> core \<Rightarrow> core" where
  "after_pass vi dl co =
     (let co = upd_field (\<lambda>_. vi) co in
      if 0 < dl
      then seed_sweep_window ((upd_global (\<lambda>m. m\<lparr>certified := False\<rparr>) co)\<lparr>c_dirty := True\<rparr>)
      else co)"

partial_function (option) refine_loop :: "(nat \<Rightarrow> i32 \<Rightarrow> bool) \<Rightarrow> nat \<Rightarrow> core \<Rightarrow> (u64 \<times> core) option" where
  "refine_loop stop n co =
     (case core_local co of
        None \<Rightarrow> Some (0, co)
      | Some vi \<Rightarrow>
          (case refine_pass_until (stop n) vi of (vi', dl, stopped) \<Rightarrow>
             let co = after_pass vi' dl co in
             if stopped \<or> dl = 0
             then Some (dl, if \<not> stopped \<and> dl = 0 then certify_local co else co)
             else refine_loop stop (Suc n) co))"

definition refine_for :: "(nat \<Rightarrow> bool) \<Rightarrow> (nat \<Rightarrow> i32 \<Rightarrow> bool) \<Rightarrow> core \<Rightarrow> (u64 \<times> core) option" where
  "refine_for late stop co =
     Option.bind (drain_invalidations late 0 co) (\<lambda>(co, ok). if ok then refine_loop stop 0 co else Some (0, co))"

section \<open>Goals\<close>

text \<open>The parts of \<open>prepare_goal_with_progress\<close> around the solve: the old field goes, the new one is
  installed, and a field that is not solved to the end is seeded as a whole.\<close>

definition drop_field :: "core \<Rightarrow> core" where
  "drop_field co = (invalidate_global_jobs co)\<lparr>c_cached := None\<rparr>"

definition reset_for_goal :: "core \<Rightarrow> core" where
  "reset_for_goal co = (let co = drop_field co in co\<lparr>c_dirty := False, c_sweep := sweep_clear (c_sweep co)\<rparr>)"

definition install_field :: "bool \<Rightarrow> vi_local cached_goal \<Rightarrow> core \<Rightarrow> core" where
  "install_field unfinished c co =
     (let co = co\<lparr>c_cached := Some c\<rparr> in if unfinished then seed_sweep_all (co\<lparr>c_dirty := True\<rparr>) else co)"

definition discard_partial :: "core \<Rightarrow> core \<times> bool" where
  "discard_partial co =
     (case c_cached co of
        None \<Rightarrow> (co, False)
      | Some c \<Rightarrow> if \<not> cg_partial c then (co, False) else (drop_field co, True))"

declare drain_invalidations.simps [code] refine_loop.simps [code]

text \<open>The saturating sum without leaving the word type.\<close>

lemma saturating_add_code [code]: "saturating_add a b = (if b \<le> - 1 - a then a + b else - 1)"
proof -
  have m: "unat (- 1 :: u64) = 2 ^ 64 - 1" by (simp add: unsigned_minus_1_eq_mask mask_eq_exp_minus_1)
  have "a \<le> - 1" by (rule word_order.extremum)
  then have "unat (- 1 - a) = 2 ^ 64 - 1 - unat a" by (simp only: unat_sub m)
  moreover have "unat a < 2 ^ 64" using unsigned_less [of a] by simp
  ultimately have "unat a + unat b < 2 ^ 64 \<longleftrightarrow> b \<le> - 1 - a" unfolding word_le_nat_alt by arith
  then show ?thesis by (simp only: saturating_add_def)
qed

section \<open>Repaired fields\<close>

lemma repair_state_simps [simp]:
  "optimal_action (repair_state s) = optimal_action s" "free (repair_state s) = free s" "final_state (repair_state s) = final_state s"
  "penalty (repair_state s) = penalty s" "local_penalty (repair_state s) = local_penalty s"
  "st_ix (repair_state s) = st_ix s" "st_iy (repair_state s) = st_iy s" "st_it (repair_state s) = st_it s"
  by (simp_all add: repair_state_def)

lemma repair_state_id: "\<not> policy_invalidated s \<Longrightarrow> repair_state s = s"
  by (simp add: repair_state_def)

lemma repair_frame: "same_frame vi (repair_values vi)"
proof -
  have "\<exists>v a. repair_state s = s\<lparr>total_cost := v, optimal_action := a\<rparr>" for s
    by (rule exI [of _ "total_cost (repair_state s)"], rule exI [of _ "optimal_action s"]) (simp add: repair_state_def)
  then show ?thesis unfolding same_frame_def repair_values_def by (intro exI [of _ "map repair_state (states vi)"]) simp
qed

lemmas repair_sel = same_frame_sel [OF repair_frame]

lemma repair_wf [simp]: "wf_vi vi \<Longrightarrow> wf_vi (repair_values vi)"
  by (rule same_frame_wf [OF repair_frame])

lemma repair_at: "wf_vi vi \<Longrightarrow> in_map vi c \<Longrightarrow> state_at (repair_values vi) c = repair_state (state_at vi c)"
  using cidx_less [of vi c] by (simp add: state_at_def repair_sel) (simp add: repair_values_def wf_vi_def)

section \<open>Snapshots\<close>

text \<open>\<open>v\<close> is a window of \<open>b\<close> whose lower left corner is the cell \<open>(ox, oy)\<close>.\<close>

definition shifted :: "nat \<Rightarrow> nat \<Rightarrow> value_iterator \<Rightarrow> value_iterator \<Rightarrow> bool" where
  "shifted ox oy v b \<longleftrightarrow> wf_vi v \<and> actions v = actions b \<and> cell_num_t v = cell_num_t b \<and>
     ox + dim_x v \<le> dim_x b \<and> oy + dim_y v \<le> dim_y b"

definition shift_cell :: "nat \<Rightarrow> nat \<Rightarrow> cell \<Rightarrow> cell" where
  "shift_cell ox oy = (\<lambda>(x, y, t). (x + ox, y + oy, t))"

definition in_box :: "nat \<Rightarrow> nat \<Rightarrow> value_iterator \<Rightarrow> cell \<Rightarrow> bool" where
  "in_box ox oy v d \<longleftrightarrow> (\<exists>c. in_map v c \<and> d = shift_cell ox oy c)"

definition same_view :: "state \<Rightarrow> state \<Rightarrow> bool" where
  "same_view s s' \<longleftrightarrow> total_cost s = total_cost s' \<and> state_input s = state_input s'"

lemma shift_in_map: "shifted ox oy v b \<Longrightarrow> in_map v c \<Longrightarrow> in_map b (shift_cell ox oy c)"
  by (cases c) (auto simp: shifted_def shift_cell_def dim_t_def)

lemma shift_inj: "shift_cell ox oy c = shift_cell ox oy c' \<longleftrightarrow> c = c'"
  by (cases c; cases c') (auto simp: shift_cell_def)

lemma in_box_shift [simp]: "in_box ox oy v (shift_cell ox oy c) \<longleftrightarrow> in_map v c"
  unfolding in_box_def shift_inj by blast

lemma shift_succ:
  assumes sh: "shifted ox oy v b" and wf: "wf_vi b" and c: "in_map v c"
    and box: "\<And>d. succ_cell b tr (shift_cell ox oy c) = Some d \<Longrightarrow> in_box ox oy v d"
  shows "succ_cell b tr (shift_cell ox oy c) = map_option (shift_cell ox oy) (succ_cell v tr c)"
proof -
  obtain x y t where xyt: "c = (x, y, t)" by (cases c)
  have wfv: "wf_vi v" and ct: "cell_num_t v = cell_num_t b" using sh by (simp_all add: shifted_def)
  have dx: "int ox + cell_num_x v \<le> cell_num_x b" "int oy + cell_num_y v \<le> cell_num_y b"
    using sh int_dims [OF wfv] int_dims [OF wf] unfolding shifted_def by linarith+
  show ?thesis
  proof (cases "succ_cell v tr c")
    case None
    have "succ_cell b tr (shift_cell ox oy c) = None"
    proof (rule ccontr)
      assume "succ_cell b tr (shift_cell ox oy c) \<noteq> None"
      then obtain d where d: "succ_cell b tr (shift_cell ox oy c) = Some d" by auto
      from box [OF d] obtain x' y' t' where c': "in_map v (x', y', t')" "d = (x' + ox, y' + oy, t')"
        by (auto simp: in_box_def shift_cell_def)
      have "int x' < cell_num_x v" "int y' < cell_num_y v" using c'(1) int_dims [OF wfv, symmetric] by simp_all
      then show False using d None c'(2) by (auto simp: succ_cell_def xyt shift_cell_def Let_def split: if_splits)
    qed
    then show ?thesis by (simp add: None)
  next
    case (Some c')
    then show ?thesis using dx ct by (auto simp: succ_cell_def xyt shift_cell_def Let_def nat_add_distrib split: if_splits)
  qed
qed

lemma shift_cost:
  assumes "\<And>tr. tr \<in> set trs \<Longrightarrow> succ_cell b tr (shift_cell ox oy c) = map_option (shift_cell ox oy) (succ_cell v tr c)"
    and "\<And>tr c'. tr \<in> set trs \<Longrightarrow> succ_cell v tr c = Some c' \<Longrightarrow> same_view (state_at v c') (state_at b (shift_cell ox oy c'))"
  shows "cost_loop v c trs k = cost_loop b (shift_cell ox oy c) trs k"
  using assms
proof (induction trs arbitrary: k)
  case (Cons tr trs)
  have IH: "cost_loop v c trs k = cost_loop b (shift_cell ox oy c) trs k" for k
    by (rule Cons.IH; rule Cons.prems; simp)
  show ?case
    using Cons.prems(1) [of tr] Cons.prems(2) [of tr] IH
    by (cases "succ_cell v tr c") (auto simp: same_view_def state_input_def Let_def)
qed simp

lemma shift_bellman:
  assumes sh: "shifted ox oy v b" and wf: "wf_vi b" and c: "in_map v c"
    and box: "\<And>d. d \<in> succs b (shift_cell ox oy c) \<Longrightarrow> in_box ox oy v d"
    and view: "\<And>c'. in_map v c' \<Longrightarrow> shift_cell ox oy c' \<in> succs b (shift_cell ox oy c) \<Longrightarrow> same_view (state_at v c') (state_at b (shift_cell ox oy c'))"
    and self: "free (state_at v c) = free (state_at b (shift_cell ox oy c))" "final_state (state_at v c) = final_state (state_at b (shift_cell ox oy c))"
  shows "bellman_update v (cidx v c) = bellman_update b (cidx b (shift_cell ox oy c))"
proof -
  have wfv: "wf_vi v" and acts: "actions v = actions b" using sh by (simp_all add: shifted_def)
  have th: "snd (snd (shift_cell ox oy c)) = snd (snd c)" by (cases c) (simp add: shift_cell_def)
  have "cost_loop v c (state_transitions a ! snd (snd c)) 0 = cost_loop b (shift_cell ox oy c) (state_transitions a ! snd (snd c)) 0"
    if a: "a \<in> set (actions b)" for a
  proof (rule shift_cost)
    fix tr assume tr: "tr \<in> set (state_transitions a ! snd (snd c))"
    have "in_box ox oy v d" if "succ_cell b tr (shift_cell ox oy c) = Some d" for d
      using box [of d] a tr that by (auto simp: succs_def action_succs_def th)
    then show e: "succ_cell b tr (shift_cell ox oy c) = map_option (shift_cell ox oy) (succ_cell v tr c)" by (rule shift_succ [OF sh wf c])
    fix c' assume c': "succ_cell v tr c = Some c'"
    then have "shift_cell ox oy c' \<in> succs b (shift_cell ox oy c)" using e a tr by (auto simp: succs_def action_succs_def th)
    then show "same_view (state_at v c') (state_at b (shift_cell ox oy c'))" by (rule view [OF succ_cell_in_map [OF wfv c']])
  qed
  then have "argmin_loop (\<lambda>a. cost_loop v c (state_transitions a ! snd (snd c)) 0) (actions b) =
      argmin_loop (\<lambda>a. cost_loop b (shift_cell ox oy c) (state_transitions a ! snd (snd c)) 0) (actions b)"
    unfolding argmin_loop_def by (rule fold_argmin_cong)
  then show ?thesis
    unfolding bellman_update_cells [OF wfv c] bellman_update_cells [OF wf shift_in_map [OF sh c]] th acts self by simp
qed

lemma concat_nth:
  assumes "i < length xs" "k < n" "\<And>x. x \<in> set xs \<Longrightarrow> length (f x) = n"
  shows "concat (map f xs) ! (i * n + k) = f (xs ! i) ! k"
  using assms
proof (induction xs arbitrary: i)
  case (Cons x xs)
  then show ?case by (cases i) (simp_all add: nth_append add.assoc)
qed simp

lemma concat_length: "(\<And>x. x \<in> set xs \<Longrightarrow> length (f x) = n) \<Longrightarrow> length (concat (map f xs)) = length xs * n"
  by (induction xs) simp_all

lemma snapshot_shifted:
  assumes wf: "wf_vi b" and x: "X0 \<le> X1" "X1 < dim_x b" and y: "Y0 \<le> Y1" "Y1 < dim_y b"
  defines "v \<equiv> snapshot b (int X0) (int X1) (int Y0) (int Y1)"
  shows "shifted X0 Y0 v b" "dim_x v = X1 - X0 + 1" "dim_y v = Y1 - Y0 + 1"
    and "in_map v (i, j, t) \<Longrightarrow> state_at v (i, j, t) = (state_at b (i + X0, j + Y0, t))\<lparr>st_ix := int i, st_iy := int j\<rparr>"
proof -
  let ?g = "\<lambda>y x t. let s = states b ! usize_of (to_index b x y t) in s\<lparr>st_ix := wrap32 (st_ix s - int X0), st_iy := wrap32 (st_iy s - int Y0)\<rparr>"
  have sts: "states v = concat (map (\<lambda>y. concat (map (\<lambda>x. map (?g y x) [0..cell_num_t b - 1]) [int X0..int X1])) [int Y0..int Y1])"
    by (simp add: v_def snapshot_def geometry_def)
  have cn: "cell_num_x v = int X1 - int X0 + 1" "cell_num_y v = int Y1 - int Y0 + 1" "cell_num_t v = cell_num_t b" "actions v = actions b"
    by (simp_all add: v_def snapshot_def geometry_def value_iterator_new_def Let_def)
  show dx: "dim_x v = X1 - X0 + 1" and dy: "dim_y v = Y1 - Y0 + 1" using x y by (simp_all add: dim_x_def dim_y_def cn)
  have dt: "dim_t v = dim_t b" by (simp add: dim_t_def cn)
  have ntl: "length [0..cell_num_t b - 1] = dim_t b" by (simp add: dim_t_def)
  have lx: "length [int X0..int X1] = dim_x v" and ly: "length [int Y0..int Y1] = dim_y v" by (simp_all add: dim_x_def dim_y_def cn)
  have row: "length (concat (map (\<lambda>x. map (?g y x) [0..cell_num_t b - 1]) [int X0..int X1])) = dim_x v * dim_t v" for y
    by (subst concat_length [where n = "dim_t b"]) (simp_all only: length_map ntl dt lx)
  have len: "length (states v) = dim_x v * dim_y v * dim_t v"
    unfolding sts by (subst concat_length [where n = "dim_x v * dim_t v"]) (simp_all only: row ly mult.commute mult.left_commute)
  show at: "state_at v (i, j, t) = (state_at b (i + X0, j + Y0, t))\<lparr>st_ix := int i, st_iy := int j\<rparr>" if c: "in_map v (i, j, t)" for i j t
  proof -
    have ij: "i < dim_x v" "j < dim_y v" "t < dim_t b" using c by (simp_all add: dt)
    have k: "i * dim_t b + t < dim_x v * dim_t v" using row_major_less [OF ij(1,3)] by (simp add: dt)
    have idx: "cidx v (i, j, t) = j * (dim_x v * dim_t v) + (i * dim_t b + t)" by (simp add: dt algebra_simps)
    have "state_at v (i, j, t) = concat (map (\<lambda>x. map (?g ([int Y0..int Y1] ! j) x) [0..cell_num_t b - 1]) [int X0..int X1]) ! (i * dim_t b + t)"
      unfolding state_at_def sts idx using ij(2) by (intro concat_nth k row) (simp only: ly)
    also have "\<dots> = map (?g ([int Y0..int Y1] ! j) ([int X0..int X1] ! i)) [0..cell_num_t b - 1] ! t"
      using ij by (intro concat_nth) (simp_all only: ntl lx length_map)
    also have "\<dots> = ?g (int (j + Y0)) (int (i + X0)) (int t)"
      using ij x y ntl by (simp add: nth_upto dx dy add.commute)
    finally have e: "state_at v (i, j, t) = ?g (int (j + Y0)) (int (i + X0)) (int t)" .
    have cb: "in_map b (i + X0, j + Y0, t)" using ij x y by (auto simp: dx dy)
    have "states b ! usize_of (to_index b (int (i + X0)) (int (j + Y0)) (int t)) = state_at b (i + X0, j + Y0, t)"
      using to_index_cell [OF wf cb] by (simp add: to_index_def state_at_def del: cidx.simps of_nat_add)
    moreover have "i < 2 ^ 31" "j < 2 ^ 31"
    proof -
      have "i < dim_x b" "j < dim_y b" using cb by simp_all
      moreover have "dim_x b \<le> dim_x b * dim_y b * dim_t b" "dim_y b \<le> dim_x b * dim_y b * dim_t b" using wf_dims_pos [OF wf] by simp_all
      ultimately show "i < 2 ^ 31" "j < 2 ^ 31" using wf_dims_pos(4) [OF wf] by linarith+
    qed
    ultimately show ?thesis unfolding e Let_def using wf_vi_state_at [OF wf cb]
      by (simp add: wrap32_id)
  qed
  have "wf_vi v"
  proof -
    have pos: "0 < cell_num_x v" "0 < cell_num_y v" "0 < cell_num_t v" using x y wf by (simp_all add: cn wf_vi_def)
    have le: "cell_num_x v \<le> cell_num_x b" "cell_num_y v \<le> cell_num_y b" using x y int_dims [OF wf, symmetric] by (simp_all add: cn)
    have "cell_num_x v * cell_num_y v * cell_num_t v \<le> cell_num_x b * cell_num_y b * cell_num_t b"
      using pos le by (intro mult_mono) (simp_all add: cn(3))
    then have small: "cell_num_x v * cell_num_y v * cell_num_t v < 2 ^ 31" using wf by (simp add: wf_vi_def)
    have "wf_transition b tr \<Longrightarrow> wf_transition v tr" for tr using le by (auto simp: wf_transition_def cn(3))
    then have acts: "list_all (wf_action v) (actions v)" using wf unfolding wf_vi_def cn(4) by (auto simp: list_all_iff wf_action_def dt)
    have "wf_state v (i, j, t)" if c: "in_map v (i, j, t)" for i j t
    proof -
      have "in_map b (i + X0, j + Y0, t)" using c x y by (auto simp: dx dy dt)
      from wf_vi_state_at(3) [OF wf this] show ?thesis unfolding wf_state_def prod.case Let_def at [OF c] by simp
    qed
    then show ?thesis unfolding wf_vi_def using pos small acts len by (simp add: list_all_iff)
  qed
  then show "shifted X0 Y0 v b" using x y by (simp add: shifted_def cn dx dy)
qed

end
