(* ===== verification/Certificate.thy ===== *)
theory Certificate
  imports GlobalManager Original Block
begin

text \<open>
  The certificate of the local window: whenever the manager holds it, every owned cell satisfies the
  Bellman equation, with the values of stale policies read as absent.
\<close>

declare split_paired_All [simp del] split_paired_Ex [simp del]

section \<open>Passes\<close>

lemma saturating_add_0 [simp]: "saturating_add a b = 0 \<longleftrightarrow> a = 0 \<and> b = 0"
proof
  assume z: "saturating_add a b = 0"
  show "a = 0 \<and> b = 0"
  proof (cases "unat a + unat b < 2 ^ 64")
    case True
    then have "unat (a + b) = unat a + unat b" by (simp add: unat_add_lem [THEN iffD1])
    moreover have "a + b = 0" using z True by (simp add: saturating_add_def)
    ultimately show ?thesis by (simp add: unat_eq_0)
  next
    case False
    then show ?thesis using z by (simp add: saturating_add_def)
  qed
qed (simp add: saturating_add_def)

text \<open>Updating the cells of a list in place and adding up the changes.\<close>

definition relax_sum :: "cell list \<Rightarrow> value_iterator \<times> u64 \<Rightarrow> value_iterator \<times> u64" where
  "relax_sum = fold (\<lambda>c (vi, dl). (fst (relax vi c), saturating_add dl (snd (relax vi c))))"

lemma relax_sum_spec:
  "fst (relax_sum cs (vi, dl)) = fst (relax_list vi cs)" "snd (relax_sum cs (vi, dl)) = 0 \<longleftrightarrow> dl = 0 \<and> snd (relax_list vi cs) = []"
proof -
  have "fst (relax_sum cs (vi, dl)) = fst (relax_list vi cs) \<and> (snd (relax_sum cs (vi, dl)) = 0 \<longleftrightarrow> dl = 0 \<and> snd (relax_list vi cs) = [])"
    by (induction cs arbitrary: vi dl) (auto simp: relax_sum_def Let_def case_prod_beta)
  then show "fst (relax_sum cs (vi, dl)) = fst (relax_list vi cs)" "snd (relax_sum cs (vi, dl)) = 0 \<longleftrightarrow> dl = 0 \<and> snd (relax_list vi cs) = []"
    by simp_all
qed

lemma relax_sum_append: "relax_sum (cs @ ds) s = relax_sum ds (relax_sum cs s)"
  by (simp add: relax_sum_def)

lemma argmin_None:
  assumes "argmin_loop cost acts = (v, None)"
  shows "v = MAX_COST"
proof -
  have *: "snd (fold (\<lambda>(ai, a) (m, b). let c = cost a in if c < m then (c, Some ai) else (m, b)) ps p) = None \<Longrightarrow>
      fold (\<lambda>(ai, a) (m, b). let c = cost a in if c < m then (c, Some ai) else (m, b)) ps p = p" for ps and p :: "u64 \<times> nat option"
  proof (induction ps arbitrary: p)
    case (Cons q ps)
    obtain ai a where q: "q = (ai, a)" by (cases q)
    obtain m b where p: "p = (m, b)" by (cases p)
    let ?f = "\<lambda>(ai, a) (m, b). let c = cost a in if c < m then (c, Some ai) else (m, b)"
    have e: "fold ?f (q # ps) p = fold ?f ps (?f q p)" by simp
    have i: "fold ?f ps (?f q p) = ?f q p" by (rule Cons.IH) (use Cons.prems in simp)
    have "snd (?f q p) = None" using Cons.prems i by simp
    then have "?f q p = p" by (auto simp: q p Let_def split: if_splits)
    then show ?case using e i by simp
  qed simp
  from * [of "List.enumerate 0 acts" "(MAX_COST, None)"] show ?thesis using assms by (simp add: argmin_loop_def)
qed

lemma bellman_None:
  assumes "wf_vi vi" "in_map vi c" "bellman_update vi (cidx vi c) = Some (v, None)"
  shows "v = MAX_COST"
  using assms(3) unfolding bellman_update_cells [OF assms(1,2)] by (auto split: if_splits intro: argmin_None)

lemma relax_fresh:
  assumes "wf_vi vi" "in_map vi c"
  shows "\<not> policy_invalidated (state_at (fst (relax vi c)) c)"
proof (cases "bellman_update vi (cidx vi c)")
  case None
  then have "\<not> free (state_at vi c) \<or> final_state (state_at vi c)" using bellman_update_cells [OF assms] by (auto split: if_splits)
  then show ?thesis unfolding relax_self [OF assms] by (auto simp: None policy_invalidated_def)
next
  case (Some va)
  obtain v a where va: "va = (v, a)" by (cases va)
  show ?thesis
  proof (cases a)
    case None
    then show ?thesis using bellman_None [OF assms] Some va unfolding relax_self [OF assms] by (simp add: policy_invalidated_def)
  qed (simp add: relax_self [OF assms] Some va policy_invalidated_def)
qed

lemma relax_list_fresh:
  assumes "wf_vi vi" "\<forall>c\<in>set cs. in_map vi c" "c \<in> set cs"
  shows "\<not> policy_invalidated (state_at (fst (relax_list vi cs)) c)"
  using assms
proof (induction cs arbitrary: vi)
  case (Cons d cs)
  let ?vi = "fst (relax vi d)"
  have d: "in_map vi d" "\<forall>c\<in>set cs. in_map vi c" using Cons.prems by auto
  have fr: "same_frame vi ?vi" by (rule relax_same_frame [OF Cons.prems(1) d(1)])
  have wf: "wf_vi ?vi" "\<forall>c\<in>set cs. in_map ?vi c" "in_map ?vi d"
    using Cons.prems same_frame_wf [OF fr] d by (simp_all add: same_frame_sel [OF fr])
  show ?case
  proof (cases "c \<in> set cs")
    case True
    then show ?thesis unfolding relax_list_Cons by (rule Cons.IH [OF wf(1,2)])
  next
    case False
    then have c: "c = d" using Cons.prems by simp
    have "state_at (fst (relax_list ?vi cs)) d = state_at ?vi d" by (rule relax_list_untouched) (use wf False c in auto)
    then show ?thesis using relax_fresh [OF Cons.prems(1) d(1)] unfolding relax_list_Cons c by simp
  qed
qed simp

text \<open>What a pass over the cells \<open>cs\<close> leaves behind: only these cells are written, none of them is stale
  afterwards, and a quiet pass moved no value and settled them all.\<close>

definition pass_ok :: "cell set \<Rightarrow> value_iterator \<Rightarrow> value_iterator \<Rightarrow> bool \<Rightarrow> bool" where
  "pass_ok C v v' quiet \<longleftrightarrow> same_frame v v' \<and> (\<forall>c. in_map v c \<and> c \<notin> C \<longrightarrow> state_at v' c = state_at v c) \<and>
     (\<forall>c\<in>C. \<not> policy_invalidated (state_at v' c)) \<and>
     (quiet \<longrightarrow> (\<forall>c. in_map v c \<longrightarrow> total_cost (state_at v' c) = total_cost (state_at v c)) \<and> (\<forall>c\<in>C. settled v' c))"

lemma settled_agree:
  assumes "wf_vi v" "in_map v c" "same_frame v w" "state_at w c = state_at v c"
    and "\<And>d. d \<in> succs v c \<Longrightarrow> total_cost (state_at w d) = total_cost (state_at v d)"
  shows "settled w c \<longleftrightarrow> settled v c"
proof -
  have "bellman_update w (cidx v c) = bellman_update v (cidx v c)" by (rule bellman_cong [OF assms(1,2,3)]) (rule assms(5))
  then show ?thesis unfolding settled_def same_frame_sel(9) [OF assms(3)] assms(4) by simp
qed

lemma quiet_relax_list:
  assumes "wf_vi vi" "\<forall>c\<in>set cs. in_map vi c" "snd (relax_list vi cs) = []"
  shows "(\<forall>c. in_map vi c \<longrightarrow> total_cost (state_at (fst (relax_list vi cs)) c) = total_cost (state_at vi c)) \<and>
    (\<forall>c\<in>set cs. settled (fst (relax_list vi cs)) c)"
  using assms
proof (induction cs arbitrary: vi)
  case (Cons d cs)
  let ?vi = "fst (relax vi d)" and ?fin = "fst (relax_list vi (d # cs))"
  have d: "in_map vi d" "\<forall>c\<in>set cs. in_map vi c" using Cons.prems by auto
  have fr: "same_frame vi ?vi" by (rule relax_same_frame [OF Cons.prems(1) d(1)])
  have wf: "wf_vi ?vi" "\<forall>c\<in>set cs. in_map ?vi c" "in_map ?vi d"
    using Cons.prems same_frame_wf [OF fr] d by (simp_all add: same_frame_sel [OF fr])
  have z: "snd (relax vi d) = 0" "snd (relax_list ?vi cs) = []"
    using Cons.prems(3) by (simp_all add: Let_def case_prod_beta split: if_splits)
  note rest = Cons.IH [OF wf(1,2) z(2), folded relax_list_Cons(1), unfolded same_frame_sel(8) [OF fr]]
  have IH: "total_cost (state_at ?fin c) = total_cost (state_at ?vi c)" if "in_map vi c" for c
    by (rule conjunct1 [OF rest, THEN spec, THEN mp, OF that])
  have first: "total_cost (state_at ?vi c) = total_cost (state_at vi c)" if "in_map vi c" for c
    using relax_other [OF Cons.prems(1) d(1) that] relax_delta [OF Cons.prems(1) d(1)] z(1) by (cases "c = d") simp_all
  have frf: "same_frame ?vi ?fin" unfolding relax_list_Cons by (rule relax_list_frame [OF wf(1,2)])
  have "settled ?fin c" if c: "c \<in> set (d # cs)" for c
  proof (cases "c \<in> set cs")
    case True
    then show ?thesis by (rule conjunct2 [OF rest, THEN bspec])
  next
    case False
    then have e: "c = d" using c by simp
    have "state_at ?fin d = state_at ?vi d" unfolding relax_list_Cons by (rule relax_list_untouched) (use wf False e in auto)
    moreover have "total_cost (state_at ?fin c') = total_cost (state_at ?vi c')" if "c' \<in> succs ?vi d" for c'
      by (rule IH) (use succs_in_map [OF wf(1) that] same_frame_sel(8) [OF fr] in simp)
    ultimately show ?thesis unfolding e using settled_agree [OF wf(1,3) frf] relax_settles [OF Cons.prems(1) d(1) z(1)] by blast
  qed
  then show ?case using IH first by (intro conjI allI impI ballI) simp_all
qed simp

lemma relax_list_pass:
  assumes "wf_vi v" "\<forall>c\<in>set cs. in_map v c"
  shows "pass_ok (set cs) v (fst (relax_list v cs)) (snd (relax_list v cs) = [])"
proof -
  have "state_at (fst (relax_list v cs)) c = state_at v c" if "in_map v c \<and> c \<notin> set cs" for c
    using relax_list_untouched [OF assms, of c] that by simp
  then show ?thesis unfolding pass_ok_def using relax_list_frame [OF assms] relax_list_fresh [OF assms] quiet_relax_list [OF assms] by simp
qed

lemma pass_settled:
  assumes "wf_vi v" "pass_ok C v v' True" "in_map v c" "settled v c"
  shows "settled v' c"
proof (cases "c \<in> C")
  case False
  have t: "\<And>d. in_map v d \<Longrightarrow> total_cost (state_at v' d) = total_cost (state_at v d)" using assms(2) unfolding pass_ok_def by blast
  have "state_at v' c = state_at v c" "same_frame v v'" using assms(2,3) False unfolding pass_ok_def by blast+
  then show ?thesis using settled_agree [OF assms(1,3), of v'] t succs_in_map [OF assms(1)] assms(4) by blast
qed (use assms(2) in \<open>auto simp: pass_ok_def\<close>)

text \<open>A loop that updates one cell after the other.\<close>

lemma fold_relax:
  assumes "wf_vi vi" "\<forall>p\<in>set ps. in_map vi (h p)"
    and "\<And>p v dl. p \<in> set ps \<Longrightarrow> same_frame vi v \<Longrightarrow> g p (v, dl) = (fst (relax v (h p)), saturating_add dl (snd (relax v (h p))))"
  shows "fold g ps (vi, dl) = relax_sum (map h ps) (vi, dl)"
  using assms
proof (induction ps arbitrary: vi dl)
  case (Cons p ps)
  have fr: "same_frame vi (fst (relax vi (h p)))" by (rule relax_same_frame) (use Cons.prems in simp_all)
  have "g p (vi, dl) = (fst (relax vi (h p)), saturating_add dl (snd (relax vi (h p))))" by (rule Cons.prems(3)) simp_all
  moreover have "fold g ps (fst (relax vi (h p)), k) = relax_sum (map h ps) (fst (relax vi (h p)), k)" for k
  proof (rule Cons.IH)
    show "wf_vi (fst (relax vi (h p)))" by (rule same_frame_wf [OF fr Cons.prems(1)])
    show "\<forall>p'\<in>set ps. in_map (fst (relax vi (h p))) (h p')" using Cons.prems(2) unfolding same_frame_sel(8) [OF fr] by simp
  qed (rule Cons.prems(3), simp, erule same_frame_trans [OF fr])
  ultimately show ?case by (simp add: relax_sum_def)
qed (simp add: relax_sum_def)

lemma fold_nested: "fold (\<lambda>p. fold (g p) (ts p)) ps s = fold (\<lambda>(p, t). g p t) (concat (map (\<lambda>p. map (Pair p) (ts p)) ps)) s"
proof -
  have "fold (g p) l s = fold (\<lambda>(p, t). g p t) (map (Pair p) l) s" for p l s by (induction l arbitrary: s) simp_all
  then show ?thesis by (induction ps arbitrary: s) simp_all
qed


lemma to_index_area:
  assumes "wf_vi v" "in_map_area v x y" "0 \<le> t" "t < cell_num_t v"
  shows "usize_of (to_index v x y t) = cidx v (nat x, nat y, nat t)" "in_map v (nat x, nat y, nat t)"
proof -
  show c: "in_map v (nat x, nat y, nat t)" using assms by (auto simp: in_map_area_def dim_x_def dim_y_def dim_t_def)
  show "usize_of (to_index v x y t) = cidx v (nat x, nat y, nat t)"
    using to_index_cell [OF assms(1) c] assms by (simp add: to_index_def in_map_area_def del: cidx.simps)
qed

definition columns :: "value_iterator \<Rightarrow> (i32 \<times> i32) list \<Rightarrow> cell list" where
  "columns v cells = concat (map (\<lambda>(x, y). map (\<lambda>t. (nat x, nat y, t)) [0..<dim_t v]) cells)"

lemma headings: "wf_vi v \<Longrightarrow> [0..cell_num_t v - 1] = map int [0..<dim_t v]"
  by (rule nth_equalityI) (simp_all add: dim_t_def nth_upto)

lemma columns_in_map:
  assumes "wf_vi v" "\<forall>(x, y)\<in>set cells. in_map_area v x y"
  shows "\<forall>c\<in>set (columns v cells). in_map v c"
  using assms by (auto simp: columns_def in_map_area_def dim_x_def dim_y_def)

lemma columns_iff:
  assumes "\<forall>(x, y)\<in>set cells. in_map_area v x y"
  shows "(a, b, t) \<in> set (columns v cells) \<longleftrightarrow> (int a, int b) \<in> set cells \<and> t < dim_t v"
proof
  assume "(a, b, t) \<in> set (columns v cells)"
  then obtain x y where xy: "(x, y) \<in> set cells" "a = nat x" "b = nat y" "t < dim_t v" by (auto simp: columns_def)
  with assms have "0 \<le> x" "0 \<le> y" by (auto simp: in_map_area_def)
  with xy show "(int a, int b) \<in> set cells \<and> t < dim_t v" by simp
next
  assume "(int a, int b) \<in> set cells \<and> t < dim_t v"
  then show "(a, b, t) \<in> set (columns v cells)" by (force simp: columns_def)
qed

lemma job_fold:
  assumes wf: "wf_vi v" and cells: "\<forall>(x, y)\<in>set cells. in_map_area v x y"
  shows "fold (\<lambda>p. fold (pass_state p) [0..cell_num_t v - 1]) cells (v, dl) = relax_sum (columns v cells) (v, dl)"
proof -
  define h :: "(i32 \<times> i32) \<times> i32 \<Rightarrow> cell" where "h = (\<lambda>((x, y), t). (nat x, nat y, nat t))"
  let ?ps = "concat (map (\<lambda>p. map (Pair p) [0..cell_num_t v - 1]) cells)"
  have ps: "in_map_area v x y \<and> 0 \<le> t \<and> t < cell_num_t v" if "((x, y), t) \<in> set ?ps" for x y t
    using that cells by auto
  have "map h ?ps = columns v cells"
    unfolding columns_def map_concat headings [OF wf] by (simp add: comp_def h_def split_def)
  moreover have "fold (\<lambda>(p, t). pass_state p t) ?ps (v, dl) = relax_sum (map h ?ps) (v, dl)"
  proof (rule fold_relax [OF wf])
    show "\<forall>p\<in>set ?ps. in_map v (h p)"
    proof
      fix p assume p: "p \<in> set ?ps"
      obtain x y t where q: "p = ((x, y), t)" by (cases p) auto
      show "in_map v (h p)" using ps [of x y t] p to_index_area(2) [OF wf] unfolding q h_def prod.case by blast
    qed
  next
    fix p w d assume p: "p \<in> set ?ps" and fr: "same_frame v w"
    obtain x y t where q: "p = ((x, y), t)" by (cases p) auto
    have "in_map_area w x y" "0 \<le> t" "t < cell_num_t w"
      using ps [of x y t] p unfolding q by (simp_all add: in_map_area_def same_frame_sel [OF fr])
    from to_index_area(1) [OF same_frame_wf [OF fr wf] this]
    show "(case p of (p, t) \<Rightarrow> pass_state p t) (w, d) = (fst (relax w (h p)), saturating_add d (snd (relax w (h p))))"
      unfolding q h_def prod.case pass_state_def relax_def by (simp add: case_prod_beta)
  qed
  ultimately show ?thesis unfolding fold_nested by simp
qed

lemma relax_sum_pass:
  assumes "wf_vi v" "\<forall>c\<in>set cs. in_map v c" "relax_sum cs (v, dl) = (v', d)"
  shows "pass_ok (set cs) v v' (d = 0)"
proof -
  have "v' = fst (relax_list v cs)" "d = 0 \<longrightarrow> snd (relax_list v cs) = []" using relax_sum_spec [of cs v dl] assms(3) by simp_all
  with relax_list_pass [OF assms(1,2)] show ?thesis by (auto simp: pass_ok_def)
qed

section \<open>The parallel pass\<close>

definition cell_updates :: "value_iterator \<Rightarrow> cell \<Rightarrow> (nat \<times> u64 \<times> nat option) list" where
  "cell_updates v c = (case bellman_update v (cidx v c) of None \<Rightarrow> [] | Some (cost, act) \<Rightarrow> [(cidx v c, cost, act)])"

lemma chunk_updates_cells:
  assumes wf: "wf_vi v" and cells: "\<forall>(x, y)\<in>set cells. in_map_area v x y"
  shows "chunk_updates v cells = concat (map (cell_updates v) (columns v cells))"
  using cells
proof (induction cells)
  case (Cons p cells)
  obtain x y where p: "p = (x, y)" by (cases p)
  have "map (\<lambda>t. let idx = usize_of (to_index v x y t) in case bellman_update v idx of None \<Rightarrow> [] | Some (cost, act) \<Rightarrow> [(idx, cost, act)])
      [0..cell_num_t v - 1] = map (\<lambda>t. cell_updates v (nat x, nat y, t)) [0..<dim_t v]"
    unfolding headings [OF wf] map_map
  proof (rule map_cong [OF refl])
    fix t assume "t \<in> set [0..<dim_t v]"
    then have "usize_of (to_index v x y (int t)) = cidx v (nat x, nat y, t)"
      using to_index_area(1) [OF wf, of x y "int t"] Cons.prems int_dims(3) [OF wf, symmetric] unfolding p by (simp del: cidx.simps)
    then show "((\<lambda>t. let idx = usize_of (to_index v x y t) in case bellman_update v idx of None \<Rightarrow> [] | Some (cost, act) \<Rightarrow> [(idx, cost, act)]) \<circ> int) t =
        cell_updates v (nat x, nat y, t)" unfolding comp_def cell_updates_def Let_def by (simp only:)
  qed
  then show ?case using Cons unfolding p chunk_updates_def columns_def by (simp add: comp_def)
qed (simp add: chunk_updates_def columns_def)

lemma abs_diff_0 [simp]: "abs_diff a b = 0 \<longleftrightarrow> a = b"
  by (auto simp: abs_diff_def)

definition put_state :: "value_iterator \<Rightarrow> cell \<Rightarrow> state \<Rightarrow> state" where
  "put_state v c s = (case bellman_update v (cidx v c) of None \<Rightarrow> s | Some (cost, act) \<Rightarrow> s\<lparr>total_cost := cost, optimal_action := act\<rparr>)"

lemma put_cell:
  fixes dl :: u64
  assumes wf: "wf_vi v" and c: "in_map v c" and fr: "same_frame v w"
  defines "r \<equiv> fold put_update (cell_updates v c) (w, dl)"
  shows "same_frame w (fst r)" and "in_map v d \<Longrightarrow> state_at (fst r) d = (if d = c then put_state v c (state_at w c) else state_at w d)"
    and "snd r = 0 \<Longrightarrow> dl = 0 \<and> total_cost (put_state v c (state_at w c)) = total_cost (state_at w c)"
proof -
  let ?i = "cidx v c"
  have i: "?i < length (states w)" using cidx_less [OF c] wf same_frame_sel(12) [OF fr] by (simp add: wf_vi_def)
  have r: "r = (case bellman_update v ?i of None \<Rightarrow> (w, dl) | Some (cost, act) \<Rightarrow>
      (w\<lparr>states := (states w)[?i := (state_at w c)\<lparr>total_cost := cost, optimal_action := act\<rparr>]\<rparr>,
       saturating_add dl (abs_diff (total_cost (state_at w c)) cost)))"
    by (simp add: r_def cell_updates_def put_update_def state_at_def same_frame_sel [OF fr] split: option.split prod.split)
  show f: "same_frame w (fst r)"
  proof (cases "bellman_update v ?i")
    case (Some ca)
    obtain cost act where ca: "ca = (cost, act)" by (cases ca)
    let ?sts = "(states w)[?i := (state_at w c)\<lparr>total_cost := cost, optimal_action := act\<rparr>]"
    have "\<exists>v a. ?sts ! k = (states w ! k)\<lparr>total_cost := v, optimal_action := a\<rparr>" if "k < length ?sts" for k
      by (rule exI [of _ "total_cost (?sts ! k)"], rule exI [of _ "optimal_action (?sts ! k)"])
        (use that i same_frame_sel(9) [OF fr] in \<open>simp add: nth_list_update state_at_def\<close>)
    then show ?thesis unfolding r Some ca same_frame_def by (intro exI [of _ ?sts]) simp
  qed (simp add: r)
  show "state_at (fst r) d = (if d = c then put_state v c (state_at w c) else state_at w d)" if d: "in_map v d"
    using i cidx_inj [OF c d] same_frame_sel(9) [OF fr] same_frame_sel(9) [OF f] unfolding r put_state_def
    by (auto simp: state_at_def split: option.splits)
  show "dl = 0 \<and> total_cost (put_state v c (state_at w c)) = total_cost (state_at w c)" if "snd r = 0"
    using that unfolding r put_state_def by (auto split: option.splits)
qed


lemma put_cells:
  assumes "wf_vi v" "\<forall>c\<in>set cs. in_map v c" "same_frame v w" "fold put_update (concat (map (cell_updates v) cs)) (w, dl) = (w', d)"
  shows "same_frame w w' \<and> (\<forall>c. in_map v c \<longrightarrow> state_at w' c = (if c \<in> set cs then put_state v c (state_at w c) else state_at w c)) \<and>
    (d = 0 \<longrightarrow> dl = 0 \<and> (\<forall>c. in_map v c \<longrightarrow> total_cost (state_at w' c) = total_cost (state_at w c)))"
  using assms
proof (induction cs arbitrary: w dl)
  case (Cons c cs)
  obtain u k where u: "fold put_update (cell_updates v c) (w, dl) = (u, k)" by fastforce
  have c: "in_map v c" using Cons.prems by simp
  note one = put_cell [OF Cons.prems(1) c Cons.prems(3), where dl = dl, unfolded u fst_conv snd_conv]
  have IH: "same_frame u w' \<and> (\<forall>c. in_map v c \<longrightarrow> state_at w' c = (if c \<in> set cs then put_state v c (state_at u c) else state_at u c)) \<and>
    (d = 0 \<longrightarrow> k = 0 \<and> (\<forall>c. in_map v c \<longrightarrow> total_cost (state_at w' c) = total_cost (state_at u c)))"
    by (rule Cons.IH) (use Cons.prems u same_frame_trans [OF Cons.prems(3) one(1)] in simp_all)
  have idem: "put_state v e (put_state v e s) = put_state v e s" for e s by (simp add: put_state_def split: option.split prod.split)
  show ?case
  proof (intro conjI allI impI)
    show "same_frame w w'" using one(1) IH by (blast intro: same_frame_trans)
    fix e assume e: "in_map v e"
    show "state_at w' e = (if e \<in> set (c # cs) then put_state v e (state_at w e) else state_at w e)"
      using IH e one(2) [OF e] idem by (cases "e = c"; cases "e \<in> set cs") simp_all
    assume z: "d = 0"
    then have "total_cost (state_at w' e) = total_cost (state_at u e)" "k = 0" using IH e by blast+
    then show "total_cost (state_at w' e) = total_cost (state_at w e)" using one(2) [OF e] one(3) by (cases "e = c") simp_all
  qed (use IH one(3) in blast)
qed simp

lemma put_state_fresh:
  assumes "wf_vi v" "in_map v c" "same_frame v w"
  shows "\<not> policy_invalidated (put_state v c (state_at w c))"
proof -
  obtain x a where s: "state_at w c = (state_at v c)\<lparr>total_cost := x, optimal_action := a\<rparr>" by (rule same_frame_state [OF assms(3,1,2)])
  show ?thesis
  proof (cases "bellman_update v (cidx v c)")
    case None
    then have "\<not> free (state_at v c) \<or> final_state (state_at v c)" using bellman_update_cells [OF assms(1,2)] by (auto split: if_splits)
    then show ?thesis by (auto simp: put_state_def None s policy_invalidated_def)
  next
    case (Some ca)
    obtain cost act where "ca = (cost, act)" by (cases ca)
    with bellman_None [OF assms(1,2)] Some show ?thesis by (cases act) (simp_all add: put_state_def policy_invalidated_def)
  qed
qed

lemma parallel_pass:
  assumes "wf_vi v" "\<forall>c\<in>set cs. in_map v c" "fold put_update (concat (map (cell_updates v) cs)) (v, dl) = (v', d)"
  shows "pass_ok (set cs) v v' (d = 0)"
proof -
  note put = put_cells [OF assms(1,2) same_frame_refl assms(3)]
  have fr: "same_frame v v'" and at: "\<And>c. in_map v c \<Longrightarrow> state_at v' c = (if c \<in> set cs then put_state v c (state_at v c) else state_at v c)"
    and z: "d = 0 \<Longrightarrow> in_map v c \<Longrightarrow> total_cost (state_at v' c) = total_cost (state_at v c)" for c
    using put by blast+
  have "\<not> policy_invalidated (state_at v' c)" if "c \<in> set cs" for c
    using at [of c] put_state_fresh [OF assms(1) _ same_frame_refl] assms(2) that by simp
  moreover have "settled v' c" if c: "c \<in> set cs" and d: "d = 0" for c
  proof -
    have m: "in_map v c" using assms(2) c by blast
    have "bellman_update v' (cidx v c) = bellman_update v (cidx v c)"
      by (rule bellman_cong [OF assms(1) m fr]) (rule z [OF d succs_in_map [OF assms(1)]])
    then show ?thesis unfolding settled_def same_frame_sel(9) [OF fr] at [OF m] using c by (simp add: put_state_def split: option.split prod.split)
  qed
  ultimately show ?thesis unfolding pass_ok_def using fr at z by simp
qed

section \<open>What a local job knows\<close>

definition cert_good :: "value_iterator \<Rightarrow> i32 \<times> i32 \<Rightarrow> bool" where
  "cert_good b = (\<lambda>(x, y). \<forall>t<dim_t b. \<not> policy_invalidated (state_at b (nat x, nat y, t)) \<and> settled (repair_values b) (nat x, nat y, t))"

definition same_statics :: "state \<Rightarrow> state \<Rightarrow> bool" where
  "same_statics s s' \<longleftrightarrow> state_input s = state_input s' \<and> final_state s = final_state s'"

definition job_columns :: "local_job \<Rightarrow> cell set" where
  "job_columns j = set (columns (lj_vi j) (lj_cells j))"

definition local_view :: "local_job \<Rightarrow> value_iterator \<Rightarrow> (i32 \<times> i32) set \<Rightarrow> bool \<Rightarrow> nat \<Rightarrow> nat \<Rightarrow> bool" where
  "local_view j b own same ox oy \<longleftrightarrow>
     lj_origin j = (int ox, int oy) \<and> shifted ox oy (lj_vi j) b \<and> (\<forall>(x, y)\<in>set (lj_cells j). in_map_area (lj_vi j) x y) \<and>
     (\<lambda>(x, y). (x + int ox, y + int oy)) ` set (lj_cells j) = own \<and>
     (\<forall>c\<in>job_columns j. \<forall>d\<in>succs b (shift_cell ox oy c). in_box ox oy (lj_vi j) d) \<and>
     (\<forall>c. in_map (lj_vi j) c \<longrightarrow> same_statics (state_at (lj_vi j) c) (state_at b (shift_cell ox oy c)) \<and>
        (same \<and> c \<notin> job_columns j \<longrightarrow> total_cost (state_at (lj_vi j) c) = total_cost (repair_state (state_at b (shift_cell ox oy c))))) \<and>
     (lj_ran j \<longrightarrow> (\<forall>c\<in>job_columns j. \<not> policy_invalidated (state_at (lj_vi j) c)) \<and>
        (lj_delta j = 0 \<longrightarrow> (\<forall>c\<in>job_columns j. settled (lj_vi j) c)))"

lemma same_frame_statics:
  assumes "same_frame v v'" "wf_vi v" "in_map v c"
  shows "same_statics (state_at v' c) (state_at v c)"
  by (rule same_frame_state [OF assms]) (simp add: same_statics_def state_input_def)

lemma same_statics_trans: "same_statics a b \<Longrightarrow> same_statics b c \<Longrightarrow> same_statics a c"
  and same_statics_sym: "same_statics a b \<Longrightarrow> same_statics b a"
  by (simp_all add: same_statics_def)

lemma frame_shifted: "shifted ox oy v b \<Longrightarrow> same_frame v v' \<Longrightarrow> same_frame b b' \<Longrightarrow> shifted ox oy v' b'"
  using same_frame_wf [of v v'] by (simp add: shifted_def same_frame_sel)

lemma local_view_pass:
  assumes view: "local_view j b own same ox oy" and pass: "pass_ok (job_columns j) (lj_vi j) v' (d = 0)"
    and j': "j' = j\<lparr>lj_vi := v', lj_delta := d, lj_ran := True\<rparr>"
  shows "local_view j' b own same ox oy"
proof -
  let ?v = "lj_vi j"
  have sh: "shifted ox oy ?v b" using view by (simp add: local_view_def)
  have wf: "wf_vi ?v" using sh by (simp add: shifted_def)
  have fr: "same_frame ?v v'" using pass by (simp add: pass_ok_def)
  have cols: "job_columns j' = job_columns j" by (simp add: job_columns_def columns_def j' same_frame_sel [OF fr])
  have box: "in_box ox oy v' = in_box ox oy ?v" by (simp add: fun_eq_iff in_box_def same_frame_sel [OF fr])
  have area: "in_map_area v' = in_map_area ?v" by (simp add: fun_eq_iff in_map_area_def same_frame_sel [OF fr])
  have st: "same_statics (state_at v' c) (state_at b (shift_cell ox oy c)) \<and>
      (same \<and> c \<notin> job_columns j \<longrightarrow> total_cost (state_at v' c) = total_cost (repair_state (state_at b (shift_cell ox oy c))))"
    if c: "in_map ?v c" for c
  proof -
    have "same_statics (state_at ?v c) (state_at b (shift_cell ox oy c)) \<and>
      (same \<and> c \<notin> job_columns j \<longrightarrow> total_cost (state_at ?v c) = total_cost (repair_state (state_at b (shift_cell ox oy c))))"
      using view c unfolding local_view_def by blast
    moreover have "c \<notin> job_columns j \<longrightarrow> state_at v' c = state_at ?v c" using pass c unfolding pass_ok_def by blast
    ultimately show ?thesis using same_statics_trans [OF same_frame_statics [OF fr wf c]] by simp
  qed
  have fresh: "\<forall>c\<in>job_columns j. \<not> policy_invalidated (state_at v' c)" "d = 0 \<longrightarrow> (\<forall>c\<in>job_columns j. settled v' c)"
    using pass unfolding pass_ok_def by blast+
  have sel: "lj_vi j' = v'" "lj_delta j' = d" "lj_ran j'" "lj_cells j' = lj_cells j" "lj_origin j' = lj_origin j" by (simp_all add: j')
  from view have "lj_origin j = (int ox, int oy)" "\<forall>(x, y)\<in>set (lj_cells j). in_map_area ?v x y"
    "(\<lambda>(x, y). (x + int ox, y + int oy)) ` set (lj_cells j) = own" "\<forall>c\<in>job_columns j. \<forall>d\<in>succs b (shift_cell ox oy c). in_box ox oy ?v d"
    unfolding local_view_def by blast+
  with st fresh show ?thesis unfolding local_view_def sel cols box area same_frame_sel(8) [OF fr] using frame_shifted [OF sh fr same_frame_refl] by blast
qed


lemma columns_concat: "concat (map (\<lambda>p. concat (map f (columns v p))) ps) = concat (map f (columns v (concat ps)))"
  by (induction ps) (simp_all add: columns_def)

lemma local_view_run:
  assumes view: "local_view j b own same ox oy"
  shows "local_view (local_run j) b own same ox oy" "local_run_parallel n clock j = Some j' \<Longrightarrow> local_view j' b own same ox oy"
proof -
  let ?v = "lj_vi j" and ?cs = "columns (lj_vi j) (lj_cells j)"
  have wf: "wf_vi ?v" and cells: "\<forall>(x, y)\<in>set (lj_cells j). in_map_area ?v x y" using view by (simp_all add: local_view_def shifted_def)
  note cols = columns_in_map [OF wf cells]
  show run: "local_view (local_run j) b own same ox oy"
  proof (cases "lj_ran j")
    case False
    obtain v' d where r: "relax_sum ?cs (?v, lj_delta j) = (v', d)" by fastforce
    have "pass_ok (job_columns j) ?v v' (d = 0)" unfolding job_columns_def by (rule relax_sum_pass [OF wf cols r])
    moreover have "local_run j = j\<lparr>lj_vi := v', lj_delta := d, lj_ran := True\<rparr>"
      unfolding local_run_def job_fold [OF wf cells] r using False by simp
    ultimately show ?thesis by (rule local_view_pass [OF view])
  qed (use view in \<open>simp add: local_run_def\<close>)
  show "local_view j' b own same ox oy" if par: "local_run_parallel n clock j = Some j'"
  proof -
    let ?parts = "chunks (div_ceil (length (lj_cells j)) n) (lj_cells j)"
    consider "lj_ran j" | "\<not> lj_ran j" "n \<le> 1 \<or> lj_cells j = []" | "\<not> lj_ran j" "\<not> (n \<le> 1 \<or> lj_cells j = [])" by blast
    then show ?thesis
    proof cases
      case 3
      have "0 < div_ceil (length (lj_cells j)) n" using 3 by (cases "lj_cells j") (simp_all add: div_ceil_def div_greater_zero_iff)
      then have parts: "concat ?parts = lj_cells j" by (rule concat_chunks)
      then have "\<forall>p\<in>set ?parts. \<forall>(x, y)\<in>set p. in_map_area ?v x y" using cells by (metis (no_types, lifting) UN_I set_concat)
      then have "concat (map (chunk_updates ?v) ?parts) = concat (map (\<lambda>p. concat (map (cell_updates ?v) (columns ?v p))) ?parts)"
        using chunk_updates_cells [OF wf] by (intro arg_cong [of _ _ concat] map_cong [OF refl]) blast
      also have "\<dots> = concat (map (cell_updates ?v) (columns ?v (concat ?parts)))"
        by (rule columns_concat)
      finally have ups: "concat (map (chunk_updates ?v) ?parts) = concat (map (cell_updates ?v) ?cs)" unfolding parts .
      obtain v' d where r: "fold put_update (concat (map (cell_updates ?v) ?cs)) (?v, lj_delta j) = (v', d)" by fastforce
      have "pass_ok (job_columns j) ?v v' (d = 0)" unfolding job_columns_def by (rule parallel_pass [OF wf cols r])
      moreover have "j' = j\<lparr>lj_vi := v', lj_delta := d, lj_ran := True\<rparr>"
        using par 3 unfolding local_run_parallel_def Let_def ups r by (simp split: if_splits)
      ultimately show ?thesis by (rule local_view_pass [OF view])
    qed (use par view run in \<open>simp_all add: local_run_parallel_def\<close>)
  qed
qed

lemma local_view_evolve:
  assumes view: "local_view j b own same ox oy" and wf: "wf_vi b" and fr: "same_frame b b'"
    and same: "same' \<Longrightarrow> same" "\<And>x y t. same' \<Longrightarrow> in_map b (x, y, t) \<Longrightarrow> (int x, int y) \<notin> own \<Longrightarrow> state_at b' (x, y, t) = state_at b (x, y, t)"
  shows "local_view j b' own same' ox oy"
proof -
  let ?v = "lj_vi j"
  have sh: "shifted ox oy ?v b" and cells: "\<forall>(x, y)\<in>set (lj_cells j). in_map_area ?v x y"
    and own: "(\<lambda>(x, y). (x + int ox, y + int oy)) ` set (lj_cells j) = own" using view unfolding local_view_def by blast+
  have st: "same_statics (state_at ?v c) (state_at b' (shift_cell ox oy c)) \<and>
      (same' \<and> c \<notin> job_columns j \<longrightarrow> total_cost (state_at ?v c) = total_cost (repair_state (state_at b' (shift_cell ox oy c))))"
    if c: "in_map ?v c" for c
  proof -
    have old: "same_statics (state_at ?v c) (state_at b (shift_cell ox oy c)) \<and>
      (same \<and> c \<notin> job_columns j \<longrightarrow> total_cost (state_at ?v c) = total_cost (repair_state (state_at b (shift_cell ox oy c))))"
      using view c unfolding local_view_def by blast
    note m = shift_in_map [OF sh c]
    have "state_at b' (shift_cell ox oy c) = state_at b (shift_cell ox oy c)" if s: "same'" and nc: "c \<notin> job_columns j"
    proof -
      obtain x y t where xyt: "c = (x, y, t)" by (cases c)
      have t: "t < dim_t ?v" using c xyt by simp
      have "(int x, int y) \<notin> set (lj_cells j)" using nc columns_iff [OF cells, of x y t] t unfolding job_columns_def xyt by blast
      then have "(int x + int ox, int y + int oy) \<notin> own" unfolding own [symmetric] by auto
      then show ?thesis using same(2) [OF s, of "x + ox" "y + oy" t] m unfolding xyt shift_cell_def prod.case by simp
    qed
    then show ?thesis using old same(1) same_statics_trans [OF _ same_statics_sym [OF same_frame_statics [OF fr wf m]]] by simp
  qed
  have "shifted ox oy ?v b'" by (rule frame_shifted [OF sh same_frame_refl fr])
  then show ?thesis using view st unfolding local_view_def same_frame_sel(11) [OF fr] by blast
qed


section \<open>Publishing columns\<close>

lemma usize_headings:
  assumes "wf_vi v"
  shows "usize_of (cell_num_t v) = dim_t v"
proof -
  have "dim_t v \<le> dim_x v * dim_y v * dim_t v" using wf_dims_pos [OF assms] by simp
  then have "dim_t v < 2 ^ 31" using wf_dims_pos(4) [OF assms] by linarith
  then show ?thesis by (simp add: usize_of_int flip: int_dims(3) [OF assms])
qed

definition put_values :: "state \<Rightarrow> state \<Rightarrow> state" where
  "put_values n s = s\<lparr>total_cost := total_cost n, optimal_action := optimal_action n\<rparr>"

lemma copy_column_nth:
  "length (copy_column src dst nt new sts) = length sts \<and> (\<forall>i<length sts. copy_column src dst nt new sts ! i =
     (if dst \<le> i \<and> i < dst + nt then put_values (new ! (src + (i - dst))) (sts ! i) else sts ! i))"
proof (induction nt)
  case (Suc nt)
  let ?c = "copy_column src dst nt new sts"
  have "copy_column src dst (Suc nt) new sts = ?c[dst + nt := put_values (new ! (src + nt)) (?c ! (dst + nt))]"
    by (simp add: copy_column_def put_values_def Let_def)
  moreover have "dst \<le> i \<and> i < dst + Suc nt \<longleftrightarrow> dst \<le> i \<and> i < dst + nt \<or> i = dst + nt" for i by auto
  ultimately show ?case using Suc by (simp add: nth_list_update)
qed (auto simp: copy_column_def)

lemma copy_column_cells:
  fixes src :: nat and new :: "state list"
  assumes wf: "wf_vi b" and area: "in_map_area b gx gy"
  defines "F \<equiv> b\<lparr>states := copy_column src (usize_of (to_index b gx gy 0)) (dim_t b) new (states b)\<rparr>"
  shows "same_frame b F" and "in_map b (x, y, t) \<Longrightarrow> state_at F (x, y, t) =
    (if int x = gx \<and> int y = gy then put_values (new ! (src + t)) (state_at b (x, y, t)) else state_at b (x, y, t))"
proof -
  let ?sts = "copy_column src (usize_of (to_index b gx gy 0)) (dim_t b) new (states b)"
  have dst: "usize_of (to_index b gx gy 0) = cidx b (nat gx, nat gy, 0)"
    using to_index_area(1) [OF wf area, of 0] wf by (simp add: wf_vi_def del: cidx.simps)
  note nth = copy_column_nth [of src "cidx b (nat gx, nat gy, 0)" "dim_t b" new "states b"]
  have "\<exists>v a. ?sts ! i = (states b ! i)\<lparr>total_cost := v, optimal_action := a\<rparr>" if "i < length ?sts" for i
    by (rule exI [of _ "total_cost (?sts ! i)"], rule exI [of _ "optimal_action (?sts ! i)"])
      (use that nth in \<open>simp add: dst put_values_def del: cidx.simps\<close>)
  then show fr: "same_frame b F" unfolding same_frame_def F_def using nth unfolding dst [symmetric] by (intro exI [of _ ?sts]) simp
  show "state_at F (x, y, t) = (if int x = gx \<and> int y = gy then put_values (new ! (src + t)) (state_at b (x, y, t)) else state_at b (x, y, t))"
    if c: "in_map b (x, y, t)"
  proof -
    let ?i = "cidx b (x, y, t)" and ?d = "cidx b (nat gx, nat gy, 0)"
    have i: "?i < length (states b)" using cidx_less [OF c] wf by (simp add: wf_vi_def)
    have g: "in_map b (nat gx, nat gy, t)" "0 \<le> gx" "0 \<le> gy" using c area by (auto simp: in_map_area_def dim_x_def dim_y_def)
    have "?d \<le> ?i \<and> ?i < ?d + dim_t b \<longleftrightarrow> int x = gx \<and> int y = gy"
    proof
      assume r: "?d \<le> ?i \<and> ?i < ?d + dim_t b"
      define k where "k = ?i - ?d"
      have k: "k < dim_t b" "?i = cidx b (nat gx, nat gy, k)" using r by (auto simp: k_def)
      have "in_map b (nat gx, nat gy, k)" using g(1) k(1) by simp
      then have "(x, y, t) = (nat gx, nat gy, k)" using cidx_inj [OF c] k(2) by blast
      then show "int x = gx \<and> int y = gy" using g by auto
    qed (use c in auto)
    moreover have "?i - ?d = t" if "int x = gx \<and> int y = gy" using that by auto
    moreover have "state_at F (x, y, t) = ?sts ! ?i" unfolding state_at_def same_frame_sel(9) [OF fr] by (simp add: F_def)
    moreover have "?sts ! ?i = (if ?d \<le> ?i \<and> ?i < ?d + dim_t b then put_values (new ! (src + (?i - ?d))) (states b ! ?i) else states b ! ?i)"
      unfolding dst using nth i by blast
    ultimately show ?thesis unfolding state_at_def by (cases "int x = gx \<and> int y = gy") (simp_all only: if_True if_False)
  qed
qed

lemma put_values_frame:
  assumes "same_frame b b'" "wf_vi b" "in_map b c"
  shows "put_values n (state_at b' c) = put_values n (state_at b c)"
  by (rule same_frame_state [OF assms]) (simp add: put_values_def)

lemma shifted_area:
  assumes "shifted ox oy v b" "wf_vi b" "in_map_area v x y"
  shows "in_map_area b (x + int ox) (y + int oy)"
proof -
  have wf: "wf_vi v" and "int (ox + dim_x v) \<le> int (dim_x b)" "int (oy + dim_y v) \<le> int (dim_y b)"
    using assms(1) by (simp_all only: shifted_def of_nat_le_iff)
  then have "int ox + cell_num_x v \<le> cell_num_x b" "int oy + cell_num_y v \<le> cell_num_y b"
    using int_dims [OF wf] int_dims [OF assms(2)] by linarith+
  then show ?thesis using assms(3) by (simp add: in_map_area_def)
qed

text \<open>The cells of a local job take the values of the job, the others keep theirs.\<close>

lemma commit_local_cells:
  assumes "wf_vi (base vi)" "shifted ox oy (lj_vi j) (base vi)" "lj_origin j = (int ox, int oy)"
    and "\<forall>(x, y)\<in>set cells. in_map_area (lj_vi j) x y" "fold (commit_local_cell j) cells (vi, ch) = (vi', ch')"
  shows "vi' = vi\<lparr>base := base vi'\<rparr> \<and> same_frame (base vi) (base vi') \<and>
    (\<forall>c. in_map (lj_vi j) c \<longrightarrow> state_at (base vi') (shift_cell ox oy c) =
       (if c \<in> set (columns (lj_vi j) cells) then put_values (state_at (lj_vi j) c) (state_at (base vi) (shift_cell ox oy c))
        else state_at (base vi) (shift_cell ox oy c))) \<and>
    (\<forall>d. in_map (base vi) d \<and> \<not> in_box ox oy (lj_vi j) d \<longrightarrow> state_at (base vi') d = state_at (base vi) d)"
  using assms
proof (induction cells arbitrary: vi ch)
  case (Cons p cells)
  let ?v = "lj_vi j" and ?b = "base vi"
  obtain px py where p: "p = (px, py)" by (cases p)
  have wfv: "wf_vi ?v" and dt: "dim_t ?b = dim_t ?v" using Cons.prems(2) by (simp_all add: shifted_def dim_t_def)
  note nt = usize_headings [OF wfv]
  have pv: "in_map_area ?v px py" using Cons.prems(4) by (simp add: p)
  have pb: "in_map_area ?b (px + int ox) (py + int oy)"
    by (rule shifted_area [OF Cons.prems(2,1) pv])
  define F where "F = ?b\<lparr>states := copy_column (usize_of (to_index ?v px py 0)) (usize_of (to_index ?b (px + int ox) (py + int oy) 0)) (dim_t ?b)
    (states ?v) (states ?b)\<rparr>"
  note F = copy_column_cells [OF Cons.prems(1) pb, where src = "usize_of (to_index ?v px py 0)" and new = "states ?v", folded F_def]
  obtain ch1 where step: "commit_local_cell j p (vi, ch) = (vi\<lparr>base := F\<rparr>, ch1)"
    using Cons.prems(3) by (simp add: commit_local_cell_def p Let_def nt F_def dt)
  have rest: "fold (commit_local_cell j) cells (vi\<lparr>base := F\<rparr>, ch1) = (vi', ch')" using Cons.prems(5) by (simp add: step)
  have sh: "shifted ox oy ?v F" by (rule frame_shifted [OF Cons.prems(2) same_frame_refl F(1)])
  have IH: "vi' = (vi\<lparr>base := F\<rparr>)\<lparr>base := base vi'\<rparr> \<and> same_frame F (base vi') \<and>
    (\<forall>c. in_map ?v c \<longrightarrow> state_at (base vi') (shift_cell ox oy c) =
       (if c \<in> set (columns ?v cells) then put_values (state_at ?v c) (state_at F (shift_cell ox oy c)) else state_at F (shift_cell ox oy c))) \<and>
    (\<forall>d. in_map F d \<and> \<not> in_box ox oy ?v d \<longrightarrow> state_at (base vi') d = state_at F d)"
    using Cons.IH [OF _ _ Cons.prems(3) _ rest] same_frame_wf [OF F(1) Cons.prems(1)] sh Cons.prems(4) by simp
  have at: "state_at F (shift_cell ox oy c) = (if c \<in> set (columns ?v [p]) then put_values (state_at ?v c) (state_at ?b (shift_cell ox oy c))
      else state_at ?b (shift_cell ox oy c))" if c: "in_map ?v c" for c
  proof -
    obtain x y t where xyt: "c = (x, y, t)" by (cases c)
    have m: "in_map ?b (x + ox, y + oy, t)" using shift_in_map [OF Cons.prems(2) c] by (simp add: xyt shift_cell_def)
    have "usize_of (to_index ?v px py 0) = cidx ?v (nat px, nat py, 0)"
      using to_index_area(1) [OF wfv pv, of 0] wfv by (simp add: wf_vi_def del: cidx.simps)
    then have "states ?v ! (usize_of (to_index ?v px py 0) + t) = state_at ?v (nat px, nat py, t)" by (simp add: state_at_def)
    moreover have "c \<in> set (columns ?v [p]) \<longleftrightarrow> int x = px \<and> int y = py"
      unfolding xyt using columns_iff [of "[p]" ?v x y t] pv c by (auto simp: p xyt)
    ultimately show ?thesis unfolding xyt shift_cell_def prod.case F(2) [OF m] by auto
  qed
  have cols: "set (columns ?v (p # cells)) = set (columns ?v [p]) \<union> set (columns ?v cells)" by (simp add: columns_def)
  have "put_values n (put_values n s) = put_values n s" for n s :: state by (simp add: put_values_def)
  then have one: "state_at (base vi') (shift_cell ox oy c) =
      (if c \<in> set (columns ?v (p # cells)) then put_values (state_at ?v c) (state_at ?b (shift_cell ox oy c)) else state_at ?b (shift_cell ox oy c))"
    if c: "in_map ?v c" for c
    using IH c at [OF c] unfolding cols by simp
  have two: "state_at (base vi') d = state_at ?b d" if d: "in_map ?b d" "\<not> in_box ox oy ?v d" for d
  proof -
    obtain x y t where xyt: "d = (x, y, t)" by (cases d)
    have "\<not> (int x = px + int ox \<and> int y = py + int oy)"
    proof
      assume e: "int x = px + int ox \<and> int y = py + int oy"
      then have "d = shift_cell ox oy (nat px, nat py, t)" "in_map ?v (nat px, nat py, t)"
        using pv d(1) dt by (auto simp: xyt shift_cell_def in_map_area_def dim_x_def dim_y_def)
      then show False using d(2) by simp
    qed
    then have "state_at F d = state_at ?b d" using F(2) [OF d(1) [unfolded xyt]] unfolding xyt by (simp only: if_False)
    moreover have "state_at (base vi') d = state_at F d" using IH d unfolding same_frame_sel(8) [OF F(1)] by blast
    ultimately show ?thesis by simp
  qed
  have "same_frame ?b (base vi')" using same_frame_trans [OF F(1)] IH by blast
  moreover have "vi' = vi\<lparr>base := base vi'\<rparr>" using IH by simp
  ultimately show ?case using one two by blast
qed (simp add: columns_def)


lemma invalidated_put: "same_statics n s \<Longrightarrow> policy_invalidated (put_values n s) \<longleftrightarrow> policy_invalidated n"
  by (simp add: same_statics_def state_input_def put_values_def policy_invalidated_def)

lemma commit_certifies:
  assumes wf: "wf_vi (base vi)" and view: "local_view j (base vi) own True ox oy" and ran: "lj_ran j" "lj_delta j = 0"
    and commit: "fold (commit_local_cell j) (lj_cells j) (vi, []) = (vi', ch)" and p: "p \<in> own"
  shows "cert_good (base vi') p"
proof -
  let ?v = "lj_vi j" and ?b = "base vi" and ?F = "base vi'"
  have sh: "shifted ox oy ?v ?b" and org: "lj_origin j = (int ox, int oy)" and cells: "\<forall>(x, y)\<in>set (lj_cells j). in_map_area ?v x y"
    and own: "(\<lambda>(x, y). (x + int ox, y + int oy)) ` set (lj_cells j) = own"
    and box: "\<forall>c\<in>job_columns j. \<forall>d\<in>succs ?b (shift_cell ox oy c). in_box ox oy ?v d"
    and st: "\<And>c. in_map ?v c \<Longrightarrow> same_statics (state_at ?v c) (state_at ?b (shift_cell ox oy c))"
    and tot: "\<And>c. in_map ?v c \<Longrightarrow> c \<notin> job_columns j \<Longrightarrow> total_cost (state_at ?v c) = total_cost (repair_state (state_at ?b (shift_cell ox oy c)))"
    and fresh: "\<forall>c\<in>job_columns j. \<not> policy_invalidated (state_at ?v c)" and settled: "\<forall>c\<in>job_columns j. settled ?v c"
    using view ran unfolding local_view_def by blast+
  have wfv: "wf_vi ?v" using sh by (simp add: shifted_def)
  have fr: "same_frame ?b ?F" and at: "\<And>c. in_map ?v c \<Longrightarrow> state_at ?F (shift_cell ox oy c) =
      (if c \<in> job_columns j then put_values (state_at ?v c) (state_at ?b (shift_cell ox oy c)) else state_at ?b (shift_cell ox oy c))"
    using commit_local_cells [OF wf sh org cells commit] unfolding job_columns_def by blast+
  have wfF: "wf_vi ?F" by (rule same_frame_wf [OF fr wf])
  let ?R = "repair_values ?F"
  have shR: "shifted ox oy ?v ?R" by (rule frame_shifted [OF sh same_frame_refl same_frame_trans [OF fr repair_frame]])
  have stale: "\<not> policy_invalidated (state_at ?F (shift_cell ox oy c))" if "in_map ?v c" "c \<in> job_columns j" for c
    using at [OF that(1)] that fresh invalidated_put [OF st [OF that(1)]] by simp
  have Rat: "state_at ?R (shift_cell ox oy c) = repair_state (state_at ?F (shift_cell ox oy c))" if "in_map ?v c" for c
    by (rule repair_at [OF wfF]) (use shift_in_map [OF sh that] same_frame_sel(8) [OF fr] in simp)
  have Rfresh: "state_at ?R (shift_cell ox oy c) = put_values (state_at ?v c) (state_at ?b (shift_cell ox oy c))"
    if c: "in_map ?v c" and cc: "c \<in> job_columns j" for c
  proof -
    have "state_at ?R (shift_cell ox oy c) = state_at ?F (shift_cell ox oy c)" unfolding Rat [OF c] by (rule repair_state_id [OF stale [OF c cc]])
    then show ?thesis using at [OF c] cc by simp
  qed
  have view': "same_view (state_at ?v c) (state_at ?R (shift_cell ox oy c)) \<and> final_state (state_at ?v c) = final_state (state_at ?R (shift_cell ox oy c))"
    if c: "in_map ?v c" for c
  proof (cases "c \<in> job_columns j")
    case True
    then show ?thesis unfolding Rfresh [OF c True]
      using st [OF c] by (simp add: same_view_def same_statics_def state_input_def put_values_def)
  next
    case False
    then show ?thesis unfolding Rat [OF c] at [OF c] using st [OF c] tot [OF c False]
      by (simp add: same_view_def same_statics_def state_input_def)
  qed
  obtain x y where xy: "(x, y) \<in> set (lj_cells j)" and pxy: "p = (x + int ox, y + int oy)" using p own by auto
  have nn: "0 \<le> x" "0 \<le> y" using cells xy by (auto simp: in_map_area_def)
  have "\<not> policy_invalidated (state_at ?F (nat (x + int ox), nat (y + int oy), t)) \<and> settled ?R (nat (x + int ox), nat (y + int oy), t)"
    if t: "t < dim_t ?F" for t
  proof -
    let ?c = "(nat x, nat y, t)"
    have t': "t < dim_t ?v" using t sh by (simp add: same_frame_sel [OF fr] shifted_def dim_t_def)
    have cc: "?c \<in> job_columns j" unfolding job_columns_def using columns_iff [OF cells, of "nat x" "nat y" t] xy nn t' by simp
    then have c: "in_map ?v ?c" using columns_in_map [OF wfv cells] unfolding job_columns_def by blast
    have e: "shift_cell ox oy ?c = (nat (x + int ox), nat (y + int oy), t)" using nn by (simp add: shift_cell_def nat_add_distrib)
    have box': "d \<in> succs ?R (shift_cell ox oy ?c) \<Longrightarrow> in_box ox oy ?v d" for d
      using box cc unfolding repair_sel(11) same_frame_sel(11) [OF fr] by blast
    have "bellman_update ?v (cidx ?v ?c) = bellman_update ?R (cidx ?R (shift_cell ox oy ?c))"
      by (rule shift_bellman [OF shR repair_wf [OF wfF] c box']) (use view' c in \<open>simp_all add: same_view_def state_input_def del: in_map.simps\<close>)
    then have "settled ?R (shift_cell ox oy ?c)" using settled cc Rfresh [OF c cc] unfolding settled_def by (auto simp: put_values_def split: option.splits)
    then show ?thesis using stale [OF c cc] unfolding e by blast
  qed
  then show ?thesis unfolding cert_good_def pxy by simp
qed

section \<open>Taking a local job\<close>

lemma le_fold_max: "(x :: int) \<in> set xs \<or> x \<le> m \<Longrightarrow> x \<le> fold max xs m"
proof (induction xs arbitrary: m)
  case (Cons y xs)
  have "x \<in> set xs \<or> x \<le> max y m" using Cons.prems by auto
  then have "x \<le> fold max xs (max y m)" by (rule Cons.IH)
  then show ?case by simp
qed simp

lemma reach_nonneg: "0 \<le> transition_reach b"
  unfolding transition_reach_def by (rule le_fold_max) simp

lemma reach_bound:
  assumes "wf_vi b" "in_map b c" "d \<in> succs b c"
  shows "\<bar>int (fst d) - int (fst c)\<bar> \<le> transition_reach b" "\<bar>int (fst (snd d)) - int (fst (snd c))\<bar> \<le> transition_reach b"
proof -
  obtain a tr where a: "a \<in> set (actions b)" "tr \<in> set (state_transitions a ! snd (snd c))" "succ_cell b tr c = Some d"
    using assms(3) by (auto simp: succs_def action_succs_def)
  have "snd (snd c) < dim_t b" using assms(2) by (cases c) simp
  then have "snd (snd c) < length (state_transitions a)" using a(1) assms(1) by (auto simp: wf_vi_def list_all_iff wf_action_def)
  then have "state_transitions a ! snd (snd c) \<in> set (state_transitions a)" by simp
  then have "max \<bar>dix tr\<bar> \<bar>diy tr\<bar> \<in> set (concat (map (\<lambda>a. map (\<lambda>t. max \<bar>dix t\<bar> \<bar>diy t\<bar>) (concat (state_transitions a))) (actions b)))"
    using a(1,2) by auto
  then have "max \<bar>dix tr\<bar> \<bar>diy tr\<bar> \<le> transition_reach b" unfolding transition_reach_def by (intro le_fold_max disjI1)
  then show "\<bar>int (fst d) - int (fst c)\<bar> \<le> transition_reach b" "\<bar>int (fst (snd d)) - int (fst (snd c))\<bar> \<le> transition_reach b"
    using a(3) by (auto simp: succ_cell_def Let_def split: prod.splits if_splits)
qed


lemma window_cells_iff:
  "(x, y) \<in> set (window_cells vi) \<longleftrightarrow> in_local_area vi x y"
  by (auto simp: window_cells_def in_local_area_def image_iff)

lemma repaired_snapshot:
  assumes wf: "wf_vi b" and x: "X0 \<le> X1" "X1 < dim_x b" and y: "Y0 \<le> Y1" "Y1 < dim_y b"
  defines "v \<equiv> repair_values (snapshot b (int X0) (int X1) (int Y0) (int Y1))"
  shows "shifted X0 Y0 v b" "dim_x v = X1 - X0 + 1" "dim_y v = Y1 - Y0 + 1" "dim_t v = dim_t b"
    and "in_map v c \<Longrightarrow> same_statics (state_at v c) (state_at b (shift_cell X0 Y0 c)) \<and>
      total_cost (state_at v c) = total_cost (repair_state (state_at b (shift_cell X0 Y0 c)))"
proof -
  let ?s = "snapshot b (int X0) (int X1) (int Y0) (int Y1)"
  note snap = snapshot_shifted [OF wf x y]
  show sh: "shifted X0 Y0 v b" unfolding v_def by (rule frame_shifted [OF snap(1) repair_frame same_frame_refl])
  show "dim_x v = X1 - X0 + 1" "dim_y v = Y1 - Y0 + 1" "dim_t v = dim_t b"
    using snap(1-3) by (simp_all add: v_def repair_sel shifted_def dim_t_def)
  show "same_statics (state_at v c) (state_at b (shift_cell X0 Y0 c)) \<and>
      total_cost (state_at v c) = total_cost (repair_state (state_at b (shift_cell X0 Y0 c)))" if c: "in_map v c"
  proof -
    obtain i j t where ijt: "c = (i, j, t)" by (cases c)
    have m: "in_map ?s (i, j, t)" using c unfolding v_def repair_sel(8) ijt .
    have wfs: "wf_vi ?s" using snap(1) by (simp add: shifted_def)
    have "state_at v c = repair_state ((state_at b (shift_cell X0 Y0 c))\<lparr>st_ix := int i, st_iy := int j\<rparr>)"
      unfolding v_def ijt repair_at [OF wfs m] snap(4) [OF m] shift_cell_def prod.case ..
    then show ?thesis by (simp add: same_statics_def state_input_def repair_state_def policy_invalidated_def)
  qed
qed

text \<open>The job covers the owned cells, and its margin all their successors.\<close>

lemma prepared_view:
  assumes wf: "wf_vi (base vi)" and own: "own = {(x, y) \<in> set (window_cells vi). in_map_area (base vi) x y}" "own \<noteq> {}"
    and x0: "x0 = max (local_ix_min vi - transition_reach (base vi)) 0" and y0: "y0 = max (local_iy_min vi - transition_reach (base vi)) 0"
    and x1: "x1 = min (local_ix_max vi + transition_reach (base vi)) (cell_num_x (base vi) - 1)"
    and y1: "y1 = min (local_iy_max vi + transition_reach (base vi)) (cell_num_y (base vi) - 1)"
    and cells: "cells = concat (map (\<lambda>x. concat (map (\<lambda>y.
       if in_local_area vi x y \<and> (x, y) \<in> own then [(x - x0, y - y0)] else []) [local_iy_min vi..local_iy_max vi])) [local_ix_min vi..local_ix_max vi])"
    and j: "lj_vi j = repair_values (snapshot (base vi) x0 x1 y0 y1)" "lj_origin j = (x0, y0)" "lj_cells j = cells" "\<not> lj_ran j"
  shows "local_view j (base vi) own True (nat x0) (nat y0)"
proof -
  let ?b = "base vi" and ?r = "transition_reach (base vi)"
  note rn = reach_nonneg [of ?b]
  have inside: "local_ix_min vi \<le> x" "x \<le> local_ix_max vi" "local_iy_min vi \<le> y" "y \<le> local_iy_max vi" "in_local_area vi x y" "in_map_area ?b x y"
    if "(x, y) \<in> own" for x y
    using that unfolding own by (auto simp: window_cells_iff) (auto simp: in_local_area_def)
  obtain p q where pq: "(p, q) \<in> own" using own(2) by auto
  note w = inside [OF pq]
  have bnd: "0 \<le> x0" "x0 \<le> p" "p \<le> x1" "x1 < cell_num_x ?b" "0 \<le> y0" "y0 \<le> q" "q \<le> y1" "y1 < cell_num_y ?b"
    using w rn by (auto simp: x0 y0 x1 y1 in_map_area_def)
  have X: "nat x0 \<le> nat x1" "nat x1 < dim_x ?b" "nat y0 \<le> nat y1" "nat y1 < dim_y ?b" using bnd by (auto simp: dim_x_def dim_y_def)
  have e: "int (nat x0) = x0" "int (nat x1) = x1" "int (nat y0) = y0" "int (nat y1) = y1" using bnd by simp_all
  note snap = repaired_snapshot [OF wf X, unfolded e, folded j(1)]
  let ?v = "lj_vi j"
  have wfv: "wf_vi ?v" using snap(1) by (simp add: shifted_def)
  have dims: "cell_num_x ?v = x1 - x0 + 1" "cell_num_y ?v = y1 - y0 + 1" using int_dims [OF wfv, symmetric] snap(2,3) bnd by simp_all
  have set_cells: "set cells = (\<lambda>(x, y). (x - x0, y - y0)) ` own"
    unfolding cells using inside by (auto simp: image_iff)
  have "in_map_area ?v (x - x0) (y - y0)" if "(x, y) \<in> own" for x y
    using inside [OF that] rn by (auto simp: in_map_area_def dims x0 y0 x1 y1)
  then have area: "\<forall>(x, y)\<in>set (lj_cells j). in_map_area ?v x y" unfolding j(3) set_cells by auto
  have img: "(\<lambda>(x, y). (x + int (nat x0), y + int (nat y0))) ` set (lj_cells j) = own"
    unfolding j(3) set_cells image_image e by (simp add: split_def)
  have box: "in_box (nat x0) (nat y0) ?v d" if c: "c \<in> job_columns j" and d: "d \<in> succs ?b (shift_cell (nat x0) (nat y0) c)" for c d
  proof -
    obtain a b t where abt: "c = (a, b, t)" by (cases c)
    obtain a' b' t' where d': "d = (a', b', t')" by (cases d)
    have "(int a, int b) \<in> set (lj_cells j)" "t < dim_t ?v" using c columns_iff [OF area, of a b t] unfolding job_columns_def abt by blast+
    then have o: "(int a + x0, int b + y0) \<in> own" using img e by force
    have m: "in_map ?b (shift_cell (nat x0) (nat y0) c)"
      using columns_in_map [OF wfv area] c shift_in_map [OF snap(1)] unfolding job_columns_def by blast
    have "\<bar>int a' - (int a + x0)\<bar> \<le> ?r" "\<bar>int b' - (int b + y0)\<bar> \<le> ?r"
      using reach_bound [OF wf m d] e by (simp_all add: abt d' shift_cell_def)
    moreover have "in_map ?b d" by (rule succs_in_map [OF wf d])
    ultimately have "x0 \<le> int a'" "int a' \<le> x1" "y0 \<le> int b'" "int b' \<le> y1" "t' < dim_t ?b"
      using inside [OF o] int_dims [OF wf, symmetric] by (auto simp: x0 y0 x1 y1 d')
    then have "nat x0 \<le> a'" "a' \<le> nat x1" "nat y0 \<le> b'" "b' \<le> nat y1" "t' < dim_t ?b" by simp_all
    then have "in_map ?v (a' - nat x0, b' - nat y0, t')" "d = shift_cell (nat x0) (nat y0) (a' - nat x0, b' - nat y0, t')"
      using snap(2-4) by (auto simp: d' shift_cell_def less_Suc_eq_le diff_le_mono)
    then show ?thesis unfolding in_box_def by blast
  qed
  show ?thesis unfolding local_view_def using snap(1,5) area img box j(2,4) e by auto
qed

end
