(* ===== verification/Refine.thy ===== *)
theory Refine
  imports Certificate
begin

text \<open>
  One refinement pass over the window (\<open>refine_pass_until\<close>): outside the window it leaves no trace, and a
  complete pass that moves no value makes every cell of the window good.
\<close>

section \<open>Hiding and restoring stale values\<close>

lemma repair_fresh [simp]: "\<not> policy_invalidated (repair_state s)" "repair_state (repair_state s) = repair_state s"
  by (simp_all add: repair_state_def policy_invalidated_def)

lemma hide_stale_eq:
  "i < length sts \<Longrightarrow> hide_stale (i, out) (sts, bnd) = (sts[i := repair_state (sts ! i)],
     if policy_invalidated (sts ! i) \<and> out then bnd @ [(i, total_cost (sts ! i))] else bnd)"
  by (simp add: hide_stale_def repair_state_def Let_def)

lemma hide_fold:
  assumes "\<forall>p\<in>set ps. fst p < length sts" "fold hide_stale ps (sts, bnd) = (H, B)"
  shows "length H = length sts \<and> (\<forall>i<length sts. H ! i = (if i \<in> fst ` set ps then repair_state (sts ! i) else sts ! i)) \<and>
    (\<exists>L. B = bnd @ L \<and> (\<forall>e\<in>set L. (fst e, True) \<in> set ps \<and> snd e = total_cost (sts ! fst e) \<and> policy_invalidated (sts ! fst e)) \<and>
       (\<forall>i<length sts. (i, True) \<in> set ps \<and> (i, False) \<notin> set ps \<and> policy_invalidated (sts ! i) \<longrightarrow> i \<in> fst ` set L))"
  using assms
proof (induction ps arbitrary: sts bnd)
  case (Cons p ps)
  obtain i out where p: "p = (i, out)" by (cases p)
  have i: "i < length sts" using Cons.prems(1) by (simp add: p)
  define sts1 where "sts1 = sts[i := repair_state (sts ! i)]"
  define L1 where "L1 = (if policy_invalidated (sts ! i) \<and> out then [(i, total_cost (sts ! i))] else [])"
  have e: "hide_stale p (sts, bnd) = (sts1, bnd @ L1)" unfolding p hide_stale_eq [OF i] sts1_def L1_def by simp
  have at: "sts1 ! k = (if k = i then repair_state (sts ! i) else sts ! k)" if "k < length sts" for k
    using that by (simp add: sts1_def)
  have len: "length sts1 = length sts" by (simp add: sts1_def)
  from Cons.IH [of sts1 "bnd @ L1"] Cons.prems e len obtain L2 where H: "length H = length sts"
      "\<forall>k<length sts. H ! k = (if k \<in> fst ` set ps then repair_state (sts1 ! k) else sts1 ! k)"
    and B: "B = (bnd @ L1) @ L2"
      "\<forall>e\<in>set L2. (fst e, True) \<in> set ps \<and> snd e = total_cost (sts1 ! fst e) \<and> policy_invalidated (sts1 ! fst e)"
      "\<forall>k<length sts. (k, True) \<in> set ps \<and> (k, False) \<notin> set ps \<and> policy_invalidated (sts1 ! k) \<longrightarrow> k \<in> fst ` set L2"
    by auto
  have bound: "fst q < length sts" if "q \<in> set ps" for q using Cons.prems(1) that by simp
  have L2: "(fst e, True) \<in> set (p # ps) \<and> snd e = total_cost (sts ! fst e) \<and> policy_invalidated (sts ! fst e)" if "e \<in> set L2" for e
  proof -
    have b: "(fst e, True) \<in> set ps" "snd e = total_cost (sts1 ! fst e)" "policy_invalidated (sts1 ! fst e)" using B(2) that by blast+
    have "fst e < length sts" using bound [OF b(1)] by simp
    from at [OF this] b show ?thesis by (cases "fst e = i") simp_all
  qed
  have L1: "(fst e, True) \<in> set (p # ps) \<and> snd e = total_cost (sts ! fst e) \<and> policy_invalidated (sts ! fst e)" if "e \<in> set L1" for e
    using that by (auto simp: L1_def p split: if_splits)
  have hit: "k \<in> fst ` set (L1 @ L2)"
    if k: "k < length sts" "(k, True) \<in> set (p # ps)" "(k, False) \<notin> set (p # ps)" "policy_invalidated (sts ! k)" for k
  proof (cases "k = i")
    case True
    then have out using k(3) by (cases out) (simp_all add: p)
    then show ?thesis using k(4) True by (simp add: L1_def)
  next
    case False
    then show ?thesis using B(3) k at [OF k(1)] by (auto simp: p)
  qed
  have "H ! k = (if k \<in> fst ` set (p # ps) then repair_state (sts ! k) else sts ! k)" if "k < length sts" for k
    using H(2) at [OF that] that by (cases "k = i") (simp_all add: p)
  moreover have "\<exists>L. B = bnd @ L \<and> (\<forall>e\<in>set L. (fst e, True) \<in> set (p # ps) \<and> snd e = total_cost (sts ! fst e) \<and> policy_invalidated (sts ! fst e)) \<and>
      (\<forall>i<length sts. (i, True) \<in> set (p # ps) \<and> (i, False) \<notin> set (p # ps) \<and> policy_invalidated (sts ! i) \<longrightarrow> i \<in> fst ` set L)"
    by (rule exI [of _ "L1 @ L2"]) (use B(1) L1 L2 hit in \<open>simp only: append_assoc set_append; blast\<close>)
  ultimately show ?case using H(1) by blast
qed auto

lemma restore_fold:
  assumes "\<forall>e\<in>set L. snd e = tot (fst e)"
  shows "length (fold (\<lambda>(idx, v) sts. sts[idx := (sts ! idx)\<lparr>total_cost := v\<rparr>]) L sts) = length sts \<and>
    (\<forall>k<length sts. fold (\<lambda>(idx, v) sts. sts[idx := (sts ! idx)\<lparr>total_cost := v\<rparr>]) L sts ! k =
       (if k \<in> fst ` set L then (sts ! k)\<lparr>total_cost := tot k\<rparr> else sts ! k))"
  using assms
proof (induction L arbitrary: sts)
  case (Cons e L)
  obtain i v where e: "e = (i, v)" by (cases e)
  show ?case using Cons.IH [of "sts[i := (sts ! i)\<lparr>total_cost := v\<rparr>]"] Cons.prems by (auto simp: e nth_update_at)
qed simp

definition halo :: "vi_local \<Rightarrow> cell \<Rightarrow> bool" where
  "halo vi = (\<lambda>(x, y, t). local_ix_min vi - transition_reach (base vi) \<le> int x \<and> int x \<le> local_ix_max vi + transition_reach (base vi) \<and>
     local_iy_min vi - transition_reach (base vi) \<le> int y \<and> int y \<le> local_iy_max vi + transition_reach (base vi) \<and> in_map (base vi) (x, y, t))"

definition in_window :: "vi_local \<Rightarrow> cell \<Rightarrow> bool" where
  "in_window vi = (\<lambda>(x, y, t). in_local_area vi (int x) (int y))"

lemma halo_indices_iff:
  assumes wf: "wf_vi (base vi)"
  shows "(i, out) \<in> set (halo_indices vi) \<longleftrightarrow> (\<exists>c. halo vi c \<and> i = cidx (base vi) c \<and> out = (\<not> in_window vi c))"
proof
  let ?b = "base vi" and ?r = "transition_reach (base vi)"
  assume "(i, out) \<in> set (halo_indices vi)"
  then obtain x y t where r: "x \<in> {max (local_ix_min vi - ?r) 0..min (local_ix_max vi + ?r) (cell_num_x ?b - 1)}"
      "y \<in> {max (local_iy_min vi - ?r) 0..min (local_iy_max vi + ?r) (cell_num_y ?b - 1)}" "t \<in> {0..cell_num_t ?b - 1}"
    and i: "i = usize_of (to_index ?b x y t)" "out = (\<not> in_local_area vi x y)"
    unfolding halo_indices_def Let_def set_concat set_map set_upto UN_iff image_iff bex_simps prod.inject by blast
  then have xyt: "max (local_ix_min vi - ?r) 0 \<le> x" "x \<le> min (local_ix_max vi + ?r) (cell_num_x ?b - 1)"
      "max (local_iy_min vi - ?r) 0 \<le> y" "y \<le> min (local_iy_max vi + ?r) (cell_num_y ?b - 1)" "0 \<le> t" "t < cell_num_t ?b"
    by auto
  have area: "in_map_area ?b x y" using xyt by (simp add: in_map_area_def)
  note c = to_index_area [OF wf area xyt(5,6)]
  have "halo vi (nat x, nat y, nat t)" unfolding halo_def prod.case using xyt c(2) by simp
  moreover have "out = (\<not> in_window vi (nat x, nat y, nat t))" using i(2) xyt by (simp add: in_window_def)
  ultimately show "\<exists>c. halo vi c \<and> i = cidx ?b c \<and> out = (\<not> in_window vi c)" unfolding i(1) c(1) by blast
next
  let ?b = "base vi" and ?r = "transition_reach (base vi)"
  assume "\<exists>c. halo vi c \<and> i = cidx ?b c \<and> out = (\<not> in_window vi c)"
  then obtain x y t where c: "halo vi (x, y, t)" "i = cidx ?b (x, y, t)" "out = (\<not> in_window vi (x, y, t))"
    by (metis prod_cases3)
  have m: "in_map ?b (x, y, t)" using c(1) by (simp add: halo_def)
  then have "int x < cell_num_x ?b" "int y < cell_num_y ?b" "int t < cell_num_t ?b" using int_dims [OF wf, symmetric] by simp_all
  moreover have "i = usize_of (to_index ?b (int x) (int y) (int t))" using to_index_cell [OF wf m] c(2) by (simp add: to_index_def)
  ultimately show "(i, out) \<in> set (halo_indices vi)"
    unfolding halo_indices_def Let_def using c(1,3)
    by (simp add: halo_def in_window_def) (intro bexI [of _ "int y"] bexI [of _ "int x"] image_eqI [of _ _ "int t"]; simp)
qed

lemma frame_cells:
  assumes wf: "wf_vi b" and len: "length sts = length (states b)"
    and at: "\<And>c. in_map b c \<Longrightarrow> \<exists>v a. sts ! cidx b c = (state_at b c)\<lparr>total_cost := v, optimal_action := a\<rparr>"
  shows "same_frame b (b\<lparr>states := sts\<rparr>)"
proof -
  have "\<exists>v a. sts ! i = (states b ! i)\<lparr>total_cost := v, optimal_action := a\<rparr>" if "i < length sts" for i
  proof -
    have "i < dim_x b * dim_y b * dim_t b" using that len wf by (simp add: wf_vi_def)
    then obtain c where "in_map b c" "cidx b c = i" by (rule cidx_surj)
    then show ?thesis using at [of c] by (simp add: state_at_def)
  qed
  then show ?thesis unfolding same_frame_def using len by blast
qed


section \<open>The columns of the window\<close>

definition lift_base :: "vi_local \<Rightarrow> value_iterator \<times> u64 \<Rightarrow> vi_local \<times> u64" where
  "lift_base vi r = (vi\<lparr>base := fst r\<rparr>, snd r)"

definition window_columns :: "vi_local \<Rightarrow> i32 list \<Rightarrow> (i32 \<times> i32) list" where
  "window_columns vi xs = concat (map (\<lambda>x. map (Pair x) (filter (in_local_area vi x) [local_iy_min vi..local_iy_max vi])) xs)"

lemma fold_lift:
  assumes "P r" "\<And>a r. a \<in> set xs \<Longrightarrow> P r \<Longrightarrow> g a (lift r) = lift (h a r) \<and> P (h a r)"
  shows "fold g xs (lift r) = lift (fold h xs r) \<and> P (fold h xs r)"
  using assms by (induction xs arbitrary: r) simp_all

lemma at_cell_num_t: "cell_num_t (fst (value_iteration_at v i)) = cell_num_t v"
  by (simp add: value_iteration_at_def case_prod_beta Let_def)

definition pass_column :: "i32 \<Rightarrow> i32 \<times> i32 \<Rightarrow> value_iterator \<times> u64 \<Rightarrow> value_iterator \<times> u64" where
  "pass_column N p = fold (pass_state p) [0..N - 1]"

lemma refine_column_lift:
  assumes "cell_num_t (fst r) = N"
  shows "refine_column x (lift_base vi r) = lift_base vi (fold (pass_column N) (window_columns vi [x]) r) \<and>
    cell_num_t (fst (fold (pass_column N) (window_columns vi [x]) r)) = N"
proof -
  define P where "P r \<longleftrightarrow> cell_num_t (fst r) = N" for r :: "value_iterator \<times> u64"
  have state: "(\<lambda>t (vi, dl). case value_iteration_local (usize_of (to_index (base vi) x y t)) vi of (vi', d) \<Rightarrow> (vi', saturating_add dl d)) t (lift_base vi r) =
      lift_base vi (pass_state (x, y) t r) \<and> P (pass_state (x, y) t r)" if "P r" for y t r
    using that by (cases r) (auto simp: lift_base_def pass_state_def value_iteration_local_def P_def at_cell_num_t split: prod.split
      dest: arg_cong [of _ _ "\<lambda>p. cell_num_t (fst p)"])
  have col: "fold (\<lambda>t (vi, dl). case value_iteration_local (usize_of (to_index (base vi) x y t)) vi of (vi', d) \<Rightarrow> (vi', saturating_add dl d))
        [0..N - 1] (lift_base vi r) = lift_base vi (pass_column N (x, y) r) \<and> P (pass_column N (x, y) r)" if "P r" for y r
    unfolding pass_column_def by (rule fold_lift [where P = P]) (rule that, rule state)
  define h where "h y r = (if in_local_area vi x y then pass_column N (x, y) r else r)" for y r
  have cell: "(\<lambda>y (vi, dl). if \<not> in_local_area vi x y then (vi, dl)
        else fold (\<lambda>t (vi, dl). case value_iteration_local (usize_of (to_index (base vi) x y t)) vi of (vi', d) \<Rightarrow> (vi', saturating_add dl d))
               [0..cell_num_t (base vi) - 1] (vi, dl)) y (lift_base vi r) = lift_base vi (h y r) \<and> P (h y r)" if "P r" for y r
    using col [OF that, of y] that by (simp add: h_def lift_base_def in_local_area_base P_def)
  have "fold (pass_column N) (map (Pair x) (filter (in_local_area vi x) ys)) r = fold h ys r" for ys r
    by (induction ys arbitrary: r) (simp_all add: h_def)
  then have w: "fold (pass_column N) (window_columns vi [x]) r = fold h [local_iy_min vi..local_iy_max vi] r" by (simp add: window_columns_def)
  have "refine_column x (lift_base vi r) = fold (\<lambda>y (vi, dl). if \<not> in_local_area vi x y then (vi, dl)
        else fold (\<lambda>t (vi, dl). case value_iteration_local (usize_of (to_index (base vi) x y t)) vi of (vi', d) \<Rightarrow> (vi', saturating_add dl d))
               [0..cell_num_t (base vi) - 1] (vi, dl)) [local_iy_min vi..local_iy_max vi] (lift_base vi r)"
    by (simp add: refine_column_def lift_base_def)
  then show ?thesis unfolding w using fold_lift [where P = P and lift = "lift_base vi" and h = h and r = r, OF _ cell] assms by (simp add: P_def)
qed

lemma refine_columns_lift:
  assumes "cell_num_t (fst r) = N"
  shows "refine_columns stop xs (lift_base vi r) =
    (lift_base vi (fold (pass_column N) (window_columns vi (takeWhile (\<lambda>x. \<not> stop x) xs)) r), \<exists>x\<in>set xs. stop x)"
  using assms
proof (induction xs arbitrary: r)
  case (Cons x xs)
  show ?case
  proof (cases "stop x")
    case False
    note col = refine_column_lift [OF Cons.prems, of x vi]
    have "window_columns vi (takeWhile (\<lambda>x. \<not> stop x) (x # xs)) = window_columns vi [x] @ window_columns vi (takeWhile (\<lambda>x. \<not> stop x) xs)"
      using False by (simp add: window_columns_def)
    then show ?thesis using False col Cons.IH [of "fold (pass_column N) (window_columns vi [x]) r"] by simp
  qed (simp add: window_columns_def)
qed (simp add: window_columns_def)

lemma window_columns_iff: "(x, y) \<in> set (window_columns vi xs) \<longleftrightarrow> x \<in> set xs \<and> in_local_area vi x y"
proof -
  have "in_local_area vi x y \<Longrightarrow> local_iy_min vi \<le> y \<and> y \<le> local_iy_max vi" by (simp add: in_local_area_def)
  then show ?thesis by (auto simp: window_columns_def image_iff)
qed

lemma window_area: "window_in_map vi \<Longrightarrow> in_local_area vi x y \<Longrightarrow> in_map_area (base vi) x y"
  by (auto simp: window_in_map_def in_local_area_def in_map_area_def)


lemma hidden_cells:
  assumes wf: "wf_vi (base vi)" and hide: "fold hide_stale (halo_indices vi) (states (base vi), []) = (H, L)"
  defines "h \<equiv> (base vi)\<lparr>states := H\<rparr>"
  shows "same_frame (base vi) h"
    and "in_map (base vi) c \<Longrightarrow> state_at h c = (if halo vi c then repair_state (state_at (base vi) c) else state_at (base vi) c)"
    and "\<forall>e\<in>set L. snd e = total_cost (states (base vi) ! fst e)"
    and "in_map (base vi) c \<Longrightarrow> in_window vi c \<Longrightarrow> cidx (base vi) c \<notin> fst ` set L"
    and "in_map (base vi) c \<Longrightarrow> halo vi c \<Longrightarrow> \<not> in_window vi c \<Longrightarrow> policy_invalidated (state_at (base vi) c) \<Longrightarrow> cidx (base vi) c \<in> fst ` set L"
proof -
  let ?b = "base vi"
  have hm: "in_map ?b c" if "halo vi c" for c using that by (cases c) (simp add: halo_def)
  have idx: "cidx ?b c < length (states ?b)" if "in_map ?b c" for c using cidx_less [OF that] wf by (simp add: wf_vi_def)
  have bound: "\<forall>p\<in>set (halo_indices vi). fst p < length (states ?b)"
  proof
    fix p assume "p \<in> set (halo_indices vi)"
    then have "\<exists>c. halo vi c \<and> fst p = cidx ?b c \<and> snd p = (\<not> in_window vi c)" using halo_indices_iff [OF wf, of "fst p" "snd p"] by simp
    then obtain c where "halo vi c" "fst p = cidx ?b c" by (elim exE conjE)
    then show "fst p < length (states ?b)" using idx hm by simp
  qed
  have uniq: "c = c'" if "in_map ?b c" "halo vi c'" "cidx ?b c = cidx ?b c'" for c c'
    using that cidx_inj [OF that(1) hm [OF that(2)]] by blast
  have flag: "(cidx ?b c, out) \<in> set (halo_indices vi) \<longleftrightarrow> halo vi c \<and> out = (\<not> in_window vi c)" if c: "in_map ?b c" for c out
  proof
    assume "(cidx ?b c, out) \<in> set (halo_indices vi)"
    then obtain c' where c': "halo vi c'" "cidx ?b c = cidx ?b c'" "out = (\<not> in_window vi c')" unfolding halo_indices_iff [OF wf] by (elim exE conjE)
    from uniq [OF c c'(1,2)] c' show "halo vi c \<and> out = (\<not> in_window vi c)" by simp
  next
    assume "halo vi c \<and> out = (\<not> in_window vi c)"
    then show "(cidx ?b c, out) \<in> set (halo_indices vi)" unfolding halo_indices_iff [OF wf] by (intro exI [of _ c]) simp
  qed
  have "i \<in> fst ` S \<longleftrightarrow> (\<exists>out. (i, out) \<in> S)" for i and S :: "(nat \<times> bool) set" by force
  then have mem: "cidx ?b c \<in> fst ` set (halo_indices vi) \<longleftrightarrow> halo vi c" if c: "in_map ?b c" for c using flag [OF c] by simp
  note fold = hide_fold [OF bound hide, unfolded append_Nil]
  have at: "H ! cidx ?b c = (if halo vi c then repair_state (state_at ?b c) else state_at ?b c)" if c: "in_map ?b c" for c
    using fold idx [OF c] mem [OF c] by (simp add: state_at_def)
  show fr: "same_frame ?b h" unfolding h_def
  proof (rule frame_cells [OF wf])
    fix c assume c: "in_map ?b c"
    show "\<exists>v a. H ! cidx ?b c = (state_at ?b c)\<lparr>total_cost := v, optimal_action := a\<rparr>"
      unfolding at [OF c] by (rule exI [of _ "total_cost (if halo vi c then repair_state (state_at ?b c) else state_at ?b c)"],
        rule exI [of _ "optimal_action (state_at ?b c)"]) (simp add: repair_state_def)
  qed (use fold in simp)
  show "state_at h c = (if halo vi c then repair_state (state_at ?b c) else state_at ?b c)" if "in_map ?b c"
    using at [OF that] unfolding state_at_def same_frame_sel(9) [OF fr] by (simp add: h_def)
  show "\<forall>e\<in>set L. snd e = total_cost (states ?b ! fst e)" using fold by blast
  show "cidx ?b c \<notin> fst ` set L" if c: "in_map ?b c" "in_window vi c"
  proof
    assume "cidx ?b c \<in> fst ` set L"
    then obtain e where e: "e \<in> set L" "fst e = cidx ?b c" by auto
    then have "(fst e, True) \<in> set (halo_indices vi)" using fold by blast
    then show False using flag [OF c(1), of True] c(2) unfolding e(2) by simp
  qed
  show "cidx ?b c \<in> fst ` set L" if c: "in_map ?b c" "halo vi c" "\<not> in_window vi c" "policy_invalidated (state_at ?b c)"
  proof -
    have "(cidx ?b c, True) \<in> set (halo_indices vi)" "(cidx ?b c, False) \<notin> set (halo_indices vi)" using flag [OF c(1)] c(2,3) by simp_all
    then show ?thesis using fold idx [OF c(1)] c(4) unfolding state_at_def by blast
  qed
qed

text \<open>The pass, between hiding and restoring: an in-place pass over a part of the window, which is the
  whole window when the clock did not stop it.\<close>

lemma refine_shape:
  assumes wf: "wf_vi (base vi)" and w: "window_in_map vi" and pass: "refine_pass_until stop vi = (vi', dl, stopped)"
  obtains h r C where "same_frame (base vi) h" "same_frame h r"
    "\<And>c. in_map (base vi) c \<Longrightarrow> state_at h c = (if halo vi c then repair_state (state_at (base vi) c) else state_at (base vi) c)"
    "pass_ok C h r (dl = 0)" "C \<subseteq> {c. in_map (base vi) c \<and> in_window vi c}" "\<not> stopped \<Longrightarrow> C = {c. in_map (base vi) c \<and> in_window vi c}"
    "vi' = vi\<lparr>base := base vi'\<rparr>" "same_frame r (base vi')"
    "\<And>c. in_map (base vi) c \<Longrightarrow> state_at (base vi') c = (if in_window vi c then state_at r c else state_at (base vi) c)"
proof -
  let ?b = "base vi"
  obtain H L where hide: "fold hide_stale (halo_indices vi) (states ?b, []) = (H, L)" by fastforce
  define h where "h = ?b\<lparr>states := H\<rparr>"
  note hid = hidden_cells [OF wf hide, folded h_def]
  have wfh: "wf_vi h" by (rule same_frame_wf [OF hid(1) wf])
  define cells where "cells = window_columns vi (takeWhile (\<lambda>x. \<not> stop x) [local_ix_min vi..local_ix_max vi])"
  have hb: "h = base (vi\<lparr>base := h\<rparr>)" by simp
  have area: "\<forall>(x, y)\<in>set cells. in_map_area h x y"
    using window_area [OF w] unfolding cells_def by (auto simp: window_columns_iff in_map_area_def same_frame_sel [OF hid(1)])
  obtain r d where rd: "relax_sum (columns h cells) (h, 0) = (r, d)" by fastforce
  have cw: "window_columns (vi\<lparr>base := h\<rparr>) = window_columns vi" by (simp add: fun_eq_iff window_columns_def in_local_area_base)
  have "refine_columns stop [local_ix_min vi..local_ix_max vi] (lift_base (vi\<lparr>base := h\<rparr>) (h, 0)) =
      (lift_base (vi\<lparr>base := h\<rparr>) (r, d), \<exists>x\<in>set [local_ix_min vi..local_ix_max vi]. stop x)"
    using refine_columns_lift [of "(h, 0)" "cell_num_t h" stop "[local_ix_min vi..local_ix_max vi]" "vi\<lparr>base := h\<rparr>"]
      job_fold [OF wfh area, of 0] rd unfolding cw cells_def [symmetric] pass_column_def by simp
  then have cols: "refine_columns stop [local_ix_min vi..local_ix_max vi] (vi\<lparr>base := h\<rparr>, 0) =
      ((vi\<lparr>base := r\<rparr>, d), \<exists>x\<in>set [local_ix_min vi..local_ix_max vi]. stop x)" by (simp add: lift_base_def)
  define F where "F = r\<lparr>states := fold (\<lambda>(idx, v) sts. sts[idx := (sts ! idx)\<lparr>total_cost := v\<rparr>]) L (states r)\<rparr>"
  have res: "vi' = vi\<lparr>base := F\<rparr>" "dl = d" "stopped = (\<exists>x\<in>set [local_ix_min vi..local_ix_max vi]. stop x)"
    using pass unfolding refine_pass_until_def hide prod.case h_def [symmetric] cols by (simp_all add: F_def)
  have ok: "pass_ok (set (columns h cells)) h r (dl = 0)"
    unfolding res(2) by (rule relax_sum_pass [OF wfh columns_in_map [OF wfh area] rd])
  then have fr: "same_frame h r" by (simp add: pass_ok_def)
  have wfr: "wf_vi r" by (rule same_frame_wf [OF fr wfh])
  note frr = same_frame_trans [OF hid(1) fr]
  have mem: "c \<in> set (columns h cells) \<longleftrightarrow> in_map ?b c \<and> in_window vi c \<and> int (fst c) \<in> set (takeWhile (\<lambda>x. \<not> stop x) [local_ix_min vi..local_ix_max vi])" for c
  proof (cases c)
    case (fields x y t)
    have "in_local_area vi (int x) (int y) \<Longrightarrow> int x < cell_num_x ?b \<and> int y < cell_num_y ?b"
      using window_area [OF w, of "int x" "int y"] by (simp add: in_map_area_def)
    then show ?thesis using columns_iff [OF area, of x y t] int_dims [OF wf, symmetric]
      unfolding fields cells_def by (auto simp: window_columns_iff in_window_def same_frame_sel [OF hid(1)])
  qed
  have all: "set (columns h cells) = {c. in_map ?b c \<and> in_window vi c}" if "\<not> stopped"
  proof -
    have "takeWhile (\<lambda>x. \<not> stop x) [local_ix_min vi..local_ix_max vi] = [local_ix_min vi..local_ix_max vi]"
      using that unfolding res(3) by (simp add: takeWhile_eq_all_conv)
    moreover have "in_window vi c \<Longrightarrow> int (fst c) \<in> set [local_ix_min vi..local_ix_max vi]" for c
      by (cases c) (simp add: in_window_def in_local_area_def)
    ultimately show ?thesis by (intro set_eqI) (simp only: mem mem_Collect_eq, blast)
  qed
  note restore = restore_fold [OF hid(3), of "states r"]
  have Fat: "states F ! cidx ?b c = (if cidx ?b c \<in> fst ` set L then (state_at r c)\<lparr>total_cost := total_cost (state_at ?b c)\<rparr> else state_at r c)"
    if c: "in_map ?b c" for c
  proof -
    have "cidx ?b c < length (states r)" using cidx_less [OF c] wf same_frame_sel(12) [OF frr] by (simp add: wf_vi_def)
    then show ?thesis using restore unfolding F_def by (simp add: state_at_def same_frame_sel(9) [OF frr])
  qed
  have frF: "same_frame r F" unfolding F_def
  proof (rule frame_cells [OF wfr])
    fix c assume c: "in_map r c"
    then have m: "in_map ?b c" by (simp add: same_frame_sel(8) [OF frr])
    show "\<exists>v a. fold (\<lambda>(idx, v) sts. sts[idx := (sts ! idx)\<lparr>total_cost := v\<rparr>]) L (states r) ! cidx r c = (state_at r c)\<lparr>total_cost := v, optimal_action := a\<rparr>"
      by (rule exI [of _ "total_cost (states F ! cidx ?b c)"], rule exI [of _ "optimal_action (state_at r c)"])
        (use Fat [OF m] in \<open>simp add: F_def same_frame_sel(9) [OF frr]\<close>)
  qed (use restore in simp)
  have Fst: "state_at F c = (if in_window vi c then state_at r c else state_at ?b c)" if c: "in_map ?b c" for c
  proof (cases "in_window vi c")
    case True
    then show ?thesis using Fat [OF c] hid(4) [OF c True] unfolding state_at_def same_frame_sel(9) [OF same_frame_trans [OF frr frF]] by simp
  next
    case False
    then have "c \<notin> set (columns h cells)" using mem by blast
    then have rc: "state_at r c = state_at h c" using ok c same_frame_sel(8) [OF hid(1)] unfolding pass_ok_def by simp
    have restored: "(state_at h c)\<lparr>total_cost := total_cost (state_at ?b c)\<rparr> = state_at ?b c" using hid(2) [OF c] by (simp add: repair_state_def)
    have keep: "state_at h c = state_at ?b c" if "cidx ?b c \<notin> fst ` set L"
      using hid(2) [OF c] hid(5) [OF c _ False] that by (auto simp: repair_state_def)
    show ?thesis using Fat [OF c] False restored keep unfolding rc [symmetric]
      by (simp add: state_at_def [of F] same_frame_sel(9) [OF same_frame_trans [OF frr frF]] split: if_splits)
  qed
  have sub: "set (columns h cells) \<subseteq> {c. in_map ?b c \<and> in_window vi c}" using mem by blast
  have F: "base vi' = F" using res(1) by simp
  have v': "vi' = vi\<lparr>base := base vi'\<rparr>" unfolding F by (rule res(1))
  show thesis by (rule that [OF hid(1) fr _ ok sub _ v']) (erule hid(2), erule all, simp_all only: F frF Fst)
qed


lemma cert_good_cell:
  "cert_good b (int x, int y) \<longleftrightarrow> (\<forall>t<dim_t b. \<not> policy_invalidated (state_at b (x, y, t)) \<and> settled (repair_values b) (x, y, t))"
  by (simp add: cert_good_def)

lemma window_succs_halo:
  assumes wf: "wf_vi (base vi)" and c: "in_map (base vi) c" "in_window vi c" and d: "d \<in> succs (base vi) c"
  shows "halo vi d"
proof -
  obtain x y t where xyt: "c = (x, y, t)" by (cases c)
  obtain x' y' t' where d': "d = (x', y', t')" by (cases d)
  have "in_map (base vi) d" by (rule succs_in_map [OF wf d])
  then show ?thesis using reach_bound [OF wf c(1) d] c(2) unfolding halo_def in_window_def xyt d' by (auto simp: in_local_area_def)
qed

lemma window_halo: "in_map (base vi) c \<Longrightarrow> in_window vi c \<Longrightarrow> halo vi c"
  using reach_nonneg [of "base vi"] by (cases c) (auto simp: halo_def in_window_def in_local_area_def)

theorem refine_pass_spec:
  assumes wf: "wf_vi (base vi)" and w: "window_in_map vi" and pass: "refine_pass_until stop vi = (vi', dl, stopped)"
  shows "vi' = vi\<lparr>base := base vi'\<rparr>" "same_frame (base vi) (base vi')"
    and "in_map (base vi) c \<Longrightarrow> \<not> in_window vi c \<Longrightarrow> state_at (base vi') c = state_at (base vi) c"
    and "dl = 0 \<Longrightarrow> \<not> stopped \<or> (\<forall>p q. in_local_area vi p q \<longrightarrow> cert_good (base vi) (p, q)) \<Longrightarrow>
      in_local_area vi x y \<Longrightarrow> cert_good (base vi') (x, y)"
proof -
  let ?b = "base vi" and ?F = "base vi'"
  obtain h r C where fh: "same_frame ?b h" and fr: "same_frame h r"
    and hid: "\<And>c. in_map ?b c \<Longrightarrow> state_at h c = (if halo vi c then repair_state (state_at ?b c) else state_at ?b c)"
    and ok: "pass_ok C h r (dl = 0)" and sub: "C \<subseteq> {c. in_map ?b c \<and> in_window vi c}"
    and all: "\<not> stopped \<Longrightarrow> C = {c. in_map ?b c \<and> in_window vi c}"
    and vi': "vi' = vi\<lparr>base := ?F\<rparr>" and fF: "same_frame r ?F"
    and at: "\<And>c. in_map ?b c \<Longrightarrow> state_at ?F c = (if in_window vi c then state_at r c else state_at ?b c)"
    by (rule refine_shape [OF wf w pass]) blast
  show "vi' = vi\<lparr>base := ?F\<rparr>" by (rule vi')
  note fbr = same_frame_trans [OF fh fr]
  show fbF: "same_frame ?b ?F" by (rule same_frame_trans [OF fbr fF])
  show "state_at ?F c = state_at ?b c" if "in_map ?b c" "\<not> in_window vi c" using at [OF that(1)] that(2) by simp
  have wfh: "wf_vi h" and wfr: "wf_vi r" and wfF: "wf_vi ?F" using same_frame_wf [OF fh wf] same_frame_wf [OF fbr wf] same_frame_wf [OF fbF wf] .
  assume z: "dl = 0" and good: "\<not> stopped \<or> (\<forall>p q. in_local_area vi p q \<longrightarrow> cert_good ?b (p, q))" and xy: "in_local_area vi x y"
  have old: "\<not> policy_invalidated (state_at ?b c) \<and> settled (repair_values ?b) c" if "stopped" "in_map ?b c" "in_window vi c" for c
  proof -
    obtain a b t where abt: "c = (a, b, t)" by (cases c)
    have "cert_good ?b (int a, int b)" using good that by (simp add: abt in_window_def)
    then show ?thesis using that(2) unfolding cert_good_cell abt by simp
  qed
  have fresh: "\<not> policy_invalidated (state_at r c)" if c: "in_map ?b c" "in_window vi c" for c
  proof (cases "c \<in> C")
    case True
    then show ?thesis using ok unfolding pass_ok_def by blast
  next
    case False
    then have "stopped" using all c by blast
    moreover have "state_at r c = state_at h c" using ok False c(1) unfolding pass_ok_def same_frame_sel(8) [OF fh] by blast
    moreover have "state_at h c = repair_state (state_at ?b c)" using hid [OF c(1)] window_halo [OF c] by simp
    ultimately show ?thesis by simp
  qed
  have hidR: "state_at h d = state_at (repair_values ?b) d" if "halo vi d" "in_map ?b d" for d
    using hid [OF that(2)] that(1) repair_at [OF wf that(2)] by simp
  have FR: "state_at (repair_values ?F) d = state_at r d" if d: "halo vi d" "in_map ?b d" for d
  proof -
    have "state_at (repair_values ?F) d = repair_state (state_at ?F d)"
      by (rule repair_at [OF wfF]) (use d same_frame_sel(8) [OF fbF] in simp)
    moreover have "repair_state (state_at ?F d) = state_at r d"
    proof (cases "in_window vi d")
      case True
      then show ?thesis using at [OF d(2)] fresh [OF d(2) True] by (simp add: repair_state_id)
    next
      case False
      then have "d \<notin> C" using sub by blast
      then have "state_at r d = state_at h d" using ok d(2) unfolding pass_ok_def same_frame_sel(8) [OF fh] by blast
      then show ?thesis using at [OF d(2)] False hid [OF d(2)] d(1) by simp
    qed
    ultimately show ?thesis by simp
  qed
  have "\<not> policy_invalidated (state_at ?F c) \<and> settled (repair_values ?F) c" if c: "in_map ?b c" "in_window vi c" for c
  proof
    show "\<not> policy_invalidated (state_at ?F c)" using at [OF c(1)] c(2) fresh [OF c] by simp
    have "settled r c"
    proof (cases "c \<in> C")
      case True
      then show ?thesis using ok z unfolding pass_ok_def by blast
    next
      case False
      then have "stopped" using all c by blast
      then have "settled (repair_values ?b) c" using old c by blast
      moreover have "settled h c \<longleftrightarrow> settled (repair_values ?b) c"
      proof -
        have fRh: "same_frame (repair_values ?b) h"
          using fh by (auto simp: same_frame_def repair_values_def repair_state_def)
        show ?thesis
        proof (rule settled_agree [OF repair_wf [OF wf] _ fRh])
          show "in_map (repair_values ?b) c" using c(1) by (simp add: repair_sel(8))
          show "state_at h c = state_at (repair_values ?b) c" by (rule hidR [OF window_halo [OF c] c(1)])
          fix d assume "d \<in> succs (repair_values ?b) c"
          then have "d \<in> succs ?b c" by (simp add: repair_sel(11))
          then show "total_cost (state_at h d) = total_cost (state_at (repair_values ?b) d)"
            using hidR [OF window_succs_halo [OF wf c] succs_in_map [OF wf]] by simp
        qed
      qed
      ultimately have "settled h c" by simp
      then show ?thesis using pass_settled [OF wfh _ _ \<open>settled h c\<close>] ok z c(1) same_frame_sel(8) [OF fh] by simp
    qed
    moreover have "settled (repair_values ?F) c \<longleftrightarrow> settled r c"
    proof (rule settled_agree [OF wfr _ same_frame_trans [OF fF repair_frame]])
      show "in_map r c" using c(1) by (simp add: same_frame_sel(8) [OF fbr])
      show "state_at (repair_values ?F) c = state_at r c" by (rule FR [OF window_halo [OF c] c(1)])
      fix d assume "d \<in> succs r c"
      then have "d \<in> succs ?b c" by (simp add: same_frame_sel(11) [OF fbr])
      then show "total_cost (state_at (repair_values ?F) d) = total_cost (state_at r d)"
        using FR [OF window_succs_halo [OF wf c] succs_in_map [OF wf]] by simp
    qed
    ultimately show "settled (repair_values ?F) c" by blast
  qed
  moreover have "0 \<le> x" "0 \<le> y" "in_map_area ?b x y" using window_area [OF w xy] by (simp_all add: in_map_area_def)
  ultimately show "cert_good ?F (x, y)"
    using xy by (simp add: cert_good_def in_window_def same_frame_sel [OF fbF] in_map_area_def dim_x_def dim_y_def)
qed

end
