(* ===== verification/Ownership.thy ===== *)
theory Ownership
  imports Refine
begin

text \<open>
  The invariant of the manager under every operation of the core. \<open>core_inv\<close> says what holds between two
  operations, \<open>evolves\<close> what an operation may do behind the back of a job that is out.
\<close>

section \<open>Invariant and rely\<close>

definition sweep_ok :: "core \<Rightarrow> bool" where
  "sweep_ok co \<longleftrightarrow> (\<forall>p. ds_pending (c_sweep co) = Some p \<longrightarrow> wf2 p \<and> map_x2 p = nat (c_width co) \<and> map_y2 p = nat (c_height co)) \<and>
     (\<forall>(x, y)\<in>set (ds_cands (c_sweep co)). int x < c_width co \<and> int y < c_height co)"

definition field_ok :: "core \<Rightarrow> vi_local \<Rightarrow> bool" where
  "field_ok co vi \<longleftrightarrow> wf_vi (base vi) \<and> theta_uniform (base vi) \<and> cell_num_x (base vi) = c_width co \<and> cell_num_y (base vi) = c_height co"

definition ids_ok :: "manager \<Rightarrow> bool" where
  "ids_ok m \<longleftrightarrow> (\<forall>s. owner m = Some s \<longrightarrow> s \<le> serial m) \<and> (\<forall>s. local_in_flight m = Some s \<longrightarrow> s \<le> serial m)"

definition base_inv :: "core \<Rightarrow> bool" where
  "base_inv co \<longleftrightarrow> (\<forall>vi. core_local co = Some vi \<longrightarrow> field_ok co vi) \<and> sweep_ok co \<and> ids_ok (c_global co) \<and>
     finite (owned (c_global co)) \<and> deferred (c_global co) \<subseteq> owned (c_global co)"

definition cert_inv :: "core \<Rightarrow> bool" where
  "cert_inv co \<longleftrightarrow> (certified (c_global co) \<longrightarrow> deferred (c_global co) = {} \<and> inv_pending (c_global co) = [] \<and>
     (\<forall>vi. core_local co = Some vi \<longrightarrow> (\<forall>p\<in>owned (c_global co). cert_good (base vi) p)))"

definition core_inv :: "core \<Rightarrow> bool" where
  "core_inv co \<longleftrightarrow> base_inv co \<and> cert_inv co \<and> (owned (c_global co) = {} \<or> owned (c_global co) = owned_now co)"

definition fresh_or_kept :: "nat \<Rightarrow> nat \<Rightarrow> nat option \<Rightarrow> nat option \<Rightarrow> bool" where
  "fresh_or_kept s s' a a' \<longleftrightarrow> a' = a \<or> a' = None \<or> (\<exists>k. a' = Some k \<and> s < k \<and> k \<le> s')"

definition outside_kept :: "(i32 \<times> i32) set \<Rightarrow> value_iterator \<Rightarrow> value_iterator \<Rightarrow> bool" where
  "outside_kept own b b' \<longleftrightarrow> (\<forall>x y t. in_map b (x, y, t) \<and> (int x, int y) \<notin> own \<longrightarrow> state_at b' (x, y, t) = state_at b (x, y, t))"

definition steady :: "core \<Rightarrow> core \<Rightarrow> bool" where
  "steady co co' \<longleftrightarrow> epoch (c_global co') = epoch (c_global co) \<and> local_revision (c_global co') = local_revision (c_global co) \<and>
     owner (c_global co') = owner (c_global co) \<and> owner (c_global co) \<noteq> None \<and> owned (c_global co) \<noteq> {}"

definition field_evolves :: "core \<Rightarrow> core \<Rightarrow> bool" where
  "field_evolves co co' \<longleftrightarrow> owned (c_global co') = owned (c_global co) \<and>
     (\<forall>vi. core_local co = Some vi \<longrightarrow> (\<exists>vi'. core_local co' = Some vi' \<and> same_frame (base vi) (base vi') \<and>
        (inv_pending (c_global co) = [] \<longrightarrow> inv_pending (c_global co') = [] \<and>
          (boundary_revision (c_global co') = boundary_revision (c_global co) \<longrightarrow> outside_kept (owned (c_global co)) (base vi) (base vi')))))"

definition headings_of :: "core \<Rightarrow> i32 option" where
  "headings_of co = map_option (\<lambda>vi. cell_num_t (base vi)) (core_local co)"

definition evolves :: "core \<Rightarrow> core \<Rightarrow> bool" where
  "evolves co co' \<longleftrightarrow> c_width co' = c_width co \<and> c_height co' = c_height co \<and>
     serial (c_global co) \<le> serial (c_global co') \<and> epoch (c_global co) \<le> epoch (c_global co') \<and>
     local_revision (c_global co) \<le> local_revision (c_global co') \<and> boundary_revision (c_global co) \<le> boundary_revision (c_global co') \<and>
     fresh_or_kept (serial (c_global co)) (serial (c_global co')) (owner (c_global co)) (owner (c_global co')) \<and>
     fresh_or_kept (serial (c_global co)) (serial (c_global co')) (local_in_flight (c_global co)) (local_in_flight (c_global co')) \<and>
     (epoch (c_global co') = epoch (c_global co) \<longrightarrow> headings_of co' = headings_of co) \<and>
     (steady co co' \<longrightarrow> field_evolves co co')"

lemma fresh_trans:
  assumes "fresh_or_kept s s1 a a1" "fresh_or_kept s1 s2 a1 a2" "s \<le> s1" "s1 \<le> s2"
  shows "fresh_or_kept s s2 a a2"
  using assms by (fastforce simp: fresh_or_kept_def)

lemma fresh_mid:
  assumes "fresh_or_kept s s1 a a1" "fresh_or_kept s1 s2 a1 a2" "s \<le> s1" "a = Some k" "k \<le> s" "a2 = a"
  shows "a1 = a"
  using assms by (fastforce simp: fresh_or_kept_def)

lemma outside_trans:
  assumes "same_frame b b1" "outside_kept S b b1" "outside_kept S b1 b2"
  shows "outside_kept S b b2"
  using assms(2,3) unfolding outside_kept_def same_frame_sel(8) [OF assms(1)] by metis

lemma evolves_refl [simp]: "evolves co co"
  by (simp add: evolves_def fresh_or_kept_def field_evolves_def outside_kept_def)

lemma field_evolves_trans:
  assumes "field_evolves co co1" "field_evolves co1 co2"
    "boundary_revision (c_global co) \<le> boundary_revision (c_global co1)" "boundary_revision (c_global co1) \<le> boundary_revision (c_global co2)"
  shows "field_evolves co co2"
proof -
  have own: "owned (c_global co1) = owned (c_global co)" "owned (c_global co2) = owned (c_global co)" using assms(1,2) by (simp_all add: field_evolves_def)
  have "\<exists>vi2. core_local co2 = Some vi2 \<and> same_frame (base vi) (base vi2) \<and>
        (inv_pending (c_global co) = [] \<longrightarrow> inv_pending (c_global co2) = [] \<and>
          (boundary_revision (c_global co2) = boundary_revision (c_global co) \<longrightarrow> outside_kept (owned (c_global co)) (base vi) (base vi2)))"
    if vi: "core_local co = Some vi" for vi
  proof -
    from assms(1) vi obtain vi1 where 1: "core_local co1 = Some vi1" "same_frame (base vi) (base vi1)"
      "inv_pending (c_global co) = [] \<longrightarrow> inv_pending (c_global co1) = [] \<and>
          (boundary_revision (c_global co1) = boundary_revision (c_global co) \<longrightarrow> outside_kept (owned (c_global co)) (base vi) (base vi1))"
      unfolding field_evolves_def by blast
    from assms(2) 1(1) obtain vi2 where 2: "core_local co2 = Some vi2" "same_frame (base vi1) (base vi2)"
      "inv_pending (c_global co1) = [] \<longrightarrow> inv_pending (c_global co2) = [] \<and>
          (boundary_revision (c_global co2) = boundary_revision (c_global co1) \<longrightarrow> outside_kept (owned (c_global co)) (base vi1) (base vi2))"
      unfolding field_evolves_def own by blast
    have "outside_kept (owned (c_global co)) (base vi) (base vi2)"
      if "inv_pending (c_global co) = []" "boundary_revision (c_global co2) = boundary_revision (c_global co)"
      using outside_trans [OF 1(2)] 1(3) 2(3) that assms(3,4) by simp
    then show ?thesis using 1 2 same_frame_trans [OF 1(2) 2(2)] by blast
  qed
  then show ?thesis unfolding field_evolves_def own by blast
qed

lemma evolves_trans:
  assumes ids: "ids_ok (c_global co)" and 1: "evolves co co1" and 2: "evolves co1 co2"
  shows "evolves co co2"
proof -
  have le: "serial (c_global co) \<le> serial (c_global co1)" "serial (c_global co1) \<le> serial (c_global co2)"
    "epoch (c_global co) \<le> epoch (c_global co1)" "epoch (c_global co1) \<le> epoch (c_global co2)"
    "local_revision (c_global co) \<le> local_revision (c_global co1)" "local_revision (c_global co1) \<le> local_revision (c_global co2)"
    "boundary_revision (c_global co) \<le> boundary_revision (c_global co1)" "boundary_revision (c_global co1) \<le> boundary_revision (c_global co2)"
    using 1 2 by (simp_all add: evolves_def)
  have dims: "c_width co2 = c_width co" "c_height co2 = c_height co" using 1 2 by (simp_all add: evolves_def)
  have hd: "epoch (c_global co2) = epoch (c_global co) \<longrightarrow> headings_of co2 = headings_of co"
    using 1 2 le unfolding evolves_def by (metis order.antisym)
  have fr: "fresh_or_kept (serial (c_global co)) (serial (c_global co2)) (owner (c_global co)) (owner (c_global co2))"
    "fresh_or_kept (serial (c_global co)) (serial (c_global co2)) (local_in_flight (c_global co)) (local_in_flight (c_global co2))"
    using 1 2 le by (auto simp: evolves_def intro: fresh_trans)
  have "field_evolves co co2" if st: "steady co co2"
  proof -
    obtain k where k: "owner (c_global co) = Some k" "k \<le> serial (c_global co)" using st ids unfolding steady_def ids_ok_def by auto
    have ow: "owner (c_global co1) = owner (c_global co)"
      by (rule fresh_mid [OF _ _ le(1) k, where ?s2.0 = "serial (c_global co2)" and ?a2.0 = "owner (c_global co2)"]) (use 1 2 st in \<open>simp_all only: evolves_def steady_def\<close>)
    have s1: "steady co co1" using st ow le unfolding steady_def by auto
    then have f1: "field_evolves co co1" using 1 by (simp add: evolves_def)
    then have "steady co1 co2" using st s1 unfolding steady_def field_evolves_def by simp
    then have "field_evolves co1 co2" using 2 by (simp add: evolves_def)
    from field_evolves_trans [OF f1 this le(7,8)] show ?thesis .
  qed
  then show ?thesis unfolding evolves_def using le dims hd fr by linarith
qed


section \<open>Operations that only feed the sweep\<close>

definition same_core :: "core \<Rightarrow> core \<Rightarrow> bool" where
  "same_core co co' \<longleftrightarrow> c_width co' = c_width co \<and> c_height co' = c_height co \<and> core_local co' = core_local co \<and>
     c_global co' = c_global co \<and> (sweep_ok co \<longrightarrow> sweep_ok co')"

lemma same_core_refl [simp]: "same_core co co"
  and same_core_trans: "same_core co co1 \<Longrightarrow> same_core co1 co2 \<Longrightarrow> same_core co co2"
  by (simp_all add: same_core_def)

lemma fold_same_core: "(\<And>p co. p \<in> set ps \<Longrightarrow> same_core co (f p co)) \<Longrightarrow> same_core co (fold f ps co)"
  by (induction ps arbitrary: co) (auto intro: same_core_trans)

lemma owned_now_cong:
  "owner (c_global co') = owner (c_global co) \<Longrightarrow> core_local co' = core_local co \<Longrightarrow> c_width co' = c_width co \<Longrightarrow> c_height co' = c_height co \<Longrightarrow>
   owned_now co' = owned_now co"
  by (simp only: owned_now_def)

lemma same_core_inv:
  assumes "same_core co co'" "core_inv co"
  shows "core_inv co'" "evolves co co'"
proof -
  have "owned_now co' = owned_now co" using assms(1) by (intro owned_now_cong) (simp_all add: same_core_def)
  then show "core_inv co'" using assms by (simp add: core_inv_def base_inv_def cert_inv_def same_core_def field_ok_def)
  show "evolves co co'" using assms(1)
    by (simp add: evolves_def same_core_def fresh_or_kept_def field_evolves_def outside_kept_def headings_of_def)
qed

lemma core_local_sel [simp]:
  "core_local (co\<lparr>c_sweep := sw\<rparr>) = core_local co" "core_local (co\<lparr>c_dirty := d\<rparr>) = core_local co"
  "core_local (co\<lparr>c_global := m\<rparr>) = core_local co" "core_local (upd_global f co) = core_local co"
  "core_local (upd_field g co) = map_option g (core_local co)"
  by (simp_all add: core_local_def upd_global_def upd_field_def option.map_comp comp_def)

lemma upd_sel [simp]:
  "c_global (upd_global f co) = f (c_global co)" "c_width (upd_global f co) = c_width co" "c_height (upd_global f co) = c_height co"
  "c_sweep (upd_global f co) = c_sweep co" "c_global (upd_field g co) = c_global co" "c_width (upd_field g co) = c_width co"
  "c_height (upd_field g co) = c_height co" "c_sweep (upd_field g co) = c_sweep co" "c_global_sweep (upd_global f co) = c_global_sweep co"
  by (simp_all add: upd_global_def upd_field_def)

lemma sweep_ok_cong: "c_sweep co' = c_sweep co \<Longrightarrow> c_width co' = c_width co \<Longrightarrow> c_height co' = c_height co \<Longrightarrow> sweep_ok co' = sweep_ok co"
  by (simp add: sweep_ok_def)

lemma sweep_ok_upd [simp]: "sweep_ok (upd_global f co) = sweep_ok co" "sweep_ok (upd_field g co) = sweep_ok co"
  "sweep_ok (co\<lparr>c_dirty := d\<rparr>) = sweep_ok co" "sweep_ok (co\<lparr>c_global := m\<rparr>) = sweep_ok co"
  by (simp_all add: sweep_ok_def)

definition board_ok :: "i32 \<Rightarrow> i32 \<Rightarrow> bitboard2d \<Rightarrow> bool" where
  "board_ok nx ny b \<longleftrightarrow> wf2 b \<and> map_x2 b = nat nx \<and> map_y2 b = nat ny"

lemma seed_board:
  assumes "board_ok nx ny b"
  shows "board_ok nx ny (fold (\<lambda>iy. fold (\<lambda>ix b. set2 b (nat ix) (nat iy)) [max x0 0..min x1 (nx - 1)]) [max y0 0..min y1 (ny - 1)] b)"
proof -
  have set: "board_ok nx ny (set2 b (nat ix) (nat iy))" if "board_ok nx ny b" "0 \<le> ix" "ix < nx" "0 \<le> iy" "iy < ny" for b ix iy
    using that by (auto simp: board_ok_def intro: wf2_set)
  have row: "board_ok nx ny (fold (\<lambda>ix b. set2 b (nat ix) (nat iy)) xs b)" if "board_ok nx ny b" "\<forall>ix\<in>set xs. 0 \<le> ix \<and> ix < nx" "0 \<le> iy" "iy < ny" for b iy xs
    using that by (induction xs arbitrary: b) (simp_all add: set)
  have "board_ok nx ny (fold (\<lambda>iy. fold (\<lambda>ix b. set2 b (nat ix) (nat iy)) [max x0 0..min x1 (nx - 1)]) ys b)"
    if "board_ok nx ny b" "\<forall>iy\<in>set ys. 0 \<le> iy \<and> iy < ny" for b ys
    using that by (induction ys arbitrary: b) (simp_all add: row)
  then show ?thesis using assms by simp
qed

lemma seed_rect_ok:
  assumes "sweep_ok co" "nx = c_width co" "ny = c_height co" "c_sweep co' = seed_rect nx ny r (c_sweep co)" "c_width co' = nx" "c_height co' = ny"
  shows "sweep_ok co'"
proof -
  obtain x0 x1 y0 y1 where r: "r = (x0, x1, y0, y1)" by (cases r)
  let ?b = "case ds_pending (c_sweep co) of Some b \<Rightarrow> b | None \<Rightarrow> new2 (nat nx) (nat ny)"
  have "board_ok nx ny ?b" using assms(1-3) by (auto simp: board_ok_def sweep_ok_def wf2_new split: option.split)
  from seed_board [OF this, of x0 x1 y0 y1] show ?thesis
    using assms unfolding sweep_ok_def by (auto simp: seed_rect_def r Let_def board_ok_def)
qed

lemma enqueue_global_same: "same_core co (enqueue_global r co)"
  unfolding same_core_def using seed_rect_ok [of co "c_width co" "c_height co" "enqueue_global r co" r] by (simp add: enqueue_global_def)

lemma enqueue_cell_same: "same_core co (enqueue_cell p co)"
  by (cases p) (simp add: enqueue_cell_def enqueue_global_same)

lemma settle_same: "same_core co (fst (settle_global co))"
proof -
  have "map_option cg_field (map_option mark_complete c) = map_option cg_field c" for c :: "vi_local cached_goal option"
    by (cases c) (simp_all add: mark_complete_def)
  then show ?thesis by (auto simp: same_core_def settle_global_def Let_def core_local_def sweep_ok_def sweep_settle_def)
qed

lemma seed_sweep_same:
  assumes "core_inv co"
  shows "same_core co (seed_sweep_all co)" "same_core co (seed_sweep_window co)"
proof -
  have f: "field_ok co vi" if "core_local co = Some vi" for vi using assms that by (simp add: core_inv_def base_inv_def)
  show "same_core co (seed_sweep_all co)" "same_core co (seed_sweep_window co)"
    using f seed_rect_ok [of co "c_width co" "c_height co"]
    by (auto simp: same_core_def seed_sweep_all_def seed_sweep_window_def Let_def field_ok_def split: option.split)
qed

lemma restart_same: "core_inv co \<Longrightarrow> same_core co (fst (restart_global_check co))"
  using seed_sweep_same(1) [of co] by (simp add: restart_global_check_def same_core_def)


section \<open>Ownership\<close>

lemma same_core_upd: "same_core co co' \<Longrightarrow> same_core (upd_global f co) (upd_global f co')"
  by (simp add: same_core_def)

lemma upd_global_upd [simp]: "upd_global f (upd_global g co) = upd_global (\<lambda>m. f (g m)) co" "upd_global (\<lambda>m. m) co = co"
  by (simp_all add: upd_global_def)

lemma drop_deferred:
  "same_core (upd_global (\<lambda>m. m\<lparr>deferred := deferred m - set ps\<rparr>) co)
     (fold (\<lambda>p co. enqueue_cell p (upd_global (\<lambda>m. m\<lparr>deferred := deferred m - {p}\<rparr>) co)) ps co)"
proof (induction ps arbitrary: co)
  case (Cons p ps)
  let ?f = "\<lambda>m :: manager. m\<lparr>deferred := deferred m - {p}\<rparr>"
  have "same_core (upd_global (\<lambda>m. m\<lparr>deferred := deferred m - set ps\<rparr>) (upd_global ?f co))
      (upd_global (\<lambda>m. m\<lparr>deferred := deferred m - set ps\<rparr>) (enqueue_cell p (upd_global ?f co)))"
    by (rule same_core_upd) (rule enqueue_cell_same)
  note step = same_core_trans [OF this Cons.IH]
  have "deferred m - {p} - set ps = deferred m - set (p # ps)" for m :: manager by auto
  then show ?case using step by (simp add: upd_global_def del: Diff_insert0)
qed simp

definition reown :: "(i32 \<times> i32) set \<Rightarrow> manager \<Rightarrow> manager" where
  "reown new m = (if new \<noteq> owned m then m\<lparr>local_revision := local_revision m + 1, certified := False\<rparr> else m)
     \<lparr>owned := new, deferred := deferred m \<inter> new\<rparr>"

lemma update_ownership_eq:
  assumes "finite (deferred (c_global co))"
  shows "same_core (upd_global (reown (owned_now co)) co) (update_local_ownership co)"
proof -
  define new where "new = owned_now co"
  let ?m = "c_global co"
  define f where "f m = (if new \<noteq> owned ?m then m\<lparr>local_revision := local_revision m + 1, certified := False\<rparr> else m)" for m :: manager
  define co1 where "co1 = (if new \<noteq> owned ?m then
      upd_global (\<lambda>m. m\<lparr>local_revision := local_revision m + 1, certified := False\<rparr>)
        (if \<not> certified ?m then fold enqueue_cell (sorted_list_of_set (owned ?m - new)) co else co) else co)"
  have "same_core (upd_global f co) co1"
  proof (cases "new = owned ?m")
    case True
    then show ?thesis by (simp add: co1_def f_def [abs_def])
  next
    case False
    then have e: "f = (\<lambda>m. m\<lparr>local_revision := local_revision m + 1, certified := False\<rparr>)" by (simp add: f_def [abs_def])
    have "same_core co (if \<not> certified ?m then fold enqueue_cell (sorted_list_of_set (owned ?m - new)) co else co)"
      by (cases "certified ?m") (simp_all add: fold_same_core enqueue_cell_same)
    then show ?thesis unfolding co1_def e if_P [OF False] by (rule same_core_upd)
  qed
  from same_core_upd [OF this] have 1: "same_core (upd_global (\<lambda>m. (f m)\<lparr>owned := new\<rparr>) co) (upd_global (\<lambda>m. m\<lparr>owned := new\<rparr>) co1)" by simp
  let ?ps = "sorted_list_of_set (deferred ?m - new)"
  have upd: "update_local_ownership co = fold (\<lambda>p co. enqueue_cell p (upd_global (\<lambda>m. m\<lparr>deferred := deferred m - {p}\<rparr>) co)) ?ps
      (upd_global (\<lambda>m. m\<lparr>owned := new\<rparr>) co1)"
    unfolding update_local_ownership_def Let_def new_def [symmetric] co1_def ..
  have "same_core (upd_global (\<lambda>m. m\<lparr>deferred := deferred m - set ?ps\<rparr>) (upd_global (\<lambda>m. (f m)\<lparr>owned := new\<rparr>) co)) (update_local_ownership co)"
    unfolding upd by (rule same_core_trans [OF same_core_upd [OF 1] drop_deferred])
  moreover have "set ?ps = deferred ?m - new" using assms by simp
  moreover have "deferred ?m - (deferred ?m - new) = deferred ?m \<inter> new" by blast
  ultimately show ?thesis unfolding upd_global_upd by (simp add: upd_global_def reown_def f_def new_def [symmetric] split: if_splits)
qed

lemma finite_owned_now: "finite (owned_now co)"
proof -
  have "finite {(x, y) \<in> set (window_cells vi). 0 \<le> x \<and> 0 \<le> y \<and> x < c_width co \<and> y < c_height co}" for vi
    by (rule finite_subset [of _ "set (window_cells vi)"]) auto
  then show ?thesis by (simp add: owned_now_def split: option.split)
qed

lemma update_ownership_inv:
  assumes base: "base_inv co" and cert: "cert_inv co"
  shows "core_inv (update_local_ownership co)" "evolves co (update_local_ownership co)"
proof -
  have "finite (deferred (c_global co))" using base finite_subset unfolding base_inv_def by blast
  note up = update_ownership_eq [OF this, unfolded same_core_def]
  let ?co = "update_local_ownership co" and ?new = "owned_now co"
  have now: "owned_now ?co = ?new" by (rule owned_now_cong) (use up in \<open>simp_all add: reown_def\<close>)
  have m: "c_global ?co = reown ?new (c_global co)" using up by simp
  show "core_inv ?co" unfolding core_inv_def base_inv_def cert_inv_def now m
    using base cert up finite_owned_now by (auto simp: reown_def base_inv_def cert_inv_def field_ok_def ids_ok_def)
  show "evolves co ?co" unfolding evolves_def m using up
    by (auto simp: reown_def fresh_or_kept_def steady_def field_evolves_def outside_kept_def headings_of_def m)
qed

lemma core_invD: "core_inv co \<Longrightarrow> base_inv co \<and> cert_inv co"
  and base_invD: "base_inv co \<Longrightarrow> ids_ok (c_global co)"
  by (simp_all add: core_inv_def base_inv_def)

lemma claim_inv:
  assumes "core_inv co"
  shows "core_inv (snd (claim_local co)) \<and> evolves co (snd (claim_local co))"
proof -
  let ?co = "upd_global (\<lambda>m. m\<lparr>serial := serial (c_global co) + 1, owner := Some (serial (c_global co) + 1), local_in_flight := None, certified := False\<rparr>) co"
  have b: "base_inv ?co" "cert_inv ?co" using assms by (auto simp: core_inv_def base_inv_def cert_inv_def field_ok_def ids_ok_def)
  have ids: "ids_ok (c_global co)" using assms by (simp add: core_inv_def base_inv_def)
  then have "owner (c_global co) \<noteq> Some (Suc (serial (c_global co)))" by (auto simp: ids_ok_def)
  then have "evolves co ?co" by (auto simp: evolves_def fresh_or_kept_def steady_def headings_of_def)
  then show ?thesis using update_ownership_inv [OF b] evolves_trans [OF ids] by (simp add: claim_local_def Let_def)
qed

lemma release_inv:
  assumes "core_inv co"
  shows "core_inv (release_local ow co) \<and> evolves co (release_local ow co)"
proof (cases "owner (c_global co) = Some ow")
  case True
  let ?co = "upd_global (\<lambda>m. m\<lparr>owner := None, local_in_flight := None\<rparr>) co"
  have b: "base_inv ?co" "cert_inv ?co" using assms by (auto simp: core_inv_def base_inv_def cert_inv_def field_ok_def ids_ok_def)
  have ids: "ids_ok (c_global co)" using assms by (simp add: core_inv_def base_inv_def)
  have "evolves co ?co" by (auto simp: evolves_def fresh_or_kept_def steady_def headings_of_def)
  then show ?thesis using update_ownership_inv [OF b] evolves_trans [OF ids] True by (simp add: release_local_def)
qed (use assms in \<open>simp add: release_local_def\<close>)

lemma set_window_inv:
  assumes inv: "core_inv co" and set: "set_window cosf sinf pose co = Some co'"
  shows "core_inv co' \<and> evolves co co'"
proof (cases "core_local co")
  case (Some vi)
  then obtain vi' where w: "set_local_window cosf sinf (pv_x pose) (pv_y pose) (yaw_rad pose) vi = Some vi'"
    and co': "co' = update_local_ownership (upd_field (\<lambda>_. vi') co)" using set by (auto simp: set_window_def)
  have b: "base vi' = base vi" using set_local_window_spec [OF w] by simp
  let ?co = "upd_field (\<lambda>_. vi') co"
  have inv': "base_inv ?co" "cert_inv ?co" using inv by (auto simp: core_inv_def base_inv_def cert_inv_def field_ok_def Some b)
  have "evolves co ?co" by (auto simp: evolves_def fresh_or_kept_def field_evolves_def outside_kept_def headings_of_def Some b)
  then show ?thesis using update_ownership_inv [OF inv'] evolves_trans inv unfolding co' core_inv_def base_inv_def by blast
qed (use inv set in \<open>simp add: set_window_def\<close>)


section \<open>Scans and margins\<close>

lemma owned_now_window:
  assumes "core_local co' = Some vi'" "core_local co = Some vi" "owner (c_global co') = owner (c_global co)"
    "c_width co' = c_width co" "c_height co' = c_height co" "window_cells vi' = window_cells vi"
  shows "owned_now co' = owned_now co"
  using assms by (cases "owner (c_global co)") (simp_all add: owned_now_def)

lemma window_cells_cong:
  "in_local_area vi' = in_local_area vi \<Longrightarrow> local_ix_min vi' = local_ix_min vi \<Longrightarrow> local_ix_max vi' = local_ix_max vi \<Longrightarrow>
   local_iy_min vi' = local_iy_min vi \<Longrightarrow> local_iy_max vi' = local_iy_max vi \<Longrightarrow> window_cells vi' = window_cells vi"
  by (simp add: window_cells_def)

lemma cell_input_state:
  assumes "wf_vi (base vi)" "in_map (base vi) (x, y, 0)"
  shows "cell_input vi (int x, int y) = state_input (state_at (base vi) (x, y, 0))"
  using to_index_cell [OF assms] by (simp add: cell_input_def to_index_def state_at_def state_input_def Let_def)

lemma same_inputs:
  assumes wf: "wf_vi (base vi)" and step: "inputs_step vi vi'" and th: "theta_uniform (base vi)"
    and same: "map (cell_input vi') (window_cells vi') = map (cell_input vi) (window_cells vi)" and wf': "wf_vi (base vi')"
  shows "base vi' = base vi"
proof -
  let ?b = "base vi" and ?b' = "base vi'"
  obtain sts od where v: "vi' = vi\<lparr>base := ?b\<lparr>states := sts\<rparr>, obstacle_dist := od\<rparr>" "length sts = length (states ?b)"
    and at: "\<And>x y t. in_map ?b (x, y, t) \<Longrightarrow> (\<exists>i. state_at ?b' (x, y, t) = put_input i (state_at ?b (x, y, t))) \<and>
        (\<not> in_local_area vi (int x) (int y) \<longrightarrow> state_at ?b' (x, y, t) = state_at ?b (x, y, t))"
    and th': "theta_uniform ?b'"
    using step th unfolding inputs_step_def by blast
  note sel = inputs_stepD [OF step]
  have wc: "window_cells vi' = window_cells vi" by (rule window_cells_cong) (use sel in simp_all)
  have eq: "state_at ?b' c = state_at ?b c" if c: "in_map ?b c" for c
  proof -
    obtain x y t where xyt: "c = (x, y, t)" by (cases c)
    have m: "in_map ?b (x, y, t)" "in_map ?b (x, y, 0)" "in_map ?b' (x, y, 0)" "in_map ?b' (x, y, t)"
      using c wf_dims_pos(3) [OF wf] unfolding sel(2) xyt by simp_all
    show ?thesis
    proof (cases "in_local_area vi (int x) (int y)")
      case True
      then have "(int x, int y) \<in> set (window_cells vi)" by (simp add: window_cells_iff)
      then have "cell_input vi' (int x, int y) = cell_input vi (int x, int y)" using same unfolding wc by simp
      then have "state_input (state_at ?b' (x, y, 0)) = state_input (state_at ?b (x, y, 0))"
        unfolding cell_input_state [OF wf m(2)] cell_input_state [OF wf' m(3)] .
      moreover have "state_input (state_at ?b' (x, y, t)) = state_input (state_at ?b' (x, y, 0))" using th' m(4) unfolding theta_uniform_def by blast
      moreover have "state_input (state_at ?b (x, y, t)) = state_input (state_at ?b (x, y, 0))" using th m(1) unfolding theta_uniform_def by blast
      ultimately have i: "state_input (state_at ?b' (x, y, t)) = state_input (state_at ?b (x, y, t))" by simp
      obtain i where p: "state_at ?b' (x, y, t) = put_input i (state_at ?b (x, y, t))" using at [OF m(1)] by blast
      then have "i = state_input (state_at ?b (x, y, t))" using i by simp
      then show ?thesis unfolding xyt p by simp
    qed (use at [OF m(1)] xyt in simp)
  qed
  have "sts = states ?b"
  proof (rule nth_equalityI [OF v(2)])
    fix i assume "i < length sts"
    then have "i < dim_x ?b * dim_y ?b * dim_t ?b" using v(2) wf by (simp add: wf_vi_def)
    then obtain c where "in_map ?b c" "cidx ?b c = i" by (rule cidx_surj)
    then show "sts ! i = states ?b ! i" using eq [of c] sel(3) v(1) by (simp add: state_at_def)
  qed
  then show ?thesis using v(1) by simp
qed

definition dearer_update :: "(manager \<Rightarrow> manager) \<Rightarrow> bool" where
  "dearer_update f \<longleftrightarrow> (\<forall>m. \<not> certified (f m) \<and> local_revision m < local_revision (f m) \<and> epoch m \<le> epoch (f m) \<and>
     boundary_revision m \<le> boundary_revision (f m) \<and> serial (f m) = serial m \<and> owner (f m) = owner m \<and> owned (f m) = owned m \<and>
     deferred (f m) = deferred m \<and> local_in_flight (f m) = local_in_flight m)"

definition queued :: "predecessor list list \<Rightarrow> (i32 \<times> i32 \<times> i32) list \<Rightarrow> manager \<Rightarrow> manager" where
  "queued rv pend m = m\<lparr>inv_reverse := rv, inv_pending := inv_pending m @ pend, epoch := epoch m + 1,
     boundary_revision := boundary_revision m + 1, certified := False\<rparr>"

lemma queue_cases:
  "queue_cost_increases cells co = co \<or> (\<exists>rv pend. queue_cost_increases cells co = upd_global (queued rv pend) co)"
proof -
  let ?rv = "if inv_reverse (c_global co) = [] then map_option (\<lambda>vi. build_reverse (base vi)) (core_local co) else Some (inv_reverse (c_global co))"
  show ?thesis by (cases ?rv) (auto simp: queue_cost_increases_def queued_def [abs_def] Let_def)
qed

lemma invalidate_inputs_dearer:
  assumes "old \<noteq> local_inputs co"
  shows "\<exists>f. dearer_update f \<and> same_core (upd_global f co) (invalidate_local_inputs old co)"
proof -
  define g where "g m = m\<lparr>certified := False, local_revision := local_revision m + 1\<rparr>" for m :: manager
  let ?co = "upd_global g co"
  have q: "\<exists>f. dearer_update f \<and> same_core (upd_global f co) (queue_cost_increases cells ?co)" for cells
    using queue_cases [of cells ?co]
  proof (elim disjE exE)
    assume "queue_cost_increases cells ?co = ?co"
    then show ?thesis by (intro exI [of _ g]) (simp add: dearer_update_def g_def)
  next
    fix rv pend assume q: "queue_cost_increases cells ?co = upd_global (queued rv pend) ?co"
    show ?thesis by (rule exI [of _ "\<lambda>m. queued rv pend (g m)"]) (simp add: q dearer_update_def g_def queued_def)
  qed
  show ?thesis
  proof (cases "core_local co")
    case None
    then show ?thesis using assms by (intro exI [of _ g]) (simp add: invalidate_local_inputs_def Let_def g_def [abs_def] dearer_update_def)
  next
    case (Some vi)
    obtain f where f: "dearer_update f" "same_core (upd_global f co) (queue_cost_increases (increased_cells vi old) ?co)" using q by blast
    have "invalidate_local_inputs old co = enqueue_global (local_ix_min vi, local_ix_max vi, local_iy_min vi, local_iy_max vi)
        (queue_cost_increases (increased_cells vi old) ?co)"
      using assms Some by (simp add: invalidate_local_inputs_def Let_def g_def [abs_def])
    then show ?thesis using f same_core_trans [OF f(2) enqueue_global_same] by auto
  qed
qed


text \<open>\<open>vi1\<close> is the field with other scan settings.\<close>

lemma inputs_change_inv:
  assumes inv: "core_inv co" and vi: "core_local co = Some vi" and w: "window_in_map vi" and step: "inputs_step vi1 vi'"
    and vi1: "base vi1 = base vi" "in_local_area vi1 = in_local_area vi" "local_ix_min vi1 = local_ix_min vi" "local_ix_max vi1 = local_ix_max vi"
      "local_iy_min vi1 = local_iy_min vi" "local_iy_max vi1 = local_iy_max vi"
  shows "core_inv (invalidate_local_inputs (local_inputs co) (upd_field (\<lambda>_. vi') co)) \<and>
    evolves co (invalidate_local_inputs (local_inputs co) (upd_field (\<lambda>_. vi') co))"
proof -
  let ?co = "upd_field (\<lambda>_. vi') co"
  have f: "field_ok co vi" using inv vi by (simp add: core_inv_def base_inv_def)
  have ok1: "inputs_ok vi1" using f w by (simp add: inputs_ok_def vi1 window_in_map_def field_ok_def)
  have wf': "wf_vi (base vi')" using inputs_ok_step [OF step ok1] by (simp add: inputs_ok_def)
  note sel = inputs_stepD [OF step]
  have f': "field_ok co vi'" using f wf' step unfolding field_ok_def sel vi1 by (simp add: inputs_step_def vi1)
  have wc: "window_cells vi1 = window_cells vi" "window_cells vi' = window_cells vi1" by (rule window_cells_cong; use vi1 sel in simp)+
  have loc: "core_local ?co = Some vi'" by (simp add: vi)
  have now: "owned_now ?co = owned_now co" by (rule owned_now_window [OF loc vi]) (simp_all add: wc)
  have ci: "cell_input vi1 = cell_input vi" by (simp add: fun_eq_iff cell_input_def vi1)
  show ?thesis
  proof (cases "local_inputs co = local_inputs ?co")
    case True
    then have "map (cell_input vi') (window_cells vi') = map (cell_input vi1) (window_cells vi1)" by (simp add: local_inputs_def vi wc ci)
    from same_inputs [OF _ step _ this wf'] have b: "base vi' = base vi" using f by (simp add: vi1 field_ok_def)
    have "core_inv ?co" using inv f' now unfolding core_inv_def base_inv_def cert_inv_def loc vi by (simp add: b field_ok_def)
    moreover have "evolves co ?co"
      by (simp add: evolves_def fresh_or_kept_def field_evolves_def outside_kept_def headings_of_def vi b)
    ultimately show ?thesis using True by (simp add: invalidate_local_inputs_def)
  next
    case False
    then obtain g where g: "dearer_update g" "same_core (upd_global g ?co) (invalidate_local_inputs (local_inputs co) ?co)"
      using invalidate_inputs_dearer by blast
    let ?co' = "upd_global g ?co"
    have "owned_now ?co' = owned_now co" unfolding now [symmetric] using g(1) by (intro owned_now_cong) (simp_all add: dearer_update_def)
    then have i: "core_inv ?co'" using inv f' g(1) unfolding core_inv_def base_inv_def cert_inv_def
      by (auto simp: dearer_update_def loc vi ids_ok_def field_ok_def)
    have gm: "local_revision (c_global co) < local_revision (g (c_global co))" using g(1) by (simp add: dearer_update_def)
    have "epoch (c_global co) \<le> epoch (g (c_global co))" "boundary_revision (c_global co) \<le> boundary_revision (g (c_global co))"
      "serial (g (c_global co)) = serial (c_global co)" "owner (g (c_global co)) = owner (c_global co)"
      "local_in_flight (g (c_global co)) = local_in_flight (c_global co)" using g(1) by (simp_all add: dearer_update_def)
    with gm sel(7) have "evolves co ?co'" by (simp add: evolves_def fresh_or_kept_def steady_def headings_of_def vi vi1)
    then show ?thesis using same_core_inv [OF g(2) i] evolves_trans inv unfolding core_inv_def base_inv_def by blast
  qed
qed

lemma observe_scan_inv:
  assumes inv: "core_inv co" and w: "\<And>vi. core_local co = Some vi \<Longrightarrow> window_in_map vi"
    and scan: "observe_scan_gated cosf sinf map_clear radius pen sc pose shift co = Some co'"
  shows "core_inv co' \<and> evolves co co'"
proof (cases "core_local co")
  case (Some vi)
  let ?vi = "vi\<lparr>clear_map_from_scan := map_clear, scan_penalty_radius := radius, scan_penalty := pen\<rparr>"
  obtain vi' where v: "set_local_cost_attenuated cosf sinf sc (pv_x pose) (pv_y pose) (yaw_rad pose) shift ?vi = Some vi'"
    and co': "co' = invalidate_local_inputs (local_inputs co) (upd_field (\<lambda>_. vi') co)"
    using scan by (auto simp: observe_scan_gated_def Some)
  have "in_shape ?vi a b = in_shape vi a b" for a b by (cases "shape (l_shape vi)") (simp_all add: in_shape_def)
  then have area: "in_local_area ?vi = in_local_area vi" by (simp add: fun_eq_iff in_local_area_def)
  have "inputs_ok ?vi" using inv w [OF Some] Some by (simp add: inputs_ok_def window_in_map_def core_inv_def base_inv_def field_ok_def)
  from inputs_change_inv [OF inv Some w [OF Some] set_local_cost_step [OF v this] _ area] show ?thesis unfolding co' by simp
qed (use inv scan in \<open>simp add: observe_scan_gated_def\<close>)

lemma inflate_inv:
  assumes inv: "core_inv co" and w: "\<And>vi. core_local co = Some vi \<Longrightarrow> window_in_map vi"
  shows "core_inv (core_inflate gain cfg sigma co) \<and> evolves co (core_inflate gain cfg sigma co)"
proof (cases "core_local co")
  case None
  then have "upd_field f co = co" for f by (simp add: upd_field_def core_local_def)
  then show ?thesis using inv by (simp add: core_inflate_def invalidate_local_inputs_def Let_def)
next
  case (Some vi)
  let ?e = "f_min (f_mul sigma gain) (min_radius_m cfg)"
  have "upd_field (inflate_by_sigma ?e) co = upd_field (\<lambda>_. inflate_by_sigma ?e vi) co"
    using Some by (cases "c_cached co") (simp_all add: upd_field_def core_local_def)
  moreover have "inputs_step vi (inflate_by_sigma ?e vi)"
    by (rule inflate_step) (use inv w [OF Some] Some in \<open>simp add: inputs_ok_def core_inv_def base_inv_def field_ok_def\<close>)
  ultimately show ?thesis using inputs_change_inv [OF inv Some w [OF Some]] inv by (simp add: core_inflate_def Let_def)
qed

lemma window_cells_base: "window_cells (vi\<lparr>base := b\<rparr>) = window_cells vi"
  by (rule window_cells_cong) (simp_all add: in_local_area_base)

lemma framed_field:
  assumes f: "field_ok co vi" and fr: "same_frame (base vi) b"
  shows "field_ok co (vi\<lparr>base := b\<rparr>)"
proof -
  have "state_input (state_at b c) = state_input (state_at (base vi) c)" if "in_map (base vi) c" for c
    using same_frame_statics [OF fr _ that] f by (simp add: field_ok_def same_statics_def)
  note i = this
  have "theta_uniform b" unfolding theta_uniform_def same_frame_sel(8) [OF fr]
  proof (intro allI impI)
    fix x y t assume c: "in_map (base vi) (x, y, t)"
    then have c0: "in_map (base vi) (x, y, 0)" by simp
    have "state_input (state_at (base vi) (x, y, t)) = state_input (state_at (base vi) (x, y, 0))"
      using f c unfolding field_ok_def theta_uniform_def by blast
    then show "state_input (state_at b (x, y, t)) = state_input (state_at b (x, y, 0))" unfolding i [OF c] i [OF c0] .
  qed
  then show ?thesis using f same_frame_wf [OF fr] by (simp add: field_ok_def same_frame_sel [OF fr])
qed

section \<open>Invalidation\<close>

text \<open>What draining the queue of stale policies may change.\<close>

definition field_framed :: "vi_local option \<Rightarrow> vi_local option \<Rightarrow> bool" where
  "field_framed f f' \<longleftrightarrow> (case f of None \<Rightarrow> f' = None
     | Some vi \<Rightarrow> (case f' of None \<Rightarrow> False | Some vi' \<Rightarrow> vi' = vi\<lparr>base := base vi'\<rparr> \<and> same_frame (base vi) (base vi')))"

lemma field_framed_refl [simp]: "field_framed f f"
  by (simp add: field_framed_def split: option.split)

lemma field_framed_Some: "field_framed (Some vi) f' \<longleftrightarrow> (\<exists>b. f' = Some (vi\<lparr>base := b\<rparr>) \<and> same_frame (base vi) b)"
proof
  assume "field_framed (Some vi) f'"
  then obtain vi' where v: "f' = Some vi'" "vi' = vi\<lparr>base := base vi'\<rparr>" "same_frame (base vi) (base vi')" by (auto simp: field_framed_def split: option.splits)
  have "f' = Some (vi\<lparr>base := base vi'\<rparr>) \<and> same_frame (base vi) (base vi')" using v(1,3) v(2) [symmetric] by simp
  then show "\<exists>b. f' = Some (vi\<lparr>base := b\<rparr>) \<and> same_frame (base vi) b" by (rule exI)
qed (auto simp: field_framed_def)

lemma field_framed_trans:
  assumes "field_framed f f1" "field_framed f1 f2"
  shows "field_framed f f2"
proof (cases f)
  case (Some vi)
  obtain b1 where b1: "f1 = Some (vi\<lparr>base := b1\<rparr>)" "same_frame (base vi) b1" using assms(1) unfolding Some field_framed_Some by blast
  obtain b2 where b2: "f2 = Some (vi\<lparr>base := b2\<rparr>)" "same_frame b1 b2" using assms(2) unfolding b1 field_framed_Some by auto
  show ?thesis unfolding Some field_framed_Some using b2(1) same_frame_trans [OF b1(2) b2(2)] by blast
qed (use assms in \<open>simp add: field_framed_def\<close>)

definition drains :: "core \<Rightarrow> core \<Rightarrow> bool" where
  "drains co co' \<longleftrightarrow> c_width co' = c_width co \<and> c_height co' = c_height co \<and> (sweep_ok co \<longrightarrow> sweep_ok co') \<and>
     c_global co' = (c_global co)\<lparr>inv_pending := inv_pending (c_global co')\<rparr> \<and> field_framed (core_local co) (core_local co')"

lemma drains_refl: "drains co co"
  by (simp add: drains_def)

lemma drains_trans:
  assumes "drains co co1" "drains co1 co2"
  shows "drains co co2"
proof -
  have "c_global co2 = (c_global co1)\<lparr>inv_pending := inv_pending (c_global co2)\<rparr>" using assms(2) unfolding drains_def by (elim conjE)
  also have "c_global co1 = (c_global co)\<lparr>inv_pending := inv_pending (c_global co1)\<rparr>" using assms(1) unfolding drains_def by (elim conjE)
  finally have "c_global co2 = (c_global co)\<lparr>inv_pending := inv_pending (c_global co2)\<rparr>" by simp
  moreover have "field_framed (core_local co) (core_local co2)" using assms field_framed_trans unfolding drains_def by blast
  ultimately show ?thesis using assms unfolding drains_def by (elim conjE) simp
qed

lemma drains_pending: "drains co (upd_global (\<lambda>m. m\<lparr>inv_pending := p m\<rparr>) co)"
  by (simp add: drains_def)

lemma same_core_drains: "same_core co co' \<Longrightarrow> drains co co'"
  by (simp add: drains_def same_core_def)

lemma drop_policy_frame:
  "same_frame b (b\<lparr>states := (states b)[i := (states b ! i)\<lparr>optimal_action := None\<rparr>]\<rparr>)"
proof -
  let ?sts = "(states b)[i := (states b ! i)\<lparr>optimal_action := None\<rparr>]"
  have "\<exists>v a. ?sts ! k = (states b ! k)\<lparr>total_cost := v, optimal_action := a\<rparr>" if "k < length ?sts" for k
    by (rule exI [of _ "total_cost (?sts ! k)"], rule exI [of _ "optimal_action (?sts ! k)"])
      (use that in \<open>simp add: nth_update_at\<close>)
  then show ?thesis unfolding same_frame_def by (intro exI [of _ ?sts]) simp
qed

lemma invalidate_policy_drains: "drains co (fst (invalidate_policy_state p act co))"
proof -
  obtain x y th where p: "p = (x, y, th)" by (cases p)
  show ?thesis
  proof (cases "core_local co")
    case (Some vi)
    show ?thesis using drop_policy_frame
      by (simp add: p invalidate_policy_state_def Let_def drains_def Some) (auto simp: field_framed_Some)
  qed (simp add: p invalidate_policy_state_def drains_refl)
qed

lemma invalidate_predecessor_drains: "drains co (invalidate_predecessor x y p co)"
proof -
  define px py where "px = wrap32 (x - pr_dx p)" and "py = wrap32 (y - pr_dy p)"
  obtain co1 hit where i: "invalidate_policy_state (px, py, pr_theta p) (pr_action p) co = (co1, hit)" by fastforce
  have d: "drains co co1" using invalidate_policy_drains [of co "(px, py, pr_theta p)" "pr_action p"] i by simp
  have "drains co (if hit then enqueue_cell (px, py) (upd_global (\<lambda>m. m\<lparr>inv_pending := inv_pending m @ [(px, py, pr_theta p)]\<rparr>) co1) else co1)"
    using d drains_trans [OF d drains_trans [OF drains_pending same_core_drains [OF enqueue_cell_same]]] by simp
  then show ?thesis unfolding invalidate_predecessor_def Let_def px_def [symmetric] py_def [symmetric] i by (simp add: drains_refl)
qed

lemma fold_drains: "(\<And>p co. drains co (f p co)) \<Longrightarrow> drains co (fold f ps co)"
  by (induction ps arbitrary: co) (auto intro: drains_refl drains_trans)

lemma advance_drains: "drains co (fst (advance_invalidations n co))"
proof (induction n co rule: advance_invalidations.induct)
  case (2 n co)
  show ?case
  proof (cases "inv_pending (c_global co)")
    case (Cons q rest)
    obtain x y th where q: "q = (x, y, th)" by (cases q)
    let ?co = "upd_global (\<lambda>m. m\<lparr>inv_pending := rest\<rparr>) co"
    let ?f = "fold (invalidate_predecessor x y) (inv_reverse (c_global ?co) ! usize_of th) ?co"
    have "drains co ?f" by (rule drains_trans [OF drains_pending fold_drains [OF invalidate_predecessor_drains]])
    moreover have "drains ?f (fst (advance_invalidations n ?f))" using 2 Cons q by simp
    ultimately show ?thesis using Cons q drains_trans by (simp add: Let_def)
  qed (simp add: drains_refl)
qed (simp add: drains_refl)

lemma advance_done: "snd (advance_invalidations n co) \<Longrightarrow> inv_pending (c_global (fst (advance_invalidations n co))) = []"
  by (induction n co rule: advance_invalidations.induct) (auto simp: Let_def split: list.splits)

lemma advance_empty: "inv_pending (c_global co) = [] \<Longrightarrow> advance_invalidations n co = (co, True)"
  by (cases n) simp_all

lemma advance_inv:
  assumes inv: "core_inv co"
  shows "core_inv (fst (advance_invalidations n co)) \<and> evolves co (fst (advance_invalidations n co))"
proof (cases "inv_pending (c_global co) = []")
  case False
  let ?co = "fst (advance_invalidations n co)"
  have d: "drains co ?co" by (rule advance_drains)
  then obtain pend where m: "c_global ?co = (c_global co)\<lparr>inv_pending := pend\<rparr>" unfolding drains_def by blast
  have dims: "c_width ?co = c_width co" "c_height ?co = c_height co" "sweep_ok co \<longrightarrow> sweep_ok ?co" using d unfolding drains_def by blast+
  have nc: "\<not> certified (c_global co)" using inv False by (simp add: core_inv_def cert_inv_def)
  show ?thesis
  proof (cases "core_local co")
    case None
    then have "core_local ?co = None" using d unfolding drains_def by (simp add: field_framed_def)
    then show ?thesis using inv None m dims nc
      by (simp add: core_inv_def base_inv_def cert_inv_def owned_now_def ids_ok_def evolves_def fresh_or_kept_def field_evolves_def headings_of_def split: option.splits)
  next
    case (Some vi)
    have f: "field_ok co vi" using inv Some by (simp add: core_inv_def base_inv_def)
    then obtain b where b: "core_local ?co = Some (vi\<lparr>base := b\<rparr>)" "same_frame (base vi) b"
      using d unfolding drains_def Some field_framed_Some by blast
    have f': "field_ok ?co (vi\<lparr>base := b\<rparr>)" using framed_field [OF f b(2)] by (simp add: field_ok_def dims)
    have "owned_now ?co = owned_now co" by (rule owned_now_window [OF b(1) Some]) (simp_all add: m dims window_cells_base)
    then have "core_inv ?co" using inv f' nc m dims unfolding core_inv_def base_inv_def cert_inv_def by (auto simp: b(1) ids_ok_def)
    moreover have "evolves co ?co" using False m dims b Some
      by (simp add: evolves_def fresh_or_kept_def field_evolves_def headings_of_def same_frame_sel [OF b(2)])
    ultimately show ?thesis by simp
  qed
qed (use inv in \<open>simp add: advance_empty\<close>)


section \<open>Global jobs\<close>

definition global_ok :: "global_job \<Rightarrow> core \<Rightarrow> bool" where
  "global_ok j co \<longleftrightarrow> gj_epoch j \<le> epoch (c_global co) \<and>
     (\<forall>(x, y)\<in>set (gj_cells j). 0 \<le> x + fst (gj_origin j) \<and> x + fst (gj_origin j) < c_width co \<and>
        0 \<le> y + snd (gj_origin j) \<and> y + snd (gj_origin j) < c_height co) \<and>
     (gj_epoch j = epoch (c_global co) \<longrightarrow> headings_of co = Some (cell_num_t (gj_vi j)))"

lemma global_ok_evolves: "core_inv co \<Longrightarrow> evolves co co' \<Longrightarrow> global_ok j co \<Longrightarrow> global_ok j co'"
  by (auto simp: global_ok_def evolves_def)

lemma job_pass_headings: "cell_num_t (fst (job_pass cells v)) = cell_num_t v"
proof -
  have "cell_num_t (fst (pass_state p t s)) = cell_num_t (fst s)" for p t s
    by (cases p; cases s) (simp add: pass_state_def case_prod_beta at_cell_num_t)
  then have "cell_num_t (fst (fold (pass_state p) ts s)) = cell_num_t (fst s)" for p ts s by (induction ts arbitrary: s) simp_all
  then have "cell_num_t (fst (fold (\<lambda>p. fold (pass_state p) ts) cells s)) = cell_num_t (fst s)" for ts s by (induction cells arbitrary: s) simp_all
  then show ?thesis by (simp add: job_pass_def)
qed

lemma global_run_ok: "global_ok j co \<Longrightarrow> global_ok (global_run j) co"
  using job_pass_headings [of "gj_cells j" "gj_vi j"] by (simp add: global_ok_def global_run_def case_prod_beta)

definition owned_kept :: "(i32 \<times> i32) set \<Rightarrow> value_iterator \<Rightarrow> value_iterator \<Rightarrow> bool" where
  "owned_kept own b b' \<longleftrightarrow> (\<forall>x y t. in_map b (x, y, t) \<and> (int x, int y) \<in> own \<longrightarrow> state_at b' (x, y, t) = state_at b (x, y, t))"

lemma still_column:
  assumes "\<not> column_moved sts new dst src nt" "dst + nt \<le> length sts"
  shows "copy_column src dst nt new sts = sts"
proof (rule nth_equalityI)
  note nth = copy_column_nth [of src dst nt new sts]
  show "length (copy_column src dst nt new sts) = length sts" using nth by blast
  fix i assume "i < length (copy_column src dst nt new sts)"
  then have i: "i < length sts" using nth by simp
  have "put_values (new ! (src + (i - dst))) (sts ! i) = sts ! i" if "dst \<le> i" "i < dst + nt"
  proof -
    have "i - dst < nt" "dst + (i - dst) = i" using that by simp_all
    then have "total_cost (sts ! i) = total_cost (new ! (src + (i - dst))) \<and> optimal_action (sts ! i) = optimal_action (new ! (src + (i - dst)))"
      using assms(1) unfolding column_moved_def list_ex_iff set_upt by (metis atLeastLessThan_iff le0)
    then show ?thesis by (simp add: put_values_def)
  qed
  then show "copy_column src dst nt new sts ! i = sts ! i" using nth i by simp
qed

text \<open>What the cells committed so far have done.\<close>

definition committed :: "core \<Rightarrow> core \<Rightarrow> (i32 \<times> i32) list \<Rightarrow> bool" where
  "committed co co' changed \<longleftrightarrow> c_width co' = c_width co \<and> c_height co' = c_height co \<and> c_sweep co' = c_sweep co \<and>
     c_global co' = (c_global co)\<lparr>deferred := deferred (c_global co')\<rparr> \<and> deferred (c_global co') \<subseteq> deferred (c_global co) \<union> owned (c_global co) \<and>
     (certified (c_global co) \<longrightarrow> deferred (c_global co') = deferred (c_global co)) \<and> field_framed (core_local co) (core_local co') \<and>
     (\<forall>vi vi'. core_local co = Some vi \<and> core_local co' = Some vi' \<longrightarrow>
        owned_kept (owned (c_global co)) (base vi) (base vi') \<and> (changed = [] \<longrightarrow> vi' = vi))"

lemma commit_cell_step:
  assumes com: "committed co0 co ch" and f: "\<And>vi. core_local co0 = Some vi \<Longrightarrow> field_ok co0 vi"
    and hd: "headings_of co0 = Some (cell_num_t (gj_vi j))"
    and area: "0 \<le> x + fst (gj_origin j)" "x + fst (gj_origin j) < c_width co0" "0 \<le> y + snd (gj_origin j)" "y + snd (gj_origin j) < c_height co0"
    and step: "commit_cell j (x, y) (co, ch, rt) = Some (co', ch', rt')"
  shows "committed co0 co' ch'"
proof -
  define gx gy where "gx = x + fst (gj_origin j)" and "gy = y + snd (gj_origin j)"
  obtain vi0 where vi0: "core_local co0 = Some vi0" "cell_num_t (base vi0) = cell_num_t (gj_vi j)" using hd by (auto simp: headings_of_def)
  have ff: "field_framed (core_local co0) (core_local co)" using com by (simp add: committed_def)
  obtain b where b: "core_local co = Some (vi0\<lparr>base := b\<rparr>)" "same_frame (base vi0) b" using ff unfolding vi0 field_framed_Some by blast
  have m: "c_global co = (c_global co0)\<lparr>deferred := deferred (c_global co)\<rparr>" using com unfolding committed_def by (elim conjE)
  have own: "owned (c_global co) = owned (c_global co0)" "certified (c_global co) = certified (c_global co0)"
    by (subst m, simp)+
  note st = step [unfolded commit_cell_def prod.case Let_def gx_def [symmetric] gy_def [symmetric]]
  show ?thesis
  proof (cases "(gx, gy) \<in> owned (c_global co)")
    case True
    then have "co' = (if certified (c_global co) then co else upd_global (\<lambda>m. m\<lparr>deferred := insert (gx, gy) (deferred m)\<rparr>) co)" "ch' = ch"
      using st by simp_all
    moreover have "(c_global co)\<lparr>deferred := D\<rparr> = (c_global co0)\<lparr>deferred := D\<rparr>" for D by (subst m) simp
    ultimately show ?thesis using com True own unfolding committed_def by (auto split: if_splits)
  next
    case False
    let ?nt = "usize_of (cell_num_t (gj_vi j))" and ?i = "usize_of (to_index (gj_vi j) x y 0)" and ?dst = "usize_of (to_index b gx gy 0)"
    have base': "base (vi0\<lparr>base := b\<rparr>) = b" by simp
    note st' = st [unfolded if_not_P [OF False] b(1) option.case base']
    show ?thesis
    proof (cases "\<not> gj_ran j \<or> \<not> list_all (\<lambda>t. unchanged (states b ! (?dst + t)) (gj_before j ! (?i + t))) [0..<?nt]")
      case True
      then have "co' = co" "ch' = ch" using st' by (auto split: if_splits)
      then show ?thesis using com by simp
    next
      case pub: False
      define F where "F = b\<lparr>states := copy_column ?i ?dst ?nt (states (gj_vi j)) (states b)\<rparr>"
      have fb: "field_ok co0 (vi0\<lparr>base := b\<rparr>)" by (rule framed_field [OF f [OF vi0(1)] b(2)])
      have wf: "wf_vi b" and dims: "cell_num_x b = c_width co0" "cell_num_y b = c_height co0" using fb by (simp_all add: field_ok_def)
      have nt: "?nt = dim_t b" using usize_headings [OF wf] vi0(2) same_frame_sel(7) [OF b(2)] by simp
      have a: "in_map_area b gx gy" using area by (simp add: in_map_area_def dims gx_def gy_def)
      note F = copy_column_cells [OF wf a, where src = ?i and new = "states (gj_vi j)", folded nt, folded F_def]
      have co': "co' = upd_field (publish_column j ?i ?dst ?nt) co"
        and ch': "ch' = (if column_moved (states b) (states (gj_vi j)) ?dst ?i ?nt then ch @ [(gx, gy)] else ch)"
        using st' pub by (auto split: if_splits)
      have loc: "core_local co' = Some (vi0\<lparr>base := F\<rparr>)" by (simp add: co' b(1) publish_column_def F_def)
      have "?dst = cidx b (nat gx, nat gy, 0)" using to_index_area(1) [OF wf a, of 0] wf by (simp add: wf_vi_def del: cidx.simps)
      moreover have "cidx b (nat gx, nat gy, dim_t b - 1) < length (states b)"
        using cidx_less [of b "(nat gx, nat gy, dim_t b - 1)"] a wf wf_dims_pos(3) [OF wf]
        by (simp add: wf_vi_def in_map_area_def dim_x_def dim_y_def del: cidx.simps)
      ultimately have "?dst + ?nt \<le> length (states b)" using wf_dims_pos(3) [OF wf] unfolding nt by simp
      then have still: "F = b" if "ch' = ch" using still_column that ch' by (simp add: F_def split: if_splits)
      have "owned_kept (owned (c_global co0)) b F"
        unfolding owned_kept_def using F(2) False own by auto
      moreover have "owned_kept (owned (c_global co0)) (base vi0) b" using com vi0 b(1) by (auto simp: committed_def)
      ultimately have kept: "owned_kept (owned (c_global co0)) (base vi0) F"
        unfolding owned_kept_def same_frame_sel(8) [OF b(2)] by simp
      have empty: "vi0\<lparr>base := F\<rparr> = vi0" if "ch' = []"
      proof -
        have "ch = []" "ch' = ch" using that ch' by (simp_all split: if_splits)
        then show ?thesis using still com vi0 b(1) by (auto simp: committed_def)
      qed
      have fr: "field_framed (core_local co0) (core_local co')"
        unfolding vi0 loc field_framed_Some using same_frame_trans [OF b(2) F(1)] by blast
      have "c_global co' = c_global co" "c_width co' = c_width co" "c_height co' = c_height co" "c_sweep co' = c_sweep co" by (simp_all add: co')
      then show ?thesis using com fr kept empty unfolding committed_def loc vi0(1) by simp
    qed
  qed
qed


lemma owned_kept_refl [simp]: "owned_kept S b b"
  by (simp add: owned_kept_def)

lemma committed_refl: "committed co co []"
  by (auto simp: committed_def)

lemma commit_cells:
  assumes "committed co0 co ch" "\<And>vi. core_local co0 = Some vi \<Longrightarrow> field_ok co0 vi" "headings_of co0 = Some (cell_num_t (gj_vi j))"
    and "\<forall>(x, y)\<in>set cells. 0 \<le> x + fst (gj_origin j) \<and> x + fst (gj_origin j) < c_width co0 \<and> 0 \<le> y + snd (gj_origin j) \<and> y + snd (gj_origin j) < c_height co0"
    and "fold (\<lambda>p r. Option.bind r (commit_cell j p)) cells (Some (co, ch, rt)) = Some (co', ch', rt')"
  shows "committed co0 co' ch'"
  using assms(1,4,5)
proof (induction cells arbitrary: co ch rt)
  case (Cons p cells)
  obtain x y where p: "p = (x, y)" by (cases p)
  have "fold (\<lambda>p r. Option.bind r (commit_cell j p)) cells None = None" by (induction cells) simp_all
  then obtain r where r: "commit_cell j p (co, ch, rt) = Some r" using Cons.prems(3) by (cases "commit_cell j p (co, ch, rt)") simp_all
  obtain co1 ch1 rt1 where r1: "r = (co1, ch1, rt1)" by (cases r)
  have "committed co0 co1 ch1" by (rule commit_cell_step [OF Cons.prems(1) assms(2,3)]) (use Cons.prems(2) r r1 p in auto)
  then show ?case using Cons.IH Cons.prems(2,3) r r1 by simp
qed simp

text \<open>A commit of a global job. Owned cells keep their states, and what moves elsewhere costs the
  certificate.\<close>

definition published :: "core \<Rightarrow> core \<Rightarrow> bool" where
  "published co co' \<longleftrightarrow> field_framed (core_local co) (core_local co') \<and> owned (c_global co') = owned (c_global co) \<and>
     (\<forall>vi vi'. core_local co = Some vi \<and> core_local co' = Some vi' \<longrightarrow> owned_kept (owned (c_global co)) (base vi) (base vi') \<and>
        (vi' = vi \<or> boundary_revision (c_global co) < boundary_revision (c_global co') \<and> \<not> certified (c_global co')))"

lemma published_same: "core_local co' = core_local co \<Longrightarrow> owned (c_global co') = owned (c_global co) \<Longrightarrow> published co co'"
  by (auto simp: published_def)

lemma fold_enqueue: "same_core co (fold (\<lambda>(x, y). enqueue_cell (f x, g y)) cells co)" "same_core co (fold enqueue_cell ps co)"
  by (rule fold_same_core, auto intro: enqueue_cell_same)+

lemma in_flight_inv: "core_inv co \<Longrightarrow> core_inv (upd_global (\<lambda>m. m\<lparr>in_flight := i\<rparr>) co) \<and> evolves co (upd_global (\<lambda>m. m\<lparr>in_flight := i\<rparr>) co)"
  using owned_now_cong [of "upd_global (\<lambda>m. m\<lparr>in_flight := i\<rparr>) co" co]
  by (simp add: core_inv_def base_inv_def cert_inv_def field_ok_def ids_ok_def evolves_def fresh_or_kept_def field_evolves_def outside_kept_def headings_of_def)

lemma commit_stale_inv:
  assumes inv: "core_inv co" and stale: "gj_epoch j \<noteq> epoch (c_global co) \<or> in_flight (c_global co) \<noteq> Some (gj_id j)"
    and com: "commit_global_job j co = Some (r, co')"
  shows "core_inv co' \<and> evolves co co' \<and> published co co'"
proof -
  let ?co = "upd_global (\<lambda>m. m\<lparr>in_flight := None\<rparr>) co"
  let ?f = "fold (\<lambda>(x, y). enqueue_cell (x + fst (gj_origin j), y + snd (gj_origin j))) (gj_cells j) ?co"
  have co': "co' = (if in_flight (c_global co) = Some (gj_id j) then ?f else co)"
    using com stale unfolding commit_global_job_def by (auto simp: Let_def)
  have s: "same_core ?co ?f" by (rule fold_enqueue)
  note i = in_flight_inv [OF inv, of None]
  have "core_inv ?f \<and> evolves co ?f \<and> published co ?f"
    using same_core_inv [OF s] i evolves_trans [OF base_invD, of co ?co ?f] core_invD [OF inv] s
    by (simp add: published_same same_core_def)
  then show ?thesis unfolding co' using inv by (simp add: published_same)
qed

text \<open>After the cells, a change moves the boundary revision and withdraws the certificate.\<close>

definition mark_changed :: "bool \<Rightarrow> manager \<Rightarrow> manager" where
  "mark_changed ch m = (if ch then m\<lparr>boundary_revision := boundary_revision m + 1, certified := False\<rparr> else m)"

lemma mark_changed_sel [simp]:
  "owned (mark_changed ch m) = owned m" "serial (mark_changed ch m) = serial m" "owner (mark_changed ch m) = owner m"
  "local_in_flight (mark_changed ch m) = local_in_flight m" "inv_pending (mark_changed ch m) = inv_pending m" "epoch (mark_changed ch m) = epoch m"
  "local_revision (mark_changed ch m) = local_revision m" "deferred (mark_changed ch m) = deferred m"
  "certified (mark_changed ch m) \<longleftrightarrow> \<not> ch \<and> certified m"
  "boundary_revision (mark_changed ch m) = (if ch then boundary_revision m + 1 else boundary_revision m)"
  by (simp_all add: mark_changed_def)

lemma committed_sel:
  assumes "committed co co1 ch"
  shows "owned (c_global co1) = owned (c_global co)" "certified (c_global co1) = certified (c_global co)" "serial (c_global co1) = serial (c_global co)"
    "owner (c_global co1) = owner (c_global co)" "local_in_flight (c_global co1) = local_in_flight (c_global co)"
    "inv_pending (c_global co1) = inv_pending (c_global co)" "epoch (c_global co1) = epoch (c_global co)"
    "local_revision (c_global co1) = local_revision (c_global co)" "boundary_revision (c_global co1) = boundary_revision (c_global co)"
    "c_width co1 = c_width co" "c_height co1 = c_height co" "c_sweep co1 = c_sweep co"
proof -
  have m: "c_global co1 = (c_global co)\<lparr>deferred := deferred (c_global co1)\<rparr>" using assms unfolding committed_def by (elim conjE)
  show "owned (c_global co1) = owned (c_global co)" "certified (c_global co1) = certified (c_global co)" "serial (c_global co1) = serial (c_global co)"
    "owner (c_global co1) = owner (c_global co)" "local_in_flight (c_global co1) = local_in_flight (c_global co)"
    "inv_pending (c_global co1) = inv_pending (c_global co)" "epoch (c_global co1) = epoch (c_global co)"
    "local_revision (c_global co1) = local_revision (c_global co)" "boundary_revision (c_global co1) = boundary_revision (c_global co)"
    by (subst m, simp)+
  show "c_width co1 = c_width co" "c_height co1 = c_height co" "c_sweep co1 = c_sweep co" using assms unfolding committed_def by blast+
qed

lemma committed_inv:
  assumes inv: "core_inv co" and c: "committed co co1 ch" and vi: "core_local co = Some vi"
  defines "co2 \<equiv> upd_global (mark_changed (ch \<noteq> [])) co1"
  shows "core_inv co2 \<and> evolves co co2 \<and> published co co2"
proof -
  have f: "field_ok co vi" using inv vi by (simp add: core_inv_def base_inv_def)
  have "field_framed (core_local co) (core_local co1)" using c by (simp add: committed_def)
  then obtain b where b: "core_local co1 = Some (vi\<lparr>base := b\<rparr>)" "same_frame (base vi) b" unfolding vi field_framed_Some by blast
  note sel = committed_sel [OF c]
  have g: "c_global co2 = mark_changed (ch \<noteq> []) (c_global co1)" "c_width co2 = c_width co" "c_height co2 = c_height co" "sweep_ok co2 = sweep_ok co"
    using sweep_ok_cong [of co1 co] by (simp_all add: co2_def sel)
  have loc: "core_local co2 = Some (vi\<lparr>base := b\<rparr>)" by (simp add: co2_def b(1))
  have d: "deferred (c_global co1) \<subseteq> owned (c_global co)" "certified (c_global co) \<Longrightarrow> deferred (c_global co1) = deferred (c_global co)"
    using c inv unfolding committed_def core_inv_def base_inv_def by blast+
  have kept: "owned_kept (owned (c_global co)) (base vi) b" and still: "ch = [] \<Longrightarrow> vi\<lparr>base := b\<rparr> = vi" using c vi b(1) by (auto simp: committed_def)
  have same: "b = base vi" if "ch = []" using arg_cong [OF still [OF that], of base] by simp
  have now: "owned_now co2 = owned_now co" by (rule owned_now_window [OF loc vi]) (simp_all add: g sel window_cells_base)
  have fb: "field_ok co2 (vi\<lparr>base := b\<rparr>)" using framed_field [OF f b(2)] g by (simp add: field_ok_def)
  have "base_inv co2" using inv fb d(1) unfolding core_inv_def base_inv_def loc g(4) by (simp add: g sel ids_ok_def)
  moreover have "cert_inv co2"
  proof (cases "ch = [] \<and> certified (c_global co)")
    case True
    then show ?thesis using inv d(2) same unfolding core_inv_def cert_inv_def loc vi by (simp add: g sel)
  qed (auto simp: cert_inv_def g sel)
  ultimately have "core_inv co2" using inv now unfolding core_inv_def by (simp add: g sel)
  moreover have "evolves co co2" unfolding evolves_def field_evolves_def headings_of_def loc vi using b(2) same
    by (auto simp: g sel fresh_or_kept_def same_frame_sel outside_kept_def)
  moreover have "field_framed (core_local co) (core_local co2)" unfolding loc vi field_framed_Some using b(2) by blast
  then have "published co co2" unfolding published_def loc vi using kept still by (auto simp: g sel)
  ultimately show ?thesis by blast
qed

lemma commit_global_inv:
  assumes inv: "core_inv co" and job: "global_ok j co" and com: "commit_global_job j co = Some (r, co')"
  shows "core_inv co' \<and> evolves co co' \<and> published co co'"
proof (cases "gj_epoch j \<noteq> epoch (c_global co) \<or> in_flight (c_global co) \<noteq> Some (gj_id j)")
  case False
  let ?co = "upd_global (\<lambda>m. m\<lparr>in_flight := None\<rparr>) co"
  have i: "core_inv ?co" "evolves co ?co" using in_flight_inv [OF inv] by simp_all
  have "global_ok j ?co" by (rule global_ok_evolves [OF inv i(2) job])
  then have hd: "headings_of ?co = Some (cell_num_t (gj_vi j))" and area: "\<forall>(x, y)\<in>set (gj_cells j). 0 \<le> x + fst (gj_origin j) \<and>
      x + fst (gj_origin j) < c_width ?co \<and> 0 \<le> y + snd (gj_origin j) \<and> y + snd (gj_origin j) < c_height ?co"
    using False by (simp_all add: global_ok_def)
  let ?z = "fold (\<lambda>p r. Option.bind r (commit_cell j p)) (gj_cells j) (Some (?co, [], []))"
  have "?z \<noteq> None" using com False unfolding commit_global_job_def by auto
  then obtain co1 ch rt where z: "?z = Some (co1, ch, rt)" by auto
  let ?q = "fold enqueue_cell (ch @ rt) co1"
  have co': "co' = fst (settle_global (upd_global (mark_changed (ch \<noteq> [])) ?q))"
    using com False z by (auto simp: commit_global_job_def Let_def case_prod_beta mark_changed_def [abs_def])
  have f: "field_ok ?co vi" if "core_local ?co = Some vi" for vi using i(1) that by (simp add: core_inv_def base_inv_def)
  have c: "committed ?co co1 ch" by (rule commit_cells [OF committed_refl f hd area z])
  obtain vi where vi: "core_local ?co = Some vi" using hd by (auto simp: headings_of_def)
  let ?co2 = "upd_global (mark_changed (ch \<noteq> [])) co1"
  have s: "same_core ?co2 co'" unfolding co' by (rule same_core_trans [OF same_core_upd [OF fold_enqueue(2)] settle_same])
  note 2 = committed_inv [OF i(1) c vi]
  have "ids_ok (c_global co)" "ids_ok (c_global ?co)" using inv i(1) by (simp_all add: core_inv_def base_inv_def)
  then have "evolves co co'" using evolves_trans i(2) 2 same_core_inv(2) [OF s] by blast
  moreover have "published co co'" using 2 s unfolding published_def same_core_def by simp
  ultimately show ?thesis using same_core_inv(1) [OF s] 2 by blast
qed (use commit_stale_inv [OF inv _ com] in blast)

lemma take_batch_cells: "set (snd (take_batch n bb cs)) \<subseteq> (\<lambda>(x, y). (int x, int y)) ` set cs"
proof (induction n bb cs rule: take_batch.induct)
  case (3 n x0 x1 y0 y1 x y cs)
  note IH = 3 [OF refl refl refl refl]
  show ?case
  proof (cases "32 \<le> max x1 (int x) - min x0 (int x) \<or> 32 \<le> max y1 (int y) - min y0 (int y)")
    case False
    have "set (snd (take_batch (Suc n) (x0, x1, y0, y1) ((x, y) # cs))) =
        insert (int x, int y) (set (snd (take_batch n (min x0 (int x), max x1 (int x), min y0 (int y), max y1 (int y)) cs)))"
      using False by (simp add: Let_def case_prod_beta)
    then show ?thesis using IH [OF False] by auto
  qed (simp add: Let_def)
qed simp_all

lemma snapshot_headings: "cell_num_t (repair_values (snapshot b x0 x1 y0 y1)) = cell_num_t b"
  by (simp add: repair_sel snapshot_def geometry_def)

lemma checkout_inv:
  assumes inv: "core_inv co" and vi: "core_local co = Some vi" and out: "checkout n reach (base vi) co = (j, co')"
  shows "core_inv co' \<and> evolves co co' \<and> global_ok j co'"
proof -
  let ?sw = "c_sweep co" and ?m = "c_global co"
  obtain x y where xy: "ds_cands ?sw ! ds_pos ?sw = (x, y)" by fastforce
  obtain x0 x1 y0 y1 cand where tb: "take_batch (max 1 (n div usize_of (max (cell_num_t (base vi)) 1))) (int x, int x, int y, int y)
      (drop (ds_pos ?sw) (ds_cands ?sw)) = ((x0, x1, y0, y1), cand)" by (metis prod.exhaust)
  define D where "D = (if certified ?m then deferred ?m else deferred ?m \<union> {p \<in> set cand. p \<in> owned ?m})"
  define k where "k = ds_visits ?sw + length (filter (\<lambda>p. p \<notin> owned ?m) cand)"
  have co': "co' = co\<lparr>c_sweep := ?sw\<lparr>ds_pos := ds_pos ?sw + length cand, ds_visits := k\<rparr>,
      c_global := ?m\<lparr>serial := serial ?m + 1, in_flight := Some (serial ?m + 1), deferred := D\<rparr>, c_dirty := True\<rparr>"
    and j: "gj_epoch j = epoch ?m" "gj_cells j = map (\<lambda>(x, y). (x - fst (gj_origin j), y - snd (gj_origin j))) (filter (\<lambda>p. p \<notin> owned ?m) cand)"
      "cell_num_t (gj_vi j) = cell_num_t (base vi)"
    using out unfolding checkout_def Let_def xy prod.case tb by (auto simp: D_def k_def snapshot_headings)
  have cand: "0 \<le> a \<and> a < c_width co \<and> 0 \<le> b \<and> b < c_height co" if "(a, b) \<in> set cand" for a b
  proof -
    have "(a, b) \<in> (\<lambda>(x, y). (int x, int y)) ` set (ds_cands ?sw)"
      using take_batch_cells [where n = "max 1 (n div usize_of (max (cell_num_t (base vi)) 1))" and bb = "(int x, int x, int y, int y)" and
        cs = "drop (ds_pos ?sw) (ds_cands ?sw)", unfolded tb snd_conv] that by (meson image_mono set_drop_subset subsetD)
    then show ?thesis using inv by (auto simp: core_inv_def base_inv_def sweep_ok_def)
  qed
  have "sweep_ok co'" using inv by (simp add: core_inv_def base_inv_def sweep_ok_def co')
  moreover have loc: "core_local co' = core_local co" by (simp add: co' core_local_def)
  moreover have "owned_now co' = owned_now co" by (rule owned_now_cong) (simp_all add: co' core_local_def)
  ultimately have "core_inv co'" using inv unfolding core_inv_def base_inv_def cert_inv_def
    by (auto simp: co' field_ok_def ids_ok_def D_def)
  moreover have "evolves co co'" unfolding evolves_def field_evolves_def headings_of_def loc
    by (simp add: co' fresh_or_kept_def outside_kept_def)
  moreover have "global_ok j co'" unfolding global_ok_def headings_of_def loc vi using j cand by (auto simp: co')
  ultimately show ?thesis by blast
qed

lemma refill_ok:
  assumes inv: "core_inv co" and vi: "core_local co = Some vi" and reach: "with_reach (base vi) (c_sweep co) = Some (r, sw0)" and fill: "refill r sw0 = Some sw"
  shows "same_core co (co\<lparr>c_sweep := sw\<rparr>)"
proof -
  have sel: "ds_pending sw0 = ds_pending (c_sweep co)" "ds_cands sw0 = ds_cands (c_sweep co)"
    using reach by (auto simp: with_reach_def Let_def split: option.splits if_splits)
  have s: "sweep_ok co" and w: "0 < c_width co" using inv vi by (simp_all add: core_inv_def base_inv_def field_ok_def wf_vi_def)
  have "sweep_ok (co\<lparr>c_sweep := sw\<rparr>)"
  proof (cases "length (ds_cands sw0) \<le> ds_pos sw0 \<and> ds_pending sw0 \<noteq> None")
    case True
    then obtain p where p: "ds_pending (c_sweep co) = Some p" using sel by auto
    have wp: "wf2 p" "map_x2 p = nat (c_width co)" "map_y2 p = nat (c_height co)" using s p by (simp_all add: sweep_ok_def)
    obtain d where d: "dilate2d p r r = Some d" "sw = sw0\<lparr>ds_cands := enumerate2 d, ds_pos := 0, ds_pending := None\<rparr>"
      using fill True p sel by (auto simp: refill_def Let_def)
    have r: "r < 64" using d(1) dilate2d_panics [of r p r] by (cases "r < 64") simp_all
    obtain d' where d': "dilate2d p r r = Some d'" "wf2 d'" "map_x2 d' = map_x2 p" "map_y2 d' = map_y2 p" by (rule dilate2d_Some [OF wp(1) r])
    then have wd: "wf2 d" "map_x2 d = nat (c_width co)" "map_y2 d = nat (c_height co)" using d(1) wp by simp_all
    have "set (enumerate2 d) = cells2 d" by (rule set_enumerate2 [OF wd(1) wpr2_pos]) (use wd w in simp_all)
    then show ?thesis using wd by (auto simp: sweep_ok_def d(2) cells2_def)
  next
    case False
    then have "sw = sw0 \<or> sw = sw0\<lparr>ds_cands := [], ds_pos := 0\<rparr>" using fill by (auto simp: refill_def Let_def split: if_splits)
    then show ?thesis using s sel by (auto simp: sweep_ok_def)
  qed
  then show ?thesis by (simp add: same_core_def)
qed

lemma prepare_global_inv:
  assumes inv: "core_inv co" and prep: "prepare_global_job n co = Some (jo, co')"
  shows "core_inv co' \<and> evolves co co' \<and> (\<forall>j. jo = Some j \<longrightarrow> global_ok j co')"
proof -
  obtain co1 ok where adv: "advance_invalidations (max 1 (min n 5000)) co = (co1, ok)" by fastforce
  have i: "core_inv co1" "evolves co co1" using advance_inv [OF inv, of "max 1 (min n 5000)"] adv by simp_all
  show ?thesis
  proof (cases "ok \<and> in_flight (c_global co1) = None \<and> core_local co1 \<noteq> None")
    case True
    then obtain vi where vi: "core_local co1 = Some vi" by auto
    obtain r sw0 sw where w: "with_reach (base vi) (c_sweep co1) = Some (r, sw0)" "refill r sw0 = Some sw"
      and res: "(jo, co') = (let co = co1\<lparr>c_sweep := sw\<rparr> in if ds_cands sw = [] then (None, fst (settle_global co))
                  else case checkout n r (base vi) co of (j, co) \<Rightarrow> (Some j, co))"
      using prep True vi unfolding prepare_global_job_def adv prod.case by (auto simp: bind_eq_Some_conv)
    let ?co = "co1\<lparr>c_sweep := sw\<rparr>"
    note s = refill_ok [OF i(1) vi w]
    have i2: "core_inv ?co" "evolves co ?co"
      using same_core_inv [OF s i(1)] evolves_trans [OF base_invD] core_invD [OF inv] i(2) by blast+
    show ?thesis
    proof (cases "ds_cands sw = []")
      case True
      then have "co' = fst (settle_global ?co)" "jo = None" using res by simp_all
      then show ?thesis using same_core_inv [OF settle_same i2(1)] evolves_trans [OF base_invD] core_invD [OF inv] i2(2) by blast
    next
      case False
      obtain j co2 where c: "checkout n r (base vi) ?co = (j, co2)" by fastforce
      have vi2: "core_local ?co = Some vi" using vi by simp
      have e: "jo = Some j" "co' = co2" using res False c by simp_all
      show ?thesis using checkout_inv [OF i2(1) vi2 c] evolves_trans [OF base_invD] core_invD [OF inv] i2(2) unfolding e by blast
    qed
  next
    case False
    then have "jo = None" "co' = co1" using prep unfolding prepare_global_job_def adv prod.case by (auto split: if_splits option.splits bool.splits)
    then show ?thesis using i by simp
  qed
qed

end
