(* ===== verification/Manager.thy ===== *)
theory Manager
  imports Ownership
begin

text \<open>
  The manager as a system: the core behind its mutex, and the global and local jobs that workers hold.
  Any interleaving of the operations is a sequence of steps; the properties are invariants of its
  reachable states.
\<close>

section \<open>Local jobs\<close>

definition active :: "local_job \<Rightarrow> core \<Rightarrow> bool" where
  "active j co \<longleftrightarrow> lj_epoch j = epoch (c_global co) \<and> owner (c_global co) = Some (lj_owner j) \<and>
     local_in_flight (c_global co) = Some (lj_id j) \<and> lj_revision j = local_revision (c_global co)"

definition local_ok :: "local_job \<Rightarrow> core \<Rightarrow> bool" where
  "local_ok j co \<longleftrightarrow> lj_id j \<le> serial (c_global co) \<and> lj_owner j \<le> serial (c_global co) \<and> lj_epoch j \<le> epoch (c_global co) \<and>
     lj_revision j \<le> local_revision (c_global co) \<and> lj_boundary_revision j \<le> boundary_revision (c_global co) \<and>
     (active j co \<longrightarrow> inv_pending (c_global co) = [] \<and> owned (c_global co) \<noteq> {} \<and>
        (\<exists>vi ox oy. core_local co = Some vi \<and>
           local_view j (base vi) (owned (c_global co)) (lj_boundary_revision j = boundary_revision (c_global co)) ox oy))"

lemma fresh_back:
  assumes "fresh_or_kept s s' a (Some k)" "k \<le> s"
  shows "a = Some k"
  using assms by (auto simp: fresh_or_kept_def)

lemma local_ok_evolves:
  assumes inv: "core_inv co" and ev: "evolves co co'" and ok: "local_ok j co"
  shows "local_ok j co'"
proof -
  have le: "lj_id j \<le> serial (c_global co)" "lj_owner j \<le> serial (c_global co)" "lj_epoch j \<le> epoch (c_global co)"
    "lj_revision j \<le> local_revision (c_global co)" "lj_boundary_revision j \<le> boundary_revision (c_global co)"
    using ok by (simp_all add: local_ok_def)
  have mono: "serial (c_global co) \<le> serial (c_global co')" "epoch (c_global co) \<le> epoch (c_global co')"
    "local_revision (c_global co) \<le> local_revision (c_global co')" "boundary_revision (c_global co) \<le> boundary_revision (c_global co')"
    using ev by (simp_all add: evolves_def)
  have "inv_pending (c_global co') = [] \<and> owned (c_global co') \<noteq> {} \<and> (\<exists>vi ox oy. core_local co' = Some vi \<and>
      local_view j (base vi) (owned (c_global co')) (lj_boundary_revision j = boundary_revision (c_global co')) ox oy)" if act: "active j co'"
  proof -
    have "fresh_or_kept (serial (c_global co)) (serial (c_global co')) (owner (c_global co)) (Some (lj_owner j))"
      "fresh_or_kept (serial (c_global co)) (serial (c_global co')) (local_in_flight (c_global co)) (Some (lj_id j))"
      using ev act by (simp_all add: evolves_def active_def)
    then have o: "owner (c_global co) = Some (lj_owner j)" "local_in_flight (c_global co) = Some (lj_id j)" using fresh_back le by blast+
    have e: "epoch (c_global co') = epoch (c_global co)" "local_revision (c_global co') = local_revision (c_global co)"
      using act le mono by (simp_all add: active_def)
    have "active j co" using act o e by (simp add: active_def)
    then obtain vi ox oy where v: "inv_pending (c_global co) = []" "owned (c_global co) \<noteq> {}" "core_local co = Some vi"
      "local_view j (base vi) (owned (c_global co)) (lj_boundary_revision j = boundary_revision (c_global co)) ox oy"
      using ok unfolding local_ok_def by blast
    have "steady co co'" using act o e v(2) by (simp add: steady_def active_def)
    then have "field_evolves co co'" using ev by (simp add: evolves_def)
    then obtain vi' where own: "owned (c_global co') = owned (c_global co)" and vi': "core_local co' = Some vi'" "same_frame (base vi) (base vi')"
      and p: "inv_pending (c_global co') = []"
      and out: "boundary_revision (c_global co') = boundary_revision (c_global co) \<longrightarrow> outside_kept (owned (c_global co)) (base vi) (base vi')"
      using v(1,3) unfolding field_evolves_def by blast
    have wf: "wf_vi (base vi)" using inv v(3) by (simp add: core_inv_def base_inv_def field_ok_def)
    have "local_view j (base vi') (owned (c_global co)) (lj_boundary_revision j = boundary_revision (c_global co')) ox oy"
    proof (rule local_view_evolve [OF v(4) wf vi'(2)])
      assume "lj_boundary_revision j = boundary_revision (c_global co')"
      then have b: "boundary_revision (c_global co') = boundary_revision (c_global co)" "lj_boundary_revision j = boundary_revision (c_global co)"
        using le(5) mono(4) by linarith+
      then show "lj_boundary_revision j = boundary_revision (c_global co)" by simp
      fix x y t assume "in_map (base vi) (x, y, t)" "(int x, int y) \<notin> owned (c_global co)"
      then show "state_at (base vi') (x, y, t) = state_at (base vi) (x, y, t)" using out b(1) unfolding outside_kept_def by blast
    qed
    then show ?thesis using p own v(2) vi'(1) by auto
  qed
  then show ?thesis unfolding local_ok_def using order_trans [OF le(1) mono(1)] order_trans [OF le(2) mono(1)]
      order_trans [OF le(3) mono(2)] order_trans [OF le(4) mono(3)] order_trans [OF le(5) mono(4)] by blast
qed

lemma local_run_ok:
  assumes "local_ok j co"
  shows "local_ok (local_run j) co" "local_run_parallel n clock j = Some j' \<Longrightarrow> local_ok j' co"
proof -
  have keep: "local_ok j' co"
    if sel: "lj_id j' = lj_id j" "lj_owner j' = lj_owner j" "lj_epoch j' = lj_epoch j" "lj_revision j' = lj_revision j" "lj_boundary_revision j' = lj_boundary_revision j"
      and view: "\<And>b own same ox oy. local_view j b own same ox oy \<Longrightarrow> local_view j' b own same ox oy" for j'
    using assms view unfolding local_ok_def active_def sel by blast
  have run: "lj_id (local_run j) = lj_id j" "lj_owner (local_run j) = lj_owner j" "lj_epoch (local_run j) = lj_epoch j"
    "lj_revision (local_run j) = lj_revision j" "lj_boundary_revision (local_run j) = lj_boundary_revision j"
    by (simp_all add: local_run_def case_prod_beta)
  show "local_ok (local_run j) co" by (rule keep [OF run]) (rule local_view_run(1))
  show "local_ok j' co" if par: "local_run_parallel n clock j = Some j'"
  proof -
    have "lj_id j' = lj_id j" "lj_owner j' = lj_owner j" "lj_epoch j' = lj_epoch j" "lj_revision j' = lj_revision j"
      "lj_boundary_revision j' = lj_boundary_revision j"
      using par run by (auto simp: local_run_parallel_def Let_def case_prod_beta split: if_splits)
    then show ?thesis by (rule keep) (erule local_view_run(2) [OF _ par])
  qed
qed

lemma owned_window:
  assumes inv: "core_inv co" and ne: "owned (c_global co) \<noteq> {}" and vi: "core_local co = Some vi"
  shows "owned (c_global co) = {(x, y) \<in> set (window_cells vi). in_map_area (base vi) x y}"
proof -
  have "owned (c_global co) = owned_now co" "field_ok co vi" using inv ne vi by (simp_all add: core_inv_def base_inv_def)
  then show ?thesis using ne vi by (auto simp: owned_now_def in_map_area_def field_ok_def split: option.splits)
qed

lemma prepare_local_inv:
  assumes inv: "core_inv co" and prep: "prepare_local_job co = (jo, co')"
  shows "core_inv co' \<and> evolves co co' \<and> (\<forall>j. jo = Some j \<longrightarrow> local_ok j co')"
proof -
  obtain co1 ok where adv: "advance_invalidations 512 co = (co1, ok)" by fastforce
  have i: "core_inv co1" "evolves co co1" using advance_inv [OF inv, of 512] adv by simp_all
  show ?thesis
  proof (cases "jo")
    case None
    then have "co' = co1" using prep unfolding prepare_local_job_def adv prod.case by (auto simp: Let_def split: bool.splits option.splits if_splits)
    then show ?thesis using i None by simp
  next
    case (Some j)
    let ?m = "c_global co1" and ?i = "serial (c_global co1) + 1"
    have ok: ok using prep Some unfolding prepare_local_job_def adv prod.case by (cases ok) simp_all
    obtain ow vi where ow: "owner ?m = Some ow" and vi: "core_local co1 = Some vi" and ne: "owned ?m \<noteq> {}"
      using prep Some ok unfolding prepare_local_job_def adv prod.case by (auto simp: Let_def split: option.splits if_splits)
    have co': "co' = upd_global (\<lambda>m. m\<lparr>serial := ?i, local_in_flight := Some ?i\<rparr>) co1"
      using prep Some ok ow vi unfolding prepare_local_job_def adv prod.case by (auto simp: Let_def split: if_splits)
    have j: "lj_epoch j = epoch ?m" "lj_owner j = ow" "lj_id j = ?i" "lj_revision j = local_revision ?m" "lj_boundary_revision j = boundary_revision ?m"
      using prep Some ok ow vi unfolding prepare_local_job_def adv prod.case by (auto simp: Let_def split: if_splits)
    have pend: "inv_pending ?m = []" using advance_done [of 512 co] adv ok by simp
    have wf: "wf_vi (base vi)" using i(1) vi by (simp add: core_inv_def base_inv_def field_ok_def)
    let ?r = "transition_reach (base vi)"
    let ?x0 = "max (local_ix_min vi - ?r) 0" and ?x1 = "min (local_ix_max vi + ?r) (cell_num_x (base vi) - 1)"
      and ?y0 = "max (local_iy_min vi - ?r) 0" and ?y1 = "min (local_iy_max vi + ?r) (cell_num_y (base vi) - 1)"
    have jd: "lj_vi j = repair_values (snapshot (base vi) ?x0 ?x1 ?y0 ?y1)" "lj_origin j = (?x0, ?y0)"
      "lj_cells j = concat (map (\<lambda>x. concat (map (\<lambda>y.
         if in_local_area vi x y \<and> (x, y) \<in> owned ?m then [(x - ?x0, y - ?y0)] else []) [local_iy_min vi..local_iy_max vi])) [local_ix_min vi..local_ix_max vi])"
      "\<not> lj_ran j"
      using prep Some ok ow vi unfolding prepare_local_job_def adv prod.case by (auto simp: Let_def split: if_splits)
    have view: "local_view j (base vi) (owned ?m) True (nat ?x0) (nat ?y0)"
      by (rule prepared_view [OF wf owned_window [OF i(1) ne vi] ne refl refl refl refl refl jd])
    have "core_inv co'" unfolding co' using i(1) owned_now_cong [of "upd_global (\<lambda>m. m\<lparr>serial := ?i, local_in_flight := Some ?i\<rparr>) co1" co1]
      by (auto simp: core_inv_def base_inv_def cert_inv_def field_ok_def ids_ok_def)
    moreover have "evolves co1 co'" unfolding co'
      by (auto simp: evolves_def fresh_or_kept_def field_evolves_def outside_kept_def headings_of_def)
    moreover have "ow \<le> serial ?m" using i(1) ow by (simp add: core_inv_def base_inv_def ids_ok_def)
    then have "local_ok j co'" using j pend ne view vi unfolding local_ok_def co' by auto
    ultimately show ?thesis using Some evolves_trans [OF base_invD] core_invD [OF inv] i(2) by blast
  qed
qed


lemma lif_inv:
  assumes "core_inv co"
  shows "core_inv (upd_global (\<lambda>m. m\<lparr>local_in_flight := None\<rparr>) co)" "evolves co (upd_global (\<lambda>m. m\<lparr>local_in_flight := None\<rparr>) co)"
  using assms owned_now_cong [of "upd_global (\<lambda>m. m\<lparr>local_in_flight := None\<rparr>) co" co]
  by (auto simp: core_inv_def base_inv_def cert_inv_def field_ok_def ids_ok_def evolves_def fresh_or_kept_def field_evolves_def outside_kept_def headings_of_def)

text \<open>A new field with the old frame, under an uncertified or newly certified manager.\<close>

lemma reframed_inv:
  assumes inv: "core_inv co" and vi: "core_local co = Some vi" and fr: "same_frame (base vi) b"
    and out: "owner (c_global co) \<noteq> None \<Longrightarrow> owned (c_global co) \<noteq> {} \<Longrightarrow> outside_kept (owned (c_global co)) (base vi) b"
    and cert: "c = True \<Longrightarrow> D = {} \<and> inv_pending (c_global co) = [] \<and> (\<forall>p\<in>owned (c_global co). cert_good b p)"
    and D: "D \<subseteq> deferred (c_global co)"
  defines "co' \<equiv> upd_global (\<lambda>m. m\<lparr>certified := c, deferred := D\<rparr>) (upd_field (\<lambda>_. vi\<lparr>base := b\<rparr>) co)"
  shows "core_inv co'" "evolves co co'"
proof -
  have loc: "core_local co' = Some (vi\<lparr>base := b\<rparr>)" by (simp add: co'_def vi)
  have sel: "c_width co' = c_width co" "c_height co' = c_height co" "sweep_ok co' = sweep_ok co"
    "c_global co' = (c_global co)\<lparr>certified := c, deferred := D\<rparr>" by (simp_all add: co'_def)
  have now: "owned_now co' = owned_now co" by (rule owned_now_window [OF loc vi]) (simp_all add: sel window_cells_base)
  have "field_ok co vi" using inv vi by (simp add: core_inv_def base_inv_def)
  then have f: "field_ok co' (vi\<lparr>base := b\<rparr>)" using framed_field [OF _ fr] sel by (simp add: field_ok_def)
  have base': "base_inv co'" using inv f D unfolding core_inv_def base_inv_def loc sel(3) by (auto simp: sel ids_ok_def)
  have cert': "cert_inv co'" using cert unfolding cert_inv_def loc by (simp add: sel)
  have "owned (c_global co') = {} \<or> owned (c_global co') = owned_now co'" using inv unfolding now by (simp add: core_inv_def sel)
  then show "core_inv co'" using base' cert' unfolding core_inv_def by blast
  show "evolves co co'" unfolding evolves_def field_evolves_def headings_of_def loc vi steady_def using fr out
    by (simp add: sel fresh_or_kept_def same_frame_sel [OF fr])
qed

lemma commit_local_outside:
  assumes wf: "wf_vi (base vi)" and view: "local_view j (base vi) own same ox oy"
    and commit: "fold (commit_local_cell j) (lj_cells j) (vi, []) = (vi', ch)"
  shows "vi' = vi\<lparr>base := base vi'\<rparr>" "same_frame (base vi) (base vi')" "outside_kept own (base vi) (base vi')"
proof -
  let ?v = "lj_vi j"
  have sh: "shifted ox oy ?v (base vi)" and org: "lj_origin j = (int ox, int oy)" and cells: "\<forall>(x, y)\<in>set (lj_cells j). in_map_area ?v x y"
    and own: "(\<lambda>(x, y). (x + int ox, y + int oy)) ` set (lj_cells j) = own" using view unfolding local_view_def by blast+
  note com = commit_local_cells [OF wf sh org cells commit]
  show "vi' = vi\<lparr>base := base vi'\<rparr>" "same_frame (base vi) (base vi')" using com by blast+
  show "outside_kept own (base vi) (base vi')" unfolding outside_kept_def
  proof (intro allI impI, elim conjE)
    fix x y t assume m: "in_map (base vi) (x, y, t)" and no: "(int x, int y) \<notin> own"
    show "state_at (base vi') (x, y, t) = state_at (base vi) (x, y, t)"
    proof (cases "in_box ox oy ?v (x, y, t)")
      case True
      then obtain c where c: "in_map ?v c" "(x, y, t) = shift_cell ox oy c" unfolding in_box_def by blast
      obtain a b s where abs: "c = (a, b, s)" by (cases c)
      have "(int a, int b) \<notin> set (lj_cells j)" using no c(2) unfolding own [symmetric] by (auto simp: abs shift_cell_def image_iff)
      then have "c \<notin> set (columns ?v (lj_cells j))" using columns_iff [OF cells, of a b s] unfolding abs by blast
      then show ?thesis using com c(1) unfolding c(2) by simp
    qed (use com m in blast)
  qed
qed

lemma commit_local_result:
  assumes "active j co" "lj_ran j" "core_local co = Some vi" "fold (commit_local_cell j) (lj_cells j) (vi, []) = (vi', ch)"
  defines "c \<equiv> lj_delta j = 0 \<and> lj_boundary_revision j = boundary_revision (c_global co)"
  shows "same_core (upd_global (\<lambda>m. m\<lparr>certified := c, deferred := (if c then {} else deferred (c_global co))\<rparr>)
      (upd_field (\<lambda>_. vi') (upd_global (\<lambda>m. m\<lparr>local_in_flight := None\<rparr>) co))) (snd (commit_local_job j co))"
proof -
  define h where "h m = (if c then m\<lparr>certified := True, deferred := {}\<rparr> else m\<lparr>certified := False\<rparr>)" for m :: manager
  let ?f = "upd_field (\<lambda>_. vi') (upd_global (\<lambda>m. m\<lparr>local_in_flight := None\<rparr>) co)"
  have g: "c_global (fold enqueue_cell ch X) = c_global X" for X using fold_enqueue(2) by (simp add: same_core_def)
  have e: "snd (commit_local_job j co) = fst (settle_global (upd_global h (fold enqueue_cell ch ?f)))"
    using assms(1-4) unfolding commit_local_job_def active_def
    by (auto simp: Let_def c_def certify_local_def h_def [abs_def] g)
  have "upd_global h ?f = upd_global (\<lambda>m. m\<lparr>certified := c, deferred := (if c then {} else deferred (c_global co))\<rparr>) ?f"
    by (simp add: upd_global_def h_def upd_field_def)
  then show ?thesis unfolding e using same_core_trans [OF same_core_upd [OF fold_enqueue(2) [of ?f ch], of h] settle_same] by simp
qed

lemma commit_local_inv:
  assumes inv: "core_inv co" and job: "local_ok j co" and com: "commit_local_job j co = (r, co')"
  shows "core_inv co' \<and> evolves co co'"
proof -
  let ?m = "c_global co" and ?co = "upd_global (\<lambda>m. m\<lparr>local_in_flight := None\<rparr>) co"
  note lif = lif_inv [OF inv]
  show ?thesis
  proof (cases "active j co \<and> lj_ran j")
    case False
    have "co' = co \<or> co' = ?co"
      using com False unfolding commit_local_job_def active_def by (auto simp: Let_def split: if_splits)
    then show ?thesis using inv lif by auto
  next
    case True
    then obtain vi ox oy where pend: "inv_pending ?m = []" and vi: "core_local co = Some vi"
      and view: "local_view j (base vi) (owned ?m) (lj_boundary_revision j = boundary_revision ?m) ox oy"
      using job unfolding local_ok_def by blast
    obtain vi' ch where fold: "fold (commit_local_cell j) (lj_cells j) (vi, []) = (vi', ch)" by fastforce
    have wf: "wf_vi (base vi)" using inv vi by (simp add: core_inv_def base_inv_def field_ok_def)
    note out = commit_local_outside [OF wf view fold]
    define c where "c \<longleftrightarrow> lj_delta j = 0 \<and> lj_boundary_revision j = boundary_revision ?m"
    define D where "D = (if c then {} else deferred ?m)"
    let ?co2 = "upd_global (\<lambda>m. m\<lparr>certified := c, deferred := D\<rparr>) (upd_field (\<lambda>_. vi\<lparr>base := base vi'\<rparr>) ?co)"
    have good: "c = True \<Longrightarrow> D = {} \<and> inv_pending (c_global ?co) = [] \<and> (\<forall>p\<in>owned (c_global ?co). cert_good (base vi') p)"
      using commit_certifies [OF wf _ _ _ fold] view True pend by (auto simp: c_def D_def)
    have 2: "core_inv ?co2" "evolves ?co ?co2"
      by (rule reframed_inv [OF lif(1) _ out(2) _ good]; use vi out(3) in \<open>simp add: D_def\<close>)+
    have "upd_global (\<lambda>m. m\<lparr>certified := c, deferred := D\<rparr>) (upd_field (\<lambda>_. vi') ?co) = ?co2" using out(1) by simp
    then have "same_core ?co2 co'" using commit_local_result [OF _ _ vi fold] True com by (simp add: c_def D_def)
    note s = same_core_inv [OF this 2(1)]
    have ids: "ids_ok ?m" "ids_ok (c_global ?co)" using inv lif(1) by (simp_all add: core_inv_def base_inv_def)
    show ?thesis using s(1) evolves_trans [OF ids(1) lif(2) evolves_trans [OF ids(2) 2(2) s(2)]] by blast
  qed
qed


section \<open>Refinement\<close>

definition window_ready :: "core \<Rightarrow> bool" where
  "window_ready co \<longleftrightarrow> (\<forall>vi. core_local co = Some vi \<longrightarrow> window_in_map vi)"

lemma advance_window: "window_ready co \<Longrightarrow> window_ready (fst (advance_invalidations n co))"
proof -
  assume w: "window_ready co"
  have d: "field_framed (core_local co) (core_local (fst (advance_invalidations n co)))" using advance_drains [of co n] by (simp add: drains_def)
  show ?thesis
  proof (cases "core_local co")
    case None
    then show ?thesis using d by (simp add: field_framed_def window_ready_def)
  next
    case (Some vi)
    then obtain b where "core_local (fst (advance_invalidations n co)) = Some (vi\<lparr>base := b\<rparr>)" "same_frame (base vi) b" using d unfolding Some field_framed_Some by blast
    then show ?thesis using w Some by (simp add: window_ready_def window_in_map_def same_frame_sel)
  qed
qed

lemma drain_inv:
  assumes "drain_invalidations late n co = Some (co', ok)" "core_inv co" "window_ready co"
  shows "core_inv co' \<and> evolves co co' \<and> window_ready co' \<and> (ok \<longrightarrow> inv_pending (c_global co') = [])"
proof -
  define P where "P late n co r \<longleftrightarrow> (core_inv co \<longrightarrow> window_ready co \<longrightarrow> core_inv (fst r) \<and> evolves co (fst r) \<and> window_ready (fst r) \<and>
    (snd r \<longrightarrow> inv_pending (c_global (fst r)) = []))" for late :: "nat \<Rightarrow> bool" and n :: nat and co :: core and r :: "core \<times> bool"
  have "P late n co (co', ok)"
  proof (rule drain_invalidations.raw_induct [OF _ assms(1)])
    fix f :: "(nat \<Rightarrow> bool) \<Rightarrow> nat \<Rightarrow> core \<Rightarrow> (core \<times> bool) option" and late n co r
    assume IH: "\<And>late n co r. f late n co = Some r \<Longrightarrow> P late n co r"
      and eq: "(case advance_invalidations 512 co of (co, ok) \<Rightarrow>
        if ok then Some (co, True) else if late n then Some (co, False) else f late (Suc n) co) = Some r"
    obtain co1 k where a: "advance_invalidations 512 co = (co1, k)" by fastforce
    show "P late n co r" unfolding P_def
    proof (intro impI)
      assume inv: "core_inv co" and w: "window_ready co"
      have 1: "core_inv co1" "evolves co co1" "window_ready co1" "k \<Longrightarrow> inv_pending (c_global co1) = []"
        using advance_inv [OF inv, of 512] advance_window [OF w, of 512] advance_done [of 512 co] a by simp_all
      show "core_inv (fst r) \<and> evolves co (fst r) \<and> window_ready (fst r) \<and> (snd r \<longrightarrow> inv_pending (c_global (fst r)) = [])"
      proof (cases "k \<or> late n")
        case True
        then have "r = (co1, k)" using eq a by (auto split: if_splits)
        then show ?thesis using 1 by simp
      next
        case False
        then have "P late (Suc n) co1 r" using IH eq a by simp
        moreover have "ids_ok (c_global co)" using inv by (simp add: core_inv_def base_inv_def)
        ultimately show ?thesis using 1 evolves_trans [OF _ 1(2)] unfolding P_def by blast
      qed
    qed
  qed
  then show ?thesis using assms(2,3) by (simp add: P_def)
qed

lemma owned_in_window: "core_inv co \<Longrightarrow> core_local co = Some vi \<Longrightarrow> (x, y) \<in> owned (c_global co) \<Longrightarrow> in_local_area vi x y"
  using owned_window [of co vi] by (auto simp: window_cells_iff)

lemma refine_step_inv:
  assumes inv: "core_inv co" and w: "window_ready co" and pend: "inv_pending (c_global co) = []" and vi: "core_local co = Some vi"
    and pass: "refine_pass_until stop vi = (vi', dl, stopped)"
  defines "c \<equiv> dl = 0 \<and> (\<not> stopped \<or> certified (c_global co))"
    and "D \<equiv> (if dl = 0 \<and> \<not> stopped then {} else deferred (c_global co))"
  defines "co1 \<equiv> upd_global (\<lambda>m. m\<lparr>certified := c, deferred := D\<rparr>) (upd_field (\<lambda>_. vi') co)"
  shows "core_inv co1 \<and> evolves co co1 \<and> window_ready co1 \<and> inv_pending (c_global co1) = []"
proof -
  have wf: "wf_vi (base vi)" and ww: "window_in_map vi" using inv w vi by (simp_all add: core_inv_def base_inv_def field_ok_def window_ready_def)
  note spec = refine_pass_spec [OF wf ww pass]
  have win: "(x, y) \<in> owned (c_global co)" if ne: "owned (c_global co) \<noteq> {}" and l: "in_local_area vi x y" for x y
    using owned_window [OF inv ne vi] window_area [OF ww l] l by (simp add: window_cells_iff)
  have out: "outside_kept (owned (c_global co)) (base vi) (base vi')" if "owned (c_global co) \<noteq> {}"
    unfolding outside_kept_def
  proof (intro allI impI, elim conjE)
    fix x y t assume m: "in_map (base vi) (x, y, t)" and no: "(int x, int y) \<notin> owned (c_global co)"
    then have "\<not> in_window vi (x, y, t)" using win [OF that] by (auto simp: in_window_def)
    then show "state_at (base vi') (x, y, t) = state_at (base vi) (x, y, t)" by (rule spec(3) [OF m])
  qed
  have good: "D = {} \<and> inv_pending (c_global co) = [] \<and> (\<forall>p\<in>owned (c_global co). cert_good (base vi') p)" if c: "c = True"
  proof -
    have z: "dl = 0" and s: "\<not> stopped \<or> certified (c_global co)" using c by (simp_all add: c_def)
    have cert: "deferred (c_global co) = {}" "\<forall>p\<in>owned (c_global co). cert_good (base vi) p" if "certified (c_global co)"
      using inv vi that by (simp_all add: core_inv_def cert_inv_def)
    have "cert_good (base vi') p" if p: "p \<in> owned (c_global co)" for p
    proof -
      obtain x y where xy: "p = (x, y)" by (cases p)
      have "\<not> stopped \<or> (\<forall>p q. in_local_area vi p q \<longrightarrow> cert_good (base vi) (p, q))" using s cert(2) win p by blast
      from spec(4) [OF z this owned_in_window [OF inv vi p [unfolded xy]]] show ?thesis by (simp add: xy)
    qed
    then show ?thesis using pend s cert(1) z by (auto simp: D_def)
  qed
  have co1: "co1 = upd_global (\<lambda>m. m\<lparr>certified := c, deferred := D\<rparr>) (upd_field (\<lambda>_. vi\<lparr>base := base vi'\<rparr>) co)"
    unfolding co1_def using spec(1) by simp
  have "core_inv co1 \<and> evolves co co1" unfolding co1
    using reframed_inv [OF inv vi spec(2) out good] by (simp add: D_def)
  moreover have "window_in_map (vi\<lparr>base := base vi'\<rparr>)" using ww by (simp add: window_in_map_def same_frame_sel [OF spec(2)])
  ultimately show ?thesis using pend by (simp add: co1 window_ready_def vi)
qed

lemma after_pass_moved:
  assumes nz: "dl \<noteq> 0" and inv: "core_inv (upd_global (\<lambda>m. m\<lparr>certified := False\<rparr>) (upd_field (\<lambda>_. vi') co))"
  shows "same_core (upd_global (\<lambda>m. m\<lparr>certified := False\<rparr>) (upd_field (\<lambda>_. vi') co)) (after_pass vi' dl co)"
proof -
  let ?co = "(upd_global (\<lambda>m. m\<lparr>certified := False\<rparr>) (upd_field (\<lambda>_. vi') co))\<lparr>c_dirty := True\<rparr>"
  have s: "same_core (upd_global (\<lambda>m. m\<lparr>certified := False\<rparr>) (upd_field (\<lambda>_. vi') co)) ?co" by (simp add: same_core_def)
  have "core_inv ?co" by (rule same_core_inv(1) [OF s inv])
  then show ?thesis using same_core_trans [OF s seed_sweep_same(2)] nz by (simp add: after_pass_def word_gt_0)
qed

text \<open>The core after one pass of the loop, certified when the pass was complete and quiet.\<close>

definition pass_result :: "vi_local \<Rightarrow> u64 \<Rightarrow> bool \<Rightarrow> core \<Rightarrow> core" where
  "pass_result vi' dl stopped co =
     (let co = after_pass vi' dl co in if \<not> stopped \<and> dl = 0 then certify_local co else co)"

lemma pass_result_inv:
  assumes "core_inv co" "window_ready co" "inv_pending (c_global co) = []" "core_local co = Some vi" "refine_pass_until stop vi = (vi', dl, stopped)"
  shows "core_inv (pass_result vi' dl stopped co) \<and> evolves co (pass_result vi' dl stopped co) \<and>
    window_ready (pass_result vi' dl stopped co) \<and> inv_pending (c_global (pass_result vi' dl stopped co)) = []"
proof -
  note step = refine_step_inv [OF assms]
  show ?thesis
  proof (cases "dl = 0")
    case True
    then have "pass_result vi' dl stopped co = upd_global (\<lambda>m. m\<lparr>certified := dl = 0 \<and> (\<not> stopped \<or> certified (c_global co)),
        deferred := (if dl = 0 \<and> \<not> stopped then {} else deferred (c_global co))\<rparr>) (upd_field (\<lambda>_. vi') co)"
      by (cases stopped) (simp_all add: pass_result_def after_pass_def certify_local_def upd_global_def Let_def)
    then show ?thesis using step by simp
  next
    case False
    let ?X = "upd_global (\<lambda>m. m\<lparr>certified := False\<rparr>) (upd_field (\<lambda>_. vi') co)"
    have "upd_global (\<lambda>m. m\<lparr>certified := dl = 0 \<and> (\<not> stopped \<or> certified (c_global co)),
        deferred := (if dl = 0 \<and> \<not> stopped then {} else deferred (c_global co))\<rparr>) (upd_field (\<lambda>_. vi') co) = ?X"
      using False by (simp add: upd_global_def)
    with step have X: "core_inv ?X" "evolves co ?X" "window_ready ?X" "inv_pending (c_global ?X) = []" by simp_all
    have s: "same_core ?X (pass_result vi' dl stopped co)" using after_pass_moved [OF False X(1)] False by (simp add: pass_result_def Let_def)
    have "ids_ok (c_global co)" using assms(1) by (simp add: core_inv_def base_inv_def)
    then show ?thesis using same_core_inv [OF s X(1)] evolves_trans [OF _ X(2)] X(3,4) s by (auto simp: same_core_def window_ready_def)
  qed
qed

lemma refine_loop_inv:
  assumes "refine_loop stop n co = Some r" "core_inv co" "window_ready co" "inv_pending (c_global co) = []"
  shows "core_inv (snd r) \<and> evolves co (snd r)"
proof -
  define P where "P stop n co r \<longleftrightarrow> (core_inv co \<longrightarrow> window_ready co \<longrightarrow> inv_pending (c_global co) = [] \<longrightarrow> core_inv (snd r) \<and> evolves co (snd r))"
    for stop :: "nat \<Rightarrow> i32 \<Rightarrow> bool" and n :: nat and co :: core and r :: "u64 \<times> core"
  have "P stop n co r"
  proof (rule refine_loop.raw_induct [OF _ assms(1)])
    fix f :: "(nat \<Rightarrow> i32 \<Rightarrow> bool) \<Rightarrow> nat \<Rightarrow> core \<Rightarrow> (u64 \<times> core) option" and stop n co r
    assume IH: "\<And>stop n co r. f stop n co = Some r \<Longrightarrow> P stop n co r"
      and eq: "(case core_local co of None \<Rightarrow> Some (0, co)
      | Some vi \<Rightarrow> (case refine_pass_until (stop n) vi of (vi', dl, stopped) \<Rightarrow>
             let co = after_pass vi' dl co in
             if stopped \<or> dl = 0 then Some (dl, if \<not> stopped \<and> dl = 0 then certify_local co else co) else f stop (Suc n) co)) = Some r"
    show "P stop n co r" unfolding P_def
    proof (intro impI)
      assume inv: "core_inv co" "window_ready co" "inv_pending (c_global co) = []"
      show "core_inv (snd r) \<and> evolves co (snd r)"
      proof (cases "core_local co")
        case None
        then show ?thesis using eq inv by auto
      next
        case (Some vi)
        obtain vi' dl stopped where pass: "refine_pass_until (stop n) vi = (vi', dl, stopped)" by (metis prod.exhaust)
        note step = pass_result_inv [OF inv Some pass]
        show ?thesis
        proof (cases "stopped \<or> dl = 0")
          case True
          then have "snd r = pass_result vi' dl stopped co" using eq Some pass by (auto simp: pass_result_def Let_def)
          then show ?thesis using step by simp
        next
          case False
          then have "f stop (Suc n) (pass_result vi' dl stopped co) = Some r" using eq Some pass by (simp add: pass_result_def Let_def)
          from IH [OF this] have "core_inv (snd r) \<and> evolves (pass_result vi' dl stopped co) (snd r)" using step by (simp add: P_def)
          moreover have "ids_ok (c_global co)" using inv by (simp add: core_inv_def base_inv_def)
          ultimately show ?thesis using evolves_trans step by blast
        qed
      qed
    qed
  qed
  then show ?thesis using assms(2-) by (simp add: P_def)
qed

lemma refine_for_inv:
  assumes inv: "core_inv co" and w: "window_ready co" and ref: "refine_for late stop co = Some (d, co')"
  shows "core_inv co' \<and> evolves co co'"
proof -
  obtain co1 ok where dr: "drain_invalidations late 0 co = Some (co1, ok)"
    and res: "(if ok then refine_loop stop 0 co1 else Some (0, co1)) = Some (d, co')"
    using ref by (auto simp: refine_for_def bind_eq_Some_conv)
  note 1 = drain_inv [OF dr inv w]
  show ?thesis
  proof (cases ok)
    case True
    then have "core_inv co' \<and> evolves co1 co'" using refine_loop_inv [of stop 0 co1 "(d, co')"] res 1 by simp
    moreover have "ids_ok (c_global co)" using inv by (simp add: core_inv_def base_inv_def)
    ultimately show ?thesis using 1 evolves_trans by blast
  qed (use res 1 in simp)
qed

section \<open>Goals\<close>

lemma drop_field_inv:
  assumes "core_inv co"
  shows "core_inv (drop_field co)" "evolves co (drop_field co)"
  using assms by (auto simp: core_inv_def base_inv_def cert_inv_def drop_field_def invalidate_global_jobs_def core_local_def owned_now_def sweep_ok_def
      sweep_clear_def sweep_settle_def ids_ok_def evolves_def fresh_or_kept_def steady_def upd_global_def split: option.splits)

lemma new_goal_inv:
  assumes inv: "core_inv co" and f: "field_ok co (cg_field c)"
  shows "core_inv (install_field unfinished c (reset_for_goal co)) \<and> evolves co (install_field unfinished c (reset_for_goal co))"
proof -
  let ?g = "reset_for_goal co"
  let ?r = "?g\<lparr>c_cached := Some c\<rparr>"
  have loc: "core_local ?r = Some (cg_field c)" by (simp add: core_local_def)
  have sel: "c_width ?g = c_width co" "c_height ?g = c_height co" "owned (c_global ?g) = {}" "deferred (c_global ?g) = {}" "\<not> certified (c_global ?g)"
    "serial (c_global ?g) = serial (c_global co)" "owner (c_global ?g) = owner (c_global co)" "local_in_flight (c_global ?g) = None"
    "epoch (c_global ?g) = epoch (c_global co) + 1" "local_revision (c_global ?g) = local_revision (c_global co)"
    "boundary_revision (c_global ?g) = boundary_revision (c_global co)" "ds_pending (c_sweep ?g) = None" "ds_cands (c_sweep ?g) = []"
    by (simp_all add: reset_for_goal_def drop_field_def invalidate_global_jobs_def Let_def upd_global_def sweep_clear_def sweep_settle_def)
  have i: "core_inv ?r" using inv f unfolding core_inv_def base_inv_def cert_inv_def loc by (simp add: sel ids_ok_def sweep_ok_def field_ok_def)
  have e: "evolves co ?r" unfolding evolves_def steady_def by (simp add: sel fresh_or_kept_def)
  have "same_core ?r (?r\<lparr>c_dirty := True\<rparr>)" by (simp add: same_core_def)
  from same_core_trans [OF this seed_sweep_same(1) [OF same_core_inv(1) [OF this i]]]
  have s: "same_core ?r (install_field unfinished c (reset_for_goal co))" unfolding install_field_def Let_def by simp
  have "ids_ok (c_global co)" using inv by (simp add: core_inv_def base_inv_def)
  then show ?thesis using same_core_inv [OF s i] evolves_trans [OF _ e] by blast
qed

lemma reset_inv:
  assumes "core_inv co"
  shows "core_inv (reset_for_goal co) \<and> evolves co (reset_for_goal co)"
proof -
  have s: "same_core (drop_field co) (reset_for_goal co)"
    by (simp add: same_core_def reset_for_goal_def core_local_def sweep_ok_def sweep_clear_def sweep_settle_def Let_def)
  have "ids_ok (c_global co)" using assms by (simp add: core_inv_def base_inv_def)
  then show ?thesis using same_core_inv [OF s drop_field_inv(1) [OF assms]] evolves_trans [OF _ drop_field_inv(2) [OF assms]] by blast
qed

lemma discard_inv: "core_inv co \<Longrightarrow> core_inv (fst (discard_partial co)) \<and> evolves co (fst (discard_partial co))"
  using drop_field_inv [of co] by (simp add: discard_partial_def split: option.split)


section \<open>The system\<close>

record mgr_sys =
  ms_core :: core
  ms_gjobs :: "global_job list"
  ms_ljobs :: "local_job list"

text \<open>The follower sets the window before it feeds a scan, a margin or a refinement, which is the guard
  \<open>window_ready\<close>; a new field has the size of the map (\<open>field_ok\<close>).\<close>

inductive mgr_step :: "mgr_sys \<Rightarrow> mgr_sys \<Rightarrow> bool" where
  claim: "mgr_step s (s\<lparr>ms_core := snd (claim_local (ms_core s))\<rparr>)"
| release: "mgr_step s (s\<lparr>ms_core := release_local ow (ms_core s)\<rparr>)"
| window: "set_window cosf sinf pose (ms_core s) = Some co \<Longrightarrow> mgr_step s (s\<lparr>ms_core := co\<rparr>)"
| scan: "window_ready (ms_core s) \<Longrightarrow> observe_scan_gated cosf sinf map_clear radius pen sc pose shift (ms_core s) = Some co \<Longrightarrow>
    mgr_step s (s\<lparr>ms_core := co\<rparr>)"
| margin: "window_ready (ms_core s) \<Longrightarrow> mgr_step s (s\<lparr>ms_core := core_inflate gain cfg sigma (ms_core s)\<rparr>)"
| refine: "window_ready (ms_core s) \<Longrightarrow> refine_for late stop (ms_core s) = Some (d, co) \<Longrightarrow> mgr_step s (s\<lparr>ms_core := co\<rparr>)"
| restart: "mgr_step s (s\<lparr>ms_core := fst (restart_global_check (ms_core s))\<rparr>)"
| prepare_global: "prepare_global_job n (ms_core s) = Some (jo, co) \<Longrightarrow>
    mgr_step s (s\<lparr>ms_core := co, ms_gjobs := (case jo of None \<Rightarrow> [] | Some j \<Rightarrow> [j]) @ ms_gjobs s\<rparr>)"
| run_global: "j \<in> set (ms_gjobs s) \<Longrightarrow> mgr_step s (s\<lparr>ms_gjobs := global_run j # remove1 j (ms_gjobs s)\<rparr>)"
| commit_global: "j \<in> set (ms_gjobs s) \<Longrightarrow> commit_global_job j (ms_core s) = Some (r, co) \<Longrightarrow>
    mgr_step s (s\<lparr>ms_core := co, ms_gjobs := remove1 j (ms_gjobs s)\<rparr>)"
| prepare_local: "prepare_local_job (ms_core s) = (jo, co) \<Longrightarrow>
    mgr_step s (s\<lparr>ms_core := co, ms_ljobs := (case jo of None \<Rightarrow> [] | Some j \<Rightarrow> [j]) @ ms_ljobs s\<rparr>)"
| run_local: "j \<in> set (ms_ljobs s) \<Longrightarrow> mgr_step s (s\<lparr>ms_ljobs := local_run j # remove1 j (ms_ljobs s)\<rparr>)"
| run_parallel: "j \<in> set (ms_ljobs s) \<Longrightarrow> local_run_parallel n clock j = Some j' \<Longrightarrow>
    mgr_step s (s\<lparr>ms_ljobs := j' # remove1 j (ms_ljobs s)\<rparr>)"
| commit_local: "j \<in> set (ms_ljobs s) \<Longrightarrow> commit_local_job j (ms_core s) = (r, co) \<Longrightarrow>
    mgr_step s (s\<lparr>ms_core := co, ms_ljobs := remove1 j (ms_ljobs s)\<rparr>)"
| new_goal: "field_ok (ms_core s) (cg_field c) \<Longrightarrow> mgr_step s (s\<lparr>ms_core := install_field unfinished c (reset_for_goal (ms_core s))\<rparr>)"
| abandon: "mgr_step s (s\<lparr>ms_core := reset_for_goal (ms_core s)\<rparr>)"
| discard: "mgr_step s (s\<lparr>ms_core := fst (discard_partial (ms_core s))\<rparr>)"

definition mgr_init :: "i32 \<Rightarrow> i32 \<Rightarrow> bool \<Rightarrow> mgr_sys" where
  "mgr_init w h sweep = \<lparr>ms_core = \<lparr>c_width = w, c_height = h, c_global_sweep = sweep, c_cached = None, c_sweep = sweep_default,
     c_global = manager_default, c_dirty = False\<rparr>, ms_gjobs = [], ms_ljobs = []\<rparr>"

definition mgr_reachable :: "i32 \<Rightarrow> i32 \<Rightarrow> bool \<Rightarrow> mgr_sys \<Rightarrow> bool" where
  "mgr_reachable w h sweep s \<longleftrightarrow> mgr_step\<^sup>*\<^sup>* (mgr_init w h sweep) s"

definition sys_inv :: "mgr_sys \<Rightarrow> bool" where
  "sys_inv s \<longleftrightarrow> core_inv (ms_core s) \<and> (\<forall>j\<in>set (ms_gjobs s). global_ok j (ms_core s)) \<and> (\<forall>j\<in>set (ms_ljobs s). local_ok j (ms_core s))"

lemma sys_inv_init: "sys_inv (mgr_init w h sweep)"
  by (simp add: sys_inv_def mgr_init_def core_inv_def base_inv_def cert_inv_def core_local_def sweep_ok_def sweep_default_def ids_ok_def manager_default_def)

text \<open>What the holders of jobs rely on: as long as the core keeps its invariant and only evolves, a job that
  was fine stays fine.\<close>

locale job_rely =
  fixes inv :: "'c \<Rightarrow> bool" and rely :: "'c \<Rightarrow> 'c \<Rightarrow> bool" and ok :: "'j \<Rightarrow> 'c \<Rightarrow> bool"
  assumes stable: "inv c \<Longrightarrow> rely c c' \<Longrightarrow> ok j c \<Longrightarrow> ok j c'"
begin

lemma keep: "inv c \<Longrightarrow> rely c c' \<Longrightarrow> \<forall>j\<in>set js. ok j c \<Longrightarrow> \<forall>j\<in>set js. ok j c'"
  using stable by blast

lemma take_job: "inv c \<Longrightarrow> rely c c' \<Longrightarrow> \<forall>j\<in>set js. ok j c \<Longrightarrow> \<forall>j. jo = Some j \<longrightarrow> ok j c' \<Longrightarrow>
    \<forall>j\<in>set ((case jo of None \<Rightarrow> [] | Some j \<Rightarrow> [j]) @ js). ok j c'"
  using keep [of c c' js] by (auto split: option.split)

lemma give_back: "inv c \<Longrightarrow> rely c c' \<Longrightarrow> \<forall>j\<in>set js. ok j c \<Longrightarrow> \<forall>i\<in>set (remove1 j js). ok i c'"
  using keep [of c c' js] set_remove1_subset [of j js] by blast

lemma swap_job: "\<forall>j\<in>set js. ok j c \<Longrightarrow> ok j' c \<Longrightarrow> \<forall>i\<in>set (j' # remove1 j js). ok i c"
  using set_remove1_subset [of j js] by auto

end

interpretation gj: job_rely core_inv evolves global_ok
  by unfold_locales (rule global_ok_evolves)

interpretation lj: job_rely core_inv evolves local_ok
  by unfold_locales (rule local_ok_evolves)

lemma sys_inv_core:
  assumes "sys_inv s" "core_inv co \<and> evolves (ms_core s) co"
  shows "sys_inv (s\<lparr>ms_core := co\<rparr>)"
  using assms gj.keep [of "ms_core s" co "ms_gjobs s"] lj.keep [of "ms_core s" co "ms_ljobs s"] unfolding sys_inv_def by simp

lemma sys_inv_step:
  assumes "mgr_step s s'" "sys_inv s"
  shows "sys_inv s'"
  using assms
proof (cases rule: mgr_step.cases)
  have ci: "core_inv (ms_core s)" using assms(2) by (simp add: sys_inv_def)
  have gl: "\<forall>j\<in>set (ms_gjobs s). global_ok j (ms_core s)" "\<forall>j\<in>set (ms_ljobs s). local_ok j (ms_core s)" using assms(2) by (simp_all add: sys_inv_def)
  note core = sys_inv_core [OF assms(2)]
  {
    case claim
    then show ?thesis using core claim_inv [OF ci] by simp
  next
    case (release ow)
    then show ?thesis using core release_inv [OF ci] by simp
  next
    case (window cosf sinf pose co)
    then show ?thesis using core set_window_inv [OF ci] by simp
  next
    case (scan cosf sinf map_clear radius pen sc pose shift co)
    then show ?thesis using core observe_scan_inv [OF ci] by (simp add: window_ready_def)
  next
    case (margin gain cfg sigma)
    then show ?thesis using core inflate_inv [OF ci] by (simp add: window_ready_def)
  next
    case (refine late stop d co)
    then show ?thesis using core refine_for_inv [OF ci] by simp
  next
    case restart
    then show ?thesis using core same_core_inv [OF restart_same [OF ci] ci] by simp
  next
    case (prepare_global n jo co)
    with prepare_global_inv [OF ci prepare_global(2)] gj.take_job [OF ci _ gl(1), of co jo] lj.keep [OF ci _ gl(2), of co]
    show ?thesis by (simp add: sys_inv_def)
  next
    case (run_global j)
    then show ?thesis using assms(2) gj.swap_job [OF gl(1) global_run_ok, of j j] gl(1) by (simp add: sys_inv_def)
  next
    case (commit_global j r co)
    with commit_global_inv [OF ci _ commit_global(3)] gl(1) gj.give_back [OF ci _ gl(1), of co j] lj.keep [OF ci _ gl(2), of co]
    show ?thesis by (simp add: sys_inv_def)
  next
    case (prepare_local jo co)
    with prepare_local_inv [OF ci prepare_local(2)] lj.take_job [OF ci _ gl(2), of co jo] gj.keep [OF ci _ gl(1), of co]
    show ?thesis by (simp add: sys_inv_def)
  next
    case (run_local j)
    then show ?thesis using assms(2) lj.swap_job [OF gl(2) local_run_ok(1), of j j] gl(2) by (simp add: sys_inv_def)
  next
    case (run_parallel j n clock j')
    then show ?thesis using assms(2) lj.swap_job [OF gl(2) local_run_ok(2), of j n clock j' j] gl(2) by (simp add: sys_inv_def)
  next
    case (commit_local j r co)
    with commit_local_inv [OF ci _ commit_local(3)] gl(2) lj.give_back [OF ci _ gl(2), of co j] gj.keep [OF ci _ gl(1), of co]
    show ?thesis by (simp add: sys_inv_def)
  next
    case (new_goal c)
    then show ?thesis using core new_goal_inv [OF ci] by simp
  next
    case abandon
    then show ?thesis using core reset_inv [OF ci] by simp
  next
    case discard
    then show ?thesis using core discard_inv [OF ci] by simp
  }
qed

lemma sys_inv_reachable: "mgr_reachable w h sweep s \<Longrightarrow> sys_inv s"
  unfolding mgr_reachable_def by (induction rule: rtranclp_induct) (auto intro: sys_inv_init sys_inv_step)


section \<open>Properties\<close>

text \<open>C5: in every state that any interleaving of claims, releases, window moves, scans, margins, refinements,
  goal changes, and global and local jobs can reach, the certificate means what it says: while it is
  held, each owned cell satisfies the Bellman equation in every heading, where the values of stale
  policies count as absent, its own policy is not stale, no invalidation is pending and no cell waits
  for its owner.\<close>

theorem certificate_sound:
  assumes "mgr_reachable w h sweep s" and "certified (c_global (ms_core s))" and "core_local (ms_core s) = Some vi"
    and "(x, y) \<in> owned (c_global (ms_core s))" and "t < dim_t (base vi)"
  shows "settled (repair_values (base vi)) (nat x, nat y, t) \<and> \<not> policy_invalidated (state_at (base vi) (nat x, nat y, t)) \<and>
    inv_pending (c_global (ms_core s)) = [] \<and> deferred (c_global (ms_core s)) = {}"
proof -
  have "cert_inv (ms_core s)" using sys_inv_reachable [OF assms(1)] by (simp add: sys_inv_def core_inv_def)
  then have "inv_pending (c_global (ms_core s)) = [] \<and> deferred (c_global (ms_core s)) = {} \<and> cert_good (base vi) (x, y)"
    using assms(2-4) unfolding cert_inv_def by blast
  then show ?thesis using assms(5) by (simp add: cert_good_def)
qed

text \<open>C6: whatever happened between the snapshot and the commit of a global job, the commit never touches the
  state of an owned cell, changes nothing but value and policy elsewhere, and if it changes anything it
  moves the boundary revision and withdraws the certificate.\<close>

theorem global_commit_safe:
  assumes "mgr_reachable w h sweep s" and "j \<in> set (ms_gjobs s)" and "commit_global_job j (ms_core s) = Some (r, co)"
    and "core_local (ms_core s) = Some vi"
  shows "\<exists>vi'. core_local co = Some vi' \<and> same_frame (base vi) (base vi') \<and>
    owned_kept (owned (c_global (ms_core s))) (base vi) (base vi') \<and>
    (vi' = vi \<or> boundary_revision (c_global (ms_core s)) < boundary_revision (c_global co) \<and> \<not> certified (c_global co))"
proof -
  have "core_inv (ms_core s)" "global_ok j (ms_core s)" using sys_inv_reachable [OF assms(1)] assms(2) by (simp_all add: sys_inv_def)
  then have p: "published (ms_core s) co" using commit_global_inv [OF _ _ assms(3)] by blast
  then obtain b where b: "core_local co = Some (vi\<lparr>base := b\<rparr>)" "same_frame (base vi) b"
    unfolding published_def assms(4) field_framed_Some by blast
  show ?thesis by (rule exI [of _ "vi\<lparr>base := b\<rparr>"]) (use p b assms(4) in \<open>auto simp: published_def\<close>)
qed

subsection \<open>Runs\<close>

text \<open>The solved corridor with a window over its three cells.\<close>

definition still_window :: vi_local where
  "still_window = \<lparr>base = corridor_solved, scan_penalty_radius = NaN, scan_penalty = 0, local_ix_min = 0, local_ix_max = 2, local_iy_min = 0,
     local_iy_max = 0, local_ixy_range = 0, local_xy_range = NaN,
     l_shape = \<lparr>shape = Square, range_m = NaN, lat_m = NaN, ratio_max = NaN, slew_m = NaN, fw_ref_m = NaN\<rparr>,
     a_fwd = NaN, a_bwd = NaN, l_lat = NaN, center = (NaN, NaN), cos_t = NaN, sin_t = NaN, prev_xy = None, clear_map_from_scan = False,
     safety_radius = NaN, safety_radius_penalty = NaN, obstacle_dist = []\<rparr>"

definition still_goal :: "bool \<Rightarrow> vi_local cached_goal" where
  "still_goal unfinished = \<lparr>cg_x = NaN, cg_y = NaN, cg_t_deg = 0, cg_field = still_window, cg_partial = unfinished\<rparr>"

definition still_sys :: "bool \<Rightarrow> mgr_sys" where
  "still_sys unfinished = (mgr_init 3 1 True)\<lparr>ms_core := install_field unfinished (still_goal unfinished) (reset_for_goal (ms_core (mgr_init 3 1 True)))\<rparr>"

lemma still_reachable: "mgr_reachable 3 1 True (still_sys unfinished)"
proof -
  have "theta_uniform corridor_solved" by (simp add: theta_uniform_def corridor_solved_def corridor_of_def dim_t_def)
  then have "field_ok (ms_core (mgr_init 3 1 True)) (cg_field (still_goal unfinished))"
    using corridor_solved_wf by (simp add: field_ok_def still_goal_def still_window_def mgr_init_def corridor_solved_def corridor_of_def)
  from mgr_step.new_goal [OF this, of unfinished] show ?thesis by (simp add: mgr_reachable_def still_sys_def)
qed

lemma reach_step: "mgr_reachable w h sweep s \<Longrightarrow> mgr_step s s' \<Longrightarrow> mgr_reachable w h sweep s'"
  unfolding mgr_reachable_def by (rule rtranclp.rtrancl_into_rtrancl)

lemma still_core:
  "core_local (ms_core (still_sys unfinished)) = Some still_window" "inv_pending (c_global (ms_core (still_sys unfinished))) = []"
  "owned (c_global (ms_core (still_sys unfinished))) = {}" "deferred (c_global (ms_core (still_sys unfinished))) = {}"
  "c_width (ms_core (still_sys unfinished)) = 3" "c_height (ms_core (still_sys unfinished)) = 1" "serial (c_global (ms_core (still_sys unfinished))) = 0"
  by (simp_all add: still_sys_def install_field_def reset_for_goal_def drop_field_def invalidate_global_jobs_def seed_sweep_all_def core_local_def
      still_goal_def mgr_init_def manager_default_def upd_global_def Let_def)


lemma still_window_eval:
  "window_cells still_window = [(0, 0), (1, 0), (2, 0)]" "transition_reach corridor_solved = 1"
  "in_local_area still_window 0 0" "in_local_area still_window 1 0" "in_local_area still_window 2 0"
  by code_simp+

lemma still_pass: "snd (job_pass [(0, 0), (1, 0), (2, 0)] (repair_values (snapshot corridor_solved 0 2 0 0))) = 0"
  by code_simp

definition still_claimed :: core where
  "still_claimed = snd (claim_local (ms_core (still_sys False)))"

lemma still_claimed:
  "core_local still_claimed = Some still_window" "owned (c_global still_claimed) = {(0, 0), (1, 0), (2, 0)}" "owner (c_global still_claimed) = Some 1"
  "local_in_flight (c_global still_claimed) = None" "inv_pending (c_global still_claimed) = []" "deferred (c_global still_claimed) = {}"
proof -
  let ?co = "upd_global (\<lambda>m. m\<lparr>serial := 1, owner := Some 1, local_in_flight := None, certified := False\<rparr>) (ms_core (still_sys False))"
  have now: "owned_now ?co = {(0, 0), (1, 0), (2, 0)}" by (auto simp: owned_now_def still_core still_window_eval)
  have fin: "finite (deferred (c_global ?co))" by (simp add: still_core)
  have "same_core (upd_global (reown (owned_now ?co)) ?co) still_claimed"
    using update_ownership_eq [OF fin] by (simp add: still_claimed_def claim_local_def Let_def still_core)
  then show "core_local still_claimed = Some still_window" "owned (c_global still_claimed) = {(0, 0), (1, 0), (2, 0)}" "owner (c_global still_claimed) = Some 1"
    "local_in_flight (c_global still_claimed) = None" "inv_pending (c_global still_claimed) = []" "deferred (c_global still_claimed) = {}"
    unfolding now by (simp_all add: same_core_def reown_def still_core)
qed

lemma still_job:
  obtains j co where "prepare_local_job still_claimed = (Some j, co)" "core_local co = Some still_window" "active j co" "\<not> lj_ran j"
    "lj_boundary_revision j = boundary_revision (c_global co)" "lj_delta (local_run j) = 0" "owned (c_global co) = {(0, 0), (1, 0), (2, 0)}"
proof -
  have up: "[0..2] = [0, 1, 2 :: int]" "[0..0] = [0 :: int]" by (simp_all add: upto.simps)
  have w: "base still_window = corridor_solved" "local_ix_min still_window = 0" "local_ix_max still_window = 2"
    "local_iy_min still_window = 0" "local_iy_max still_window = 0" "cell_num_x corridor_solved = 3" "cell_num_y corridor_solved = 1"
    by (simp_all add: still_window_def corridor_solved_def corridor_of_def)
  define j where "j = \<lparr>lj_epoch = epoch (c_global still_claimed), lj_owner = 1, lj_id = serial (c_global still_claimed) + 1,
    lj_revision = local_revision (c_global still_claimed), lj_boundary_revision = boundary_revision (c_global still_claimed),
    lj_vi = repair_values (snapshot corridor_solved 0 2 0 0), lj_origin = (0, 0), lj_cells = [(0, 0), (1, 0), (2, 0)], lj_delta = 0, lj_ran = False\<rparr>"
  define co where "co = upd_global (\<lambda>m. m\<lparr>serial := serial (c_global still_claimed) + 1, local_in_flight := Some (serial (c_global still_claimed) + 1)\<rparr>) still_claimed"
  have p: "prepare_local_job still_claimed = (Some j, co)"
    unfolding prepare_local_job_def advance_empty [OF still_claimed(5)]
    by (simp add: Let_def still_claimed w up still_window_eval j_def co_def)
  have "lj_delta (local_run j) = snd (job_pass [(0, 0), (1, 0), (2, 0)] (repair_values (snapshot corridor_solved 0 2 0 0)))"
    by (simp add: local_run_def job_pass_def j_def case_prod_beta)
  then have "lj_delta (local_run j) = 0" by (simp only: still_pass)
  then show thesis by (intro that [OF p]) (simp_all add: active_def j_def co_def still_claimed)
qed

theorem certificate_sound_witness:
  "\<exists>s. mgr_reachable 3 1 True s \<and> certified (c_global (ms_core s)) \<and> (1, 0) \<in> owned (c_global (ms_core s)) \<and>
    (\<exists>vi. core_local (ms_core s) = Some vi \<and> settled (repair_values (base vi)) (1, 0, 0))"
proof -
  obtain j co where j: "prepare_local_job still_claimed = (Some j, co)" "core_local co = Some still_window" "active j co" "\<not> lj_ran j"
    "lj_boundary_revision j = boundary_revision (c_global co)" "lj_delta (local_run j) = 0" "owned (c_global co) = {(0, 0), (1, 0), (2, 0)}"
    by (rule still_job)
  let ?s0 = "still_sys False"
  let ?s1 = "?s0\<lparr>ms_core := still_claimed\<rparr>"
  let ?s2 = "?s1\<lparr>ms_core := co, ms_ljobs := [j]\<rparr>"
  let ?s3 = "?s2\<lparr>ms_ljobs := [local_run j]\<rparr>"
  let ?co = "snd (commit_local_job (local_run j) co)"
  let ?s4 = "?s3\<lparr>ms_core := ?co, ms_ljobs := []\<rparr>"
  have l0: "ms_ljobs ?s0 = []" by (simp add: still_sys_def mgr_init_def)
  have 1: "mgr_reachable 3 1 True ?s1" unfolding still_claimed_def by (rule reach_step [OF still_reachable mgr_step.claim])
  have 2: "mgr_reachable 3 1 True ?s2" using reach_step [OF 1 mgr_step.prepare_local, of "Some j" co] j(1) l0 by simp
  have 3: "mgr_reachable 3 1 True ?s3" using reach_step [OF 2 mgr_step.run_local, of j] by simp
  have 4: "mgr_reachable 3 1 True ?s4"
    using reach_step [OF 3 mgr_step.commit_local, of "local_run j" "fst (commit_local_job (local_run j) co)" ?co] by simp
  obtain vi' ch where fold: "fold (commit_local_cell (local_run j)) (lj_cells (local_run j)) (still_window, []) = (vi', ch)" by fastforce
  have run: "active (local_run j) co" "lj_ran (local_run j)" "lj_boundary_revision (local_run j) = boundary_revision (c_global co)"
    using j(3,4,5) by (simp_all add: active_def local_run_def case_prod_beta)
  note res = commit_local_result [OF run(1,2) j(2) fold]
  have c: "certified (c_global ?co)" "owned (c_global ?co) = {(0, 0), (1, 0), (2, 0)}" "core_local ?co = Some vi'"
    using res run(3) j(2,6,7) by (simp_all add: same_core_def)
  have "core_inv co" "local_ok (local_run j) co" using sys_inv_reachable [OF 3] by (simp_all add: sys_inv_def)
  then have "0 < dim_t (base vi')" using commit_local_inv [of co "local_run j" "fst (commit_local_job (local_run j) co)" ?co] c(3) wf_dims_pos(3)
    by (simp add: core_inv_def base_inv_def field_ok_def)
  then show ?thesis using certificate_sound [OF 4, of vi' 1 0 0] 4 c by (intro exI [of _ ?s4]) simp
qed

lemma still_global:
  "case prepare_global_job 2 (ms_core (still_sys True)) of
     Some (Some j, co) \<Rightarrow> commit_global_job (global_run j) co \<noteq> None \<and> core_local co \<noteq> None | _ \<Rightarrow> False"
  by code_simp


theorem global_commit_safe_witness:
  "\<exists>s j r co vi vi'. mgr_reachable 3 1 True s \<and> j \<in> set (ms_gjobs s) \<and> gj_ran j \<and> commit_global_job j (ms_core s) = Some (r, co) \<and>
    core_local (ms_core s) = Some vi \<and> core_local co = Some vi' \<and> same_frame (base vi) (base vi')"
proof -
  obtain j co where p: "prepare_global_job 2 (ms_core (still_sys True)) = Some (Some j, co)"
    and ne: "commit_global_job (global_run j) co \<noteq> None" "core_local co \<noteq> None"
    using still_global by (auto split: option.splits prod.splits)
  let ?s0 = "still_sys True"
  let ?s1 = "?s0\<lparr>ms_core := co, ms_gjobs := [j]\<rparr>"
  let ?s2 = "?s1\<lparr>ms_gjobs := [global_run j]\<rparr>"
  have g0: "ms_gjobs ?s0 = []" by (simp add: still_sys_def mgr_init_def)
  have 1: "mgr_reachable 3 1 True ?s1" using reach_step [OF still_reachable mgr_step.prepare_global, OF p] g0 by simp
  have 2: "mgr_reachable 3 1 True ?s2" using reach_step [OF 1 mgr_step.run_global, of j] by simp
  obtain r co' where c: "commit_global_job (global_run j) co = Some (r, co')" using ne(1) by auto
  obtain vi where vi: "core_local co = Some vi" using ne(2) by auto
  have "gj_ran (global_run j)" by (simp add: global_run_def case_prod_beta)
  moreover obtain vi' where "core_local co' = Some vi'" "same_frame (base vi) (base vi')"
    using global_commit_safe [OF 2, of "global_run j" r co' vi] c vi by auto
  ultimately show ?thesis using 2 c vi
    by (intro exI [of _ ?s2] exI [of _ "global_run j"] exI [of _ r] exI [of _ co'] exI [of _ vi] exI [of _ vi']) simp
qed

end
