(* ===== verification/Rollout.thy ===== *)
theory Rollout
  imports Bridge Local Corridor
begin

text \<open>
  The path layer of \<^verbatim>\<open>vi_lib/src/planner.rs\<close>: policy views of a solved field, the greedy rollout that
  turns a policy into a list of poses, the rescue of a start without policy, and densification.

  A view is a record of the functions of the trait; \<open>dense_view\<close> and \<open>compact_view\<close> are its two
  implementations, the second on an arbitrary sink. The locale \<open>lawful_view\<close> says what a rollout relies
  on; both implementations interpret it.
\<close>

section \<open>Square roots\<close>

text \<open>\<open>sqrt\<close> is correctly rounded: the integer root of the scaled argument, rounded to nearest. A tie
  cannot occur, since the square of a number with 54 significant bits needs more than 53.\<close>

function isqrt :: "nat \<Rightarrow> nat" where
  "isqrt n = (if n = 0 then 0 else let r = 2 * isqrt (n div 4) in if (r + 1) * (r + 1) \<le> n then r + 1 else r)"
  by pat_completeness auto
termination by (relation "measure id") auto

declare isqrt.simps [simp del]

definition sqrt_unit :: "rat \<Rightarrow> rat" where
  "sqrt_unit q = 2 powi (exponent q div 2 - 52)"

definition sqrt_round :: "rat \<Rightarrow> rat" where
  "sqrt_round q =
     (let u = sqrt_unit q; m = of_nat (isqrt (nat \<lfloor>q / (u * u)\<rfloor>))
      in if (m + 1 / 2) * (m + 1 / 2) * (u * u) < q then (m + 1) * u else m * u)"

fun f_sqrt :: "f64 \<Rightarrow> f64" where
  "f_sqrt NaN = NaN"
| "f_sqrt (Inf s) = (if s then NaN else Inf False)"
| "f_sqrt (Fin s q) = (if q = 0 then Fin s 0 else if s then NaN else Fin False (sqrt_round q))"

definition f_to_radians :: "f64 \<Rightarrow> f64" where
  "f_to_radians x = f_mul x (f_div f_pi (f_of_int 180))"

fun f_as_usize :: "f64 \<Rightarrow> nat" where
  "f_as_usize x = unat (f_as_u64 x)"

section \<open>Views\<close>

record policy_view =
  vw_cell_num :: "i32 \<times> i32 \<times> i32"
  vw_xy_resolution :: f64
  vw_t_resolution :: f64
  vw_map_origin :: "f64 \<times> f64"
  vw_map_origin_quat :: quaternion
  vw_goal :: "f64 \<times> f64 \<times> i32"
  vw_is_final :: "i32 \<Rightarrow> i32 \<Rightarrow> i32 \<Rightarrow> bool"
  vw_action_index :: "i32 \<Rightarrow> i32 \<Rightarrow> i32 \<Rightarrow> nat option"
  vw_action_delta :: "nat \<Rightarrow> (f64 \<times> f64) option"
  vw_value_at :: "i32 \<Rightarrow> i32 \<Rightarrow> i32 \<Rightarrow> u64"

definition in_map_xy :: "i32 \<times> i32 \<times> i32 \<Rightarrow> i32 \<Rightarrow> i32 \<Rightarrow> bool" where
  "in_map_xy = (\<lambda>(nx, ny, nt) ix iy. 0 \<le> ix \<and> ix < nx \<and> 0 \<le> iy \<and> iy < ny)"

definition vw_in_map_area :: "policy_view \<Rightarrow> i32 \<Rightarrow> i32 \<Rightarrow> bool" where
  "vw_in_map_area p = in_map_xy (vw_cell_num p)"

text \<open>\<open>None\<close>: the index of an action is out of range.\<close>

definition delta_of :: "action list \<Rightarrow> nat \<Rightarrow> (f64 \<times> f64) option" where
  "delta_of acts ai = (if ai < length acts then Some (delta_fw (acts ! ai), delta_rot (acts ! ai)) else None)"

definition dense_range :: "value_iterator \<Rightarrow> i32 \<Rightarrow> i32 \<Rightarrow> i32 \<Rightarrow> bool" where
  "dense_range vi ix iy it \<longleftrightarrow> in_map_area vi ix iy \<and> 0 \<le> it \<and> it < cell_num_t vi"

definition dense_state :: "value_iterator \<Rightarrow> i32 \<Rightarrow> i32 \<Rightarrow> i32 \<Rightarrow> state" where
  "dense_state vi ix iy it = states vi ! usize_of (to_index vi ix iy it)"

definition dense_is_final :: "value_iterator \<Rightarrow> i32 \<Rightarrow> i32 \<Rightarrow> i32 \<Rightarrow> bool" where
  "dense_is_final vi ix iy it \<longleftrightarrow> dense_range vi ix iy it \<and> final_state (dense_state vi ix iy it)"

definition dense_action_index :: "value_iterator \<Rightarrow> i32 \<Rightarrow> i32 \<Rightarrow> i32 \<Rightarrow> nat option" where
  "dense_action_index vi ix iy it =
     (if \<not> dense_range vi ix iy it then None
      else let s = dense_state vi ix iy it in if \<not> free s \<or> final_state s then None else optimal_action s)"

definition dense_value_at :: "value_iterator \<Rightarrow> i32 \<Rightarrow> i32 \<Rightarrow> i32 \<Rightarrow> u64" where
  "dense_value_at vi ix iy it =
     (if \<not> dense_range vi ix iy it then MAX_COST
      else let s = dense_state vi ix iy it in if policy_invalidated s then MAX_COST else total_cost s)"

definition dense_view :: "value_iterator \<Rightarrow> policy_view" where
  "dense_view vi =
     \<lparr>vw_cell_num = (cell_num_x vi, cell_num_y vi, cell_num_t vi), vw_xy_resolution = xy_resolution vi,
      vw_t_resolution = t_resolution vi, vw_map_origin = (map_origin_x vi, map_origin_y vi),
      vw_map_origin_quat = map_origin_quat vi, vw_goal = (goal_x vi, goal_y vi, goal_t vi),
      vw_is_final = dense_is_final vi, vw_action_index = dense_action_index vi, vw_action_delta = delta_of (actions vi),
      vw_value_at = dense_value_at vi\<rparr>"

text \<open>The out-of-core view: \<open>cp_sink\<close> is the sink's \<open>read\<close>, which may be anything.\<close>

record compact_policy =
  cp_sink :: "nat \<Rightarrow> u64 \<times> i32"
  cp_actions :: "action list"
  cp_cell_num :: "i32 \<times> i32 \<times> i32"
  cp_xy_resolution :: f64
  cp_map_origin :: "f64 \<times> f64"
  cp_goal :: "f64 \<times> f64 \<times> i32"
  cp_origin_quat :: quaternion

definition compact_policy_new ::
  "(nat \<Rightarrow> u64 \<times> i32) \<Rightarrow> action list \<Rightarrow> i32 \<times> i32 \<times> i32 \<Rightarrow> f64 \<Rightarrow> f64 \<times> f64 \<Rightarrow> f64 \<times> f64 \<times> i32 \<Rightarrow> compact_policy" where
  "compact_policy_new sink acts cell_num res org gl =
     \<lparr>cp_sink = sink, cp_actions = acts, cp_cell_num = cell_num, cp_xy_resolution = res, cp_map_origin = org, cp_goal = gl,
      cp_origin_quat = identity_quat\<rparr>"

definition with_origin_quat :: "quaternion \<Rightarrow> compact_policy \<Rightarrow> compact_policy" where
  "with_origin_quat q c = c\<lparr>cp_origin_quat := q\<rparr>"

definition cp_orig :: "compact_policy \<Rightarrow> i32 \<Rightarrow> i32 \<Rightarrow> i32 \<Rightarrow> nat" where
  "cp_orig c ix iy it = (case cp_cell_num c of (nx, ny, nt) \<Rightarrow>
     usize_of it + usize_of ix * usize_of nt + usize_of iy * usize_of nx * usize_of nt)"

definition cp_read :: "compact_policy \<Rightarrow> i32 \<Rightarrow> i32 \<Rightarrow> i32 \<Rightarrow> u64 \<times> i32" where
  "cp_read c ix iy it = (if \<not> in_map_xy (cp_cell_num c) ix iy \<or> it < 0 \<or> snd (snd (cp_cell_num c)) \<le> it then (MAX_COST, - 1)
     else cp_sink c (cp_orig c ix iy it))"

definition compact_action_index :: "compact_policy \<Rightarrow> i32 \<Rightarrow> i32 \<Rightarrow> i32 \<Rightarrow> nat option" where
  "compact_action_index c ix iy it =
     (case cp_read c ix iy it of (v, a) \<Rightarrow> if v = 0 \<or> MAX_COST \<le> v \<or> a < 0 then None else Some (nat a))"

definition compact_value_at :: "compact_policy \<Rightarrow> i32 \<Rightarrow> i32 \<Rightarrow> i32 \<Rightarrow> u64" where
  "compact_value_at c ix iy it =
     (case cp_read c ix iy it of (v, a) \<Rightarrow> if 0 < v \<and> v < MAX_COST \<and> a < 0 then MAX_COST else v)"

definition compact_view :: "compact_policy \<Rightarrow> policy_view" where
  "compact_view c =
     \<lparr>vw_cell_num = cp_cell_num c, vw_xy_resolution = cp_xy_resolution c,
      vw_t_resolution = f_of_int (360 sdiv snd (snd (cp_cell_num c))), vw_map_origin = cp_map_origin c,
      vw_map_origin_quat = cp_origin_quat c, vw_goal = cp_goal c,
      vw_is_final = (\<lambda>ix iy it. fst (cp_read c ix iy it) = 0), vw_action_index = compact_action_index c,
      vw_action_delta = delta_of (cp_actions c), vw_value_at = compact_value_at c\<rparr>"

section \<open>Cells of a pose\<close>

definition pose_to_cell_on :: "policy_view \<Rightarrow> f64 \<Rightarrow> f64 \<Rightarrow> f64 \<Rightarrow> i32 \<times> i32 \<times> i32" where
  "pose_to_cell_on p x y yaw =
     (let (ox, oy) = vw_map_origin p; res = vw_xy_resolution p;
          ix = f_as_i32 (f_floor (f_div (f_sub x ox) res));
          iy = f_as_i32 (f_floor (f_div (f_sub y oy) res));
          t = f_as_i32 (f_div (f_mul (f_of_int 180) yaw) f_pi);
          it = f_as_i32 (f_floor (f_div (f_of_int (wrap32 (t + 36000) smod 360)) (vw_t_resolution p)))
      in (ix, iy, it))"

definition pose_to_cell :: "value_iterator \<Rightarrow> f64 \<Rightarrow> f64 \<Rightarrow> f64 \<Rightarrow> i32 \<times> i32 \<times> i32" where
  "pose_to_cell vi = pose_to_cell_on (dense_view vi)"

definition optimal_action_at :: "value_iterator \<Rightarrow> i32 \<Rightarrow> i32 \<Rightarrow> i32 \<Rightarrow> i32" where
  "optimal_action_at vi ix iy it =
     (if ix < 0 \<or> iy < 0 \<or> it < 0 \<or> cell_num_x vi \<le> ix \<or> cell_num_y vi \<le> iy \<or> cell_num_t vi \<le> it then - 1
      else let s = dense_state vi ix iy it in
        if \<not> free s \<or> final_state s then - 1
        else case optimal_action s of Some ai \<Rightarrow> a_id (actions vi ! ai) | None \<Rightarrow> - 1)"

section \<open>The rescue of a start\<close>

definition keep_nearest :: "i32 \<Rightarrow> i32 \<Rightarrow> 'a \<Rightarrow> (int \<times> 'a) option \<Rightarrow> (int \<times> 'a) option" where
  "keep_nearest dx dy v best =
     (case best of None \<Rightarrow> Some (dx * dx + dy * dy, v)
      | Some (bd, _) \<Rightarrow> if dx * dx + dy * dy < bd then Some (dx * dx + dy * dy, v) else best)"

definition plannable_cell :: "policy_view \<Rightarrow> i32 \<times> i32 \<times> i32 \<Rightarrow> bool" where
  "plannable_cell p = (\<lambda>(ix, iy, it). vw_action_index p ix iy it \<noteq> None \<or> vw_is_final p ix iy it)"

definition scan_start :: "policy_view \<Rightarrow> i32 \<times> i32 \<times> i32 \<Rightarrow> i32 \<times> i32 \<Rightarrow> (int \<times> i32 \<times> i32) option \<Rightarrow> (int \<times> i32 \<times> i32) option" where
  "scan_start p = (\<lambda>(ix0, iy0, it) (dy, dx) best.
     let ix = wrap32 (ix0 + dx); iy = wrap32 (iy0 + dy) in
     if \<not> plannable_cell p (ix, iy, it) then best else keep_nearest dx dy (ix, iy) best)"

definition find_plannable_start :: "policy_view \<Rightarrow> f64 \<Rightarrow> f64 \<Rightarrow> f64 \<Rightarrow> i32 \<Rightarrow> (f64 \<times> f64) option" where
  "find_plannable_start p x y yaw tol =
     (let best = fold (\<lambda>dy. fold (\<lambda>dx. scan_start p (pose_to_cell_on p x y yaw) (dy, dx)) [- tol..tol]) [- tol..tol] None;
          (ox, oy) = vw_map_origin p; res = vw_xy_resolution p; half = f_lit (1 / 2)
      in map_option (\<lambda>(_, ix, iy). (f_add (f_mul (f_add (f_of_int ix) half) res) ox, f_add (f_mul (f_add (f_of_int iy) half) res) oy)) best)"

section \<open>Rollouts\<close>

datatype rollout_status = ReachedGoal | NoAction | OutOfMap | LoopDetected | StepLimit

record path_pose =
  pp_x :: f64
  pp_y :: f64
  pp_yaw :: f64

record rollout =
  ro_poses :: "path_pose list"
  ro_status :: rollout_status

definition reached_goal :: "rollout \<Rightarrow> bool" where
  "reached_goal r \<longleftrightarrow> ro_status r = ReachedGoal"

definition REVISIT_LIMIT :: nat where "REVISIT_LIMIT = 8"

definition normalize_deg :: "f64 \<Rightarrow> f64" where
  "normalize_deg d = f_rem_euclid d (f_of_int 360)"

definition pose_of :: "f64 \<times> f64 \<times> f64 \<Rightarrow> path_pose" where
  "pose_of = (\<lambda>(x, y, deg). \<lparr>pp_x = x, pp_y = y, pp_yaw = f_to_radians deg\<rparr>)"

definition goal_pose :: "policy_view \<Rightarrow> path_pose" where
  "goal_pose p = (case vw_goal p of (gx, gy, gt) \<Rightarrow> \<lparr>pp_x = gx, pp_y = gy, pp_yaw = f_to_radians (f_of_int gt)\<rparr>)"

definition advance :: "(f64 \<Rightarrow> f64) \<Rightarrow> (f64 \<Rightarrow> f64) \<Rightarrow> f64 \<times> f64 \<Rightarrow> f64 \<times> f64 \<times> f64 \<Rightarrow> f64 \<times> f64 \<times> f64" where
  "advance cosf sinf = (\<lambda>(fw, rot) (x, y, deg). let ang = f_to_radians deg in
     (f_add x (f_mul fw (cosf ang)), f_add y (f_mul fw (sinf ang)), normalize_deg (f_add deg rot)))"

definition cell_at :: "policy_view \<Rightarrow> f64 \<times> f64 \<times> f64 \<Rightarrow> i32 \<times> i32 \<times> i32" where
  "cell_at p = (\<lambda>(x, y, deg). pose_to_cell_on p x y (f_to_radians deg))"

text \<open>The loop; \<open>None\<close> is the panic of an action index out of range.\<close>

fun rollout_loop ::
  "(f64 \<Rightarrow> f64) \<Rightarrow> (f64 \<Rightarrow> f64) \<Rightarrow> policy_view \<Rightarrow> nat \<Rightarrow> f64 \<times> f64 \<times> f64 \<Rightarrow> path_pose list \<Rightarrow> (i32 \<times> i32 \<times> i32 \<rightharpoonup> nat) \<Rightarrow> rollout option" where
  "rollout_loop cosf sinf p 0 s poses visits = Some \<lparr>ro_poses = poses, ro_status = StepLimit\<rparr>"
| "rollout_loop cosf sinf p (Suc n) s poses visits =
     (case cell_at p s of (ix, iy, it) \<Rightarrow>
        if \<not> vw_in_map_area p ix iy \<or> it < 0 \<or> snd (snd (vw_cell_num p)) \<le> it then Some \<lparr>ro_poses = poses, ro_status = OutOfMap\<rparr>
        else if vw_is_final p ix iy it then Some \<lparr>ro_poses = poses @ [goal_pose p], ro_status = ReachedGoal\<rparr>
        else case vw_action_index p ix iy it of
          None \<Rightarrow> Some \<lparr>ro_poses = poses, ro_status = NoAction\<rparr>
        | Some ai \<Rightarrow>
            let count = (case visits (ix, iy, it) of None \<Rightarrow> 0 | Some k \<Rightarrow> k) + 1 in
            if REVISIT_LIMIT < count then Some \<lparr>ro_poses = poses, ro_status = LoopDetected\<rparr>
            else case vw_action_delta p ai of
              None \<Rightarrow> None
            | Some d \<Rightarrow> let s' = advance cosf sinf d s
                in rollout_loop cosf sinf p n s' (poses @ [pose_of s']) (visits((ix, iy, it) \<mapsto> count)))"

definition rescued_start :: "policy_view \<Rightarrow> f64 \<Rightarrow> f64 \<Rightarrow> f64 \<Rightarrow> i32 \<Rightarrow> f64 \<times> f64" where
  "rescued_start p x y yaw tol =
     (case pose_to_cell_on p x y yaw of (ix, iy, it) \<Rightarrow>
        if \<not> vw_is_final p ix iy it \<and> vw_action_index p ix iy it = None \<and> 0 < tol
        then (case find_plannable_start p x y yaw tol of Some q \<Rightarrow> q | None \<Rightarrow> (x, y)) else (x, y))"

definition rollout_path_on ::
  "(f64 \<Rightarrow> f64) \<Rightarrow> (f64 \<Rightarrow> f64) \<Rightarrow> policy_view \<Rightarrow> f64 \<Rightarrow> f64 \<Rightarrow> f64 \<Rightarrow> nat \<Rightarrow> i32 \<Rightarrow> rollout option" where
  "rollout_path_on cosf sinf p x y yaw max_steps tol =
     (let s = (case rescued_start p x y yaw tol of (x, y) \<Rightarrow> (x, y, normalize_deg (f_to_degrees yaw)))
      in rollout_loop cosf sinf p max_steps s [pose_of s] Map.empty)"

section \<open>Densification\<close>

definition pose_dist :: "path_pose \<Rightarrow> path_pose \<Rightarrow> f64" where
  "pose_dist a b = f_sqrt (f_add (f_sq (f_sub (pp_x b) (pp_x a))) (f_sq (f_sub (pp_y b) (pp_y a))))"

definition between :: "path_pose \<Rightarrow> path_pose \<Rightarrow> nat \<Rightarrow> nat \<Rightarrow> path_pose" where
  "between a b n k = (let r = f_div (f_of_int (int k)) (f_of_int (int n)) in
     \<lparr>pp_x = f_add (pp_x a) (f_mul (f_sub (pp_x b) (pp_x a)) r), pp_y = f_add (pp_y a) (f_mul (f_sub (pp_y b) (pp_y a)) r),
      pp_yaw = pp_yaw a\<rparr>)"

definition fill_gap :: "f64 \<Rightarrow> path_pose \<Rightarrow> path_pose \<Rightarrow> path_pose list" where
  "fill_gap spacing a b =
     (let d = pose_dist a b in
      if f_lt spacing d then let n = f_as_usize (f_ceil (f_div d spacing)) in map (between a b n) [1..<n] else [])"

fun densify_windows :: "f64 \<Rightarrow> path_pose list \<Rightarrow> path_pose list" where
  "densify_windows spacing (a # b # ps) = a # fill_gap spacing a b @ densify_windows spacing (b # ps)"
| "densify_windows spacing ps = []"

definition densify :: "path_pose list \<Rightarrow> f64 \<Rightarrow> path_pose list" where
  "densify poses spacing =
     (if length poses < 2 \<or> f_le spacing (f_of_int 0) then poses else densify_windows spacing poses @ [last poses])"

section \<open>Square roots are rounded to nearest\<close>

lemma isqrt_spec: "isqrt n * isqrt n \<le> n \<and> n < (isqrt n + 1) * (isqrt n + 1)"
proof (induction n rule: isqrt.induct)
  case (1 n)
  show ?case
  proof (cases "n = 0")
    case False
    define r where "r = isqrt (n div 4)"
    have r: "r * r \<le> n div 4" "n div 4 < (r + 1) * (r + 1)" using 1 [OF False] by (simp_all add: r_def)
    have "4 * (r * r) \<le> n" "n < 4 * ((r + 1) * (r + 1))" using r by linarith+
    then have b: "(2 * r) * (2 * r) \<le> n" "n < (2 * r + 2) * (2 * r + 2)" by (simp_all add: algebra_simps)
    have e: "isqrt n = (if (2 * r + 1) * (2 * r + 1) \<le> n then 2 * r + 1 else 2 * r)"
      by (subst isqrt.simps) (simp add: False r_def Let_def)
    show ?thesis unfolding e using b by (auto simp: not_le)
  qed (simp add: isqrt.simps)
qed

lemma sqrt_round_near:
  assumes q: "0 < q" and u: "u = sqrt_unit q"
  shows "0 \<le> sqrt_round q \<and> (sqrt_round q = 0 \<or> (sqrt_round q - u / 2)\<^sup>2 \<le> q) \<and> q \<le> (sqrt_round q + u / 2)\<^sup>2"
proof -
  have pos: "0 < u" "0 < u * u" by (simp_all add: u sqrt_unit_def)
  define v where "v = q / (u * u)"
  define m where "m = isqrt (nat \<lfloor>v\<rfloor>)"
  have v: "q = v * (u * u)" "0 \<le> v" using pos q by (simp_all add: v_def)
  have nv: "of_nat (nat \<lfloor>v\<rfloor>) \<le> v" "v < of_nat (nat \<lfloor>v\<rfloor>) + 1" using v(2) by (simp_all add: of_nat_nat floor_less_iff) linarith
  have "(of_nat (m * m) :: rat) \<le> of_nat (nat \<lfloor>v\<rfloor>)" "(of_nat (nat \<lfloor>v\<rfloor> + 1) :: rat) \<le> of_nat ((m + 1) * (m + 1))"
    using isqrt_spec [of "nat \<lfloor>v\<rfloor>"] unfolding m_def [symmetric] of_nat_le_iff by auto
  then have m: "of_nat m * of_nat m \<le> v" "v < (of_nat m + 1) * (of_nat m + 1)" using nv by (simp_all add: algebra_simps)
  define M :: rat where "M = of_nat m"
  note m = m [folded M_def]
  have M0: "0 \<le> M" by (simp add: M_def)
  have s: "sqrt_round q = (if (M + 1 / 2) * (M + 1 / 2) * (u * u) < q then (M + 1) * u else M * u)"
    by (simp add: sqrt_round_def Let_def u [symmetric] v_def [symmetric] m_def [symmetric] M_def [symmetric])
  have sq: "((a + b) * u)\<^sup>2 = (a + b) * (a + b) * (u * u)" for a b :: rat by (simp add: power2_eq_square algebra_simps)
  have h: "M * u - u / 2 = (M + (- 1 / 2)) * u" "M * u + u / 2 = (M + 1 / 2) * u" "(M + 1) * u - u / 2 = (M + 1 / 2) * u"
    "(M + 1) * u + u / 2 = (M + 3 / 2) * u" by (simp_all add: algebra_simps)
  show ?thesis
  proof (cases "(M + 1 / 2) * (M + 1 / 2) * (u * u) < q")
    case True
    have "v * (u * u) \<le> (M + 3 / 2) * (M + 3 / 2) * (u * u)" by (rule mult_right_mono) (use m M0 pos in \<open>auto simp: algebra_simps\<close>)
    then have up: "q \<le> (M + 3 / 2) * (M + 3 / 2) * (u * u)" by (simp only: v(1))
    have e: "sqrt_round q = (M + 1) * u" using True by (simp only: s if_True)
    show ?thesis unfolding e h sq using True up M0 pos by (simp add: less_imp_le)
  next
    case False
    have lo: "(M + (- 1 / 2)) * (M + (- 1 / 2)) * (u * u) \<le> q" if "M \<noteq> 0"
      unfolding v(1)
    proof (rule mult_right_mono)
      have "1 \<le> M" using that unfolding M_def by (cases m) simp_all
      then show "(M + (- 1 / 2)) * (M + (- 1 / 2)) \<le> v" using m(1) by (simp add: algebra_simps)
    qed (use pos in simp)
    have e: "sqrt_round q = M * u" using False by (simp only: s if_False)
    show ?thesis unfolding e h sq using False lo M0 pos by (auto simp: not_less)
  qed
qed


section \<open>What a rollout relies on\<close>

definition in_view :: "policy_view \<Rightarrow> i32 \<times> i32 \<times> i32 \<Rightarrow> bool" where
  "in_view p = (\<lambda>(ix, iy, it). vw_in_map_area p ix iy \<and> 0 \<le> it \<and> it < snd (snd (vw_cell_num p)))"

locale lawful_view =
  fixes p :: policy_view
  assumes final_inside: "vw_is_final p ix iy it \<Longrightarrow> in_view p (ix, iy, it)"
    and action_inside: "vw_action_index p ix iy it = Some ai \<Longrightarrow> in_view p (ix, iy, it) \<and> \<not> vw_is_final p ix iy it"
    and outside_value: "\<not> in_view p (ix, iy, it) \<Longrightarrow> vw_value_at p ix iy it = MAX_COST"
begin

lemma plannable_inside: "plannable_cell p c \<Longrightarrow> in_view p c"
  using final_inside action_inside by (auto simp: plannable_cell_def split: prod.splits)

end

lemma MAX_COST_pos: "MAX_COST \<noteq> 0" by (simp add: MAX_COST_eq)

interpretation dense: lawful_view "dense_view vi" for vi
  by unfold_locales
     (auto simp: dense_view_def in_view_def vw_in_map_area_def in_map_xy_def dense_is_final_def dense_action_index_def
       dense_value_at_def dense_range_def in_map_area_def Let_def split: if_splits)

interpretation compact: lawful_view "compact_view c" for c
  using MAX_COST_pos
  by unfold_locales
     (auto simp: compact_view_def in_view_def vw_in_map_area_def compact_action_index_def compact_value_at_def cp_read_def
       not_le not_less split: if_splits prod.splits)

section \<open>The run of a rollout\<close>

text \<open>The states a rollout passes: each follows from the one before by the action stored in its cell.\<close>

type_synonym place = "f64 \<times> f64 \<times> f64"

definition follows :: "(f64 \<Rightarrow> f64) \<Rightarrow> (f64 \<Rightarrow> f64) \<Rightarrow> policy_view \<Rightarrow> place \<Rightarrow> place \<Rightarrow> bool" where
  "follows cosf sinf p s s' \<longleftrightarrow> (case cell_at p s of (ix, iy, it) \<Rightarrow> in_view p (ix, iy, it) \<and> \<not> vw_is_final p ix iy it \<and>
     (\<exists>ai d. vw_action_index p ix iy it = Some ai \<and> vw_action_delta p ai = Some d \<and> s' = advance cosf sinf d s))"

fun follows_list :: "(f64 \<Rightarrow> f64) \<Rightarrow> (f64 \<Rightarrow> f64) \<Rightarrow> policy_view \<Rightarrow> place \<Rightarrow> place list \<Rightarrow> bool" where
  "follows_list cosf sinf p s [] \<longleftrightarrow> True"
| "follows_list cosf sinf p s (s' # ss) \<longleftrightarrow> follows cosf sinf p s s' \<and> follows_list cosf sinf p s' ss"

text \<open>Why it ended, in terms of the cell of its last place and the cells left before.\<close>

definition verdict :: "policy_view \<Rightarrow> rollout_status \<Rightarrow> i32 \<times> i32 \<times> i32 \<Rightarrow> (i32 \<times> i32 \<times> i32) list \<Rightarrow> nat \<Rightarrow> bool" where
  "verdict p st c left max_steps \<longleftrightarrow> (case c of (ix, iy, it) \<Rightarrow> (case st of
       ReachedGoal \<Rightarrow> length left < max_steps \<and> in_view p c \<and> vw_is_final p ix iy it
     | OutOfMap \<Rightarrow> length left < max_steps \<and> \<not> in_view p c
     | NoAction \<Rightarrow> length left < max_steps \<and> in_view p c \<and> \<not> vw_is_final p ix iy it \<and> vw_action_index p ix iy it = None
     | LoopDetected \<Rightarrow> length left < max_steps \<and> in_view p c \<and> count_list left c = REVISIT_LIMIT
     | StepLimit \<Rightarrow> length left = max_steps))"

definition tally :: "(i32 \<times> i32 \<times> i32 \<rightharpoonup> nat) \<Rightarrow> i32 \<times> i32 \<times> i32 \<Rightarrow> nat" where
  "tally visits c = (case visits c of None \<Rightarrow> 0 | Some k \<Rightarrow> k)"

lemma tally_upd: "tally (visits(c \<mapsto> k)) = (tally visits)(c := k)"
  by (rule ext) (simp add: tally_def)

lemma rollout_loop_run:
  assumes "rollout_loop cosf sinf p n s poses visits = Some r" and "\<And>c. tally visits c = count_list left c" and "\<And>c. count_list left c \<le> REVISIT_LIMIT"
  shows "\<exists>ss. follows_list cosf sinf p s ss \<and>
    (let cells = left @ map (cell_at p) (butlast (s # ss)) in
      verdict p (ro_status r) (cell_at p (last (s # ss))) cells (length left + n) \<and> (\<forall>c. count_list cells c \<le> REVISIT_LIMIT)) \<and>
    ro_poses r = poses @ map pose_of ss @ (if ro_status r = ReachedGoal then [goal_pose p] else [])"
  using assms
proof (induction n arbitrary: s poses visits left)
  case 0
  then show ?case by (intro exI [of _ "[]"]) (auto simp: verdict_def Let_def split: prod.split)
next
  case (Suc n)
  obtain ix iy it where c: "cell_at p s = (ix, iy, it)" by (rule prod_cases3)
  let ?c = "(ix, iy, it)"
  have out: "(\<not> vw_in_map_area p ix iy \<or> it < 0 \<or> snd (snd (vw_cell_num p)) \<le> it) \<longleftrightarrow> \<not> in_view p ?c"
    by (auto simp: in_view_def)
  have stop: ?case if "r = \<lparr>ro_poses = poses @ (if st = ReachedGoal then [goal_pose p] else []), ro_status = st\<rparr>"
      "verdict p st ?c left (length left + Suc n)" for st
    using that Suc.prems(3) by (intro exI [of _ "[]"]) (simp add: c Let_def)
  have count: "(case visits ?c of None \<Rightarrow> 0 | Some k \<Rightarrow> k) = count_list left ?c" using Suc.prems(2) [of ?c] by (simp add: tally_def)
  note unf = Suc.prems(1) [unfolded rollout_loop.simps c prod.case out count Let_def]
  show ?case
  proof (cases "in_view p ?c")
    case False
    then show ?thesis using unf by (intro stop [of OutOfMap]) (auto simp: verdict_def)
  next
    case inside: True
    show ?thesis
    proof (cases "vw_is_final p ix iy it")
      case True
      then show ?thesis using unf inside by (intro stop [of ReachedGoal]) (auto simp: verdict_def)
    next
      case nf: False
      show ?thesis
      proof (cases "vw_action_index p ix iy it")
        case None
        then show ?thesis using unf inside nf by (intro stop [of NoAction]) (auto simp: verdict_def)
      next
        case ai: (Some ai)
        show ?thesis
        proof (cases "REVISIT_LIMIT < count_list left ?c + 1")
          case True
          then have "count_list left ?c = REVISIT_LIMIT" using Suc.prems(3) [of ?c] by simp
          then show ?thesis using unf inside nf ai True by (intro stop [of LoopDetected]) (auto simp: verdict_def)
        next
          case fresh: False
          obtain d where d: "vw_action_delta p ai = Some d" using unf inside nf ai fresh by (cases "vw_action_delta p ai") auto
          define s' where "s' = advance cosf sinf d s"
          have st: "follows cosf sinf p s s'" unfolding follows_def c prod.case s'_def using inside nf ai d by blast
          have "rollout_loop cosf sinf p n s' (poses @ [pose_of s']) (visits(?c \<mapsto> count_list left ?c + 1)) = Some r"
            using unf inside nf ai d fresh by (simp add: s'_def)
          moreover have "tally (visits(?c \<mapsto> count_list left ?c + 1)) c' = count_list (left @ [?c]) c'"
            "count_list (left @ [?c]) c' \<le> REVISIT_LIMIT" for c'
            using Suc.prems(2) [of c'] Suc.prems(3) [of c'] fresh by (auto simp: tally_upd)
          ultimately obtain ss where ss: "follows_list cosf sinf p s' ss"
            "let cells = (left @ [?c]) @ map (cell_at p) (butlast (s' # ss)) in
               verdict p (ro_status r) (cell_at p (last (s' # ss))) cells (length (left @ [?c]) + n) \<and> (\<forall>c. count_list cells c \<le> REVISIT_LIMIT)"
            "ro_poses r = (poses @ [pose_of s']) @ map pose_of ss @ (if ro_status r = ReachedGoal then [goal_pose p] else [])"
            using Suc.IH [of s' _ _ "left @ [?c]"] by blast
          then show ?thesis using st by (intro exI [of _ "s' # ss"]) (simp add: c Let_def)
        qed
      qed
    qed
  qed
qed


lemma follows_inside: "follows cosf sinf p s s' \<Longrightarrow> in_view p (cell_at p s)"
  by (auto simp: follows_def split: prod.splits)

lemma follows_list_cells: "follows_list cosf sinf p s ss \<Longrightarrow> set (map (cell_at p) (butlast (s # ss))) \<subseteq> {c. in_view p c}"
proof (induction ss arbitrary: s)
  case (Cons s' ss)
  then have f: "follows cosf sinf p s s'" "follows_list cosf sinf p s' ss" by simp_all
  note Cons.IH [OF f(2)] follows_inside [OF f(1)]
  moreover have "set (map (cell_at p) (butlast (s # s' # ss))) = insert (cell_at p s) (set (map (cell_at p) (butlast (s' # ss))))" by simp
  ultimately show ?case by (simp only: insert_subset mem_Collect_eq)
qed simp

lemma view_cells_finite: "{c. in_view p c} = {0..<fst (vw_cell_num p)} \<times> {0..<fst (snd (vw_cell_num p))} \<times> {0..<snd (snd (vw_cell_num p))}"
  by (auto simp: in_view_def vw_in_map_area_def in_map_xy_def split: prod.splits)

definition cell_count :: "policy_view \<Rightarrow> nat" where
  "cell_count p = (case vw_cell_num p of (nx, ny, nt) \<Rightarrow> nat nx * nat ny * nat nt)"

lemma view_cells_card: "finite {c. in_view p c}" "card {c. in_view p c} = cell_count p"
  unfolding view_cells_finite by (simp_all add: cell_count_def card_cartesian_product split: prod.split)

text \<open>No cell is left more than eight times, so a rollout leaves at most eight times as many cells as the
  view has.\<close>

lemma rollout_length:
  assumes "follows_list cosf sinf p s ss" "\<And>c. count_list (map (cell_at p) (butlast (s # ss))) c \<le> REVISIT_LIMIT"
  shows "length ss \<le> REVISIT_LIMIT * cell_count p"
proof -
  let ?cells = "map (cell_at p) (butlast (s # ss))"
  have "length ss = length ?cells" by simp
  also have "\<dots> = (\<Sum>c\<in>{c. in_view p c}. count_list ?cells c)"
    by (rule sum_count_set [symmetric]) (rule follows_list_cells [OF assms(1)], rule view_cells_card(1))
  also have "\<dots> \<le> (\<Sum>c\<in>{c. in_view p c}. REVISIT_LIMIT)" by (rule sum_mono) (rule assms(2))
  finally show ?thesis by (simp add: view_cells_card(2) mult.commute)
qed

definition start_place :: "policy_view \<Rightarrow> f64 \<Rightarrow> f64 \<Rightarrow> f64 \<Rightarrow> i32 \<Rightarrow> place" where
  "start_place p x y yaw tol = (case rescued_start p x y yaw tol of (x, y) \<Rightarrow> (x, y, normalize_deg (f_to_degrees yaw)))"

lemma rollout_run:
  assumes "rollout_path_on cosf sinf p x y yaw n tol = Some r" and s: "s = start_place p x y yaw tol"
  obtains ss where "follows_list cosf sinf p s ss" "verdict p (ro_status r) (cell_at p (last (s # ss))) (map (cell_at p) (butlast (s # ss))) n"
    "\<And>c. count_list (map (cell_at p) (butlast (s # ss))) c \<le> REVISIT_LIMIT"
    "ro_poses r = map pose_of (s # ss) @ (if ro_status r = ReachedGoal then [goal_pose p] else [])"
proof -
  have r: "rollout_loop cosf sinf p n s [pose_of s] Map.empty = Some r" using assms by (simp add: rollout_path_on_def start_place_def Let_def)
  show thesis using rollout_loop_run [OF r, of "[]"] that by (auto simp: Let_def tally_def)
qed

lemma rollout_loop_total:
  assumes "\<And>ix iy it ai. vw_action_index p ix iy it = Some ai \<Longrightarrow> vw_action_delta p ai \<noteq> None"
  shows "rollout_loop cosf sinf p n s poses visits \<noteq> None"
proof (induction n arbitrary: s poses visits)
  case (Suc n)
  obtain ix iy it where c: "cell_at p s = (ix, iy, it)" by (rule prod_cases3)
  show ?case
  proof (cases "vw_action_index p ix iy it")
    case (Some ai)
    then obtain d where "vw_action_delta p ai = Some d" using assms [OF Some] by blast
    then show ?thesis using Suc.IH Some by (simp add: c Let_def)
  qed (simp add: c)
qed simp

definition actions_ok :: "value_iterator \<Rightarrow> bool" where
  "actions_ok vi \<longleftrightarrow> (\<forall>s\<in>set (states vi). \<forall>ai. optimal_action s = Some ai \<longrightarrow> ai < length (actions vi))"

lemma dense_state_cell:
  assumes "wf_vi vi" "dense_range vi ix iy it"
  shows "in_map vi (nat ix, nat iy, nat it)" "dense_state vi ix iy it = state_at vi (nat ix, nat iy, nat it)"
    "dense_state vi ix iy it \<in> set (states vi)"
proof -
  have m: "in_map vi (nat ix, nat iy, nat it)" "int (nat ix) = ix" "int (nat iy) = iy" "int (nat it) = it"
    using assms by (auto simp: dense_range_def in_map_area_def dim_x_def dim_y_def dim_t_def)
  have i: "usize_of (to_index vi ix iy it) = cidx vi (nat ix, nat iy, nat it)"
    unfolding to_index_def using to_index_cell [OF assms(1) m(1)] unfolding m(2-4) .
  show "in_map vi (nat ix, nat iy, nat it)" by (rule m)
  show e: "dense_state vi ix iy it = state_at vi (nat ix, nat iy, nat it)" by (simp add: dense_state_def state_at_def i)
  show "dense_state vi ix iy it \<in> set (states vi)" unfolding e state_at_def using cidx_less [OF m(1)] assms(1) by (simp add: wf_vi_def)
qed

lemma dense_action_delta:
  assumes "wf_vi vi" "actions_ok vi" "vw_action_index (dense_view vi) ix iy it = Some ai"
  shows "vw_action_delta (dense_view vi) ai = Some (delta_fw (actions vi ! ai), delta_rot (actions vi ! ai))"
proof -
  have "dense_range vi ix iy it" "optimal_action (dense_state vi ix iy it) = Some ai"
    using assms(3) by (auto simp: dense_view_def dense_action_index_def Let_def split: if_splits)
  then have "ai < length (actions vi)" using dense_state_cell(3) [OF assms(1)] assms(2) by (auto simp: actions_ok_def)
  then show ?thesis by (simp add: dense_view_def delta_of_def)
qed

lemma rollout_total:
  assumes "wf_vi vi" "actions_ok vi"
  shows "\<exists>r. rollout_path_on cosf sinf (dense_view vi) x y yaw n tol = Some r"
proof -
  have "vw_action_delta (dense_view vi) ai \<noteq> None" if "vw_action_index (dense_view vi) ix iy it = Some ai" for ix iy it ai
    using dense_action_delta [OF assms that] by simp
  then have "rollout_path_on cosf sinf (dense_view vi) x y yaw n tol \<noteq> None" unfolding rollout_path_on_def Let_def by (rule rollout_loop_total)
  then show ?thesis by blast
qed

section \<open>The nearest candidate\<close>

lemma keep_nearest_fold:
  assumes "fold (\<lambda>(dy, dx) best. case f (dx, dy) of None \<Rightarrow> best | Some v \<Rightarrow> keep_nearest dx dy v best) ds b = r"
    and "\<And>bd v. b = Some (bd, v) \<Longrightarrow> \<exists>dx dy. (dy, dx) \<in> D \<and> f (dx, dy) = Some v \<and> bd = dx * dx + dy * dy"
    and "\<And>dx dy v. (dy, dx) \<in> D \<Longrightarrow> f (dx, dy) = Some v \<Longrightarrow> \<exists>bd w. b = Some (bd, w) \<and> bd \<le> dx * dx + dy * dy"
  shows "(\<forall>bd v. r = Some (bd, v) \<longrightarrow> (\<exists>dx dy. (dy, dx) \<in> D \<union> set ds \<and> f (dx, dy) = Some v \<and> bd = dx * dx + dy * dy)) \<and>
    (\<forall>dx dy v. (dy, dx) \<in> D \<union> set ds \<longrightarrow> f (dx, dy) = Some v \<longrightarrow> (\<exists>bd w. r = Some (bd, w) \<and> bd \<le> dx * dx + dy * dy))"
  using assms
proof (induction ds arbitrary: b D)
  case (Cons d ds)
  obtain dy dx where d: "d = (dy, dx)" by (cases d)
  define b' where "b' = (case f (dx, dy) of None \<Rightarrow> b | Some v \<Rightarrow> keep_nearest dx dy v b)"
  have "fold (\<lambda>(dy, dx) best. case f (dx, dy) of None \<Rightarrow> best | Some v \<Rightarrow> keep_nearest dx dy v best) ds b' = r"
    using Cons.prems(1) by (simp add: d b'_def)
  moreover have "\<exists>dx' dy'. (dy', dx') \<in> insert d D \<and> f (dx', dy') = Some v \<and> bd = dx' * dx' + dy' * dy'" if "b' = Some (bd, v)" for bd v
    using that Cons.prems(2) by (auto simp: b'_def d keep_nearest_def split: option.splits prod.splits if_splits)
  moreover have "\<exists>bd w. b' = Some (bd, w) \<and> bd \<le> dx' * dx' + dy' * dy'" if "(dy', dx') \<in> insert d D" "f (dx', dy') = Some v" for dx' dy' v
    using that Cons.prems(3) [of dy' dx' v]
    by (fastforce simp: b'_def d keep_nearest_def split: option.splits prod.splits if_splits)
  ultimately show ?case using Cons.IH [of b' "insert d D"] by (simp add: d insert_commute)
qed auto

lemma nearest_spec:
  assumes "r = fold (\<lambda>dy. fold (\<lambda>dx best. case f (dx, dy) of None \<Rightarrow> best | Some v \<Rightarrow> keep_nearest dx dy v best) [- tol..tol]) [- tol..tol] None"
  shows "(\<forall>bd v. r = Some (bd, v) \<longrightarrow> (\<exists>dx dy. \<bar>dx\<bar> \<le> tol \<and> \<bar>dy\<bar> \<le> tol \<and> f (dx, dy) = Some v \<and> bd = dx * dx + dy * dy)) \<and>
    (\<forall>dx dy v. \<bar>dx\<bar> \<le> tol \<longrightarrow> \<bar>dy\<bar> \<le> tol \<longrightarrow> f (dx, dy) = Some v \<longrightarrow> (\<exists>bd w. r = Some (bd, w) \<and> bd \<le> dx * dx + dy * dy))"
proof -
  have "r = fold (\<lambda>(dy, dx) best. case f (dx, dy) of None \<Rightarrow> best | Some v \<Rightarrow> keep_nearest dx dy v best) (List.product [- tol..tol] [- tol..tol]) None"
    unfolding assms by (rule fold_product)
  from keep_nearest_fold [OF this [symmetric], of "{}"] show ?thesis by (simp add: abs_le_iff conj_comms) (smt (verit))
qed


section \<open>Densification\<close>

lemma fill_yaw: "q \<in> set (fill_gap spacing a b) \<Longrightarrow> pp_yaw q = pp_yaw a"
  by (auto simp: fill_gap_def between_def Let_def split: if_splits)

lemma densify_windows_gaps:
  "poses \<noteq> [] \<Longrightarrow> densify_windows spacing poses = concat (map (\<lambda>i. poses ! i # fill_gap spacing (poses ! i) (poses ! Suc i)) [0..<length poses - 1])"
proof (induction spacing poses rule: densify_windows.induct)
  case (1 spacing a b ps)
  have "[0..<Suc k] = 0 # map Suc [0..<k]" for k by (simp add: upt_conv_Cons map_Suc_upt del: upt_Suc)
  then have "[0..<length (a # b # ps) - 1] = 0 # map Suc [0..<length (b # ps) - 1]" by simp
  then show ?case using 1 by (simp add: comp_def)
qed simp_all

section \<open>Properties\<close>

text \<open>C12: a rollout is a run of the stored policy. Every pose follows from the one before by the action of its
  cell; the status tells truthfully why it ended (a goal cell, outside the map, a cell without action, a
  cell left eight times before, the step limit); no cell is left more than eight times; and the exact
  goal pose is appended when and only when a goal cell was reached.\<close>

theorem rollout_sound:
  assumes "rollout_path_on cosf sinf p x y yaw n tol = Some r" and "s = start_place p x y yaw tol"
  shows "\<exists>ss. follows_list cosf sinf p s ss \<and>
    verdict p (ro_status r) (cell_at p (last (s # ss))) (map (cell_at p) (butlast (s # ss))) n \<and>
    (\<forall>c. count_list (map (cell_at p) (butlast (s # ss))) c \<le> REVISIT_LIMIT) \<and>
    ro_poses r = map pose_of (s # ss) @ (if reached_goal r then [goal_pose p] else [])"
  unfolding reached_goal_def by (rule rollout_run [OF assms]) blast

text \<open>C13: on a well-formed field whose stored actions exist, a rollout never panics, and with more steps than
  eight times the number of states it never ends at the step limit: it gives one of the four verdicts.\<close>

theorem rollout_decides:
  assumes "wf_vi vi" and "actions_ok vi" and "REVISIT_LIMIT * cell_count (dense_view vi) < n"
  shows "\<exists>r. rollout_path_on cosf sinf (dense_view vi) x y yaw n tol = Some r \<and> ro_status r \<noteq> StepLimit \<and>
    length (ro_poses r) \<le> REVISIT_LIMIT * cell_count (dense_view vi) + 2"
proof -
  obtain r where r: "rollout_path_on cosf sinf (dense_view vi) x y yaw n tol = Some r" using rollout_total [OF assms(1,2)] by blast
  let ?s = "start_place (dense_view vi) x y yaw tol"
  obtain ss where ss: "follows_list cosf sinf (dense_view vi) ?s ss"
    "verdict (dense_view vi) (ro_status r) (cell_at (dense_view vi) (last (?s # ss))) (map (cell_at (dense_view vi)) (butlast (?s # ss))) n"
    "\<And>c. count_list (map (cell_at (dense_view vi)) (butlast (?s # ss))) c \<le> REVISIT_LIMIT"
    "ro_poses r = map pose_of (?s # ss) @ (if ro_status r = ReachedGoal then [goal_pose (dense_view vi)] else [])"
    by (rule rollout_run [OF r refl]) (rule that)
  note len = rollout_length [OF ss(1,3)]
  have "ro_status r \<noteq> StepLimit" using ss(2) len assms(3) by (auto simp: verdict_def simp del: butlast.simps last.simps split: prod.splits)
  then show ?thesis using r len ss(4) by auto
qed

text \<open>The rescue of a start picks a cell of the square around it that has an action or is a goal, at the
  least Euclidean distance, and returns its centre; it fails only when the square has no such cell.\<close>

theorem rescue_nearest:
  assumes "pose_to_cell_on p x y yaw = (ix, iy, it)" and "\<And>dx dy. ok dx dy \<longleftrightarrow> \<bar>dx\<bar> \<le> tol \<and> \<bar>dy\<bar> \<le> tol \<and> plannable_cell p (wrap32 (ix + dx), wrap32 (iy + dy), it)"
  shows "(find_plannable_start p x y yaw tol = None \<longleftrightarrow> (\<forall>dx dy. \<not> ok dx dy)) \<and>
    (\<forall>q. find_plannable_start p x y yaw tol = Some q \<longrightarrow> (\<exists>dx dy. ok dx dy \<and> (\<forall>dx' dy'. ok dx' dy' \<longrightarrow> dx * dx + dy * dy \<le> dx' * dx' + dy' * dy') \<and>
       q = (f_add (f_mul (f_add (f_of_int (wrap32 (ix + dx))) (f_lit (1 / 2))) (vw_xy_resolution p)) (fst (vw_map_origin p)),
            f_add (f_mul (f_add (f_of_int (wrap32 (iy + dy))) (f_lit (1 / 2))) (vw_xy_resolution p)) (snd (vw_map_origin p)))))"
proof -
  define f where "f = (\<lambda>(dx, dy). if plannable_cell p (wrap32 (ix + dx), wrap32 (iy + dy), it) then Some (wrap32 (ix + dx), wrap32 (iy + dy)) else None)"
  define best where "best = fold (\<lambda>dy. fold (\<lambda>dx best. case f (dx, dy) of None \<Rightarrow> best | Some v \<Rightarrow> keep_nearest dx dy v best) [- tol..tol]) [- tol..tol] None"
  have scan: "scan_start p (ix, iy, it) (dy, dx) = (\<lambda>b. case f (dx, dy) of None \<Rightarrow> b | Some v \<Rightarrow> keep_nearest dx dy v b)" for dx dy
    by (rule ext) (simp add: scan_start_def f_def Let_def)
  have res: "find_plannable_start p x y yaw tol = map_option (\<lambda>(_, ix, iy).
      (f_add (f_mul (f_add (f_of_int ix) (f_lit (1 / 2))) (vw_xy_resolution p)) (fst (vw_map_origin p)),
       f_add (f_mul (f_add (f_of_int iy) (f_lit (1 / 2))) (vw_xy_resolution p)) (snd (vw_map_origin p)))) best"
    by (simp add: find_plannable_start_def assms(1) scan best_def Let_def split: prod.split)
  have ok: "ok dx dy \<longleftrightarrow> \<bar>dx\<bar> \<le> tol \<and> \<bar>dy\<bar> \<le> tol \<and> f (dx, dy) = Some (wrap32 (ix + dx), wrap32 (iy + dy))" for dx dy
    by (simp add: assms(2) f_def)
  have fS: "f (dx, dy) = Some v \<Longrightarrow> v = (wrap32 (ix + dx), wrap32 (iy + dy))" for dx dy v by (simp add: f_def split: if_splits)
  note near = nearest_spec [OF best_def]
  show ?thesis
  proof (cases best)
    case None
    then have "\<not> ok dx dy" for dx dy using near unfolding ok by fastforce
    then show ?thesis using None by (simp add: res)
  next
    case (Some bv)
    obtain bd v where bv: "best = Some (bd, v)" using Some by (cases bv) auto
    obtain dx dy where d: "ok dx dy" "bd = dx * dx + dy * dy" "v = (wrap32 (ix + dx), wrap32 (iy + dy))"
      using near bv fS unfolding ok by blast
    moreover have "bd \<le> dx' * dx' + dy' * dy'" if "ok dx' dy'" for dx' dy' using near that bv unfolding ok by fastforce
    ultimately show ?thesis by (auto simp: res bv)
  qed
qed

text \<open>Densification keeps every pose of the path, in order, with the first and the last at the ends; what it
  puts between two poses has the heading of the first of the two.\<close>

theorem densify_keeps:
  assumes "poses \<noteq> []"
  shows "\<exists>gap. densify poses spacing = concat (map (\<lambda>i. poses ! i # gap i) [0..<length poses - 1]) @ [last poses] \<and>
    (\<forall>i. \<forall>q\<in>set (gap i). pp_yaw q = pp_yaw (poses ! i))"
proof (cases "length poses < 2 \<or> f_le spacing (f_of_int 0)")
  case True
  have "concat (map (\<lambda>i. [poses ! i]) [0..<length poses - 1]) = butlast poses"
    by (intro nth_equalityI) (simp_all add: concat_map_singleton nth_butlast)
  then show ?thesis using True assms by (intro exI [of _ "\<lambda>i. []"]) (simp add: densify_def)
next
  case False
  then show ?thesis
    using fill_yaw by (intro exI [of _ "\<lambda>i. fill_gap spacing (poses ! i) (poses ! Suc i)"]) (simp add: densify_def densify_windows_gaps [OF assms])
qed

section \<open>Witnesses\<close>

text \<open>A robot at the left end of the corridor, with cells of one metre.\<close>

definition metre :: f64 where "metre = Fin False 1"

definition path_vi :: value_iterator where
  "path_vi = corridor_solved\<lparr>actions := map (\<lambda>a. a\<lparr>delta_fw := metre\<rparr>) (actions corridor_solved),
     xy_resolution := metre, map_origin_x := Fin False 0, map_origin_y := Fin False 0, goal_x := metre, goal_y := metre\<rparr>"

lemma path_vi_ok: "wf_vi path_vi" "actions_ok path_vi" "cell_count (dense_view path_vi) = 3"
proof -
  show "wf_vi path_vi" by code_simp
  show "actions_ok path_vi" by (simp add: actions_ok_def path_vi_def corridor_solved_def corridor_of_def corridor_state_def)
  show "cell_count (dense_view path_vi) = 3" by (simp add: cell_count_def dense_view_def path_vi_def corridor_solved_def corridor_of_def)
qed

lemma mk_f64_small [simp]: "mk_f64 s 0 = Fin s 0" "mk_f64 s 1 = Fin s 1" "mk_f64 s 2 = Fin s 2"
  using round_mag_int [of 0] round_mag_int [of 1] round_mag_int [of 2] by (simp_all add: mk_f64_def)

lemma f_div_NaN [simp]: "f_div x NaN = NaN"
  by (cases x) simp_all

lemma path_cells: "cell_at (dense_view path_vi) (Fin False x, Fin False 0, deg) = (x', 0, 0)" if "(x, x') \<in> {(0, 0), (1, 1), (2, 2)}"
  using that
  by (auto simp: cell_at_def pose_to_cell_on_def dense_view_def path_vi_def metre_def corridor_solved_def corridor_of_def f_sub_def sval_def
      trunc0_def clamp_def)

lemma path_rollout:
  "\<exists>r. rollout_path_on (\<lambda>_. metre) (\<lambda>_. Fin False 0) (dense_view path_vi) (Fin False 0) (Fin False 0) yaw (Suc (Suc (Suc k))) 0 = Some r \<and>
     ro_status r = ReachedGoal \<and> map pp_x (ro_poses r) = [Fin False 0, metre, Fin False 2, metre]"
proof -
  have step: "advance (\<lambda>_. metre) (\<lambda>_. Fin False 0) (metre, NaN) (Fin False x, Fin False 0, deg) = (Fin False (x + 1), Fin False 0, NaN)"
    if "x \<in> {0, 1}" for x deg
    using that by (cases deg) (auto simp: advance_def metre_def sval_def normalize_deg_def f_rem_euclid_def Let_def)
  have v: "vw_action_delta (dense_view path_vi) 0 = Some (metre, NaN)" "vw_cell_num (dense_view path_vi) = (3, 1, 1)"
    "vw_action_index (dense_view path_vi) 0 0 0 = Some 0" "vw_action_index (dense_view path_vi) 1 0 0 = Some 0"
    "vw_is_final (dense_view path_vi) 2 0 0" "\<not> vw_is_final (dense_view path_vi) 0 0 0" "\<not> vw_is_final (dense_view path_vi) 1 0 0"
    by code_simp+
  have g: "pp_x (goal_pose (dense_view path_vi)) = metre" by (simp add: goal_pose_def dense_view_def path_vi_def)
  have step': "advance (\<lambda>_. metre) (\<lambda>_. Fin False 0) (metre, NaN) (metre, Fin False 0, deg) = (Fin False 2, Fin False 0, NaN)" for deg
    using step [of 1] by (simp add: metre_def)
  have cell1: "cell_at (dense_view path_vi) (metre, Fin False 0, deg) = (1, 0, 0)" for deg using path_cells [of 1 1] by (simp add: metre_def)
  have step0: "advance (\<lambda>_. metre) (\<lambda>_. Fin False 0) (metre, NaN) (Fin False 0, Fin False 0, deg) = (metre, Fin False 0, NaN)" for deg
    using step [of 0] by (simp add: metre_def)
  show ?thesis
    by (simp add: rollout_path_on_def rescued_start_def vw_in_map_area_def in_map_xy_def path_cells cell1 v step0 step' REVISIT_LIMIT_def
        Let_def pose_of_def g)
qed


theorem rollout_sound_witness:
  "\<exists>r ss. rollout_path_on (\<lambda>_. metre) (\<lambda>_. Fin False 0) (dense_view path_vi) (Fin False 0) (Fin False 0) NaN 3 0 = Some r \<and>
     ro_status r = ReachedGoal \<and> map pp_x (ro_poses r) = [Fin False 0, metre, Fin False 2, metre] \<and>
     ro_poses r = map pose_of (start_place (dense_view path_vi) (Fin False 0) (Fin False 0) NaN 0 # ss) @ [goal_pose (dense_view path_vi)]"
proof -
  have "(3::nat) = Suc (Suc (Suc 0))" by simp
  then obtain r where r: "rollout_path_on (\<lambda>_. metre) (\<lambda>_. Fin False 0) (dense_view path_vi) (Fin False 0) (Fin False 0) NaN 3 0 = Some r"
    "ro_status r = ReachedGoal" "map pp_x (ro_poses r) = [Fin False 0, metre, Fin False 2, metre]"
    using path_rollout [of NaN 0] by auto
  from rollout_sound [OF r(1) refl] r show ?thesis by (auto simp: reached_goal_def)
qed

theorem rollout_decides_witness:
  "\<exists>r. rollout_path_on (\<lambda>_. metre) (\<lambda>_. metre) (dense_view path_vi) metre metre NaN 25 2 = Some r \<and> ro_status r \<noteq> StepLimit \<and> length (ro_poses r) \<le> 26"
  using rollout_decides [OF path_vi_ok(1,2), of 25 "\<lambda>_. metre" "\<lambda>_. metre" metre metre NaN 2] by (simp add: path_vi_ok(3) REVISIT_LIMIT_def)

theorem rescue_nearest_witness:
  "find_plannable_start (dense_view path_vi) (Fin False 0) (Fin False 0) NaN 2 \<noteq> None"
proof -
  have c: "pose_to_cell_on (dense_view path_vi) (Fin False 0) (Fin False 0) NaN = (0, 0, 0)"
    using path_cells [of 0 0] by (simp add: cell_at_def) (simp add: pose_to_cell_on_def dense_view_def path_vi_def corridor_solved_def corridor_of_def Let_def)
  have "plannable_cell (dense_view path_vi) (wrap32 (0 + 1), wrap32 (0 + 0), 0)" by code_simp
  with rescue_nearest [OF c, of "\<lambda>dx dy. \<bar>dx\<bar> \<le> 2 \<and> \<bar>dy\<bar> \<le> 2 \<and> plannable_cell (dense_view path_vi) (wrap32 (0 + dx), wrap32 (0 + dy), 0)" 2]
  show ?thesis by (auto dest: spec [of _ 1])
qed

theorem densify_keeps_witness:
  "\<exists>gap. densify (map (\<lambda>k. pose_of (Fin False k, Fin False 0, NaN)) [0, 1, 2]) metre =
     concat (map (\<lambda>i. map (\<lambda>k. pose_of (Fin False k, Fin False 0, NaN)) [0, 1, 2] ! i # gap i) [0..<2]) @ [pose_of (Fin False 2, Fin False 0, NaN)]"
  using densify_keeps [of "map (\<lambda>k. pose_of (Fin False k, Fin False 0, NaN)) [0, 1, 2]" metre] by (auto simp: numeral_2_eq_2)

end
