(* ===== verification/Planner.thy ===== *)
theory Planner
  imports Manager Rollout Original Block
begin

text \<open>
  The planner core around the field manager: \<^verbatim>\<open>vi_planner/src/core/mod.rs\<close> (goal preparation, planning,
  decisions, value grids), \<^verbatim>\<open>core/follow.rs\<close>, \<^verbatim>\<open>core/value_grid.rs\<close> and the dispatch of
  \<^verbatim>\<open>vi_lib/src/solvers/mod.rs\<close>, on the dense path.

  A planner call is a function of an environment (build parameters, configuration, \<open>cos\<close> and \<open>sin\<close>, what the
  cancel flag reads at each poll, the solvers with a representation of their own) and a state (the core, the
  director that watches a solve, the prefetcher). \<open>None\<close> is a panic, or a wait that never ends.
\<close>

section \<open>Solvers\<close>

datatype u64_solver = Reference | Frontier3D | Frontier2D | Frontier2DPar | Frontier2DParUnsafe | Frontier2DFused
  | Frontier2DSparse | Frontier2DSparseCompact nat | FrontierStack | BlockRefine | PyramidSweep | StreamMimic
  | PriorityLabelSetting | PriorityLabelCorrecting | SchurPortal nat nat

definition solver_from_name :: "string \<Rightarrow> u64_solver option" where
  "solver_from_name s = map_of
     [(''reference'', Reference), (''frontier3d'', Frontier3D), (''frontier2d'', Frontier2D), (''frontier2d_par'', Frontier2DPar),
      (''frontier2d_par_unsafe'', Frontier2DParUnsafe), (''frontier2d_fused'', Frontier2DFused),
      (''frontier2d_sparse'', Frontier2DSparse), (''frontier2d_sparse_compact'', Frontier2DSparseCompact 0),
      (''frontier_stack'', FrontierStack), (''block_refine'', BlockRefine), (''pyramid_sweep'', PyramidSweep),
      (''stream_mimic'', StreamMimic), (''prio_ls'', PriorityLabelSetting), (''prio_lc'', PriorityLabelCorrecting),
      (''schur'', SchurPortal 32 8)] s"

datatype partiality = UpperBound | ExactPrefix

record solver_caps =
  caps_exact :: bool
  caps_partial :: partiality
  caps_out_of_core :: bool
  caps_parallel :: bool
  caps_resweep :: bool

fun is_compact_kind :: "u64_solver \<Rightarrow> bool" where
  "is_compact_kind (Frontier2DSparseCompact band) = True"
| "is_compact_kind _ = False"

definition solver_caps_of :: "u64_solver \<Rightarrow> solver_caps" where
  "solver_caps_of k =
     \<lparr>caps_exact = (k \<noteq> PriorityLabelSetting), caps_partial = (if is_compact_kind k then ExactPrefix else UpperBound),
      caps_out_of_core = is_compact_kind k,
      caps_parallel = (k \<in> {Frontier2DPar, Frontier2DParUnsafe, Frontier2DFused, Frontier2DSparse} \<or> is_compact_kind k),
      caps_resweep = (\<not> (is_compact_kind k \<or> k \<in> {PriorityLabelSetting, PriorityLabelCorrecting}))\<rparr>"

type_synonym 'o solver_run = "value_iterator \<Rightarrow> nat \<Rightarrow> 'o solve_observer \<Rightarrow> 'o \<Rightarrow> (value_iterator \<times> solve_outcome \<times> 'o) option"

text \<open>The solvers that update the field in place are those of the development; the others, which work on a
  representation of their own, are the argument \<open>rest\<close>.\<close>

fun solve_observed :: "(u64_solver \<Rightarrow> 'o solver_run) \<Rightarrow> u64_solver \<Rightarrow> 'o solver_run" where
  "solve_observed rest Reference = original_solve_observed"
| "solve_observed rest Frontier3D = frontier3d_solve_observed"
| "solve_observed rest Frontier2D = frontier2d_solve_observed"
| "solve_observed rest FrontierStack = frontier_stack_solve_observed"
| "solve_observed rest BlockRefine = block_refine_solve_observed"
| "solve_observed rest PyramidSweep = pyramid_sweep_solve_observed"
| "solve_observed rest StreamMimic = stream_mimic_solve_observed"
| "solve_observed rest k = rest k"

fun in_place :: "u64_solver \<Rightarrow> bool" where
  "in_place k \<longleftrightarrow> k \<in> {Reference, Frontier3D, Frontier2D, FrontierStack, BlockRefine, PyramidSweep, StreamMimic}"

section \<open>Parameters, results and the environment\<close>

record build_params =
  b_grid :: occupancy_grid
  b_actions :: "action list"
  b_theta_cell_num :: i32
  b_map_penalty_radius :: f64
  b_map_penalty :: f64
  b_goal_margin_radius :: f64
  b_goal_margin_theta :: i32
  b_local_xy_range :: f64
  b_local_shape :: local_shape_config
  b_patch_slack_cells :: i32
  b_repair_interior_cells :: i32

datatype follow_kind = Greedy | Dwa | Mppi

definition follow_from_name :: "string \<Rightarrow> follow_kind option" where
  "follow_from_name s = map_of [(''greedy'', Greedy), (''dwa'', Dwa), (''mppi'', Mppi)] s"

text \<open>The fields of the configuration that the dense path reads.\<close>

record plan_config =
  pc_solver :: u64_solver
  pc_max_solve_iter :: nat
  pc_solve_chunk :: nat
  pc_max_rollout_steps :: nat
  pc_start_tolerance_cells :: i32
  pc_path_spacing :: f64
  pc_action_tolerance_cells :: i32
  pc_follow_controller :: follow_kind
  pc_early_start :: bool

definition use_compact :: "plan_config \<Rightarrow> bool" where
  "use_compact cfg = caps_out_of_core (solver_caps_of (pc_solver cfg))"

record solve_stats =
  ss_solved_now :: bool
  ss_iters :: nat
  ss_adopted :: bool
  ss_partial :: bool

record plan_stats = solve_stats +
  ps_poses :: nat

datatype core_error = PlanCancelled | PlanNotConverged | PlanRollout rollout_status | PlanSink string | PlanPatch string
  | PlanUnsupported string

text \<open>The director of a solve: how often it read the cancel flag, the fields it showed to the progress
  callback, and whether its rollout panicked, which unwinds the solve.\<close>

record director =
  dr_polls :: nat
  dr_shown :: "value_iterator list"
  dr_panic :: bool

record planner_env =
  e_cos :: "f64 \<Rightarrow> f64"
  e_sin :: "f64 \<Rightarrow> f64"
  e_par :: nat
  e_rest :: "u64_solver \<Rightarrow> director solver_run"
  e_build :: build_params
  e_cfg :: plan_config
  e_cancel :: "nat \<Rightarrow> bool"

definition reaches_goal :: "planner_env \<Rightarrow> policy_view \<Rightarrow> pose_view \<Rightarrow> bool option" where
  "reaches_goal e p from =
     map_option reached_goal (rollout_path_on (e_cos e) (e_sin e) p (pv_x from) (pv_y from) (yaw_rad from)
       (pc_max_rollout_steps (e_cfg e)) (pc_start_tolerance_cells (e_cfg e)))"

definition poll :: "planner_env \<Rightarrow> director \<Rightarrow> bool \<times> director" where
  "poll e d = (e_cancel e (dr_polls d), d\<lparr>dr_polls := dr_polls d + 1\<rparr>)"

definition solve_director :: "planner_env \<Rightarrow> pose_view option \<Rightarrow> director solve_observer" where
  "solve_director e from =
     \<lparr>interval = max (pc_solve_chunk (e_cfg e)) 1,
      boundary = (\<lambda>d probe. case poll e d of (cancelled, d) \<Rightarrow>
        if cancelled then (Cancel, d)
        else let d = d\<lparr>dr_shown := dr_shown d @ [pr_vi probe]\<rparr> in
          case from of
            None \<Rightarrow> (Continue, d)
          | Some f \<Rightarrow> (case reaches_goal e (dense_view (pr_vi probe)) f of
              None \<Rightarrow> (Cancel, d\<lparr>dr_panic := True\<rparr>)
            | Some ok \<Rightarrow> (if ok then Stop else Continue, d)))\<rparr>"

section \<open>Solving a goal\<close>

definition dense_map :: "planner_env \<Rightarrow> vi_local option" where
  "dense_map e =
     (let b = e_build e in
      map_option (set_local_shape (b_local_shape b))
        (local_set_map (e_cos e) (e_sin e) (e_par e) (b_grid b) (b_theta_cell_num b) (b_map_penalty_radius b) (b_map_penalty b)
          (b_goal_margin_radius b) (b_goal_margin_theta b) (vi_local_new (b_actions b) 1)))"

text \<open>A solve under the director, on a field whose goal is set. The result is the field with the number of
  iterations and whether it was stopped, or an error.\<close>

definition run_solver :: "planner_env \<Rightarrow> pose_view option \<Rightarrow> vi_local \<Rightarrow> director
    \<Rightarrow> ((core_error + vi_local \<times> nat \<times> bool) \<times> director) option" where
  "run_solver e from vi d =
     Option.bind (solve_observed (e_rest e) (pc_solver (e_cfg e)) (base vi) (pc_max_solve_iter (e_cfg e)) (solve_director e from) d)
       (\<lambda>(b, out, d). if dr_panic d then None
         else Some (if o_cancelled out then Inl PlanCancelled
           else if \<not> o_converged out \<and> \<not> o_stopped out then Inl PlanNotConverged
           else Inr (vi\<lparr>base := b\<rparr>, o_iters out, o_stopped out), d))"

definition solve_dense :: "planner_env \<Rightarrow> pose_view \<Rightarrow> i32 \<Rightarrow> pose_view option \<Rightarrow> director
    \<Rightarrow> ((core_error + vi_local \<times> nat \<times> bool) \<times> director) option" where
  "solve_dense e goal goal_t_deg from d =
     (case poll e d of (cancelled, d) \<Rightarrow>
        if cancelled then Some (Inl PlanCancelled, d)
        else Option.bind (dense_map e) (\<lambda>vi.
          run_solver e from (vi\<lparr>base := set_goal (pv_x goal) (pv_y goal) goal_t_deg (base vi)\<rparr>) d))"

section \<open>Goal preparation\<close>

text \<open>A prefetcher as the core sees it; \<open>'p\<close> is its state. \<open>pf_adopt\<close> may wait for ever.\<close>

record 'p prefetch_api =
  pf_adopt :: "pose_view \<Rightarrow> i32 \<Rightarrow> 'p \<Rightarrow> (vi_local cached_goal option \<times> 'p) option"
  pf_note :: "pose_view \<Rightarrow> 'p \<Rightarrow> 'p"

record 'p planner =
  pl_core :: core
  pl_dir :: director
  pl_pre :: 'p

definition cache_matches :: "core \<Rightarrow> pose_view \<Rightarrow> i32 \<Rightarrow> bool" where
  "cache_matches co goal goal_t_deg =
     (case c_cached co of None \<Rightarrow> False | Some c \<Rightarrow> goal_matches (cached_key c) (pv_x goal, pv_y goal, goal_t_deg))"

definition is_cached_goal :: "core \<Rightarrow> pose_view \<Rightarrow> bool" where
  "is_cached_goal co goal = cache_matches co goal (yaw_to_goal_theta_deg (yaw_rad goal))"

definition is_partial :: "core \<Rightarrow> bool" where
  "is_partial co = (case c_cached co of None \<Rightarrow> False | Some c \<Rightarrow> cg_partial c)"

definition request_next :: "'p prefetch_api option \<Rightarrow> pose_view \<Rightarrow> 'p planner \<Rightarrow> 'p planner" where
  "request_next api goal pl = (case api of None \<Rightarrow> pl | Some a \<Rightarrow> pl\<lparr>pl_pre := pf_note a goal (pl_pre pl)\<rparr>)"

definition try_adopt :: "'p prefetch_api option \<Rightarrow> pose_view \<Rightarrow> i32 \<Rightarrow> 'p planner \<Rightarrow> (vi_local cached_goal option \<times> 'p planner) option" where
  "try_adopt api goal t pl =
     (case api of None \<Rightarrow> Some (None, pl)
      | Some a \<Rightarrow> map_option (\<lambda>(r, p). (r, pl\<lparr>pl_pre := p\<rparr>)) (pf_adopt a goal t (pl_pre pl)))"

definition finish_goal :: "'p prefetch_api option \<Rightarrow> pose_view \<Rightarrow> solve_stats \<Rightarrow> vi_local cached_goal \<Rightarrow> 'p planner
    \<Rightarrow> (core_error + solve_stats) \<times> 'p planner" where
  "finish_goal api goal st c pl =
     (let st = st\<lparr>ss_solved_now := True\<rparr>
      in (Inr st, request_next api goal (pl\<lparr>pl_core := install_field (ss_partial st) c (pl_core pl)\<rparr>)))"

definition stats0 :: solve_stats where
  "stats0 = \<lparr>ss_solved_now = False, ss_iters = 0, ss_adopted = False, ss_partial = False\<rparr>"

definition prepare_goal_with_progress ::
  "planner_env \<Rightarrow> 'p prefetch_api option \<Rightarrow> pose_view \<Rightarrow> pose_view option \<Rightarrow> 'p planner \<Rightarrow> ((core_error + solve_stats) \<times> 'p planner) option" where
  "prepare_goal_with_progress e api goal from pl =
     (let t = yaw_to_goal_theta_deg (yaw_rad goal) in
      if cache_matches (pl_core pl) goal t
      then Some (let pl = request_next api goal pl in (Inr (stats0\<lparr>ss_partial := is_partial (pl_core pl)\<rparr>), pl))
      else Option.bind (try_adopt api goal t (pl\<lparr>pl_core := reset_for_goal (pl_core pl)\<rparr>)) (\<lambda>(adopted, pl).
        case adopted of
          Some c \<Rightarrow> Some (finish_goal api goal (stats0\<lparr>ss_adopted := True\<rparr>) c pl)
        | None \<Rightarrow>
            map_option (\<lambda>(r, d). let pl = pl\<lparr>pl_dir := d\<rparr> in
              case r of
                Inl err \<Rightarrow> (Inl err, pl)
              | Inr (vi, iters, unfinished) \<Rightarrow>
                  finish_goal api goal (stats0\<lparr>ss_iters := iters, ss_partial := unfinished\<rparr>)
                    \<lparr>cg_x = pv_x goal, cg_y = pv_y goal, cg_t_deg = t, cg_field = vi, cg_partial = unfinished\<rparr> pl)
              (solve_dense e goal t (if pc_early_start (e_cfg e) then from else None) (pl_dir pl))))"

definition prepare_goal :: "planner_env \<Rightarrow> 'p prefetch_api option \<Rightarrow> pose_view \<Rightarrow> 'p planner \<Rightarrow> ((core_error + solve_stats) \<times> 'p planner) option" where
  "prepare_goal e api goal pl = prepare_goal_with_progress e api goal None pl"

definition prepare_reloc_goal :: "planner_env \<Rightarrow> (f64 \<times> f64) list \<Rightarrow> 'p planner \<Rightarrow> ((core_error + solve_stats) \<times> 'p planner) option" where
  "prepare_reloc_goal e targets pl =
     (if use_compact (e_cfg e) then Some (Inl (PlanUnsupported ''active relocalization needs the dense path''), pl)
      else if targets = [] then Some (Inl (PlanUnsupported ''no relocalization targets''), pl)
      else case poll e (pl_dir pl) of (cancelled, d) \<Rightarrow> let pl = pl\<lparr>pl_dir := d\<rparr> in
        if cancelled then Some (Inl PlanCancelled, pl)
        else let pl = pl\<lparr>pl_core := reset_for_goal (pl_core pl)\<rparr> in
          Option.bind (dense_map e) (\<lambda>vi.
            let radius = f_max (b_goal_margin_radius (e_build e)) (xy_resolution (base vi)) in
            map_option (\<lambda>(r, d). let pl = pl\<lparr>pl_dir := d\<rparr> in
              case r of
                Inl err \<Rightarrow> (Inl err, pl)
              | Inr (vi, iters, unfinished) \<Rightarrow>
                  if unfinished then (Inl PlanNotConverged, pl)
                  else (Inr (stats0\<lparr>ss_solved_now := True, ss_iters := iters\<rparr>),
                        pl\<lparr>pl_core := (pl_core pl)\<lparr>c_cached := Some \<lparr>cg_x = fst (hd targets), cg_y = snd (hd targets), cg_t_deg = 0,
                             cg_field = vi, cg_partial = False\<rparr>\<rparr>\<rparr>))
              (run_solver e None (vi\<lparr>base := set_goal_region targets radius (base vi)\<rparr>) (pl_dir pl))))"

section \<open>Planning\<close>

definition core_rollout :: "planner_env \<Rightarrow> core \<Rightarrow> pose_view \<Rightarrow> rollout option" where
  "core_rollout e co start =
     (case core_local co of
        None \<Rightarrow> Some \<lparr>ro_poses = [], ro_status = NoAction\<rparr>
      | Some vi \<Rightarrow> rollout_path_on (e_cos e) (e_sin e) (dense_view (base vi)) (pv_x start) (pv_y start) (yaw_rad start)
          (pc_max_rollout_steps (e_cfg e)) (pc_start_tolerance_cells (e_cfg e)))"

definition plan_result :: "planner_env \<Rightarrow> solve_stats \<Rightarrow> rollout \<Rightarrow> core_error + path_pose list \<times> plan_stats" where
  "plan_result e st r =
     (if \<not> reached_goal r then Inl (PlanRollout (ro_status r))
      else let poses = (if f_lt (f_of_int 0) (pc_path_spacing (e_cfg e)) then densify (ro_poses r) (pc_path_spacing (e_cfg e)) else ro_poses r)
        in Inr (poses, solve_stats.extend st \<lparr>ps_poses = length poses\<rparr>))"

definition plan_with_progress ::
  "planner_env \<Rightarrow> 'p prefetch_api option \<Rightarrow> pose_view \<Rightarrow> pose_view \<Rightarrow> 'p planner \<Rightarrow> ((core_error + path_pose list \<times> plan_stats) \<times> 'p planner) option" where
  "plan_with_progress e api start goal pl =
     Option.bind (prepare_goal_with_progress e api goal (Some start) pl) (\<lambda>(res, pl).
       case res of
         Inl err \<Rightarrow> Some (Inl err, pl)
       | Inr st \<Rightarrow>
           Option.bind (core_rollout e (pl_core pl) start) (\<lambda>r.
             if reached_goal r then Some (plan_result e st r, pl)
             else case discard_partial (pl_core pl) of
               (co, False) \<Rightarrow> Some (plan_result e st r, pl\<lparr>pl_core := co\<rparr>)
             | (co, True) \<Rightarrow>
                 Option.bind (prepare_goal_with_progress e api goal None (pl\<lparr>pl_core := co\<rparr>)) (\<lambda>(res, pl).
                   case res of
                     Inl err \<Rightarrow> Some (Inl err, pl)
                   | Inr st \<Rightarrow> map_option (\<lambda>r. (plan_result e st r, pl)) (core_rollout e (pl_core pl) start))))"

definition plan :: "planner_env \<Rightarrow> 'p prefetch_api option \<Rightarrow> pose_view \<Rightarrow> pose_view \<Rightarrow> 'p planner
    \<Rightarrow> ((core_error + path_pose list \<times> plan_stats) \<times> 'p planner) option" where
  "plan e api start goal pl = plan_with_progress e api start goal pl"


section \<open>Decisions\<close>

datatype decision = DecideGoal | DecideAction "nat option" f64 f64 | DecideNone

definition action_at :: "value_iterator \<Rightarrow> i32 \<Rightarrow> i32 \<Rightarrow> i32 \<Rightarrow> decision option" where
  "action_at vi ix iy it =
     (let i = optimal_action_at vi ix iy it in
      if i < 0 then None
      else map_option (\<lambda>a. DecideAction (Some (nat i)) (delta_fw a) (delta_rot a)) (List.find (\<lambda>a. a_id a = i) (actions vi)))"

text \<open>What a neighbour at distance \<open>(dx, dy)\<close> lends.\<close>

definition lend :: "value_iterator \<Rightarrow> i32 \<times> i32 \<times> i32 \<Rightarrow> i32 \<times> i32 \<Rightarrow> decision option" where
  "lend vi = (\<lambda>(ix, iy, it) (dx, dy).
     if dx = 0 \<and> dy = 0 then None
     else let nx = wrap32 (ix + dx); ny = wrap32 (iy + dy) in
       if dense_is_final vi nx ny it then Some DecideGoal else action_at vi nx ny it)"

definition greedy_decide :: "plan_config \<Rightarrow> value_iterator \<Rightarrow> pose_view \<Rightarrow> decision" where
  "greedy_decide cfg vi pose =
     (case pose_to_cell vi (pv_x pose) (pv_y pose) (yaw_rad pose) of (ix, iy, it) \<Rightarrow>
        if dense_is_final vi ix iy it then DecideGoal
        else case action_at vi ix iy it of
          Some d \<Rightarrow> d
        | None \<Rightarrow>
            let tol = pc_action_tolerance_cells cfg;
                best = fold (\<lambda>dy. fold (\<lambda>dx best. case lend vi (ix, iy, it) (dx, dy) of None \<Rightarrow> best | Some v \<Rightarrow> keep_nearest dx dy v best)
                  [- tol..tol]) [- tol..tol] None
            in (case best of None \<Rightarrow> DecideNone | Some (_, d) \<Rightarrow> d))"

text \<open>The samplers of \<^verbatim>\<open>ctrl.rs\<close> are arguments: they return a speed and a turning rate, or nothing; the second
  has a state that is reset when it returns nothing.\<close>

definition dwa_controller :: "(value_iterator \<Rightarrow> pose_view \<Rightarrow> (f64 \<times> f64) option) \<Rightarrow> plan_config \<Rightarrow> value_iterator \<Rightarrow> pose_view \<Rightarrow> decision" where
  "dwa_controller sample cfg vi pose =
     (case pose_to_cell vi (pv_x pose) (pv_y pose) (yaw_rad pose) of (ix, iy, it) \<Rightarrow>
        if dense_is_final vi ix iy it then DecideGoal
        else case sample vi pose of Some (v, w) \<Rightarrow> DecideAction None v w | None \<Rightarrow> greedy_decide cfg vi pose)"

definition mppi_controller :: "(value_iterator \<Rightarrow> pose_view \<Rightarrow> 'm \<Rightarrow> (f64 \<times> f64) option \<times> 'm) \<Rightarrow> ('m \<Rightarrow> 'm) \<Rightarrow> plan_config
    \<Rightarrow> value_iterator \<Rightarrow> pose_view \<Rightarrow> 'm \<Rightarrow> decision \<times> 'm" where
  "mppi_controller sample reset cfg vi pose m =
     (case pose_to_cell vi (pv_x pose) (pv_y pose) (yaw_rad pose) of (ix, iy, it) \<Rightarrow>
        if dense_is_final vi ix iy it then (DecideGoal, m)
        else case sample vi pose m of
          (Some (v, w), m) \<Rightarrow> (DecideAction None v w, m)
        | (None, m) \<Rightarrow> (greedy_decide cfg vi pose, reset m))"

text \<open>\<open>follow\<close> is the controller the configuration selects.\<close>

definition decide :: "(value_iterator \<Rightarrow> pose_view \<Rightarrow> 'm \<Rightarrow> decision \<times> 'm) \<Rightarrow> core \<Rightarrow> pose_view \<Rightarrow> 'm \<Rightarrow> decision \<times> 'm" where
  "decide follow co pose m =
     (case core_local co of
        None \<Rightarrow> (DecideNone, m)
      | Some vi \<Rightarrow>
          (case pose_to_cell (base vi) (pv_x pose) (pv_y pose) (yaw_rad pose) of (x, y, t) \<Rightarrow>
             if dense_is_final (base vi) x y t then (DecideGoal, m)
             else if invalidating (c_global co) then (DecideNone, m)
             else follow (base vi) pose m))"

section \<open>Value grids\<close>

definition render :: "policy_view \<Rightarrow> i32 \<Rightarrow> i32 \<Rightarrow> f64 \<Rightarrow> u64 list \<Rightarrow> u64 \<Rightarrow> occupancy_grid option" where
  "render p w h oy vals threshold_steps =
     map_option (\<lambda>d. \<lparr>width = w, height = h, resolution = vw_xy_resolution p, origin_x = fst (vw_map_origin p), origin_y = oy,
         origin_quat = vw_map_origin_quat p, data = d\<rparr>)
       (value_slice_to_occupancy vals (usize_of w) (usize_of h) threshold_steps)"

definition row_values :: "policy_view \<Rightarrow> i32 \<Rightarrow> u64 list" where
  "row_values p iy = map (\<lambda>ix. vw_value_at p ix iy 0) [0..fst (vw_cell_num p) - 1]"

definition value_grid_on :: "policy_view \<Rightarrow> u64 \<Rightarrow> occupancy_grid option" where
  "value_grid_on p threshold_steps =
     (case vw_cell_num p of (nx, ny, _) \<Rightarrow>
        render p nx ny (snd (vw_map_origin p)) (concat (map (row_values p) [0..ny - 1])) threshold_steps)"

definition value_grid :: "core \<Rightarrow> u64 \<Rightarrow> occupancy_grid option option" where
  "value_grid co threshold_steps =
     (case core_local co of None \<Rightarrow> Some None | Some vi \<Rightarrow> map_option Some (value_grid_on (dense_view (base vi)) threshold_steps))"

text \<open>A bounded read: the rows from \<open>r0\<close> to before \<open>r1\<close>, with the epoch of the goal and the height of the map.
  The outer \<open>None\<close> is a panic.\<close>

definition value_grid_rows :: "core \<Rightarrow> nat \<Rightarrow> nat \<Rightarrow> u64 \<Rightarrow> (nat \<times> occupancy_grid \<times> nat) option option" where
  "value_grid_rows co r0 r1 threshold_steps =
     (case core_local co of
        None \<Rightarrow> Some None
      | Some vi \<Rightarrow>
          let p = dense_view (base vi) in
          case vw_cell_num p of (nx, ny, _) \<Rightarrow>
            let stop = min r1 (usize_of ny) in
            if stop \<le> r0 then Some None
            else map_option (\<lambda>g. Some (epoch (c_global co), g, usize_of ny))
              (render p nx (int (stop - r0)) (f_add (snd (vw_map_origin p)) (f_mul (f_of_int (int r0)) (vw_xy_resolution p)))
                 (concat (map (\<lambda>y. row_values p (int y)) [r0..<stop])) threshold_steps))"

definition window_value_grid :: "core \<Rightarrow> pose_view \<Rightarrow> u64 \<Rightarrow> occupancy_grid option option" where
  "window_value_grid co pose threshold_steps =
     (case core_local co of
        None \<Rightarrow> Some None
      | Some vi \<Rightarrow>
          let b = base vi; it = clamp 0 (cell_num_t b - 1) (snd (snd (pose_to_cell b (pv_x pose) (pv_y pose) (yaw_rad pose))));
              x0 = local_ix_min vi; x1 = local_ix_max vi; y0 = local_iy_min vi; y1 = local_iy_max vi in
          if x1 < x0 \<or> y1 < y0 then Some None
          else let vals = concat (map (\<lambda>iy. map (\<lambda>ix. if in_local_area vi ix iy then total_cost (dense_state b ix iy it) else MAX_COST) [x0..x1]) [y0..y1])
            in map_option (\<lambda>d. Some \<lparr>width = x1 - x0 + 1, height = y1 - y0 + 1, resolution = xy_resolution b,
                 origin_x = f_add (map_origin_x b) (f_mul (f_of_int x0) (xy_resolution b)),
                 origin_y = f_add (map_origin_y b) (f_mul (f_of_int y0) (xy_resolution b)), origin_quat = map_origin_quat b, data = d\<rparr>)
               (value_slice_to_occupancy vals (usize_of (x1 - x0 + 1)) (usize_of (y1 - y0 + 1)) threshold_steps))"

definition goal_distance :: "core \<Rightarrow> f64 \<Rightarrow> f64 \<Rightarrow> f64 option" where
  "goal_distance co x y = map_option (\<lambda>c. f_sqrt (f_add (f_sq (f_sub (cg_x c) x)) (f_sq (f_sub (cg_y c) y)))) (c_cached co)"

section \<open>What a stopped solve has shown\<close>

text \<open>The contract of an observed solver: it is interrupted only by its observer, whose last call saw the
  very field that is returned.\<close>

definition last_word :: "'o solve_observer \<Rightarrow> value_iterator \<Rightarrow> solve_outcome \<Rightarrow> 'o \<Rightarrow> bool" where
  "last_word obs vi out o1 \<longleftrightarrow> \<not> (o_stopped out \<and> o_cancelled out) \<and>
     (o_stopped out \<or> o_cancelled out \<longrightarrow> \<not> o_converged out \<and>
        (\<exists>o' i u. boundary obs o' \<lparr>pr_vi = vi, pr_iters = i, pr_updates = u\<rparr> = (if o_stopped out then Stop else Cancel, o1)))"

lemma last_word_running [simp]: "last_word obs vi (outcome_running i u c) o1"
  by (simp add: last_word_def outcome_running_def)

lemma at_boundary_word:
  assumes "at_boundary obs act vi i u po = (fl, po1)" "fl \<noteq> Continue"
  shows "\<exists>o'. boundary obs o' \<lparr>pr_vi = vi, pr_iters = i, pr_updates = u\<rparr> = (fl, snd po1)"
  using assms by (cases po) (auto simp: at_boundary_def split: if_splits prod.splits bool.splits)

lemma last_word_stop:
  assumes "at_boundary obs act vi i u po = (Stop, po1)"
  shows "last_word obs vi (outcome_stopped i u) (snd po1)"
  using at_boundary_word [OF assms] unfolding last_word_def outcome_stopped_def by auto

lemma last_word_cancel:
  assumes "at_boundary obs act vi i u po = (Cancel, po1)"
  shows "last_word obs vi (outcome_cancelled i u) (snd po1)"
  using at_boundary_word [OF assms] unfolding last_word_def outcome_cancelled_def by auto

locale observed_solver =
  fixes solve :: "'o solver_run"
  assumes heard: "solve vi n obs o0 = Some (vi', out, o1) \<Longrightarrow> last_word obs vi' out o1"

lemma frontier_loop_word: "frontier_loop rnd pop m obs vi f i u po = Some (vi', out, o1) \<Longrightarrow> last_word obs vi' out o1"
proof (induction rnd pop m obs vi f i u po rule: frontier_loop.induct)
  case (1 rnd pop m obs vi f i u po)
  show ?case
  proof (cases rule: frontier_loop_cases [where pop = pop and f = f and i = i and m = m and rnd = rnd and vi = vi and obs = obs and u = u and po = po])
    case finish
    then show ?thesis using 1(2) by (auto simp: frontier_loop_done)
  next
    case panic
    then show ?thesis using 1(2) by (simp add: frontier_loop_panic)
  next
    case (step vi1 f1 u1 fl po1)
    note eq = frontier_loop_step [where pop = pop and rnd = rnd, OF step]
    show ?thesis
    proof (cases fl)
      case Continue
      with 1(2) eq have "frontier_loop rnd pop m obs vi1 f1 (i + 1) (u + u1) po1 = Some (vi', out, o1)" by simp
      then show ?thesis using 1(1) [OF step(1,2) refl refl refl refl step(3) [symmetric] Continue] by simp
    next
      case Stop
      with 1(2) eq have "vi' = vi1" "out = outcome_stopped (i + 1) (u + u1)" "o1 = snd po1" by simp_all
      then show ?thesis using last_word_stop step(3) Stop by simp
    next
      case Cancel
      with 1(2) eq have "vi' = vi1" "out = outcome_cancelled (i + 1) (u + u1)" "o1 = snd po1" by simp_all
      then show ?thesis using last_word_cancel step(3) Cancel by simp
    qed
  qed
qed

lemma original_loop_word: "original_loop m obs vi prev i po = Some (vi', out, o1) \<Longrightarrow> last_word obs vi' out o1"
proof (induction m obs vi prev i po rule: original_loop.induct)
  case (1 m obs vi prev i po)
  note unf = 1(2) [unfolded original_loop.simps [of m obs vi prev i po]]
  show ?case
  proof (cases "value_iteration_worker 1 0 vi")
    case (Some vi1)
    obtain fl pc o2 where b: "at_boundary obs True vi1 (i + 1) 0 po = (fl, pc, o2)" by (rule prod_cases3)
    show ?thesis
    proof (cases "\<not> sweep_changed prev vi1 \<or> m \<le> i + 1")
      case True
      then have "\<exists>c. out = outcome_running (i + 1) 0 c" using unf Some by (auto simp: Let_def split: if_splits)
      then show ?thesis by auto
    next
      case False
      then have unf: "(case fl of Continue \<Rightarrow> original_loop m obs vi1 (map total_cost (states vi1)) (i + 1) (pc, o2)
          | Stop \<Rightarrow> Some (vi1, outcome_stopped (i + 1) 0, o2) | Cancel \<Rightarrow> Some (vi1, outcome_cancelled (i + 1) 0, o2)) = Some (vi', out, o1)"
        using unf Some b by (cases fl) (simp_all add: Let_def)
      show ?thesis
      proof (cases fl)
        case Continue
        then show ?thesis using unf False b 1(1) [OF Some refl, of fl "(pc, o2)"] by simp
      next
        case Stop
        then show ?thesis using unf last_word_stop [of obs True vi1 "i + 1" 0 po "(pc, o2)"] b by simp
      next
        case Cancel
        then show ?thesis using unf last_word_cancel [of obs True vi1 "i + 1" 0 po "(pc, o2)"] b by simp
      qed
    qed
  qed (use unf in simp)
qed

lemma offset_call:
  "\<exists>o' k w. boundary (offset_observer i u obs) o' \<lparr>pr_vi = vi, pr_iters = k, pr_updates = w\<rparr> = r \<Longrightarrow>
   \<exists>o' k w. boundary obs o' \<lparr>pr_vi = vi, pr_iters = k, pr_updates = w\<rparr> = r"
  unfolding offset_observer_def by simp blast

lemma last_word_offset: "last_word (offset_observer i u obs) vi out o1 \<Longrightarrow> last_word obs vi (out\<lparr>o_iters := i', o_updates := u'\<rparr>) o1"
  unfolding last_word_def using offset_call [of i u obs vi] by simp

lemma block_word: "block_refine_sized b s vi n obs o0 = Some (vi', out, o1) \<Longrightarrow> last_word obs vi' out o1"
  unfolding block_refine_sized_def Let_def by (auto split: prod.splits intro: frontier_loop_word)

lemma pyramid_word: "pyramid_levels sizes vi n obs o0 i u c = Some (vi', out, o1) \<Longrightarrow> last_word obs vi' out o1"
proof (induction sizes arbitrary: vi o0 i u c)
  case Nil
  then have "out = outcome_running i u c" by simp
  then show ?case by simp
next
  case (Cons b sizes)
  let ?n = "if sizes = [] then n - i else COARSE_BUDGET"
  show ?case
  proof (cases "block_refine_sized b LOCAL_SWEEPS vi ?n (offset_observer i u obs) o0")
    case (Some r)
    obtain v1 out1 o2 where r: "block_refine_sized b LOCAL_SWEEPS vi ?n (offset_observer i u obs) o0 = Some (v1, out1, o2)"
      using Some by (cases r) auto
    have w: "last_word obs v1 (out1\<lparr>o_iters := i', o_updates := u'\<rparr>) o2" for i' u' by (rule last_word_offset [OF block_word [OF r]])
    define i1 u1 where "i1 = min (2 ^ 32 - 1) (i + o_iters out1)" "u1 = u + o_updates out1"
    note eq = Cons.prems [unfolded pyramid_levels.simps Let_def r option.case prod.case, folded i1_u1_def]
    show ?thesis
    proof (cases "o_stopped out1 \<or> o_cancelled out1")
      case True
      then show ?thesis using eq w [of u1 i1] by auto
    next
      case run: False
      show ?thesis
      proof (cases "n \<le> i1")
        case True
        then have "out = outcome_running i1 u1 (o_converged out1)" using eq run by simp
        then show ?thesis by simp
      next
        case False
        then show ?thesis using eq run by (intro Cons.IH [of v1 o2 i1 u1 "o_converged out1"]) simp
      qed
    qed
  qed (use Cons.prems in simp)
qed

interpretation original: observed_solver original_solve_observed
  by unfold_locales (auto simp: original_solve_observed_def intro: original_loop_word)

interpretation frontier2d: observed_solver frontier2d_solve_observed
  by unfold_locales (auto simp: frontier2d_solve_observed_def split: prod.splits intro: frontier_loop_word)

interpretation frontier3d: observed_solver frontier3d_solve_observed
  by unfold_locales (auto simp: frontier3d_solve_observed_def split: prod.splits intro: frontier_loop_word)

interpretation frontier_stack: observed_solver frontier_stack_solve_observed
  by unfold_locales (auto simp: frontier_stack_solve_observed_def split: prod.splits intro: frontier_loop_word)

interpretation block_refine: observed_solver block_refine_solve_observed
  by unfold_locales (auto simp: block_refine_solve_observed_def intro: block_word)

interpretation pyramid: observed_solver pyramid_sweep_solve_observed
  by unfold_locales (auto simp: pyramid_sweep_solve_observed_def intro: pyramid_word)

lemma in_place_observed: "in_place k \<Longrightarrow> observed_solver (solve_observed rest k)"
  by (auto simp: stream_mimic_solve_observed_def [abs_def] original.observed_solver_axioms frontier2d.observed_solver_axioms
      frontier3d.observed_solver_axioms frontier_stack.observed_solver_axioms block_refine.observed_solver_axioms pyramid.observed_solver_axioms)

section \<open>The director\<close>

lemma director_stop:
  assumes "boundary (solve_director e from) d \<lparr>pr_vi = vi, pr_iters = i, pr_updates = u\<rparr> = (Stop, d')"
  shows "\<exists>f. from = Some f \<and> reaches_goal e (dense_view vi) f = Some True"
  using assms by (auto simp: solve_director_def Let_def split: prod.splits if_splits option.splits)

lemma run_solver_stopped:
  assumes k: "in_place (pc_solver (e_cfg e))" and r: "run_solver e from vi d = Some (Inr (vi', it, True), d')"
  shows "\<exists>f. from = Some f \<and> reaches_goal e (dense_view (base vi')) f = Some True"
proof -
  let ?run = "solve_observed (e_rest e) (pc_solver (e_cfg e)) (base vi) (pc_max_solve_iter (e_cfg e)) (solve_director e from) d"
  obtain b out d1 where o: "?run = Some (b, out, d1)" "o_stopped out" "b = base vi'"
    using r by (auto simp: run_solver_def bind_eq_Some_conv split: if_splits)
  have "observed_solver (solve_observed (e_rest e) (pc_solver (e_cfg e)) :: director solver_run)" by (rule in_place_observed [OF k])
  from observed_solver.heard [OF this o(1)] o(2) director_stop [of e "from" _ b] o(3) show ?thesis by (force simp: last_word_def)
qed

lemma run_solver_unfinished: "in_place (pc_solver (e_cfg e)) \<Longrightarrow> run_solver e None vi d = Some (Inr (vi', it, un), d') \<Longrightarrow> \<not> un"
  using run_solver_stopped [of e None vi d vi' it d'] by (cases un) auto

lemma solve_dense_run:
  assumes "solve_dense e goal t from d = Some (Inr r, d')"
  obtains m d1 where "dense_map e = Some m" "run_solver e from (m\<lparr>base := set_goal (pv_x goal) (pv_y goal) t (base m)\<rparr>) d1 = Some (Inr r, d')"
  using assms by (auto simp: solve_dense_def bind_eq_Some_conv split: prod.splits if_splits)

section \<open>The prefetcher's contract\<close>

text \<open>\<open>I\<close> is an invariant of the prefetcher's state, \<open>good\<close> what its fields promise. What it hands over is
  the field of the goal asked for, solved to the end.\<close>

locale prefetcher =
  fixes api :: "'p prefetch_api" and I :: "'p \<Rightarrow> bool" and good :: "vi_local cached_goal \<Rightarrow> bool"
  assumes adopts: "I p \<Longrightarrow> pf_adopt api g t p = Some (r, p') \<Longrightarrow>
      I p' \<and> (\<forall>c. r = Some c \<longrightarrow> \<not> cg_partial c \<and> goal_matches (cached_key c) (pv_x g, pv_y g, t) \<and> good c)"
    and noted: "I p \<Longrightarrow> I (pf_note api g p)"

definition pre_ok :: "'p prefetch_api option \<Rightarrow> ('p \<Rightarrow> bool) \<Rightarrow> (vi_local cached_goal \<Rightarrow> bool) \<Rightarrow> 'p planner \<Rightarrow> bool" where
  "pre_ok api I good pl \<longleftrightarrow> (case api of None \<Rightarrow> True | Some a \<Rightarrow> prefetcher a I good \<and> I (pl_pre pl))"

lemma request_next_sel [simp]: "pl_core (request_next api g pl) = pl_core pl" "pl_dir (request_next api g pl) = pl_dir pl"
  by (simp_all add: request_next_def split: option.split)

lemma request_next_ok [simp]: "pre_ok api I good pl \<Longrightarrow> pre_ok api I good (request_next api g pl)"
  by (auto simp: pre_ok_def request_next_def prefetcher.noted split: option.splits)

lemma pre_ok_upd [simp]: "pre_ok api I good (pl\<lparr>pl_core := co\<rparr>) = pre_ok api I good pl" "pre_ok api I good (pl\<lparr>pl_dir := d\<rparr>) = pre_ok api I good pl"
  by (cases api; simp add: pre_ok_def)+

lemma try_adopt_ok:
  assumes "pre_ok api I good pl" "try_adopt api g t pl = Some (r, pl')"
  shows "pre_ok api I good pl'" "pl_core pl' = pl_core pl" "pl_dir pl' = pl_dir pl"
    "r = Some c \<Longrightarrow> \<not> cg_partial c \<and> goal_matches (cached_key c) (pv_x g, pv_y g, t) \<and> good c"
  using assms by (auto simp: pre_ok_def try_adopt_def dest: prefetcher.adopts split: option.splits)

section \<open>Goal preparation\<close>

lemma install_field_cached [simp]: "c_cached (install_field u c co) = Some c" "core_local (install_field u c co) = Some (cg_field c)"
  by (simp_all add: install_field_def seed_sweep_all_def core_local_def Let_def)

lemma reset_cached [simp]: "c_cached (reset_for_goal co) = None"
  by (simp add: reset_for_goal_def drop_field_def Let_def)

text \<open>The branches of goal preparation.\<close>

lemma prepare_cases:
  assumes "prepare_goal_with_progress e api goal fr pl = Some (res, pl')" and pre: "pre_ok api I good pl"
    and t: "t = yaw_to_goal_theta_deg (yaw_rad goal)"
  obtains (hit) "cache_matches (pl_core pl) goal t" "pl_core pl' = pl_core pl" "res = Inr (stats0\<lparr>ss_partial := is_partial (pl_core pl)\<rparr>)" "pre_ok api I good pl'"
  | (adopted) c where "\<not> cache_matches (pl_core pl) goal t" "pl_core pl' = install_field False c (reset_for_goal (pl_core pl))"
      "res = Inr (stats0\<lparr>ss_adopted := True, ss_solved_now := True\<rparr>)" "\<not> cg_partial c" "goal_matches (cached_key c) (pv_x goal, pv_y goal, t)"
      "good c" "pre_ok api I good pl'" "pl_dir pl' = pl_dir pl"
  | (failed) err d d' where "\<not> cache_matches (pl_core pl) goal t" "pl_core pl' = reset_for_goal (pl_core pl)" "res = Inl err" "pre_ok api I good pl'"
      "solve_dense e goal t (if pc_early_start (e_cfg e) then fr else None) d = Some (Inl err, d')"
  | (solved) vi it un d d' where "\<not> cache_matches (pl_core pl) goal t" "solve_dense e goal t (if pc_early_start (e_cfg e) then fr else None) d = Some (Inr (vi, it, un), d')"
      "pl_core pl' = install_field un \<lparr>cg_x = pv_x goal, cg_y = pv_y goal, cg_t_deg = t, cg_field = vi, cg_partial = un\<rparr> (reset_for_goal (pl_core pl))"
      "res = Inr (stats0\<lparr>ss_iters := it, ss_partial := un, ss_solved_now := True\<rparr>)" "pre_ok api I good pl'"
proof (cases "cache_matches (pl_core pl) goal t")
  case True
  then show thesis using hit assms(1) pre by (auto simp: prepare_goal_with_progress_def t Let_def)
next
  case miss: False
  let ?pl = "pl\<lparr>pl_core := reset_for_goal (pl_core pl)\<rparr>"
  obtain r pl1 where a: "try_adopt api goal t ?pl = Some (r, pl1)"
    using assms(1) miss by (auto simp: prepare_goal_with_progress_def t Let_def bind_eq_Some_conv)
  have p1: "pre_ok api I good pl1" "pl_core pl1 = reset_for_goal (pl_core pl)" "pl_dir pl1 = pl_dir pl"
    "r = Some c \<Longrightarrow> \<not> cg_partial c \<and> goal_matches (cached_key c) (pv_x goal, pv_y goal, t) \<and> good c" for c
    using try_adopt_ok [OF pre_ok_upd(1) [THEN iffD2, OF pre] a] by simp_all
  show thesis
  proof (cases r)
    case (Some c)
    then have "(res, pl') = finish_goal api goal (stats0\<lparr>ss_adopted := True\<rparr>) c pl1"
      using assms(1) miss a by (simp add: prepare_goal_with_progress_def t Let_def)
    then have "res = Inr (stats0\<lparr>ss_adopted := True, ss_solved_now := True\<rparr>)" "pl_core pl' = install_field False c (reset_for_goal (pl_core pl))" "pre_ok api I good pl'"
      "pl_dir pl' = pl_dir pl" using p1 by (simp_all add: finish_goal_def Let_def stats0_def)
    then show thesis using adopted miss p1(4) [OF Some] by blast
  next
    case None
    let ?s = "solve_dense e goal t (if pc_early_start (e_cfg e) then fr else None) (pl_dir pl1)"
    obtain q d' where s: "?s = Some (q, d')" using assms(1) miss a None by (auto simp: prepare_goal_with_progress_def t Let_def)
    show thesis
    proof (cases q)
      case (Inl err)
      then have "res = Inl err" "pl' = pl1\<lparr>pl_dir := d'\<rparr>" using miss assms(1) a None s by (auto simp: prepare_goal_with_progress_def t Let_def)
      then show thesis using failed [of err "pl_dir pl1" d'] miss s Inl p1 by simp
    next
      case (Inr q)
      obtain vi it un where q: "q = (vi, it, un)" by (cases q)
      have "(res, pl') = finish_goal api goal (stats0\<lparr>ss_iters := it, ss_partial := un\<rparr>)
          \<lparr>cg_x = pv_x goal, cg_y = pv_y goal, cg_t_deg = t, cg_field = vi, cg_partial = un\<rparr> (pl1\<lparr>pl_dir := d'\<rparr>)"
        using assms(1) miss a None s Inr q by (simp add: prepare_goal_with_progress_def t Let_def)
      then show thesis using solved [of "pl_dir pl1" vi it un d'] miss s Inr q p1 by (simp add: finish_goal_def Let_def)
    qed
  qed
qed

definition goal_key_of :: "pose_view \<Rightarrow> goal_key" where
  "goal_key_of g = (pv_x g, pv_y g, yaw_to_goal_theta_deg (yaw_rad g))"

definition keyed :: "'f cached_goal \<Rightarrow> pose_view \<Rightarrow> bool" where
  "keyed c g \<longleftrightarrow> goal_matches (cached_key c) (goal_key_of g) \<or> cached_key c = goal_key_of g"

text \<open>Where the field of a goal comes from: the cache, the prefetcher, or a solve.\<close>

definition field_from :: "planner_env \<Rightarrow> (vi_local cached_goal \<Rightarrow> bool) \<Rightarrow> pose_view \<Rightarrow> 'p planner \<Rightarrow> vi_local cached_goal \<Rightarrow> bool" where
  "field_from e good goal pl c \<longleftrightarrow> c_cached (pl_core pl) = Some c \<or> good c \<or>
     (\<exists>vi it fr d d'. solve_dense e goal (yaw_to_goal_theta_deg (yaw_rad goal)) fr d = Some (Inr (vi, it, cg_partial c), d') \<and>
        c = \<lparr>cg_x = pv_x goal, cg_y = pv_y goal, cg_t_deg = yaw_to_goal_theta_deg (yaw_rad goal), cg_field = vi, cg_partial = cg_partial c\<rparr>)"

lemma prepared_keyed:
  assumes "prepare_goal_with_progress e api goal fr pl = Some (Inr st, pl')" "pre_ok api I good pl"
  shows "\<exists>c. c_cached (pl_core pl') = Some c \<and> keyed c goal \<and> field_from e good goal pl c"
proof (rule prepare_cases [OF assms refl])
  assume "cache_matches (pl_core pl) goal (yaw_to_goal_theta_deg (yaw_rad goal))" "pl_core pl' = pl_core pl"
  then show ?thesis by (auto simp: cache_matches_def keyed_def goal_key_of_def field_from_def split: option.splits)
next
  fix vi :: vi_local and it un d d'
  let ?t = "yaw_to_goal_theta_deg (yaw_rad goal)"
  let ?c = "\<lparr>cg_x = pv_x goal, cg_y = pv_y goal, cg_t_deg = ?t, cg_field = vi, cg_partial = un\<rparr>"
  assume "solve_dense e goal ?t (if pc_early_start (e_cfg e) then fr else None) d = Some (Inr (vi, it, un), d')"
  then have "field_from e good goal pl ?c" unfolding field_from_def by force
  moreover assume "pl_core pl' = install_field un ?c (reset_for_goal (pl_core pl))"
  ultimately show ?thesis by (auto simp: keyed_def goal_key_of_def cached_key_def)
qed (auto simp: keyed_def goal_key_of_def field_from_def)

text \<open>Without a start the preparation never leaves an unfinished field where there was none.\<close>

lemma prepared_finished:
  assumes "prepare_goal_with_progress e api goal None pl = Some (Inr st, pl')" "pre_ok api I good pl"
    and k: "in_place (pc_solver (e_cfg e))" and "\<not> is_partial (pl_core pl)"
  shows "\<not> is_partial (pl_core pl')"
proof (rule prepare_cases [OF assms(1,2) refl])
  fix vi it un d d'
  let ?t = "yaw_to_goal_theta_deg (yaw_rad goal)"
  assume s: "solve_dense e goal ?t (if pc_early_start (e_cfg e) then None else None) d = Some (Inr (vi, it, un), d')"
    and c: "pl_core pl' = install_field un \<lparr>cg_x = pv_x goal, cg_y = pv_y goal, cg_t_deg = ?t, cg_field = vi, cg_partial = un\<rparr> (reset_for_goal (pl_core pl))"
  obtain m d1 where "run_solver e None (m\<lparr>base := set_goal (pv_x goal) (pv_y goal) ?t (base m)\<rparr>) d1 = Some (Inr (vi, it, un), d')"
    by (rule solve_dense_run [OF s [unfolded if_cancel]]) (rule that)
  then have "\<not> un" by (rule run_solver_unfinished [OF k])
  then show ?thesis by (simp add: c is_partial_def)
qed (use assms(4) in \<open>auto simp: is_partial_def\<close>)

lemma prefetched_finished:
  assumes "prepare_goal e (None :: unit prefetch_api option) goal pl = Some (Inr st, pl')" "in_place (pc_solver (e_cfg e))" "\<not> is_partial (pl_core pl)"
  shows "\<not> is_partial (pl_core pl')"
  using prepared_finished [OF assms(1) [unfolded prepare_goal_def] _ assms(2,3), of "\<lambda>_. True" "\<lambda>_. True"] by (simp add: pre_ok_def)

lemma discard_partial_spec:
  "discard_partial co = (if is_partial co then (drop_field co, True) else (co, False))"
  by (simp add: discard_partial_def is_partial_def split: option.split)

lemma drop_not_partial [simp]: "\<not> is_partial (drop_field co)"
  by (simp add: is_partial_def drop_field_def)

lemma solve_dense_error: "solve_dense e goal t fr d = Some (Inl err, d') \<Longrightarrow> err = PlanCancelled \<or> err = PlanNotConverged"
  by (auto simp: solve_dense_def run_solver_def bind_eq_Some_conv split: prod.splits if_splits)

lemma prepare_error:
  assumes "prepare_goal_with_progress e api goal fr pl = Some (Inl err, pl')" "pre_ok api I good pl"
  shows "pl_core pl' = reset_for_goal (pl_core pl)" "err = PlanCancelled \<or> err = PlanNotConverged"
  by (rule prepare_cases [OF assms refl]; use solve_dense_error in auto)+

text \<open>The branches of a plan: an error of the preparation, or a rollout on the field that is cached at the end.\<close>

lemma plan_cases:
  assumes "plan_with_progress e api start goal pl = Some (res, pl')" and pre: "pre_ok api I good pl" and k: "in_place (pc_solver (e_cfg e))"
  obtains (unprepared) err where "res = Inl err" "err = PlanCancelled \<or> err = PlanNotConverged"
  | (rolled) c r st where "c_cached (pl_core pl') = Some c" "keyed c goal" "field_from e good goal pl c" "core_rollout e (pl_core pl') start = Some r"
      "res = plan_result e st r" "reached_goal r \<or> \<not> cg_partial c"
proof -
  obtain q pl1 where p1: "prepare_goal_with_progress e api goal (Some start) pl = Some (q, pl1)"
    using assms(1) by (auto simp: plan_with_progress_def bind_eq_Some_conv)
  show thesis
  proof (cases q)
    case (Inl err)
    then show thesis using unprepared [of err] assms(1) p1 prepare_error(2) [OF p1 [unfolded Inl] pre] by (simp add: plan_with_progress_def)
  next
    case (Inr st)
    note p1 = p1 [unfolded Inr]
    obtain c where c: "c_cached (pl_core pl1) = Some c" "keyed c goal" "field_from e good goal pl c" using prepared_keyed [OF p1 pre] by blast
    have pre1: "pre_ok api I good pl1" by (rule prepare_cases [OF p1 pre refl])
    obtain r where r: "core_rollout e (pl_core pl1) start = Some r"
      using assms(1) p1 by (auto simp: plan_with_progress_def bind_eq_Some_conv)
    show thesis
    proof (cases "reached_goal r \<or> \<not> is_partial (pl_core pl1)")
      case True
      then have "res = plan_result e st r" "pl' = pl1" using assms(1) p1 r by (cases "reached_goal r"; auto simp: plan_with_progress_def discard_partial_spec)+
      then show thesis using rolled c r True by (simp add: is_partial_def)
    next
      case False
      let ?pl = "pl1\<lparr>pl_core := drop_field (pl_core pl1)\<rparr>"
      obtain q2 pl2 where p2: "prepare_goal_with_progress e api goal None ?pl = Some (q2, pl2)"
        using assms(1) p1 r False by (auto simp: plan_with_progress_def discard_partial_spec bind_eq_Some_conv)
      have pre2: "pre_ok api I good ?pl" using pre1 by simp
      show thesis
      proof (cases q2)
        case (Inl err)
        then show thesis using unprepared [of err] assms(1) p1 r False p2 prepare_error(2) [OF p2 [unfolded Inl] pre2]
          by (simp add: plan_with_progress_def discard_partial_spec)
      next
        case (Inr st2)
        note p2 = p2 [unfolded Inr]
        obtain c2 where c2: "c_cached (pl_core pl2) = Some c2" "keyed c2 goal" "field_from e good goal ?pl c2" using prepared_keyed [OF p2 pre2] by blast
        have ff: "field_from e good goal pl c2" using c2(3) by (auto simp: field_from_def drop_field_def)
        obtain r2 where "core_rollout e (pl_core pl2) start = Some r2" "res = plan_result e st2 r2" "pl' = pl2"
          using assms(1) p1 r False p2 by (auto simp: plan_with_progress_def discard_partial_spec)
        moreover have "\<not> is_partial (pl_core pl2)" using prepared_finished [OF p2 pre2 k] by simp
        ultimately show thesis using rolled c2 ff by (simp add: is_partial_def)
      qed
    qed
  qed
qed

end
