(* ===== verification/Planning.thy ===== *)
theory Planning
  imports Planner
begin

text \<open>
  What the planner core promises: the locales of framing and of exact solvers, the field a preparation leaves behind, early
  starts, failures and results of plans, decisions, value grids in bands, and planner calls as runs of the
  manager's steps. The witnesses plan on a map of one cell.
\<close>

section \<open>Solvers\<close>

text \<open>What a solver keeps: it writes values, policies and the thread status only. \<open>fits\<close> is what it needs of
  the map.\<close>

locale framing_solver =
  fixes solve :: "'o solver_run" and fits :: "value_iterator \<Rightarrow> bool"
  assumes framed: "wf_vi vi \<Longrightarrow> fits vi \<Longrightarrow> solve vi n obs o0 = Some (vi', out, o1) \<Longrightarrow> same_map vi vi'"

text \<open>The solvers whose converged results are fixed points of the Bellman update.\<close>

locale exact_solver = observed_solver solve for solve :: "'o solver_run" +
  fixes fits :: "value_iterator \<Rightarrow> bool"
  assumes exact: "wf_vi vi \<Longrightarrow> fits vi \<Longrightarrow> solve vi n obs o0 = Some (vi', out, o1) \<Longrightarrow>
      same_frame vi vi' \<and> (o_converged out \<longrightarrow> consistent_but vi' {})"
begin

lemma fixpoint:
  assumes "wf_vi vi" "fits vi" "solve vi n obs o0 = Some (vi', out, o1)" "o_converged out" "in_map vi c"
  shows "settled vi' c \<or> unreached vi' c"
  using consistent_all [OF exact [OF assms(1-3)] assms(4)] assms(5) by blast

sublocale framing_solver solve fits
proof unfold_locales
  fix vi n obs o0 vi' out o1
  assume "wf_vi vi" "fits vi" "solve vi n obs o0 = Some (vi', out, o1)"
  then have "same_frame vi vi'" using exact by blast
  then show "same_map vi vi'" using same_map_frame [of vi vi' "thread_status vi'"] by simp
qed

end

interpretation exact2d: exact_solver frontier2d_solve_observed "\<lambda>vi. fst (displacement vi) < 64"
proof unfold_locales
  fix vi n and obs :: "'o solve_observer" and o0 vi' out o1
  assume w: "wf_vi vi" and r: "frontier2d_solve_observed vi n obs o0 = Some (vi', out, o1)"
  obtain mx my mt where d: "displacement vi = (mx, my, mt)" by (rule prod_cases3)
  note seed = ok2_seed [OF w d]
  from r d have "frontier_loop (frontier2d_round (nat mx) (nat my)) popcount2 n obs vi (seed_frontier_2d vi) 0 0 (pacer_new obs, o0) = Some (vi', out, o1)"
    by (simp add: frontier2d_solve_observed_def)
  from f2.loop_sound [OF w seed this] show "same_frame vi vi' \<and> (o_converged out \<longrightarrow> consistent_but vi' {})" .
qed

interpretation exact3d: exact_solver frontier3d_solve_observed "\<lambda>vi. fst (displacement vi) < 64"
proof unfold_locales
  fix vi n and obs :: "'o solve_observer" and o0 vi' out o1
  assume w: "wf_vi vi" and f: "fst (displacement vi) < 64" and r: "frontier3d_solve_observed vi n obs o0 = Some (vi', out, o1)"
  obtain mx my mt where d: "displacement vi = (mx, my, mt)" by (rule prod_cases3)
  note seed = ok3_seed [OF w d]
  have ok: "ok3 (nat mx) (nat my) (nat mt) vi (seed_frontier vi) \<and> nat mx < 64" using seed f d by simp
  from r d have run: "frontier_loop (frontier3d_round (nat mx) (nat my) (nat mt)) popcount3 n obs vi (seed_frontier vi) 0 0 (pacer_new obs, o0) = Some (vi', out, o1)"
    by (simp add: frontier3d_solve_observed_def)
  from f3.loop_sound [OF w ok seed(2) run] show "same_frame vi vi' \<and> (o_converged out \<longrightarrow> consistent_but vi' {})" .
qed

interpretation exact_stack: exact_solver frontier_stack_solve_observed "\<lambda>vi. fst (displacement vi) < 64"
proof unfold_locales
  fix vi n and obs :: "'o solve_observer" and o0 vi' out o1
  assume w: "wf_vi vi" and f: "fst (displacement vi) < 64" and r: "frontier_stack_solve_observed vi n obs o0 = Some (vi', out, o1)"
  obtain mx my mt where d: "displacement vi = (mx, my, mt)" by (rule prod_cases3)
  note seed = ok_stack_seed [OF w d]
  have ok: "ok_stack (nat mx) (nat my) (nat mt) vi (stack_seed vi) \<and> nat mx < 64" using seed f d by simp
  from r d have run: "frontier_loop (stack_round (nat mx) (nat my) (nat mt)) stack_popcount n obs vi (stack_seed vi) 0 0 (pacer_new obs, o0) = Some (vi', out, o1)"
    by (simp add: frontier_stack_solve_observed_def)
  from fs.loop_sound [OF w ok seed(2) run] show "same_frame vi vi' \<and> (o_converged out \<longrightarrow> consistent_but vi' {})" .
qed

interpretation exact_block: exact_solver block_refine_solve_observed "block_fits 64"
proof unfold_locales
  fix vi n and obs :: "'o solve_observer" and o0 vi' out o1
  assume w: "wf_vi vi" and f: "block_fits 64 vi" and r: "block_refine_solve_observed vi n obs o0 = Some (vi', out, o1)"
  have "block_fits BLOCK vi" using f by (simp add: block_fits_def BLOCK_def)
  from block_sound(1) [OF w this _ r [unfolded block_refine_solve_observed_def]]
  show "same_frame vi vi' \<and> (o_converged out \<longrightarrow> consistent_but vi' {})" by (simp add: LOCAL_SWEEPS_def)
qed

interpretation exact_pyramid: exact_solver pyramid_sweep_solve_observed "block_fits 64"
proof unfold_locales
  fix vi n and obs :: "'o solve_observer" and o0 vi' out o1
  assume w: "wf_vi vi" and f: "block_fits 64 vi" and r: "pyramid_sweep_solve_observed vi n obs o0 = Some (vi', out, o1)"
  have "\<forall>b\<in>set (pyramid_sizes (max (cell_num_x vi) (cell_num_y vi))). block_fits b vi"
    using f by (auto simp: pyramid_sizes_def FINEST_def block_fits_def)
  from pyramid_levels_spec [OF w this, of False 0 n obs o0 0] r
  show "same_frame vi vi' \<and> (o_converged out \<longrightarrow> consistent_but vi' {})" unfolding pyramid_sweep_solve_observed_def by auto
qed

interpretation framing_original: framing_solver original_solve_observed wf_orders
proof unfold_locales
  fix vi n and obs :: "'o solve_observer" and o0 vi' out o1
  assume "wf_vi vi" "wf_orders vi" and r: "original_solve_observed vi n obs o0 = Some (vi', out, o1)"
  from original_loop_sound [OF this(1,2) refl, of n obs 0 "(pacer_new obs, o0)"] r show "same_map vi vi'" unfolding original_solve_observed_def by auto
qed

text \<open>What each kind of solver needs of the map, and the kinds whose converged results are exact.\<close>

definition solver_fits :: "u64_solver \<Rightarrow> value_iterator \<Rightarrow> bool" where
  "solver_fits k vi \<longleftrightarrow>
     (k \<in> {Frontier2D, Frontier3D, FrontierStack} \<longrightarrow> fst (displacement vi) < 64) \<and>
     (k \<in> {BlockRefine, PyramidSweep} \<longrightarrow> block_fits 64 vi) \<and>
     (k \<in> {Reference, StreamMimic} \<longrightarrow> wf_orders vi)"

fun exact_kind :: "u64_solver \<Rightarrow> bool" where
  "exact_kind k \<longleftrightarrow> k \<in> {Frontier2D, Frontier3D, FrontierStack, BlockRefine, PyramidSweep}"

lemma kind_exact: "exact_kind k \<Longrightarrow> exact_solver (solve_observed rest k) (solver_fits k)"
  by (auto simp: solver_fits_def [abs_def] exact2d.exact_solver_axioms exact3d.exact_solver_axioms exact_stack.exact_solver_axioms
      exact_block.exact_solver_axioms exact_pyramid.exact_solver_axioms)

lemma kind_frames: "in_place k \<Longrightarrow> framing_solver (solve_observed rest k) (solver_fits k)"
  by (auto simp: solver_fits_def [abs_def] stream_mimic_solve_observed_def [abs_def] exact2d.framing_solver_axioms exact3d.framing_solver_axioms
      exact_stack.framing_solver_axioms exact_block.framing_solver_axioms exact_pyramid.framing_solver_axioms framing_original.framing_solver_axioms)

section \<open>Setting a goal\<close>

lemma map_states_wf:
  assumes f: "\<And>s. st_ix (f s) = st_ix s \<and> st_iy (f s) = st_iy s \<and> st_it (f s) = st_it s" and wf: "wf_vi vi"
    and vi': "cell_num_x vi' = cell_num_x vi" "cell_num_y vi' = cell_num_y vi" "cell_num_t vi' = cell_num_t vi" "actions vi' = actions vi"
      "states vi' = map f (states vi)"
  shows "wf_vi vi'" "in_map vi c \<Longrightarrow> state_at vi' c = f (state_at vi c)"
proof -
  have d: "dim_x vi' = dim_x vi" "dim_y vi' = dim_y vi" "dim_t vi' = dim_t vi" using vi' by (simp_all add: dim_x_def dim_y_def dim_t_def)
  have i: "cidx vi' c = cidx vi c" for c by (cases c) (simp add: d)
  have at: "state_at vi' c = f (state_at vi c)" if "in_map vi c" for c
    using cidx_less [OF that] wf by (simp add: state_at_def i vi' wf_vi_def)
  then show "in_map vi c \<Longrightarrow> state_at vi' c = f (state_at vi c)" .
  have "wf_action vi' = wf_action vi" by (rule ext) (simp add: wf_action_def wf_transition_def [abs_def] d vi')
  moreover have "wf_state vi' (x, y, t)" if "x < dim_x vi" "y < dim_y vi" "t < dim_t vi" for x y t
    using at [of "(x, y, t)"] that f wf_vi_state_at [OF wf, of x y t] by (simp add: wf_state_def)
  ultimately show "wf_vi vi'" using wf by (simp add: wf_vi_def d vi' list_all_iff)
qed

definition goal_state :: "value_iterator \<Rightarrow> state \<Rightarrow> state" where
  "goal_state vi s = init_value (mark_final vi s)"

lemma goal_state_sel [simp]:
  "st_ix (goal_state vi s) = st_ix s" "st_iy (goal_state vi s) = st_iy s" "st_it (goal_state vi s) = st_it s"
  "free (goal_state vi s) = free s" "penalty (goal_state vi s) = penalty s" "local_penalty (goal_state vi s) = 0"
  by (simp_all add: goal_state_def init_value_def mark_final_def Let_def)

lemma set_goal_sel:
  "actions (set_goal gx gy gt vi) = actions vi" "cell_num_x (set_goal gx gy gt vi) = cell_num_x vi" "cell_num_y (set_goal gx gy gt vi) = cell_num_y vi"
  "cell_num_t (set_goal gx gy gt vi) = cell_num_t vi" "goal_x (set_goal gx gy gt vi) = gx" "goal_y (set_goal gx gy gt vi) = gy"
  "goal_t (set_goal gx gy gt vi) = gt mod 360" "displacement (set_goal gx gy gt vi) = displacement vi"
  "states (set_goal gx gy gt vi) = map (goal_state (vi\<lparr>goal_x := gx, goal_y := gy, goal_t := gt mod 360, thread_status := Map.empty\<rparr>)) (states vi)"
  by (simp_all add: set_goal_def set_state_values_def displacement_def goal_state_def comp_def)

lemma goal_state_st: "st_ix (goal_state vi s) = st_ix s \<and> st_iy (goal_state vi s) = st_iy s \<and> st_it (goal_state vi s) = st_it s"
  by simp

lemma set_goal_wf: "wf_vi vi \<Longrightarrow> wf_vi (set_goal gx gy gt vi)"
  by (rule map_states_wf(1) [OF goal_state_st _ set_goal_sel(2,3,4,1,9)])

lemma goal_field_ok:
  assumes f: "field_ok co m"
  shows "field_ok co (m\<lparr>base := set_goal gx gy gt (base m)\<rparr>)"
proof -
  let ?g = "set_goal gx gy gt (base m)"
  have wf: "wf_vi (base m)" using f by (simp add: field_ok_def)
  have at: "state_input (state_at ?g c) = (free (state_at (base m) c), penalty (state_at (base m) c), 0)" if "in_map (base m) c" for c
    unfolding map_states_wf(2) [OF goal_state_st wf set_goal_sel(2,3,4,1,9) that] by (simp add: state_input_def)
  have m: "in_map ?g = in_map (base m)" by (auto simp: fun_eq_iff dim_x_def dim_y_def dim_t_def set_goal_sel)
  have "theta_uniform ?g" unfolding theta_uniform_def m
  proof (intro allI impI)
    fix x y t assume c: "in_map (base m) (x, y, t)"
    then have c0: "in_map (base m) (x, y, 0)" by simp
    have "state_input (state_at (base m) (x, y, t)) = state_input (state_at (base m) (x, y, 0))"
      using f c unfolding field_ok_def theta_uniform_def by blast
    then show "state_input (state_at ?g (x, y, t)) = state_input (state_at ?g (x, y, 0))" unfolding at [OF c] at [OF c0] by (simp add: state_input_def)
  qed
  then show ?thesis using f set_goal_wf [OF wf] by (simp add: field_ok_def set_goal_sel)
qed

lemma set_goal_fits: "solver_fits k (set_goal gx gy gt vi) = solver_fits k vi"
proof -
  have "sweep_orders (set_goal gx gy gt vi) = sweep_orders vi" by (simp add: set_goal_def set_state_values_def)
  moreover have "cidx (set_goal gx gy gt vi) = cidx vi" "in_map (set_goal gx gy gt vi) = in_map vi"
    by (auto simp: fun_eq_iff dim_x_def dim_y_def dim_t_def set_goal_sel)
  ultimately have "wf_orders (set_goal gx gy gt vi) = wf_orders vi" unfolding wf_orders_def wf_order_def by simp
  then show ?thesis by (simp add: solver_fits_def block_fits_def set_goal_sel)
qed

text \<open>A field whose solver states have the same map is as good as the old one.\<close>

lemma mapped_field:
  assumes "field_ok co vi" "same_map (base vi) b"
  shows "field_ok co (vi\<lparr>base := b\<rparr>)"
proof -
  let ?b = "with_ts (thread_status (base vi)) b"
  have f: "field_ok co (vi\<lparr>base := ?b\<rparr>)" using framed_field [OF assms(1)] assms(2) by (simp add: same_map_def)
  have "theta_uniform ?b = theta_uniform b" unfolding theta_uniform_def with_ts_cells ..
  then show ?thesis using f by (simp add: field_ok_def)
qed

lemma run_solver_parts:
  assumes "run_solver e from vi d = Some (Inr (vi', it, un), d')"
  obtains b out d1 where "vi' = vi\<lparr>base := b\<rparr>" "\<not> un \<longrightarrow> o_converged out"
    "solve_observed (e_rest e) (pc_solver (e_cfg e)) (base vi) (pc_max_solve_iter (e_cfg e)) (solve_director e from) d = Some (b, out, d1)"
  using assms by (auto simp: run_solver_def bind_eq_Some_conv split: if_splits)

text \<open>The solver of the environment writes nothing but values, policies and status: a contract for the solvers
  of \<open>e_rest\<close>, a fact for those that work in place.\<close>

definition map_kept :: "planner_env \<Rightarrow> bool" where
  "map_kept e \<longleftrightarrow> framing_solver (solve_observed (e_rest e) (pc_solver (e_cfg e))) (solver_fits (pc_solver (e_cfg e)))"

lemma in_place_kept: "in_place (pc_solver (e_cfg e)) \<Longrightarrow> map_kept e"
  unfolding map_kept_def by (rule kind_frames)

text \<open>The field of a goal on a map, solved: the map with that goal set on it, but for costs and actions, and
  every cell a fixed point of the Bellman update or without a successor that has a value.\<close>

definition goal_field :: "vi_local \<Rightarrow> vi_local cached_goal \<Rightarrow> bool" where
  "goal_field m c \<longleftrightarrow> same_frame (set_goal (cg_x c) (cg_y c) (cg_t_deg c) (base m)) (base (cg_field c))"

definition fixpoint_field :: "vi_local \<Rightarrow> bool" where
  "fixpoint_field vi \<longleftrightarrow> (\<forall>cl. in_map (base vi) cl \<longrightarrow> settled (base vi) cl \<or> unreached (base vi) cl)"

definition solved_goal :: "vi_local \<Rightarrow> vi_local cached_goal \<Rightarrow> bool" where
  "solved_goal m c \<longleftrightarrow> goal_field m c \<and> fixpoint_field (cg_field c)"

lemma solve_dense_kept:
  assumes k: "map_kept e" and m: "dense_map e = Some m" "field_ok co m" "solver_fits (pc_solver (e_cfg e)) (base m)"
    and s: "solve_dense e goal t from d = Some (Inr (vi, it, un), d')"
  shows "field_ok co vi"
proof -
  let ?g = "m\<lparr>base := set_goal (pv_x goal) (pv_y goal) t (base m)\<rparr>"
  obtain d1 where r: "run_solver e from ?g d1 = Some (Inr (vi, it, un), d')"
    using m(1) by (auto intro: solve_dense_run [OF s])
  then obtain b out d2 where b: "vi = ?g\<lparr>base := b\<rparr>"
    "solve_observed (e_rest e) (pc_solver (e_cfg e)) (base ?g) (pc_max_solve_iter (e_cfg e)) (solve_director e from) d1 = Some (b, out, d2)"
    by (rule run_solver_parts)
  have g: "field_ok co ?g" by (rule goal_field_ok [OF m(2)])
  then have "wf_vi (base ?g)" "solver_fits (pc_solver (e_cfg e)) (base ?g)" using m(3) by (simp_all add: field_ok_def set_goal_fits)
  from framing_solver.framed [OF k [unfolded map_kept_def] this b(2)] have "same_map (base ?g) b" .
  then show ?thesis using mapped_field [OF g] b(1) by simp
qed

lemma solve_dense_field:
  assumes k: "exact_kind (pc_solver (e_cfg e))" and m: "dense_map e = Some m" "wf_vi (base m)" "solver_fits (pc_solver (e_cfg e)) (base m)"
    and s: "solve_dense e goal t from d = Some (Inr (vi, it, un), d')"
  shows "vi = m\<lparr>base := base vi\<rparr> \<and> same_frame (set_goal (pv_x goal) (pv_y goal) t (base m)) (base vi) \<and> (\<not> un \<longrightarrow> fixpoint_field vi)"
proof -
  let ?g = "m\<lparr>base := set_goal (pv_x goal) (pv_y goal) t (base m)\<rparr>"
  obtain d1 where r: "run_solver e from ?g d1 = Some (Inr (vi, it, un), d')"
    using m(1) by (auto intro: solve_dense_run [OF s])
  then obtain b out d2 where b: "vi = ?g\<lparr>base := b\<rparr>" "\<not> un \<longrightarrow> o_converged out"
    and o: "solve_observed (e_rest e) (pc_solver (e_cfg e)) (base ?g) (pc_max_solve_iter (e_cfg e)) (solve_director e from) d1 = Some (b, out, d2)"
    by (rule run_solver_parts)
  have w: "wf_vi (base ?g)" "solver_fits (pc_solver (e_cfg e)) (base ?g)" using m set_goal_wf by (simp_all add: set_goal_fits)
  have ex: "exact_solver (solve_observed (e_rest e) (pc_solver (e_cfg e)) :: director solver_run) (solver_fits (pc_solver (e_cfg e)))" by (rule kind_exact [OF k])
  have fr: "same_frame (base ?g) b" using exact_solver.exact [OF ex w o] by blast
  have "settled b c \<or> unreached b c" if "\<not> un" "in_map b c" for c
    using exact_solver.fixpoint [OF ex w o _ that(2) [unfolded same_frame_sel(8) [OF fr]]] b(2) that(1) by blast
  then show ?thesis using b(1) fr by (simp add: fixpoint_field_def del: in_map.simps)
qed

section \<open>Planner calls as runs of the manager\<close>

lemma field_ok_dims: "c_width co' = c_width co \<Longrightarrow> c_height co' = c_height co \<Longrightarrow> field_ok co' = field_ok co"
  by (simp add: fun_eq_iff field_ok_def)

lemma reset_dims: "c_width (reset_for_goal co) = c_width co" "c_height (reset_for_goal co) = c_height co"
  "c_width (drop_field co) = c_width co" "c_height (drop_field co) = c_height co"
  "c_width (install_field u c co) = c_width co" "c_height (install_field u c co) = c_height co" "c_global (install_field u c co) = c_global co"
  by (simp_all add: reset_for_goal_def drop_field_def invalidate_global_jobs_def upd_global_def install_field_def seed_sweep_all_def core_local_def Let_def)

text \<open>The map of the environment has the size of the core and is one that the solver can work on.\<close>

definition map_fits :: "planner_env \<Rightarrow> core \<Rightarrow> bool" where
  "map_fits e co \<longleftrightarrow> (case dense_map e of None \<Rightarrow> True | Some m \<Rightarrow> field_ok co m \<and> solver_fits (pc_solver (e_cfg e)) (base m))"

text \<open>A core whose field has been replaced: a new epoch, nothing owned, certified, pending or in flight. A job from
  before can no longer publish anything.\<close>

definition renewed :: "core \<Rightarrow> core \<Rightarrow> bool" where
  "renewed co co' \<longleftrightarrow> epoch (c_global co) < epoch (c_global co') \<and> owned (c_global co') = {} \<and> \<not> certified (c_global co') \<and>
     in_flight (c_global co') = None \<and> local_in_flight (c_global co') = None \<and> inv_pending (c_global co') = []"

lemma renewed_steps:
  "renewed co (reset_for_goal co)" "renewed co (drop_field co)" "renewed co (install_field u c (reset_for_goal co))"
  "renewed co co1 \<Longrightarrow> renewed co1 co2 \<Longrightarrow> renewed co co2"
  unfolding renewed_def reset_dims
  by (simp_all add: reset_for_goal_def drop_field_def invalidate_global_jobs_def upd_global_def Let_def)

lemma renewed_stale:
  assumes "renewed co co'"
  shows "lj_epoch j \<le> epoch (c_global co) \<Longrightarrow> commit_local_job j co' = (None, co')"
    "gj_epoch g \<le> epoch (c_global co) \<Longrightarrow> commit_global_job g co' = Some ((0, \<not> is_dirty co'), co')"
  using assms by (simp_all add: renewed_def commit_local_job_def commit_global_job_def Let_def)

definition kept_or_renewed :: "pose_view \<Rightarrow> core \<Rightarrow> core \<Rightarrow> bool" where
  "kept_or_renewed goal co co' \<longleftrightarrow> co' = co \<and> is_cached_goal co goal \<or> renewed co co'"

lemma prepare_run:
  assumes p: "prepare_goal_with_progress e api goal from pl = Some (res, pl')" and pre: "pre_ok api I (\<lambda>c. field_ok co (cg_field c)) pl"
    and k: "map_kept e" and fits: "map_fits e co" and dims: "c_width (pl_core pl) = c_width co" "c_height (pl_core pl) = c_height co"
  shows "mgr_step\<^sup>*\<^sup>* \<lparr>ms_core = pl_core pl, ms_gjobs = gs, ms_ljobs = ls\<rparr> \<lparr>ms_core = pl_core pl', ms_gjobs = gs, ms_ljobs = ls\<rparr> \<and>
    pre_ok api I (\<lambda>c. field_ok co (cg_field c)) pl' \<and> c_width (pl_core pl') = c_width co \<and> c_height (pl_core pl') = c_height co \<and>
    kept_or_renewed goal (pl_core pl) (pl_core pl')"
proof -
  let ?s = "\<lparr>ms_core = pl_core pl, ms_gjobs = gs, ms_ljobs = ls\<rparr>"
  note fok = field_ok_dims [OF dims]
  have new: "field_ok co (cg_field c) \<Longrightarrow> mgr_step\<^sup>*\<^sup>* ?s (?s\<lparr>ms_core := install_field u c (reset_for_goal (pl_core pl))\<rparr>)" for c u
    using mgr_step.new_goal [of ?s c u] fok by auto
  show ?thesis
  proof (rule prepare_cases [OF p pre refl])
    fix err d d'
    assume "pl_core pl' = reset_for_goal (pl_core pl)" "pre_ok api I (\<lambda>c. field_ok co (cg_field c)) pl'"
    then show ?thesis using mgr_step.abandon [of ?s] dims by (auto simp: reset_dims kept_or_renewed_def renewed_steps)
  next
    fix vi :: vi_local and it un d d'
    let ?t = "yaw_to_goal_theta_deg (yaw_rad goal)"
    let ?c = "\<lparr>cg_x = pv_x goal, cg_y = pv_y goal, cg_t_deg = ?t, cg_field = vi, cg_partial = un\<rparr>"
    assume s: "solve_dense e goal ?t (if pc_early_start (e_cfg e) then from else None) d = Some (Inr (vi, it, un), d')"
      and c: "pl_core pl' = install_field un ?c (reset_for_goal (pl_core pl))" "pre_ok api I (\<lambda>c. field_ok co (cg_field c)) pl'"
    obtain m where m: "dense_map e = Some m" by (rule solve_dense_run [OF s]) (rule that)
    then have "field_ok co vi" using fits solve_dense_kept [OF k m _ _ s] by (simp add: map_fits_def)
    then show ?thesis using new [of ?c un] c dims by (simp add: reset_dims kept_or_renewed_def renewed_steps)
  next
    fix c
    assume "pl_core pl' = install_field False c (reset_for_goal (pl_core pl))" "field_ok co (cg_field c)"
      "pre_ok api I (\<lambda>c. field_ok co (cg_field c)) pl'"
    then show ?thesis using new [of c False] dims by (simp add: reset_dims kept_or_renewed_def renewed_steps)
  qed (use dims in \<open>simp_all add: kept_or_renewed_def is_cached_goal_def\<close>)
qed

lemma discard_run:
  "mgr_step\<^sup>*\<^sup>* \<lparr>ms_core = co, ms_gjobs = gs, ms_ljobs = ls\<rparr> \<lparr>ms_core = fst (discard_partial co), ms_gjobs = gs, ms_ljobs = ls\<rparr>"
  using mgr_step.discard [of "\<lparr>ms_core = co, ms_gjobs = gs, ms_ljobs = ls\<rparr>"] by auto

lemma plan_run:
  assumes p: "plan e api start goal pl = Some (res, pl')" and pre: "pre_ok api I (\<lambda>c. field_ok (pl_core pl) (cg_field c)) pl"
    and k: "map_kept e" "map_fits e (pl_core pl)"
  shows "mgr_step\<^sup>*\<^sup>* \<lparr>ms_core = pl_core pl, ms_gjobs = gs, ms_ljobs = ls\<rparr> \<lparr>ms_core = pl_core pl', ms_gjobs = gs, ms_ljobs = ls\<rparr> \<and>
    kept_or_renewed goal (pl_core pl) (pl_core pl')"
proof -
  let ?s = "\<lambda>co. \<lparr>ms_core = co, ms_gjobs = gs, ms_ljobs = ls\<rparr>"
  obtain q pl1 where p1: "prepare_goal_with_progress e api goal (Some start) pl = Some (q, pl1)"
    using p by (auto simp: plan_def plan_with_progress_def bind_eq_Some_conv)
  note run1 = prepare_run [OF p1 pre k refl refl, of gs ls]
  let ?pl = "pl1\<lparr>pl_core := drop_field (pl_core pl1)\<rparr>"
  have drop: "mgr_step\<^sup>*\<^sup>* (?s (pl_core pl1)) (?s (drop_field (pl_core pl1)))" if "is_partial (pl_core pl1)"
    using discard_run [of "pl_core pl1" gs ls] that by (simp add: discard_partial_spec)
  consider "pl_core pl' = pl_core pl1"
    | q2 where "is_partial (pl_core pl1)" "prepare_goal_with_progress e api goal None ?pl = Some (q2, pl')"
    using p p1
    by (auto simp: plan_def plan_with_progress_def discard_partial_spec bind_eq_Some_conv split: sum.splits if_splits) (metis sum.exhaust)
  then show ?thesis
  proof cases
    case 2
    have "c_width (pl_core ?pl) = c_width (pl_core pl)" "c_height (pl_core ?pl) = c_height (pl_core pl)"
      "pre_ok api I (\<lambda>c. field_ok (pl_core pl) (cg_field c)) ?pl" using run1 by (simp_all add: reset_dims)
    then have run2: "mgr_step\<^sup>*\<^sup>* (?s (pl_core ?pl)) (?s (pl_core pl')) \<and> kept_or_renewed goal (pl_core ?pl) (pl_core pl')"
      using prepare_run [OF 2(2) _ k, where gs = gs and ls = ls] by blast
    have "renewed (pl_core pl) (pl_core ?pl)"
      using run1 renewed_steps(2) [of "pl_core pl1"] renewed_steps(4) [of "pl_core pl" "pl_core pl1"] by (auto simp: kept_or_renewed_def)
    then have "renewed (pl_core pl) (pl_core pl')"
      using run2 renewed_steps(4) [of "pl_core pl" "pl_core ?pl" "pl_core pl'"] by (auto simp: kept_or_renewed_def)
    moreover have "mgr_step\<^sup>*\<^sup>* (?s (pl_core pl)) (?s (pl_core pl'))"
      using run1 drop [OF 2(1)] run2 by (auto intro: rtranclp_trans)
    ultimately show ?thesis by (simp add: kept_or_renewed_def)
  qed (use run1 in simp)
qed

section \<open>The planner's promises\<close>

text \<open>C7: planning beside the field manager is safe, for every solver that writes only values, policies and
  status (all that work in place do) on a map of the core's size that the solver can work on, with a
  prefetcher whose fields have that size too. Whenever the core is in a reachable state of the manager, a
  plan is a run of the manager's steps and leads to a reachable state again. Either it changes nothing,
  because the goal was cached, or the field is replaced under a new epoch, without certificate and
  owner's cells, and then no job that was out can publish: committing it leaves the core as it is.\<close>

theorem plan_refines_manager:
  assumes "plan e api start goal pl = Some (res, pl')" and "pre_ok api I (\<lambda>c. field_ok (pl_core pl) (cg_field c)) pl" and "map_kept e"
    and "map_fits e (pl_core pl)" and "mgr_reachable w h sweep s" and "ms_core s = pl_core pl" and "s' = s\<lparr>ms_core := pl_core pl'\<rparr>"
  shows "mgr_step\<^sup>*\<^sup>* s s' \<and> mgr_reachable w h sweep s' \<and>
    (s' = s \<and> is_cached_goal (pl_core pl) goal \<or>
     epoch (c_global (pl_core pl)) < epoch (c_global (pl_core pl')) \<and> owned (c_global (pl_core pl')) = {} \<and> \<not> certified (c_global (pl_core pl')) \<and>
     (\<forall>j\<in>set (ms_ljobs s). commit_local_job j (pl_core pl') = (None, pl_core pl')) \<and>
     (\<forall>j\<in>set (ms_gjobs s). \<exists>r. commit_global_job j (pl_core pl') = Some (r, pl_core pl')))"
proof -
  have s: "s = \<lparr>ms_core = pl_core pl, ms_gjobs = ms_gjobs s, ms_ljobs = ms_ljobs s\<rparr>" using assms(6) by simp
  have s': "s' = \<lparr>ms_core = pl_core pl', ms_gjobs = ms_gjobs s, ms_ljobs = ms_ljobs s\<rparr>" unfolding assms(7) by (subst s) simp
  note run = plan_run [OF assms(1-4), of "ms_gjobs s" "ms_ljobs s", folded s s']
  then have "mgr_reachable w h sweep s'" using assms(5) unfolding mgr_reachable_def by auto
  have inv: "sys_inv s" by (rule sys_inv_reachable [OF assms(5)])
  have old: "j \<in> set (ms_ljobs s) \<Longrightarrow> lj_epoch j \<le> epoch (c_global (pl_core pl))" "g \<in> set (ms_gjobs s) \<Longrightarrow> gj_epoch g \<le> epoch (c_global (pl_core pl))" for j g
    using inv by (auto simp: sys_inv_def local_ok_def global_ok_def assms(6))
  show ?thesis
  proof (cases "renewed (pl_core pl) (pl_core pl')")
    case True
    then show ?thesis using run \<open>mgr_reachable w h sweep s'\<close> renewed_stale [OF True] old by (simp add: renewed_def)
  next
    case False
    then have "s' = s" "is_cached_goal (pl_core pl) goal" using run s' assms(6) by (auto simp: kept_or_renewed_def)
    then show ?thesis using run \<open>mgr_reachable w h sweep s'\<close> by simp
  qed
qed

lemma core_rollout_cached:
  "c_cached co = Some c \<Longrightarrow> core_rollout e co start = rollout_path_on (e_cos e) (e_sin e) (dense_view (base (cg_field c)))
     (pv_x start) (pv_y start) (yaw_rad start) (pc_max_rollout_steps (e_cfg e)) (pc_start_tolerance_cells (e_cfg e))"
  by (simp add: core_rollout_def core_local_def)

lemma densify_last: "poses \<noteq> [] \<Longrightarrow> densify poses d \<noteq> [] \<and> last (densify poses d) = last poses"
  by (simp add: densify_def)

text \<open>C9: a solve that was stopped early is good for its start: the rollout from there on the unfinished field
  that is cached reaches the goal, so the plan is answered by it and nothing is solved again.\<close>

theorem early_start_rolls_out:
  assumes "prepare_goal_with_progress e api goal (Some start) pl = Some (Inr st, pl')" and "ss_solved_now st" and "ss_partial st"
    and "pre_ok api I good pl" and "in_place (pc_solver (e_cfg e))"
  shows "pc_early_start (e_cfg e) \<and> is_partial (pl_core pl') \<and>
    (\<exists>r. core_rollout e (pl_core pl') start = Some r \<and> reached_goal r \<and> plan_with_progress e api start goal pl = Some (plan_result e st r, pl'))"
proof (rule prepare_cases [OF assms(1,4) refl])
  fix vi it un d d'
  let ?t = "yaw_to_goal_theta_deg (yaw_rad goal)" and ?fr = "if pc_early_start (e_cfg e) then Some start else None"
  assume s: "solve_dense e goal ?t ?fr d = Some (Inr (vi, it, un), d')"
    and c: "pl_core pl' = install_field un \<lparr>cg_x = pv_x goal, cg_y = pv_y goal, cg_t_deg = ?t, cg_field = vi, cg_partial = un\<rparr> (reset_for_goal (pl_core pl))"
    and "Inr st = Inr (stats0\<lparr>ss_iters := it, ss_partial := un, ss_solved_now := True\<rparr>)"
  then have un: "un" using assms(3) by (simp add: stats0_def)
  obtain m d1 where "run_solver e ?fr (m\<lparr>base := set_goal (pv_x goal) (pv_y goal) ?t (base m)\<rparr>) d1 = Some (Inr (vi, it, un), d')"
    by (rule solve_dense_run [OF s]) (rule that)
  then have "\<exists>f. ?fr = Some f \<and> reaches_goal e (dense_view (base vi)) f = Some True"
    using run_solver_stopped [OF assms(5)] un by simp
  then obtain f where f: "?fr = Some f" "reaches_goal e (dense_view (base vi)) f = Some True" by (elim exE conjE)
  then obtain r where r: "core_rollout e (pl_core pl') start = Some r" "reached_goal r"
    by (auto simp: c core_rollout_def reaches_goal_def split: if_splits)
  then have "plan_with_progress e api start goal pl = Some (plan_result e st r, pl')" using assms(1) by (simp add: plan_with_progress_def)
  then show ?thesis using f r un by (auto simp: c is_partial_def split: if_splits)
qed (use assms(2,3) in \<open>auto simp: stats0_def\<close>)

lemma field_from_solved:
  assumes f: "field_from e good goal pl c" and k: "exact_kind (pc_solver (e_cfg e))"
    and m: "dense_map e = Some m" "wf_vi (base m)" "solver_fits (pc_solver (e_cfg e)) (base m)"
    and cached: "c_cached (pl_core pl) = Some c \<Longrightarrow> solved_goal m c" and good: "good c \<Longrightarrow> solved_goal m c" and "\<not> cg_partial c"
  shows "solved_goal m c"
  using f unfolding field_from_def
proof (elim disjE exE conjE)
  fix vi :: vi_local and it fr d d'
  assume s: "solve_dense e goal (yaw_to_goal_theta_deg (yaw_rad goal)) fr d = Some (Inr (vi, it, cg_partial c), d')"
    and c: "c = \<lparr>cg_x = pv_x goal, cg_y = pv_y goal, cg_t_deg = yaw_to_goal_theta_deg (yaw_rad goal), cg_field = vi, cg_partial = cg_partial c\<rparr>"
  have "cg_x c = pv_x goal" "cg_y c = pv_y goal" "cg_t_deg c = yaw_to_goal_theta_deg (yaw_rad goal)" "cg_field c = vi" by (subst c, simp)+
  then show ?thesis using solve_dense_field [OF k m s] assms(8) by (simp add: solved_goal_def goal_field_def)
qed (use cached good in blast)+

text \<open>C10: for the frontier, block and pyramid solvers on a well-formed map that they can work on, a plan that
  fails on its rollout has not been failed by an unfinished field, provided that a finished field of the goal
  which was cached before, and any field of the prefetcher, is the solved one. The field that is cached then is
  the goal's: the map with the goal set on it, every cell a fixed point of the Bellman update or without a
  successor that has a value; and the status of the error is that of the rollout on it.\<close>

theorem plan_failure_is_final:
  assumes "plan e api start goal pl = Some (Inl (PlanRollout stt), pl')" and "pre_ok api I (solved_goal m) pl"
    and "exact_kind (pc_solver (e_cfg e))" and "dense_map e = Some m" and "wf_vi (base m)" and "solver_fits (pc_solver (e_cfg e)) (base m)"
    and "\<forall>c. c_cached (pl_core pl) = Some c \<and> keyed c goal \<and> \<not> cg_partial c \<longrightarrow> solved_goal m c"
  shows "stt \<noteq> ReachedGoal \<and> (\<exists>c r. c_cached (pl_core pl') = Some c \<and> keyed c goal \<and> \<not> cg_partial c \<and> goal_field m c \<and>
    (\<forall>cl. in_map (base (cg_field c)) cl \<longrightarrow> settled (base (cg_field c)) cl \<or> unreached (base (cg_field c)) cl) \<and>
    core_rollout e (pl_core pl') start = Some r \<and> ro_status r = stt)"
proof -
  have k: "in_place (pc_solver (e_cfg e))" using assms(3) by auto
  show ?thesis
  proof (rule plan_cases [OF assms(1) [unfolded plan_def] assms(2) k])
    fix c r st
    assume c: "c_cached (pl_core pl') = Some c" "keyed c goal" "field_from e (solved_goal m) goal pl c" "core_rollout e (pl_core pl') start = Some r"
      and res: "Inl (PlanRollout stt) = plan_result e st r" and un: "reached_goal r \<or> \<not> cg_partial c"
    have st: "stt = ro_status r" "\<not> reached_goal r" using res by (simp_all add: plan_result_def Let_def split: if_splits)
    then have "solved_goal m c" using field_from_solved [OF c(3) assms(3-6)] assms(7) c(2) un by blast
    then show ?thesis using c st un by (auto simp: reached_goal_def solved_goal_def fixpoint_field_def simp del: in_map.simps)
  qed simp
qed

text \<open>C11: a plan that succeeds is the rollout of the start on the field that is cached for the goal, densified
  when a spacing is configured; it ends at the exact pose of the field's goal, and the statistics count its
  poses.\<close>

theorem plan_success:
  assumes "plan e api start goal pl = Some (Inr (poses, ps), pl')" and "pre_ok api I good pl" and "in_place (pc_solver (e_cfg e))"
  shows "\<exists>c r. c_cached (pl_core pl') = Some c \<and> keyed c goal \<and> core_rollout e (pl_core pl') start = Some r \<and> reached_goal r \<and>
    poses = (if f_lt (f_of_int 0) (pc_path_spacing (e_cfg e)) then densify (ro_poses r) (pc_path_spacing (e_cfg e)) else ro_poses r) \<and>
    poses \<noteq> [] \<and> last poses = goal_pose (dense_view (base (cg_field c))) \<and> ps_poses ps = length poses"
proof (rule plan_cases [OF assms(1) [unfolded plan_def] assms(2,3)])
  fix c r st
  assume c: "c_cached (pl_core pl') = Some c" "keyed c goal" and r: "core_rollout e (pl_core pl') start = Some r"
    and res: "Inr (poses, ps) = plan_result e st r"
  let ?p = "dense_view (base (cg_field c))"
  have reach: "reached_goal r" using res by (auto simp: plan_result_def split: if_splits)
  obtain ss where "ro_poses r = map pose_of (start_place ?p (pv_x start) (pv_y start) (yaw_rad start) (pc_start_tolerance_cells (e_cfg e)) # ss) @
      (if ro_status r = ReachedGoal then [goal_pose ?p] else [])"
    by (rule rollout_run [OF r [unfolded core_rollout_cached [OF c(1)]] refl]) (rule that)
  then have "ro_poses r \<noteq> []" "last (ro_poses r) = goal_pose ?p" using reach by (simp_all add: reached_goal_def)
  then show ?thesis using c r reach res densify_last by (auto simp: plan_result_def Let_def solve_stats.extend_def)
qed simp

text \<open>A preparation that fails leaves no field behind: nothing cached, no certificate, no sweep
  queued, no job in flight, nothing owned or to be invalidated, and a new epoch, so that no local job is
  active.\<close>

theorem prepare_error_clears:
  assumes "prepare_goal_with_progress e api goal from pl = Some (Inl err, pl')" and "pre_ok api I good pl"
  shows "(err = PlanCancelled \<or> err = PlanNotConverged) \<and> c_cached (pl_core pl') = None \<and>
    epoch (c_global (pl_core pl')) = epoch (c_global (pl_core pl)) + 1 \<and>
    in_flight (c_global (pl_core pl')) = None \<and> (\<forall>j. \<not> active j (pl_core pl')) \<and> owned (c_global (pl_core pl')) = {} \<and>
    \<not> certified (c_global (pl_core pl')) \<and> \<not> invalidating (c_global (pl_core pl')) \<and> \<not> global_queued (pl_core pl')"
  using prepare_error [OF assms]
  by (simp add: reset_for_goal_def drop_field_def invalidate_global_jobs_def upd_global_def global_queued_def sweep_clear_def sweep_settle_def
      active_def invalidating_def Let_def)

text \<open>C8: what a preparation solves with a frontier, block or pyramid solver, on a well-formed map that the solver
  can work on, is the goal's field: it has the goal's key and pose, differs from the map with the goal set on
  it in costs and actions only, and, unless it was stopped early, every cell of it is a fixed point of the
  Bellman update or has no successor with a value.\<close>

theorem prepared_field_solved:
  assumes "prepare_goal_with_progress e api goal from pl = Some (Inr st, pl')" and "ss_solved_now st" and "\<not> ss_adopted st"
    and "pre_ok api I good pl" and "exact_kind (pc_solver (e_cfg e))" and "dense_map e = Some m" and "wf_vi (base m)"
    and "solver_fits (pc_solver (e_cfg e)) (base m)"
  shows "\<exists>c b. c_cached (pl_core pl') = Some c \<and> base (cg_field c) = b \<and> cached_key c = goal_key_of goal \<and> cg_partial c = ss_partial st \<and>
    goal_x b = pv_x goal \<and> goal_y b = pv_y goal \<and> goal_t b = yaw_to_goal_theta_deg (yaw_rad goal) mod 360 \<and>
    same_frame (set_goal (pv_x goal) (pv_y goal) (yaw_to_goal_theta_deg (yaw_rad goal)) (base m)) b \<and>
    (\<not> ss_partial st \<longrightarrow> (\<forall>cl. in_map b cl \<longrightarrow> settled b cl \<or> unreached b cl))"
proof (rule prepare_cases [OF assms(1,4) refl])
  fix vi it un d d'
  let ?t = "yaw_to_goal_theta_deg (yaw_rad goal)"
  assume s: "solve_dense e goal ?t (if pc_early_start (e_cfg e) then from else None) d = Some (Inr (vi, it, un), d')"
    and c: "pl_core pl' = install_field un \<lparr>cg_x = pv_x goal, cg_y = pv_y goal, cg_t_deg = ?t, cg_field = vi, cg_partial = un\<rparr> (reset_for_goal (pl_core pl))"
    and "Inr st = Inr (stats0\<lparr>ss_iters := it, ss_partial := un, ss_solved_now := True\<rparr>)"
  then have un: "ss_partial st = un" by (simp add: stats0_def)
  note vi = solve_dense_field [OF assms(5-8) s]
  then have "goal_x (base vi) = pv_x goal" "goal_y (base vi) = pv_y goal" "goal_t (base vi) = ?t mod 360"
    unfolding same_frame_def by (auto simp: set_goal_sel)
  then show ?thesis using vi un by (simp add: c cached_key_def goal_key_of_def fixpoint_field_def del: in_map.simps)
qed (use assms(2,3) in \<open>auto simp: stats0_def\<close>)

lemma action_at_listed:
  assumes "action_at vi x y t = Some d"
  shows "\<exists>a\<in>set (actions vi). d = DecideAction (Some (nat (a_id a))) (delta_fw a) (delta_rot a)"
  using assms by (auto simp: action_at_def Let_def find_Some_iff split: if_splits) (metis nth_mem)

lemma lend_listed:
  assumes "lend vi c p = Some d"
  shows "d = DecideGoal \<or> (\<exists>a\<in>set (actions vi). d = DecideAction (Some (nat (a_id a))) (delta_fw a) (delta_rot a))"
  using assms action_at_listed by (cases c; cases p) (auto simp: lend_def Let_def split: if_splits)

lemma greedy_nearest:
  assumes c: "pose_to_cell vi (pv_x pose) (pv_y pose) (yaw_rad pose) = (ix, iy, it)" and "\<not> dense_is_final vi ix iy it" and "action_at vi ix iy it = None"
    and tol: "tol = pc_action_tolerance_cells cfg"
  shows "(\<exists>dx dy. \<bar>dx\<bar> \<le> tol \<and> \<bar>dy\<bar> \<le> tol \<and> lend vi (ix, iy, it) (dx, dy) = Some (greedy_decide cfg vi pose) \<and>
      (\<forall>dx' dy'. \<bar>dx'\<bar> \<le> tol \<and> \<bar>dy'\<bar> \<le> tol \<and> lend vi (ix, iy, it) (dx', dy') \<noteq> None \<longrightarrow> dx * dx + dy * dy \<le> dx' * dx' + dy' * dy')) \<or>
    greedy_decide cfg vi pose = DecideNone \<and> (\<forall>dx dy. \<bar>dx\<bar> \<le> tol \<and> \<bar>dy\<bar> \<le> tol \<longrightarrow> lend vi (ix, iy, it) (dx, dy) = None)"
proof -
  define best where "best = fold (\<lambda>dy. fold (\<lambda>dx best. case lend vi (ix, iy, it) (dx, dy) of None \<Rightarrow> best | Some v \<Rightarrow> keep_nearest dx dy v best)
      [- tol..tol]) [- tol..tol] None"
  have g: "greedy_decide cfg vi pose = (case best of None \<Rightarrow> DecideNone | Some (_, d) \<Rightarrow> d)"
    using assms by (simp add: greedy_decide_def best_def Let_def)
  note near = nearest_spec [OF best_def]
  show ?thesis
  proof (cases best)
    case None
    then have "lend vi (ix, iy, it) (dx, dy) = None" if "\<bar>dx\<bar> \<le> tol \<and> \<bar>dy\<bar> \<le> tol" for dx dy using near that by (cases "lend vi (ix, iy, it) (dx, dy)") fastforce+
    then show ?thesis using g None by simp
  next
    case (Some bv)
    obtain bd v where bv: "best = Some (bd, v)" using Some by (cases bv) auto
    obtain dx dy where d: "\<bar>dx\<bar> \<le> tol" "\<bar>dy\<bar> \<le> tol" "lend vi (ix, iy, it) (dx, dy) = Some v" "bd = dx * dx + dy * dy" using near bv by blast
    have "bd \<le> dx' * dx' + dy' * dy'" if "\<bar>dx'\<bar> \<le> tol \<and> \<bar>dy'\<bar> \<le> tol \<and> lend vi (ix, iy, it) (dx', dy') \<noteq> None" for dx' dy' using near that bv by fastforce
    then show ?thesis using d g bv by auto
  qed
qed

text \<open>C14: the greedy decision: at a goal cell it is the goal, even while a policy is being invalidated, which
  otherwise suspends it; else it is the cell's own action, or that of the nearest cell of the tolerance square
  that has one or is a goal, and nothing only when no cell of the square has; an action that is commanded is
  one of the field's.\<close>

theorem decide_sound:
  assumes "core_local co = Some vi" and "pose_to_cell (base vi) (pv_x pose) (pv_y pose) (yaw_rad pose) = (ix, iy, it)"
    and "fst (decide (\<lambda>b pose m. (greedy_decide cfg b pose, m)) co pose m) = d" and "tol = pc_action_tolerance_cells cfg"
  shows "if dense_is_final (base vi) ix iy it then d = DecideGoal
    else if invalidating (c_global co) then d = DecideNone
    else (case action_at (base vi) ix iy it of
        Some own \<Rightarrow> d = own
      | None \<Rightarrow> (\<exists>dx dy. \<bar>dx\<bar> \<le> tol \<and> \<bar>dy\<bar> \<le> tol \<and> lend (base vi) (ix, iy, it) (dx, dy) = Some d \<and>
            (\<forall>dx' dy'. \<bar>dx'\<bar> \<le> tol \<and> \<bar>dy'\<bar> \<le> tol \<and> lend (base vi) (ix, iy, it) (dx', dy') \<noteq> None \<longrightarrow> dx * dx + dy * dy \<le> dx' * dx' + dy' * dy')) \<or>
          d = DecideNone \<and> (\<forall>dx dy. \<bar>dx\<bar> \<le> tol \<and> \<bar>dy\<bar> \<le> tol \<longrightarrow> lend (base vi) (ix, iy, it) (dx, dy) = None)) \<and>
      (\<forall>i v w. d = DecideAction i v w \<longrightarrow> (\<exists>a\<in>set (actions (base vi)). i = Some (nat (a_id a)) \<and> v = delta_fw a \<and> w = delta_rot a))"
proof (cases "dense_is_final (base vi) ix iy it \<or> invalidating (c_global co)")
  case True
  then show ?thesis using assms(1-3) by (auto simp: decide_def)
next
  case False
  then have d: "d = greedy_decide cfg (base vi) pose" using assms(1-3) by (auto simp: decide_def)
  show ?thesis
  proof (cases "action_at (base vi) ix iy it")
    case None
    note near = greedy_nearest [OF assms(2) _ None assms(4), folded d]
    from near False have "d = DecideNone \<or> (\<exists>p. lend (base vi) (ix, iy, it) p = Some d)" by blast
    then have "\<forall>i v w. d = DecideAction i v w \<longrightarrow> (\<exists>a\<in>set (actions (base vi)). i = Some (nat (a_id a)) \<and> v = delta_fw a \<and> w = delta_rot a)"
      using lend_listed by fastforce
    then show ?thesis using near False None by simp
  next
    case (Some own)
    then have "d = own" using False assms(2) by (simp add: d greedy_decide_def)
    then show ?thesis using False Some action_at_listed [OF Some] by auto
  qed
qed

section \<open>Value grids in bands\<close>

lemma render_some:
  assumes "length vals = usize_of w * usize_of h"
  shows "render p w h oy vals th = Some \<lparr>width = w, height = h, resolution = vw_xy_resolution p, origin_x = fst (vw_map_origin p), origin_y = oy,
     origin_quat = vw_map_origin_quat p, data = map (value_pixel th) vals\<rparr>"
  using assms by (simp add: render_def value_slice_to_occupancy_def)

lemma row_values_length [simp]: "length (row_values p iy) = nat (fst (vw_cell_num p))"
  by (simp add: row_values_def)

lemma rows_length: "length (concat (map (\<lambda>y. row_values p (f y)) ys)) = nat (fst (vw_cell_num p)) * length ys"
  by (induction ys) simp_all

declare usize_of_int [simp]

lemma wf_dims_31:
  assumes "wf_vi vi"
  shows "0 < cell_num_x vi" "0 < cell_num_y vi" "dim_x vi < 2 ^ 31" "dim_y vi < 2 ^ 31"
proof -
  note p = wf_dims_pos [OF assms]
  have "dim_x vi * (dim_y vi * dim_t vi) < 2 ^ 31" "dim_y vi * (dim_x vi * dim_t vi) < 2 ^ 31" using p(4) by (simp_all add: mult.assoc mult.left_commute)
  moreover have "dim_x vi \<le> dim_x vi * (dim_y vi * dim_t vi)" "dim_y vi \<le> dim_y vi * (dim_x vi * dim_t vi)" using p by simp_all
  ultimately show "dim_x vi < 2 ^ 31" "dim_y vi < 2 ^ 31" using le_less_trans by blast+
qed (use assms in \<open>simp_all add: wf_vi_def\<close>)

definition band :: "policy_view \<Rightarrow> u64 \<Rightarrow> nat \<Rightarrow> nat \<Rightarrow> occupancy_grid" where
  "band p th a b = \<lparr>width = fst (vw_cell_num p), height = int (b - a), resolution = vw_xy_resolution p, origin_x = fst (vw_map_origin p),
     origin_y = f_add (snd (vw_map_origin p)) (f_mul (f_of_int (int a)) (vw_xy_resolution p)), origin_quat = vw_map_origin_quat p,
     data = map (value_pixel th) (concat (map (\<lambda>y. row_values p (int y)) [a..<b]))\<rparr>"

lemma value_rows_some:
  assumes co: "core_local co = Some vi" and wf: "wf_vi (base vi)" and ab: "a < b" "b \<le> dim_y (base vi)"
  shows "value_grid_rows co a b th = Some (Some (epoch (c_global co), band (dense_view (base vi)) th a b, dim_y (base vi)))"
proof -
  define p where "p = dense_view (base vi)"
  obtain nx ny nt where n: "vw_cell_num p = (nx, ny, nt)" by (rule prod_cases3)
  then have d: "nx = int (dim_x (base vi))" "ny = int (dim_y (base vi))" "dim_x (base vi) < 2 ^ 31" "dim_y (base vi) < 2 ^ 31"
    using wf_dims_31 [OF wf] by (auto simp: p_def dense_view_def dim_x_def dim_y_def)
  then have u: "usize_of nx = nat nx" "usize_of ny = dim_y (base vi)" "usize_of (int (b - a)) = b - a" using ab by (simp_all del: of_nat_diff)
  show ?thesis
    unfolding value_grid_rows_def co option.case p_def [symmetric] Let_def n prod.case u
    using ab by (simp add: min_absorb1 band_def n render_some rows_length u del: of_nat_diff)
qed

lemma value_grid_some:
  assumes co: "core_local co = Some vi" and wf: "wf_vi (base vi)"
  shows "value_grid co th = Some (Some ((band (dense_view (base vi)) th 0 (dim_y (base vi)))\<lparr>origin_y := map_origin_y (base vi)\<rparr>))"
proof -
  define p where "p = dense_view (base vi)"
  obtain nx ny nt where n: "vw_cell_num p = (nx, ny, nt)" by (rule prod_cases3)
  then have d: "nx = int (dim_x (base vi))" "ny = int (dim_y (base vi))" "dim_x (base vi) < 2 ^ 31" "dim_y (base vi) < 2 ^ 31"
    using wf_dims_31 [OF wf] by (auto simp: p_def dense_view_def dim_x_def dim_y_def)
  have o: "snd (vw_map_origin p) = map_origin_y (base vi)" by (simp add: p_def dense_view_def)
  have r: "map (row_values p) [0..ny - 1] = map (\<lambda>y. row_values p (int y)) [0..<dim_y (base vi)]"
    unfolding d by (simp add: upto_map_int [of 0, simplified] comp_def)
  have u: "usize_of nx = nat nx" "usize_of ny = nat ny" using d by simp_all
  have "length (concat (map (\<lambda>y. row_values p (int y)) [0..<dim_y (base vi)])) = usize_of nx * usize_of ny" unfolding rows_length u n using d by simp
  then show ?thesis
    unfolding value_grid_def co option.case p_def [symmetric] value_grid_on_def n prod.case r o
    by (simp add: render_some n d(2) band_def)
qed

text \<open>Reading a value grid in bands loses nothing: on a well-formed field a read of rows never panics and
  carries the epoch of the goal, two adjacent reads have the pixels of the read of both, one after the other,
  and the read of all rows has the pixels of the published grid.\<close>

theorem value_rows:
  assumes "core_local co = Some vi" and "wf_vi (base vi)" and "a < b" and "b < c" and "c \<le> dim_y (base vi)"
  shows "\<exists>g1 g2 g g0 whole. value_grid_rows co a b th = Some (Some (epoch (c_global co), g1, dim_y (base vi))) \<and>
    value_grid_rows co b c th = Some (Some (epoch (c_global co), g2, dim_y (base vi))) \<and>
    value_grid_rows co a c th = Some (Some (epoch (c_global co), g, dim_y (base vi))) \<and>
    data g = data g1 @ data g2 \<and> height g = height g1 + height g2 \<and> length (data g1) = dim_x (base vi) * (b - a) \<and> origin_y g = origin_y g1 \<and>
    value_grid co th = Some (Some whole) \<and> value_grid_rows co 0 (dim_y (base vi)) th = Some (Some (epoch (c_global co), g0, dim_y (base vi))) \<and>
    data g0 = data whole \<and> width g0 = width whole \<and> height g0 = height whole"
proof -
  let ?r = "\<lambda>a b. band (dense_view (base vi)) th a b"
  have s: "[a..<c] = [a..<b] @ [b..<c]" using assms(3,4) by (metis less_imp_le_nat le_add_diff_inverse upt_add_eq_append)
  have "data (?r a c) = data (?r a b) @ data (?r b c)" "height (?r a c) = height (?r a b) + height (?r b c)" "origin_y (?r a c) = origin_y (?r a b)"
    "length (data (?r a b)) = dim_x (base vi) * (b - a)"
    using assms(3,4) by (simp_all add: band_def s rows_length dense_view_def dim_x_def)
  then show ?thesis
    using value_rows_some [OF assms(1,2), of a b th] value_rows_some [OF assms(1,2), of b c th] value_rows_some [OF assms(1,2), of a c th]
      value_rows_some [OF assms(1,2), of 0 "dim_y (base vi)" th] value_grid_some [OF assms(1,2), of th] assms(3-5)
    by simp
qed

section \<open>Witnesses\<close>

text \<open>A map of one cell with three headings and one action that stays. Its resolution is 0, so that the sampling
  loops of the transition tables end at once.\<close>

definition zero :: f64 where "zero = Fin False 0"

definition tiny_params :: "f64 \<Rightarrow> build_params" where
  "tiny_params margin =
     \<lparr>b_grid = \<lparr>width = 1, height = 1, resolution = zero, origin_x = zero, origin_y = zero,
        origin_quat = \<lparr>q_x = zero, q_y = zero, q_z = zero, q_w = metre\<rparr>, data = [0]\<rparr>,
      b_actions = [\<lparr>a_name = ''stay'', delta_fw = NaN, delta_rot = NaN, a_id = 0, state_transitions = []\<rparr>],
      b_theta_cell_num = 3, b_map_penalty_radius = zero, b_map_penalty = zero, b_goal_margin_radius = margin, b_goal_margin_theta = 120,
      b_local_xy_range = zero, b_local_shape = shape_config_default, b_patch_slack_cells = 0, b_repair_interior_cells = 0\<rparr>"

definition tiny_env :: "f64 \<Rightarrow> bool \<Rightarrow> planner_env" where
  "tiny_env margin early =
     \<lparr>e_cos = (\<lambda>_. metre), e_sin = (\<lambda>_. zero), e_par = 1, e_rest = (\<lambda>_ _ _ _ _. None), e_build = tiny_params margin,
      e_cfg = \<lparr>pc_solver = Frontier2D, pc_max_solve_iter = 5, pc_solve_chunk = 1, pc_max_rollout_steps = 3, pc_start_tolerance_cells = 0,
        pc_path_spacing = zero, pc_action_tolerance_cells = 0, pc_follow_controller = Greedy, pc_early_start = early\<rparr>,
      e_cancel = (\<lambda>_. False)\<rparr>"

definition here :: pose_view where
  "here = \<lparr>pv_x = zero, pv_y = zero, yaw_rad = NaN\<rparr>"

definition idle_planner :: "unit planner" where
  "idle_planner = \<lparr>pl_core = ms_core (mgr_init 1 1 True), pl_dir = \<lparr>dr_polls = 0, dr_shown = [], dr_panic = False\<rparr>, pl_pre = ()\<rparr>"



text \<open>The map of one cell and three headings, before and after a goal is set.\<close>

definition tiny_state :: "i32 \<Rightarrow> bool \<Rightarrow> state" where
  "tiny_state t fin = \<lparr>total_cost = (if fin then 0 else MAX_COST), penalty = PROB_BASE, local_penalty = 0, st_ix = 0, st_iy = 0, st_it = t,
     free = True, final_state = fin, optimal_action = None\<rparr>"

definition tiny_base :: "f64 \<Rightarrow> value_iterator" where
  "tiny_base margin = (value_iterator_new [\<lparr>a_name = ''stay'', delta_fw = NaN, delta_rot = NaN, a_id = 0, state_transitions = [[], [], []]\<rparr>] 1)
     \<lparr>states := map (\<lambda>t. tiny_state t False) [0, 1, 2], sweep_orders := sweep_orders (set_sweep_orders ((value_iterator_new [] 1)\<lparr>cell_num_x := 1, cell_num_y := 1, cell_num_t := 3\<rparr>)),
      goal_margin_radius := margin, goal_margin_theta := 120, xy_resolution := zero, t_resolution := Fin False 120, cell_num_x := 1, cell_num_y := 1,
      cell_num_t := 3, map_origin_x := zero, map_origin_y := zero, map_origin_quat := \<lparr>q_x = zero, q_y = zero, q_z = zero, q_w = metre\<rparr>\<rparr>"

lemma tiny_ints: "f_of_int 0 = zero" "f_of_int 120 = Fin False 120" "f_of_int 1 = metre" "f_of_int 2 = Fin False 2"
  by (simp_all add: f_of_int_exact zero_def metre_def)

lemma tiny_zero: "f_mul x zero = zero \<or> True" "f_div zero (Fin False k) = (if k = 0 then NaN else zero)" "f_mul (Fin False k) zero = zero"
  "f_lt zero zero = False" "f_div zero zero = NaN" "f_sub zero zero = zero"
  by (simp_all add: zero_def f_sub_def sval_def)

lemma tiny_transitions: "compute_theta_transitions cosf sinf NaN NaN it zero t_res = Some []"
proof -
  have h: "f_lit (1 / 2) = Fin False (1 / 2)" by code_simp
  have r: "f_of_int (2 ^ RESOLUTION_XY_BIT) = Fin False 64" by (simp add: f_of_int_exact RESOLUTION_XY_BIT_def)
  show ?thesis unfolding compute_theta_transitions_def Let_def
    by (subst sample_loop.simps) (simp add: h r tiny_zero)
qed


definition tiny_grid :: occupancy_grid where
  "tiny_grid = \<lparr>width = 1, height = 1, resolution = zero, origin_x = zero, origin_y = zero, origin_quat = \<lparr>q_x = zero, q_y = zero, q_z = zero, q_w = metre\<rparr>, data = [0]\<rparr>"

lemma tiny_rows: "state_rows tiny_grid 0 zero 1 3 0 1 = map (\<lambda>t. tiny_state t False) [0, 1, 2]"
  by code_simp

lemma tiny_set_state:
  assumes "xy_resolution vi = zero" "cell_num_x vi = 1" "cell_num_y vi = 1" "cell_num_t vi = 3"
  shows "set_state (Suc 0) tiny_grid zero zero vi = vi\<lparr>states := map (\<lambda>t. tiny_state t False) [0, 1, 2]\<rparr>"
proof -
  have u: "usize_of 1 = 1" "usize_of 3 = 3" by (simp_all add: usize_of_def)
  show ?thesis using tiny_rows by (simp add: set_state_def assms u tiny_zero div_ceil_def Let_def)
qed

lemma tiny_geometry: "set_geometry tiny_grid 3 margin 120 vi = vi\<lparr>cell_num_t := 3, goal_margin_radius := margin, goal_margin_theta := 120,
  cell_num_x := 1, cell_num_y := 1, xy_resolution := zero, t_resolution := Fin False 120, map_origin_x := zero, map_origin_y := zero,
  map_origin_quat := \<lparr>q_x = zero, q_y = zero, q_z = zero, q_w = metre\<rparr>\<rparr>"
proof -
  have "(360::int) sdiv 3 = 120" by (simp add: signed_divide_int_def)
  then show ?thesis by (simp add: set_geometry_def tiny_grid_def tiny_ints)
qed

lemma tiny_set_map: "set_map_with_occupancy_grid cosf sinf (Suc 0) tiny_grid 3 zero zero margin 120
    (value_iterator_new [\<lparr>a_name = ''stay'', delta_fw = NaN, delta_rot = NaN, a_id = 0, state_transitions = []\<rparr>] 1) = Some (tiny_base margin)"
proof -
  have u: "[0..2::int] = [0, 1, 2]" by code_simp
  show ?thesis
    by (simp add: set_map_with_occupancy_grid_def tiny_geometry tiny_set_state set_state_transition_def tiny_transitions u value_iterator_new_def
      set_sweep_orders_def tiny_base_def to_index_def Let_def)
qed

lemma set_shape_base [simp]: "base (set_local_shape cfg vi) = base vi"
  by (simp add: set_local_shape_def Let_def split: prod.split)

lemma tiny_dense: "\<exists>m. dense_map (tiny_env margin early) = Some m \<and> base m = tiny_base margin"
  using tiny_set_map [of "\<lambda>_. metre" "\<lambda>_. zero" margin, unfolded tiny_grid_def]
  by (simp add: dense_map_def local_set_map_def vi_local_new_def Let_def tiny_env_def tiny_params_def)

definition tiny_goal :: "bool \<Rightarrow> value_iterator" where
  "tiny_goal near = (set_goal zero zero 0 (tiny_base (if near then metre else NaN)))"

lemma tiny_mk: "mk_f64 s 120 = Fin s 120" "mk_f64 s 240 = Fin s 240" "mk_f64 s 360 = Fin s 360"
  using round_mag_int [of 120] round_mag_int [of 240] round_mag_int [of 360] by (simp_all add: mk_f64_def)

lemma tiny_degrees: "f_mul (f_of_int 0) (Fin False 120) = Fin False 0" "f_mul (f_of_int 1) (Fin False 120) = Fin False 120"
  "f_mul (f_of_int 2) (Fin False 120) = Fin False 240" "f_mul (f_of_int 3) (Fin False 120) = Fin False 360"
  using mk_f64_small(1) [of False] by (simp_all add: f_of_int_exact tiny_mk)

lemma tiny_mark:
  assumes "t \<in> {0, 1, 2}" "margin \<in> {metre, NaN}"
  shows "goal_state ((tiny_base margin)\<lparr>goal_x := zero, goal_y := zero, goal_t := 0, thread_status := Map.empty\<rparr>) (tiny_state t False) =
    tiny_state t (margin = metre \<and> t \<noteq> 1)"
proof -
  have z: "f_mul (f_of_int 0) zero = zero" "f_add zero zero = zero" "f_mul zero zero = zero" "f_mul metre metre = metre" "f_lt zero metre" "\<not> f_lt zero NaN" "f_mul NaN NaN = NaN"
    using mk_f64_small(1,2) [of False] by (simp_all add: zero_def metre_def sval_def f_of_int_exact)
  have n: "metre \<noteq> NaN" "NaN \<noteq> metre" by (simp_all add: metre_def)
  have w: "wrap32 1 = 1" "wrap32 2 = 2" "wrap32 3 = 3" "wrap32 120 = 120" "wrap32 (- 120) = - 120" "wrap32 480 = 480" "wrap32 240 = 240"
    by (simp_all add: wrap32_small)
  have i: "f_as_i32 (Fin False 0) = 0" "f_as_i32 (Fin False 120) = 120" "f_as_i32 (Fin False 240) = 240" "f_as_i32 (Fin False 360) = 360"
    by (simp_all add: trunc0_def clamp_def)
  from assms(1) consider "t = 0" | "t = 1" | "t = 2" by blast
  then show ?thesis using assms(2)
    by cases (auto simp: goal_state_def mark_final_def init_value_def Let_def tiny_base_def value_iterator_new_def tiny_state_def z tiny_zero tiny_degrees n w i
        simp del: f_mul.simps f_lt.simps f_add.simps f_as_i32.simps)
qed

lemma tiny_goal: "set_goal zero zero 0 (tiny_base margin) = (tiny_base margin)\<lparr>states := map (\<lambda>t. tiny_state t (margin = metre \<and> t \<noteq> 1)) [0, 1, 2],
    goal_x := zero, goal_y := zero, status := ''calculating''\<rparr>" if "margin \<in> {metre, NaN}"
proof -
  have s: "states (tiny_base margin) = map (\<lambda>t. tiny_state t False) [0, 1, 2]" by (simp add: tiny_base_def)
  show ?thesis unfolding set_goal_def set_state_values_def s using tiny_mark [OF _ that]
    by (simp add: goal_state_def [symmetric] comp_def) (simp add: tiny_base_def value_iterator_new_def Let_def)
qed

definition tiny_actions :: "action list" where
  "tiny_actions = [\<lparr>a_name = ''stay'', delta_fw = NaN, delta_rot = NaN, a_id = 0, state_transitions = [[], [], []]\<rparr>]"

definition tiny_start :: "state list" where
  "tiny_start = map (\<lambda>t. tiny_state t (t \<noteq> 1)) [0, 1, 2]"

definition tiny_end :: "state list" where
  "tiny_end = [tiny_state 0 True, (tiny_state 1 False)\<lparr>total_cost := 0, optimal_action := Some 0\<rparr>, tiny_state 2 True]"

lemma tiny_updates:
  "value_iteration_raw tiny_start tiny_actions 0 1 1 3 = (tiny_start, 0)"
  "value_iteration_raw tiny_start tiny_actions 1 1 1 3 = (tiny_end, MAX_COST)"
  "value_iteration_raw tiny_end tiny_actions 0 1 1 3 = (tiny_end, 0)"
  "value_iteration_raw tiny_end tiny_actions 1 1 1 3 = (tiny_end, 0)"
  "value_iteration_raw tiny_end tiny_actions 2 1 1 3 = (tiny_end, 0)"
  by code_simp+

lemma tiny_column:
  assumes "actions vi = tiny_actions" "cell_num_x vi = 1" "cell_num_y vi = 1" "cell_num_t vi = 3"
  shows "states vi = tiny_start \<Longrightarrow> f2_column 0 0 vi = (vi\<lparr>states := tiny_end\<rparr>, 1)" "states vi = tiny_end \<Longrightarrow> f2_column 0 0 vi = (vi, 0)"
proof -
  have u: "[0..2::int] = [0, 1, 2]" by code_simp
  have i: "usize_of (to_index_raw 0 0 0 1 3) = 0" "usize_of (to_index_raw 0 0 1 1 3) = 1" "usize_of (to_index_raw 0 0 2 1 3) = 2" by code_simp+
  have p: "0 < MAX_COST" by (simp add: MAX_COST_eq)
  show "states vi = tiny_start \<Longrightarrow> f2_column 0 0 vi = (vi\<lparr>states := tiny_end\<rparr>, 1)" "states vi = tiny_end \<Longrightarrow> f2_column 0 0 vi = (vi, 0)"
    using assms by (simp_all add: f2_column_def u to_index_def i value_iteration_at_def tiny_updates [unfolded One_nat_def] tiny_updates p)
qed

definition tiny_board :: bitboard2d where "tiny_board = set2 (new2 1 1) 0 0"

lemma tiny_boards: "map_option enumerate2 (dilate2d tiny_board 1 1) = Some [(0, 0)]" "popcount2 tiny_board = 1" "popcount2 (new2 1 1) = 0"
  by code_simp+

lemma tiny_round:
  assumes "actions vi = tiny_actions" "cell_num_x vi = 1" "cell_num_y vi = 1" "cell_num_t vi = 3"
  shows "states vi = tiny_start \<Longrightarrow> frontier2d_round 1 1 vi tiny_board = Some (vi\<lparr>states := tiny_end\<rparr>, tiny_board, 1)"
    "states vi = tiny_end \<Longrightarrow> frontier2d_round 1 1 vi tiny_board = Some (vi, new2 1 1, 0)"
proof -
  obtain cands where c: "dilate2d tiny_board 1 1 = Some cands" "enumerate2 cands = [(0, 0)]" using tiny_boards(1) by auto
  have b: "set2 (new2 1 1) 0 0 = tiny_board" by (simp add: tiny_board_def)
  show "states vi = tiny_start \<Longrightarrow> frontier2d_round 1 1 vi tiny_board = Some (vi\<lparr>states := tiny_end\<rparr>, tiny_board, 1)"
    "states vi = tiny_end \<Longrightarrow> frontier2d_round 1 1 vi tiny_board = Some (vi, new2 1 1, 0)"
    using tiny_column [OF assms] assms by (simp_all add: frontier2d_round_def c [unfolded One_nat_def] frontier2d_visit_def b [unfolded One_nat_def])
qed

text \<open>The field with its goal, and rollouts on it.\<close>

definition tiny_field :: "f64 \<Rightarrow> value_iterator" where
  "tiny_field margin = set_goal zero zero 0 (tiny_base margin)"

lemma tiny_field_sel:
  assumes "margin \<in> {metre, NaN}"
  shows "actions (tiny_field margin) = tiny_actions" "cell_num_x (tiny_field margin) = 1" "cell_num_y (tiny_field margin) = 1"
    "cell_num_t (tiny_field margin) = 3" "xy_resolution (tiny_field margin) = zero" "t_resolution (tiny_field margin) = Fin False 120"
    "map_origin_x (tiny_field margin) = zero" "map_origin_y (tiny_field margin) = zero"
    "states (tiny_field margin) = map (\<lambda>t. tiny_state t (margin = metre \<and> t \<noteq> 1)) [0, 1, 2]"
  using assms unfolding tiny_field_def tiny_goal [OF assms] by (simp_all add: tiny_base_def value_iterator_new_def tiny_actions_def Let_def)

lemma tiny_start: "states (tiny_field metre) = tiny_start"
  by (simp add: tiny_field_sel tiny_start_def)

lemma tiny_displacement: "actions vi = tiny_actions \<Longrightarrow> displacement vi = (1, 1, 0)"
  by (simp add: displacement_def tiny_actions_def)

lemma tiny_seed:
  "seed_frontier_2d (tiny_field metre) = tiny_board" "seed_frontier_2d (tiny_field NaN) = new2 1 1"
proof -
  have p: "(0::u64) < MAX_COST" by (simp add: MAX_COST_eq)
  have s: "set2 tiny_board 0 0 = tiny_board" "set2 (new2 1 1) 0 0 = tiny_board" by code_simp+
  show "seed_frontier_2d (tiny_field metre) = tiny_board" "seed_frontier_2d (tiny_field NaN) = new2 1 1"
    using s by (simp_all add: seed_frontier_2d_def tiny_field_sel tiny_state_def p metre_def)
qed

lemma tiny_cell:
  assumes "xy_resolution v = zero" "t_resolution v = Fin False 120" "map_origin_x v = zero" "map_origin_y v = zero"
  shows "pose_to_cell_on (dense_view v) zero zero NaN = (0, 0, 0)"
proof -
  have w: "wrap32 36000 smod 360 = 0" by code_simp
  have n: "f_mul x NaN = NaN" "f_div NaN f_pi = NaN" for x by (cases x) (simp_all add: f_pi_def)
  show ?thesis
    by (simp add: pose_to_cell_on_def dense_view_def assms tiny_zero w tiny_ints n del: f_div.simps) (simp add: zero_def sval_def trunc0_def clamp_def)
qed

lemma tiny_roll:
  assumes "xy_resolution v = zero" "t_resolution v = Fin False 120" "map_origin_x v = zero" "map_origin_y v = zero"
    and "cell_num_x v = 1" "cell_num_y v = 1" "cell_num_t v = 3" "states v ! 0 = tiny_state 0 fin"
  shows "rollout_path_on cosf sinf (dense_view v) zero zero NaN (Suc n) 0 = Some (if fin
    then \<lparr>ro_poses = [pose_of (zero, zero, NaN), goal_pose (dense_view v)], ro_status = ReachedGoal\<rparr>
    else \<lparr>ro_poses = [pose_of (zero, zero, NaN)], ro_status = NoAction\<rparr>)"
proof -
  note c = tiny_cell [OF assms(1-4)]
  have nan: "f_to_radians NaN = NaN" "normalize_deg (f_to_degrees NaN) = NaN"
    by (simp_all add: f_to_radians_def normalize_deg_def f_to_degrees_def f_rem_euclid_def)
  have i: "usize_of (to_index v 0 0 0) = 0" using assms by (simp add: to_index_def to_index_raw_def wrap32_small usize_of_def)
  have s: "dense_is_final v 0 0 0 = fin" "dense_action_index v 0 0 0 = None" "dense_range v 0 0 0"
    using assms(5-8) by (simp_all add: dense_is_final_def dense_action_index_def dense_range_def in_map_area_def dense_state_def i tiny_state_def)
  have d: "vw_is_final (dense_view v) = dense_is_final v" "vw_action_index (dense_view v) = dense_action_index v" "vw_cell_num (dense_view v) = (1, 1, 3)"
    using assms by (simp_all add: dense_view_def)
  show ?thesis
    by (simp add: rollout_path_on_def rescued_start_def c cell_at_def nan d s vw_in_map_area_def in_map_xy_def)
qed


section \<open>Planner calls on the tiny map\<close>

lemma tiny_reaches:
  assumes "xy_resolution v = zero" "t_resolution v = Fin False 120" "map_origin_x v = zero" "map_origin_y v = zero"
    and "cell_num_x v = 1" "cell_num_y v = 1" "cell_num_t v = 3" "states v ! 0 = tiny_state 0 fin"
  shows "reaches_goal (tiny_env margin early) (dense_view v) here = Some fin"
  using tiny_roll [OF assms, of "\<lambda>_. metre" "\<lambda>_. zero" 2]
  by (simp add: reaches_goal_def tiny_env_def here_def reached_goal_def numeral_3_eq_3 numeral_2_eq_2)

text \<open>With a start that the middle of the solve already serves, the solve is stopped after one round.\<close>

lemma tiny_stop:
  assumes e: "e = tiny_env metre True" and d: "d = pl_dir idle_planner"
  shows "\<exists>d'. frontier2d_solve_observed (tiny_field metre) 5 (solve_director e (Some here)) (d\<lparr>dr_polls := 1\<rparr>) =
    Some ((tiny_field metre)\<lparr>states := tiny_end\<rparr>, outcome_stopped 1 1, d') \<and> \<not> dr_panic d'"
proof -
  let ?v = "tiny_field metre" and ?v1 = "(tiny_field metre)\<lparr>states := tiny_end\<rparr>" and ?obs = "solve_director e (Some here)"
  have sel: "metre \<in> {metre, NaN}" by simp
  note f = tiny_field_sel [OF sel]
  have reach: "reaches_goal e (dense_view ?v1) here = Some True"
    unfolding e by (rule tiny_reaches) (simp_all add: f tiny_end_def)
  obtain d' pc where b: "at_boundary ?obs (0 < popcount2 tiny_board) ?v1 (0 + 1) (0 + 1) (pacer_new ?obs, d\<lparr>dr_polls := 1\<rparr>) = (Stop, pc, d')" "\<not> dr_panic d'"
    using reach
    by (simp add: at_boundary_def pacer_due_def pacer_new_def solve_director_def tiny_boards poll_def d idle_planner_def Let_def) (simp add: e tiny_env_def)
  have "frontier2d_solve_observed ?v 5 ?obs (d\<lparr>dr_polls := 1\<rparr>) = Some (?v1, outcome_stopped (0 + 1) (0 + 1), snd (pc, d'))"
    using frontier_loop_step [where pop = popcount2 and f = tiny_board and i = 0 and m = 5 and rnd = "frontier2d_round 1 1" and vi = ?v and obs = ?obs
        and u = 0 and po = "(pacer_new ?obs, d\<lparr>dr_polls := 1\<rparr>)", OF _ tiny_round(1) [OF f(1-4) tiny_start] b(1)]
    by (simp add: frontier2d_solve_observed_def tiny_displacement f(1) tiny_seed tiny_boards)
  then show ?thesis using b(2) by auto
qed


lemma tiny_quiet:
  assumes e: "e = tiny_env margin early"
  shows "boundary (solve_director e None) d p = (Continue, d\<lparr>dr_polls := dr_polls d + 1, dr_shown := dr_shown d @ [pr_vi p]\<rparr>)"
  by (simp add: solve_director_def poll_def e tiny_env_def Let_def)

text \<open>Without a start the second round finds nothing to do.\<close>

lemma tiny_converged:
  assumes e: "e = tiny_env metre early"
  shows "\<exists>d'. frontier2d_solve_observed (tiny_field metre) 5 (solve_director e None) d =
    Some ((tiny_field metre)\<lparr>states := tiny_end\<rparr>, outcome_running 2 1 True, d') \<and> dr_panic d' = dr_panic d"
proof -
  let ?v = "tiny_field metre" and ?v1 = "(tiny_field metre)\<lparr>states := tiny_end\<rparr>" and ?obs = "solve_director e None"
  let ?loop = "frontier_loop (frontier2d_round 1 1) popcount2 5 ?obs"
  have sel: "metre \<in> {metre, NaN}" by simp
  note f = tiny_field_sel [OF sel]
  have v1: "actions ?v1 = tiny_actions" "cell_num_x ?v1 = 1" "cell_num_y ?v1 = 1" "cell_num_t ?v1 = 3" "states ?v1 = tiny_end" by (simp_all add: f)
  obtain d1 pc where b: "at_boundary ?obs (0 < popcount2 tiny_board) ?v1 (0 + 1) (0 + 1) (pacer_new ?obs, d) = (Continue, pc, d1)" "dr_panic d1 = dr_panic d"
    by (simp add: at_boundary_def pacer_due_def pacer_new_def tiny_boards tiny_quiet [OF e]) (simp add: solve_director_def poll_def Let_def e tiny_env_def)
  have b2: "at_boundary ?obs (0 < popcount2 (new2 1 1)) ?v1 (1 + 1) (1 + 0) (pc, d1) = (Continue, pc, d1)"
    by (simp add: at_boundary_def tiny_boards [unfolded One_nat_def])
  have "?loop ?v tiny_board 0 0 (pacer_new ?obs, d) = ?loop ?v1 tiny_board 1 1 (pc, d1)"
    using frontier_loop_step [where pop = popcount2 and f = tiny_board and i = 0 and m = 5 and rnd = "frontier2d_round 1 1" and vi = ?v and obs = ?obs
        and u = 0 and po = "(pacer_new ?obs, d)", OF _ tiny_round(1) [OF f(1-4) tiny_start] b(1)]
    by (simp add: tiny_boards)
  also have "\<dots> = ?loop ?v1 (new2 1 1) 2 1 (pc, d1)"
    using frontier_loop_step [where pop = popcount2 and f = tiny_board and i = 1 and m = 5 and rnd = "frontier2d_round 1 1" and vi = ?v1 and obs = ?obs
        and u = 1 and po = "(pc, d1)", OF _ tiny_round(2) [OF v1] b2]
    by (simp add: tiny_boards numeral_2_eq_2)
  also have "\<dots> = Some (?v1, outcome_running 2 1 True, d1)" by (simp add: frontier_loop_done tiny_boards [unfolded One_nat_def])
  finally show ?thesis using b(2) by (simp add: frontier2d_solve_observed_def tiny_displacement f(1) tiny_seed)
qed

text \<open>A margin that is no number makes no cell a goal.\<close>

lemma tiny_lost:
  "frontier2d_solve_observed (tiny_field NaN) 5 (solve_director e from) d = Some (tiny_field NaN, outcome_running 0 0 True, d)"
  using tiny_field_sel(1) [of NaN]
  by (simp add: frontier2d_solve_observed_def tiny_displacement tiny_seed frontier_loop_done tiny_boards [unfolded One_nat_def])

lemma tiny_yaw: "yaw_to_goal_theta_deg NaN = 0"
  by (simp add: yaw_to_goal_theta_deg_def f_rem_euclid_def f_to_degrees_def)

lemma tiny_run:
  assumes e: "e = tiny_env margin early"
    and r: "frontier2d_solve_observed (tiny_field margin) 5 (solve_director e from) (d\<lparr>dr_polls := Suc (dr_polls d)\<rparr>) = Some (b, out, d')" "\<not> dr_panic d'"
      "\<not> o_cancelled out" "o_converged out \<or> o_stopped out"
  shows "\<exists>m. base m = b \<and> solve_dense e here 0 from d = Some (Inr (m, o_iters out, o_stopped out), d')"
proof -
  obtain m where m: "dense_map e = Some m" "base m = tiny_base margin" using tiny_dense e by blast
  have b: "set_goal (pv_x here) (pv_y here) 0 (base m) = tiny_field margin" by (simp add: here_def tiny_field_def m(2))
  have "solve_dense e here 0 from d = Some (Inr (m\<lparr>base := b\<rparr>, o_iters out, o_stopped out), d')"
    using r b m(1) by (simp add: solve_dense_def poll_def run_solver_def) (simp add: e tiny_env_def)
  then show ?thesis by auto
qed


lemma tiny_prepare:
  assumes "solve_dense e here 0 (if pc_early_start (e_cfg e) then from else None) (pl_dir idle_planner) = Some (Inr (vi, it, un), d')"
  shows "prepare_goal_with_progress e None here from idle_planner = Some (Inr (stats0\<lparr>ss_solved_now := True, ss_iters := it, ss_partial := un\<rparr>),
    \<lparr>pl_core = install_field un \<lparr>cg_x = zero, cg_y = zero, cg_t_deg = 0, cg_field = vi, cg_partial = un\<rparr> (reset_for_goal (pl_core idle_planner)), pl_dir = d', pl_pre = ()\<rparr>)"
proof -
  have y: "yaw_to_goal_theta_deg (yaw_rad here) = 0" by (simp add: here_def tiny_yaw)
  have n: "cache_matches (pl_core idle_planner) here 0 = False" by (simp add: cache_matches_def idle_planner_def mgr_init_def)
  have s: "pl_pre idle_planner = ()" by simp
  show ?thesis using assms
    by (simp add: prepare_goal_with_progress_def y n try_adopt_def finish_goal_def request_next_def stats0_def Let_def) (simp add: here_def idle_planner_def)
qed

lemma tiny_rolled:
  assumes c: "c_cached (pl_core pl) = Some c" and b: "base (cg_field c) = v" and e: "e = tiny_env margin early"
    and v: "v = (tiny_field margin)\<lparr>states := sts\<rparr>" "sts ! 0 = tiny_state 0 fin" "margin \<in> {metre, NaN}"
  shows "core_rollout e (pl_core pl) here = Some (if fin
    then \<lparr>ro_poses = [pose_of (zero, zero, NaN), goal_pose (dense_view v)], ro_status = ReachedGoal\<rparr>
    else \<lparr>ro_poses = [pose_of (zero, zero, NaN)], ro_status = NoAction\<rparr>)"
proof -
  have "rollout_path_on (\<lambda>_. metre) (\<lambda>_. zero) (dense_view v) zero zero NaN (Suc 2) 0 = Some (if fin
    then \<lparr>ro_poses = [pose_of (zero, zero, NaN), goal_pose (dense_view v)], ro_status = ReachedGoal\<rparr>
    else \<lparr>ro_poses = [pose_of (zero, zero, NaN)], ro_status = NoAction\<rparr>)"
    by (rule tiny_roll) (simp_all add: v(1,2) tiny_field_sel [OF v(3)])
  then show ?thesis by (simp add: core_rollout_cached [OF c] b e tiny_env_def here_def numeral_3_eq_3 numeral_2_eq_2)
qed

text \<open>The early start: stopped after one round, and the plan is answered from there.\<close>

lemma tiny_early:
  "\<exists>st pl. prepare_goal_with_progress (tiny_env metre True) None here (Some here) idle_planner = Some (Inr st, pl) \<and> ss_solved_now st \<and> ss_partial st \<and>
    (\<exists>c. c_cached (pl_core pl) = Some c \<and> base (cg_field c) = (tiny_field metre)\<lparr>states := tiny_end\<rparr>)"
proof -
  define e where "e = tiny_env metre True"
  obtain d' where d: "frontier2d_solve_observed (tiny_field metre) 5 (solve_director e (Some here)) ((pl_dir idle_planner)\<lparr>dr_polls := 1\<rparr>) =
      Some ((tiny_field metre)\<lparr>states := tiny_end\<rparr>, outcome_stopped 1 1, d')" "\<not> dr_panic d'"
    using tiny_stop [OF e_def refl] by blast
  have "dr_polls (pl_dir idle_planner) = 0" by (simp add: idle_planner_def)
  then obtain m where m: "base m = (tiny_field metre)\<lparr>states := tiny_end\<rparr>" "solve_dense e here 0 (Some here) (pl_dir idle_planner) = Some (Inr (m, 1, True), d')"
    using tiny_run [OF e_def, of "Some here" "pl_dir idle_planner"] d by (auto simp: outcome_stopped_def)
  have "pc_early_start (e_cfg e)" by (simp add: e_def tiny_env_def)
  then show ?thesis using tiny_prepare [of e "Some here" m 1 True d'] m by (simp add: e_def stats0_def)
qed

theorem early_start_rolls_out_witness:
  "\<exists>st pl r. prepare_goal_with_progress (tiny_env metre True) None here (Some here) idle_planner = Some (Inr st, pl) \<and> is_partial (pl_core pl) \<and> reached_goal r \<and>
    plan_with_progress (tiny_env metre True) None here here idle_planner = Some (plan_result (tiny_env metre True) st r, pl)"
proof -
  obtain st pl where p: "prepare_goal_with_progress (tiny_env metre True) None here (Some here) idle_planner = Some (Inr st, pl)" "ss_solved_now st" "ss_partial st"
    using tiny_early by blast
  have "in_place (pc_solver (e_cfg (tiny_env metre True)))" "pre_ok None (\<lambda>_. True) (\<lambda>_. True) idle_planner" by (simp_all add: tiny_env_def pre_ok_def)
  from early_start_rolls_out [OF p this(2,1)] p(1) show ?thesis by blast
qed

lemma tiny_plan: "\<exists>ps pl. plan (tiny_env metre True) None here here idle_planner = Some (Inr ps, pl) \<and> length (fst ps) = 2"
proof -
  obtain st pl c where p: "prepare_goal_with_progress (tiny_env metre True) None here (Some here) idle_planner = Some (Inr st, pl)"
    and c: "c_cached (pl_core pl) = Some c" "base (cg_field c) = (tiny_field metre)\<lparr>states := tiny_end\<rparr>"
    using tiny_early by blast
  have "core_rollout (tiny_env metre True) (pl_core pl) here = Some \<lparr>ro_poses = [pose_of (zero, zero, NaN), goal_pose (dense_view ((tiny_field metre)\<lparr>states := tiny_end\<rparr>))], ro_status = ReachedGoal\<rparr>"
    using tiny_rolled [OF c refl refl, of True] by (simp add: tiny_end_def)
  moreover have "\<not> f_lt (f_of_int 0) (pc_path_spacing (e_cfg (tiny_env metre True)))" by (simp add: tiny_env_def tiny_ints tiny_zero)
  ultimately show ?thesis using p by (simp add: plan_def plan_with_progress_def reached_goal_def plan_result_def Let_def)
qed

theorem plan_success_witness:
  "\<exists>poses ps pl c. plan (tiny_env metre True) None here here idle_planner = Some (Inr (poses, ps), pl) \<and> c_cached (pl_core pl) = Some c \<and>
    last poses = goal_pose (dense_view (base (cg_field c))) \<and> ps_poses ps = 2"
proof -
  obtain poses ps pl where p: "plan (tiny_env metre True) None here here idle_planner = Some (Inr (poses, ps), pl)" "length poses = 2" using tiny_plan by fastforce
  have "in_place (pc_solver (e_cfg (tiny_env metre True)))" "pre_ok None (\<lambda>_. True) (\<lambda>_. True) idle_planner" by (simp_all add: tiny_env_def pre_ok_def)
  from plan_success [OF p(1) this(2,1)] p show ?thesis by auto
qed

lemma tiny_fail: "\<exists>pl. plan (tiny_env NaN True) None here here idle_planner = Some (Inl (PlanRollout NoAction), pl)"
proof -
  define e where "e = tiny_env NaN True"
  have n: "NaN \<in> {metre, NaN}" by simp
  have d: "\<not> dr_panic (pl_dir idle_planner)" by (simp add: idle_planner_def)
  obtain m d' where m: "base m = tiny_field NaN" "solve_dense e here 0 (Some here) (pl_dir idle_planner) = Some (Inr (m, 0, False), d')"
    using tiny_run [OF e_def tiny_lost] d by (simp add: outcome_running_def) blast
  have "pc_early_start (e_cfg e)" by (simp add: e_def tiny_env_def)
  then obtain st pl c where p: "prepare_goal_with_progress e None here (Some here) idle_planner = Some (Inr st, pl)"
    and c: "c_cached (pl_core pl) = Some c" "base (cg_field c) = tiny_field NaN" "\<not> cg_partial c"
    using tiny_prepare [of e "Some here" m 0 False d'] m by simp
  have s: "tiny_field NaN = (tiny_field NaN)\<lparr>states := states (tiny_field NaN)\<rparr>" by simp
  have "core_rollout e (pl_core pl) here = Some \<lparr>ro_poses = [pose_of (zero, zero, NaN)], ro_status = NoAction\<rparr>"
    using tiny_rolled [OF c(1,2) e_def s _ n, of False] by (simp add: tiny_field_sel [OF n] metre_def)
  then show ?thesis using p c
    by (simp add: e_def [symmetric] plan_def plan_with_progress_def reached_goal_def plan_result_def discard_partial_spec is_partial_def Let_def)
qed

lemma tiny_base_sel: "actions (tiny_base margin) = tiny_actions" "cell_num_x (tiny_base margin) = 1" "cell_num_y (tiny_base margin) = 1"
  "cell_num_t (tiny_base margin) = 3"
  by (simp_all add: tiny_base_def value_iterator_new_def tiny_actions_def Let_def)

lemma tiny_wf: "wf_vi (tiny_base margin)" "theta_uniform (tiny_base margin)"
proof -
  have d: "dim_x (tiny_base margin) = 1" "dim_y (tiny_base margin) = 1" "dim_t (tiny_base margin) = 3"
    by (simp_all add: tiny_base_def dim_x_def dim_y_def dim_t_def)
  have s: "states (tiny_base margin) = map (\<lambda>t. tiny_state t False) [0, 1, 2]" by (simp add: tiny_base_def)
  have three: "[0..<3] = [0, 1, 2::nat]" by code_simp
  show "wf_vi (tiny_base margin)"
    by (simp add: wf_vi_def d s three tiny_base_sel tiny_actions_def wf_state_def state_at_def wf_action_def tiny_state_def Let_def)
  have "t = 0 \<or> t = 1 \<or> t = 2" if "t < 3" for t :: nat using that by auto
  then show "theta_uniform (tiny_base margin)" by (fastforce simp: theta_uniform_def d state_at_def s state_input_def tiny_state_def)
qed

lemma tiny_ready:
  obtains m where "dense_map (tiny_env margin early) = Some m" "base m = tiny_base margin" "wf_vi (base m)"
    "solver_fits (pc_solver (e_cfg (tiny_env margin early))) (base m)" "exact_kind (pc_solver (e_cfg (tiny_env margin early)))"
proof -
  obtain m where m: "dense_map (tiny_env margin early) = Some m" "base m = tiny_base margin" using tiny_dense by blast
  then show thesis using that tiny_wf(1) tiny_displacement [OF tiny_base_sel(1)] by (simp add: solver_fits_def tiny_env_def)
qed

theorem plan_failure_is_final_witness:
  "\<exists>pl c. plan (tiny_env NaN True) None here here idle_planner = Some (Inl (PlanRollout NoAction), pl) \<and> c_cached (pl_core pl) = Some c \<and>
    \<not> cg_partial c \<and> (\<forall>cl. in_map (base (cg_field c)) cl \<longrightarrow> settled (base (cg_field c)) cl \<or> unreached (base (cg_field c)) cl)"
proof -
  obtain pl where p: "plan (tiny_env NaN True) None here here idle_planner = Some (Inl (PlanRollout NoAction), pl)" using tiny_fail by blast
  obtain m where m: "dense_map (tiny_env NaN True) = Some m" "base m = tiny_base NaN" "wf_vi (base m)"
    "solver_fits (pc_solver (e_cfg (tiny_env NaN True))) (base m)" "exact_kind (pc_solver (e_cfg (tiny_env NaN True)))" by (rule tiny_ready)
  have pre: "pre_ok None (\<lambda>_. True) (solved_goal m) idle_planner" by (simp add: pre_ok_def)
  have none: "\<forall>c. c_cached (pl_core idle_planner) = Some c \<and> keyed c here \<and> \<not> cg_partial c \<longrightarrow> solved_goal m c"
    by (simp add: idle_planner_def mgr_init_def)
  from plan_failure_is_final [OF p pre m(5,1,3,4) none] p show ?thesis by blast
qed

lemma tiny_prepared:
  obtains st pl m where "prepare_goal_with_progress (tiny_env metre True) None here None idle_planner = Some (Inr st, pl)"
    "ss_solved_now st" "\<not> ss_adopted st" "\<not> ss_partial st" "base m = (tiny_field metre)\<lparr>states := tiny_end\<rparr>"
    "c_cached (pl_core pl) = Some \<lparr>cg_x = zero, cg_y = zero, cg_t_deg = 0, cg_field = m, cg_partial = False\<rparr>"
proof -
  define e where "e = tiny_env metre True"
  obtain d' where d: "frontier2d_solve_observed (tiny_field metre) 5 (solve_director e None) ((pl_dir idle_planner)\<lparr>dr_polls := Suc (dr_polls (pl_dir idle_planner))\<rparr>) =
      Some ((tiny_field metre)\<lparr>states := tiny_end\<rparr>, outcome_running 2 1 True, d')" "\<not> dr_panic d'"
    using tiny_converged [OF e_def] by (fastforce simp: idle_planner_def)
  obtain m where m: "base m = (tiny_field metre)\<lparr>states := tiny_end\<rparr>" "solve_dense e here 0 None (pl_dir idle_planner) = Some (Inr (m, 2, False), d')"
    using tiny_run [OF e_def d] by (auto simp: outcome_running_def)
  show thesis using that [OF tiny_prepare [of "tiny_env metre True" None m 2 False d'] _ _ _ m(1)] m(2) by (simp add: e_def stats0_def)
qed

theorem prepared_field_solved_witness:
  "\<exists>st pl c. prepare_goal_with_progress (tiny_env metre True) None here None idle_planner = Some (Inr st, pl) \<and> c_cached (pl_core pl) = Some c \<and>
    \<not> ss_partial st \<and> (settled (base (cg_field c)) (0, 0, 1) \<or> unreached (base (cg_field c)) (0, 0, 1))"
proof -
  obtain st pl m where p: "prepare_goal_with_progress (tiny_env metre True) None here None idle_planner = Some (Inr st, pl)"
    and st: "ss_solved_now st" "\<not> ss_adopted st" "\<not> ss_partial st" and m: "base m = (tiny_field metre)\<lparr>states := tiny_end\<rparr>"
    and c: "c_cached (pl_core pl) = Some \<lparr>cg_x = zero, cg_y = zero, cg_t_deg = 0, cg_field = m, cg_partial = False\<rparr>" by (rule tiny_prepared)
  obtain m0 where m0: "dense_map (tiny_env metre True) = Some m0" "base m0 = tiny_base metre" "wf_vi (base m0)"
    "solver_fits (pc_solver (e_cfg (tiny_env metre True))) (base m0)" "exact_kind (pc_solver (e_cfg (tiny_env metre True)))" by (rule tiny_ready)
  have pre: "pre_ok None (\<lambda>_. True) (\<lambda>_. True) idle_planner" by (simp add: pre_ok_def)
  from prepared_field_solved [OF p st(1,2) pre m0(5,1,3,4)] st(3) m c
  have "settled (base m) (0, 0, 1) \<or> unreached (base m) (0, 0, 1)"
    using tiny_field_sel(2-4) [of metre] by (auto simp: dim_x_def dim_y_def dim_t_def)
  then show ?thesis using p st(3) c by auto
qed

theorem plan_refines_manager_witness:
  "\<exists>res pl. plan (tiny_env metre True) None here here idle_planner = Some (res, pl) \<and>
    mgr_reachable 1 1 True ((mgr_init 1 1 True)\<lparr>ms_core := pl_core pl\<rparr>) \<and> 0 < epoch (c_global (pl_core pl))"
proof -
  obtain ps pl where p: "plan (tiny_env metre True) None here here idle_planner = Some (Inr ps, pl)" using tiny_plan by blast
  obtain m where m: "dense_map (tiny_env metre True) = Some m" "base m = tiny_base metre" "wf_vi (base m)"
    "solver_fits (pc_solver (e_cfg (tiny_env metre True))) (base m)" by (rule tiny_ready)
  have fits: "map_fits (tiny_env metre True) (pl_core idle_planner)"
    using tiny_wf m(4) by (simp add: map_fits_def m(1,2) field_ok_def idle_planner_def mgr_init_def tiny_base_sel)
  have kept: "map_kept (tiny_env metre True)" by (rule in_place_kept) (simp add: tiny_env_def)
  have h: "pre_ok None (\<lambda>_. True) (\<lambda>c. field_ok (pl_core idle_planner) (cg_field c)) idle_planner" "mgr_reachable 1 1 True (mgr_init 1 1 True)"
    "ms_core (mgr_init 1 1 True) = pl_core idle_planner" by (simp_all add: pre_ok_def mgr_reachable_def idle_planner_def)
  have "\<not> is_cached_goal (pl_core idle_planner) here" by (simp add: is_cached_goal_def cache_matches_def idle_planner_def mgr_init_def)
  then show ?thesis using plan_refines_manager [OF p h(1) kept fits h(2,3) refl] p by auto
qed

definition following :: core where
  "following = (pl_core idle_planner)\<lparr>c_cached := Some \<lparr>cg_x = metre, cg_y = metre, cg_t_deg = 0, cg_field = (vi_local_new [] 1)\<lparr>base := path_vi\<rparr>, cg_partial = False\<rparr>\<rparr>"

theorem decide_sound_witness:
  "fst (decide (\<lambda>b pose m. (greedy_decide (e_cfg (tiny_env metre True)) b pose, m)) following here ()) =
     DecideAction (Some 1) (delta_fw (actions path_vi ! 0)) (delta_rot (actions path_vi ! 0))"
proof -
  have l: "core_local following = Some ((vi_local_new [] 1)\<lparr>base := path_vi\<rparr>)" by (simp add: following_def core_local_def)
  have c: "pose_to_cell path_vi (pv_x here) (pv_y here) (yaw_rad here) = (0, 0, 0)"
    using path_cells [of 0 0 NaN] by (simp add: pose_to_cell_def here_def zero_def cell_at_def f_to_radians_def)
  have f: "\<not> dense_is_final path_vi 0 0 0" by code_simp
  have i: "\<not> invalidating (c_global following)" by (simp add: following_def idle_planner_def mgr_init_def invalidating_def manager_default_def)
  have o: "optimal_action_at path_vi 0 0 0 = 1" by code_simp
  have "action_at path_vi 0 0 0 = Some (DecideAction (Some 1) (delta_fw (actions path_vi ! 0)) (delta_rot (actions path_vi ! 0)))"
    unfolding action_at_def o Let_def by (simp add: path_vi_def corridor_solved_def corridor_of_def corridor_action_def)
  then show ?thesis
    using decide_sound [OF l _ refl refl, where pose = here and ix = 0 and iy = 0 and it = 0 and cfg = "e_cfg (tiny_env metre True)" and m = "()"] c f i by simp
qed

end
