(* ===== verification/Waypoints.thy ===== *)
theory Waypoints
  imports Planning
begin

text \<open>
  The waypoint prefetcher at work: its worker thread, which solves the goals it is ordered with a spare planner
  core of its own (\<^verbatim>\<open>worker\<close> of \<^verbatim>\<open>vi_planner/src/core/prefetch.rs\<close>), and the waiting loop of \<^verbatim>\<open>adopt\<close>, during which
  the worker and the subscriber of the waypoints act. Every turn is a step of the relation of Prefetch, and what
  the planner adopts is what a preparation on the spare core has solved.
\<close>

section \<open>The code\<close>

text \<open>The prefetch system and the worker's spare core.\<close>

record waypoint_state =
  ws_sys :: "vi_local pf_sys"
  ws_spare :: "unit planner"

text \<open>What another thread does at a time: nothing, a new tour, or a turn of the worker; \<open>Work\<close> carries what the
  worker's cancel flag reads at the polls of its solve.\<close>

datatype other_act = Idle | Tour "pose_view list" | Work "nat \<Rightarrow> bool"

definition take_order :: "waypoint_state \<Rightarrow> waypoint_state" where
  "take_order s =
     (case worker_take (shared (ws_sys s)) of
        None \<Rightarrow> s
      | Some (g, c, st) \<Rightarrow> s\<lparr>ws_sys := \<lparr>shared = st, busy = Some (g, c)\<rparr>\<rparr>)"

text \<open>The solve and the result; a panic ends the worker, which then stays busy for ever.\<close>

definition put_result :: "planner_env \<Rightarrow> (nat \<Rightarrow> bool) \<Rightarrow> pose_view \<Rightarrow> waypoint_state \<Rightarrow> waypoint_state" where
  "put_result w reads g s =
     (case prepare_goal (w\<lparr>e_cancel := reads\<rparr>) None g (ws_spare s) of
        None \<Rightarrow> s
      | Some (Inl err, sp) \<Rightarrow>
          s\<lparr>ws_sys := \<lparr>shared = worker_put (Inl (if err = PlanCancelled then Cancelled else Other)) (shared (ws_sys s)), busy = None\<rparr>, ws_spare := sp\<rparr>
      | Some (Inr _, sp) \<Rightarrow>
          (case c_cached (pl_core sp) of
             None \<Rightarrow> s\<lparr>ws_sys := \<lparr>shared = (worker_put (Inl Other) (shared (ws_sys s)))\<lparr>ready := None\<rparr>, busy = None\<rparr>, ws_spare := sp\<rparr>
           | Some c \<Rightarrow> s\<lparr>ws_sys := \<lparr>shared = worker_put (Inr c) (shared (ws_sys s)), busy = None\<rparr>,
                        ws_spare := sp\<lparr>pl_core := (pl_core sp)\<lparr>c_cached := None\<rparr>\<rparr>\<rparr>))"

fun prefetch_turn :: "planner_env \<Rightarrow> other_act \<Rightarrow> waypoint_state \<Rightarrow> waypoint_state" where
  "prefetch_turn w Idle s = s"
| "prefetch_turn w (Tour wps) s = s\<lparr>ws_sys := (ws_sys s)\<lparr>shared := set_waypoints wps (shared (ws_sys s))\<rparr>\<rparr>"
| "prefetch_turn w (Work reads) s =
     (case busy (ws_sys s) of None \<Rightarrow> take_order s | Some (g, _) \<Rightarrow> put_result w reads g s)"

text \<open>The waiting loop of \<open>adopt\<close>: before every turn the other threads act.\<close>

partial_function (option) adopt_wait ::
  "(nat \<Rightarrow> bool) \<Rightarrow> (nat \<Rightarrow> waypoint_state \<Rightarrow> waypoint_state) \<Rightarrow> pose_view \<Rightarrow> i32 \<Rightarrow> nat \<Rightarrow> waypoint_state
    \<Rightarrow> (vi_local cached_goal option \<times> waypoint_state) option" where
  "adopt_wait cancelled others g t n s =
     (let s = others n s in
      case adopt_turn g t (cancelled n) (shared (ws_sys s)) of (r, st) \<Rightarrow>
        let s = s\<lparr>ws_sys := (ws_sys s)\<lparr>shared := st\<rparr>\<rparr> in
        (case r of
           Adopted c \<Rightarrow> Some (Some c, s)
         | Absent \<Rightarrow> Some (None, s)
         | Waiting \<Rightarrow> adopt_wait cancelled others g t (Suc n) s))"

declare adopt_wait.simps [code]

text \<open>The prefetcher of a planner: \<open>acts n\<close> happens before turn \<open>n\<close> of a hand-over, \<open>late\<close> between it and the note.\<close>

definition waypoint_api :: "planner_env \<Rightarrow> (nat \<Rightarrow> bool) \<Rightarrow> (nat \<Rightarrow> other_act list) \<Rightarrow> other_act list \<Rightarrow> waypoint_state prefetch_api" where
  "waypoint_api w cancelled acts late =
     \<lparr>pf_adopt = (\<lambda>g t. adopt_wait cancelled (\<lambda>n. fold (prefetch_turn w) (acts n)) g t 0),
      pf_note = (\<lambda>g s. let s = fold (prefetch_turn w) late s
                       in s\<lparr>ws_sys := (ws_sys s)\<lparr>shared := note_goal g (shared (ws_sys s))\<rparr>\<rparr>)\<rparr>"

section \<open>The worker's contract\<close>

text \<open>What holds between the turns: the system is in a reachable state of Prefetch, the spare core has given its
  field away, and the field that waits to be adopted is finished and good.\<close>

definition ws_ok :: "(vi_local cached_goal \<Rightarrow> bool) \<Rightarrow> waypoint_state \<Rightarrow> bool" where
  "ws_ok good s \<longleftrightarrow> pf_reachable (ws_sys s) \<and> c_cached (pl_core (ws_spare s)) = None \<and>
     (\<forall>c. ready (shared (ws_sys s)) = Some c \<longrightarrow> \<not> cg_partial c \<and> good c)"

lemma pf_extend: "pf_reachable s \<Longrightarrow> pf_step s s' \<Longrightarrow> pf_reachable s'"
  unfolding pf_reachable_def by (rule rtranclp.rtrancl_into_rtrancl)

lemma ready_kept:
  "ready (set_waypoints wps st) = ready st" "worker_take st = Some (g, c, st') \<Longrightarrow> ready st' = ready st" "ready (worker_put (Inl err) st) = ready st"
  by (auto simp: set_waypoints_def worker_take_def worker_put_def Let_def split: option.splits)

lemma note_ready: "ready (note_goal g st) = Some c \<Longrightarrow> ready st = Some c"
  by (cases rule: note_goal_cases [of g st]) (simp_all add: discard_def planner_sections)

lemma adopt_turn_ready:
  assumes "adopt_turn g t b st = (r, st')"
  shows "ready st' = None" "r = Adopted c \<Longrightarrow> ready st = Some c \<and> goal_matches (cached_key c) (pv_x g, pv_y g, t)"
  using assms by (cases rule: adopt_turn_cases; auto simp: planner_sections split: if_splits)+

text \<open>A preparation with the key of the goal, on a core that has no field.\<close>

lemma spare_key:
  assumes "prepare_goal e (None :: unit prefetch_api option) g sp = Some (Inr st, sp')" "c_cached (pl_core sp) = None"
  shows "\<exists>c. c_cached (pl_core sp') = Some c \<and> cached_key c = pose_key g"
proof (rule prepare_cases [OF assms(1) [unfolded prepare_goal_def] _ refl, of "\<lambda>_. True" "\<lambda>_. False"])
  show "pre_ok None (\<lambda>_. True) (\<lambda>_. False) sp" by (simp add: pre_ok_def)
qed (use assms(2) in \<open>auto simp: cache_matches_def cached_key_def pose_key_def\<close>)

lemma spare_error:
  assumes "prepare_goal e (None :: unit prefetch_api option) g sp = Some (Inl err, sp')"
  shows "c_cached (pl_core sp') = None"
proof -
  have "pre_ok None (\<lambda>_. True) (\<lambda>_. False) sp" by (simp add: pre_ok_def)
  from prepare_error(1) [OF assms [unfolded prepare_goal_def] this] show ?thesis by simp
qed

text \<open>What the worker relies on: what its spare core prepares is finished and good.\<close>

locale waypoint_worker =
  fixes w :: planner_env and good :: "vi_local cached_goal \<Rightarrow> bool"
  assumes solved: "prepare_goal (w\<lparr>e_cancel := reads\<rparr>) (None :: unit prefetch_api option) g sp = Some (Inr st, sp') \<Longrightarrow>
      c_cached (pl_core sp) = None \<Longrightarrow> c_cached (pl_core sp') = Some c \<Longrightarrow> \<not> cg_partial c \<and> good c"
begin

lemma put_ok:
  assumes ok: "ws_ok good s" and b: "busy (ws_sys s) = Some (g, k)"
  shows "ws_ok good (put_result w reads g s)"
proof -
  have reach: "pf_reachable (ws_sys s)" and idle: "c_cached (pl_core (ws_spare s)) = None"
    and rdy: "\<And>c. ready (shared (ws_sys s)) = Some c \<Longrightarrow> \<not> cg_partial c \<and> good c" using ok by (simp_all add: ws_ok_def)
  show ?thesis
  proof (cases "prepare_goal (w\<lparr>e_cancel := reads\<rparr>) None g (ws_spare s)")
    case (Some r)
    obtain q sp where q: "prepare_goal (w\<lparr>e_cancel := reads\<rparr>) None g (ws_spare s) = Some (q, sp)" using Some by (cases r) auto
    show ?thesis
    proof (cases q)
      case (Inl err)
      have "pf_step (ws_sys s) \<lparr>shared = worker_put (Inl (if err = PlanCancelled then Cancelled else Other)) (shared (ws_sys s)), busy = None\<rparr>"
        by (rule pf_step.put_err [OF b])
      from pf_extend [OF reach this] show ?thesis using q Inl rdy spare_error [OF q [unfolded Inl]]
        by (simp add: put_result_def ws_ok_def ready_kept)
    next
      case (Inr st)
      obtain c where c: "c_cached (pl_core sp) = Some c" "cached_key c = pose_key g" using spare_key [OF q [unfolded Inr] idle] by blast
      have "pf_step (ws_sys s) \<lparr>shared = worker_put (Inr c) (shared (ws_sys s)), busy = None\<rparr>" by (rule pf_step.put_ok [OF b c(2)])
      from pf_extend [OF reach this] show ?thesis using q Inr c(1) solved [OF q [unfolded Inr] idle c(1)]
        by (simp add: put_result_def ws_ok_def worker_put_def Let_def)
    qed
  qed (use ok in \<open>simp add: put_result_def\<close>)
qed

lemma turn_ok: "ws_ok good s \<Longrightarrow> ws_ok good (prefetch_turn w a s)"
proof (cases a)
  case (Tour wps)
  assume ok: "ws_ok good s"
  then have "pf_reachable ((ws_sys s)\<lparr>shared := set_waypoints wps (shared (ws_sys s))\<rparr>)"
    unfolding ws_ok_def by (blast intro: pf_extend pf_step.set_wps)
  then show ?thesis using ok by (simp add: Tour ws_ok_def ready_kept)
next
  case (Work reads)
  assume ok: "ws_ok good s"
  show ?thesis
  proof (cases "busy (ws_sys s)")
    case None
    show ?thesis
    proof (cases "worker_take (shared (ws_sys s))")
      case (Some r)
      obtain g c st where r: "worker_take (shared (ws_sys s)) = Some (g, c, st)" using Some by (cases r) auto
      from pf_extend [OF _ pf_step.taking [OF None r]] show ?thesis using ok r
        by (simp add: Work None take_order_def ws_ok_def ready_kept(2) [OF r])
    qed (use ok in \<open>simp add: Work None take_order_def\<close>)
  next
    case (Some gk)
    then show ?thesis using put_ok [OF ok, of "fst gk" "snd gk"] by (cases gk) (simp add: Work)
  qed
qed simp

lemma turns_ok: "ws_ok good s \<Longrightarrow> ws_ok good (fold (prefetch_turn w) as s)"
  by (induction "as" arbitrary: s) (simp_all add: turn_ok)

lemma adopt_step:
  assumes ok: "ws_ok good s" and a: "adopt_turn g t b (shared (ws_sys s)) = (r, st)"
  shows "ws_ok good (s\<lparr>ws_sys := (ws_sys s)\<lparr>shared := st\<rparr>\<rparr>)"
    "r = Adopted c \<Longrightarrow> \<not> cg_partial c \<and> good c \<and> goal_matches (cached_key c) (pv_x g, pv_y g, t)"
  using ok adopt_turn_ready [OF a] pf_extend [OF _ pf_step.adopting [OF a]] by (auto simp: ws_ok_def)

lemma adopt_wait_ok:
  assumes "adopt_wait cancelled others g t n s = Some q" "ws_ok good s" "\<And>n s. ws_ok good s \<Longrightarrow> ws_ok good (others n s)"
  shows "ws_ok good (snd q) \<and> (\<forall>c. fst q = Some c \<longrightarrow> \<not> cg_partial c \<and> good c \<and> goal_matches (cached_key c) (pv_x g, pv_y g, t))"
proof -
  define P where "P cancelled others g t n s q \<longleftrightarrow> ws_ok good s \<longrightarrow> (\<forall>n s. ws_ok good s \<longrightarrow> ws_ok good (others n s)) \<longrightarrow>
      ws_ok good (snd q) \<and> (\<forall>c. fst q = Some c \<longrightarrow> \<not> cg_partial c \<and> good c \<and> goal_matches (cached_key c) (pv_x g, pv_y g, t))"
    for cancelled :: "nat \<Rightarrow> bool" and others :: "nat \<Rightarrow> waypoint_state \<Rightarrow> waypoint_state" and g :: pose_view and t :: i32 and n :: nat
      and s and q :: "vi_local cached_goal option \<times> waypoint_state"
  have "P cancelled others g t n s q"
  proof (rule adopt_wait.raw_induct [OF _ assms(1)])
    fix f cancelled others g t n s q
    assume IH: "\<And>cancelled others g t n s q. f cancelled others g t n s = Some q \<Longrightarrow> P cancelled others g t n s q"
      and eq: "(let s = others n s in
        case adopt_turn g t (cancelled n) (shared (ws_sys s)) of (r, st) \<Rightarrow>
          let s = s\<lparr>ws_sys := (ws_sys s)\<lparr>shared := st\<rparr>\<rparr> in
          (case r of Adopted c \<Rightarrow> Some (Some c, s) | Absent \<Rightarrow> Some (None, s) | Waiting \<Rightarrow> f cancelled others g t (Suc n) s)) = Some q"
    obtain r st where r: "adopt_turn g t (cancelled n) (shared (ws_sys (others n s))) = (r, st)" by fastforce
    show "P cancelled others g t n s q" unfolding P_def
    proof (intro impI)
      assume h: "ws_ok good s" "\<forall>n s. ws_ok good s \<longrightarrow> ws_ok good (others n s)"
      then have "ws_ok good (others n s)" by blast
      note ok = adopt_step [OF this r]
      show "ws_ok good (snd q) \<and> (\<forall>c. fst q = Some c \<longrightarrow> \<not> cg_partial c \<and> good c \<and> goal_matches (cached_key c) (pv_x g, pv_y g, t))"
      proof (cases r)
        case Waiting
        then have "f cancelled others g t (Suc n) ((others n s)\<lparr>ws_sys := (ws_sys (others n s))\<lparr>shared := st\<rparr>\<rparr>) = Some q" using eq r by (simp add: Let_def)
        from IH [OF this] ok h(2) show ?thesis by (simp add: P_def)
      qed (use eq r ok in \<open>auto simp: Let_def\<close>)
    qed
  qed
  then show ?thesis using assms by (simp add: P_def)
qed

lemma note_ok: "ws_ok good s \<Longrightarrow> ws_ok good (s\<lparr>ws_sys := (ws_sys s)\<lparr>shared := note_goal g (shared (ws_sys s))\<rparr>\<rparr>)"
  using pf_extend [OF _ pf_step.noted [of "ws_sys s" g]] note_ready [of g "shared (ws_sys s)"] by (auto simp: ws_ok_def)

lemma prefetches: "prefetcher (waypoint_api w cancelled acts late) (ws_ok good) good"
proof unfold_locales
  fix p p' :: waypoint_state and g t r
  assume "ws_ok good p" "pf_adopt (waypoint_api w cancelled acts late) g t p = Some (r, p')"
  then show "ws_ok good p' \<and> (\<forall>c. r = Some c \<longrightarrow> \<not> cg_partial c \<and> goal_matches (cached_key c) (pv_x g, pv_y g, t) \<and> good c)"
    using adopt_wait_ok [of cancelled "\<lambda>n. fold (prefetch_turn w) (acts n)" g t 0 p "(r, p')"] turns_ok by (simp add: waypoint_api_def)
next
  fix p g assume "ws_ok good p"
  from note_ok [OF turns_ok [OF this, of late], of g] show "ws_ok good (pf_note (waypoint_api w cancelled acts late) g p)"
    by (simp add: waypoint_api_def Let_def)
qed

text \<open>The worker provides what the planner core asks of a prefetcher.\<close>

sublocale prefetcher "waypoint_api w cancelled acts late" "ws_ok good" good for cancelled acts late
  by (rule prefetches)

end

text \<open>A worker with an exact solver on a map that it can work on prepares solved fields.\<close>

lemma exact_worker:
  assumes k: "exact_kind (pc_solver (e_cfg w))" and m: "dense_map w = Some m" "wf_vi (base m)" "solver_fits (pc_solver (e_cfg w)) (base m)"
  shows "waypoint_worker w (solved_goal m)"
proof unfold_locales
  fix reads g and sp sp' :: "unit planner" and st c
  let ?w = "w\<lparr>e_cancel := reads\<rparr>"
  assume p: "prepare_goal ?w None g sp = Some (Inr st, sp')" and none: "c_cached (pl_core sp) = None" and c: "c_cached (pl_core sp') = Some c"
  note p' = p [unfolded prepare_goal_def]
  have pre: "pre_ok None (\<lambda>_. True) (\<lambda>_. False) sp" by (simp add: pre_ok_def)
  have in_w: "in_place (pc_solver (e_cfg ?w))" using k by auto
  have "\<not> is_partial (pl_core sp')" using prepared_finished [OF p' pre in_w] none by (simp add: is_partial_def)
  then have fin: "\<not> cg_partial c" using c by (simp add: is_partial_def)
  have "field_from ?w (\<lambda>_. False) g sp c" using prepared_keyed [OF p' pre] c by auto
  moreover have "dense_map ?w = Some m" using m(1) by (simp add: dense_map_def)
  ultimately have "solved_goal m c" using field_from_solved [of ?w "\<lambda>_. False" g sp c m] k m(2,3) none fin by simp
  with fin show "\<not> cg_partial c \<and> solved_goal m c" by blast
qed

interpretation frontier_worker: waypoint_worker "w\<lparr>e_cfg := (e_cfg w)\<lparr>pc_solver := Frontier2D\<rparr>\<rparr>"
  "\<lambda>c. \<forall>m. dense_map w = Some m \<and> wf_vi (base m) \<and> fst (displacement (base m)) < 64 \<longrightarrow> solved_goal m c" for w
proof unfold_locales
  let ?w = "w\<lparr>e_cfg := (e_cfg w)\<lparr>pc_solver := Frontier2D\<rparr>\<rparr>"
  fix reads g and sp sp' :: "unit planner" and st c
  assume p: "prepare_goal (?w\<lparr>e_cancel := reads\<rparr>) None g sp = Some (Inr st, sp')" "c_cached (pl_core sp) = None" "c_cached (pl_core sp') = Some c"
  have "\<not> is_partial (pl_core sp')" using prefetched_finished [OF p(1)] p(2) by (simp add: is_partial_def)
  then have fin: "\<not> cg_partial c" using p(3) by (simp add: is_partial_def)
  have "solved_goal m c" if "dense_map w = Some m" "wf_vi (base m)" "fst (displacement (base m)) < 64" for m
  proof -
    have "waypoint_worker ?w (solved_goal m)" using that by (intro exact_worker) (simp_all add: dense_map_def solver_fits_def)
    from waypoint_worker.solved [OF this p] show ?thesis ..
  qed
  with fin show "\<not> cg_partial c \<and> (\<forall>m. dense_map w = Some m \<and> wf_vi (base m) \<and> fst (displacement (base m)) < 64 \<longrightarrow> solved_goal m c)" by blast
qed

text \<open>C33: what is prefetched is as good as what is solved on arrival. Let the worker's solver be a frontier, block
  or pyramid solver on a well-formed map that it can work on. However the worker's turns, new tours and the raising of
  its cancel flag fall between the turns of a preparation, which may wait for the worker, the prefetch system stays in
  a reachable state, and the field waiting there is finished and solved for the goal it is keyed with. When the
  preparation adopts a field, it solves nothing itself, and the cached field is the finished one of its goal:
  the map with the goal set on it, every cell a fixed point of the Bellman update or without a successor that has a
  value.\<close>

theorem prefetched_goal_solved:
  assumes "prepare_goal_with_progress e (Some (waypoint_api w cancelled acts late)) goal from pl = Some (res, pl')"
    and "ws_ok (solved_goal m) (pl_pre pl)" and "exact_kind (pc_solver (e_cfg w))" and "dense_map w = Some m" and "wf_vi (base m)"
    and "solver_fits (pc_solver (e_cfg w)) (base m)"
  shows "pf_reachable (ws_sys (pl_pre pl')) \<and> c_cached (pl_core (ws_spare (pl_pre pl'))) = None \<and>
    (\<forall>c. ready (shared (ws_sys (pl_pre pl'))) = Some c \<longrightarrow> \<not> cg_partial c \<and> solved_goal m c) \<and>
    (\<forall>st. res = Inr st \<and> ss_adopted st \<longrightarrow> pl_dir pl' = pl_dir pl \<and>
      (\<exists>c. c_cached (pl_core pl') = Some c \<and> goal_matches (cached_key c) (goal_key_of goal) \<and> \<not> cg_partial c \<and> goal_field m c \<and>
        (\<forall>cl. in_map (base (cg_field c)) cl \<longrightarrow> settled (base (cg_field c)) cl \<or> unreached (base (cg_field c)) cl)))"
proof -
  let ?api = "Some (waypoint_api w cancelled acts late)"
  note worker = exact_worker [OF assms(3-6)]
  have pre: "pre_ok ?api (ws_ok (solved_goal m)) (solved_goal m) pl"
    using assms(2) waypoint_worker.prefetches [OF worker, of cancelled acts late] by (simp add: pre_ok_def)
  have post: "pre_ok ?api (ws_ok (solved_goal m)) (solved_goal m) pl'" by (rule prepare_cases [OF assms(1) pre refl])
  have "pl_dir pl' = pl_dir pl \<and> (\<exists>c. c_cached (pl_core pl') = Some c \<and> goal_matches (cached_key c) (goal_key_of goal) \<and> \<not> cg_partial c \<and> solved_goal m c)"
    if "res = Inr st" "ss_adopted st" for st
    by (rule prepare_cases [OF assms(1) pre refl]) (use that in \<open>auto simp: stats0_def goal_key_of_def\<close>)
  then show ?thesis using post by (simp add: pre_ok_def ws_ok_def solved_goal_def fixpoint_field_def del: in_map.simps)
qed

section \<open>A tour of two points\<close>

definition there :: pose_view where
  "there = \<lparr>pv_x = metre, pv_y = zero, yaw_rad = NaN\<rparr>"

text \<open>The planner is at the first point and the second is ordered.\<close>

definition tour :: waypoint_state where
  "tour = \<lparr>ws_sys = \<lparr>shared = pf_default\<lparr>waypoints := [there, here], want := Some here\<rparr>, busy = None\<rparr>, ws_spare = idle_planner\<rparr>"

definition tour_planner :: "waypoint_state planner" where
  "tour_planner = \<lparr>pl_core = pl_core idle_planner, pl_dir = pl_dir idle_planner, pl_pre = tour\<rparr>"

lemma tour_goals: "f_eq zero zero" "f_eq metre metre" "\<not> f_eq metre zero"
  by (simp_all add: f_eq_def zero_def metre_def sval_def)

lemma tour_reachable: "pf_reachable (ws_sys tour)"
proof -
  let ?s = "pf_init\<lparr>shared := set_waypoints [there, here] (shared pf_init)\<rparr>"
  have "pf_reachable ?s" by (rule pf_extend [OF _ pf_step.set_wps]) (simp add: pf_reachable_def)
  moreover have "pf_step ?s (ws_sys tour)"
    using pf_step.noted [of ?s there]
    by (simp add: pf_init_def pf_default_def set_waypoints_def note_goal_def position_of_def same_goal_def pose_key_def goal_matches_def there_def here_def
        tour_goals pf_request_def opt_same_def discard_def cancel_in_flight_def tour_def)
  ultimately show ?thesis by (rule pf_extend)
qed

text \<open>Two turns of the worker: it takes the order and puts the solved field down.\<close>

lemma tour_turns:
  "\<exists>c. ready (shared (ws_sys (fold (prefetch_turn (tiny_env metre True)) [Work (\<lambda>_. False), Work (\<lambda>_. False)] tour))) = Some c \<and>
    cached_key c = (zero, zero, 0)"
proof -
  obtain st pl m where p: "prepare_goal_with_progress (tiny_env metre True) None here None idle_planner = Some (Inr st, pl)"
    and c: "c_cached (pl_core pl) = Some \<lparr>cg_x = zero, cg_y = zero, cg_t_deg = 0, cg_field = m, cg_partial = False\<rparr>" by (rule tiny_prepared)
  have e: "(tiny_env metre True)\<lparr>e_cancel := \<lambda>_. False\<rparr> = tiny_env metre True" by (simp add: tiny_env_def)
  have taken: "busy (ws_sys (prefetch_turn (tiny_env metre True) (Work (\<lambda>_. False)) tour)) = Some (here, 0)"
    "ws_spare (prefetch_turn (tiny_env metre True) (Work (\<lambda>_. False)) tour) = idle_planner"
    by (simp_all add: take_order_def tour_def worker_take_def pf_default_def Let_def)
  show ?thesis using p c
    by (simp add: prefetch_turn.simps(3) [of _ _ "prefetch_turn _ _ tour"] taken put_result_def prepare_goal_def e worker_put_def cached_key_def Let_def
        del: prefetch_turn.simps(3))
qed

lemma tour_adopts:
  "\<exists>st pl. prepare_goal_with_progress (tiny_env metre True)
      (Some (waypoint_api (tiny_env metre True) (\<lambda>_. False) (\<lambda>_. [Work (\<lambda>_. False), Work (\<lambda>_. False)]) [])) here None tour_planner = Some (Inr st, pl) \<and>
    ss_adopted st"
proof -
  define s where "s = fold (prefetch_turn (tiny_env metre True)) [Work (\<lambda>_. False), Work (\<lambda>_. False)] tour"
  obtain c where c: "ready (shared (ws_sys s)) = Some c" "cached_key c = (zero, zero, 0)" using tour_turns by (auto simp: s_def)
  have y: "yaw_to_goal_theta_deg (yaw_rad here) = 0" by (simp add: here_def tiny_yaw)
  have "adopt_turn here 0 False (shared (ws_sys s)) = (Adopted c, (shared (ws_sys s))\<lparr>ready := None\<rparr>)"
    by (simp add: adopt_turn_def c goal_matches_def here_def tour_goals)
  then have "\<exists>q. adopt_wait (\<lambda>_. False) (\<lambda>n. fold (prefetch_turn (tiny_env metre True)) [Work (\<lambda>_. False), Work (\<lambda>_. False)]) here 0 0 tour = Some (Some c, q)"
    by (subst adopt_wait.simps) (simp add: s_def [symmetric] Let_def del: fold.simps prefetch_turn.simps)
  moreover have "\<not> cache_matches (pl_core tour_planner) here 0" by (simp add: tour_planner_def idle_planner_def mgr_init_def cache_matches_def)
  ultimately show ?thesis
    by (auto simp: prepare_goal_with_progress_def y try_adopt_def waypoint_api_def finish_goal_def stats0_def tour_planner_def Let_def
        simp del: fold.simps prefetch_turn.simps)
qed

theorem prefetched_goal_solved_witness:
  "\<exists>st pl c. prepare_goal_with_progress (tiny_env metre True)
      (Some (waypoint_api (tiny_env metre True) (\<lambda>_. False) (\<lambda>_. [Work (\<lambda>_. False), Work (\<lambda>_. False)]) [])) here None tour_planner = Some (Inr st, pl) \<and>
    ss_adopted st \<and> c_cached (pl_core pl) = Some c \<and> \<not> cg_partial c \<and>
    (\<forall>cl. in_map (base (cg_field c)) cl \<longrightarrow> settled (base (cg_field c)) cl \<or> unreached (base (cg_field c)) cl)"
proof -
  obtain st pl where p: "prepare_goal_with_progress (tiny_env metre True)
      (Some (waypoint_api (tiny_env metre True) (\<lambda>_. False) (\<lambda>_. [Work (\<lambda>_. False), Work (\<lambda>_. False)]) [])) here None tour_planner = Some (Inr st, pl)" "ss_adopted st"
    using tour_adopts by blast
  obtain m where m: "dense_map (tiny_env metre True) = Some m" "base m = tiny_base metre" "wf_vi (base m)"
    "solver_fits (pc_solver (e_cfg (tiny_env metre True))) (base m)" "exact_kind (pc_solver (e_cfg (tiny_env metre True)))" by (rule tiny_ready)
  have "ws_ok (solved_goal m) (pl_pre tour_planner)" using tour_reachable
    by (simp add: ws_ok_def tour_planner_def tour_def pf_default_def idle_planner_def mgr_init_def)
  from prefetched_goal_solved [OF p(1) this m(5,1,3,4)] p show ?thesis by blast
qed

end
