(* ===== verification/Spec2Isabelle.thy ===== *)
theory Spec2Isabelle
  imports Frontier Costs Block Padded Bridge Prefetch Fused Local Manager Rollout Planning Waypoints
begin

text \<open>
  A verification library for the value-iteration planner in \<^verbatim>\<open>src/vi_rs\<close>. The program computes, on an
  occupancy grid with discretised headings, the cheapest expected cost from every state to a goal
  region, and keeps the resulting field up to date while a robot drives on it. This text says which
  theory models which part of the code, what is shown, and what is left out.

  \<^bold>\<open>Conventions.\<close> A Rust struct is a record and an enum a datatype. \<open>u64\<close> is \<open>64 word\<close> and wraps as
  \<^verbatim>\<open>wrapping_add\<close> and \<^verbatim>\<open>wrapping_mul\<close> do; \<open>i32\<close> is \<open>int\<close> with \<open>wrap32\<close> written where the code can overflow
  (Prelude). \<open>f64\<close> is an executable model of IEEE binary64 with rounding to nearest (F64); \<open>cos\<close> and
  \<open>sin\<close>, whose precision the language leaves open, are arguments of the definitions that use them.
  Arrays are lists; that every index is in range is part of the invariants. Panics and loops that may
  not end are \<open>None\<close>. An observer passed to a solver is an arbitrary function with its own state. The
  number of threads is an argument. The definitions are executable; the witnesses evaluate them on
  a corridor of three cells (Corridor) and on small literal fields.

  \<^bold>\<open>Data and update\<close> (\<^verbatim>\<open>vi_lib\<close>).
  \<^item> Model: \<^verbatim>\<open>params.rs\<close>, \<^verbatim>\<open>msg.rs\<close>, \<^verbatim>\<open>action.rs\<close>, \<^verbatim>\<open>state_transition.rs\<close>, \<^verbatim>\<open>state.rs\<close>, and the record
    \<open>value_iterator\<close> of \<^verbatim>\<open>value_iterator.rs\<close>.
  \<^item> ValueIterator: map set-up by bands, transition tables by sub-cell sampling, sweep orders, goals,
    the per-state update \<open>value_iteration_raw\<close>, and the writers of \<^verbatim>\<open>value_iterator.rs\<close>.
  \<^item> Bellman: the invariant \<open>wf_vi\<close>, the successor relation, what one update changes, and that a cell stays
    settled as long as none of its successors moves.
  \<^item> Costs: when the wrapping sums are exact, the branches of the cost, the wrap-around when a
    successor has no value, optimality of a settled field, and greedy descent to the goal.

  \<^bold>\<open>Cell sets\<close> (\<^verbatim>\<open>vi_lib/src/bitboard\<close>). Bitboard: packed boards, set, test, popcount, and dilation by shifted
  words, shown to be the box (and the ring of headings) of radius \<open>dx, dy, dt\<close>. BitIter: the iterators,
  shown to list exactly the set bits, in row-major order, without repetition.

  \<^bold>\<open>Solvers\<close> (\<^verbatim>\<open>vi_lib/src/solvers\<close>).
  \<^item> ActiveSet: displacement, seeding, observation and the round loop shared by the frontier solvers. The
    locale \<open>frontier_solver\<close> states what a round has to mark and revisit; its conclusions are proved once
    and interpreted by the solvers of Frontier and Block.
  \<^item> Frontier: \<^verbatim>\<open>frontier2d.rs\<close>, \<^verbatim>\<open>frontier3d.rs\<close>, \<^verbatim>\<open>stack.rs\<close>. A converged result is a fixed point of the Bellman
    update, and the loops end.
  \<^item> Block: \<^verbatim>\<open>block.rs\<close> and \<^verbatim>\<open>pyramid.rs\<close>, with the same contract for blocks of cells and levels of blocks.
  \<^item> Original: \<^verbatim>\<open>original/worker.rs\<close>, \<^verbatim>\<open>original/solve.rs\<close> and \<^verbatim>\<open>stream.rs\<close>: six sweep orders, the stop criterion
    of two equal sweeps, and the per-thread status.
  \<^item> Padded: \<^verbatim>\<open>frontier2d_pad.rs\<close> and \<^verbatim>\<open>frontier2d_par.rs\<close>: the padded layout, the parallel Jacobi round by bands.
    The result does not depend on the number of threads and refines the clamped Bellman equation.
  \<^item> AsyncEngine: \<open>async_gs_engine\<close> of \<^verbatim>\<open>mod.rs\<close> as an interleaving semantics. A column evaluation is a program
    of loads and stores; \<open>gs_step\<close> lets any worker make one turn (claim a block, one memory access, leave)
    or the leader close the round. The locale \<open>async_model\<close> states what a memory model must give; every
    schedule then ends and a converged one is a fixed point.
  \<^item> ParUnsafe: \<^verbatim>\<open>frontier2d_par_unsafe.rs\<close>, the interpretation of \<open>async_model\<close> on the padded map.
  \<^item> Fused: \<^verbatim>\<open>frontier2d_fused.rs\<close>: value and penalty in one word with a sentinel; a refinement of the padded
    map while no cell loses its value (build, evaluation of a column, materialisation, with or without the cells
    that have no value), and a field on which it is not.

  \<^bold>\<open>Local field.\<close> Local: \<^verbatim>\<open>vi_lib/src/local.rs\<close>: the window around the robot, the local penalties of a laser scan with
  their decay and the inflation by the pose uncertainty. The distance transform behind the inflation
  is exact, and the writers change only the free flag and the penalties, inside the window.

  \<^bold>\<open>Planner.\<close> Bridge: \<^verbatim>\<open>bridge.rs\<close>, the conversion between messages and grids. Prefetch:
  \<^verbatim>\<open>vi_planner/src/core/prefetch.rs\<close>, the waypoint prefetcher as a step relation of client calls and
  worker turns under one mutex.

  \<^bold>\<open>Field manager.\<close> One field is shared by the follower, which refines the window around the robot, and a
  background worker, which propagates the changes over the map. Both take jobs (snapshots with a frozen
  halo) from the core, compute outside its lock and hand the result back; epochs, revisions, ownership
  and a certificate decide what a commit may publish.
  \<^item> GlobalManager: the operations of \<^verbatim>\<open>vi_planner/src/core/global.rs\<close>, of the files under \<^verbatim>\<open>core/global\<close> and of
    the sweep, window and refinement of \<^verbatim>\<open>core/mod.rs\<close>, on a record \<open>core\<close> for the dense path of \<open>PlannerCore\<close>.
    Shown here: a snapshot is the map shifted by its origin, and repaired fields.
  \<^item> Certificate: a pass with no difference, serial or parallel, leaves every column it visited settled, and
    what a job's snapshot knows carries over to the live field as long as its counters agree (\<open>local_view\<close>).
  \<^item> Refine: the in-place refinement of the window does the same on the live field.
  \<^item> Ownership: the invariant of the core, what the other operations keep of it, and the relation \<open>evolves\<close>:
    counters never go back, and while they and the owner stand still, so does the field outside the owned cells.
  \<^item> Manager: the system of one core and the jobs that are out, with a step for every operation in any order.
    The locale \<open>job_rely\<close> is the contract between a job holder and the core (what is fine stays fine while
    the core evolves), interpreted for global and for local jobs. Every reachable state keeps the
    invariant; the certificate is sound and a global commit is safe.

  \<^bold>\<open>Plans and decisions.\<close>
  \<^item> Rollout: \<^verbatim>\<open>vi_lib/src/planner.rs\<close>. A policy view is a record of functions, with the dense field and the sink of
    the out-of-core solver as its two instances; rollout, rescue of a start, densification. The square root is
    modelled as correctly rounded. A rollout follows the policy, tells truthfully why it ended and always ends.
  \<^item> Planner: the dense path of \<^verbatim>\<open>vi_planner/src/core/mod.rs\<close>, \<^verbatim>\<open>core/follow.rs\<close> and \<^verbatim>\<open>core/value_grid.rs\<close> and the
    dispatch of \<^verbatim>\<open>solvers/mod.rs\<close>. A call maps an environment and the state of core, director and prefetcher to a
    result. The locale \<open>observed_solver\<close> is the contract between a solver and its observer, interpreted by all
    solvers that work in place; the locale \<open>prefetcher\<close> is what the core relies on when it adopts a field.
  \<^item> Planning: the locale \<open>framing_solver\<close>, a solver that writes values, policies and status only, interpreted by all
    that work in place, and the locale \<open>exact_solver\<close>, interpreted by the frontier, block and pyramid solvers; and the
    promises of the planner: the field that is prepared, early starts, failures, results, decisions and value grids;
    and that a plan is a run of the manager's steps after which no older job can publish, so that the invariants of
    Manager hold whatever is planned meanwhile. What a solver needs of the map (\<open>solver_fits\<close>) and that the map is well
    formed are hypotheses.
  \<^item> Waypoints: the worker of the waypoint prefetcher, which solves on a spare core, and the waiting loop of
    \<^verbatim>\<open>adopt\<close>, with any interleaving. Every turn is a step of the relation of Prefetch. The locale \<open>waypoint_worker\<close> asks
    that the spare core prepares finished fields and is a sublocale of \<open>prefetcher\<close>; with an exact solver what is
    adopted is the solved field of the goal.

  The solvers with a representation of their own are the argument \<open>e_rest\<close>, about which nothing is assumed: the
  properties are stated for the solvers that work in place (\<open>in_place\<close>) or the exact ones among them (\<open>exact_kind\<close>),
  and one for every solver with the contract \<open>framing_solver\<close>. What the cancel flag reads at each poll is the
  argument \<open>e_cancel\<close>. The samplers of \<^verbatim>\<open>ctrl.rs\<close> are arguments of the controllers that use them.

  The jobs that are out form a list of any length, although the code's workers hold one each; a run with fewer is one of
  the modelled runs. The follower's order of calls (the window is set before a scan, a margin or a
  refinement) is the guard \<open>window_ready\<close>. The counters are natural numbers, so an overflow of 64 bits is
  not modelled.

  \<^bold>\<open>Bounds.\<close> The solvers' loops run at most \<open>max_iter\<close> rounds, which is their recursion measure, so no fuel is
  needed. The asynchronous engine's steps decrease a weight built from the candidates left, the
  length of the running programs and the rounds left. The floating-point sampling loops are partial
  functions in the option monad, and so is the refinement of the window, whose clock queries are
  answered by an argument.

  \<^bold>\<open>Not modelled.\<close> The sparse and out-of-core solvers, the priority-queue and Schur solvers and the GPU
  kernels; the out-of-core branches of the field manager and of the planner core (patch, tile repair,
  penalty table); \<open>qmdp_decide\<close>, which orders sums by \<^verbatim>\<open>total_cmp\<close> and so by the sign bit of a NaN, and
  \<open>decide_qmdp\<close>; the sampling of the continuous controllers and localisation (floating-point estimation without a
  discrete contract); the ROS node, the benchmarks and the code in other languages. Memory is
  sequentially consistent per cell: the relaxed atomics of the asynchronous solvers are modelled as
  interleaved single-word loads and stores, which is what relaxed ordering guarantees for one
  location, and the barrier between rounds orders the rest.
\<close>

end
